(* ===== verification/TP_Prelude.thy ===== *)
theory TP_Prelude
  imports Main "HOL-Library.Word" "HOL-Library.Multiset" "HOL-Library.AList"
begin

text \<open>
  Shared vocabulary of the development: the error values of
  \<^verbatim>\<open>tensorpipe/common/error.h\<close>, the faults that the throwing macros of
  \<^verbatim>\<open>tensorpipe/common/defs.h\<close> raise, a result type for code that may throw, and the
  generic list lemmas that the component theories use.
\<close>

section \<open>Collections of rewrite rules\<close>

named_theorems result_simps \<open>evaluation of the result monad\<close>

section \<open>Error values\<close>

text \<open>
  The class \<^verbatim>\<open>Error\<close> wraps a possibly null pointer to a \<^verbatim>\<open>BaseError\<close>; converting it
  to \<^verbatim>\<open>bool\<close> asks whether there is one. One constructor per error class the modelled
  code creates; an error that a lower-level component reports is an \<open>OtherError\<close>.
\<close>

datatype tp_error =
    Success
  | PipeClosedError
  | ListenerClosedError
  | ContextClosedError
  | ChannelClosedError
  | ConnectionClosedError
  | EOFError
  | OtherError string

definition is_error :: "tp_error \<Rightarrow> bool" where
  "is_error e \<longleftrightarrow> e \<noteq> Success"

lemma is_error_simps [simp]:
  "\<not> is_error Success" "is_error PipeClosedError" "is_error ListenerClosedError"
  "is_error ContextClosedError" "is_error ChannelClosedError" "is_error ConnectionClosedError"
  "is_error EOFError" "is_error (OtherError w)"
  by (simp_all add: is_error_def)

section \<open>Faults and results\<close>

text \<open>
  \<^verbatim>\<open>TP_DCHECK*\<close>, \<^verbatim>\<open>TP_THROW_ASSERT*\<close>, \<^verbatim>\<open>TP_THROW_EINVAL\<close> and
  \<^verbatim>\<open>TP_THROW_SYSTEM\<close> throw; calling an empty \<^verbatim>\<open>std::function\<close> and
  \<^verbatim>\<open>unordered_map::at\<close> on a missing key throw too; \<open>DanglingIterator\<close> is an access
  through a pointer to an operation that has been erased. \<open>UninitializedRead\<close> is a read
  of a member that has no value yet. \<open>OutOfFuel\<close> is not a fault of
  the code: it marks a loop model that was given too little fuel.
\<close>

datatype fault =
    DCheckFailed
  | AssertFailed
  | InvalidArgument
  | SystemFault int
  | BadFunctionCall
  | DanglingIterator
  | OutOfRange
  | UninitializedRead
  | NullDereference
  | OutOfFuel

type_synonym 'a result = "fault + 'a"

definition bindR :: "'a result \<Rightarrow> ('a \<Rightarrow> 'b result) \<Rightarrow> 'b result" where
  "bindR m f = (case m of Inl e \<Rightarrow> Inl e | Inr x \<Rightarrow> f x)"

lemma bindR_simps [simp, result_simps]:
  "bindR (Inl e) f = Inl e"
  "bindR (Inr x) f = f x"
  by (simp_all add: bindR_def)

lemma bindR_eq_Inr: "bindR m f = Inr y \<longleftrightarrow> (\<exists>x. m = Inr x \<and> f x = Inr y)"
  by (cases m) simp_all

lemma bindR_eq_Inl: "bindR m f = Inl e \<longleftrightarrow> m = Inl e \<or> (\<exists>x. m = Inr x \<and> f x = Inl e)"
  by (cases m) simp_all

lemma bindR_assoc: "bindR (bindR m f) g = bindR m (\<lambda>x. bindR (f x) g)"
  by (cases m) simp_all

lemma bindR_cong [fundef_cong]:
  "m = m' \<Longrightarrow> (\<And>x. m' = Inr x \<Longrightarrow> f x = f' x) \<Longrightarrow> bindR m f = bindR m' f'"
  by (cases m') simp_all

definition dcheck :: "bool \<Rightarrow> 'a result \<Rightarrow> 'a result" where
  "dcheck c k = (if c then k else Inl DCheckFailed)"

definition throw_assert_if :: "bool \<Rightarrow> 'a result \<Rightarrow> 'a result" where
  "throw_assert_if c k = (if c then Inl AssertFailed else k)"

lemma dcheck_simps [simp, result_simps]:
  "dcheck True k = k"
  "dcheck False k = Inl DCheckFailed"
  by (simp_all add: dcheck_def)

lemma throw_assert_if_simps [simp, result_simps]:
  "throw_assert_if True k = Inl AssertFailed"
  "throw_assert_if False k = k"
  by (simp_all add: throw_assert_if_def)

lemma dcheck_eq_Inr: "dcheck c k = Inr y \<longleftrightarrow> c \<and> k = Inr y"
  by (simp add: dcheck_def)

lemma throw_assert_if_eq_Inr: "throw_assert_if c k = Inr y \<longleftrightarrow> \<not> c \<and> k = Inr y"
  by (simp add: throw_assert_if_def)

lemmas result_eq_Inr = bindR_eq_Inr dcheck_eq_Inr throw_assert_if_eq_Inr

lemma not_Inl_unit: "(\<forall>e. a \<noteq> Inl e) \<longleftrightarrow> a = Inr ()"
  by (cases a) auto

section \<open>Lists\<close>

lemma dropWhile_append_nonempty:
  "dropWhile P (xs @ y # ys) =
     (if (\<forall>x \<in> set xs. P x) \<and> P y then dropWhile P ys else dropWhile P xs @ y # ys)"
proof (cases "\<forall>x \<in> set xs. P x")
  case True
  then have "dropWhile P xs = []" by simp
  then show ?thesis using True by (simp add: dropWhile_append)
next
  case False
  then show ?thesis by (auto simp: dropWhile_append)
qed

lemma dropWhile_append_dropWhile: "dropWhile P (dropWhile P xs @ ys) = dropWhile P (xs @ ys)"
  by (induction xs) auto

lemma last_dropWhile: "dropWhile P xs \<noteq> [] \<Longrightarrow> last (dropWhile P xs) = last xs"
  by (induction xs) auto

lemma dropWhile_hd_False: "xs = [] \<or> \<not> P (hd xs) \<Longrightarrow> dropWhile P xs = xs"
  by (cases xs) auto

lemma set_dropWhile_subset: "set (dropWhile P xs) \<subseteq> set xs"
  using set_dropWhileD by fastforce

section \<open>Words\<close>

lemma of_nat_word_eq_0: "n < 2 ^ LENGTH('a) \<Longrightarrow> (of_nat n :: 'a::len word) = 0 \<longleftrightarrow> n = 0"
  by (auto simp: word_of_nat_eq_0_iff dest: dvd_imp_le)

lemma unat_word_of_nat: "n < 2 ^ LENGTH('a) \<Longrightarrow> unat (of_nat n :: 'a::len word) = n"
  by (simp add: unat_of_nat take_bit_nat_eq_self)

section \<open>Association lists\<close>

lemma map_of_in_range: "map_of xs k = Some v \<Longrightarrow> v \<in> snd ` set xs"
  by (force dest: map_of_SomeD)

lemma mset_delete:
  assumes "distinct (map fst al)" and "map_of al k = Some v"
  shows "mset (map f al) = mset (map f (AList.delete k al)) + {#f (k, v)#}"
  using assms
proof (induction al)
  case (Cons x al)
  show ?case
  proof (cases "fst x = k")
    case True
    then have "k \<notin> fst ` set al" using Cons.prems(1) by auto
    then have "AList.delete k al = al" by (simp add: delete_id)
    then show ?thesis using True Cons.prems(2) by (cases x) simp
  next
    case False
    then show ?thesis using Cons by (cases x) simp
  qed
qed simp

end
