(* ===== verification/Ops_State_Machine.thy ===== *)
theory Ops_State_Machine
  imports TP_Prelude
begin

text \<open>
  The template \<^verbatim>\<open>OpsStateMachine<TSubject, TOp>\<close> of
  \<^verbatim>\<open>tensorpipe/common/state_machine.h\<close>, which drives the operations of pipes and
  channels. Its deque \<^verbatim>\<open>ops_\<close> is a list of extensible records, a pointer into the
  deque is an index, and the subject (the pipe or channel that owns the machine, without
  this deque) is a value that the actions thread through.

  A transitioner of the code is a fixed sequence of \<^verbatim>\<open>attemptTransition\<close> calls, so it is
  modelled by the table of those calls. The locale \<open>ops_machine\<close> states what such a
  table promises and proves, once for all machines, that a sweep leaves no operation that
  could still advance and that \<^verbatim>\<open>advanceOperation\<close>, which only looks at a part of the
  deque, has the same effect as a full sweep.
\<close>

section \<open>Operations and transition tables\<close>

text \<open>
  What the template requires of \<^verbatim>\<open>TOp\<close>: a sequence number and a state. The machines
  count fewer than \<open>2 ^ 63\<close> operations, so sequence numbers are natural numbers and the
  signed subtraction of \<^verbatim>\<open>findOperation\<close> is one of integers.
\<close>

record 's operation =
  sequenceNumber :: nat
  state :: 's

type_synonym ('s, 'm, 'j) action =
  "('s, 'm) operation_scheme \<Rightarrow> 'j \<Rightarrow> (('s, 'm) operation_scheme \<times> 'j) result"

datatype ('s, 'm, 'j) transition =
  Transition (tfrom: 's) (tto: 's)
    (tcond: "('s, 'm) operation_scheme \<Rightarrow> 's \<Rightarrow> 'j \<Rightarrow> bool")
    (tactions: "('s, 'm, 'j) action list")

fun run_actions :: "('s, 'm, 'j) action list \<Rightarrow> ('s, 'm, 'j) action" where
  "run_actions [] op j = Inr (op, j)"
| "run_actions (a # as) op j = bindR (a op j) (\<lambda>(op', j'). run_actions as op' j')"

definition attemptTransition ::
  "'s \<Rightarrow> 's \<Rightarrow> bool \<Rightarrow> ('s, 'm, 'j) action list \<Rightarrow> ('s, 'm, 'j) action" where
  "attemptTransition from to cond acts op j =
     (if state op = from \<and> cond
      then bindR (run_actions acts op j) (\<lambda>(op', j'). Inr (op'\<lparr>state := to\<rparr>, j'))
      else Inr (op, j))"

text \<open>
  The body of a transitioner: the calls of the table one after the other, each condition
  evaluated when its call is reached.
\<close>

fun attempt_all ::
  "('s, 'm, 'j) transition list \<Rightarrow> ('s, 'm) operation_scheme \<Rightarrow> 's \<Rightarrow> 'j
     \<Rightarrow> (('s, 'm) operation_scheme \<times> 'j) result" where
  "attempt_all [] op prev j = Inr (op, j)"
| "attempt_all (t # ts) op prev j =
     bindR (attemptTransition (tfrom t) (tto t) (tcond t op prev j) (tactions t) op j)
       (\<lambda>(op', j'). attempt_all ts op' prev j')"

section \<open>The machine\<close>

definition emplaceBack ::
  "('s, 'm) operation_scheme \<Rightarrow> nat \<Rightarrow> ('s, 'm) operation_scheme list
     \<Rightarrow> ('s, 'm) operation_scheme list" where
  "emplaceBack op0 sn ops = ops @ [op0\<lparr>sequenceNumber := sn\<rparr>]"

definition findOperation :: "('s, 'm) operation_scheme list \<Rightarrow> int \<Rightarrow> nat option result" where
  "findOperation ops sn =
     (if ops = [] then Inr None
      else let offset = sn - int (sequenceNumber (hd ops))
           in if offset < 0 \<or> offset \<ge> int (length ops) then Inr None
              else dcheck (int (sequenceNumber (ops ! nat offset)) = sn)
                     (Inr (Some (nat offset))))"

definition pop_finished ::
  "'s \<Rightarrow> ('s, 'm) operation_scheme list \<Rightarrow> ('s, 'm) operation_scheme list" where
  "pop_finished fin ops = dropWhile (\<lambda>op. state op = fin) ops"

definition advanceOneOperation ::
  "'s \<Rightarrow> ('s, 'm, 'j) transition list \<Rightarrow> nat \<Rightarrow> ('s, 'm) operation_scheme list \<Rightarrow> 'j
     \<Rightarrow> (bool \<times> ('s, 'm) operation_scheme list \<times> 'j) result" where
  "advanceOneOperation fin table i ops j =
     (let op = ops ! i
      in bindR (findOperation ops (int (sequenceNumber op) - 1)) (\<lambda>prev.
           let prevOpState = (case prev of Some p \<Rightarrow> state (ops ! p) | None \<Rightarrow> fin)
           in bindR (attempt_all table op prevOpState j) (\<lambda>(op', j').
                let ops' = ops[i := op']
                in Inr (state op' \<noteq> state op,
                        if state op' = fin then pop_finished fin ops' else ops',
                        j'))))"

fun advance_loop ::
  "nat \<Rightarrow> 's \<Rightarrow> ('s, 'm, 'j) transition list \<Rightarrow> int \<Rightarrow> ('s, 'm) operation_scheme list \<Rightarrow> 'j
     \<Rightarrow> (('s, 'm) operation_scheme list \<times> 'j) result" where
  "advance_loop 0 fin table sn ops j = Inl OutOfFuel"
| "advance_loop (Suc k) fin table sn ops j =
     bindR (findOperation ops sn) (\<lambda>p.
       case p of
         None \<Rightarrow> Inr (ops, j)
       | Some i \<Rightarrow>
           if state (ops ! i) = fin then Inr (ops, j)
           else bindR (advanceOneOperation fin table i ops j) (\<lambda>(advanced, ops', j').
                  if advanced then advance_loop k fin table (sn + 1) ops' j'
                  else Inr (ops', j')))"

definition advanceOperation ::
  "'s \<Rightarrow> ('s, 'm, 'j) transition list \<Rightarrow> nat \<Rightarrow> ('s, 'm) operation_scheme list \<Rightarrow> 'j
     \<Rightarrow> (('s, 'm) operation_scheme list \<times> 'j) result" where
  "advanceOperation fin table sn ops j =
     advance_loop (Suc (length ops)) fin table (int sn) ops j"

fun advance_all_loop ::
  "nat \<Rightarrow> 's \<Rightarrow> ('s, 'm, 'j) transition list \<Rightarrow> int \<Rightarrow> ('s, 'm) operation_scheme list \<Rightarrow> 'j
     \<Rightarrow> (('s, 'm) operation_scheme list \<times> 'j) result" where
  "advance_all_loop 0 fin table sn ops j = Inl OutOfFuel"
| "advance_all_loop (Suc k) fin table sn ops j =
     bindR (findOperation ops sn) (\<lambda>p.
       case p of
         None \<Rightarrow> Inr (ops, j)
       | Some i \<Rightarrow>
           bindR (advanceOneOperation fin table i ops j) (\<lambda>(advanced, ops', j').
             advance_all_loop k fin table (sn + 1) ops' j'))"

definition advanceAllOperations ::
  "'s \<Rightarrow> ('s, 'm, 'j) transition list \<Rightarrow> ('s, 'm) operation_scheme list \<Rightarrow> 'j
     \<Rightarrow> (('s, 'm) operation_scheme list \<times> 'j) result" where
  "advanceAllOperations fin table ops j =
     (if ops = [] then Inr (ops, j)
      else advance_all_loop (Suc (length ops)) fin table (int (sequenceNumber (hd ops))) ops j)"

text \<open>
  \<^verbatim>\<open>OpsStateMachine::Iter\<close> is a raw pointer to an operation; callbacks keep one and
  write through it later. The model finds the operation by its sequence number, and an
  operation that has left the deque makes the access a fault.
\<close>

fun through_iter ::
  "nat \<Rightarrow> (('s, 'm) operation_scheme \<Rightarrow> ('s, 'm) operation_scheme)
     \<Rightarrow> ('s, 'm) operation_scheme list \<Rightarrow> ('s, 'm) operation_scheme list result" where
  "through_iter sn f [] = Inl DanglingIterator"
| "through_iter sn f (op # ops) =
     (if sequenceNumber op = sn then Inr (f op # ops)
      else bindR (through_iter sn f ops) (\<lambda>ops'. Inr (op # ops')))"

section \<open>Abstract specification\<close>

text \<open>
  The deque holds consecutive sequence numbers. An operation is stable when no transition
  of the table is enabled for it, and a deque is quiet when each of its operations is
  stable behind the state of the one before it. The specification of both \<^verbatim>\<open>advance\<close>
  methods is one pass from front to back that lets every operation advance as far as it
  can behind its predecessor, followed by the removal of the finished front.
\<close>

definition seqs_from :: "nat \<Rightarrow> ('s, 'm) operation_scheme list \<Rightarrow> bool" where
  "seqs_from n ops \<longleftrightarrow> map sequenceNumber ops = [n..<n + length ops]"

definition stable ::
  "('s, 'm, 'j) transition list \<Rightarrow> ('s, 'm) operation_scheme \<Rightarrow> 's \<Rightarrow> 'j \<Rightarrow> bool" where
  "stable table op prev j \<longleftrightarrow> (\<forall>t \<in> set table. state op = tfrom t \<longrightarrow> \<not> tcond t op prev j)"

fun quiet ::
  "('s, 'm, 'j) transition list \<Rightarrow> 's \<Rightarrow> ('s, 'm) operation_scheme list \<Rightarrow> 'j \<Rightarrow> bool" where
  "quiet table prev [] j \<longleftrightarrow> True"
| "quiet table prev (op # ops) j \<longleftrightarrow> stable table op prev j \<and> quiet table (state op) ops j"

fun sweep ::
  "('s, 'm, 'j) transition list \<Rightarrow> 's \<Rightarrow> ('s, 'm) operation_scheme list \<Rightarrow> 'j
     \<Rightarrow> (('s, 'm) operation_scheme list \<times> 'j) result" where
  "sweep table prev [] j = Inr ([], j)"
| "sweep table prev (op # ops) j =
     bindR (attempt_all table op prev j) (\<lambda>(op', j').
       bindR (sweep table (state op') ops j') (\<lambda>(ops', j''). Inr (op' # ops', j'')))"

definition settle ::
  "'s \<Rightarrow> ('s, 'm, 'j) transition list \<Rightarrow> ('s, 'm) operation_scheme list \<Rightarrow> 'j
     \<Rightarrow> (('s, 'm) operation_scheme list \<times> 'j) result" where
  "settle fin table ops j =
     bindR (sweep table fin ops j) (\<lambda>(ops', j'). Inr (pop_finished fin ops', j'))"

text \<open>
  No transition of the rest of the table, the first one included, ends where an earlier
  one starts: one pass over the calls takes every step that is possible.
\<close>

fun topo :: "('s, 'm, 'j) transition list \<Rightarrow> bool" where
  "topo [] \<longleftrightarrow> True"
| "topo (t # ts) \<longleftrightarrow> (\<forall>u \<in> set (t # ts). tto u \<noteq> tfrom t) \<and> topo ts"

text \<open>
  The invariant of a deque between two tasks of the loop: consecutive numbers, nothing left
  to advance, no finished operation at the front.
\<close>

definition contiguous :: "('s, 'm) operation_scheme list \<Rightarrow> bool" where
  "contiguous ops \<longleftrightarrow> seqs_from (if ops = [] then 0 else sequenceNumber (hd ops)) ops"

definition ends_at :: "nat \<Rightarrow> ('s, 'm) operation_scheme list \<Rightarrow> bool" where
  "ends_at n ops \<longleftrightarrow> ops = [] \<or> Suc (sequenceNumber (last ops)) = n"

definition machine_ok ::
  "'s \<Rightarrow> ('s, 'm, 'j) transition list \<Rightarrow> ('s, 'm) operation_scheme list \<Rightarrow> 'j \<Rightarrow> bool" where
  "machine_ok fin table ops j \<longleftrightarrow>
     contiguous ops \<and> quiet table fin ops j \<and> (ops = [] \<or> state (hd ops) \<noteq> fin)"

section \<open>Generic facts about the deque\<close>

lemma seqs_from_nth: "seqs_from n ops \<Longrightarrow> i < length ops \<Longrightarrow> sequenceNumber (ops ! i) = n + i"
  by (metis add_less_cancel_left length_map nth_map nth_upt seqs_from_def)

lemma seqs_from_Cons: "seqs_from n (op # ops) \<longleftrightarrow> sequenceNumber op = n \<and> seqs_from (Suc n) ops"
  by (auto simp: seqs_from_def upt_rec)

lemma seqs_from_Nil [simp]: "seqs_from n []"
  by (simp add: seqs_from_def)

lemma seqs_from_append:
  "seqs_from n (xs @ ys) \<longleftrightarrow> seqs_from n xs \<and> seqs_from (n + length xs) ys"
  by (induction xs arbitrary: n) (auto simp: seqs_from_Cons)

lemma seqs_from_map_cong:
  "map sequenceNumber xs = map sequenceNumber ys \<Longrightarrow> seqs_from n xs \<longleftrightarrow> seqs_from n ys"
  unfolding seqs_from_def by (metis map_eq_imp_length_eq)

lemma seqs_from_dropWhile:
  "seqs_from n ops \<Longrightarrow> seqs_from (n + (length ops - length (dropWhile P ops))) (dropWhile P ops)"
proof -
  assume s: "seqs_from n ops"
  have len: "length ops = length (takeWhile P ops) + length (dropWhile P ops)"
    by (metis length_append takeWhile_dropWhile_id)
  have "seqs_from (n + length (takeWhile P ops)) (dropWhile P ops)"
    using s seqs_from_append [of n "takeWhile P ops" "dropWhile P ops"] by simp
  then show ?thesis using len by simp
qed

lemma findOperation_mid:
  assumes "seqs_from n (xs @ op # ys)"
  shows "findOperation (xs @ op # ys) (int (n + length xs)) = Inr (Some (length xs))"
proof -
  have "sequenceNumber (hd (xs @ op # ys)) = n"
    using seqs_from_nth [OF assms, of 0] by (simp add: hd_conv_nth)
  moreover have "sequenceNumber op = n + length xs"
    using seqs_from_nth [OF assms, of "length xs"] by simp
  ultimately show ?thesis by (simp add: findOperation_def Let_def)
qed

lemma findOperation_before:
  assumes "seqs_from n ops" and "sn < int n"
  shows "findOperation ops sn = Inr None"
proof (cases ops)
  case Nil
  then show ?thesis by (simp add: findOperation_def)
next
  case (Cons op rest)
  then have "sequenceNumber op = n" using assms(1) by (simp add: seqs_from_Cons)
  then show ?thesis using Cons assms(2) by (simp add: findOperation_def)
qed

lemma findOperation_after:
  assumes "seqs_from n ops" and "sn \<ge> int (n + length ops)"
  shows "findOperation ops sn = Inr None"
proof (cases ops)
  case Nil
  then show ?thesis by (simp add: findOperation_def)
next
  case (Cons op rest)
  then have "sequenceNumber op = n" using assms(1) by (simp add: seqs_from_Cons)
  then show ?thesis using Cons assms(2) by (simp add: findOperation_def)
qed

lemma contiguous_iff: "contiguous ops \<longleftrightarrow> (\<exists>n. seqs_from n ops)"
  by (cases ops) (auto simp: contiguous_def seqs_from_Cons)

lemma seqs_from_last: "seqs_from n ops \<Longrightarrow> ops \<noteq> [] \<Longrightarrow> Suc (sequenceNumber (last ops)) = n + length ops"
  using seqs_from_nth [of n ops "length ops - 1"] by (simp add: last_conv_nth)

lemma ends_at_iff: "seqs_from m ops \<Longrightarrow> ends_at n ops \<longleftrightarrow> ops = [] \<or> n = m + length ops"
  using seqs_from_last [of m ops] by (auto simp: ends_at_def)

lemma through_iter_split:
  assumes "op \<in> set ops" and "sequenceNumber op = sn" and "seqs_from n ops"
  obtains xs ys where "ops = xs @ op # ys" and "sn = n + length xs"
    and "through_iter sn f ops = Inr (xs @ f op # ys)"
proof -
  obtain xs ys where ops: "ops = xs @ op # ys" using assms(1) by (auto simp: in_set_conv_decomp)
  have s: "seqs_from n (xs @ op # ys)" using assms(3) ops by simp
  then have sn: "sn = n + length xs"
    using assms(2) by (simp add: seqs_from_append seqs_from_Cons)
  have "seqs_from n xs" using s by (simp add: seqs_from_append)
  then have "\<forall>x \<in> set xs. sequenceNumber x \<noteq> sn"
    using sn seqs_from_nth by (metis in_set_conv_nth nat_neq_iff add_less_cancel_left)
  then have "through_iter sn f (xs @ op # ys) = Inr (xs @ f op # ys)"
    using assms(2) by (induction xs) auto
  then show ?thesis using that ops sn by blast
qed

text \<open>The state of the predecessor, as \<^verbatim>\<open>advanceOneOperation\<close> looks it up.\<close>

definition prev_state :: "'s \<Rightarrow> ('s, 'm) operation_scheme list \<Rightarrow> 's" where
  "prev_state fin xs = (if xs = [] then fin else state (last xs))"

lemma advanceOneOperation_mid:
  assumes s: "seqs_from n (xs @ op # ys)"
  shows "advanceOneOperation fin table (length xs) (xs @ op # ys) j =
    bindR (attempt_all table op (prev_state fin xs) j) (\<lambda>(op', j').
      Inr (state op' \<noteq> state op,
           if state op' = fin then pop_finished fin (xs @ op' # ys) else xs @ op' # ys, j'))"
proof -
  have sn: "sequenceNumber op = n + length xs"
    using seqs_from_nth [OF s, of "length xs"] by simp
  have "findOperation (xs @ op # ys) (int (sequenceNumber op) - 1) =
      Inr (if xs = [] then None else Some (length xs - 1))"
  proof (cases xs rule: rev_cases)
    case Nil
    then show ?thesis using findOperation_before [OF s] sn by simp
  next
    case (snoc zs z)
    have "findOperation (zs @ z # op # ys) (int (n + length zs)) = Inr (Some (length zs))"
      by (rule findOperation_mid) (use s snoc in simp)
    moreover have "int (sequenceNumber op) - 1 = int (n + length zs)"
      using sn snoc by simp
    ultimately show ?thesis using snoc by simp
  qed
  moreover have "state ((xs @ op # ys) ! (length xs - 1)) = state (last xs)" if "xs \<noteq> []"
    using that by (simp add: nth_append last_conv_nth)
  ultimately show ?thesis
    by (auto simp: advanceOneOperation_def Let_def prev_state_def bindR_def split: sum.splits)
qed

section \<open>The contract of a transition table\<close>

text \<open>
  What the code of every machine relies on: transitions go up in the order of the states,
  of which \<open>fin\<close> is the greatest, and the calls come in an order that takes chains of
  transitions in one pass; an action leaves the sequence number and the state of its
  operation and all of the subject but some fields (\<open>frame\<close>) as they are, in particular
  the part that the conditions read (\<open>view\<close>).
\<close>

locale ops_machine =
  fixes fin :: "'s::linorder"
    and table :: "('s, 'm, 'j) transition list"
    and view :: "'j \<Rightarrow> 'v"
    and frame :: "'j \<Rightarrow> 'f"
  assumes fin_top: "s \<le> fin"
    and table_up: "t \<in> set table \<Longrightarrow> tfrom t < tto t"
    and table_topo: "topo table"
    and act_frame: "t \<in> set table \<Longrightarrow> a \<in> set (tactions t) \<Longrightarrow> a op j = Inr (op', j') \<Longrightarrow>
          sequenceNumber op' = sequenceNumber op \<and> state op' = state op \<and> frame j' = frame j"
    and frame_view: "frame j = frame j' \<Longrightarrow> view j = view j'"
    and cond_view: "t \<in> set table \<Longrightarrow> view j = view j' \<Longrightarrow> tcond t op prev j = tcond t op prev j'"
begin

lemma run_actions_frame:
  assumes "t \<in> set table" and "set as \<subseteq> set (tactions t)" and "run_actions as op j = Inr (op', j')"
  shows "sequenceNumber op' = sequenceNumber op \<and> state op' = state op \<and> frame j' = frame j"
  using assms(2,3)
proof (induction as arbitrary: op j)
  case Nil
  then show ?case by simp
next
  case (Cons a as)
  then obtain op1 j1 where a: "a op j = Inr (op1, j1)" and r: "run_actions as op1 j1 = Inr (op', j')"
    by (auto simp: bindR_eq_Inr)
  have "sequenceNumber op1 = sequenceNumber op \<and> state op1 = state op \<and> frame j1 = frame j"
    using act_frame [where a = a, OF assms(1)] a Cons.prems(1) by (meson list.set_intros(1) subsetD)
  moreover have "sequenceNumber op' = sequenceNumber op1 \<and> state op' = state op1 \<and> frame j' = frame j1"
    using Cons.IH r Cons.prems(1) by simp
  ultimately show ?case by simp
qed

lemma attemptTransition_cases:
  assumes "t \<in> set table"
    and "attemptTransition (tfrom t) (tto t) c (tactions t) op j = Inr (op', j')"
  obtains "\<not> (state op = tfrom t \<and> c)" "op' = op" "j' = j"
  | "state op = tfrom t" c "state op' = tto t" "sequenceNumber op' = sequenceNumber op" "frame j' = frame j"
proof (cases "state op = tfrom t \<and> c")
  case False
  then have "op' = op" "j' = j"
    using assms(2) unfolding attemptTransition_def by (auto split: if_splits)
  then show ?thesis using False that(1) by blast
next
  case True
  then obtain op1 where r: "run_actions (tactions t) op j = Inr (op1, j')"
    and op': "op' = op1\<lparr>state := tto t\<rparr>"
    using assms(2) by (auto simp: attemptTransition_def bindR_eq_Inr)
  from run_actions_frame [OF assms(1) order_refl r] True op' that(2) show ?thesis by simp
qed

text \<open>
  A transitioner either changes nothing at all or strictly advances the state, to the end
  of one of its transitions.
\<close>

lemma attempt_all_cases:
  assumes "set ts \<subseteq> set table" and "attempt_all ts op prev j = Inr (op', j')"
  shows "op' = op \<and> j' = j \<or>
    state op < state op' \<and> (\<exists>t \<in> set ts. state op' = tto t) \<and>
    sequenceNumber op' = sequenceNumber op \<and> frame j' = frame j"
  using assms
proof (induction ts arbitrary: op j)
  case Nil
  then show ?case by simp
next
  case (Cons t ts)
  then obtain op1 j1 where
    a: "attemptTransition (tfrom t) (tto t) (tcond t op prev j) (tactions t) op j = Inr (op1, j1)"
    and r: "attempt_all ts op1 prev j1 = Inr (op', j')"
    by (auto simp: bindR_eq_Inr)
  have t: "t \<in> set table" using Cons.prems(1) by simp
  have IH: "op' = op1 \<and> j' = j1 \<or> state op1 < state op' \<and> (\<exists>t \<in> set ts. state op' = tto t) \<and>
      sequenceNumber op' = sequenceNumber op1 \<and> frame j' = frame j1"
    using Cons.IH r Cons.prems(1) by simp
  from t a show ?case
    by (rule attemptTransition_cases) (use IH table_up [OF t] in force)+
qed

lemma attempt_all_frame:
  assumes "attempt_all table op prev j = Inr (op', j')"
  shows "sequenceNumber op' = sequenceNumber op" and "frame j' = frame j" and "state op \<le> state op'"
    and "state op' = state op \<Longrightarrow> op' = op \<and> j' = j"
  using attempt_all_cases [OF order_refl assms] by auto

lemma stable_cong: "view j = view j' \<Longrightarrow> stable table op prev j = stable table op prev j'"
  unfolding stable_def by (intro ball_cong refl) (metis cond_view)

lemma quiet_cong: "view j = view j' \<Longrightarrow> quiet table prev ops j = quiet table prev ops j'"
  by (induction ops arbitrary: prev) (simp_all add: stable_cong [of j j'])

lemma stable_attempt_all: "stable table op prev j \<Longrightarrow> attempt_all table op prev j = Inr (op, j)"
proof -
  assume st: "stable table op prev j"
  have "attempt_all ts op prev j = Inr (op, j)" if "set ts \<subseteq> set table" for ts
    using that st by (induction ts) (auto simp: attemptTransition_def stable_def)
  then show ?thesis by simp
qed

lemma stable_finished: "state op = fin \<Longrightarrow> stable table op prev j"
  unfolding stable_def using table_up fin_top by (metis leD)

lemma attempt_all_finished: "state op = fin \<Longrightarrow> attempt_all table op prev j = Inr (op, j)"
  by (rule stable_attempt_all) (rule stable_finished)

text \<open>One call of the transitioner takes every transition that is possible.\<close>

lemma attempt_all_stable:
  assumes "set ts \<subseteq> set table" and "topo ts" and "attempt_all ts op prev j = Inr (op', j')"
  shows "stable ts op' prev j'"
  using assms
proof (induction ts arbitrary: op j)
  case Nil
  then show ?case by (simp add: stable_def)
next
  case (Cons t ts)
  then obtain op1 j1 where
    a: "attemptTransition (tfrom t) (tto t) (tcond t op prev j) (tactions t) op j = Inr (op1, j1)"
    and r: "attempt_all ts op1 prev j1 = Inr (op', j')"
    by (auto simp: bindR_eq_Inr)
  have t: "t \<in> set table" and ts: "set ts \<subseteq> set table" using Cons.prems(1) by simp_all
  have rest: "stable ts op' prev j'" using Cons.IH ts r Cons.prems(2) by simp
  have "\<not> (state op' = tfrom t \<and> tcond t op' prev j')"
  proof
    assume here: "state op' = tfrom t \<and> tcond t op' prev j'"
    have "op' = op1 \<and> j' = j1"
      using attempt_all_cases [OF ts r] Cons.prems(2) here by auto
    from t a show False
      by (rule attemptTransition_cases) (use here table_up [OF t] \<open>op' = op1 \<and> j' = j1\<close> in auto)
  qed
  with rest show ?case by (auto simp: stable_def)
qed

lemma transitioner_stable: "attempt_all table op prev j = Inr (op', j') \<Longrightarrow> stable table op' prev j'"
  by (rule attempt_all_stable [OF order_refl table_topo])

text \<open>Sweeps.\<close>

lemma sweep_quiet_id: "quiet table prev ops j \<Longrightarrow> sweep table prev ops j = Inr (ops, j)"
  by (induction ops arbitrary: prev) (simp_all add: stable_attempt_all)

lemma sweep_append:
  "sweep table prev (xs @ ys) j =
     bindR (sweep table prev xs j) (\<lambda>(xs', j').
       bindR (sweep table (if xs' = [] then prev else state (last xs')) ys j')
         (\<lambda>(ys', j''). Inr (xs' @ ys', j'')))"
proof (induction xs arbitrary: prev j)
  case Nil
  then show ?case by (auto simp: bindR_def split: sum.splits)
next
  case (Cons x xs)
  then show ?case by (auto simp: bindR_def split: sum.splits)
qed

lemma sweep_frame:
  assumes "sweep table prev ops j = Inr (ops', j')"
  shows "map sequenceNumber ops' = map sequenceNumber ops" and "frame j' = frame j"
  using assms
proof (induction ops arbitrary: prev j ops')
  case Nil
  { case 1 then show ?case by simp next case 2 then show ?case by simp }
next
  case (Cons op ops)
  { case 1
    then show ?case using Cons.IH(1) attempt_all_frame(1) by (fastforce simp: bindR_eq_Inr)
  next
    case 2
    then obtain op1 j1 ops1 where "attempt_all table op prev j = Inr (op1, j1)"
      and "sweep table (state op1) ops j1 = Inr (ops1, j')"
      by (auto simp: bindR_eq_Inr)
    then show ?case using Cons.IH(2) attempt_all_frame(2) by metis }
qed

lemma sweep_quiet: "sweep table prev ops j = Inr (ops', j') \<Longrightarrow> quiet table prev ops' j'"
proof (induction ops arbitrary: prev j ops')
  case Nil
  then show ?case by simp
next
  case (Cons op ops)
  then obtain op1 j1 ops1 where a: "attempt_all table op prev j = Inr (op1, j1)"
    and r: "sweep table (state op1) ops j1 = Inr (ops1, j')" and ops': "ops' = op1 # ops1"
    by (auto simp: bindR_eq_Inr)
  have "frame j' = frame j1" using r by (rule sweep_frame)
  then have "stable table op1 prev j'"
    using transitioner_stable [OF a] stable_cong [OF frame_view] by metis
  then show ?case using Cons.IH [OF r] ops' by simp
qed

lemma quiet_pop_finished: "quiet table fin ops j \<Longrightarrow> quiet table fin (pop_finished fin ops) j"
  unfolding pop_finished_def by (induction ops) auto

theorem settle_ok:
  assumes "seqs_from n ops" and "settle fin table ops j = Inr (ops', j')"
  shows "quiet table fin ops' j'" and "\<exists>m. seqs_from m ops' \<and> m + length ops' = n + length ops"
    and "ops' = [] \<or> state (hd ops') \<noteq> fin" and "frame j' = frame j"
proof -
  from assms(2) obtain ops1 where sw: "sweep table fin ops j = Inr (ops1, j')"
    and ops': "ops' = pop_finished fin ops1"
    by (auto simp: settle_def bindR_eq_Inr)
  show "quiet table fin ops' j'" using sweep_quiet [OF sw] ops' quiet_pop_finished by simp
  show "frame j' = frame j" using sw by (rule sweep_frame)
  have len: "length ops1 = length ops" using sweep_frame(1) [OF sw] by (metis length_map)
  have "seqs_from n ops1" using sweep_frame(1) [OF sw] assms(1) seqs_from_map_cong by blast
  then have "seqs_from (n + (length ops1 - length ops')) ops'"
    using ops' seqs_from_dropWhile unfolding pop_finished_def by blast
  moreover have "length ops' \<le> length ops1" using ops' by (simp add: pop_finished_def length_dropWhile_le)
  ultimately show "\<exists>m. seqs_from m ops' \<and> m + length ops' = n + length ops"
    using len by (intro exI [of _ "n + (length ops1 - length ops')"]) simp
  show "ops' = [] \<or> state (hd ops') \<noteq> fin"
    using ops' hd_dropWhile [of "\<lambda>op. state op = fin" ops1] by (auto simp: pop_finished_def)
qed

end

section \<open>The loops implement the sweep\<close>

context ops_machine
begin

text \<open>
  The position of the loops: \<open>zs\<close> has been processed, \<open>ys\<close> has not, and the finished
  front has been removed from the deque.
\<close>

lemma pop_finished_split:
  "pop_finished fin (zs @ y # ys) =
     (if (\<forall>z \<in> set zs. state z = fin) \<and> state y = fin then pop_finished fin ys
      else pop_finished fin zs @ y # ys)"
  unfolding pop_finished_def by (rule dropWhile_append_nonempty)

lemma prev_state_pop_finished: "prev_state fin (pop_finished fin zs) = prev_state fin zs"
proof (cases "pop_finished fin zs = []")
  case True
  then have "\<forall>z \<in> set zs. state z = fin" by (simp add: pop_finished_def)
  then show ?thesis using True by (auto simp: prev_state_def)
next
  case False
  then have "last (pop_finished fin zs) = last zs"
    unfolding pop_finished_def by (rule last_dropWhile)
  then show ?thesis using False by (auto simp: prev_state_def pop_finished_def)
qed

lemma seqs_from_pop_finished_prefix:
  assumes "seqs_from n (zs @ ys)"
  shows "\<exists>m. seqs_from m (pop_finished fin zs @ ys) \<and> m + length (pop_finished fin zs) = n + length zs"
proof -
  let ?k = "length zs - length (pop_finished fin zs)"
  have "length (pop_finished fin zs) \<le> length zs"
    by (simp add: pop_finished_def length_dropWhile_le)
  moreover have "seqs_from (n + ?k) (pop_finished fin zs)"
    using assms seqs_from_dropWhile unfolding seqs_from_append pop_finished_def by blast
  ultimately show ?thesis
    using assms by (intro exI [of _ "n + ?k"]) (simp add: seqs_from_append)
qed

lemma find_next:
  assumes "seqs_from n (zs @ y # ys)" and "\<not> ((\<forall>z \<in> set zs. state z = fin) \<and> state y = fin)"
  shows "findOperation (pop_finished fin (zs @ y # ys)) (int (n + length zs)) =
           Inr (Some (length (pop_finished fin zs)))"
proof -
  obtain m where m: "seqs_from m (pop_finished fin zs @ y # ys)"
    and len: "m + length (pop_finished fin zs) = n + length zs"
    using seqs_from_pop_finished_prefix [OF assms(1)] by blast
  then have "findOperation (pop_finished fin zs @ y # ys) (int (n + length zs)) =
               Inr (Some (length (pop_finished fin zs)))"
    using findOperation_mid [OF m] by (simp add: len [symmetric])
  then show ?thesis using assms(2) by (subst pop_finished_split) (simp only: if_False)
qed

lemma find_gone:
  assumes "seqs_from n (zs @ y # ys)" and "\<forall>z \<in> set zs. state z = fin" and "state y = fin"
  shows "findOperation (pop_finished fin (zs @ y # ys)) (int (n + length zs)) = Inr None"
proof -
  have "seqs_from (n + length zs + 1) ys"
    using assms(1) by (simp add: seqs_from_append seqs_from_Cons)
  then have "seqs_from (n + length zs + 1 + (length ys - length (pop_finished fin ys))) (pop_finished fin ys)"
    unfolding pop_finished_def by (rule seqs_from_dropWhile)
  then show ?thesis using assms by (simp add: pop_finished_split findOperation_before)
qed

lemma find_end:
  assumes "seqs_from n zs"
  shows "findOperation (pop_finished fin zs) (int (n + length zs)) = Inr None"
proof -
  obtain m where "seqs_from m (pop_finished fin zs)" and "m + length (pop_finished fin zs) = n + length zs"
    using seqs_from_pop_finished_prefix [of n zs "[]"] assms by auto
  then show ?thesis by (metis findOperation_after order_refl)
qed

lemma advance_one_next:
  assumes "seqs_from n (zs @ y # ys)" and "\<not> ((\<forall>z \<in> set zs. state z = fin) \<and> state y = fin)"
  shows "advanceOneOperation fin table (length (pop_finished fin zs)) (pop_finished fin (zs @ y # ys)) j =
    bindR (attempt_all table y (prev_state fin zs) j) (\<lambda>(y', j').
      Inr (state y' \<noteq> state y, pop_finished fin ((zs @ [y']) @ ys), j'))"
proof -
  obtain m where m: "seqs_from m (pop_finished fin zs @ y # ys)"
    using seqs_from_pop_finished_prefix [OF assms(1)] by blast
  have eq: "pop_finished fin (zs @ y # ys) = pop_finished fin zs @ y # ys"
    using assms(2) by (subst pop_finished_split) (simp only: if_False)
  have pop: "(if state y' = fin then pop_finished fin (pop_finished fin zs @ y' # ys)
              else pop_finished fin zs @ y' # ys) = pop_finished fin (zs @ y' # ys)" for y'
    using dropWhile_append_dropWhile pop_finished_split unfolding pop_finished_def by metis
  show ?thesis
    unfolding eq advanceOneOperation_mid [OF m] prev_state_pop_finished pop by simp
qed

theorem advance_loop_sweep:
  assumes "seqs_from n (zs @ ys)"
    and "ys \<noteq> [] \<Longrightarrow> quiet table (state (hd ys)) (tl ys) j"
    and "length ys < k"
  shows "advance_loop k fin table (int (n + length zs)) (pop_finished fin (zs @ ys)) j =
    bindR (sweep table (prev_state fin zs) ys j) (\<lambda>(ys', j'). Inr (pop_finished fin (zs @ ys'), j'))"
  using assms
proof (induction ys arbitrary: zs j k)
  case Nil
  then obtain k' where "k = Suc k'" by (cases k) auto
  then show ?case using find_end [of n zs] Nil.prems(1) by simp
next
  case (Cons y ys)
  then obtain k' where k: "k = Suc k'" "length ys < k'" by (cases k) auto
  have q: "quiet table (state y) ys j" using Cons.prems(2) by simp
  have still: "sweep table (prev_state fin zs) (y # ys) j = Inr (y # ys, j)"
    if "attempt_all table y (prev_state fin zs) j = Inr (y, j)"
    using that sweep_quiet_id [OF q] by simp
  consider (gone) "\<forall>z \<in> set zs. state z = fin" "state y = fin"
    | (finished) "\<not> (\<forall>z \<in> set zs. state z = fin)" "state y = fin"
    | (run) "state y \<noteq> fin" by blast
  then show ?case
  proof cases
    case gone
    then show ?thesis
      using find_gone [OF Cons.prems(1)] still [OF attempt_all_finished] k(1) by simp
  next
    case finished
    then have "findOperation (pop_finished fin (zs @ y # ys)) (int (n + length zs)) =
        Inr (Some (length (pop_finished fin zs)))"
      and "pop_finished fin (zs @ y # ys) ! length (pop_finished fin zs) = y"
      using find_next [OF Cons.prems(1)] by (auto simp: pop_finished_split)
    then show ?thesis using finished still [OF attempt_all_finished] k(1) by simp
  next
    case run
    then have f: "findOperation (pop_finished fin (zs @ y # ys)) (int (n + length zs)) =
        Inr (Some (length (pop_finished fin zs)))"
      and nth: "pop_finished fin (zs @ y # ys) ! length (pop_finished fin zs) = y"
      using find_next [OF Cons.prems(1)] by (auto simp: pop_finished_split)
    have one: "advanceOneOperation fin table (length (pop_finished fin zs)) (pop_finished fin (zs @ y # ys)) j =
        bindR (attempt_all table y (prev_state fin zs) j) (\<lambda>(y', j').
          Inr (state y' \<noteq> state y, pop_finished fin ((zs @ [y']) @ ys), j'))"
      using advance_one_next [OF Cons.prems(1)] run by blast
    show ?thesis
    proof (cases "attempt_all table y (prev_state fin zs) j")
      case (Inl e)
      then show ?thesis using f nth run one k(1) by simp
    next
      case (Inr r)
      obtain y' j' where r: "attempt_all table y (prev_state fin zs) j = Inr (y', j')"
        using Inr by (cases r) auto
      show ?thesis
      proof (cases "state y' = state y")
        case True
        then have "y' = y" "j' = j" using attempt_all_frame(4) [OF r] by auto
        then show ?thesis using r f nth run one k(1) still by simp
      next
        case False
        have s': "seqs_from n ((zs @ [y']) @ ys)"
          using Cons.prems(1) attempt_all_frame(1) [OF r] by (simp add: seqs_from_append seqs_from_Cons)
        have q': "quiet table (state (hd ys)) (tl ys) j'" if "ys \<noteq> []"
          using q that quiet_cong [OF frame_view [OF attempt_all_frame(2) [OF r]]] by (cases ys) auto
        have sn: "int (n + length zs) + 1 = int (n + length (zs @ [y']))" by simp
        have IH: "advance_loop k' fin table (int (n + length zs) + 1) (pop_finished fin ((zs @ [y']) @ ys)) j' =
            bindR (sweep table (prev_state fin (zs @ [y'])) ys j')
              (\<lambda>(ys', j''). Inr (pop_finished fin ((zs @ [y']) @ ys'), j''))"
          unfolding sn by (rule Cons.IH [OF s' q' k(2)])
        have "prev_state fin (zs @ [y']) = state y'" by (simp add: prev_state_def)
        with IH show ?thesis
          using r f nth run one k(1) False
          by (auto simp: bindR_def split: sum.splits)
      qed
    qed
  qed
qed

text \<open>
  \<^verbatim>\<open>advanceOperation\<close> on the one operation that is not stable has the effect of a full
  sweep, faults included.
\<close>

theorem advanceOperation_settle:
  assumes seq: "seqs_from n (xs @ op # ys)" and front: "state (hd (xs @ [op])) \<noteq> fin"
    and before: "quiet table fin xs j" and behind: "quiet table (state op) ys j"
  shows "advanceOperation fin table (n + length xs) (xs @ op # ys) j = settle fin table (xs @ op # ys) j"
proof -
  have id: "pop_finished fin (xs @ op # ys) = xs @ op # ys"
    unfolding pop_finished_def by (rule dropWhile_hd_False) (use front in \<open>cases xs; simp\<close>)
  have "advanceOperation fin table (n + length xs) (xs @ op # ys) j =
      bindR (sweep table (prev_state fin xs) (op # ys) j) (\<lambda>(ys', j'). Inr (pop_finished fin (xs @ ys'), j'))"
    using advance_loop_sweep [OF seq, of j "Suc (length (xs @ op # ys))"] behind
    by (simp add: advanceOperation_def id)
  then show ?thesis
    using sweep_quiet_id [OF before]
    by (auto simp: settle_def sweep_append prev_state_def bindR_assoc bindR_def split: sum.splits)
qed

theorem advance_all_loop_sweep:
  assumes "seqs_from n (zs @ ys)"
    and "(\<forall>y \<in> set ys. state y \<noteq> fin) \<or> (zs \<noteq> [] \<and> state (hd zs) \<noteq> fin)"
    and "length ys < k"
  shows "advance_all_loop k fin table (int (n + length zs)) (pop_finished fin (zs @ ys)) j =
    bindR (sweep table (prev_state fin zs) ys j) (\<lambda>(ys', j'). Inr (pop_finished fin (zs @ ys'), j'))"
  using assms
proof (induction ys arbitrary: zs j k)
  case Nil
  then obtain k' where "k = Suc k'" by (cases k) auto
  then show ?case using find_end [of n zs] Nil.prems(1) by simp
next
  case (Cons y ys)
  then obtain k' where k: "k = Suc k'" "length ys < k'" by (cases k) auto
  have run: "\<not> ((\<forall>z \<in> set zs. state z = fin) \<and> state y = fin)" using Cons.prems(2) by auto
  note f = find_next [OF Cons.prems(1) run] and one = advance_one_next [OF Cons.prems(1) run]
  show ?case
  proof (cases "attempt_all table y (prev_state fin zs) j")
    case (Inl e)
    then show ?thesis using f one k(1) by simp
  next
    case (Inr r)
    obtain y' j' where r: "attempt_all table y (prev_state fin zs) j = Inr (y', j')"
      using Inr by (cases r) auto
    have s': "seqs_from n ((zs @ [y']) @ ys)"
      using Cons.prems(1) attempt_all_frame(1) [OF r] by (simp add: seqs_from_append seqs_from_Cons)
    have sn: "int (n + length zs) + 1 = int (n + length (zs @ [y']))" by simp
    have IH: "advance_all_loop k' fin table (int (n + length zs) + 1) (pop_finished fin ((zs @ [y']) @ ys)) j' =
        bindR (sweep table (prev_state fin (zs @ [y'])) ys j')
          (\<lambda>(ys', j''). Inr (pop_finished fin ((zs @ [y']) @ ys'), j''))"
      unfolding sn by (rule Cons.IH [OF s' _ k(2)]) (use Cons.prems(2) in auto)
    have "prev_state fin (zs @ [y']) = state y'" by (simp add: prev_state_def)
    with IH show ?thesis using r f one k(1) by (auto simp: bindR_def split: sum.splits)
  qed
qed

text \<open>
  \<^verbatim>\<open>advanceAllOperations\<close> is a full sweep as long as no operation of the deque is
  already finished, or else the first operation does not finish in this call.
\<close>

theorem advanceAllOperations_settle:
  assumes seq: "seqs_from n ops" and unfinished: "\<forall>op \<in> set ops. state op \<noteq> fin"
  shows "advanceAllOperations fin table ops j = settle fin table ops j"
proof (cases ops)
  case Nil
  then show ?thesis by (simp add: advanceAllOperations_def settle_def pop_finished_def)
next
  case (Cons op rest)
  have id: "pop_finished fin ops = ops"
    unfolding pop_finished_def by (rule dropWhile_hd_False) (use Cons unfinished in simp)
  have "sequenceNumber (hd ops) = n" and "ops \<noteq> []" using seq Cons by (simp_all add: seqs_from_Cons)
  then show ?thesis
    using advance_all_loop_sweep [of n "[]" ops "Suc (length ops)" j] seq unfinished
    by (simp add: advanceAllOperations_def settle_def id prev_state_def del: advance_all_loop.simps sweep.simps)
qed

theorem advanceAllOperations_settle_first:
  assumes seq: "seqs_from n (op # ops)" and first: "attempt_all table op fin j = Inr (op1, j1)" "state op1 \<noteq> fin"
  shows "advanceAllOperations fin table (op # ops) j = settle fin table (op # ops) j"
proof -
  have id: "pop_finished fin (op1 # xs) = op1 # xs" for xs
    using first by (simp add: pop_finished_def)
  have sn: "sequenceNumber op = n" using seq by (simp add: seqs_from_Cons)
  have seq1: "seqs_from n (op1 # ops)"
    using seq attempt_all_frame(1) [OF first(1)] by (simp add: seqs_from_Cons)
  have f: "findOperation (op # ops) (int n) = Inr (Some 0)"
    using findOperation_mid [of n "[]" op ops] seq by simp
  have one: "advanceOneOperation fin table 0 (op # ops) j = Inr (state op1 \<noteq> state op, op1 # ops, j1)"
    using advanceOneOperation_mid [of n "[]" op ops fin table j] seq first
    by (simp add: prev_state_def)
  have "advance_all_loop (Suc (length ops)) fin table (int (n + length [op1])) (pop_finished fin ([op1] @ ops)) j1 =
      bindR (sweep table (prev_state fin [op1]) ops j1) (\<lambda>(ys', j'). Inr (pop_finished fin ([op1] @ ys'), j'))"
    by (rule advance_all_loop_sweep) (use seq1 first in auto)
  then have "advance_all_loop (Suc (length ops)) fin table (int n + 1) (op1 # ops) j1 =
      bindR (sweep table (state op1) ops j1) (\<lambda>(ys', j'). Inr (op1 # ys', j'))"
    by (simp only: append_Cons append_Nil id prev_state_def list.size) (simp add: add.commute)
  then show ?thesis
    unfolding advanceAllOperations_def settle_def
    using first(1)
    by (simp add: sn f one bindR_assoc id) (auto simp: bindR_def id split: sum.splits)
qed

corollary advanceAllOperations_settle_held:
  assumes "seqs_from n (op # ops)" and "stable table op fin j" "state op \<noteq> fin"
  shows "advanceAllOperations fin table (op # ops) j = settle fin table (op # ops) j"
  using advanceAllOperations_settle_first [OF assms(1) stable_attempt_all [OF assms(2)] assms(3)] .

end

section \<open>What a client of a machine relies on\<close>

context ops_machine
begin

lemma quiet_append:
  "quiet table prev (xs @ ys) j \<longleftrightarrow>
     quiet table prev xs j \<and> quiet table (if xs = [] then prev else state (last xs)) ys j"
  by (induction xs arbitrary: prev) auto

lemma settle_machine_ok:
  assumes "contiguous ops" and "settle fin table ops j = Inr (ops', j')"
  shows "machine_ok fin table ops' j'" and "ends_at n ops \<Longrightarrow> ends_at n ops'" and "frame j' = frame j"
proof -
  obtain m where m: "seqs_from m ops" using assms(1) by (auto simp: contiguous_iff)
  note ok = settle_ok [OF m assms(2)]
  show "frame j' = frame j" by (rule ok)
  from ok(2) obtain m' where m': "seqs_from m' ops'" "m' + length ops' = m + length ops" by blast
  show "machine_ok fin table ops' j'" using ok m' by (auto simp: machine_ok_def contiguous_iff)
  show "ends_at n ops'" if "ends_at n ops"
  proof (cases "ops = []")
    case True
    then show ?thesis using m'(2) assms(2) by (auto simp: ends_at_def settle_def pop_finished_def)
  next
    case False
    then show ?thesis using that ends_at_iff [OF m] ends_at_iff [OF m'(1)] m'(2) by auto
  qed
qed

lemma machine_ok_cong: "view j = view j' \<Longrightarrow> machine_ok fin table ops j = machine_ok fin table ops j'"
  by (simp add: machine_ok_def quiet_cong [of j j'])

lemma machine_ok_Nil [simp]: "machine_ok fin table [] j"
  by (simp add: machine_ok_def contiguous_def)

text \<open>Whatever the deque, advancing an operation respects the frame.\<close>

lemma advanceOneOperation_frame:
  "advanceOneOperation fin table i ops j = Inr (b, ops', j') \<Longrightarrow> frame j' = frame j"
  by (auto simp: advanceOneOperation_def Let_def bindR_eq_Inr dest: attempt_all_frame(2))

lemma advanceOperation_frame: "advanceOperation fin table sn ops j = Inr (ops', j') \<Longrightarrow> frame j' = frame j"
proof -
  have "advance_loop k fin table sn ops j = Inr (ops', j') \<Longrightarrow> frame j' = frame j" for k sn ops j
  proof (induction k arbitrary: sn ops j)
    case (Suc k)
    then show ?case
      by (auto simp: bindR_eq_Inr split: option.splits if_splits) (metis advanceOneOperation_frame)+
  qed simp
  then show "advanceOperation fin table sn ops j = Inr (ops', j') \<Longrightarrow> frame j' = frame j"
    unfolding advanceOperation_def by blast
qed

text \<open>A new operation is appended and advanced.\<close>

lemma emplace_advance:
  assumes ok: "machine_ok fin table ops j" and ends: "ends_at n ops" and new: "state op0 \<noteq> fin"
  shows "advanceOperation fin table n (emplaceBack op0 n ops) j = settle fin table (emplaceBack op0 n ops) j"
    and "contiguous (emplaceBack op0 n ops)" and "ends_at (Suc n) (emplaceBack op0 n ops)"
proof -
  obtain m where m: "seqs_from m ops" and n: "n = m + length ops"
  proof (cases "ops = []")
    case True
    then show ?thesis using that [of n] by simp
  next
    case False
    then show ?thesis
      using ok ends that ends_at_iff by (metis contiguous_iff machine_ok_def)
  qed
  then have s: "seqs_from m (ops @ [op0\<lparr>sequenceNumber := n\<rparr>])"
    by (simp add: seqs_from_append seqs_from_Cons)
  then show "contiguous (emplaceBack op0 n ops)" by (auto simp: emplaceBack_def contiguous_iff)
  show "ends_at (Suc n) (emplaceBack op0 n ops)" by (simp add: emplaceBack_def ends_at_def)
  show "advanceOperation fin table n (emplaceBack op0 n ops) j = settle fin table (emplaceBack op0 n ops) j"
    unfolding emplaceBack_def n
    by (rule advanceOperation_settle)
      (use s n ok new in \<open>auto simp: machine_ok_def hd_append\<close>)
qed

text \<open>A callback writes through its iterator, leaving the state alone, and advances.\<close>

lemma through_iter_advance:
  assumes ok: "machine_ok fin table ops j" and op: "op \<in> set ops" "sequenceNumber op = sn"
    and f: "sequenceNumber (f op) = sequenceNumber op" "state (f op) = state op"
  obtains ops1 xs ys where "through_iter sn f ops = Inr ops1" and "contiguous ops1"
    and "ends_at n ops1 = ends_at n ops"
    and "ops = xs @ op # ys" and "ops1 = xs @ f op # ys"
    and "advanceOperation fin table sn ops1 j = settle fin table ops1 j"
proof -
  obtain m where m: "seqs_from m ops" using ok by (auto simp: machine_ok_def contiguous_iff)
  obtain xs ys where ops: "ops = xs @ op # ys" and sn: "sn = m + length xs"
    and ti: "through_iter sn f ops = Inr (xs @ f op # ys)"
    using through_iter_split [OF op m] by blast
  have s1: "seqs_from m (xs @ f op # ys)"
    using m ops f by (simp add: seqs_from_append seqs_from_Cons)
  have q: "quiet table fin xs j" "quiet table (state op) ys j"
    using ok ops by (auto simp: machine_ok_def quiet_append)
  have hd1: "state (hd (xs @ [f op])) \<noteq> fin"
    using ok ops f(2) by (cases xs) (auto simp: machine_ok_def)
  have adv: "advanceOperation fin table sn (xs @ f op # ys) j = settle fin table (xs @ f op # ys) j"
    unfolding sn by (rule advanceOperation_settle [OF s1 hd1 q(1)]) (use q(2) f(2) in simp)
  have "ends_at n (xs @ f op # ys) = ends_at n ops"
    using ops f(1) by (cases ys) (auto simp: ends_at_def)
  then show ?thesis using that [OF ti _ _ ops refl adv] s1 by (auto simp: contiguous_iff)
qed

text \<open>
  After an error every operation may be released: a quiet deque is empty unless its first
  operation still waits for something, which \<open>waiting\<close> tells.
\<close>

lemma drained:
  assumes ok: "machine_ok fin table ops j"
    and release: "\<And>op. op \<in> set ops \<Longrightarrow> stable table op fin j \<Longrightarrow> \<not> waiting op \<Longrightarrow> state op = fin"
    and idle: "\<forall>op \<in> set ops. \<not> waiting op"
  shows "ops = []"
  using assms by (cases ops) (auto simp: machine_ok_def)

end

section \<open>Operations that wait for a callback\<close>

text \<open>
  \<open>waits\<close> tells the operations that have handed out their iterator to a callback which has
  not come back; such an operation must stay where it is.
\<close>

locale waiting_machine = ops_machine fin table view frame
  for fin :: "'s::linorder" and table :: "('s, 'm, 'j) transition list"
    and view :: "'j \<Rightarrow> 'v" and frame :: "'j \<Rightarrow> 'f" +
  fixes waits :: "('s, 'm) operation_scheme \<Rightarrow> bool"
  assumes waits_stable: "waits op \<Longrightarrow> stable table op prev j"
    and waits_unfinished: "waits op \<Longrightarrow> state op \<noteq> fin"
begin

text \<open>An operation whose callbacks are outstanding is left alone and stays in the deque.\<close>

lemma sweep_keeps:
  assumes "waits op" and "op \<in> set ops" and "sweep table prev ops j = Inr (ops', j')"
  shows "op \<in> set ops'"
  using assms(2,3)
proof (induction ops arbitrary: prev j ops')
  case Nil
  then show ?case by simp
next
  case (Cons o1 ops)
  then obtain o1' j1 ops1 where a: "attempt_all table o1 prev j = Inr (o1', j1)"
    and s: "sweep table (state o1') ops j1 = Inr (ops1, j')" and ops': "ops' = o1' # ops1"
    by (auto simp: bindR_eq_Inr)
  show ?case
  proof (cases "op = o1")
    case True
    then show ?thesis
      using a ops' stable_attempt_all [OF waits_stable [OF assms(1)], of prev j] by simp
  next
    case False
    then show ?thesis using Cons.IH [OF _ s] Cons.prems(1) ops' by auto
  qed
qed

lemma pop_finished_keeps: "op \<in> set ops \<Longrightarrow> state op \<noteq> fin \<Longrightarrow> op \<in> set (pop_finished fin ops)"
  unfolding pop_finished_def by (induction ops) auto

lemma settle_keeps:
  "waits op \<Longrightarrow> op \<in> set ops \<Longrightarrow> settle fin table ops j = Inr (ops', j') \<Longrightarrow> op \<in> set ops'"
proof -
  assume w: "waits op" and op: "op \<in> set ops" and "settle fin table ops j = Inr (ops', j')"
  then obtain ops1 where "sweep table fin ops j = Inr (ops1, j')" and "ops' = pop_finished fin ops1"
    by (auto simp: settle_def bindR_eq_Inr)
  then show ?thesis using sweep_keeps [OF w op] pop_finished_keeps waits_unfinished [OF w] by blast
qed

end

text \<open>
  More generally, a property that no transition takes away and that excludes the final state
  stays with an operation, which then stays in the deque.
\<close>

definition kept ::
  "'s \<Rightarrow> ('s, 'm, 'j) transition list \<Rightarrow> (('s, 'm) operation_scheme \<Rightarrow> bool) \<Rightarrow> bool" where
  "kept fin table P \<longleftrightarrow>
     (\<forall>op prev j op' j'. P op \<and> attempt_all table op prev j = Inr (op', j') \<longrightarrow> P op') \<and>
     (\<forall>op. P op \<longrightarrow> state op \<noteq> fin)"

definition survives ::
  "(('s, 'm) operation_scheme \<Rightarrow> bool) \<Rightarrow> ('s, 'm) operation_scheme list \<Rightarrow> ('s, 'm) operation_scheme list \<Rightarrow> bool" where
  "survives P ops ops' \<longleftrightarrow>
     (\<forall>op \<in> set ops. P op \<longrightarrow> (\<exists>op' \<in> set ops'. sequenceNumber op' = sequenceNumber op \<and> P op'))"

lemma attempt_all_keeps:
  assumes "\<And>t op prev j op' j'. t \<in> set ts \<Longrightarrow> P op \<Longrightarrow>
      attemptTransition (tfrom t) (tto t) (tcond t op prev j) (tactions t) op j = Inr (op', j') \<Longrightarrow> P op'"
    and "P op" and "attempt_all ts op prev j = Inr (op', j')"
  shows "P op'"
  using assms
proof (induction ts arbitrary: op j)
  case (Cons t ts)
  obtain op1 j1 where
    a: "attemptTransition (tfrom t) (tto t) (tcond t op prev j) (tactions t) op j = Inr (op1, j1)"
    and r: "attempt_all ts op1 prev j1 = Inr (op', j')"
    using Cons.prems(3) by (auto simp: bindR_eq_Inr)
  have "P op1" by (rule Cons.prems(1) [OF _ Cons.prems(2) a]) simp
  then show ?case using Cons.IH [OF _ _ r] Cons.prems(1) by (meson list.set_intros(2))
qed simp

context ops_machine
begin

lemma sweep_survives:
  "kept fin table P \<Longrightarrow> sweep table prev ops j = Inr (ops', j') \<Longrightarrow> survives P ops ops'"
proof (induction ops arbitrary: prev j ops')
  case Nil
  then show ?case by (simp add: survives_def)
next
  case (Cons op ops)
  then obtain op1 j1 ops1 where a: "attempt_all table op prev j = Inr (op1, j1)"
    and s: "sweep table (state op1) ops j1 = Inr (ops1, j')" and ops': "ops' = op1 # ops1"
    by (auto simp: bindR_eq_Inr)
  have "P op \<Longrightarrow> P op1" using Cons.prems(1) a unfolding kept_def by blast
  then show ?case
    using Cons.IH [OF Cons.prems(1) s] attempt_all_frame(1) [OF a] unfolding ops' survives_def by auto
qed

lemma settle_survives:
  assumes "kept fin table P" and "settle fin table ops j = Inr (ops', j')"
  shows "survives P ops ops'"
proof -
  obtain ops1 where s: "sweep table fin ops j = Inr (ops1, j')" and ops': "ops' = pop_finished fin ops1"
    using assms(2) by (auto simp: settle_def bindR_eq_Inr)
  have "op \<in> set ops'" if "op \<in> set ops1" "P op" for op
  proof -
    have "state op \<noteq> fin" using assms(1) that(2) by (simp add: kept_def)
    then show ?thesis using that(1) unfolding ops' pop_finished_def by (induction ops1) auto
  qed
  then show ?thesis using sweep_survives [OF assms(1) s] unfolding survives_def by blast
qed

end

text \<open>
  A barrier: an operation of the kind \<open>G\<close> gets to a state at or above \<open>B\<close> only behind one that is
  there, so that in the deque the operations before it are there as well.
\<close>

definition barrier ::
  "('s::linorder, 'm, 'j) transition list \<Rightarrow> 's \<Rightarrow> (('s, 'm) operation_scheme \<Rightarrow> bool) \<Rightarrow> bool" where
  "barrier table B G \<longleftrightarrow>
     (\<forall>t \<in> set table. \<forall>op prev j. G op \<and> state op = tfrom t \<and> tcond t op prev j \<and> tfrom t < B \<and> B \<le> tto t \<longrightarrow> B \<le> prev) \<and>
     (\<forall>t \<in> set table. \<forall>a \<in> set (tactions t). \<forall>op j op' j'. a op j = Inr (op', j') \<longrightarrow> G op' = G op) \<and>
     (\<forall>op s. G (op\<lparr>state := s\<rparr>) = G op)"

fun behind ::
  "'s::linorder \<Rightarrow> (('s, 'm) operation_scheme \<Rightarrow> bool) \<Rightarrow> 's \<Rightarrow> ('s, 'm) operation_scheme list \<Rightarrow> bool" where
  "behind B G prev [] \<longleftrightarrow> True"
| "behind B G prev (op # ops) \<longleftrightarrow> (G op \<and> B \<le> state op \<longrightarrow> B \<le> prev) \<and> behind B G (state op) ops"

lemma behind_mono: "behind B G prev ops \<Longrightarrow> prev \<le> prev' \<Longrightarrow> behind B G prev' ops"
  by (cases ops) auto

lemma behind_snoc: "behind B G prev ops \<Longrightarrow> \<not> B \<le> state op \<Longrightarrow> behind B G prev (ops @ [op])"
  by (induction ops arbitrary: prev) auto

lemma behind_replace:
  "behind B G prev (xs @ op # ys) \<Longrightarrow> state op' = state op \<Longrightarrow> G op' = G op \<Longrightarrow> behind B G prev (xs @ op' # ys)"
  by (induction xs arbitrary: prev) auto

lemma behind_nth:
  "behind B G prev ops \<Longrightarrow> Suc k < length ops \<Longrightarrow> G (ops ! Suc k) \<Longrightarrow> B \<le> state (ops ! Suc k) \<Longrightarrow> B \<le> state (ops ! k)"
proof (induction ops arbitrary: prev k)
  case (Cons op ops)
  then show ?case by (cases k; cases ops) auto
qed simp

lemma behind_between:
  assumes "behind B G prev ops" and "i \<le> j" and "j < length ops" and "\<forall>k \<in> {i<..j}. G (ops ! k)"
    and "B \<le> state (ops ! j)"
  shows "B \<le> state (ops ! i)"
  using assms(2-)
proof (induction rule: inc_induct)
  case (step n)
  then have "B \<le> state (ops ! Suc n)" by simp
  then show ?case using behind_nth [OF assms(1)] step by simp
qed simp

context ops_machine
begin

lemma attempt_all_behind:
  assumes b: "barrier table B G" and ts: "set ts \<subseteq> set table" and a: "attempt_all ts op prev j = Inr (op', j')"
    and op: "G op \<and> B \<le> state op \<longrightarrow> B \<le> prev"
  shows "(G op' \<and> B \<le> state op' \<longrightarrow> B \<le> prev) \<and> G op' = G op"
  using ts a op
proof (induction ts arbitrary: op j)
  case (Cons t ts)
  obtain op1 j1 where
    a1: "attemptTransition (tfrom t) (tto t) (tcond t op prev j) (tactions t) op j = Inr (op1, j1)"
    and r: "attempt_all ts op1 prev j1 = Inr (op', j')"
    using Cons.prems(2) by (auto simp: bindR_eq_Inr)
  have t: "t \<in> set table" using Cons.prems(1) by simp
  have run: "G o2 = G o1" if "run_actions as o1 i1 = Inr (o2, i2)" "set as \<subseteq> set (tactions t)" for as o1 i1 o2 i2
    using that
  proof (induction as arbitrary: o1 i1)
    case (Cons x as)
    then obtain o3 i3 where x: "x o1 i1 = Inr (o3, i3)" "run_actions as o3 i3 = Inr (o2, i2)"
      by (auto simp: bindR_eq_Inr)
    have "G o3 = G o1" using b t x(1) Cons.prems(2) unfolding barrier_def by (meson list.set_intros(1) subsetD)
    then show ?case using Cons.IH [OF x(2)] Cons.prems(2) by simp
  qed simp
  have "(G op1 \<and> B \<le> state op1 \<longrightarrow> B \<le> prev) \<and> G op1 = G op"
  proof (cases "state op = tfrom t \<and> tcond t op prev j")
    case False
    then have "op1 = op" using a1 unfolding attemptTransition_def by (auto split: if_splits)
    then show ?thesis using Cons.prems(3) by simp
  next
    case True
    then obtain op2 where op2: "run_actions (tactions t) op j = Inr (op2, j1)" "op1 = op2\<lparr>state := tto t\<rparr>"
      using a1 by (auto simp: attemptTransition_def bindR_eq_Inr)
    have "G op1 = G op" using run [OF op2(1) order_refl] b op2(2) unfolding barrier_def by simp
    moreover have "G op \<Longrightarrow> B \<le> tto t \<Longrightarrow> B \<le> prev"
      using True b t Cons.prems(3) unfolding barrier_def by (metis not_le_imp_less)
    ultimately show ?thesis using op2(2) by simp
  qed
  then show ?case using Cons.IH [OF _ r] Cons.prems(1) by simp
qed simp

lemma sweep_behind:
  "barrier table B G \<Longrightarrow> sweep table prev ops j = Inr (ops', j') \<Longrightarrow> behind B G prev ops \<Longrightarrow> behind B G prev ops'"
proof (induction ops arbitrary: prev j ops')
  case (Cons op ops)
  then obtain op1 j1 ops1 where a: "attempt_all table op prev j = Inr (op1, j1)"
    and s: "sweep table (state op1) ops j1 = Inr (ops1, j')" and ops': "ops' = op1 # ops1"
    by (auto simp: bindR_eq_Inr)
  have "behind B G (state op1) ops"
    by (rule behind_mono [OF _ attempt_all_frame(3) [OF a]]) (use Cons.prems(3) in simp)
  then have "behind B G (state op1) ops1" by (rule Cons.IH [OF Cons.prems(1) s])
  then show ?case using attempt_all_behind [OF Cons.prems(1) order_refl a] Cons.prems(3) ops' by simp
qed simp

lemma settle_behind:
  assumes "barrier table B G" and "settle fin table ops j = Inr (ops', j')" and "behind B G fin ops"
  shows "behind B G fin ops'"
proof -
  obtain ops1 where s: "sweep table fin ops j = Inr (ops1, j')" and ops': "ops' = pop_finished fin ops1"
    using assms(2) by (auto simp: settle_def bindR_eq_Inr)
  have "behind B G fin (pop_finished fin xs)" if "behind B G fin xs" for xs
    using that unfolding pop_finished_def by (induction xs) auto
  then show ?thesis using sweep_behind [OF assms(1) s assms(3)] ops' by simp
qed

lemma emplace_behind:
  assumes b: "barrier table B G" "behind B G fin ops"
    and ok: "machine_ok fin table ops j" "ends_at n ops" "state op0 \<noteq> fin" "\<not> B \<le> state op0"
    and adv: "advanceOperation fin table n (emplaceBack op0 n ops) j = Inr (ops', j')"
  shows "behind B G fin ops'"
proof (rule settle_behind [OF b(1)])
  show "settle fin table (emplaceBack op0 n ops) j = Inr (ops', j')"
    using adv emplace_advance(1) [OF ok(1-3)] by simp
  show "behind B G fin (emplaceBack op0 n ops)"
    unfolding emplaceBack_def by (rule behind_snoc [OF b(2)]) (use ok(4) in simp)
qed

lemma resume_behind:
  assumes b: "barrier table B G" "behind B G fin ops"
    and ok: "machine_ok fin table ops j" "op \<in> set ops" "sequenceNumber op = sn"
    and f: "sequenceNumber (f op) = sequenceNumber op" "state (f op) = state op" "G (f op) = G op"
    and adv: "through_iter sn f ops = Inr ops1" "advanceOperation fin table sn ops1 j = Inr (ops', j')"
  shows "behind B G fin ops'"
proof -
  obtain ops2 xs ys where t: "through_iter sn f ops = Inr ops2" "ops = xs @ op # ys" "ops2 = xs @ f op # ys"
    and s: "advanceOperation fin table sn ops2 j = settle fin table ops2 j"
    using through_iter_advance [where f = f, OF ok f(1,2)] by metis
  have before: "behind B G fin ops2" using behind_replace [OF _ f(2,3)] b(2) t(2,3) by simp
  have "settle fin table ops2 j = Inr (ops', j')" using s adv t(1) by simp
  then show ?thesis by (rule settle_behind [OF b(1) _ before])
qed

end

context waiting_machine
begin

lemma kept_waits: "(\<And>op. P op \<Longrightarrow> waits op) \<Longrightarrow> kept fin table P"
  using stable_attempt_all [OF waits_stable] waits_unfinished unfolding kept_def by auto

end

section \<open>Machines whose actions never fault\<close>

text \<open>
  \<open>I\<close> is what holds of every operation between two transitions, given what the conditions
  see of the subject; under it the actions of an enabled transition succeed and establish it
  again. \<open>tok\<close> is what an operation owes to the user (its callback) and
  \<open>paid\<close> what the subject has already delivered; actions only move one to the other.
\<close>

locale safe_machine = waiting_machine fin table view frame waits
  for fin :: "'s::linorder" and table :: "('s, 'm, 'j) transition list"
    and view :: "'j \<Rightarrow> 'v" and frame :: "'j \<Rightarrow> 'f" and waits :: "('s, 'm) operation_scheme \<Rightarrow> bool" +
  fixes I :: "'v \<Rightarrow> ('s, 'm) operation_scheme \<Rightarrow> bool"
    and tok :: "('s, 'm) operation_scheme \<Rightarrow> 'k multiset"
    and paid :: "'j \<Rightarrow> 'k multiset"
  assumes step_safe: "t \<in> set table \<Longrightarrow> I (view j) op \<Longrightarrow> state op = tfrom t \<Longrightarrow> tcond t op prev j \<Longrightarrow>
        \<exists>op' j'. run_actions (tactions t) op j = Inr (op', j') \<and> I (view j) (op'\<lparr>state := tto t\<rparr>)"
    and act_tok: "t \<in> set table \<Longrightarrow> a \<in> set (tactions t) \<Longrightarrow> a op j = Inr (op', j') \<Longrightarrow>
        tok op' + paid j' = tok op + paid j"
    and state_tok: "tok (op\<lparr>state := s\<rparr>) = tok op"
    and fin_tok: "I v op \<Longrightarrow> state op = fin \<Longrightarrow> tok op = {#}"
begin

lemma attemptTransition_safe:
  assumes "t \<in> set table" and "I (view j) op"
  shows "\<exists>op' j'. attemptTransition (tfrom t) (tto t) (tcond t op prev j) (tactions t) op j = Inr (op', j') \<and>
    view j' = view j \<and> I (view j) op'"
proof (cases "state op = tfrom t \<and> tcond t op prev j")
  case True
  then obtain op1 j1 where r: "run_actions (tactions t) op j = Inr (op1, j1)" "I (view j) (op1\<lparr>state := tto t\<rparr>)"
    using step_safe [OF assms(1)] assms(2) by blast
  moreover have "frame j1 = frame j" using run_actions_frame [OF assms(1) order_refl r(1)] by blast
  ultimately show ?thesis using True frame_view [of j1 j] by (simp add: attemptTransition_def)
next
  case False
  then show ?thesis using assms(2) unfolding attemptTransition_def by auto
qed

lemma attempt_all_safe:
  assumes "set ts \<subseteq> set table" and "I (view j) op"
  shows "\<exists>op' j'. attempt_all ts op prev j = Inr (op', j') \<and> view j' = view j \<and> I (view j) op'"
  using assms
proof (induction ts arbitrary: op j)
  case Nil
  then show ?case by simp
next
  case (Cons t ts)
  obtain op1 j1 where
    a: "attemptTransition (tfrom t) (tto t) (tcond t op prev j) (tactions t) op j = Inr (op1, j1)"
    and v: "view j1 = view j" "I (view j1) op1"
    using attemptTransition_safe [of t j op prev] Cons.prems by auto
  show ?case using Cons.IH [OF _ v(2)] Cons.prems(1) a v(1) by auto
qed

lemma sweep_safe:
  assumes "\<forall>op \<in> set ops. I (view j) op"
  shows "\<exists>ops' j'. sweep table prev ops j = Inr (ops', j') \<and> view j' = view j \<and> (\<forall>op \<in> set ops'. I (view j) op)"
  using assms
proof (induction ops arbitrary: prev j)
  case Nil
  then show ?case by simp
next
  case (Cons op ops)
  obtain op1 j1 where a: "attempt_all table op prev j = Inr (op1, j1)" "view j1 = view j" "I (view j) op1"
    using attempt_all_safe [OF order_refl, of j op prev] Cons.prems by auto
  obtain ops1 j2 where "sweep table (state op1) ops j1 = Inr (ops1, j2)" "view j2 = view j1"
    "\<forall>op \<in> set ops1. I (view j1) op"
    using Cons.IH [of j1 "state op1"] Cons.prems a(2) by auto
  then show ?case using a by simp
qed

text \<open>What is owed plus what has been delivered stays the same.\<close>

definition owed :: "('s, 'm) operation_scheme list \<Rightarrow> 'k multiset" where
  "owed ops = sum_list (map tok ops)"

lemma owed_simps [simp]:
  "owed [] = {#}" "owed (op # ops) = tok op + owed ops" "owed (xs @ ys) = owed xs + owed ys"
  by (simp_all add: owed_def)

lemma run_actions_tok:
  assumes "t \<in> set table" and "set as \<subseteq> set (tactions t)" and "run_actions as op j = Inr (op', j')"
  shows "tok op' + paid j' = tok op + paid j"
  using assms(2,3)
proof (induction as arbitrary: op j)
  case Nil
  then show ?case by simp
next
  case (Cons a as)
  then obtain op1 j1 where a: "a op j = Inr (op1, j1)" and r: "run_actions as op1 j1 = Inr (op', j')"
    by (auto simp: bindR_eq_Inr)
  have "a \<in> set (tactions t)" using Cons.prems(1) by simp
  from act_tok [OF assms(1) this a] Cons.IH [OF _ r] Cons.prems(1) show ?case by simp
qed

lemma attempt_all_tok:
  assumes "set ts \<subseteq> set table" and "attempt_all ts op prev j = Inr (op', j')"
  shows "tok op' + paid j' = tok op + paid j"
  using assms
proof (induction ts arbitrary: op j)
  case Nil
  then show ?case by simp
next
  case (Cons t ts)
  then obtain op1 j1 where
    a: "attemptTransition (tfrom t) (tto t) (tcond t op prev j) (tactions t) op j = Inr (op1, j1)"
    and r: "attempt_all ts op1 prev j1 = Inr (op', j')"
    by (auto simp: bindR_eq_Inr)
  have t: "t \<in> set table" using Cons.prems(1) by simp
  have "tok op1 + paid j1 = tok op + paid j"
  proof (cases "state op = tfrom t \<and> tcond t op prev j")
    case True
    then obtain op2 where "run_actions (tactions t) op j = Inr (op2, j1)" "op1 = op2\<lparr>state := tto t\<rparr>"
      using a by (auto simp: attemptTransition_def bindR_eq_Inr)
    then show ?thesis using run_actions_tok [OF t order_refl] by (simp add: state_tok)
  next
    case False
    then show ?thesis using a unfolding attemptTransition_def by (auto split: if_splits)
  qed
  then show ?case using Cons.IH [OF _ r] Cons.prems(1) by simp
qed

lemma sweep_tok:
  "sweep table prev ops j = Inr (ops', j') \<Longrightarrow> owed ops' + paid j' = owed ops + paid j"
proof (induction ops arbitrary: prev j ops')
  case Nil
  then show ?case by simp
next
  case (Cons op ops)
  then obtain op1 j1 ops1 where a: "attempt_all table op prev j = Inr (op1, j1)"
    and s: "sweep table (state op1) ops j1 = Inr (ops1, j')" and ops': "ops' = op1 # ops1"
    by (auto simp: bindR_eq_Inr)
  have "owed ops' + paid j' = tok op1 + (owed ops + paid j1)"
    using Cons.IH [OF s] ops' by (simp add: add.assoc)
  also have "\<dots> = owed ops + (tok op + paid j)"
    using attempt_all_tok [OF order_refl a] by (simp add: ac_simps)
  finally show ?case by (simp add: ac_simps)
qed

lemma pop_finished_tok: "\<forall>op \<in> set ops. I v op \<Longrightarrow> owed (pop_finished fin ops) = owed ops"
  unfolding pop_finished_def by (induction ops) (auto dest: fin_tok)

text \<open>
  \<^verbatim>\<open>advanceAllOperations\<close> never faults and loses nothing, even when it stops before the
  end of the deque.
\<close>

lemma advanceOneOperation_safe:
  assumes seq: "seqs_from n ops" and i: "i < length ops" and I: "\<forall>op \<in> set ops. I (view j) op"
  shows "\<exists>b ops' j'. advanceOneOperation fin table i ops j = Inr (b, ops', j') \<and> frame j' = frame j \<and>
    (\<forall>op \<in> set ops'. I (view j) op) \<and> owed ops' + paid j' = owed ops + paid j \<and>
    (\<exists>m. seqs_from m ops' \<and> m + length ops' = n + length ops)"
proof -
  define xs ys where "xs = take i ops" and "ys = drop (Suc i) ops"
  have ops: "ops = xs @ ops ! i # ys" and len: "length xs = i"
    using i by (simp_all add: xs_def ys_def id_take_nth_drop)
  obtain op1 j1 where a: "attempt_all table (ops ! i) (prev_state fin xs) j = Inr (op1, j1)" "I (view j) op1"
    using attempt_all_safe [OF order_refl] I i nth_mem by metis
  note fr = attempt_all_frame [OF a(1)] and tk = attempt_all_tok [OF order_refl a(1)]
  let ?ops1 = "xs @ op1 # ys"
  have seq1: "seqs_from n ?ops1" using seq fr(1) by (subst (asm) ops) (simp add: seqs_from_append seqs_from_Cons)
  have I1: "\<forall>op \<in> set ?ops1. I (view j) op" using I a(2) by (subst (asm) ops) auto
  have o1: "owed ?ops1 + paid j1 = owed ops + paid j"
  proof -
    have "owed ?ops1 + paid j1 = owed xs + owed ys + (tok op1 + paid j1)" by (simp add: ac_simps)
    also have "\<dots> = owed (xs @ ops ! i # ys) + paid j" unfolding tk by (simp add: ac_simps)
    finally show ?thesis by (simp only: ops [symmetric])
  qed
  have one: "advanceOneOperation fin table i ops j =
      Inr (state op1 \<noteq> state (ops ! i), if state op1 = fin then pop_finished fin ?ops1 else ?ops1, j1)"
    using advanceOneOperation_mid [of n xs "ops ! i" ys fin table j] seq a(1) by (simp add: ops [symmetric] len)
  have pop: "(\<forall>op \<in> set (pop_finished fin ?ops1). I (view j) op) \<and> owed (pop_finished fin ?ops1) = owed ?ops1 \<and>
      (\<exists>m. seqs_from m (pop_finished fin ?ops1) \<and> m + length (pop_finished fin ?ops1) = n + length ?ops1)"
    using I1 pop_finished_tok [OF I1] seqs_from_pop_finished_prefix [of n ?ops1 "[]"] seq1
      set_dropWhile_subset [of "\<lambda>op. state op = fin" ?ops1]
    by (auto simp: pop_finished_def)
  have len1: "length ?ops1 = length ops" using i by (simp add: xs_def ys_def)
  show ?thesis
    using one fr(2) o1 pop I1 seq1 len1 by (cases "state op1 = fin") auto
qed

lemma findOperation_contiguous:
  assumes "seqs_from n ops"
  shows "findOperation ops sn = Inr (if int n \<le> sn \<and> sn < int (n + length ops) then Some (nat (sn - int n)) else None)"
proof (cases "int n \<le> sn \<and> sn < int (n + length ops)")
  case True
  define i where "i = nat (sn - int n)"
  have i: "i < length ops" "sn = int (n + i)" using True by (auto simp: i_def)
  then have ops: "take i ops @ ops ! i # drop (Suc i) ops = ops" by (simp add: id_take_nth_drop [symmetric])
  have "seqs_from n (take i ops @ ops ! i # drop (Suc i) ops)" using assms by (simp only: ops)
  from findOperation_mid [OF this] have "findOperation ops sn = Inr (Some i)"
    unfolding ops using i by simp
  then show ?thesis using True by (simp add: i_def)
next
  case False
  then have "sn < int n \<or> sn \<ge> int (n + length ops)" by linarith
  then show ?thesis
    using False findOperation_before [OF assms] findOperation_after [OF assms] by auto
qed

lemma advance_all_loop_safe:
  assumes "seqs_from n ops" and "\<forall>op \<in> set ops. I (view j) op"
    and "0 < k" and "int (n + length ops) - sn < int k"
  shows "\<exists>ops' j'. advance_all_loop k fin table sn ops j = Inr (ops', j') \<and> frame j' = frame j \<and>
    (\<forall>op \<in> set ops'. I (view j) op) \<and> owed ops' + paid j' = owed ops + paid j \<and>
    (\<exists>m. seqs_from m ops' \<and> m + length ops' = n + length ops)"
  using assms
proof (induction k arbitrary: n ops j sn)
  case 0
  then show ?case by simp
next
  case (Suc k)
  show ?case
  proof (cases "int n \<le> sn \<and> sn < int (n + length ops)")
    case False
    then show ?thesis using findOperation_contiguous [OF Suc.prems(1)] Suc.prems(1,2) by auto
  next
    case True
    let ?i = "nat (sn - int n)"
    have i: "?i < length ops" using True by linarith
    obtain b ops1 j1 m where one: "advanceOneOperation fin table ?i ops j = Inr (b, ops1, j1)"
      and fr: "frame j1 = frame j" and I1: "\<forall>op \<in> set ops1. I (view j) op"
      and o1: "owed ops1 + paid j1 = owed ops + paid j"
      and m: "seqs_from m ops1" "m + length ops1 = n + length ops"
      using advanceOneOperation_safe [OF Suc.prems(1) i Suc.prems(2)] by blast
    have v: "view j1 = view j" using frame_view [OF fr] .
    have bounds: "0 < k" "int (m + length ops1) - (sn + 1) < int k" using Suc.prems(4) True m(2) by linarith+
    from Suc.IH [OF m(1) _ bounds, of j1] I1 v o1 m(2) fr one True findOperation_contiguous [OF Suc.prems(1)]
    show ?thesis by auto
  qed
qed

theorem advanceAllOperations_safe:
  assumes "contiguous ops" and "\<forall>op \<in> set ops. I (view j) op"
  shows "\<exists>ops' j'. advanceAllOperations fin table ops j = Inr (ops', j') \<and> frame j' = frame j \<and>
    contiguous ops' \<and> (\<forall>op \<in> set ops'. I (view j) op) \<and> owed ops' + paid j' = owed ops + paid j"
proof (cases "ops = []")
  case True
  then show ?thesis by (simp add: advanceAllOperations_def contiguous_def)
next
  case False
  have "seqs_from (sequenceNumber (hd ops)) ops" using assms(1) False by (simp add: contiguous_def)
  from advance_all_loop_safe [OF this assms(2), of "Suc (length ops)" "int (sequenceNumber (hd ops))"] False
  show ?thesis by (auto simp: advanceAllOperations_def contiguous_iff)
qed

theorem settle_safe:
  assumes "\<forall>op \<in> set ops. I (view j) op"
  shows "\<exists>ops' j'. settle fin table ops j = Inr (ops', j') \<and> view j' = view j \<and> (\<forall>op \<in> set ops'. I (view j) op) \<and>
    (\<forall>op \<in> set ops. waits op \<longrightarrow> op \<in> set ops') \<and> owed ops' + paid j' = owed ops + paid j"
proof -
  obtain ops1 j1 where sw: "sweep table fin ops j = Inr (ops1, j1)" "view j1 = view j"
    and I1: "\<forall>op \<in> set ops1. I (view j) op"
    using sweep_safe [OF assms] by blast
  then have s: "settle fin table ops j = Inr (pop_finished fin ops1, j1)" by (simp add: settle_def)
  have "set (pop_finished fin ops1) \<subseteq> set ops1"
    unfolding pop_finished_def by (rule set_dropWhile_subset)
  moreover have "\<forall>op \<in> set ops. waits op \<longrightarrow> op \<in> set (pop_finished fin ops1)"
    using settle_keeps [OF _ _ s] by blast
  ultimately show ?thesis using s I1 sw(2) sweep_tok [OF sw(1)] pop_finished_tok [OF I1] by auto
qed

end

section \<open>Invariants of a whole deque\<close>

text \<open>
  When the actions check and update the subject against the position of an operation in the
  deque (counters, the connection's state), the invariant \<open>J\<close> speaks of the whole deque. An
  action may then fail, but only with a fault that is \<open>allowed\<close>: one that the code throws at
  its user. \<open>J\<close> also covers a deque whose finished front has not been removed yet.
\<close>

definition ok_result :: "(fault \<Rightarrow> bool) \<Rightarrow> ('a \<Rightarrow> bool) \<Rightarrow> 'a result \<Rightarrow> bool" where
  "ok_result allowed P r \<longleftrightarrow> (case r of Inl f \<Rightarrow> allowed f | Inr x \<Rightarrow> P x)"

lemma ok_result_simps [simp, result_simps]:
  "ok_result allowed P (Inl f) = allowed f"
  "ok_result allowed P (Inr x) = P x"
  by (simp_all add: ok_result_def)

lemma ok_result_bind:
  "ok_result allowed Q m \<Longrightarrow> (\<And>x. m = Inr x \<Longrightarrow> Q x \<Longrightarrow> ok_result allowed P (f x)) \<Longrightarrow> ok_result allowed P (bindR m f)"
  by (cases m) auto

lemma ok_result_mono: "ok_result allowed Q m \<Longrightarrow> (\<And>x. m = Inr x \<Longrightarrow> Q x \<Longrightarrow> P x) \<Longrightarrow> ok_result allowed P m"
  by (cases m) auto

locale deque_machine = ops_machine fin table view frame
  for fin :: "'s::linorder" and table :: "('s, 'm, 'j) transition list"
    and view :: "'j \<Rightarrow> 'v" and frame :: "'j \<Rightarrow> 'f" +
  fixes J :: "('s, 'm) operation_scheme list \<Rightarrow> 'j \<Rightarrow> bool"
    and allowed :: "fault \<Rightarrow> bool"
  assumes J_contiguous: "J ops j \<Longrightarrow> contiguous ops"
    and J_order: "J (op # ops) j \<Longrightarrow> state op \<noteq> fin \<Longrightarrow> op' \<in> set ops \<Longrightarrow> state op' \<noteq> fin"
    and J_pop: "J (op # ops) j \<Longrightarrow> state op = fin \<Longrightarrow> J ops j"
    and J_step: "t \<in> set table \<Longrightarrow> J (zs @ op # ys) j \<Longrightarrow> state op = tfrom t \<Longrightarrow>
      tcond t op (prev_state fin zs) j \<Longrightarrow>
      ok_result allowed (\<lambda>(op', j'). J (zs @ op'\<lparr>state := tto t\<rparr> # ys) j') (run_actions (tactions t) op j)"
begin

lemma attempt_all_J:
  "set ts \<subseteq> set table \<Longrightarrow> J (zs @ op # ys) j \<Longrightarrow>
     ok_result allowed (\<lambda>(op', j'). J (zs @ op' # ys) j') (attempt_all ts op (prev_state fin zs) j)"
proof (induction ts arbitrary: op j)
  case (Cons t ts)
  have "ok_result allowed (\<lambda>(op', j'). J (zs @ op' # ys) j')
      (attemptTransition (tfrom t) (tto t) (tcond t op (prev_state fin zs) j) (tactions t) op j)"
  proof (cases "state op = tfrom t \<and> tcond t op (prev_state fin zs) j")
    case True
    then show ?thesis
      using J_step [of t zs op ys j] Cons.prems
      by (auto simp: attemptTransition_def intro: ok_result_bind split: prod.splits)
  next
    case False
    then have "attemptTransition (tfrom t) (tto t) (tcond t op (prev_state fin zs) j) (tactions t) op j = Inr (op, j)"
      unfolding attemptTransition_def by (rule if_not_P)
    then show ?thesis using Cons.prems by simp
  qed
  then show ?case
    unfolding attempt_all.simps by (rule ok_result_bind) (use Cons in \<open>auto\<close>)
qed simp

lemma sweep_J:
  "J (zs @ ys) j \<Longrightarrow> ok_result allowed (\<lambda>(ys', j'). J (zs @ ys') j') (sweep table (prev_state fin zs) ys j)"
proof (induction ys arbitrary: zs j)
  case (Cons y ys)
  show ?case
    unfolding sweep.simps
  proof (rule ok_result_bind [OF attempt_all_J [OF order_refl Cons.prems]], clarify)
    fix y' j'
    assume "J (zs @ y' # ys) j'"
    then have "ok_result allowed (\<lambda>(ys', j'). J ((zs @ [y']) @ ys') j') (sweep table (prev_state fin (zs @ [y'])) ys j')"
      by (intro Cons.IH) simp
    then show "ok_result allowed (\<lambda>(ys', j'). J (zs @ ys') j')
        (bindR (sweep table (state y') ys j') (\<lambda>(ops', j''). Inr (y' # ops', j'')))"
      by (intro ok_result_bind [where Q = "\<lambda>(ys', j'). J ((zs @ [y']) @ ys') j'"]) (auto simp: prev_state_def)
  qed
qed simp

lemma pop_finished_J: "J ops j \<Longrightarrow> J (pop_finished fin ops) j"
  unfolding pop_finished_def by (induction ops) (auto dest: J_pop)

theorem settle_J: "J ops j \<Longrightarrow> ok_result allowed (\<lambda>(ops', j'). J ops' j') (settle fin table ops j)"
  unfolding settle_def
  by (rule ok_result_bind [where Q = "\<lambda>(ops', j'). J ops' j'"])
    (use sweep_J [of "[]" ops j] pop_finished_J in \<open>auto simp: prev_state_def\<close>)

text \<open>What every use of the machine leaves behind, or the fault it throws.\<close>

definition settled :: "'j \<Rightarrow> (('s, 'm) operation_scheme list \<times> 'j) result \<Rightarrow> bool" where
  "settled j r \<longleftrightarrow> ok_result allowed (\<lambda>(ops', j'). J ops' j' \<and> machine_ok fin table ops' j' \<and> frame j' = frame j) r"

lemma settle_settled:
  assumes "J ops j"
  shows "settled j (settle fin table ops j)"
proof -
  have "contiguous ops" by (rule J_contiguous [OF assms])
  from settle_J [OF assms] settle_machine_ok(1,3) [OF this] show ?thesis
    unfolding settled_def by (auto elim: ok_result_mono)
qed

theorem advance_all_settled:
  assumes "J ops j" and "ops = [] \<or> state (hd ops) \<noteq> fin"
  shows "settled j (advanceAllOperations fin table ops j)"
proof -
  obtain n where n: "seqs_from n ops" using J_contiguous [OF assms(1)] by (auto simp: contiguous_iff)
  have "\<forall>op \<in> set ops. state op \<noteq> fin" using assms J_order by (cases ops) auto
  from advanceAllOperations_settle [OF n this] settle_settled [OF assms(1)] show ?thesis by simp
qed

theorem emplace_settled:
  assumes "machine_ok fin table ops j" and "ends_at n ops" and "state op0 \<noteq> fin" and "J (emplaceBack op0 n ops) j"
  shows "settled j (advanceOperation fin table n (emplaceBack op0 n ops) j)"
  using settle_settled [OF assms(4)] emplace_advance(1) [OF assms(1-3)] by simp

theorem resume_settled:
  assumes ok: "machine_ok fin table ops j" and op: "op \<in> set ops" "sequenceNumber op = sn"
    and f: "sequenceNumber (f op) = sequenceNumber op" "state (f op) = state op"
    and J: "\<And>xs ys. ops = xs @ op # ys \<Longrightarrow> J (xs @ f op # ys) j"
  shows "settled j (bindR (through_iter sn f ops) (\<lambda>ops1. advanceOperation fin table sn ops1 j))"
proof -
  obtain ops1 xs ys where "through_iter sn f ops = Inr ops1" "ops = xs @ op # ys" "ops1 = xs @ f op # ys"
    "advanceOperation fin table sn ops1 j = settle fin table ops1 j"
    using through_iter_advance [where f = f and n = 0, OF ok op f] by metis
  then show ?thesis using settle_settled [OF J] by simp
qed

end

end
