(* ===== verification/Channel_Boilerplate.thy ===== *)
theory Channel_Boilerplate
  imports Ops_State_Machine
begin

text \<open>
  The class template \<^verbatim>\<open>ChannelImplBoilerplate\<close> of
  \<^verbatim>\<open>tensorpipe/channel/channel_impl_boilerplate.h\<close>, from which every channel derives,
  and the entry point of \<^verbatim>\<open>CallbackWrapper\<close> (\<^verbatim>\<open>tensorpipe/common/callback.h\<close>), through
  which the callbacks of lower-level objects reach a channel. The virtual methods of the
  subclass are arguments. All functions run as tasks of the context's loop, so
  \<^verbatim>\<open>TP_DCHECK(context_->inLoop())\<close> holds and is left out.

  Calls that leave the channel (user callbacks, transport connections, the context) are
  recorded, in order, in the log of the channel. User callbacks are numbered by the caller.
\<close>

section \<open>State\<close>

type_synonym addr = "64 word"
type_synonym bytes_len = "64 word"

datatype 'x chan_effect =
    SendCallback nat tp_error
  | RecvCallback nat tp_error
  | EnrollChannel
  | UnenrollChannel
  | Lower 'x

record 'x chan_core =
  chan_id :: string
  chan_error :: tp_error
  nextTensorBeingSent :: nat
  nextTensorBeingReceived :: nat
  chan_log :: "'x chan_effect list"

text \<open>A channel owns two state machines; everything else is its core.\<close>

record ('c, 'sop, 'rop) channel =
  core :: 'c
  sendOps :: "'sop list"
  recvOps :: "'rop list"

text \<open>The arguments that the send and receive operations of the CPU channels share.\<close>

record 's data_op = "'s operation" +
  op_ptr :: addr
  op_length :: bytes_len
  op_callback :: "nat option"

definition log_effects ::
  "'x chan_effect list \<Rightarrow> ('x, 'z) chan_core_scheme \<Rightarrow> ('x, 'z) chan_core_scheme" where
  "log_effects es c = c\<lparr>chan_log := chan_log c @ es\<rparr>"

text \<open>All of a core but its log: what the actions of a channel leave alone.\<close>

definition core_frame :: "('x, 'z) chan_core_scheme \<Rightarrow> ('x, 'z) chan_core_scheme" where
  "core_frame c = c\<lparr>chan_log := []\<rparr>"

section \<open>Operations\<close>

definition chan_init_core :: "string \<Rightarrow> 'x chan_core" where
  "chan_init_core i = \<lparr>chan_id = i, chan_error = Success, nextTensorBeingSent = 0,
     nextTensorBeingReceived = 0, chan_log = []\<rparr>"

definition chan_initFromLoop ::
  "bool \<Rightarrow> ((('x, 'z) chan_core_scheme, 'a, 'b) channel \<Rightarrow> (('x, 'z) chan_core_scheme, 'a, 'b) channel result)
     \<Rightarrow> (('x, 'z) chan_core_scheme, 'a, 'b) channel \<Rightarrow> (('x, 'z) chan_core_scheme, 'a, 'b) channel result" where
  "chan_initFromLoop context_closed initImpl ch =
     (if context_closed then Inr (ch\<lparr>core := (core ch)\<lparr>chan_error := ChannelClosedError\<rparr>\<rparr>)
      else initImpl ch)"

definition chan_sendFromLoop ::
  "(nat \<Rightarrow> 'buf \<Rightarrow> bytes_len \<Rightarrow> nat \<Rightarrow> (('x, 'z) chan_core_scheme, 'a, 'b) channel
      \<Rightarrow> (('x, 'z) chan_core_scheme, 'a, 'b) channel result)
     \<Rightarrow> 'buf \<Rightarrow> bytes_len \<Rightarrow> nat \<Rightarrow> (('x, 'z) chan_core_scheme, 'a, 'b) channel
     \<Rightarrow> (('x, 'z) chan_core_scheme, 'a, 'b) channel result" where
  "chan_sendFromLoop sendImpl buffer len callback ch =
     (let sn = nextTensorBeingSent (core ch);
          ch1 = ch\<lparr>core := (core ch)\<lparr>nextTensorBeingSent := Suc sn\<rparr>\<rparr>
      in if is_error (chan_error (core ch1))
         then Inr (ch1\<lparr>core := log_effects [SendCallback callback (chan_error (core ch1))] (core ch1)\<rparr>)
         else sendImpl sn buffer len callback ch1)"

definition chan_recvFromLoop ::
  "(nat \<Rightarrow> 'buf \<Rightarrow> bytes_len \<Rightarrow> nat \<Rightarrow> (('x, 'z) chan_core_scheme, 'a, 'b) channel
      \<Rightarrow> (('x, 'z) chan_core_scheme, 'a, 'b) channel result)
     \<Rightarrow> 'buf \<Rightarrow> bytes_len \<Rightarrow> nat \<Rightarrow> (('x, 'z) chan_core_scheme, 'a, 'b) channel
     \<Rightarrow> (('x, 'z) chan_core_scheme, 'a, 'b) channel result" where
  "chan_recvFromLoop recvImpl buffer len callback ch =
     (let sn = nextTensorBeingReceived (core ch);
          ch1 = ch\<lparr>core := (core ch)\<lparr>nextTensorBeingReceived := Suc sn\<rparr>\<rparr>
      in if is_error (chan_error (core ch1))
         then Inr (ch1\<lparr>core := log_effects [RecvCallback callback (chan_error (core ch1))] (core ch1)\<rparr>)
         else recvImpl sn buffer len callback ch1)"

definition chan_setIdFromLoop ::
  "string \<Rightarrow> (('x, 'z) chan_core_scheme, 'a, 'b) channel \<Rightarrow> (('x, 'z) chan_core_scheme, 'a, 'b) channel" where
  "chan_setIdFromLoop i ch = ch\<lparr>core := (core ch)\<lparr>chan_id := i\<rparr>\<rparr>"

definition chan_setError ::
  "((('x, 'z) chan_core_scheme, 'a, 'b) channel \<Rightarrow> (('x, 'z) chan_core_scheme, 'a, 'b) channel result)
     \<Rightarrow> tp_error \<Rightarrow> (('x, 'z) chan_core_scheme, 'a, 'b) channel
     \<Rightarrow> (('x, 'z) chan_core_scheme, 'a, 'b) channel result" where
  "chan_setError handleErrorImpl e ch =
     (if is_error (chan_error (core ch)) \<or> \<not> is_error e then Inr ch
      else handleErrorImpl (ch\<lparr>core := (core ch)\<lparr>chan_error := e\<rparr>\<rparr>))"

definition chan_closeFromLoop ::
  "((('x, 'z) chan_core_scheme, 'a, 'b) channel \<Rightarrow> (('x, 'z) chan_core_scheme, 'a, 'b) channel result)
     \<Rightarrow> (('x, 'z) chan_core_scheme, 'a, 'b) channel \<Rightarrow> (('x, 'z) chan_core_scheme, 'a, 'b) channel result" where
  "chan_closeFromLoop handleErrorImpl ch = chan_setError handleErrorImpl ChannelClosedError ch"

text \<open>
  \<^verbatim>\<open>CallbackWrapper::entryPointFromLoop\<close>: the error that a lower-level operation reports
  is handled first, and the wrapped function is called in any case.
\<close>

definition entryPointFromLoop ::
  "(tp_error \<Rightarrow> 'j \<Rightarrow> 'j result) \<Rightarrow> tp_error \<Rightarrow> ('j \<Rightarrow> 'j result) \<Rightarrow> 'j \<Rightarrow> 'j result" where
  "entryPointFromLoop setErr e fn j = bindR (setErr e j) fn"

text \<open>
  The action that releases an operation to the user, which every CPU channel spells out:
  call the callback with the error of the channel, then reset it.
\<close>

definition call_send_callback ::
  "('s, 'm) data_op_scheme \<Rightarrow> ('x, 'z) chan_core_scheme
     \<Rightarrow> (('s, 'm) data_op_scheme \<times> ('x, 'z) chan_core_scheme) result" where
  "call_send_callback op c =
     (case op_callback op of
        None \<Rightarrow> Inl BadFunctionCall
      | Some cb \<Rightarrow> Inr (op\<lparr>op_callback := None\<rparr>, log_effects [SendCallback cb (chan_error c)] c))"

definition call_recv_callback ::
  "('s, 'm) data_op_scheme \<Rightarrow> ('x, 'z) chan_core_scheme
     \<Rightarrow> (('s, 'm) data_op_scheme \<times> ('x, 'z) chan_core_scheme) result" where
  "call_recv_callback op c =
     (case op_callback op of
        None \<Rightarrow> Inl BadFunctionCall
      | Some cb \<Rightarrow> Inr (op\<lparr>op_callback := None\<rparr>, log_effects [RecvCallback cb (chan_error c)] c))"

section \<open>Driving the two machines of a channel\<close>

definition send_start ::
  "'s \<Rightarrow> ('s, 'm, 'c) transition list \<Rightarrow> ('s, 'm) operation_scheme \<Rightarrow> nat
     \<Rightarrow> ('c, ('s, 'm) operation_scheme, 'b) channel \<Rightarrow> ('c, ('s, 'm) operation_scheme, 'b) channel result" where
  "send_start fin table op0 sn ch =
     bindR (advanceOperation fin table sn (emplaceBack op0 sn (sendOps ch)) (core ch))
       (\<lambda>(ops, c). Inr (ch\<lparr>core := c, sendOps := ops\<rparr>))"

definition recv_start ::
  "'s \<Rightarrow> ('s, 'm, 'c) transition list \<Rightarrow> ('s, 'm) operation_scheme \<Rightarrow> nat
     \<Rightarrow> ('c, 'a, ('s, 'm) operation_scheme) channel \<Rightarrow> ('c, 'a, ('s, 'm) operation_scheme) channel result" where
  "recv_start fin table op0 sn ch =
     bindR (advanceOperation fin table sn (emplaceBack op0 sn (recvOps ch)) (core ch))
       (\<lambda>(ops, c). Inr (ch\<lparr>core := c, recvOps := ops\<rparr>))"

definition send_resume ::
  "'s \<Rightarrow> ('s, 'm, 'c) transition list \<Rightarrow> nat \<Rightarrow> (('s, 'm) operation_scheme \<Rightarrow> ('s, 'm) operation_scheme)
     \<Rightarrow> ('c, ('s, 'm) operation_scheme, 'b) channel \<Rightarrow> ('c, ('s, 'm) operation_scheme, 'b) channel result" where
  "send_resume fin table sn f ch =
     bindR (through_iter sn f (sendOps ch)) (\<lambda>ops1.
       bindR (advanceOperation fin table sn ops1 (core ch))
         (\<lambda>(ops, c). Inr (ch\<lparr>core := c, sendOps := ops\<rparr>)))"

definition recv_resume ::
  "'s \<Rightarrow> ('s, 'm, 'c) transition list \<Rightarrow> nat \<Rightarrow> (('s, 'm) operation_scheme \<Rightarrow> ('s, 'm) operation_scheme)
     \<Rightarrow> ('c, 'a, ('s, 'm) operation_scheme) channel \<Rightarrow> ('c, 'a, ('s, 'm) operation_scheme) channel result" where
  "recv_resume fin table sn f ch =
     bindR (through_iter sn f (recvOps ch)) (\<lambda>ops1.
       bindR (advanceOperation fin table sn ops1 (core ch))
         (\<lambda>(ops, c). Inr (ch\<lparr>core := c, recvOps := ops\<rparr>)))"

definition advance_both ::
  "'s \<Rightarrow> ('s, 'm, 'c) transition list \<Rightarrow> 't \<Rightarrow> ('t, 'n, 'c) transition list
     \<Rightarrow> ('c, ('s, 'm) operation_scheme, ('t, 'n) operation_scheme) channel
     \<Rightarrow> ('c, ('s, 'm) operation_scheme, ('t, 'n) operation_scheme) channel result" where
  "advance_both sfin stab rfin rtab ch =
     bindR (advanceAllOperations sfin stab (sendOps ch) (core ch)) (\<lambda>(sops, c).
       bindR (advanceAllOperations rfin rtab (recvOps ch) c) (\<lambda>(rops, c').
         Inr (ch\<lparr>core := c', sendOps := sops, recvOps := rops\<rparr>)))"

text \<open>The operation with a given number has a property, such as an outstanding callback.\<close>

definition outstanding_at :: "(('s, 'm) operation_scheme \<Rightarrow> bool) \<Rightarrow> nat \<Rightarrow> ('s, 'm) operation_scheme list \<Rightarrow> bool" where
  "outstanding_at P sn ops \<longleftrightarrow> list_ex (\<lambda>op. sequenceNumber op = sn \<and> P op) ops"

text \<open>
  The invariant of a channel between two tasks of its loop: both deques are in order and
  settled, every operation in them satisfies the invariant of its machine, and, until an
  error occurs, the counters of the boilerplate continue the numbers of the deques.
\<close>

definition chan_inv ::
  "'s \<Rightarrow> ('s, 'm, ('x, 'z) chan_core_scheme) transition list \<Rightarrow> ('v \<Rightarrow> ('s, 'm) operation_scheme \<Rightarrow> bool)
     \<Rightarrow> 't \<Rightarrow> ('t, 'n, ('x, 'z) chan_core_scheme) transition list \<Rightarrow> ('v \<Rightarrow> ('t, 'n) operation_scheme \<Rightarrow> bool)
     \<Rightarrow> (('x, 'z) chan_core_scheme \<Rightarrow> 'v)
     \<Rightarrow> (('x, 'z) chan_core_scheme, ('s, 'm) operation_scheme, ('t, 'n) operation_scheme) channel \<Rightarrow> bool" where
  "chan_inv sfin stab sI rfin rtab rI view ch \<longleftrightarrow>
     machine_ok sfin stab (sendOps ch) (core ch) \<and> machine_ok rfin rtab (recvOps ch) (core ch) \<and>
     list_all (sI (view (core ch))) (sendOps ch) \<and> list_all (rI (view (core ch))) (recvOps ch) \<and>
     (\<not> is_error (chan_error (core ch)) \<longrightarrow>
        ends_at (nextTensorBeingSent (core ch)) (sendOps ch) \<and>
        ends_at (nextTensorBeingReceived (core ch)) (recvOps ch))"

text \<open>
  The same with the numbers that the next operations will have given explicitly, for channels
  that split a tensor into several operations and count those.
\<close>

definition chan_inv_at ::
  "nat \<Rightarrow> nat \<Rightarrow> 's \<Rightarrow> ('s, 'm, ('x, 'z) chan_core_scheme) transition list \<Rightarrow> ('v \<Rightarrow> ('s, 'm) operation_scheme \<Rightarrow> bool)
     \<Rightarrow> 't \<Rightarrow> ('t, 'n, ('x, 'z) chan_core_scheme) transition list \<Rightarrow> ('v \<Rightarrow> ('t, 'n) operation_scheme \<Rightarrow> bool)
     \<Rightarrow> (('x, 'z) chan_core_scheme \<Rightarrow> 'v)
     \<Rightarrow> (('x, 'z) chan_core_scheme, ('s, 'm) operation_scheme, ('t, 'n) operation_scheme) channel \<Rightarrow> bool" where
  "chan_inv_at ns nr sfin stab sI rfin rtab rI view ch \<longleftrightarrow>
     machine_ok sfin stab (sendOps ch) (core ch) \<and> machine_ok rfin rtab (recvOps ch) (core ch) \<and>
     list_all (sI (view (core ch))) (sendOps ch) \<and> list_all (rI (view (core ch))) (recvOps ch) \<and>
     (\<not> is_error (chan_error (core ch)) \<longrightarrow> ends_at ns (sendOps ch) \<and> ends_at nr (recvOps ch))"

lemma chan_inv_at_next:
  "chan_inv sfin stab sI rfin rtab rI view ch =
     chan_inv_at (nextTensorBeingSent (core ch)) (nextTensorBeingReceived (core ch)) sfin stab sI rfin rtab rI view ch"
  by (simp add: chan_inv_def chan_inv_at_def)

text \<open>
  The callbacks of the user, \<open>Inl\<close> for sends and \<open>Inr\<close> for receives: those that were
  called, and those that an operation still holds.
\<close>

fun effect_callback :: "'x chan_effect \<Rightarrow> (nat + nat) list" where
  "effect_callback (SendCallback cb e) = [Inl cb]"
| "effect_callback (RecvCallback cb e) = [Inr cb]"
| "effect_callback _ = []"

definition called :: "('x, 'z) chan_core_scheme \<Rightarrow> (nat + nat) multiset" where
  "called c = mset (concat (map effect_callback (chan_log c)))"

definition owes_send :: "('s, 'm) data_op_scheme \<Rightarrow> (nat + nat) multiset" where
  "owes_send op = (case op_callback op of None \<Rightarrow> {#} | Some cb \<Rightarrow> {#Inl cb#})"

definition owes_recv :: "('s, 'm) data_op_scheme \<Rightarrow> (nat + nat) multiset" where
  "owes_recv op = (case op_callback op of None \<Rightarrow> {#} | Some cb \<Rightarrow> {#Inr cb#})"

text \<open>All callbacks a channel knows of.\<close>

definition accounted ::
  "('sop \<Rightarrow> (nat + nat) multiset) \<Rightarrow> ('rop \<Rightarrow> (nat + nat) multiset)
     \<Rightarrow> (('x, 'z) chan_core_scheme, 'sop, 'rop) channel \<Rightarrow> (nat + nat) multiset" where
  "accounted stok rtok ch =
     sum_list (map stok (sendOps ch)) + sum_list (map rtok (recvOps ch)) + called (core ch)"

section \<open>Frames\<close>

lemma core_frame_log [simp]:
  "core_frame (log_effects es c) = core_frame c"
  "core_frame (c\<lparr>chan_log := l\<rparr>) = core_frame c"
  by (simp_all add: core_frame_def log_effects_def)

lemma core_frameD:
  assumes "core_frame c = core_frame c'"
  shows "chan_error c = chan_error c'" "nextTensorBeingSent c = nextTensorBeingSent c'"
    "nextTensorBeingReceived c = nextTensorBeingReceived c'" "chan_id c = chan_id c'"
    "chan_core.more c = chan_core.more c'"
  using assms unfolding core_frame_def
  by (metis chan_core.ext_inject chan_core.surjective chan_core.update_convs(5))+

lemma log_effects_simps [simp]:
  "chan_error (log_effects es c) = chan_error c"
  "nextTensorBeingSent (log_effects es c) = nextTensorBeingSent c"
  "nextTensorBeingReceived (log_effects es c) = nextTensorBeingReceived c"
  "chan_log (log_effects es c) = chan_log c @ es"
  "chan_core.more (log_effects es c) = chan_core.more c"
  by (simp_all add: log_effects_def)

lemma call_callback_frame:
  "call_send_callback op c = Inr (op', c') \<Longrightarrow>
     sequenceNumber op' = sequenceNumber op \<and> state op' = state op \<and> core_frame c' = core_frame c"
  "call_recv_callback op c = Inr (op', c') \<Longrightarrow>
     sequenceNumber op' = sequenceNumber op \<and> state op' = state op \<and> core_frame c' = core_frame c"
  by (auto simp: call_send_callback_def call_recv_callback_def split: option.splits)

lemma called_simps [simp]:
  "called (log_effects es c) = called c + mset (concat (map effect_callback es))"
  "called (c\<lparr>nextTensorBeingSent := n\<rparr>) = called c"
  "called (c\<lparr>nextTensorBeingReceived := n\<rparr>) = called c"
  "called (c\<lparr>chan_error := e\<rparr>) = called c"
  "called (c\<lparr>chan_id := i\<rparr>) = called c"
  by (simp_all add: called_def)

lemma owes_simps [simp]:
  "owes_send (op\<lparr>state := s\<rparr>) = owes_send op" "owes_recv (op\<lparr>state := s\<rparr>) = owes_recv op"
  "owes_send (op\<lparr>sequenceNumber := n\<rparr>) = owes_send op"
  "owes_recv (op\<lparr>sequenceNumber := n\<rparr>) = owes_recv op"
  by (simp_all add: owes_send_def owes_recv_def)

lemma call_callback_tok:
  "call_send_callback op c = Inr (op', c') \<Longrightarrow> owes_send op' + called c' = owes_send op + called c"
  "call_recv_callback op c = Inr (op', c') \<Longrightarrow> owes_recv op' + called c' = owes_recv op + called c"
  by (auto simp: call_send_callback_def call_recv_callback_def owes_send_def owes_recv_def split: option.splits)

section \<open>The contract of a channel's tables\<close>

text \<open>
  Both tables are safe machines over the core of the channel; what the conditions read
  does not include the counters of the boilerplate.
\<close>

locale channel_machine =
  send: safe_machine sfin stab view core_frame swaits sI stok called +
  recv: safe_machine rfin rtab view core_frame rwaits rI rtok called
  for sfin :: "'s::linorder" and stab :: "('s, 'm, ('x, 'z) chan_core_scheme) transition list"
    and sI :: "'v \<Rightarrow> ('s, 'm) operation_scheme \<Rightarrow> bool" and swaits :: "('s, 'm) operation_scheme \<Rightarrow> bool"
    and stok :: "('s, 'm) operation_scheme \<Rightarrow> (nat + nat) multiset"
    and rfin :: "'t::linorder" and rtab :: "('t, 'n, ('x, 'z) chan_core_scheme) transition list"
    and rI :: "'v \<Rightarrow> ('t, 'n) operation_scheme \<Rightarrow> bool" and rwaits :: "('t, 'n) operation_scheme \<Rightarrow> bool"
    and rtok :: "('t, 'n) operation_scheme \<Rightarrow> (nat + nat) multiset"
    and view :: "('x, 'z) chan_core_scheme \<Rightarrow> 'v" +
  assumes view_sent: "view (c\<lparr>nextTensorBeingSent := n\<rparr>) = view c"
    and view_received: "view (c\<lparr>nextTensorBeingReceived := n\<rparr>) = view c"
    and view_id: "view (c\<lparr>chan_id := i\<rparr>) = view c"
begin

lemma view_log: "view (log_effects es c) = view c"
  by (rule send.frame_view) simp

lemma accounted_eq: "accounted stok rtok ch = send.owed (sendOps ch) + recv.owed (recvOps ch) + called (core ch)"
  by (simp add: accounted_def send.owed_def recv.owed_def)

lemma chan_inv_at_view:
  assumes "chan_inv_at ns nr sfin stab sI rfin rtab rI view ch" and "view c = view (core ch)"
    and "chan_error c = chan_error (core ch)"
  shows "chan_inv_at ns nr sfin stab sI rfin rtab rI view (ch\<lparr>core := c\<rparr>)"
  using assms send.machine_ok_cong [OF assms(2)] recv.machine_ok_cong [OF assms(2)]
  by (simp add: chan_inv_at_def)

lemma chan_inv_view:
  assumes "chan_inv sfin stab sI rfin rtab rI view ch" and "view c = view (core ch)"
    and "chan_error c = chan_error (core ch)" "nextTensorBeingSent c = nextTensorBeingSent (core ch)"
      "nextTensorBeingReceived c = nextTensorBeingReceived (core ch)"
  shows "chan_inv sfin stab sI rfin rtab rI view (ch\<lparr>core := c\<rparr>)"
  using chan_inv_at_view [OF assms(1)[unfolded chan_inv_at_next] assms(2,3)] assms(4,5)
  by (simp add: chan_inv_at_next)

text \<open>The members that a subclass adds are not touched by requests and callbacks.\<close>

lemma start_resume_frame:
  "send_start sfin stab op0 sn ch = Inr ch' \<Longrightarrow> core_frame (core ch') = core_frame (core ch)"
  "recv_start rfin rtab rop0 sn ch = Inr ch' \<Longrightarrow> core_frame (core ch') = core_frame (core ch)"
  "send_resume sfin stab sn f ch = Inr ch' \<Longrightarrow> core_frame (core ch') = core_frame (core ch)"
  "recv_resume rfin rtab sn g ch = Inr ch' \<Longrightarrow> core_frame (core ch') = core_frame (core ch)"
  by (auto simp: send_start_def recv_start_def send_resume_def recv_resume_def bindR_eq_Inr
      dest: send.advanceOperation_frame recv.advanceOperation_frame)

text \<open>Every request of the user is accepted, without a fault, and its callback accounted for.\<close>

lemma send_start_at:
  assumes inv: "chan_inv_at ns nr sfin stab sI rfin rtab rI view ch" and ok: "\<not> is_error (chan_error (core ch))"
    and op0: "state op0 \<noteq> sfin" "sI (view (core ch)) (op0\<lparr>sequenceNumber := ns\<rparr>)"
  shows "\<exists>ch'. send_start sfin stab op0 ns ch = Inr ch' \<and>
    chan_inv_at (Suc ns) nr sfin stab sI rfin rtab rI view ch' \<and> core_frame (core ch') = core_frame (core ch) \<and>
    accounted stok rtok ch' = accounted stok rtok ch + stok (op0\<lparr>sequenceNumber := ns\<rparr>)"
proof -
  let ?c = "core ch" and ?ops = "emplaceBack op0 ns (sendOps ch)"
  have m: "machine_ok sfin stab (sendOps ch) ?c" and e: "ends_at ns (sendOps ch)"
    using inv ok by (auto simp: chan_inv_at_def)
  note adv = send.emplace_advance [OF m e op0(1)]
  have "\<forall>op \<in> set ?ops. sI (view ?c) op"
    using inv op0(2) by (auto simp: chan_inv_at_def emplaceBack_def list_all_iff)
  then obtain ops' c' where s: "settle sfin stab ?ops ?c = Inr (ops', c')" and I: "view c' = view ?c" "\<forall>op \<in> set ops'. sI (view ?c) op"
    and acc: "send.owed ops' + called c' = send.owed ?ops + called ?c"
    using send.settle_safe by blast
  note ok' = send.settle_machine_ok [OF adv(2) s]
  have "machine_ok rfin rtab (recvOps ch) c'"
    using inv recv.machine_ok_cong [OF recv.frame_view [OF ok'(3)]] by (simp add: chan_inv_at_def)
  then have "chan_inv_at (Suc ns) nr sfin stab sI rfin rtab rI view (ch\<lparr>core := c', sendOps := ops'\<rparr>)"
    using ok'(1,2) adv(3) I inv ok core_frameD [OF ok'(3)] by (simp add: chan_inv_at_def list_all_iff)
  moreover have "accounted stok rtok (ch\<lparr>core := c', sendOps := ops'\<rparr>) =
      accounted stok rtok ch + stok (op0\<lparr>sequenceNumber := ns\<rparr>)"
    using acc by (simp add: accounted_eq emplaceBack_def ac_simps)
  ultimately show ?thesis using s adv(1) ok'(3) by (simp add: send_start_def)
qed

lemma send_start_inv:
  assumes inv: "chan_inv sfin stab sI rfin rtab rI view ch" and ok: "\<not> is_error (chan_error (core ch))"
    and sn: "sn = nextTensorBeingSent (core ch)"
    and op0: "state op0 \<noteq> sfin" "sI (view (core ch)) (op0\<lparr>sequenceNumber := sn\<rparr>)"
  shows "\<exists>ch'. send_start sfin stab op0 sn (ch\<lparr>core := (core ch)\<lparr>nextTensorBeingSent := Suc sn\<rparr>\<rparr>) = Inr ch' \<and>
    chan_inv sfin stab sI rfin rtab rI view ch' \<and>
    accounted stok rtok ch' = accounted stok rtok ch + stok (op0\<lparr>sequenceNumber := sn\<rparr>)"
proof -
  let ?ch = "ch\<lparr>core := (core ch)\<lparr>nextTensorBeingSent := Suc sn\<rparr>\<rparr>"
  have "chan_inv_at (nextTensorBeingSent (core ch)) (nextTensorBeingReceived (core ch)) sfin stab sI rfin rtab rI view ?ch"
    by (rule chan_inv_at_view [OF inv [unfolded chan_inv_at_next]]) (simp_all add: view_sent)
  from send_start_at [OF this, of op0] obtain ch' where ch': "send_start sfin stab op0 sn ?ch = Inr ch'"
    "chan_inv_at (Suc (nextTensorBeingSent (core ch))) (nextTensorBeingReceived (core ch)) sfin stab sI rfin rtab rI view ch'"
    "core_frame (core ch') = core_frame (core ?ch)"
    "accounted stok rtok ch' = accounted stok rtok ?ch + stok (op0\<lparr>sequenceNumber := sn\<rparr>)"
    using ok op0 sn by (auto simp: view_sent)
  then show ?thesis using core_frameD [OF ch'(3)] sn by (auto simp: chan_inv_at_next accounted_eq)
qed

lemma recv_start_at:
  assumes inv: "chan_inv_at ns nr sfin stab sI rfin rtab rI view ch" and ok: "\<not> is_error (chan_error (core ch))"
    and op0: "state op0 \<noteq> rfin" "rI (view (core ch)) (op0\<lparr>sequenceNumber := nr\<rparr>)"
  shows "\<exists>ch'. recv_start rfin rtab op0 nr ch = Inr ch' \<and>
    chan_inv_at ns (Suc nr) sfin stab sI rfin rtab rI view ch' \<and> core_frame (core ch') = core_frame (core ch) \<and>
    accounted stok rtok ch' = accounted stok rtok ch + rtok (op0\<lparr>sequenceNumber := nr\<rparr>)"
proof -
  let ?c = "core ch" and ?ops = "emplaceBack op0 nr (recvOps ch)"
  have m: "machine_ok rfin rtab (recvOps ch) ?c" and e: "ends_at nr (recvOps ch)"
    using inv ok by (auto simp: chan_inv_at_def)
  note adv = recv.emplace_advance [OF m e op0(1)]
  have "\<forall>op \<in> set ?ops. rI (view ?c) op"
    using inv op0(2) by (auto simp: chan_inv_at_def emplaceBack_def list_all_iff)
  then obtain ops' c' where s: "settle rfin rtab ?ops ?c = Inr (ops', c')" and I: "view c' = view ?c" "\<forall>op \<in> set ops'. rI (view ?c) op"
    and acc: "recv.owed ops' + called c' = recv.owed ?ops + called ?c"
    using recv.settle_safe by blast
  note ok' = recv.settle_machine_ok [OF adv(2) s]
  have "machine_ok sfin stab (sendOps ch) c'"
    using inv send.machine_ok_cong [OF send.frame_view [OF ok'(3)]] by (simp add: chan_inv_at_def)
  then have "chan_inv_at ns (Suc nr) sfin stab sI rfin rtab rI view (ch\<lparr>core := c', recvOps := ops'\<rparr>)"
    using ok'(1,2) adv(3) I inv ok core_frameD [OF ok'(3)] by (simp add: chan_inv_at_def list_all_iff)
  moreover have "accounted stok rtok (ch\<lparr>core := c', recvOps := ops'\<rparr>) =
      accounted stok rtok ch + rtok (op0\<lparr>sequenceNumber := nr\<rparr>)"
    using acc by (simp add: accounted_eq emplaceBack_def ac_simps)
  ultimately show ?thesis using s adv(1) ok'(3) by (simp add: recv_start_def)
qed

lemma recv_start_inv:
  assumes inv: "chan_inv sfin stab sI rfin rtab rI view ch" and ok: "\<not> is_error (chan_error (core ch))"
    and sn: "sn = nextTensorBeingReceived (core ch)"
    and op0: "state op0 \<noteq> rfin" "rI (view (core ch)) (op0\<lparr>sequenceNumber := sn\<rparr>)"
  shows "\<exists>ch'. recv_start rfin rtab op0 sn (ch\<lparr>core := (core ch)\<lparr>nextTensorBeingReceived := Suc sn\<rparr>\<rparr>) = Inr ch' \<and>
    chan_inv sfin stab sI rfin rtab rI view ch' \<and>
    accounted stok rtok ch' = accounted stok rtok ch + rtok (op0\<lparr>sequenceNumber := sn\<rparr>)"
proof -
  let ?ch = "ch\<lparr>core := (core ch)\<lparr>nextTensorBeingReceived := Suc sn\<rparr>\<rparr>"
  have "chan_inv_at (nextTensorBeingSent (core ch)) (nextTensorBeingReceived (core ch)) sfin stab sI rfin rtab rI view ?ch"
    by (rule chan_inv_at_view [OF inv [unfolded chan_inv_at_next]]) (simp_all add: view_received)
  from recv_start_at [OF this, of op0] obtain ch' where ch': "recv_start rfin rtab op0 sn ?ch = Inr ch'"
    "chan_inv_at (nextTensorBeingSent (core ch)) (Suc (nextTensorBeingReceived (core ch))) sfin stab sI rfin rtab rI view ch'"
    "core_frame (core ch') = core_frame (core ?ch)"
    "accounted stok rtok ch' = accounted stok rtok ?ch + rtok (op0\<lparr>sequenceNumber := sn\<rparr>)"
    using ok op0 sn by (auto simp: view_received)
  then show ?thesis using core_frameD [OF ch'(3)] sn by (auto simp: chan_inv_at_next accounted_eq)
qed

text \<open>A callback of a lower-level operation finds its operation in the deque.\<close>

lemma send_resume_at:
  assumes inv: "chan_inv_at ns nr sfin stab sI rfin rtab rI view ch"
    and op: "op \<in> set (sendOps ch)" "sequenceNumber op = sn"
    and f: "sequenceNumber (f op) = sequenceNumber op" "state (f op) = state op"
      "sI (view (core ch)) (f op)" "stok (f op) = stok op"
  shows "\<exists>ch'. send_resume sfin stab sn f ch = Inr ch' \<and> chan_inv_at ns nr sfin stab sI rfin rtab rI view ch' \<and>
    core_frame (core ch') = core_frame (core ch) \<and> accounted stok rtok ch' = accounted stok rtok ch"
proof -
  have m: "machine_ok sfin stab (sendOps ch) (core ch)" using inv by (simp add: chan_inv_at_def)
  obtain ops1 xs ys where t: "through_iter sn f (sendOps ch) = Inr ops1" "contiguous ops1"
    and e: "ends_at ns ops1 = ends_at ns (sendOps ch)"
    and split: "sendOps ch = xs @ op # ys" "ops1 = xs @ f op # ys"
    and adv: "advanceOperation sfin stab sn ops1 (core ch) = settle sfin stab ops1 (core ch)"
    using send.through_iter_advance [where f = f, OF m op f(1,2)] by blast
  have "\<forall>op \<in> set ops1. sI (view (core ch)) op" using inv split f(3) by (auto simp: chan_inv_at_def list_all_iff)
  then obtain ops' c' where s: "settle sfin stab ops1 (core ch) = Inr (ops', c')"
    and I: "view c' = view (core ch)" "\<forall>op \<in> set ops'. sI (view (core ch)) op"
    and acc: "send.owed ops' + called c' = send.owed ops1 + called (core ch)"
    using send.settle_safe by blast
  note ok' = send.settle_machine_ok [OF t(2) s]
  have "machine_ok rfin rtab (recvOps ch) c'"
    using inv recv.machine_ok_cong [OF recv.frame_view [OF ok'(3)]] by (simp add: chan_inv_at_def)
  then have "chan_inv_at ns nr sfin stab sI rfin rtab rI view (ch\<lparr>core := c', sendOps := ops'\<rparr>)"
    using ok'(1,2) e I inv core_frameD [OF ok'(3)] by (simp add: chan_inv_at_def list_all_iff)
  moreover have "accounted stok rtok (ch\<lparr>core := c', sendOps := ops'\<rparr>) = accounted stok rtok ch"
    using acc split f(4) by (simp add: accounted_eq ac_simps)
  ultimately show ?thesis using s adv t(1) ok'(3) by (simp add: send_resume_def)
qed

lemma send_resume_inv:
  assumes inv: "chan_inv sfin stab sI rfin rtab rI view ch"
    and op: "op \<in> set (sendOps ch)" "sequenceNumber op = sn"
    and f: "sequenceNumber (f op) = sequenceNumber op" "state (f op) = state op"
      "sI (view (core ch)) (f op)" "stok (f op) = stok op"
  shows "\<exists>ch'. send_resume sfin stab sn f ch = Inr ch' \<and> chan_inv sfin stab sI rfin rtab rI view ch' \<and>
    accounted stok rtok ch' = accounted stok rtok ch"
proof -
  obtain ch' where ch': "send_resume sfin stab sn f ch = Inr ch'"
    "chan_inv_at (nextTensorBeingSent (core ch)) (nextTensorBeingReceived (core ch)) sfin stab sI rfin rtab rI view ch'"
    "core_frame (core ch') = core_frame (core ch)" "accounted stok rtok ch' = accounted stok rtok ch"
    using send_resume_at [OF inv [unfolded chan_inv_at_next] op, of f] f by blast
  then show ?thesis using core_frameD [OF ch'(3)] by (auto simp: chan_inv_at_next)
qed

lemma recv_resume_at:
  assumes inv: "chan_inv_at ns nr sfin stab sI rfin rtab rI view ch"
    and op: "op \<in> set (recvOps ch)" "sequenceNumber op = sn"
    and f: "sequenceNumber (f op) = sequenceNumber op" "state (f op) = state op"
      "rI (view (core ch)) (f op)" "rtok (f op) = rtok op"
  shows "\<exists>ch'. recv_resume rfin rtab sn f ch = Inr ch' \<and> chan_inv_at ns nr sfin stab sI rfin rtab rI view ch' \<and>
    core_frame (core ch') = core_frame (core ch) \<and> accounted stok rtok ch' = accounted stok rtok ch"
proof -
  have m: "machine_ok rfin rtab (recvOps ch) (core ch)" using inv by (simp add: chan_inv_at_def)
  obtain ops1 xs ys where t: "through_iter sn f (recvOps ch) = Inr ops1" "contiguous ops1"
    and e: "ends_at nr ops1 = ends_at nr (recvOps ch)"
    and split: "recvOps ch = xs @ op # ys" "ops1 = xs @ f op # ys"
    and adv: "advanceOperation rfin rtab sn ops1 (core ch) = settle rfin rtab ops1 (core ch)"
    using recv.through_iter_advance [where f = f, OF m op f(1,2)] by blast
  have "\<forall>op \<in> set ops1. rI (view (core ch)) op" using inv split f(3) by (auto simp: chan_inv_at_def list_all_iff)
  then obtain ops' c' where s: "settle rfin rtab ops1 (core ch) = Inr (ops', c')"
    and I: "view c' = view (core ch)" "\<forall>op \<in> set ops'. rI (view (core ch)) op"
    and acc: "recv.owed ops' + called c' = recv.owed ops1 + called (core ch)"
    using recv.settle_safe by blast
  note ok' = recv.settle_machine_ok [OF t(2) s]
  have "machine_ok sfin stab (sendOps ch) c'"
    using inv send.machine_ok_cong [OF send.frame_view [OF ok'(3)]] by (simp add: chan_inv_at_def)
  then have "chan_inv_at ns nr sfin stab sI rfin rtab rI view (ch\<lparr>core := c', recvOps := ops'\<rparr>)"
    using ok'(1,2) e I inv core_frameD [OF ok'(3)] by (simp add: chan_inv_at_def list_all_iff)
  moreover have "accounted stok rtok (ch\<lparr>core := c', recvOps := ops'\<rparr>) = accounted stok rtok ch"
    using acc split f(4) by (simp add: accounted_eq ac_simps)
  ultimately show ?thesis using s adv t(1) ok'(3) by (simp add: recv_resume_def)
qed

lemma recv_resume_inv:
  assumes inv: "chan_inv sfin stab sI rfin rtab rI view ch"
    and op: "op \<in> set (recvOps ch)" "sequenceNumber op = sn"
    and f: "sequenceNumber (f op) = sequenceNumber op" "state (f op) = state op"
      "rI (view (core ch)) (f op)" "rtok (f op) = rtok op"
  shows "\<exists>ch'. recv_resume rfin rtab sn f ch = Inr ch' \<and> chan_inv sfin stab sI rfin rtab rI view ch' \<and>
    accounted stok rtok ch' = accounted stok rtok ch"
proof -
  obtain ch' where ch': "recv_resume rfin rtab sn f ch = Inr ch'"
    "chan_inv_at (nextTensorBeingSent (core ch)) (nextTensorBeingReceived (core ch)) sfin stab sI rfin rtab rI view ch'"
    "core_frame (core ch') = core_frame (core ch)" "accounted stok rtok ch' = accounted stok rtok ch"
    using recv_resume_at [OF inv [unfolded chan_inv_at_next] op, of f] f by blast
  then show ?thesis using core_frameD [OF ch'(3)] by (auto simp: chan_inv_at_next)
qed

text \<open>Barriers hold in both deques all along.\<close>

lemma send_start_behind:
  assumes "chan_inv_at ns nr sfin stab sI rfin rtab rI view ch" and "\<not> is_error (chan_error (core ch))"
    and "barrier stab B G" "behind B G sfin (sendOps ch)" "state op0 \<noteq> sfin" "\<not> B \<le> state op0"
    and "send_start sfin stab op0 ns ch = Inr ch'"
  shows "behind B G sfin (sendOps ch') \<and> recvOps ch' = recvOps ch"
  using send.emplace_behind [OF assms(3,4) _ _ assms(5,6)] assms(1,2,7)
  by (auto simp: send_start_def chan_inv_at_def bindR_eq_Inr)

lemma send_resume_behind:
  assumes "chan_inv_at ns nr sfin stab sI rfin rtab rI view ch"
    and "barrier stab B G" "behind B G sfin (sendOps ch)" and "op \<in> set (sendOps ch)" "sequenceNumber op = sn"
    and "sequenceNumber (f op) = sequenceNumber op" "state (f op) = state op" "G (f op) = G op"
    and "send_resume sfin stab sn f ch = Inr ch'"
  shows "behind B G sfin (sendOps ch') \<and> recvOps ch' = recvOps ch"
  using send.resume_behind [where f = f, OF assms(2,3) _ assms(4-8)] assms(1,9)
  by (auto simp: send_resume_def chan_inv_at_def bindR_eq_Inr)

lemma recv_start_behind:
  assumes "chan_inv_at ns nr sfin stab sI rfin rtab rI view ch" and "\<not> is_error (chan_error (core ch))"
    and "barrier rtab B G" "behind B G rfin (recvOps ch)" "state op0 \<noteq> rfin" "\<not> B \<le> state op0"
    and "recv_start rfin rtab op0 nr ch = Inr ch'"
  shows "behind B G rfin (recvOps ch') \<and> sendOps ch' = sendOps ch"
  using recv.emplace_behind [OF assms(3,4) _ _ assms(5,6)] assms(1,2,7)
  by (auto simp: recv_start_def chan_inv_at_def bindR_eq_Inr)

lemma recv_resume_behind:
  assumes "chan_inv_at ns nr sfin stab sI rfin rtab rI view ch"
    and "barrier rtab B G" "behind B G rfin (recvOps ch)" and "op \<in> set (recvOps ch)" "sequenceNumber op = sn"
    and "sequenceNumber (f op) = sequenceNumber op" "state (f op) = state op" "G (f op) = G op"
    and "recv_resume rfin rtab sn f ch = Inr ch'"
  shows "behind B G rfin (recvOps ch') \<and> sendOps ch' = sendOps ch"
  using recv.resume_behind [where f = f, OF assms(2,3) _ assms(4-8)] assms(1,9)
  by (auto simp: recv_resume_def chan_inv_at_def bindR_eq_Inr)

text \<open>Both deques are swept, whenever the two calls are full sweeps.\<close>

lemma advance_both_at:
  assumes seqs: "contiguous (sendOps ch)" "contiguous (recvOps ch)"
    and sweeps: "\<And>c. view c = view (core ch) \<Longrightarrow>
        advanceAllOperations sfin stab (sendOps ch) c = settle sfin stab (sendOps ch) c"
      "\<And>c. view c = view (core ch) \<Longrightarrow>
        advanceAllOperations rfin rtab (recvOps ch) c = settle rfin rtab (recvOps ch) c"
    and I: "list_all (sI (view (core ch))) (sendOps ch)" "list_all (rI (view (core ch))) (recvOps ch)"
    and ends: "\<not> is_error (chan_error (core ch)) \<longrightarrow>
        ends_at ns (sendOps ch) \<and> ends_at nr (recvOps ch)"
  shows "\<exists>ch'. advance_both sfin stab rfin rtab ch = Inr ch' \<and> chan_inv_at ns nr sfin stab sI rfin rtab rI view ch' \<and>
    core_frame (core ch') = core_frame (core ch) \<and> accounted stok rtok ch' = accounted stok rtok ch \<and>
    (\<forall>op \<in> set (sendOps ch). swaits op \<longrightarrow> op \<in> set (sendOps ch')) \<and>
    (\<forall>op \<in> set (recvOps ch). rwaits op \<longrightarrow> op \<in> set (recvOps ch')) \<and>
    (\<forall>P. kept sfin stab P \<longrightarrow> survives P (sendOps ch) (sendOps ch')) \<and>
    (\<forall>P. kept rfin rtab P \<longrightarrow> survives P (recvOps ch) (recvOps ch'))"
proof -
  obtain sops c where s: "settle sfin stab (sendOps ch) (core ch) = Inr (sops, c)"
    "view c = view (core ch)" "\<forall>op \<in> set sops. sI (view (core ch)) op"
    "\<forall>op \<in> set (sendOps ch). swaits op \<longrightarrow> op \<in> set sops"
    "send.owed sops + called c = send.owed (sendOps ch) + called (core ch)"
    using send.settle_safe [of "sendOps ch" "core ch"] I(1) unfolding list_all_iff by blast
  note sok = send.settle_machine_ok [OF seqs(1) s(1)]
  obtain rops c' where r: "settle rfin rtab (recvOps ch) c = Inr (rops, c')"
    "view c' = view c" "\<forall>op \<in> set rops. rI (view c) op"
    "\<forall>op \<in> set (recvOps ch). rwaits op \<longrightarrow> op \<in> set rops"
    "recv.owed rops + called c' = recv.owed (recvOps ch) + called c"
    using recv.settle_safe [of "recvOps ch" c] I(2) s(2) unfolding list_all_iff by auto
  note rok = recv.settle_machine_ok [OF seqs(2) r(1)]
  let ?ch = "ch\<lparr>core := c', sendOps := sops, recvOps := rops\<rparr>"
  have fr: "core_frame c' = core_frame (core ch)" using rok(3) sok(3) by simp
  have m: "machine_ok sfin stab sops c'"
    using sok(1) send.machine_ok_cong [OF send.frame_view [OF rok(3)]] by blast
  have "accounted stok rtok ?ch = accounted stok rtok ch"
  proof -
    have "accounted stok rtok ?ch = (recv.owed rops + called c') + send.owed sops"
      by (simp add: accounted_eq ac_simps)
    also have "\<dots> = recv.owed (recvOps ch) + (send.owed sops + called c)"
      unfolding r(5) by (simp add: ac_simps)
    also have "\<dots> = accounted stok rtok ch"
      unfolding s(5) by (simp add: accounted_eq ac_simps)
    finally show ?thesis .
  qed
  moreover have "advanceAllOperations rfin rtab (recvOps ch) c = settle rfin rtab (recvOps ch) c"
    by (rule sweeps(2)) (rule send.frame_view [OF sok(3)])
  then have "advance_both sfin stab rfin rtab ch = Inr ?ch"
    using s(1) r(1) sweeps(1) [OF refl] by (simp add: advance_both_def)
  moreover have "chan_inv_at ns nr sfin stab sI rfin rtab rI view ?ch"
    using s(2,3) r(2,3) m rok(1,2) sok(2) ends core_frameD [OF fr] by (simp add: chan_inv_at_def list_all_iff)
  moreover have "\<forall>P. kept sfin stab P \<longrightarrow> survives P (sendOps ch) sops"
    using send.settle_survives [OF _ s(1)] by blast
  moreover have "\<forall>P. kept rfin rtab P \<longrightarrow> survives P (recvOps ch) rops"
    using recv.settle_survives [OF _ r(1)] by blast
  ultimately show ?thesis using fr s(4) r(4) by simp
qed

lemma advance_both_inv:
  assumes seqs: "contiguous (sendOps ch)" "contiguous (recvOps ch)"
    and sweeps: "\<And>c. view c = view (core ch) \<Longrightarrow>
        advanceAllOperations sfin stab (sendOps ch) c = settle sfin stab (sendOps ch) c"
      "\<And>c. view c = view (core ch) \<Longrightarrow>
        advanceAllOperations rfin rtab (recvOps ch) c = settle rfin rtab (recvOps ch) c"
    and I: "list_all (sI (view (core ch))) (sendOps ch)" "list_all (rI (view (core ch))) (recvOps ch)"
    and ends: "\<not> is_error (chan_error (core ch)) \<longrightarrow>
        ends_at (nextTensorBeingSent (core ch)) (sendOps ch) \<and>
        ends_at (nextTensorBeingReceived (core ch)) (recvOps ch)"
  shows "\<exists>ch'. advance_both sfin stab rfin rtab ch = Inr ch' \<and> chan_inv sfin stab sI rfin rtab rI view ch' \<and>
    core_frame (core ch') = core_frame (core ch) \<and> accounted stok rtok ch' = accounted stok rtok ch \<and>
    (\<forall>op \<in> set (sendOps ch). swaits op \<longrightarrow> op \<in> set (sendOps ch')) \<and>
    (\<forall>op \<in> set (recvOps ch). rwaits op \<longrightarrow> op \<in> set (recvOps ch'))"
proof -
  obtain ch' where ch': "advance_both sfin stab rfin rtab ch = Inr ch'"
    "chan_inv_at (nextTensorBeingSent (core ch)) (nextTensorBeingReceived (core ch)) sfin stab sI rfin rtab rI view ch'"
    "core_frame (core ch') = core_frame (core ch)" "accounted stok rtok ch' = accounted stok rtok ch"
    "\<forall>op \<in> set (sendOps ch). swaits op \<longrightarrow> op \<in> set (sendOps ch')"
    "\<forall>op \<in> set (recvOps ch). rwaits op \<longrightarrow> op \<in> set (recvOps ch')"
    using advance_both_at [OF assms] by blast
  then show ?thesis using core_frameD [OF ch'(3)] by (auto simp: chan_inv_at_next)
qed

text \<open>Sweeping never faults, full or not, and loses no callback.\<close>

lemma advance_both_safe:
  assumes "contiguous (sendOps ch)" "contiguous (recvOps ch)"
    and "list_all (sI (view (core ch))) (sendOps ch)" "list_all (rI (view (core ch))) (recvOps ch)"
  shows "\<exists>ch'. advance_both sfin stab rfin rtab ch = Inr ch' \<and> core_frame (core ch') = core_frame (core ch) \<and>
    contiguous (sendOps ch') \<and> contiguous (recvOps ch') \<and>
    list_all (sI (view (core ch))) (sendOps ch') \<and> list_all (rI (view (core ch))) (recvOps ch') \<and>
    accounted stok rtok ch' = accounted stok rtok ch"
proof -
  obtain sops c where s: "advanceAllOperations sfin stab (sendOps ch) (core ch) = Inr (sops, c)"
    "core_frame c = core_frame (core ch)" "contiguous sops" "\<forall>op \<in> set sops. sI (view (core ch)) op"
    "send.owed sops + called c = send.owed (sendOps ch) + called (core ch)"
    using send.advanceAllOperations_safe [of "sendOps ch" "core ch"] assms(1,3) unfolding list_all_iff by blast
  have v: "view c = view (core ch)" by (rule send.frame_view) (rule s(2))
  obtain rops c' where r: "advanceAllOperations rfin rtab (recvOps ch) c = Inr (rops, c')"
    "core_frame c' = core_frame c" "contiguous rops" "\<forall>op \<in> set rops. rI (view (core ch)) op"
    "recv.owed rops + called c' = recv.owed (recvOps ch) + called c"
    using recv.advanceAllOperations_safe [of "recvOps ch" c] assms(2,4) unfolding list_all_iff v by blast
  have "(recv.owed rops + called c') + send.owed sops = recv.owed (recvOps ch) + (send.owed sops + called c)"
    unfolding r(5) by (simp add: ac_simps)
  then have "send.owed sops + recv.owed rops + called c' =
      send.owed (sendOps ch) + recv.owed (recvOps ch) + called (core ch)"
    unfolding s(5) by (simp add: ac_simps)
  then show ?thesis using s(1-4) r(1-4) by (simp add: advance_both_def accounted_eq list_all_iff)
qed

text \<open>The entry points of the boilerplate.\<close>

lemma sendFromLoop_inv:
  assumes inv: "chan_inv sfin stab sI rfin rtab rI view ch"
    and impl: "\<And>sn. sendImpl sn buffer len cb = send_start sfin stab op0 sn"
    and op0: "state op0 \<noteq> sfin" "\<And>sn. sI (view (core ch)) (op0\<lparr>sequenceNumber := sn\<rparr>)"
      "\<And>sn. stok (op0\<lparr>sequenceNumber := sn\<rparr>) = {#Inl cb#}"
  shows "\<exists>ch'. chan_sendFromLoop sendImpl buffer len cb ch = Inr ch' \<and> chan_inv sfin stab sI rfin rtab rI view ch' \<and>
    accounted stok rtok ch' = accounted stok rtok ch + {#Inl cb#}"
proof (cases "is_error (chan_error (core ch))")
  case False
  then show ?thesis
    using send_start_inv [OF inv False refl op0(1) op0(2)] impl op0(3) by (simp add: chan_sendFromLoop_def Let_def)
next
  case True
  let ?n = "nextTensorBeingSent (core ch)"
  let ?c = "log_effects [SendCallback cb (chan_error (core ch))] ((core ch)\<lparr>nextTensorBeingSent := Suc ?n\<rparr>)"
  have v: "view ?c = view (core ch)" by (simp add: view_log view_sent)
  have "chan_inv sfin stab sI rfin rtab rI view (ch\<lparr>core := ?c\<rparr>)"
    using inv True send.machine_ok_cong [OF v] recv.machine_ok_cong [OF v] v by (simp add: chan_inv_def)
  then show ?thesis using True by (simp add: chan_sendFromLoop_def Let_def accounted_eq)
qed

lemma recvFromLoop_inv:
  assumes inv: "chan_inv sfin stab sI rfin rtab rI view ch"
    and impl: "\<And>sn. recvImpl sn buffer len cb = recv_start rfin rtab op0 sn"
    and op0: "state op0 \<noteq> rfin" "\<And>sn. rI (view (core ch)) (op0\<lparr>sequenceNumber := sn\<rparr>)"
      "\<And>sn. rtok (op0\<lparr>sequenceNumber := sn\<rparr>) = {#Inr cb#}"
  shows "\<exists>ch'. chan_recvFromLoop recvImpl buffer len cb ch = Inr ch' \<and> chan_inv sfin stab sI rfin rtab rI view ch' \<and>
    accounted stok rtok ch' = accounted stok rtok ch + {#Inr cb#}"
proof (cases "is_error (chan_error (core ch))")
  case False
  then show ?thesis
    using recv_start_inv [OF inv False refl op0(1) op0(2)] impl op0(3) by (simp add: chan_recvFromLoop_def Let_def)
next
  case True
  let ?n = "nextTensorBeingReceived (core ch)"
  let ?c = "log_effects [RecvCallback cb (chan_error (core ch))] ((core ch)\<lparr>nextTensorBeingReceived := Suc ?n\<rparr>)"
  have v: "view ?c = view (core ch)" by (simp add: view_log view_received)
  have "chan_inv sfin stab sI rfin rtab rI view (ch\<lparr>core := ?c\<rparr>)"
    using inv True send.machine_ok_cong [OF v] recv.machine_ok_cong [OF v] v by (simp add: chan_inv_def)
  then show ?thesis using True by (simp add: chan_recvFromLoop_def Let_def accounted_eq)
qed

lemma setIdFromLoop_inv:
  assumes "chan_inv sfin stab sI rfin rtab rI view ch"
  shows "chan_inv sfin stab sI rfin rtab rI view (chan_setIdFromLoop i ch)"
    and "accounted stok rtok (chan_setIdFromLoop i ch) = accounted stok rtok ch"
  using chan_inv_view [OF assms view_id] by (simp_all add: chan_setIdFromLoop_def accounted_eq)

end

text \<open>
  A prompt channel never makes its first operation wait for the channel itself, only for
  lower-level operations, which an error does not take away; once there is an error, an
  operation that waits for nothing is released.
\<close>

locale prompt_channel = channel_machine sfin stab sI swaits stok rfin rtab rI rwaits rtok view
  for sfin :: "'s::linorder" and stab :: "('s, 'm, ('x, 'z) chan_core_scheme) transition list"
    and sI :: "'v \<Rightarrow> ('s, 'm) operation_scheme \<Rightarrow> bool" and swaits :: "('s, 'm) operation_scheme \<Rightarrow> bool"
    and stok :: "('s, 'm) operation_scheme \<Rightarrow> (nat + nat) multiset"
    and rfin :: "'t::linorder" and rtab :: "('t, 'n, ('x, 'z) chan_core_scheme) transition list"
    and rI :: "'v \<Rightarrow> ('t, 'n) operation_scheme \<Rightarrow> bool" and rwaits :: "('t, 'n) operation_scheme \<Rightarrow> bool"
    and rtok :: "('t, 'n) operation_scheme \<Rightarrow> (nat + nat) multiset"
    and view :: "('x, 'z) chan_core_scheme \<Rightarrow> 'v" +
  assumes send_front: "stable stab op sfin c \<Longrightarrow> state op \<noteq> sfin \<Longrightarrow> swaits op"
    and send_error: "is_error e \<Longrightarrow> sI (view c) op \<Longrightarrow> sI (view (c\<lparr>chan_error := e\<rparr>)) op"
    and recv_error: "is_error e \<Longrightarrow> rI (view c) rop \<Longrightarrow> rI (view (c\<lparr>chan_error := e\<rparr>)) rop"
    and recv_front: "stable rtab rop rfin c \<Longrightarrow> state rop \<noteq> rfin \<Longrightarrow> rwaits rop"
begin

lemma send_full_sweep:
  assumes "machine_ok sfin stab ops c0"
  shows "advanceAllOperations sfin stab ops c = settle sfin stab ops c"
proof (cases ops)
  case Nil
  then show ?thesis by (simp add: advanceAllOperations_def settle_def pop_finished_def)
next
  case (Cons op rest)
  obtain n where n: "seqs_from n (op # rest)" using assms(1) Cons by (auto simp: machine_ok_def contiguous_iff)
  have "stable stab op sfin c0" and "state op \<noteq> sfin" using assms Cons by (auto simp: machine_ok_def)
  then show ?thesis
    using send.advanceAllOperations_settle_held [OF n] send.waits_stable send_front Cons by blast
qed

lemma recv_full_sweep:
  assumes "machine_ok rfin rtab ops c0"
  shows "advanceAllOperations rfin rtab ops c = settle rfin rtab ops c"
proof (cases ops)
  case Nil
  then show ?thesis by (simp add: advanceAllOperations_def settle_def pop_finished_def)
next
  case (Cons op rest)
  obtain n where n: "seqs_from n (op # rest)" using assms(1) Cons by (auto simp: machine_ok_def contiguous_iff)
  have "stable rtab op rfin c0" and "state op \<noteq> rfin" using assms Cons by (auto simp: machine_ok_def)
  then show ?thesis
    using recv.advanceAllOperations_settle_held [OF n] recv.waits_stable recv_front Cons by blast
qed

text \<open>
  The error handlers of these channels sweep both deques, then close connections and
  unenroll, which only the log sees.
\<close>

lemma setError_at:
  assumes inv: "chan_inv_at ns nr sfin stab sI rfin rtab rI view ch"
    and handler: "\<And>ch. handleErrorImpl ch =
        bindR (advance_both sfin stab rfin rtab ch) (\<lambda>ch'. Inr (ch'\<lparr>core := log_effects es (core ch')\<rparr>))"
    and quiet_es: "concat (map effect_callback es) = []"
  shows "\<exists>ch'. chan_setError handleErrorImpl e ch = Inr ch' \<and> chan_inv_at ns nr sfin stab sI rfin rtab rI view ch' \<and>
    core_frame (core ch') = core_frame ((core ch)\<lparr>chan_error := chan_error (core ch')\<rparr>) \<and>
    (is_error e \<longrightarrow> is_error (chan_error (core ch'))) \<and>
    accounted stok rtok ch' = accounted stok rtok ch \<and>
    (\<forall>op \<in> set (sendOps ch). swaits op \<longrightarrow> op \<in> set (sendOps ch')) \<and>
    (\<forall>op \<in> set (recvOps ch). rwaits op \<longrightarrow> op \<in> set (recvOps ch')) \<and>
    (\<forall>P. kept sfin stab P \<longrightarrow> survives P (sendOps ch) (sendOps ch')) \<and>
    (\<forall>P. kept rfin rtab P \<longrightarrow> survives P (recvOps ch) (recvOps ch'))"
proof (cases "is_error (chan_error (core ch)) \<or> \<not> is_error e")
  case True
  then show ?thesis using inv by (auto simp: chan_setError_def survives_def)
next
  case False
  let ?ch = "ch\<lparr>core := (core ch)\<lparr>chan_error := e\<rparr>\<rparr>"
  have m: "machine_ok sfin stab (sendOps ch) (core ch)" "machine_ok rfin rtab (recvOps ch) (core ch)"
    using inv by (auto simp: chan_inv_at_def)
  have "\<exists>ch'. advance_both sfin stab rfin rtab ?ch = Inr ch' \<and> chan_inv_at ns nr sfin stab sI rfin rtab rI view ch' \<and>
      core_frame (core ch') = core_frame (core ?ch) \<and> accounted stok rtok ch' = accounted stok rtok ?ch \<and>
      (\<forall>op \<in> set (sendOps ?ch). swaits op \<longrightarrow> op \<in> set (sendOps ch')) \<and>
      (\<forall>op \<in> set (recvOps ?ch). rwaits op \<longrightarrow> op \<in> set (recvOps ch')) \<and>
      (\<forall>P. kept sfin stab P \<longrightarrow> survives P (sendOps ?ch) (sendOps ch')) \<and>
      (\<forall>P. kept rfin rtab P \<longrightarrow> survives P (recvOps ?ch) (recvOps ch'))"
    by (rule advance_both_at)
      (use m inv False send_full_sweep [OF m(1)] recv_full_sweep [OF m(2)] send_error recv_error
        in \<open>auto simp: chan_inv_at_def machine_ok_def list_all_iff\<close>)
  then obtain ch' where ch': "advance_both sfin stab rfin rtab ?ch = Inr ch'"
    "chan_inv_at ns nr sfin stab sI rfin rtab rI view ch'" "core_frame (core ch') = core_frame (core ?ch)"
    "accounted stok rtok ch' = accounted stok rtok ch"
    "\<forall>op \<in> set (sendOps ch). swaits op \<longrightarrow> op \<in> set (sendOps ch')"
    "\<forall>op \<in> set (recvOps ch). rwaits op \<longrightarrow> op \<in> set (recvOps ch')"
    "\<forall>P. kept sfin stab P \<longrightarrow> survives P (sendOps ch) (sendOps ch')"
    "\<forall>P. kept rfin rtab P \<longrightarrow> survives P (recvOps ch) (recvOps ch')"
    by (auto simp: accounted_eq)
  have "chan_error (core ch') = e" using core_frameD(1) [OF ch'(3)] by simp
  moreover have "chan_inv_at ns nr sfin stab sI rfin rtab rI view (ch'\<lparr>core := log_effects es (core ch')\<rparr>)"
    by (rule chan_inv_at_view [OF ch'(2)]) (simp_all add: view_log)
  ultimately show ?thesis
    using ch' False handler by (simp add: chan_setError_def accounted_eq quiet_es)
qed

lemma setError_inv:
  assumes inv: "chan_inv sfin stab sI rfin rtab rI view ch"
    and handler: "\<And>ch. handleErrorImpl ch =
        bindR (advance_both sfin stab rfin rtab ch) (\<lambda>ch'. Inr (ch'\<lparr>core := log_effects es (core ch')\<rparr>))"
    and quiet_es: "concat (map effect_callback es) = []"
  shows "\<exists>ch'. chan_setError handleErrorImpl e ch = Inr ch' \<and> chan_inv sfin stab sI rfin rtab rI view ch' \<and>
    accounted stok rtok ch' = accounted stok rtok ch \<and>
    (\<forall>op \<in> set (sendOps ch). swaits op \<longrightarrow> op \<in> set (sendOps ch')) \<and>
    (\<forall>op \<in> set (recvOps ch). rwaits op \<longrightarrow> op \<in> set (recvOps ch'))"
proof -
  obtain ch' where ch': "chan_setError handleErrorImpl e ch = Inr ch'"
    "chan_inv_at (nextTensorBeingSent (core ch)) (nextTensorBeingReceived (core ch)) sfin stab sI rfin rtab rI view ch'"
    "core_frame (core ch') = core_frame ((core ch)\<lparr>chan_error := chan_error (core ch')\<rparr>)"
    "accounted stok rtok ch' = accounted stok rtok ch"
    "\<forall>op \<in> set (sendOps ch). swaits op \<longrightarrow> op \<in> set (sendOps ch')"
    "\<forall>op \<in> set (recvOps ch). rwaits op \<longrightarrow> op \<in> set (recvOps ch')"
    using setError_at [OF inv [unfolded chan_inv_at_next] handler quiet_es, of e] by blast
  then show ?thesis using core_frameD(2,3) [OF ch'(3)] by (auto simp: chan_inv_at_next)
qed

lemma setError_behind:
  assumes inv: "chan_inv_at ns nr sfin stab sI rfin rtab rI view ch"
    and handler: "\<And>ch. handleErrorImpl ch =
        bindR (advance_both sfin stab rfin rtab ch) (\<lambda>ch'. Inr (ch'\<lparr>core := log_effects es (core ch')\<rparr>))"
    and s: "barrier stab B G" "behind B G sfin (sendOps ch)"
    and r: "barrier rtab C H" "behind C H rfin (recvOps ch)"
    and ch': "chan_setError handleErrorImpl e ch = Inr ch'"
  shows "behind B G sfin (sendOps ch') \<and> behind C H rfin (recvOps ch')"
proof (cases "is_error (chan_error (core ch)) \<or> \<not> is_error e")
  case True
  then show ?thesis using s r ch' by (auto simp: chan_setError_def)
next
  case False
  have m: "machine_ok sfin stab (sendOps ch) (core ch)" "machine_ok rfin rtab (recvOps ch) (core ch)"
    using inv by (auto simp: chan_inv_at_def)
  then show ?thesis
    using False ch' send.settle_behind [OF s(1) _ s(2)] recv.settle_behind [OF r(1) _ r(2)]
      send_full_sweep [OF m(1)] recv_full_sweep [OF m(2)]
    by (auto simp: chan_setError_def handler advance_both_def bindR_eq_Inr)
qed

text \<open>
  The callback of a lower-level operation: the operation it belongs to has a property that
  transitions keep, so it is still there after the error was handled.
\<close>

lemma send_callback_at:
  assumes inv: "chan_inv_at ns nr sfin stab sI rfin rtab rI view ch"
    and handler: "\<And>ch. handleErrorImpl ch =
        bindR (advance_both sfin stab rfin rtab ch) (\<lambda>ch'. Inr (ch'\<lparr>core := log_effects es (core ch')\<rparr>))"
    and quiet_es: "concat (map effect_callback es) = []"
    and P: "kept sfin stab P"
    and op: "op \<in> set (sendOps ch)" "sequenceNumber op = sn" "P op"
    and fn: "\<And>ch. fn ch = send_resume sfin stab sn (f (view (core ch))) ch"
    and f: "\<And>v op. sequenceNumber (f v op) = sequenceNumber op" "\<And>v op. state (f v op) = state op"
      "\<And>c op. P op \<Longrightarrow> sI (view c) op \<Longrightarrow> is_error e \<longrightarrow> is_error (chan_error c) \<Longrightarrow> sI (view c) (f (view c) op)" "\<And>v op. stok (f v op) = stok op"
  shows "\<exists>ch'. entryPointFromLoop (chan_setError handleErrorImpl) e fn ch = Inr ch' \<and>
    chan_inv_at ns nr sfin stab sI rfin rtab rI view ch' \<and>
    core_frame (core ch') = core_frame ((core ch)\<lparr>chan_error := chan_error (core ch')\<rparr>) \<and>
    accounted stok rtok ch' = accounted stok rtok ch"
proof -
  obtain ch1 where ch1: "chan_setError handleErrorImpl e ch = Inr ch1"
    "chan_inv_at ns nr sfin stab sI rfin rtab rI view ch1"
    "core_frame (core ch1) = core_frame ((core ch)\<lparr>chan_error := chan_error (core ch1)\<rparr>)"
    "accounted stok rtok ch1 = accounted stok rtok ch"
    "survives P (sendOps ch) (sendOps ch1)" "is_error e \<longrightarrow> is_error (chan_error (core ch1))"
    using setError_at [OF inv handler quiet_es, of e] P by blast
  obtain op1 where op1: "op1 \<in> set (sendOps ch1)" "sequenceNumber op1 = sn" "P op1"
    using ch1(5) op unfolding survives_def by blast
  have "sI (view (core ch1)) op1" using ch1(2) op1(1) by (simp add: chan_inv_at_def list_all_iff)
  then obtain ch' where ch': "send_resume sfin stab sn (f (view (core ch1))) ch1 = Inr ch'"
    "chan_inv_at ns nr sfin stab sI rfin rtab rI view ch'"
    "core_frame (core ch') = core_frame (core ch1)" "accounted stok rtok ch' = accounted stok rtok ch1"
    using send_resume_at [where f = "f (view (core ch1))", OF ch1(2) op1(1,2) f(1,2) f(3) [OF op1(3) _ ch1(6)] f(4)] by blast
  then show ?thesis using ch1(1,3,4) fn core_frameD(1) [OF ch'(3)] by (simp add: entryPointFromLoop_def)
qed

lemma recv_callback_at:
  assumes inv: "chan_inv_at ns nr sfin stab sI rfin rtab rI view ch"
    and handler: "\<And>ch. handleErrorImpl ch =
        bindR (advance_both sfin stab rfin rtab ch) (\<lambda>ch'. Inr (ch'\<lparr>core := log_effects es (core ch')\<rparr>))"
    and quiet_es: "concat (map effect_callback es) = []"
    and P: "kept rfin rtab P"
    and op: "op \<in> set (recvOps ch)" "sequenceNumber op = sn" "P op"
    and fn: "\<And>ch. fn ch = recv_resume rfin rtab sn (f (view (core ch))) ch"
    and f: "\<And>v op. sequenceNumber (f v op) = sequenceNumber op" "\<And>v op. state (f v op) = state op"
      "\<And>c op. P op \<Longrightarrow> rI (view c) op \<Longrightarrow> is_error e \<longrightarrow> is_error (chan_error c) \<Longrightarrow> rI (view c) (f (view c) op)" "\<And>v op. rtok (f v op) = rtok op"
  shows "\<exists>ch'. entryPointFromLoop (chan_setError handleErrorImpl) e fn ch = Inr ch' \<and>
    chan_inv_at ns nr sfin stab sI rfin rtab rI view ch' \<and>
    core_frame (core ch') = core_frame ((core ch)\<lparr>chan_error := chan_error (core ch')\<rparr>) \<and>
    accounted stok rtok ch' = accounted stok rtok ch"
proof -
  obtain ch1 where ch1: "chan_setError handleErrorImpl e ch = Inr ch1"
    "chan_inv_at ns nr sfin stab sI rfin rtab rI view ch1"
    "core_frame (core ch1) = core_frame ((core ch)\<lparr>chan_error := chan_error (core ch1)\<rparr>)"
    "accounted stok rtok ch1 = accounted stok rtok ch"
    "survives P (recvOps ch) (recvOps ch1)" "is_error e \<longrightarrow> is_error (chan_error (core ch1))"
    using setError_at [OF inv handler quiet_es, of e] P by blast
  obtain op1 where op1: "op1 \<in> set (recvOps ch1)" "sequenceNumber op1 = sn" "P op1"
    using ch1(5) op unfolding survives_def by blast
  have "rI (view (core ch1)) op1" using ch1(2) op1(1) by (simp add: chan_inv_at_def list_all_iff)
  then obtain ch' where ch': "recv_resume rfin rtab sn (f (view (core ch1))) ch1 = Inr ch'"
    "chan_inv_at ns nr sfin stab sI rfin rtab rI view ch'"
    "core_frame (core ch') = core_frame (core ch1)" "accounted stok rtok ch' = accounted stok rtok ch1"
    using recv_resume_at [where f = "f (view (core ch1))", OF ch1(2) op1(1,2) f(1,2) f(3) [OF op1(3) _ ch1(6)] f(4)] by blast
  then show ?thesis using ch1(1,3,4) fn core_frameD(1) [OF ch'(3)] by (simp add: entryPointFromLoop_def)
qed

lemma send_callback_inv:
  assumes inv: "chan_inv sfin stab sI rfin rtab rI view ch"
    and handler: "\<And>ch. handleErrorImpl ch =
        bindR (advance_both sfin stab rfin rtab ch) (\<lambda>ch'. Inr (ch'\<lparr>core := log_effects es (core ch')\<rparr>))"
    and quiet_es: "concat (map effect_callback es) = []"
    and op: "op \<in> set (sendOps ch)" "sequenceNumber op = sn" "swaits op"
    and fn: "\<And>ch. fn ch = send_resume sfin stab sn (f (view (core ch))) ch"
    and f: "\<And>v. sequenceNumber (f v op) = sequenceNumber op" "\<And>v. state (f v op) = state op"
      "\<And>v. sI v op \<Longrightarrow> sI v (f v op)" "\<And>v. stok (f v op) = stok op"
  shows "\<exists>ch'. entryPointFromLoop (chan_setError handleErrorImpl) e fn ch = Inr ch' \<and>
    chan_inv sfin stab sI rfin rtab rI view ch' \<and> accounted stok rtok ch' = accounted stok rtok ch"
proof -
  obtain ch1 where ch1: "chan_setError handleErrorImpl e ch = Inr ch1"
    "chan_inv sfin stab sI rfin rtab rI view ch1" "accounted stok rtok ch1 = accounted stok rtok ch"
    "op \<in> set (sendOps ch1)"
    using setError_inv [OF inv handler quiet_es, of e] op by blast
  have "sI (view (core ch1)) op" using ch1(2,4) by (simp add: chan_inv_def list_all_iff)
  then show ?thesis
    using send_resume_inv [where f = "f (view (core ch1))", OF ch1(2,4) op(2) f(1,2) f(3) f(4)] ch1(1,3) fn
    by (simp add: entryPointFromLoop_def)
qed

lemma recv_callback_inv:
  assumes inv: "chan_inv sfin stab sI rfin rtab rI view ch"
    and handler: "\<And>ch. handleErrorImpl ch =
        bindR (advance_both sfin stab rfin rtab ch) (\<lambda>ch'. Inr (ch'\<lparr>core := log_effects es (core ch')\<rparr>))"
    and quiet_es: "concat (map effect_callback es) = []"
    and op: "op \<in> set (recvOps ch)" "sequenceNumber op = sn" "rwaits op"
    and fn: "\<And>ch. fn ch = recv_resume rfin rtab sn (f (view (core ch))) ch"
    and f: "\<And>v. sequenceNumber (f v op) = sequenceNumber op" "\<And>v. state (f v op) = state op"
      "\<And>v. rI v op \<Longrightarrow> rI v (f v op)" "\<And>v. rtok (f v op) = rtok op"
  shows "\<exists>ch'. entryPointFromLoop (chan_setError handleErrorImpl) e fn ch = Inr ch' \<and>
    chan_inv sfin stab sI rfin rtab rI view ch' \<and> accounted stok rtok ch' = accounted stok rtok ch"
proof -
  obtain ch1 where ch1: "chan_setError handleErrorImpl e ch = Inr ch1"
    "chan_inv sfin stab sI rfin rtab rI view ch1" "accounted stok rtok ch1 = accounted stok rtok ch"
    "op \<in> set (recvOps ch1)"
    using setError_inv [OF inv handler quiet_es, of e] op by blast
  have "rI (view (core ch1)) op" using ch1(2,4) by (simp add: chan_inv_def list_all_iff)
  then show ?thesis
    using recv_resume_inv [where f = "f (view (core ch1))", OF ch1(2,4) op(2) f(1,2) f(3) f(4)] ch1(1,3) fn
    by (simp add: entryPointFromLoop_def)
qed

lemma send_callback_behind:
  assumes inv: "chan_inv_at ns nr sfin stab sI rfin rtab rI view ch"
    and handler: "\<And>ch. handleErrorImpl ch =
        bindR (advance_both sfin stab rfin rtab ch) (\<lambda>ch'. Inr (ch'\<lparr>core := log_effects es (core ch')\<rparr>))"
    and quiet_es: "concat (map effect_callback es) = []"
    and P: "kept sfin stab P"
    and op: "op \<in> set (sendOps ch)" "sequenceNumber op = sn" "P op"
    and fn: "\<And>ch. fn ch = send_resume sfin stab sn (f (view (core ch))) ch"
    and f: "\<And>v op. sequenceNumber (f v op) = sequenceNumber op" "\<And>v op. state (f v op) = state op"
      "\<And>v op. G (f v op) = G op"
    and s: "barrier stab B G" "behind B G sfin (sendOps ch)"
    and r: "barrier rtab C H" "behind C H rfin (recvOps ch)"
    and ch': "entryPointFromLoop (chan_setError handleErrorImpl) e fn ch = Inr ch'"
  shows "behind B G sfin (sendOps ch') \<and> behind C H rfin (recvOps ch')"
proof -
  obtain ch1 where ch1: "chan_setError handleErrorImpl e ch = Inr ch1"
    "chan_inv_at ns nr sfin stab sI rfin rtab rI view ch1" "survives P (sendOps ch) (sendOps ch1)"
    using setError_at [OF inv handler quiet_es, of e] P by blast
  obtain op1 where op1: "op1 \<in> set (sendOps ch1)" "sequenceNumber op1 = sn"
    using ch1(3) op unfolding survives_def by blast
  have b: "behind B G sfin (sendOps ch1)" "behind C H rfin (recvOps ch1)"
    using setError_behind [OF inv handler s r ch1(1)] by auto
  have "send_resume sfin stab sn (f (view (core ch1))) ch1 = Inr ch'"
    using ch' ch1(1) fn by (simp add: entryPointFromLoop_def)
  from send_resume_behind [where f = "f (view (core ch1))", OF ch1(2) s(1) b(1) op1 f this]
  show ?thesis using b by simp
qed

lemma recv_callback_behind:
  assumes inv: "chan_inv_at ns nr sfin stab sI rfin rtab rI view ch"
    and handler: "\<And>ch. handleErrorImpl ch =
        bindR (advance_both sfin stab rfin rtab ch) (\<lambda>ch'. Inr (ch'\<lparr>core := log_effects es (core ch')\<rparr>))"
    and quiet_es: "concat (map effect_callback es) = []"
    and P: "kept rfin rtab P"
    and op: "op \<in> set (recvOps ch)" "sequenceNumber op = sn" "P op"
    and fn: "\<And>ch. fn ch = recv_resume rfin rtab sn (f (view (core ch))) ch"
    and f: "\<And>v op. sequenceNumber (f v op) = sequenceNumber op" "\<And>v op. state (f v op) = state op"
      "\<And>v op. H (f v op) = H op"
    and s: "barrier stab B G" "behind B G sfin (sendOps ch)"
    and r: "barrier rtab C H" "behind C H rfin (recvOps ch)"
    and ch': "entryPointFromLoop (chan_setError handleErrorImpl) e fn ch = Inr ch'"
  shows "behind B G sfin (sendOps ch') \<and> behind C H rfin (recvOps ch')"
proof -
  obtain ch1 where ch1: "chan_setError handleErrorImpl e ch = Inr ch1"
    "chan_inv_at ns nr sfin stab sI rfin rtab rI view ch1" "survives P (recvOps ch) (recvOps ch1)"
    using setError_at [OF inv handler quiet_es, of e] P by blast
  obtain op1 where op1: "op1 \<in> set (recvOps ch1)" "sequenceNumber op1 = sn"
    using ch1(3) op unfolding survives_def by blast
  have b: "behind B G sfin (sendOps ch1)" "behind C H rfin (recvOps ch1)"
    using setError_behind [OF inv handler s r ch1(1)] by auto
  have "recv_resume rfin rtab sn (f (view (core ch1))) ch1 = Inr ch'"
    using ch' ch1(1) fn by (simp add: entryPointFromLoop_def)
  from recv_resume_behind [where f = "f (view (core ch1))", OF ch1(2) r(1) b(2) op1 f this]
  show ?thesis using b by simp
qed

text \<open>When no lower-level operation is outstanding, every callback has been called.\<close>

lemma idle_drained_at:
  assumes "chan_inv_at ns nr sfin stab sI rfin rtab rI view ch"
    and "\<forall>op \<in> set (sendOps ch). \<not> swaits op" and "\<forall>op \<in> set (recvOps ch). \<not> rwaits op"
  shows "sendOps ch = [] \<and> recvOps ch = [] \<and> accounted stok rtok ch = called (core ch)"
proof -
  have "sendOps ch = []"
    by (rule send.drained [where waiting = swaits]) (use assms send_front in \<open>auto simp: chan_inv_at_def\<close>)
  moreover have "recvOps ch = []"
    by (rule recv.drained [where waiting = rwaits]) (use assms recv_front in \<open>auto simp: chan_inv_at_def\<close>)
  ultimately show ?thesis by (simp add: accounted_eq)
qed

lemma idle_drained:
  assumes "chan_inv sfin stab sI rfin rtab rI view ch"
    and "\<forall>op \<in> set (sendOps ch). \<not> swaits op" and "\<forall>op \<in> set (recvOps ch). \<not> rwaits op"
  shows "sendOps ch = [] \<and> recvOps ch = [] \<and> accounted stok rtok ch = called (core ch)"
  using idle_drained_at [OF assms(1) [unfolded chan_inv_at_next] assms(2,3)] .

end

end
