(* ===== verification/Basic_Channel.thy ===== *)
theory Basic_Channel
  imports Channel_Boilerplate
begin

text \<open>
  The channel \<^verbatim>\<open>tensorpipe/channel/basic\<close>, which sends tensors over the transport
  connection it is given: its operations, its two transition tables, the callbacks of the
  connection, and the events that drive it.
\<close>

section \<open>Operations\<close>

datatype basic_send_state = BasicSend_UNINITIALIZED | BasicSend_WRITING | BasicSend_FINISHED

datatype basic_recv_state = BasicRecv_UNINITIALIZED | BasicRecv_READING | BasicRecv_FINISHED

text \<open>The enumerations are compared by their position.\<close>

fun basic_send_pos :: "basic_send_state \<Rightarrow> nat" where
  "basic_send_pos BasicSend_UNINITIALIZED = 0"
| "basic_send_pos BasicSend_WRITING = 1"
| "basic_send_pos BasicSend_FINISHED = 2"

fun basic_recv_pos :: "basic_recv_state \<Rightarrow> nat" where
  "basic_recv_pos BasicRecv_UNINITIALIZED = 0"
| "basic_recv_pos BasicRecv_READING = 1"
| "basic_recv_pos BasicRecv_FINISHED = 2"

lemma basic_send_pos_inj: "basic_send_pos a = basic_send_pos b \<Longrightarrow> a = b"
  by (cases a; cases b) simp_all

lemma basic_recv_pos_inj: "basic_recv_pos a = basic_recv_pos b \<Longrightarrow> a = b"
  by (cases a; cases b) simp_all

instantiation basic_send_state :: linorder
begin

definition less_eq_basic_send_state :: "basic_send_state \<Rightarrow> basic_send_state \<Rightarrow> bool" where
  "less_eq_basic_send_state a b \<longleftrightarrow> basic_send_pos a \<le> basic_send_pos b"

definition less_basic_send_state :: "basic_send_state \<Rightarrow> basic_send_state \<Rightarrow> bool" where
  "less_basic_send_state a b \<longleftrightarrow> basic_send_pos a < basic_send_pos b"

instance
  by standard (auto simp: less_eq_basic_send_state_def less_basic_send_state_def dest: basic_send_pos_inj)

end

instantiation basic_recv_state :: linorder
begin

definition less_eq_basic_recv_state :: "basic_recv_state \<Rightarrow> basic_recv_state \<Rightarrow> bool" where
  "less_eq_basic_recv_state a b \<longleftrightarrow> basic_recv_pos a \<le> basic_recv_pos b"

definition less_basic_recv_state :: "basic_recv_state \<Rightarrow> basic_recv_state \<Rightarrow> bool" where
  "less_basic_recv_state a b \<longleftrightarrow> basic_recv_pos a < basic_recv_pos b"

instance
  by standard (auto simp: less_eq_basic_recv_state_def less_basic_recv_state_def dest: basic_recv_pos_inj)

end

lemmas basic_state_order [simp] =
  less_eq_basic_send_state_def less_basic_send_state_def
  less_eq_basic_recv_state_def less_basic_recv_state_def

record basic_send_op = "basic_send_state data_op" +
  bs_doneWriting :: bool

record basic_recv_op = "basic_recv_state data_op" +
  br_doneReading :: bool

text \<open>The calls on the connection; each names the operation whose iterator its callback keeps.\<close>

datatype basic_call =
    BasicWrite nat addr bytes_len
  | BasicRead nat addr bytes_len
  | BasicClose

type_synonym basic_core = "basic_call chan_core"
type_synonym basic_channel = "(basic_core, basic_send_op, basic_recv_op) channel"

section \<open>Actions\<close>

definition basic_write :: "basic_send_op \<Rightarrow> basic_core \<Rightarrow> (basic_send_op \<times> basic_core) result" where
  "basic_write op c =
     Inr (op, log_effects [Lower (BasicWrite (sequenceNumber op) (op_ptr op) (op_length op))] c)"

definition basic_callSendCallback ::
  "basic_send_op \<Rightarrow> basic_core \<Rightarrow> (basic_send_op \<times> basic_core) result" where
  "basic_callSendCallback op c = call_send_callback op c"

definition basic_read :: "basic_recv_op \<Rightarrow> basic_core \<Rightarrow> (basic_recv_op \<times> basic_core) result" where
  "basic_read op c =
     Inr (op, log_effects [Lower (BasicRead (sequenceNumber op) (op_ptr op) (op_length op))] c)"

definition basic_callRecvCallback ::
  "basic_recv_op \<Rightarrow> basic_core \<Rightarrow> (basic_recv_op \<times> basic_core) result" where
  "basic_callRecvCallback op c = call_recv_callback op c"

section \<open>Transitions\<close>

type_synonym basic_send_table =
  "(basic_send_state, unit basic_send_op_ext data_op_ext, basic_core) transition list"
type_synonym basic_recv_table =
  "(basic_recv_state, unit basic_recv_op_ext data_op_ext, basic_core) transition list"

definition basic_advanceSendOperation :: basic_send_table where
  "basic_advanceSendOperation =
    [Transition BasicSend_UNINITIALIZED BasicSend_FINISHED
       (\<lambda>op prev c. is_error (chan_error c) \<or> op_length op = 0)
       [basic_callSendCallback],
     Transition BasicSend_UNINITIALIZED BasicSend_WRITING
       (\<lambda>op prev c. \<not> is_error (chan_error c) \<and> prev \<ge> BasicSend_WRITING)
       [basic_write],
     Transition BasicSend_WRITING BasicSend_FINISHED
       (\<lambda>op prev c. bs_doneWriting op)
       [basic_callSendCallback]]"

definition basic_advanceRecvOperation :: basic_recv_table where
  "basic_advanceRecvOperation =
    [Transition BasicRecv_UNINITIALIZED BasicRecv_FINISHED
       (\<lambda>op prev c. is_error (chan_error c) \<or> op_length op = 0)
       [basic_callRecvCallback],
     Transition BasicRecv_UNINITIALIZED BasicRecv_READING
       (\<lambda>op prev c. \<not> is_error (chan_error c) \<and> prev \<ge> BasicRecv_READING)
       [basic_read],
     Transition BasicRecv_READING BasicRecv_FINISHED
       (\<lambda>op prev c. br_doneReading op)
       [basic_callRecvCallback]]"

section \<open>Handlers\<close>

definition basic_init :: "string \<Rightarrow> basic_channel" where
  "basic_init i = \<lparr>core = chan_init_core i, sendOps = [], recvOps = []\<rparr>"

definition basic_initImplFromLoop :: "basic_channel \<Rightarrow> basic_channel result" where
  "basic_initImplFromLoop ch = Inr (ch\<lparr>core := log_effects [EnrollChannel] (core ch)\<rparr>)"

definition basic_sendImplFromLoop ::
  "nat \<Rightarrow> addr \<Rightarrow> bytes_len \<Rightarrow> nat \<Rightarrow> basic_channel \<Rightarrow> basic_channel result" where
  "basic_sendImplFromLoop sn buffer len callback =
     send_start BasicSend_FINISHED basic_advanceSendOperation
       \<lparr>sequenceNumber = 0, state = BasicSend_UNINITIALIZED, op_ptr = buffer, op_length = len,
        op_callback = Some callback, bs_doneWriting = False\<rparr> sn"

definition basic_recvImplFromLoop ::
  "nat \<Rightarrow> addr \<Rightarrow> bytes_len \<Rightarrow> nat \<Rightarrow> basic_channel \<Rightarrow> basic_channel result" where
  "basic_recvImplFromLoop sn buffer len callback =
     recv_start BasicRecv_FINISHED basic_advanceRecvOperation
       \<lparr>sequenceNumber = 0, state = BasicRecv_UNINITIALIZED, op_ptr = buffer, op_length = len,
        op_callback = Some callback, br_doneReading = False\<rparr> sn"

definition basic_handleErrorImpl :: "basic_channel \<Rightarrow> basic_channel result" where
  "basic_handleErrorImpl ch =
     bindR (advance_both BasicSend_FINISHED basic_advanceSendOperation
              BasicRecv_FINISHED basic_advanceRecvOperation ch)
       (\<lambda>ch'. Inr (ch'\<lparr>core := log_effects [Lower BasicClose, UnenrollChannel] (core ch')\<rparr>))"

text \<open>The callbacks that \<^verbatim>\<open>write\<close> and \<^verbatim>\<open>read\<close> pass to the connection.\<close>

definition basic_onWritten :: "nat \<Rightarrow> basic_channel \<Rightarrow> basic_channel result" where
  "basic_onWritten sn =
     send_resume BasicSend_FINISHED basic_advanceSendOperation sn (\<lambda>op. op\<lparr>bs_doneWriting := True\<rparr>)"

definition basic_onRead :: "nat \<Rightarrow> basic_channel \<Rightarrow> basic_channel result" where
  "basic_onRead sn =
     recv_resume BasicRecv_FINISHED basic_advanceRecvOperation sn (\<lambda>op. op\<lparr>br_doneReading := True\<rparr>)"

section \<open>Events\<close>

text \<open>
  What the loop of the context can run for a channel: the requests of the user, and one
  callback per operation that was started on the connection, with or without an error.
\<close>

datatype basic_event =
    BasicSend addr bytes_len nat
  | BasicRecv addr bytes_len nat
  | BasicSetId string
  | BasicCloseChannel
  | BasicWritten nat tp_error
  | BasicReadDone nat tp_error

fun basic_step :: "basic_event \<Rightarrow> basic_channel \<Rightarrow> basic_channel result" where
  "basic_step (BasicSend buffer len cb) ch = chan_sendFromLoop basic_sendImplFromLoop buffer len cb ch"
| "basic_step (BasicRecv buffer len cb) ch = chan_recvFromLoop basic_recvImplFromLoop buffer len cb ch"
| "basic_step (BasicSetId i) ch = Inr (chan_setIdFromLoop i ch)"
| "basic_step BasicCloseChannel ch = chan_closeFromLoop basic_handleErrorImpl ch"
| "basic_step (BasicWritten sn e) ch =
     entryPointFromLoop (chan_setError basic_handleErrorImpl) e (basic_onWritten sn) ch"
| "basic_step (BasicReadDone sn e) ch =
     entryPointFromLoop (chan_setError basic_handleErrorImpl) e (basic_onRead sn) ch"

text \<open>
  The transport calls the callback of each operation once. These are the operations whose
  callback has not been called yet.
\<close>

definition basic_writing :: "basic_send_op \<Rightarrow> bool" where
  "basic_writing op \<longleftrightarrow> state op = BasicSend_WRITING \<and> \<not> bs_doneWriting op"

definition basic_reading :: "basic_recv_op \<Rightarrow> bool" where
  "basic_reading op \<longleftrightarrow> state op = BasicRecv_READING \<and> \<not> br_doneReading op"

fun basic_enabled :: "basic_event \<Rightarrow> basic_channel \<Rightarrow> bool" where
  "basic_enabled (BasicWritten sn e) ch \<longleftrightarrow>
     list_ex (\<lambda>op. sequenceNumber op = sn \<and> basic_writing op) (sendOps ch)"
| "basic_enabled (BasicReadDone sn e) ch \<longleftrightarrow>
     list_ex (\<lambda>op. sequenceNumber op = sn \<and> basic_reading op) (recvOps ch)"
| "basic_enabled _ ch \<longleftrightarrow> True"

inductive basic_trace :: "basic_event list \<Rightarrow> basic_channel \<Rightarrow> bool" where
  basic_created: "chan_initFromLoop closed basic_initImplFromLoop (basic_init i) = Inr ch \<Longrightarrow> basic_trace [] ch"
| basic_stepped: "basic_trace evs ch \<Longrightarrow> basic_enabled ev ch \<Longrightarrow> basic_step ev ch = Inr ch' \<Longrightarrow>
     basic_trace (evs @ [ev]) ch'"

section \<open>The tables meet the contract\<close>

definition basic_send_ok :: "tp_error \<Rightarrow> basic_send_op \<Rightarrow> bool" where
  "basic_send_ok e op \<longleftrightarrow> (op_callback op = None \<longleftrightarrow> state op = BasicSend_FINISHED)"

definition basic_recv_ok :: "tp_error \<Rightarrow> basic_recv_op \<Rightarrow> bool" where
  "basic_recv_ok e op \<longleftrightarrow> (op_callback op = None \<longleftrightarrow> state op = BasicRecv_FINISHED)"

lemmas basic_action_defs =
  basic_write_def basic_callSendCallback_def basic_read_def basic_callRecvCallback_def
  call_send_callback_def call_recv_callback_def owes_send_def owes_recv_def

lemmas basic_table_defs =
  basic_advanceSendOperation_def basic_advanceRecvOperation_def basic_send_ok_def basic_recv_ok_def
  basic_writing_def basic_reading_def

lemma basic_finished_top: "s \<le> BasicSend_FINISHED" "r \<le> BasicRecv_FINISHED"
  by (cases s; simp) (cases r; simp)

lemma basic_send_front:
  "stable basic_advanceSendOperation op BasicSend_FINISHED c \<Longrightarrow> state op \<noteq> BasicSend_FINISHED \<Longrightarrow> basic_writing op"
  by (cases "state op") (auto simp: stable_def basic_table_defs)

lemma basic_recv_front:
  "stable basic_advanceRecvOperation op BasicRecv_FINISHED c \<Longrightarrow> state op \<noteq> BasicRecv_FINISHED \<Longrightarrow> basic_reading op"
  by (cases "state op") (auto simp: stable_def basic_table_defs)

interpretation basic: prompt_channel
  BasicSend_FINISHED basic_advanceSendOperation basic_send_ok basic_writing owes_send
  BasicRecv_FINISHED basic_advanceRecvOperation basic_recv_ok basic_reading owes_recv
  chan_error
  by (unfold_locales; (intro basic_finished_top | erule (1) basic_send_front basic_recv_front
      | auto simp: basic_table_defs basic_action_defs stable_def dest: core_frameD(1) split: option.splits))

section \<open>Properties\<close>

lemma basic_handler_shape:
  "basic_handleErrorImpl ch =
     bindR (advance_both BasicSend_FINISHED basic_advanceSendOperation
              BasicRecv_FINISHED basic_advanceRecvOperation ch)
       (\<lambda>ch'. Inr (ch'\<lparr>core := log_effects [Lower BasicClose, UnenrollChannel] (core ch')\<rparr>))"
  by (simp add: basic_handleErrorImpl_def)

abbreviation basic_inv :: "basic_channel \<Rightarrow> bool" where
  "basic_inv \<equiv> chan_inv BasicSend_FINISHED basic_advanceSendOperation basic_send_ok
     BasicRecv_FINISHED basic_advanceRecvOperation basic_recv_ok chan_error"

text \<open>The callbacks that an event of the user brings along.\<close>

fun basic_requested :: "basic_event \<Rightarrow> (nat + nat) multiset" where
  "basic_requested (BasicSend buffer len cb) = {#Inl cb#}"
| "basic_requested (BasicRecv buffer len cb) = {#Inr cb#}"
| "basic_requested _ = {#}"

lemma basic_step_inv:
  assumes "basic_inv ch" and "basic_enabled ev ch"
  shows "\<exists>ch'. basic_step ev ch = Inr ch' \<and> basic_inv ch' \<and>
    accounted owes_send owes_recv ch' = accounted owes_send owes_recv ch + basic_requested ev"
proof (cases ev)
  case (BasicSend buffer len cb)
  show ?thesis unfolding BasicSend basic_step.simps basic_requested.simps
    by (rule basic.sendFromLoop_inv [OF assms(1)])
      (auto simp: basic_sendImplFromLoop_def basic_send_ok_def owes_send_def)
next
  case (BasicRecv buffer len cb)
  show ?thesis unfolding BasicRecv basic_step.simps basic_requested.simps
    by (rule basic.recvFromLoop_inv [OF assms(1)])
      (auto simp: basic_recvImplFromLoop_def basic_recv_ok_def owes_recv_def)
next
  case (BasicSetId i)
  then show ?thesis using basic.setIdFromLoop_inv [OF assms(1)] by simp
next
  case BasicCloseChannel
  then show ?thesis
    using basic.setError_inv [OF assms(1) basic_handler_shape, of ChannelClosedError]
    by (auto simp: chan_closeFromLoop_def)
next
  case (BasicWritten sn e)
  then obtain op where op: "op \<in> set (sendOps ch)" "sequenceNumber op = sn" "basic_writing op"
    using assms(2) by (auto simp: list_ex_iff)
  have "\<exists>ch'. entryPointFromLoop (chan_setError basic_handleErrorImpl) e (basic_onWritten sn) ch = Inr ch' \<and>
      basic_inv ch' \<and> accounted owes_send owes_recv ch' = accounted owes_send owes_recv ch"
    by (rule basic.send_callback_inv [where f = "\<lambda>_ op. op\<lparr>bs_doneWriting := True\<rparr>", OF assms(1) basic_handler_shape _ op])
      (auto simp: basic_onWritten_def basic_send_ok_def owes_send_def)
  then show ?thesis using BasicWritten by simp
next
  case (BasicReadDone sn e)
  then obtain op where op: "op \<in> set (recvOps ch)" "sequenceNumber op = sn" "basic_reading op"
    using assms(2) by (auto simp: list_ex_iff)
  have "\<exists>ch'. entryPointFromLoop (chan_setError basic_handleErrorImpl) e (basic_onRead sn) ch = Inr ch' \<and>
      basic_inv ch' \<and> accounted owes_send owes_recv ch' = accounted owes_send owes_recv ch"
    by (rule basic.recv_callback_inv [where f = "\<lambda>_ op. op\<lparr>br_doneReading := True\<rparr>", OF assms(1) basic_handler_shape _ op])
      (auto simp: basic_onRead_def basic_recv_ok_def owes_recv_def)
  then show ?thesis using BasicReadDone by simp
qed

lemma basic_created_inv:
  assumes "chan_initFromLoop closed basic_initImplFromLoop (basic_init i) = Inr ch"
  shows "basic_inv ch" and "accounted owes_send owes_recv ch = {#}"
  using assms
  by (auto simp: chan_initFromLoop_def basic_initImplFromLoop_def basic_init_def chan_init_core_def
      chan_inv_def machine_ok_def contiguous_def ends_at_def accounted_def called_def log_effects_def
      split: if_splits)

lemma basic_trace_inv:
  "basic_trace evs ch \<Longrightarrow>
     basic_inv ch \<and> accounted owes_send owes_recv ch = sum_list (map basic_requested evs)"
proof (induction rule: basic_trace.induct)
  case (basic_created closed i ch)
  then show ?case using basic_created_inv by simp
next
  case (basic_stepped evs ch ev ch')
  then show ?case using basic_step_inv [of ch ev] by auto
qed

text \<open>A channel that was asked to send five bytes and is writing them.\<close>

definition basic_busy :: basic_channel where
  "basic_busy =
     \<lparr>core = \<lparr>chan_id = ''c'', chan_error = Success, nextTensorBeingSent = 1, nextTensorBeingReceived = 0,
        chan_log = [EnrollChannel, Lower (BasicWrite 0 100 5)]\<rparr>,
      sendOps = [\<lparr>sequenceNumber = 0, state = BasicSend_WRITING, op_ptr = 100, op_length = 5,
        op_callback = Some 7, bs_doneWriting = False\<rparr>],
      recvOps = []\<rparr>"

definition basic_done :: basic_channel where
  "basic_done =
     \<lparr>core = \<lparr>chan_id = ''c'', chan_error = Success, nextTensorBeingSent = 1, nextTensorBeingReceived = 0,
        chan_log = [EnrollChannel, Lower (BasicWrite 0 100 5), SendCallback 7 Success]\<rparr>,
      sendOps = [], recvOps = []\<rparr>"

lemma basic_busy_trace: "basic_trace [BasicSend 100 5 7] basic_busy"
proof -
  have "basic_trace [] \<lparr>core = log_effects [EnrollChannel] (chan_init_core ''c''), sendOps = [], recvOps = []\<rparr>"
    by (rule basic_created [of False "''c''"])
      (simp add: chan_initFromLoop_def basic_initImplFromLoop_def basic_init_def)
  then have "basic_trace ([] @ [BasicSend 100 5 7]) basic_busy"
    by (rule basic_stepped) code_simp+
  then show ?thesis by simp
qed

lemma basic_done_trace: "basic_trace [BasicSend 100 5 7, BasicWritten 0 Success] basic_done"
proof -
  have "basic_trace ([BasicSend 100 5 7] @ [BasicWritten 0 Success]) basic_done"
    using basic_busy_trace by (rule basic_stepped) code_simp+
  then show ?thesis by simp
qed

lemma basic_channel_no_fault:
  assumes "basic_trace evs ch" and "basic_enabled ev ch"
  shows "\<exists>ch'. basic_step ev ch = Inr ch'"
  using basic_step_inv [OF conjunct1 [OF basic_trace_inv [OF assms(1)]] assms(2)] by blast

lemma basic_channel_callbacks_once:
  assumes "basic_trace evs ch"
    and "\<not> list_ex basic_writing (sendOps ch)" and "\<not> list_ex basic_reading (recvOps ch)"
  shows "called (core ch) = sum_list (map basic_requested evs) \<and> sendOps ch = [] \<and> recvOps ch = []"
proof -
  have inv: "basic_inv ch" and acc: "accounted owes_send owes_recv ch = sum_list (map basic_requested evs)"
    using basic_trace_inv [OF assms(1)] by auto
  then show ?thesis using basic.idle_drained [OF inv] assms(2,3) by (auto simp: list_ex_iff)
qed



end
