(* ===== verification/Xth_Channel.thy ===== *)
theory Xth_Channel
  imports Channel_Boilerplate
begin

text \<open>
  The channel \<^verbatim>\<open>tensorpipe/channel/xth\<close> between threads of one process: the sender
  writes the address of its buffer on one connection and waits for a completion on another;
  the receiver asks the context's thread to copy and then writes the completion. The theory
  has the operations and tables of the channel, the callbacks of the connections and of the
  copying thread, and that thread's queue (\<^verbatim>\<open>context_impl.cc\<close>).
\<close>

section \<open>Operations\<close>

datatype xth_send_state = XthSend_UNINITIALIZED | XthSend_READING_COMPLETION | XthSend_FINISHED

datatype xth_recv_state =
  XthRecv_UNINITIALIZED | XthRecv_READING_DESCRIPTOR | XthRecv_COPYING | XthRecv_FINISHED

fun xth_send_pos :: "xth_send_state \<Rightarrow> nat" where
  "xth_send_pos XthSend_UNINITIALIZED = 0"
| "xth_send_pos XthSend_READING_COMPLETION = 1"
| "xth_send_pos XthSend_FINISHED = 2"

fun xth_recv_pos :: "xth_recv_state \<Rightarrow> nat" where
  "xth_recv_pos XthRecv_UNINITIALIZED = 0"
| "xth_recv_pos XthRecv_READING_DESCRIPTOR = 1"
| "xth_recv_pos XthRecv_COPYING = 2"
| "xth_recv_pos XthRecv_FINISHED = 3"

lemma xth_send_pos_inj: "xth_send_pos a = xth_send_pos b \<Longrightarrow> a = b"
  by (cases a; cases b) simp_all

lemma xth_recv_pos_inj: "xth_recv_pos a = xth_recv_pos b \<Longrightarrow> a = b"
  by (cases a; cases b) simp_all

instantiation xth_send_state :: linorder
begin

definition less_eq_xth_send_state :: "xth_send_state \<Rightarrow> xth_send_state \<Rightarrow> bool" where
  "less_eq_xth_send_state a b \<longleftrightarrow> xth_send_pos a \<le> xth_send_pos b"

definition less_xth_send_state :: "xth_send_state \<Rightarrow> xth_send_state \<Rightarrow> bool" where
  "less_xth_send_state a b \<longleftrightarrow> xth_send_pos a < xth_send_pos b"

instance
  by standard (auto simp: less_eq_xth_send_state_def less_xth_send_state_def dest: xth_send_pos_inj)

end

instantiation xth_recv_state :: linorder
begin

definition less_eq_xth_recv_state :: "xth_recv_state \<Rightarrow> xth_recv_state \<Rightarrow> bool" where
  "less_eq_xth_recv_state a b \<longleftrightarrow> xth_recv_pos a \<le> xth_recv_pos b"

definition less_xth_recv_state :: "xth_recv_state \<Rightarrow> xth_recv_state \<Rightarrow> bool" where
  "less_xth_recv_state a b \<longleftrightarrow> xth_recv_pos a < xth_recv_pos b"

instance
  by standard (auto simp: less_eq_xth_recv_state_def less_xth_recv_state_def dest: xth_recv_pos_inj)

end

lemmas xth_state_order [simp] =
  less_eq_xth_send_state_def less_xth_send_state_def
  less_eq_xth_recv_state_def less_xth_recv_state_def

record xth_send_op = "xth_send_state data_op" +
  xs_doneReadingCompletion :: bool

text \<open>The member \<^verbatim>\<open>remotePtr\<close> has no initial value; reading it before it is set is a fault.\<close>

record xth_recv_op = "xth_recv_state data_op" +
  xr_doneReadingDescriptor :: bool
  xr_doneCopying :: bool
  xr_remotePtr :: "addr option"

text \<open>
  Calls on the descriptor connection, the completion connection and the context. The
  payload of a descriptor is the structure \<^verbatim>\<open>Descriptor\<close>: one address.
\<close>

datatype xth_call =
    XthWriteDescriptor nat addr
  | XthReadCompletion nat
  | XthReadDescriptor nat
  | XthRequestCopy nat addr addr bytes_len
  | XthWriteCompletion nat
  | XthCloseDescriptorConnection
  | XthCloseCompletionConnection

type_synonym xth_core = "xth_call chan_core"
type_synonym xth_channel = "(xth_core, xth_send_op, xth_recv_op) channel"

section \<open>Actions\<close>

definition xth_writeDescriptor :: "xth_send_op \<Rightarrow> xth_core \<Rightarrow> (xth_send_op \<times> xth_core) result" where
  "xth_writeDescriptor op c =
     Inr (op, log_effects [Lower (XthWriteDescriptor (sequenceNumber op) (op_ptr op))] c)"

definition xth_readCompletion :: "xth_send_op \<Rightarrow> xth_core \<Rightarrow> (xth_send_op \<times> xth_core) result" where
  "xth_readCompletion op c = Inr (op, log_effects [Lower (XthReadCompletion (sequenceNumber op))] c)"

definition xth_callSendCallback :: "xth_send_op \<Rightarrow> xth_core \<Rightarrow> (xth_send_op \<times> xth_core) result" where
  "xth_callSendCallback op c = call_send_callback op c"

definition xth_readDescriptor :: "xth_recv_op \<Rightarrow> xth_core \<Rightarrow> (xth_recv_op \<times> xth_core) result" where
  "xth_readDescriptor op c = Inr (op, log_effects [Lower (XthReadDescriptor (sequenceNumber op))] c)"

definition xth_copy :: "xth_recv_op \<Rightarrow> xth_core \<Rightarrow> (xth_recv_op \<times> xth_core) result" where
  "xth_copy op c =
     (case xr_remotePtr op of
        None \<Rightarrow> Inl UninitializedRead
      | Some remote \<Rightarrow>
          Inr (op, log_effects [Lower (XthRequestCopy (sequenceNumber op) remote (op_ptr op) (op_length op))] c))"

definition xth_callRecvCallback :: "xth_recv_op \<Rightarrow> xth_core \<Rightarrow> (xth_recv_op \<times> xth_core) result" where
  "xth_callRecvCallback op c = call_recv_callback op c"

definition xth_writeCompletion :: "xth_recv_op \<Rightarrow> xth_core \<Rightarrow> (xth_recv_op \<times> xth_core) result" where
  "xth_writeCompletion op c = Inr (op, log_effects [Lower (XthWriteCompletion (sequenceNumber op))] c)"

section \<open>Transitions\<close>

type_synonym xth_send_table =
  "(xth_send_state, unit xth_send_op_ext data_op_ext, xth_core) transition list"
type_synonym xth_recv_table =
  "(xth_recv_state, unit xth_recv_op_ext data_op_ext, xth_core) transition list"

definition xth_advanceSendOperation :: xth_send_table where
  "xth_advanceSendOperation =
    [Transition XthSend_UNINITIALIZED XthSend_FINISHED
       (\<lambda>op prev c. is_error (chan_error c) \<or> op_length op = 0)
       [xth_callSendCallback],
     Transition XthSend_UNINITIALIZED XthSend_READING_COMPLETION
       (\<lambda>op prev c. \<not> is_error (chan_error c) \<and> prev \<ge> XthSend_READING_COMPLETION)
       [xth_writeDescriptor, xth_readCompletion],
     Transition XthSend_READING_COMPLETION XthSend_FINISHED
       (\<lambda>op prev c. xs_doneReadingCompletion op)
       [xth_callSendCallback]]"

definition xth_advanceRecvOperation :: xth_recv_table where
  "xth_advanceRecvOperation =
    [Transition XthRecv_UNINITIALIZED XthRecv_FINISHED
       (\<lambda>op prev c. is_error (chan_error c) \<or> op_length op = 0)
       [xth_callRecvCallback],
     Transition XthRecv_UNINITIALIZED XthRecv_READING_DESCRIPTOR
       (\<lambda>op prev c. \<not> is_error (chan_error c) \<and> prev \<ge> XthRecv_READING_DESCRIPTOR)
       [xth_readDescriptor],
     Transition XthRecv_READING_DESCRIPTOR XthRecv_FINISHED
       (\<lambda>op prev c. is_error (chan_error c) \<and> xr_doneReadingDescriptor op)
       [xth_callRecvCallback],
     Transition XthRecv_READING_DESCRIPTOR XthRecv_COPYING
       (\<lambda>op prev c. \<not> is_error (chan_error c) \<and> xr_doneReadingDescriptor op)
       [xth_copy],
     Transition XthRecv_COPYING XthRecv_FINISHED
       (\<lambda>op prev c. is_error (chan_error c) \<and> xr_doneCopying op)
       [xth_callRecvCallback],
     Transition XthRecv_COPYING XthRecv_FINISHED
       (\<lambda>op prev c. \<not> is_error (chan_error c) \<and> xr_doneCopying op \<and> prev \<ge> XthRecv_FINISHED)
       [xth_callRecvCallback, xth_writeCompletion]]"

section \<open>Handlers\<close>

definition xth_init :: "string \<Rightarrow> xth_channel" where
  "xth_init i = \<lparr>core = chan_init_core i, sendOps = [], recvOps = []\<rparr>"

definition xth_initImplFromLoop :: "xth_channel \<Rightarrow> xth_channel result" where
  "xth_initImplFromLoop ch = Inr (ch\<lparr>core := log_effects [EnrollChannel] (core ch)\<rparr>)"

definition xth_sendImplFromLoop ::
  "nat \<Rightarrow> addr \<Rightarrow> bytes_len \<Rightarrow> nat \<Rightarrow> xth_channel \<Rightarrow> xth_channel result" where
  "xth_sendImplFromLoop sn buffer len callback =
     send_start XthSend_FINISHED xth_advanceSendOperation
       \<lparr>sequenceNumber = 0, state = XthSend_UNINITIALIZED, op_ptr = buffer, op_length = len,
        op_callback = Some callback, xs_doneReadingCompletion = False\<rparr> sn"

definition xth_recvImplFromLoop ::
  "nat \<Rightarrow> addr \<Rightarrow> bytes_len \<Rightarrow> nat \<Rightarrow> xth_channel \<Rightarrow> xth_channel result" where
  "xth_recvImplFromLoop sn buffer len callback =
     recv_start XthRecv_FINISHED xth_advanceRecvOperation
       \<lparr>sequenceNumber = 0, state = XthRecv_UNINITIALIZED, op_ptr = buffer, op_length = len,
        op_callback = Some callback, xr_doneReadingDescriptor = False, xr_doneCopying = False,
        xr_remotePtr = None\<rparr> sn"

definition xth_handleErrorImpl :: "xth_channel \<Rightarrow> xth_channel result" where
  "xth_handleErrorImpl ch =
     bindR (advance_both XthSend_FINISHED xth_advanceSendOperation
              XthRecv_FINISHED xth_advanceRecvOperation ch)
       (\<lambda>ch'. Inr (ch'\<lparr>core := log_effects
          [Lower XthCloseDescriptorConnection, Lower XthCloseCompletionConnection, UnenrollChannel]
          (core ch')\<rparr>))"

text \<open>The callbacks that the actions pass on; those of the two writes do nothing.\<close>

definition xth_onCompletionRead :: "nat \<Rightarrow> xth_channel \<Rightarrow> xth_channel result" where
  "xth_onCompletionRead sn =
     send_resume XthSend_FINISHED xth_advanceSendOperation sn
       (\<lambda>op. op\<lparr>xs_doneReadingCompletion := True\<rparr>)"

definition xth_setDescriptor :: "addr \<Rightarrow> tp_error \<Rightarrow> xth_recv_op \<Rightarrow> xth_recv_op" where
  "xth_setDescriptor remote e op =
     (let op1 = op\<lparr>xr_doneReadingDescriptor := True\<rparr>
      in if \<not> is_error e then op1\<lparr>xr_remotePtr := Some remote\<rparr> else op1)"

definition xth_onDescriptorRead :: "nat \<Rightarrow> addr \<Rightarrow> xth_channel \<Rightarrow> xth_channel result" where
  "xth_onDescriptorRead sn remote ch =
     recv_resume XthRecv_FINISHED xth_advanceRecvOperation sn
       (xth_setDescriptor remote (chan_error (core ch))) ch"

definition xth_onCopied :: "nat \<Rightarrow> xth_channel \<Rightarrow> xth_channel result" where
  "xth_onCopied sn =
     recv_resume XthRecv_FINISHED xth_advanceRecvOperation sn (\<lambda>op. op\<lparr>xr_doneCopying := True\<rparr>)"

definition xth_onWritten :: "xth_channel \<Rightarrow> xth_channel result" where
  "xth_onWritten ch = Inr ch"

section \<open>Events\<close>

datatype xth_event =
    XthSend addr bytes_len nat
  | XthRecv addr bytes_len nat
  | XthSetId string
  | XthCloseChannel
  | XthCompletionRead nat tp_error
  | XthDescriptorRead nat addr tp_error
  | XthCopied nat tp_error
  | XthWritten tp_error

fun xth_step :: "xth_event \<Rightarrow> xth_channel \<Rightarrow> xth_channel result" where
  "xth_step (XthSend buffer len cb) ch = chan_sendFromLoop xth_sendImplFromLoop buffer len cb ch"
| "xth_step (XthRecv buffer len cb) ch = chan_recvFromLoop xth_recvImplFromLoop buffer len cb ch"
| "xth_step (XthSetId i) ch = Inr (chan_setIdFromLoop i ch)"
| "xth_step XthCloseChannel ch = chan_closeFromLoop xth_handleErrorImpl ch"
| "xth_step (XthCompletionRead sn e) ch =
     entryPointFromLoop (chan_setError xth_handleErrorImpl) e (xth_onCompletionRead sn) ch"
| "xth_step (XthDescriptorRead sn remote e) ch =
     entryPointFromLoop (chan_setError xth_handleErrorImpl) e (xth_onDescriptorRead sn remote) ch"
| "xth_step (XthCopied sn e) ch =
     entryPointFromLoop (chan_setError xth_handleErrorImpl) e (xth_onCopied sn) ch"
| "xth_step (XthWritten e) ch =
     entryPointFromLoop (chan_setError xth_handleErrorImpl) e xth_onWritten ch"

text \<open>
  Callbacks that carry an iterator arrive once per started operation. The callbacks of the
  writes may arrive at any time: they carry no iterator.
\<close>

definition xth_awaiting_completion :: "xth_send_op \<Rightarrow> bool" where
  "xth_awaiting_completion op \<longleftrightarrow>
     state op = XthSend_READING_COMPLETION \<and> \<not> xs_doneReadingCompletion op"

definition xth_reading_descriptor :: "xth_recv_op \<Rightarrow> bool" where
  "xth_reading_descriptor op \<longleftrightarrow>
     state op = XthRecv_READING_DESCRIPTOR \<and> \<not> xr_doneReadingDescriptor op"

definition xth_copying :: "xth_recv_op \<Rightarrow> bool" where
  "xth_copying op \<longleftrightarrow> state op = XthRecv_COPYING \<and> \<not> xr_doneCopying op"

definition xth_receiving :: "xth_recv_op \<Rightarrow> bool" where
  "xth_receiving op \<longleftrightarrow> xth_reading_descriptor op \<or> xth_copying op"

fun xth_enabled :: "xth_event \<Rightarrow> xth_channel \<Rightarrow> bool" where
  "xth_enabled (XthCompletionRead sn e) ch \<longleftrightarrow>
     list_ex (\<lambda>op. sequenceNumber op = sn \<and> xth_awaiting_completion op) (sendOps ch)"
| "xth_enabled (XthDescriptorRead sn remote e) ch \<longleftrightarrow>
     list_ex (\<lambda>op. sequenceNumber op = sn \<and> xth_reading_descriptor op) (recvOps ch)"
| "xth_enabled (XthCopied sn e) ch \<longleftrightarrow>
     list_ex (\<lambda>op. sequenceNumber op = sn \<and> xth_copying op) (recvOps ch)"
| "xth_enabled _ ch \<longleftrightarrow> True"

inductive xth_trace :: "xth_event list \<Rightarrow> xth_channel \<Rightarrow> bool" where
  xth_created: "chan_initFromLoop closed xth_initImplFromLoop (xth_init i) = Inr ch \<Longrightarrow> xth_trace [] ch"
| xth_stepped: "xth_trace evs ch \<Longrightarrow> xth_enabled ev ch \<Longrightarrow> xth_step ev ch = Inr ch' \<Longrightarrow>
     xth_trace (evs @ [ev]) ch'"

section \<open>The tables meet the contract\<close>

definition xth_send_ok :: "tp_error \<Rightarrow> xth_send_op \<Rightarrow> bool" where
  "xth_send_ok e op \<longleftrightarrow> (op_callback op = None \<longleftrightarrow> state op = XthSend_FINISHED)"

definition xth_recv_ok :: "tp_error \<Rightarrow> xth_recv_op \<Rightarrow> bool" where
  "xth_recv_ok e op \<longleftrightarrow> (op_callback op = None \<longleftrightarrow> state op = XthRecv_FINISHED) \<and>
     (\<not> is_error e \<and> xr_doneReadingDescriptor op \<longrightarrow> xr_remotePtr op \<noteq> None)"

lemmas xth_action_defs =
  xth_writeDescriptor_def xth_readCompletion_def xth_callSendCallback_def xth_readDescriptor_def
  xth_copy_def xth_callRecvCallback_def xth_writeCompletion_def
  call_send_callback_def call_recv_callback_def owes_send_def owes_recv_def

lemmas xth_table_defs =
  xth_advanceSendOperation_def xth_advanceRecvOperation_def xth_send_ok_def xth_recv_ok_def
  xth_awaiting_completion_def xth_receiving_def xth_reading_descriptor_def xth_copying_def

lemma xth_finished_top: "s \<le> XthSend_FINISHED" "r \<le> XthRecv_FINISHED"
  by (cases s; simp) (cases r; simp)

lemma xth_send_front:
  "stable xth_advanceSendOperation op XthSend_FINISHED c \<Longrightarrow> state op \<noteq> XthSend_FINISHED \<Longrightarrow>
     xth_awaiting_completion op"
  by (cases "state op") (auto simp: stable_def xth_table_defs)

lemma xth_recv_front:
  "stable xth_advanceRecvOperation op XthRecv_FINISHED c \<Longrightarrow> state op \<noteq> XthRecv_FINISHED \<Longrightarrow>
     xth_receiving op"
  by (cases "state op") (auto simp: stable_def xth_table_defs)

interpretation xth: prompt_channel
  XthSend_FINISHED xth_advanceSendOperation xth_send_ok xth_awaiting_completion owes_send
  XthRecv_FINISHED xth_advanceRecvOperation xth_recv_ok xth_receiving owes_recv
  chan_error
  by (unfold_locales; (intro xth_finished_top | erule (1) xth_send_front xth_recv_front
      | auto simp: xth_table_defs xth_action_defs stable_def dest: core_frameD(1) split: option.splits))

section \<open>Properties\<close>

lemma xth_handler_shape:
  "xth_handleErrorImpl ch =
     bindR (advance_both XthSend_FINISHED xth_advanceSendOperation
              XthRecv_FINISHED xth_advanceRecvOperation ch)
       (\<lambda>ch'. Inr (ch'\<lparr>core := log_effects
          [Lower XthCloseDescriptorConnection, Lower XthCloseCompletionConnection, UnenrollChannel]
          (core ch')\<rparr>))"
  by (simp add: xth_handleErrorImpl_def)

abbreviation xth_inv :: "xth_channel \<Rightarrow> bool" where
  "xth_inv \<equiv> chan_inv XthSend_FINISHED xth_advanceSendOperation xth_send_ok
     XthRecv_FINISHED xth_advanceRecvOperation xth_recv_ok chan_error"

fun xth_requested :: "xth_event \<Rightarrow> (nat + nat) multiset" where
  "xth_requested (XthSend buffer len cb) = {#Inl cb#}"
| "xth_requested (XthRecv buffer len cb) = {#Inr cb#}"
| "xth_requested _ = {#}"

lemma xth_setDescriptor_simps [simp]:
  "sequenceNumber (xth_setDescriptor remote e op) = sequenceNumber op"
  "state (xth_setDescriptor remote e op) = state op"
  "owes_recv (xth_setDescriptor remote e op) = owes_recv op"
  "xth_recv_ok e op \<Longrightarrow> xth_recv_ok e (xth_setDescriptor remote e op)"
  by (simp_all add: xth_setDescriptor_def Let_def owes_recv_def xth_recv_ok_def)

lemma xth_callback_inv:
  assumes "xth_inv ch"
  shows "list_ex (\<lambda>op. sequenceNumber op = sn \<and> xth_awaiting_completion op) (sendOps ch) \<Longrightarrow>
      \<exists>ch'. entryPointFromLoop (chan_setError xth_handleErrorImpl) e (xth_onCompletionRead sn) ch = Inr ch' \<and>
        xth_inv ch' \<and> accounted owes_send owes_recv ch' = accounted owes_send owes_recv ch"
    and "list_ex (\<lambda>op. sequenceNumber op = sn \<and> xth_reading_descriptor op) (recvOps ch) \<Longrightarrow>
      \<exists>ch'. entryPointFromLoop (chan_setError xth_handleErrorImpl) e (xth_onDescriptorRead sn remote) ch = Inr ch' \<and>
        xth_inv ch' \<and> accounted owes_send owes_recv ch' = accounted owes_send owes_recv ch"
    and "list_ex (\<lambda>op. sequenceNumber op = sn \<and> xth_copying op) (recvOps ch) \<Longrightarrow>
      \<exists>ch'. entryPointFromLoop (chan_setError xth_handleErrorImpl) e (xth_onCopied sn) ch = Inr ch' \<and>
        xth_inv ch' \<and> accounted owes_send owes_recv ch' = accounted owes_send owes_recv ch"
proof -
  assume "list_ex (\<lambda>op. sequenceNumber op = sn \<and> xth_awaiting_completion op) (sendOps ch)"
  then obtain op where op: "op \<in> set (sendOps ch)" "sequenceNumber op = sn" "xth_awaiting_completion op"
    by (auto simp: list_ex_iff)
  show "\<exists>ch'. entryPointFromLoop (chan_setError xth_handleErrorImpl) e (xth_onCompletionRead sn) ch = Inr ch' \<and>
      xth_inv ch' \<and> accounted owes_send owes_recv ch' = accounted owes_send owes_recv ch"
    by (rule xth.send_callback_inv [where f = "\<lambda>_ op. op\<lparr>xs_doneReadingCompletion := True\<rparr>",
          OF assms xth_handler_shape _ op])
      (auto simp: xth_onCompletionRead_def xth_send_ok_def owes_send_def)
next
  assume "list_ex (\<lambda>op. sequenceNumber op = sn \<and> xth_reading_descriptor op) (recvOps ch)"
  then obtain op where op: "op \<in> set (recvOps ch)" "sequenceNumber op = sn" "xth_receiving op"
    by (auto simp: list_ex_iff xth_receiving_def)
  show "\<exists>ch'. entryPointFromLoop (chan_setError xth_handleErrorImpl) e (xth_onDescriptorRead sn remote) ch = Inr ch' \<and>
      xth_inv ch' \<and> accounted owes_send owes_recv ch' = accounted owes_send owes_recv ch"
    by (rule xth.recv_callback_inv [where f = "xth_setDescriptor remote", OF assms xth_handler_shape _ op])
      (auto simp: xth_onDescriptorRead_def)
next
  assume "list_ex (\<lambda>op. sequenceNumber op = sn \<and> xth_copying op) (recvOps ch)"
  then obtain op where op: "op \<in> set (recvOps ch)" "sequenceNumber op = sn" "xth_receiving op"
    by (auto simp: list_ex_iff xth_receiving_def)
  show "\<exists>ch'. entryPointFromLoop (chan_setError xth_handleErrorImpl) e (xth_onCopied sn) ch = Inr ch' \<and>
      xth_inv ch' \<and> accounted owes_send owes_recv ch' = accounted owes_send owes_recv ch"
    by (rule xth.recv_callback_inv [where f = "\<lambda>_ op. op\<lparr>xr_doneCopying := True\<rparr>",
          OF assms xth_handler_shape _ op])
      (auto simp: xth_onCopied_def xth_recv_ok_def owes_recv_def)
qed

lemma xth_step_inv:
  assumes "xth_inv ch" and "xth_enabled ev ch"
  shows "\<exists>ch'. xth_step ev ch = Inr ch' \<and> xth_inv ch' \<and>
    accounted owes_send owes_recv ch' = accounted owes_send owes_recv ch + xth_requested ev"
proof (cases ev)
  case (XthSend buffer len cb)
  show ?thesis unfolding XthSend xth_step.simps xth_requested.simps
    by (rule xth.sendFromLoop_inv [OF assms(1)])
      (auto simp: xth_sendImplFromLoop_def xth_send_ok_def owes_send_def)
next
  case (XthRecv buffer len cb)
  show ?thesis unfolding XthRecv xth_step.simps xth_requested.simps
    by (rule xth.recvFromLoop_inv [OF assms(1)])
      (auto simp: xth_recvImplFromLoop_def xth_recv_ok_def owes_recv_def)
next
  case (XthSetId i)
  then show ?thesis using xth.setIdFromLoop_inv [OF assms(1)] by simp
next
  case XthCloseChannel
  then show ?thesis
    using xth.setError_inv [OF assms(1) xth_handler_shape, of ChannelClosedError]
    by (auto simp: chan_closeFromLoop_def)
next
  case (XthWritten e)
  then show ?thesis
    using xth.setError_inv [OF assms(1) xth_handler_shape, of e]
    by (auto simp: entryPointFromLoop_def xth_onWritten_def)
qed (use assms xth_callback_inv in simp_all)

lemma xth_created_inv:
  assumes "chan_initFromLoop closed xth_initImplFromLoop (xth_init i) = Inr ch"
  shows "xth_inv ch" and "accounted owes_send owes_recv ch = {#}"
  using assms
  by (auto simp: chan_initFromLoop_def xth_initImplFromLoop_def xth_init_def chan_init_core_def
      chan_inv_def machine_ok_def contiguous_def ends_at_def accounted_def called_def log_effects_def
      split: if_splits)

lemma xth_trace_inv:
  "xth_trace evs ch \<Longrightarrow>
     xth_inv ch \<and> accounted owes_send owes_recv ch = sum_list (map xth_requested evs)"
proof (induction rule: xth_trace.induct)
  case (xth_created closed i ch)
  then show ?case using xth_created_inv by simp
next
  case (xth_stepped evs ch ev ch')
  then show ?case using xth_step_inv [of ch ev] by auto
qed

text \<open>A channel that receives five bytes: it waits for the copy, and then is done.\<close>

definition xth_copy_pending :: xth_channel where
  "xth_copy_pending =
     \<lparr>core = \<lparr>chan_id = ''c'', chan_error = Success, nextTensorBeingSent = 0, nextTensorBeingReceived = 1,
        chan_log = [EnrollChannel, Lower (XthReadDescriptor 0), Lower (XthRequestCopy 0 900 100 5)]\<rparr>,
      sendOps = [],
      recvOps = [\<lparr>sequenceNumber = 0, state = XthRecv_COPYING, op_ptr = 100, op_length = 5,
        op_callback = Some 7, xr_doneReadingDescriptor = True, xr_doneCopying = False,
        xr_remotePtr = Some 900\<rparr>]\<rparr>"

definition xth_done :: xth_channel where
  "xth_done =
     \<lparr>core = \<lparr>chan_id = ''c'', chan_error = Success, nextTensorBeingSent = 0, nextTensorBeingReceived = 1,
        chan_log = [EnrollChannel, Lower (XthReadDescriptor 0), Lower (XthRequestCopy 0 900 100 5),
          RecvCallback 7 Success, Lower (XthWriteCompletion 0)]\<rparr>,
      sendOps = [], recvOps = []\<rparr>"

lemma xth_copy_pending_trace: "xth_trace [XthRecv 100 5 7, XthDescriptorRead 0 900 Success] xth_copy_pending"
proof -
  let ?ch0 = "\<lparr>core = log_effects [EnrollChannel] (chan_init_core ''c''), sendOps = [], recvOps = []\<rparr>"
  have "xth_trace [] ?ch0"
    by (rule xth_created [of False "''c''"])
      (simp add: chan_initFromLoop_def xth_initImplFromLoop_def xth_init_def)
  moreover have "xth_enabled (XthRecv 100 5 7) ?ch0" by code_simp
  moreover have "xth_step (XthRecv 100 5 7) ?ch0 = Inr (
      \<lparr>core = \<lparr>chan_id = ''c'', chan_error = Success, nextTensorBeingSent = 0, nextTensorBeingReceived = 1,
         chan_log = [EnrollChannel, Lower (XthReadDescriptor 0)]\<rparr>,
       sendOps = [],
       recvOps = [\<lparr>sequenceNumber = 0, state = XthRecv_READING_DESCRIPTOR, op_ptr = 100, op_length = 5,
         op_callback = Some 7, xr_doneReadingDescriptor = False, xr_doneCopying = False,
         xr_remotePtr = None\<rparr>]\<rparr>)" (is "_ = Inr ?ch1") by code_simp
  ultimately have "xth_trace ([] @ [XthRecv 100 5 7]) ?ch1" by (rule xth_stepped)
  then have "xth_trace (([] @ [XthRecv 100 5 7]) @ [XthDescriptorRead 0 900 Success]) xth_copy_pending"
    by (rule xth_stepped) code_simp+
  then show ?thesis by simp
qed

lemma xth_done_trace:
  "xth_trace [XthRecv 100 5 7, XthDescriptorRead 0 900 Success, XthCopied 0 Success] xth_done"
proof -
  have "xth_trace ([XthRecv 100 5 7, XthDescriptorRead 0 900 Success] @ [XthCopied 0 Success]) xth_done"
    using xth_copy_pending_trace by (rule xth_stepped) code_simp+
  then show ?thesis by simp
qed

lemma xth_channel_no_fault:
  assumes "xth_trace evs ch" and "xth_enabled ev ch"
  shows "\<exists>ch'. xth_step ev ch = Inr ch'"
  using xth_step_inv [OF conjunct1 [OF xth_trace_inv [OF assms(1)]] assms(2)] by blast

lemma xth_channel_callbacks_once:
  assumes "xth_trace evs ch"
    and "\<not> list_ex xth_awaiting_completion (sendOps ch)" and "\<not> list_ex xth_receiving (recvOps ch)"
  shows "called (core ch) = sum_list (map xth_requested evs) \<and> sendOps ch = [] \<and> recvOps ch = []"
proof -
  have inv: "xth_inv ch" and acc: "accounted owes_send owes_recv ch = sum_list (map xth_requested evs)"
    using xth_trace_inv [OF assms(1)] by auto
  then show ?thesis using xth.idle_drained [OF inv] assms(2,3) by (auto simp: list_ex_iff)
qed



end
