(* ===== verification/Cma_Channel.thy ===== *)
theory Cma_Channel
  imports Channel_Boilerplate
begin

text \<open>
  The channel \<^verbatim>\<open>tensorpipe/channel/cma\<close> between processes of one machine: the sender
  writes its process id and the address of its buffer on one connection and waits for a
  completion on another; the receiver asks the context's thread to copy with
  \<^verbatim>\<open>process_vm_readv\<close> and then writes the completion.
\<close>

section \<open>Operations\<close>

datatype cma_send_state = CmaSend_UNINITIALIZED | CmaSend_READING_COMPLETION | CmaSend_FINISHED

datatype cma_recv_state =
  CmaRecv_UNINITIALIZED | CmaRecv_READING_DESCRIPTOR | CmaRecv_COPYING | CmaRecv_FINISHED

fun cma_send_pos :: "cma_send_state \<Rightarrow> nat" where
  "cma_send_pos CmaSend_UNINITIALIZED = 0"
| "cma_send_pos CmaSend_READING_COMPLETION = 1"
| "cma_send_pos CmaSend_FINISHED = 2"

fun cma_recv_pos :: "cma_recv_state \<Rightarrow> nat" where
  "cma_recv_pos CmaRecv_UNINITIALIZED = 0"
| "cma_recv_pos CmaRecv_READING_DESCRIPTOR = 1"
| "cma_recv_pos CmaRecv_COPYING = 2"
| "cma_recv_pos CmaRecv_FINISHED = 3"

lemma cma_send_pos_inj: "cma_send_pos a = cma_send_pos b \<Longrightarrow> a = b"
  by (cases a; cases b) simp_all

lemma cma_recv_pos_inj: "cma_recv_pos a = cma_recv_pos b \<Longrightarrow> a = b"
  by (cases a; cases b) simp_all

instantiation cma_send_state :: linorder
begin

definition less_eq_cma_send_state :: "cma_send_state \<Rightarrow> cma_send_state \<Rightarrow> bool" where
  "less_eq_cma_send_state a b \<longleftrightarrow> cma_send_pos a \<le> cma_send_pos b"

definition less_cma_send_state :: "cma_send_state \<Rightarrow> cma_send_state \<Rightarrow> bool" where
  "less_cma_send_state a b \<longleftrightarrow> cma_send_pos a < cma_send_pos b"

instance
  by standard (auto simp: less_eq_cma_send_state_def less_cma_send_state_def dest: cma_send_pos_inj)

end

instantiation cma_recv_state :: linorder
begin

definition less_eq_cma_recv_state :: "cma_recv_state \<Rightarrow> cma_recv_state \<Rightarrow> bool" where
  "less_eq_cma_recv_state a b \<longleftrightarrow> cma_recv_pos a \<le> cma_recv_pos b"

definition less_cma_recv_state :: "cma_recv_state \<Rightarrow> cma_recv_state \<Rightarrow> bool" where
  "less_cma_recv_state a b \<longleftrightarrow> cma_recv_pos a < cma_recv_pos b"

instance
  by standard (auto simp: less_eq_cma_recv_state_def less_cma_recv_state_def dest: cma_recv_pos_inj)

end

lemmas cma_state_order [simp] =
  less_eq_cma_send_state_def less_cma_send_state_def
  less_eq_cma_recv_state_def less_cma_recv_state_def

record cma_send_op = "cma_send_state data_op" +
  cs_doneReadingCompletion :: bool

text \<open>The members \<^verbatim>\<open>remotePid\<close> and \<^verbatim>\<open>remotePtr\<close> have no initial value; reading them early is a fault.\<close>

record cma_recv_op = "cma_recv_state data_op" +
  cr_doneReadingDescriptor :: bool
  cr_doneCopying :: bool
  cr_remotePid :: "32 word option"
  cr_remotePtr :: "addr option"

text \<open>
  Calls on the descriptor connection, the completion connection and the context. The
  payload of a descriptor is the structure \<^verbatim>\<open>Descriptor\<close>: a process id and an address.
\<close>

datatype cma_call =
    CmaWriteDescriptor nat "32 word" addr
  | CmaReadCompletion nat
  | CmaReadDescriptor nat
  | CmaRequestCopy nat "32 word" addr addr bytes_len
  | CmaWriteCompletion nat
  | CmaCloseDescriptorConnection
  | CmaCloseCompletionConnection

text \<open>What \<^verbatim>\<open>getpid\<close> returns is constant for a process and is kept with the channel.\<close>

record cma_core = "cma_call chan_core" +
  cma_getpid :: "32 word"

type_synonym cma_channel = "(cma_core, cma_send_op, cma_recv_op) channel"

section \<open>Actions\<close>

definition cma_writeDescriptor :: "cma_send_op \<Rightarrow> cma_core \<Rightarrow> (cma_send_op \<times> cma_core) result" where
  "cma_writeDescriptor op c =
     Inr (op, log_effects [Lower (CmaWriteDescriptor (sequenceNumber op) (cma_getpid c) (op_ptr op))] c)"

definition cma_readCompletion :: "cma_send_op \<Rightarrow> cma_core \<Rightarrow> (cma_send_op \<times> cma_core) result" where
  "cma_readCompletion op c = Inr (op, log_effects [Lower (CmaReadCompletion (sequenceNumber op))] c)"

definition cma_callSendCallback :: "cma_send_op \<Rightarrow> cma_core \<Rightarrow> (cma_send_op \<times> cma_core) result" where
  "cma_callSendCallback op c = call_send_callback op c"

definition cma_readDescriptor :: "cma_recv_op \<Rightarrow> cma_core \<Rightarrow> (cma_recv_op \<times> cma_core) result" where
  "cma_readDescriptor op c = Inr (op, log_effects [Lower (CmaReadDescriptor (sequenceNumber op))] c)"

definition cma_copy :: "cma_recv_op \<Rightarrow> cma_core \<Rightarrow> (cma_recv_op \<times> cma_core) result" where
  "cma_copy op c =
     (case (cr_remotePid op, cr_remotePtr op) of
        (Some pid, Some remote) \<Rightarrow>
          Inr (op, log_effects
            [Lower (CmaRequestCopy (sequenceNumber op) pid remote (op_ptr op) (op_length op))] c)
      | _ \<Rightarrow> Inl UninitializedRead)"

definition cma_callRecvCallback :: "cma_recv_op \<Rightarrow> cma_core \<Rightarrow> (cma_recv_op \<times> cma_core) result" where
  "cma_callRecvCallback op c = call_recv_callback op c"

definition cma_writeCompletion :: "cma_recv_op \<Rightarrow> cma_core \<Rightarrow> (cma_recv_op \<times> cma_core) result" where
  "cma_writeCompletion op c = Inr (op, log_effects [Lower (CmaWriteCompletion (sequenceNumber op))] c)"

section \<open>Transitions\<close>

type_synonym cma_send_table =
  "(cma_send_state, unit cma_send_op_ext data_op_ext, cma_core) transition list"
type_synonym cma_recv_table =
  "(cma_recv_state, unit cma_recv_op_ext data_op_ext, cma_core) transition list"

definition cma_advanceSendOperation :: cma_send_table where
  "cma_advanceSendOperation =
    [Transition CmaSend_UNINITIALIZED CmaSend_FINISHED
       (\<lambda>op prev c. is_error (chan_error c) \<or> op_length op = 0)
       [cma_callSendCallback],
     Transition CmaSend_UNINITIALIZED CmaSend_READING_COMPLETION
       (\<lambda>op prev c. \<not> is_error (chan_error c) \<and> prev \<ge> CmaSend_READING_COMPLETION)
       [cma_writeDescriptor, cma_readCompletion],
     Transition CmaSend_READING_COMPLETION CmaSend_FINISHED
       (\<lambda>op prev c. cs_doneReadingCompletion op)
       [cma_callSendCallback]]"

definition cma_advanceRecvOperation :: cma_recv_table where
  "cma_advanceRecvOperation =
    [Transition CmaRecv_UNINITIALIZED CmaRecv_FINISHED
       (\<lambda>op prev c. is_error (chan_error c) \<or> op_length op = 0)
       [cma_callRecvCallback],
     Transition CmaRecv_UNINITIALIZED CmaRecv_READING_DESCRIPTOR
       (\<lambda>op prev c. \<not> is_error (chan_error c) \<and> prev \<ge> CmaRecv_READING_DESCRIPTOR)
       [cma_readDescriptor],
     Transition CmaRecv_READING_DESCRIPTOR CmaRecv_FINISHED
       (\<lambda>op prev c. is_error (chan_error c) \<and> cr_doneReadingDescriptor op)
       [cma_callRecvCallback],
     Transition CmaRecv_READING_DESCRIPTOR CmaRecv_COPYING
       (\<lambda>op prev c. \<not> is_error (chan_error c) \<and> cr_doneReadingDescriptor op)
       [cma_copy],
     Transition CmaRecv_COPYING CmaRecv_FINISHED
       (\<lambda>op prev c. is_error (chan_error c) \<and> cr_doneCopying op)
       [cma_callRecvCallback],
     Transition CmaRecv_COPYING CmaRecv_FINISHED
       (\<lambda>op prev c. \<not> is_error (chan_error c) \<and> cr_doneCopying op \<and> prev \<ge> CmaRecv_FINISHED)
       [cma_callRecvCallback, cma_writeCompletion]]"

section \<open>Handlers\<close>

definition cma_init :: "32 word \<Rightarrow> string \<Rightarrow> cma_channel" where
  "cma_init pid i = \<lparr>core = chan_core.extend (chan_init_core i) \<lparr>cma_getpid = pid\<rparr>,
     sendOps = [], recvOps = []\<rparr>"

definition cma_initImplFromLoop :: "cma_channel \<Rightarrow> cma_channel result" where
  "cma_initImplFromLoop ch = Inr (ch\<lparr>core := log_effects [EnrollChannel] (core ch)\<rparr>)"

definition cma_sendImplFromLoop ::
  "nat \<Rightarrow> addr \<Rightarrow> bytes_len \<Rightarrow> nat \<Rightarrow> cma_channel \<Rightarrow> cma_channel result" where
  "cma_sendImplFromLoop sn buffer len callback =
     send_start CmaSend_FINISHED cma_advanceSendOperation
       \<lparr>sequenceNumber = 0, state = CmaSend_UNINITIALIZED, op_ptr = buffer, op_length = len,
        op_callback = Some callback, cs_doneReadingCompletion = False\<rparr> sn"

definition cma_recvImplFromLoop ::
  "nat \<Rightarrow> addr \<Rightarrow> bytes_len \<Rightarrow> nat \<Rightarrow> cma_channel \<Rightarrow> cma_channel result" where
  "cma_recvImplFromLoop sn buffer len callback =
     recv_start CmaRecv_FINISHED cma_advanceRecvOperation
       \<lparr>sequenceNumber = 0, state = CmaRecv_UNINITIALIZED, op_ptr = buffer, op_length = len,
        op_callback = Some callback, cr_doneReadingDescriptor = False, cr_doneCopying = False,
        cr_remotePid = None, cr_remotePtr = None\<rparr> sn"

definition cma_handleErrorImpl :: "cma_channel \<Rightarrow> cma_channel result" where
  "cma_handleErrorImpl ch =
     bindR (advance_both CmaSend_FINISHED cma_advanceSendOperation
              CmaRecv_FINISHED cma_advanceRecvOperation ch)
       (\<lambda>ch'. Inr (ch'\<lparr>core := log_effects
          [Lower CmaCloseDescriptorConnection, Lower CmaCloseCompletionConnection, UnenrollChannel]
          (core ch')\<rparr>))"

text \<open>The callbacks that the actions pass on; those of the two writes do nothing.\<close>

definition cma_onCompletionRead :: "nat \<Rightarrow> cma_channel \<Rightarrow> cma_channel result" where
  "cma_onCompletionRead sn =
     send_resume CmaSend_FINISHED cma_advanceSendOperation sn
       (\<lambda>op. op\<lparr>cs_doneReadingCompletion := True\<rparr>)"

definition cma_setDescriptor :: "32 word \<Rightarrow> addr \<Rightarrow> tp_error \<Rightarrow> cma_recv_op \<Rightarrow> cma_recv_op" where
  "cma_setDescriptor pid remote e op =
     (let op1 = op\<lparr>cr_doneReadingDescriptor := True\<rparr>
      in if \<not> is_error e then op1\<lparr>cr_remotePid := Some pid, cr_remotePtr := Some remote\<rparr> else op1)"

definition cma_onDescriptorRead :: "nat \<Rightarrow> 32 word \<Rightarrow> addr \<Rightarrow> cma_channel \<Rightarrow> cma_channel result" where
  "cma_onDescriptorRead sn pid remote ch =
     recv_resume CmaRecv_FINISHED cma_advanceRecvOperation sn
       (cma_setDescriptor pid remote (chan_error (core ch))) ch"

definition cma_onCopied :: "nat \<Rightarrow> cma_channel \<Rightarrow> cma_channel result" where
  "cma_onCopied sn =
     recv_resume CmaRecv_FINISHED cma_advanceRecvOperation sn (\<lambda>op. op\<lparr>cr_doneCopying := True\<rparr>)"

definition cma_onWritten :: "cma_channel \<Rightarrow> cma_channel result" where
  "cma_onWritten ch = Inr ch"

section \<open>Events\<close>

datatype cma_event =
    CmaSend addr bytes_len nat
  | CmaRecv addr bytes_len nat
  | CmaSetId string
  | CmaCloseChannel
  | CmaCompletionRead nat tp_error
  | CmaDescriptorRead nat "32 word" addr tp_error
  | CmaCopied nat tp_error
  | CmaWritten tp_error

fun cma_step :: "cma_event \<Rightarrow> cma_channel \<Rightarrow> cma_channel result" where
  "cma_step (CmaSend buffer len cb) ch = chan_sendFromLoop cma_sendImplFromLoop buffer len cb ch"
| "cma_step (CmaRecv buffer len cb) ch = chan_recvFromLoop cma_recvImplFromLoop buffer len cb ch"
| "cma_step (CmaSetId i) ch = Inr (chan_setIdFromLoop i ch)"
| "cma_step CmaCloseChannel ch = chan_closeFromLoop cma_handleErrorImpl ch"
| "cma_step (CmaCompletionRead sn e) ch =
     entryPointFromLoop (chan_setError cma_handleErrorImpl) e (cma_onCompletionRead sn) ch"
| "cma_step (CmaDescriptorRead sn pid remote e) ch =
     entryPointFromLoop (chan_setError cma_handleErrorImpl) e (cma_onDescriptorRead sn pid remote) ch"
| "cma_step (CmaCopied sn e) ch =
     entryPointFromLoop (chan_setError cma_handleErrorImpl) e (cma_onCopied sn) ch"
| "cma_step (CmaWritten e) ch =
     entryPointFromLoop (chan_setError cma_handleErrorImpl) e cma_onWritten ch"

text \<open>
  Callbacks that carry an iterator arrive once per started operation. The callbacks of the
  writes may arrive at any time: they carry no iterator.
\<close>

definition cma_awaiting_completion :: "cma_send_op \<Rightarrow> bool" where
  "cma_awaiting_completion op \<longleftrightarrow>
     state op = CmaSend_READING_COMPLETION \<and> \<not> cs_doneReadingCompletion op"

definition cma_reading_descriptor :: "cma_recv_op \<Rightarrow> bool" where
  "cma_reading_descriptor op \<longleftrightarrow>
     state op = CmaRecv_READING_DESCRIPTOR \<and> \<not> cr_doneReadingDescriptor op"

definition cma_copying :: "cma_recv_op \<Rightarrow> bool" where
  "cma_copying op \<longleftrightarrow> state op = CmaRecv_COPYING \<and> \<not> cr_doneCopying op"

definition cma_receiving :: "cma_recv_op \<Rightarrow> bool" where
  "cma_receiving op \<longleftrightarrow> cma_reading_descriptor op \<or> cma_copying op"

fun cma_enabled :: "cma_event \<Rightarrow> cma_channel \<Rightarrow> bool" where
  "cma_enabled (CmaCompletionRead sn e) ch \<longleftrightarrow>
     list_ex (\<lambda>op. sequenceNumber op = sn \<and> cma_awaiting_completion op) (sendOps ch)"
| "cma_enabled (CmaDescriptorRead sn pid remote e) ch \<longleftrightarrow>
     list_ex (\<lambda>op. sequenceNumber op = sn \<and> cma_reading_descriptor op) (recvOps ch)"
| "cma_enabled (CmaCopied sn e) ch \<longleftrightarrow>
     list_ex (\<lambda>op. sequenceNumber op = sn \<and> cma_copying op) (recvOps ch)"
| "cma_enabled _ ch \<longleftrightarrow> True"

inductive cma_trace :: "cma_event list \<Rightarrow> cma_channel \<Rightarrow> bool" where
  cma_created: "chan_initFromLoop closed cma_initImplFromLoop (cma_init pid i) = Inr ch \<Longrightarrow> cma_trace [] ch"
| cma_stepped: "cma_trace evs ch \<Longrightarrow> cma_enabled ev ch \<Longrightarrow> cma_step ev ch = Inr ch' \<Longrightarrow>
     cma_trace (evs @ [ev]) ch'"

section \<open>The tables meet the contract\<close>

definition cma_send_ok :: "tp_error \<Rightarrow> cma_send_op \<Rightarrow> bool" where
  "cma_send_ok e op \<longleftrightarrow> (op_callback op = None \<longleftrightarrow> state op = CmaSend_FINISHED)"

definition cma_recv_ok :: "tp_error \<Rightarrow> cma_recv_op \<Rightarrow> bool" where
  "cma_recv_ok e op \<longleftrightarrow> (op_callback op = None \<longleftrightarrow> state op = CmaRecv_FINISHED) \<and>
     (\<not> is_error e \<and> cr_doneReadingDescriptor op \<longrightarrow> cr_remotePid op \<noteq> None \<and> cr_remotePtr op \<noteq> None)"

lemmas cma_action_defs =
  cma_writeDescriptor_def cma_readCompletion_def cma_callSendCallback_def cma_readDescriptor_def
  cma_copy_def cma_callRecvCallback_def cma_writeCompletion_def
  call_send_callback_def call_recv_callback_def owes_send_def owes_recv_def

lemmas cma_table_defs =
  cma_advanceSendOperation_def cma_advanceRecvOperation_def cma_send_ok_def cma_recv_ok_def
  cma_awaiting_completion_def cma_receiving_def cma_reading_descriptor_def cma_copying_def

lemma cma_finished_top: "s \<le> CmaSend_FINISHED" "r \<le> CmaRecv_FINISHED"
  by (cases s; simp) (cases r; simp)

lemma cma_send_front:
  "stable cma_advanceSendOperation op CmaSend_FINISHED c \<Longrightarrow> state op \<noteq> CmaSend_FINISHED \<Longrightarrow>
     cma_awaiting_completion op"
  by (cases "state op") (auto simp: stable_def cma_table_defs)

lemma cma_recv_front:
  "stable cma_advanceRecvOperation op CmaRecv_FINISHED c \<Longrightarrow> state op \<noteq> CmaRecv_FINISHED \<Longrightarrow>
     cma_receiving op"
  by (cases "state op") (auto simp: stable_def cma_table_defs)

interpretation cma: prompt_channel
  CmaSend_FINISHED cma_advanceSendOperation cma_send_ok cma_awaiting_completion owes_send
  CmaRecv_FINISHED cma_advanceRecvOperation cma_recv_ok cma_receiving owes_recv
  chan_error
  by (unfold_locales; (intro cma_finished_top | erule (1) cma_send_front cma_recv_front
      | auto simp: cma_table_defs cma_action_defs stable_def dest: core_frameD(1) split: option.splits))

section \<open>Properties\<close>

lemma cma_handler_shape:
  "cma_handleErrorImpl ch =
     bindR (advance_both CmaSend_FINISHED cma_advanceSendOperation
              CmaRecv_FINISHED cma_advanceRecvOperation ch)
       (\<lambda>ch'. Inr (ch'\<lparr>core := log_effects
          [Lower CmaCloseDescriptorConnection, Lower CmaCloseCompletionConnection, UnenrollChannel]
          (core ch')\<rparr>))"
  by (simp add: cma_handleErrorImpl_def)

abbreviation cma_inv :: "cma_channel \<Rightarrow> bool" where
  "cma_inv \<equiv> chan_inv CmaSend_FINISHED cma_advanceSendOperation cma_send_ok
     CmaRecv_FINISHED cma_advanceRecvOperation cma_recv_ok chan_error"

fun cma_requested :: "cma_event \<Rightarrow> (nat + nat) multiset" where
  "cma_requested (CmaSend buffer len cb) = {#Inl cb#}"
| "cma_requested (CmaRecv buffer len cb) = {#Inr cb#}"
| "cma_requested _ = {#}"

lemma cma_setDescriptor_simps [simp]:
  "sequenceNumber (cma_setDescriptor pid remote e op) = sequenceNumber op"
  "state (cma_setDescriptor pid remote e op) = state op"
  "owes_recv (cma_setDescriptor pid remote e op) = owes_recv op"
  "cma_recv_ok e op \<Longrightarrow> cma_recv_ok e (cma_setDescriptor pid remote e op)"
  by (simp_all add: cma_setDescriptor_def Let_def owes_recv_def cma_recv_ok_def)

lemma cma_callback_inv:
  assumes "cma_inv ch"
  shows "list_ex (\<lambda>op. sequenceNumber op = sn \<and> cma_awaiting_completion op) (sendOps ch) \<Longrightarrow>
      \<exists>ch'. entryPointFromLoop (chan_setError cma_handleErrorImpl) e (cma_onCompletionRead sn) ch = Inr ch' \<and>
        cma_inv ch' \<and> accounted owes_send owes_recv ch' = accounted owes_send owes_recv ch"
    and "list_ex (\<lambda>op. sequenceNumber op = sn \<and> cma_reading_descriptor op) (recvOps ch) \<Longrightarrow>
      \<exists>ch'. entryPointFromLoop (chan_setError cma_handleErrorImpl) e (cma_onDescriptorRead sn pid remote) ch = Inr ch' \<and>
        cma_inv ch' \<and> accounted owes_send owes_recv ch' = accounted owes_send owes_recv ch"
    and "list_ex (\<lambda>op. sequenceNumber op = sn \<and> cma_copying op) (recvOps ch) \<Longrightarrow>
      \<exists>ch'. entryPointFromLoop (chan_setError cma_handleErrorImpl) e (cma_onCopied sn) ch = Inr ch' \<and>
        cma_inv ch' \<and> accounted owes_send owes_recv ch' = accounted owes_send owes_recv ch"
proof -
  assume "list_ex (\<lambda>op. sequenceNumber op = sn \<and> cma_awaiting_completion op) (sendOps ch)"
  then obtain op where op: "op \<in> set (sendOps ch)" "sequenceNumber op = sn" "cma_awaiting_completion op"
    by (auto simp: list_ex_iff)
  show "\<exists>ch'. entryPointFromLoop (chan_setError cma_handleErrorImpl) e (cma_onCompletionRead sn) ch = Inr ch' \<and>
      cma_inv ch' \<and> accounted owes_send owes_recv ch' = accounted owes_send owes_recv ch"
    by (rule cma.send_callback_inv [where f = "\<lambda>_ op. op\<lparr>cs_doneReadingCompletion := True\<rparr>",
          OF assms cma_handler_shape _ op])
      (auto simp: cma_onCompletionRead_def cma_send_ok_def owes_send_def)
next
  assume "list_ex (\<lambda>op. sequenceNumber op = sn \<and> cma_reading_descriptor op) (recvOps ch)"
  then obtain op where op: "op \<in> set (recvOps ch)" "sequenceNumber op = sn" "cma_receiving op"
    by (auto simp: list_ex_iff cma_receiving_def)
  show "\<exists>ch'. entryPointFromLoop (chan_setError cma_handleErrorImpl) e (cma_onDescriptorRead sn pid remote) ch = Inr ch' \<and>
      cma_inv ch' \<and> accounted owes_send owes_recv ch' = accounted owes_send owes_recv ch"
    by (rule cma.recv_callback_inv [where f = "cma_setDescriptor pid remote", OF assms cma_handler_shape _ op])
      (auto simp: cma_onDescriptorRead_def)
next
  assume "list_ex (\<lambda>op. sequenceNumber op = sn \<and> cma_copying op) (recvOps ch)"
  then obtain op where op: "op \<in> set (recvOps ch)" "sequenceNumber op = sn" "cma_receiving op"
    by (auto simp: list_ex_iff cma_receiving_def)
  show "\<exists>ch'. entryPointFromLoop (chan_setError cma_handleErrorImpl) e (cma_onCopied sn) ch = Inr ch' \<and>
      cma_inv ch' \<and> accounted owes_send owes_recv ch' = accounted owes_send owes_recv ch"
    by (rule cma.recv_callback_inv [where f = "\<lambda>_ op. op\<lparr>cr_doneCopying := True\<rparr>",
          OF assms cma_handler_shape _ op])
      (auto simp: cma_onCopied_def cma_recv_ok_def owes_recv_def)
qed

lemma cma_step_inv:
  assumes "cma_inv ch" and "cma_enabled ev ch"
  shows "\<exists>ch'. cma_step ev ch = Inr ch' \<and> cma_inv ch' \<and>
    accounted owes_send owes_recv ch' = accounted owes_send owes_recv ch + cma_requested ev"
proof (cases ev)
  case (CmaSend buffer len cb)
  show ?thesis unfolding CmaSend cma_step.simps cma_requested.simps
    by (rule cma.sendFromLoop_inv [OF assms(1)])
      (auto simp: cma_sendImplFromLoop_def cma_send_ok_def owes_send_def)
next
  case (CmaRecv buffer len cb)
  show ?thesis unfolding CmaRecv cma_step.simps cma_requested.simps
    by (rule cma.recvFromLoop_inv [OF assms(1)])
      (auto simp: cma_recvImplFromLoop_def cma_recv_ok_def owes_recv_def)
next
  case (CmaSetId i)
  then show ?thesis using cma.setIdFromLoop_inv [OF assms(1)] by simp
next
  case CmaCloseChannel
  then show ?thesis
    using cma.setError_inv [OF assms(1) cma_handler_shape, of ChannelClosedError]
    by (auto simp: chan_closeFromLoop_def)
next
  case (CmaWritten e)
  then show ?thesis
    using cma.setError_inv [OF assms(1) cma_handler_shape, of e]
    by (auto simp: entryPointFromLoop_def cma_onWritten_def)
qed (use assms cma_callback_inv in simp_all)

lemma cma_created_inv:
  assumes "chan_initFromLoop closed cma_initImplFromLoop (cma_init pid i) = Inr ch"
  shows "cma_inv ch" and "accounted owes_send owes_recv ch = {#}"
  using assms
  by (auto simp: chan_initFromLoop_def cma_initImplFromLoop_def cma_init_def chan_init_core_def chan_core.defs cma_core.defs
      chan_inv_def machine_ok_def contiguous_def ends_at_def accounted_def called_def log_effects_def
      split: if_splits)

lemma cma_trace_inv:
  "cma_trace evs ch \<Longrightarrow>
     cma_inv ch \<and> accounted owes_send owes_recv ch = sum_list (map cma_requested evs)"
proof (induction rule: cma_trace.induct)
  case (cma_created closed pid i ch)
  then show ?case using cma_created_inv by simp
next
  case (cma_stepped evs ch ev ch')
  then show ?case using cma_step_inv [of ch ev] by auto
qed

text \<open>A channel that receives five bytes: it waits for the copy, and then is done.\<close>

definition cma_copy_pending :: cma_channel where
  "cma_copy_pending =
     \<lparr>core = \<lparr>chan_id = ''c'', chan_error = Success, nextTensorBeingSent = 0, nextTensorBeingReceived = 1,
        chan_log = [EnrollChannel, Lower (CmaReadDescriptor 0), Lower (CmaRequestCopy 0 43 900 100 5)], cma_getpid = 42\<rparr>,
      sendOps = [],
      recvOps = [\<lparr>sequenceNumber = 0, state = CmaRecv_COPYING, op_ptr = 100, op_length = 5,
        op_callback = Some 7, cr_doneReadingDescriptor = True, cr_doneCopying = False,
        cr_remotePid = Some 43, cr_remotePtr = Some 900\<rparr>]\<rparr>"

definition cma_done :: cma_channel where
  "cma_done =
     \<lparr>core = \<lparr>chan_id = ''c'', chan_error = Success, nextTensorBeingSent = 0, nextTensorBeingReceived = 1,
        chan_log = [EnrollChannel, Lower (CmaReadDescriptor 0), Lower (CmaRequestCopy 0 43 900 100 5),
          RecvCallback 7 Success, Lower (CmaWriteCompletion 0)], cma_getpid = 42\<rparr>,
      sendOps = [], recvOps = []\<rparr>"

lemma cma_copy_pending_trace: "cma_trace [CmaRecv 100 5 7, CmaDescriptorRead 0 43 900 Success] cma_copy_pending"
proof -
  let ?ch0 = "\<lparr>core = log_effects [EnrollChannel] (chan_core.extend (chan_init_core ''c'') \<lparr>cma_getpid = 42\<rparr>), sendOps = [], recvOps = []\<rparr>"
  have "cma_trace [] ?ch0"
    by (rule cma_created [of False 42 "''c''"])
      (simp add: chan_initFromLoop_def cma_initImplFromLoop_def cma_init_def)
  moreover have "cma_enabled (CmaRecv 100 5 7) ?ch0" by code_simp
  moreover have "cma_step (CmaRecv 100 5 7) ?ch0 = Inr (
      \<lparr>core = \<lparr>chan_id = ''c'', chan_error = Success, nextTensorBeingSent = 0, nextTensorBeingReceived = 1,
         chan_log = [EnrollChannel, Lower (CmaReadDescriptor 0)], cma_getpid = 42\<rparr>,
       sendOps = [],
       recvOps = [\<lparr>sequenceNumber = 0, state = CmaRecv_READING_DESCRIPTOR, op_ptr = 100, op_length = 5,
         op_callback = Some 7, cr_doneReadingDescriptor = False, cr_doneCopying = False,
         cr_remotePid = None, cr_remotePtr = None\<rparr>]\<rparr>)" (is "_ = Inr ?ch1") by code_simp
  ultimately have "cma_trace ([] @ [CmaRecv 100 5 7]) ?ch1" by (rule cma_stepped)
  then have "cma_trace (([] @ [CmaRecv 100 5 7]) @ [CmaDescriptorRead 0 43 900 Success]) cma_copy_pending"
    by (rule cma_stepped) code_simp+
  then show ?thesis by simp
qed

lemma cma_done_trace:
  "cma_trace [CmaRecv 100 5 7, CmaDescriptorRead 0 43 900 Success, CmaCopied 0 Success] cma_done"
proof -
  have "cma_trace ([CmaRecv 100 5 7, CmaDescriptorRead 0 43 900 Success] @ [CmaCopied 0 Success]) cma_done"
    using cma_copy_pending_trace by (rule cma_stepped) code_simp+
  then show ?thesis by simp
qed

lemma cma_channel_no_fault:
  assumes "cma_trace evs ch" and "cma_enabled ev ch"
  shows "\<exists>ch'. cma_step ev ch = Inr ch'"
  using cma_step_inv [OF conjunct1 [OF cma_trace_inv [OF assms(1)]] assms(2)] by blast

lemma cma_channel_callbacks_once:
  assumes "cma_trace evs ch"
    and "\<not> list_ex cma_awaiting_completion (sendOps ch)" and "\<not> list_ex cma_receiving (recvOps ch)"
  shows "called (core ch) = sum_list (map cma_requested evs) \<and> sendOps ch = [] \<and> recvOps ch = []"
proof -
  have inv: "cma_inv ch" and acc: "accounted owes_send owes_recv ch = sum_list (map cma_requested evs)"
    using cma_trace_inv [OF assms(1)] by auto
  then show ?thesis using cma.idle_drained [OF inv] assms(2,3) by (auto simp: list_ex_iff)
qed



end
