(* ===== verification/Mpt_Channel.thy ===== *)
theory Mpt_Channel
  imports Channel_Boilerplate
begin

text \<open>
  The channel \<^verbatim>\<open>tensorpipe/channel/mpt\<close>, which splits each tensor over several lanes
  (transport connections). Before it can transfer anything, the listening side advertises an
  address and a registration id per lane and waits until the other side has connected all of
  them. The theory models both sides of that handshake, the operations, and the split into
  chunks, with lengths and offsets as 64-bit words.
\<close>

section \<open>State\<close>

datatype endpoint = KConnect | KListen

datatype mpt_state = Mpt_UNINITIALIZED | Mpt_CLIENT_READING_HELLO | Mpt_SERVER_ACCEPTING_LANES | Mpt_ESTABLISHED

datatype mpt_send_state = MptSend_UNINITIALIZED | MptSend_WRITING_CHUNKS | MptSend_FINISHED

datatype mpt_recv_state = MptRecv_UNINITIALIZED | MptRecv_READING_CHUNKS | MptRecv_FINISHED

fun mpt_send_pos :: "mpt_send_state \<Rightarrow> nat" where
  "mpt_send_pos MptSend_UNINITIALIZED = 0"
| "mpt_send_pos MptSend_WRITING_CHUNKS = 1"
| "mpt_send_pos MptSend_FINISHED = 2"

fun mpt_recv_pos :: "mpt_recv_state \<Rightarrow> nat" where
  "mpt_recv_pos MptRecv_UNINITIALIZED = 0"
| "mpt_recv_pos MptRecv_READING_CHUNKS = 1"
| "mpt_recv_pos MptRecv_FINISHED = 2"

lemma mpt_send_pos_inj: "mpt_send_pos a = mpt_send_pos b \<Longrightarrow> a = b"
  by (cases a; cases b) simp_all

lemma mpt_recv_pos_inj: "mpt_recv_pos a = mpt_recv_pos b \<Longrightarrow> a = b"
  by (cases a; cases b) simp_all

instantiation mpt_send_state :: linorder
begin

definition less_eq_mpt_send_state :: "mpt_send_state \<Rightarrow> mpt_send_state \<Rightarrow> bool" where
  "less_eq_mpt_send_state a b \<longleftrightarrow> mpt_send_pos a \<le> mpt_send_pos b"

definition less_mpt_send_state :: "mpt_send_state \<Rightarrow> mpt_send_state \<Rightarrow> bool" where
  "less_mpt_send_state a b \<longleftrightarrow> mpt_send_pos a < mpt_send_pos b"

instance
  by standard (auto simp: less_eq_mpt_send_state_def less_mpt_send_state_def dest: mpt_send_pos_inj)

end

instantiation mpt_recv_state :: linorder
begin

definition less_eq_mpt_recv_state :: "mpt_recv_state \<Rightarrow> mpt_recv_state \<Rightarrow> bool" where
  "less_eq_mpt_recv_state a b \<longleftrightarrow> mpt_recv_pos a \<le> mpt_recv_pos b"

definition less_mpt_recv_state :: "mpt_recv_state \<Rightarrow> mpt_recv_state \<Rightarrow> bool" where
  "less_mpt_recv_state a b \<longleftrightarrow> mpt_recv_pos a < mpt_recv_pos b"

instance
  by standard (auto simp: less_eq_mpt_recv_state_def less_mpt_recv_state_def dest: mpt_recv_pos_inj)

end

lemmas mpt_state_order [simp] =
  less_eq_mpt_send_state_def less_mpt_send_state_def
  less_eq_mpt_recv_state_def less_mpt_recv_state_def

record mpt_send_op = "mpt_send_state data_op" +
  ms_numChunksBeingWritten :: int

record mpt_recv_op = "mpt_recv_state data_op" +
  mr_numChunksBeingRead :: int

text \<open>Packets of the handshake: an advertisement is an address and a registration id.\<close>

datatype mpt_packet = MptServerHello "(string \<times> 64 word) list" | MptClientHello "64 word"

text \<open>A lane is a connection made by \<^verbatim>\<open>ContextImpl::connect\<close> or one that was accepted.\<close>

datatype mpt_lane = MptConnected nat string | MptAccepted nat

datatype mpt_call =
    MptReadPacket
  | MptWritePacket mpt_packet
  | MptRegisterConnectionRequest nat "64 word"
  | MptUnregisterConnectionRequest "64 word"
  | MptConnect nat string
  | MptWriteLanePacket nat mpt_packet
  | MptWriteChunk nat nat addr bytes_len
  | MptReadChunk nat nat addr bytes_len
  | MptCloseConnection
  | MptCloseLane nat

record mpt_core = "mpt_call chan_core" +
  mpt_endpoint :: endpoint
  mpt_state :: mpt_state
  mpt_numLanes :: nat
  mpt_numLanesBeingAccepted :: "64 word"
  mpt_lanes :: "mpt_lane option list"
  mpt_laneRegistrationIds :: "(nat \<times> 64 word) list"

type_synonym mpt_channel = "(mpt_core, mpt_send_op, mpt_recv_op) channel"

section \<open>Actions\<close>

text \<open>The cut points of a buffer of \<open>len\<close> bytes over \<open>n\<close> lanes.\<close>

definition mpt_offset :: "bytes_len \<Rightarrow> nat \<Rightarrow> nat \<Rightarrow> 64 word" where
  "mpt_offset len n i = len * of_nat i div of_nat n"

fun mpt_write_lanes :: "nat list \<Rightarrow> mpt_send_op \<Rightarrow> mpt_core \<Rightarrow> (mpt_send_op \<times> mpt_core) result" where
  "mpt_write_lanes [] op c = Inr (op, c)"
| "mpt_write_lanes (i # is) op c =
     (let n = length (mpt_lanes c);
          offsetStart = mpt_offset (op_length op) n i;
          offsetEnd = mpt_offset (op_length op) n (i + 1);
          ptr = op_ptr op + offsetStart;
          len = offsetEnd - offsetStart
      in case mpt_lanes c ! i of
           None \<Rightarrow> Inl NullDereference
         | Some lane \<Rightarrow>
             mpt_write_lanes is (op\<lparr>ms_numChunksBeingWritten := ms_numChunksBeingWritten op + 1\<rparr>)
               (log_effects [Lower (MptWriteChunk (sequenceNumber op) i ptr len)] c))"

definition mpt_writeChunks :: "mpt_send_op \<Rightarrow> mpt_core \<Rightarrow> (mpt_send_op \<times> mpt_core) result" where
  "mpt_writeChunks op c = mpt_write_lanes [0..<length (mpt_lanes c)] op c"

definition mpt_callSendCallback :: "mpt_send_op \<Rightarrow> mpt_core \<Rightarrow> (mpt_send_op \<times> mpt_core) result" where
  "mpt_callSendCallback op c = call_send_callback op c"

fun mpt_read_lanes :: "nat list \<Rightarrow> mpt_recv_op \<Rightarrow> mpt_core \<Rightarrow> (mpt_recv_op \<times> mpt_core) result" where
  "mpt_read_lanes [] op c = Inr (op, c)"
| "mpt_read_lanes (i # is) op c =
     (let n = length (mpt_lanes c);
          offsetStart = mpt_offset (op_length op) n i;
          offsetEnd = mpt_offset (op_length op) n (i + 1);
          ptr = op_ptr op + offsetStart;
          len = offsetEnd - offsetStart
      in case mpt_lanes c ! i of
           None \<Rightarrow> Inl NullDereference
         | Some lane \<Rightarrow>
             mpt_read_lanes is (op\<lparr>mr_numChunksBeingRead := mr_numChunksBeingRead op + 1\<rparr>)
               (log_effects [Lower (MptReadChunk (sequenceNumber op) i ptr len)] c))"

definition mpt_readChunks :: "mpt_recv_op \<Rightarrow> mpt_core \<Rightarrow> (mpt_recv_op \<times> mpt_core) result" where
  "mpt_readChunks op c = mpt_read_lanes [0..<length (mpt_lanes c)] op c"

definition mpt_callRecvCallback :: "mpt_recv_op \<Rightarrow> mpt_core \<Rightarrow> (mpt_recv_op \<times> mpt_core) result" where
  "mpt_callRecvCallback op c = call_recv_callback op c"

section \<open>Transitions\<close>

type_synonym mpt_send_table =
  "(mpt_send_state, unit mpt_send_op_ext data_op_ext, mpt_core) transition list"
type_synonym mpt_recv_table =
  "(mpt_recv_state, unit mpt_recv_op_ext data_op_ext, mpt_core) transition list"

definition mpt_advanceSendOperation :: mpt_send_table where
  "mpt_advanceSendOperation =
    [Transition MptSend_UNINITIALIZED MptSend_FINISHED
       (\<lambda>op prev c. is_error (chan_error c) \<or> op_length op = 0)
       [mpt_callSendCallback],
     Transition MptSend_UNINITIALIZED MptSend_WRITING_CHUNKS
       (\<lambda>op prev c. \<not> is_error (chan_error c) \<and> mpt_state c = Mpt_ESTABLISHED \<and>
          prev \<ge> MptSend_WRITING_CHUNKS)
       [mpt_writeChunks],
     Transition MptSend_WRITING_CHUNKS MptSend_FINISHED
       (\<lambda>op prev c. ms_numChunksBeingWritten op = 0)
       [mpt_callSendCallback]]"

definition mpt_advanceRecvOperation :: mpt_recv_table where
  "mpt_advanceRecvOperation =
    [Transition MptRecv_UNINITIALIZED MptRecv_FINISHED
       (\<lambda>op prev c. is_error (chan_error c) \<or> op_length op = 0)
       [mpt_callRecvCallback],
     Transition MptRecv_UNINITIALIZED MptRecv_READING_CHUNKS
       (\<lambda>op prev c. \<not> is_error (chan_error c) \<and> mpt_state c = Mpt_ESTABLISHED \<and>
          prev \<ge> MptRecv_READING_CHUNKS)
       [mpt_readChunks],
     Transition MptRecv_READING_CHUNKS MptRecv_FINISHED
       (\<lambda>op prev c. mr_numChunksBeingRead op = 0)
       [mpt_callRecvCallback]]"

section \<open>Handlers\<close>

definition mpt_init :: "string \<Rightarrow> endpoint \<Rightarrow> nat \<Rightarrow> mpt_channel" where
  "mpt_init i ep numLanes =
     \<lparr>core = chan_core.extend (chan_init_core i)
        \<lparr>mpt_endpoint = ep, mpt_state = Mpt_UNINITIALIZED, mpt_numLanes = numLanes,
         mpt_numLanesBeingAccepted = 0, mpt_lanes = replicate numLanes None,
         mpt_laneRegistrationIds = []\<rparr>,
      sendOps = [], recvOps = []\<rparr>"

text \<open>
  The loop that registers a connection request per lane. The context numbers registrations
  consecutively, from its counter when the loop starts.
\<close>

fun mpt_register_lanes :: "nat list \<Rightarrow> 64 word \<Rightarrow> mpt_core \<Rightarrow> mpt_core" where
  "mpt_register_lanes [] token c = c"
| "mpt_register_lanes (i # is) token c =
     mpt_register_lanes is (token + 1)
       (log_effects [Lower (MptRegisterConnectionRequest i token)]
         (c\<lparr>mpt_laneRegistrationIds := mpt_laneRegistrationIds c @ [(i, token)],
            mpt_numLanesBeingAccepted := mpt_numLanesBeingAccepted c + 1\<rparr>))"

definition mpt_initImplFromLoop :: "string list \<Rightarrow> 64 word \<Rightarrow> mpt_channel \<Rightarrow> mpt_channel result" where
  "mpt_initImplFromLoop addresses token ch =
     (let c0 = log_effects [EnrollChannel] (core ch)
      in dcheck (mpt_state c0 = Mpt_UNINITIALIZED)
           (case mpt_endpoint c0 of
              KConnect \<Rightarrow>
                Inr (ch\<lparr>core := log_effects [Lower MptReadPacket]
                  (c0\<lparr>mpt_state := Mpt_CLIENT_READING_HELLO\<rparr>)\<rparr>)
            | KListen \<Rightarrow>
                let c1 = c0\<lparr>mpt_state := Mpt_SERVER_ACCEPTING_LANES\<rparr>
                in dcheck (length addresses = mpt_numLanes c1)
                     (let c2 = mpt_register_lanes [0..<mpt_numLanes c1] token c1;
                          hello = MptServerHello
                            (map (\<lambda>i. (addresses ! i, token + of_nat i)) [0..<mpt_numLanes c1])
                      in Inr (ch\<lparr>core := log_effects [Lower (MptWritePacket hello)] c2\<rparr>))))"

definition mpt_advance_both :: "mpt_channel \<Rightarrow> mpt_channel result" where
  "mpt_advance_both =
     advance_both MptSend_FINISHED mpt_advanceSendOperation MptRecv_FINISHED mpt_advanceRecvOperation"

fun mpt_connect_lanes :: "(nat \<times> string \<times> 64 word) list \<Rightarrow> mpt_core \<Rightarrow> mpt_core" where
  "mpt_connect_lanes [] c = c"
| "mpt_connect_lanes ((i, address, registrationId) # ads) c =
     mpt_connect_lanes ads
       (log_effects [Lower (MptConnect i address), Lower (MptWriteLanePacket i (MptClientHello registrationId))]
         (c\<lparr>mpt_lanes := (mpt_lanes c)[i := Some (MptConnected i address)]\<rparr>))"

definition mpt_onClientReadHelloOnConnection :: "mpt_packet \<Rightarrow> mpt_channel \<Rightarrow> mpt_channel result" where
  "mpt_onClientReadHelloOnConnection nopPacketIn ch =
     dcheck (mpt_state (core ch) = Mpt_CLIENT_READING_HELLO)
       (case nopPacketIn of
          MptClientHello registrationId \<Rightarrow> Inl DCheckFailed
        | MptServerHello ads \<Rightarrow>
            dcheck (length ads = mpt_numLanes (core ch))
              (let c1 = mpt_connect_lanes (zip [0..<mpt_numLanes (core ch)] ads) (core ch)
               in mpt_advance_both (ch\<lparr>core := c1\<lparr>mpt_state := Mpt_ESTABLISHED\<rparr>\<rparr>)))"

definition mpt_onServerAcceptOfLane :: "nat \<Rightarrow> nat \<Rightarrow> mpt_channel \<Rightarrow> mpt_channel result" where
  "mpt_onServerAcceptOfLane laneIdx connection ch =
     dcheck (mpt_state (core ch) = Mpt_SERVER_ACCEPTING_LANES)
       (if laneIdx \<ge> length (mpt_lanes (core ch)) then Inl OutOfRange
        else dcheck (mpt_lanes (core ch) ! laneIdx = None)
          (let c1 = (core ch)\<lparr>mpt_lanes := (mpt_lanes (core ch))[laneIdx := Some (MptAccepted connection)]\<rparr>
           in case map_of (mpt_laneRegistrationIds c1) laneIdx of
                None \<Rightarrow> Inl DCheckFailed
              | Some token \<Rightarrow>
                  let c2 = log_effects [Lower (MptUnregisterConnectionRequest token)]
                        (c1\<lparr>mpt_laneRegistrationIds :=
                               filter (\<lambda>(l, t). l \<noteq> laneIdx) (mpt_laneRegistrationIds c1),
                            mpt_numLanesBeingAccepted := mpt_numLanesBeingAccepted c1 - 1\<rparr>)
                  in if mpt_numLanesBeingAccepted c2 = 0
                     then mpt_advance_both (ch\<lparr>core := c2\<lparr>mpt_state := Mpt_ESTABLISHED\<rparr>\<rparr>)
                     else Inr (ch\<lparr>core := c2\<rparr>)))"

definition mpt_sendImplFromLoop ::
  "nat \<Rightarrow> addr \<Rightarrow> bytes_len \<Rightarrow> nat \<Rightarrow> mpt_channel \<Rightarrow> mpt_channel result" where
  "mpt_sendImplFromLoop sn buffer len callback =
     send_start MptSend_FINISHED mpt_advanceSendOperation
       \<lparr>sequenceNumber = 0, state = MptSend_UNINITIALIZED, op_ptr = buffer, op_length = len,
        op_callback = Some callback, ms_numChunksBeingWritten = 0\<rparr> sn"

definition mpt_recvImplFromLoop ::
  "nat \<Rightarrow> addr \<Rightarrow> bytes_len \<Rightarrow> nat \<Rightarrow> mpt_channel \<Rightarrow> mpt_channel result" where
  "mpt_recvImplFromLoop sn buffer len callback =
     recv_start MptRecv_FINISHED mpt_advanceRecvOperation
       \<lparr>sequenceNumber = 0, state = MptRecv_UNINITIALIZED, op_ptr = buffer, op_length = len,
        op_callback = Some callback, mr_numChunksBeingRead = 0\<rparr> sn"

definition mpt_close_effects :: "mpt_core \<Rightarrow> mpt_call chan_effect list" where
  "mpt_close_effects c =
     Lower MptCloseConnection #
     map (\<lambda>i. Lower (MptCloseLane i)) (filter (\<lambda>i. mpt_lanes c ! i \<noteq> None) [0..<length (mpt_lanes c)]) @
     map (\<lambda>(l, token). Lower (MptUnregisterConnectionRequest token)) (mpt_laneRegistrationIds c) @
     [UnenrollChannel]"

definition mpt_handleErrorImpl :: "mpt_channel \<Rightarrow> mpt_channel result" where
  "mpt_handleErrorImpl ch =
     bindR (mpt_advance_both ch)
       (\<lambda>ch'. Inr (ch'\<lparr>core := log_effects (mpt_close_effects (core ch')) (core ch')\<rparr>))"

definition mpt_onChunkWritten :: "nat \<Rightarrow> mpt_channel \<Rightarrow> mpt_channel result" where
  "mpt_onChunkWritten sn =
     send_resume MptSend_FINISHED mpt_advanceSendOperation sn
       (\<lambda>op. op\<lparr>ms_numChunksBeingWritten := ms_numChunksBeingWritten op - 1\<rparr>)"

definition mpt_onChunkRead :: "nat \<Rightarrow> mpt_channel \<Rightarrow> mpt_channel result" where
  "mpt_onChunkRead sn =
     recv_resume MptRecv_FINISHED mpt_advanceRecvOperation sn
       (\<lambda>op. op\<lparr>mr_numChunksBeingRead := mr_numChunksBeingRead op - 1\<rparr>)"

definition mpt_unless_error ::
  "(mpt_channel \<Rightarrow> mpt_channel result) \<Rightarrow> mpt_channel \<Rightarrow> mpt_channel result" where
  "mpt_unless_error fn ch = (if \<not> is_error (chan_error (core ch)) then fn ch else Inr ch)"

section \<open>Events\<close>

datatype mpt_event =
    MptSend addr bytes_len nat
  | MptRecv addr bytes_len nat
  | MptSetId string
  | MptCloseChannel
  | MptServerHelloRead mpt_packet tp_error
  | MptLaneRequestDone nat nat tp_error
  | MptChunkWritten nat tp_error
  | MptChunkRead nat tp_error
  | MptPacketWritten tp_error

fun mpt_step :: "mpt_event \<Rightarrow> mpt_channel \<Rightarrow> mpt_channel result" where
  "mpt_step (MptSend buffer len cb) ch = chan_sendFromLoop mpt_sendImplFromLoop buffer len cb ch"
| "mpt_step (MptRecv buffer len cb) ch = chan_recvFromLoop mpt_recvImplFromLoop buffer len cb ch"
| "mpt_step (MptSetId i) ch = Inr (chan_setIdFromLoop i ch)"
| "mpt_step MptCloseChannel ch = chan_closeFromLoop mpt_handleErrorImpl ch"
| "mpt_step (MptServerHelloRead packet e) ch =
     entryPointFromLoop (chan_setError mpt_handleErrorImpl) e
       (mpt_unless_error (mpt_onClientReadHelloOnConnection packet)) ch"
| "mpt_step (MptLaneRequestDone laneIdx connection e) ch =
     entryPointFromLoop (chan_setError mpt_handleErrorImpl) e
       (mpt_unless_error (mpt_onServerAcceptOfLane laneIdx connection)) ch"
| "mpt_step (MptChunkWritten sn e) ch =
     entryPointFromLoop (chan_setError mpt_handleErrorImpl) e (mpt_onChunkWritten sn) ch"
| "mpt_step (MptChunkRead sn e) ch =
     entryPointFromLoop (chan_setError mpt_handleErrorImpl) e (mpt_onChunkRead sn) ch"
| "mpt_step (MptPacketWritten e) ch = entryPointFromLoop (chan_setError mpt_handleErrorImpl) e Inr ch"

text \<open>
  Which callbacks can arrive: the hello once, from a peer that advertises as many lanes as
  the channel has; a lane while its request is registered; a chunk while the operation
  counts one.
\<close>

definition mpt_writing :: "mpt_send_op \<Rightarrow> bool" where
  "mpt_writing op \<longleftrightarrow> state op = MptSend_WRITING_CHUNKS \<and> ms_numChunksBeingWritten op \<noteq> 0"

definition mpt_reading :: "mpt_recv_op \<Rightarrow> bool" where
  "mpt_reading op \<longleftrightarrow> state op = MptRecv_READING_CHUNKS \<and> mr_numChunksBeingRead op \<noteq> 0"

fun mpt_enabled :: "mpt_event \<Rightarrow> mpt_channel \<Rightarrow> bool" where
  "mpt_enabled (MptServerHelloRead packet e) ch \<longleftrightarrow>
     mpt_state (core ch) = Mpt_CLIENT_READING_HELLO \<and>
     (case packet of MptServerHello ads \<Rightarrow> length ads = mpt_numLanes (core ch) | MptClientHello t \<Rightarrow> False)"
| "mpt_enabled (MptLaneRequestDone laneIdx connection e) ch \<longleftrightarrow>
     laneIdx \<in> set (map fst (mpt_laneRegistrationIds (core ch)))"
| "mpt_enabled (MptChunkWritten sn e) ch \<longleftrightarrow>
     list_ex (\<lambda>op. sequenceNumber op = sn \<and> mpt_writing op) (sendOps ch)"
| "mpt_enabled (MptChunkRead sn e) ch \<longleftrightarrow>
     list_ex (\<lambda>op. sequenceNumber op = sn \<and> mpt_reading op) (recvOps ch)"
| "mpt_enabled _ ch \<longleftrightarrow> True"

text \<open>A channel has at least one lane, and fewer than a 64-bit word can count.\<close>

inductive mpt_trace :: "mpt_event list \<Rightarrow> mpt_channel \<Rightarrow> bool" where
  mpt_created: "0 < numLanes \<Longrightarrow> numLanes < 2 ^ 64 \<Longrightarrow> length addresses = numLanes \<Longrightarrow>
     chan_initFromLoop closed (mpt_initImplFromLoop addresses token) (mpt_init i ep numLanes) = Inr ch \<Longrightarrow>
     mpt_trace [] ch"
| mpt_stepped: "mpt_trace evs ch \<Longrightarrow> mpt_enabled ev ch \<Longrightarrow> mpt_step ev ch = Inr ch' \<Longrightarrow>
     mpt_trace (evs @ [ev]) ch'"

section \<open>The tables meet the contract\<close>

text \<open>
  What the conditions and actions see of a channel, and the invariants of its operations.
  With the flag \<open>nz\<close> they also say that no tensor is empty, in which case no operation
  overtakes another before the lanes are there.
\<close>

definition mpt_view :: "mpt_core \<Rightarrow> tp_error \<times> mpt_state \<times> mpt_lane option list" where
  "mpt_view c = (chan_error c, mpt_state c, mpt_lanes c)"

definition mpt_lanes_ok :: "mpt_state \<Rightarrow> mpt_lane option list \<Rightarrow> bool" where
  "mpt_lanes_ok st lanes \<longleftrightarrow> lanes \<noteq> [] \<and> (st = Mpt_ESTABLISHED \<longrightarrow> None \<notin> set lanes)"

fun mpt_send_ok :: "bool \<Rightarrow> tp_error \<times> mpt_state \<times> mpt_lane option list \<Rightarrow> mpt_send_op \<Rightarrow> bool" where
  "mpt_send_ok nz (e, st, lanes) op \<longleftrightarrow>
     (op_callback op = None \<longleftrightarrow> state op = MptSend_FINISHED) \<and> mpt_lanes_ok st lanes \<and>
     (st \<noteq> Mpt_ESTABLISHED \<longrightarrow> state op \<noteq> MptSend_WRITING_CHUNKS) \<and>
     (state op = MptSend_UNINITIALIZED \<longrightarrow> ms_numChunksBeingWritten op = 0) \<and>
     (nz \<longrightarrow> op_length op \<noteq> 0 \<and>
        (st \<noteq> Mpt_ESTABLISHED \<and> \<not> is_error e \<longrightarrow> state op = MptSend_UNINITIALIZED))"

fun mpt_recv_ok :: "bool \<Rightarrow> tp_error \<times> mpt_state \<times> mpt_lane option list \<Rightarrow> mpt_recv_op \<Rightarrow> bool" where
  "mpt_recv_ok nz (e, st, lanes) op \<longleftrightarrow>
     (op_callback op = None \<longleftrightarrow> state op = MptRecv_FINISHED) \<and> mpt_lanes_ok st lanes \<and>
     (st \<noteq> Mpt_ESTABLISHED \<longrightarrow> state op \<noteq> MptRecv_READING_CHUNKS) \<and>
     (state op = MptRecv_UNINITIALIZED \<longrightarrow> mr_numChunksBeingRead op = 0) \<and>
     (nz \<longrightarrow> op_length op \<noteq> 0 \<and>
        (st \<noteq> Mpt_ESTABLISHED \<and> \<not> is_error e \<longrightarrow> state op = MptRecv_UNINITIALIZED))"

text \<open>The calls that the chunks of an operation make.\<close>

definition mpt_chunk :: "('s, 'm) data_op_scheme \<Rightarrow> nat \<Rightarrow> nat \<Rightarrow> addr \<times> bytes_len" where
  "mpt_chunk op n i =
     (op_ptr op + mpt_offset (op_length op) n i,
      mpt_offset (op_length op) n (i + 1) - mpt_offset (op_length op) n i)"

lemma mpt_log_simps [simp]:
  "mpt_lanes (log_effects es c) = mpt_lanes c" "mpt_state (log_effects es c) = mpt_state c"
  "mpt_view (log_effects es c) = mpt_view c"
  "mpt_numLanes (log_effects es c) = mpt_numLanes c" "mpt_endpoint (log_effects es c) = mpt_endpoint c"
  "mpt_laneRegistrationIds (log_effects es c) = mpt_laneRegistrationIds c"
  "mpt_numLanesBeingAccepted (log_effects es c) = mpt_numLanesBeingAccepted c"
  by (simp_all add: log_effects_def mpt_view_def)

lemma log_effects_append: "log_effects ys (log_effects xs c) = log_effects (xs @ ys) c"
  by (simp add: log_effects_def)

lemma mpt_write_lanes_eq:
  "\<forall>i \<in> set is. mpt_lanes c ! i \<noteq> None \<Longrightarrow>
     mpt_write_lanes is op c =
       Inr (op\<lparr>ms_numChunksBeingWritten := ms_numChunksBeingWritten op + int (length is)\<rparr>,
            log_effects (map (\<lambda>i. Lower (MptWriteChunk (sequenceNumber op) i
              (fst (mpt_chunk op (length (mpt_lanes c)) i)) (snd (mpt_chunk op (length (mpt_lanes c)) i)))) is) c)"
  by (induction "is" arbitrary: op c)
    (auto simp: Let_def mpt_chunk_def log_effects_append log_effects_def)

lemma mpt_read_lanes_eq:
  "\<forall>i \<in> set is. mpt_lanes c ! i \<noteq> None \<Longrightarrow>
     mpt_read_lanes is op c =
       Inr (op\<lparr>mr_numChunksBeingRead := mr_numChunksBeingRead op + int (length is)\<rparr>,
            log_effects (map (\<lambda>i. Lower (MptReadChunk (sequenceNumber op) i
              (fst (mpt_chunk op (length (mpt_lanes c)) i)) (snd (mpt_chunk op (length (mpt_lanes c)) i)))) is) c)"
  by (induction "is" arbitrary: op c)
    (auto simp: Let_def mpt_chunk_def log_effects_append log_effects_def)

lemma mpt_write_lanes_frame:
  "mpt_write_lanes is op c = Inr (op', c') \<Longrightarrow>
     sequenceNumber op' = sequenceNumber op \<and> state op' = state op \<and> core_frame c' = core_frame c \<and>
     owes_send op' = owes_send op \<and> called c' = called c"
  by (induction "is" arbitrary: op c) (force simp: Let_def owes_send_def split: option.splits)+

lemma mpt_read_lanes_frame:
  "mpt_read_lanes is op c = Inr (op', c') \<Longrightarrow>
     sequenceNumber op' = sequenceNumber op \<and> state op' = state op \<and> core_frame c' = core_frame c \<and>
     owes_recv op' = owes_recv op \<and> called c' = called c"
  by (induction "is" arbitrary: op c) (force simp: Let_def owes_recv_def split: option.splits)+

lemma mpt_lanes_nth: "None \<notin> set lanes \<Longrightarrow> \<forall>i \<in> set [0..<length lanes]. lanes ! i \<noteq> None"
  by (metis atLeast_upt lessThan_iff nth_mem)

lemma mpt_frame_view: "core_frame c = core_frame c' \<Longrightarrow> mpt_view c = mpt_view c'"
  unfolding mpt_view_def using core_frameD(1,5) [of c c']
  by (metis mpt_core.select_convs(2,5) mpt_core.surjective chan_core.select_convs(6) mpt_core.ext_inject)

lemma mpt_finished_top: "s \<le> MptSend_FINISHED" "r \<le> MptRecv_FINISHED"
  by (cases s; simp) (cases r; simp)

lemmas mpt_action_defs =
  mpt_callSendCallback_def mpt_callRecvCallback_def call_send_callback_def call_recv_callback_def

lemmas mpt_table_defs = mpt_advanceSendOperation_def mpt_advanceRecvOperation_def

lemma mpt_action_frame:
  "mpt_writeChunks op c = Inr (op', c') \<Longrightarrow>
     sequenceNumber op' = sequenceNumber op \<and> state op' = state op \<and> core_frame c' = core_frame c"
  "mpt_callSendCallback op c = Inr (op', c') \<Longrightarrow>
     sequenceNumber op' = sequenceNumber op \<and> state op' = state op \<and> core_frame c' = core_frame c"
  "mpt_readChunks rop c = Inr (rop', c') \<Longrightarrow>
     sequenceNumber rop' = sequenceNumber rop \<and> state rop' = state rop \<and> core_frame c' = core_frame c"
  "mpt_callRecvCallback rop c = Inr (rop', c') \<Longrightarrow>
     sequenceNumber rop' = sequenceNumber rop \<and> state rop' = state rop \<and> core_frame c' = core_frame c"
  using mpt_write_lanes_frame mpt_read_lanes_frame
  by (simp_all add: mpt_writeChunks_def mpt_readChunks_def mpt_callSendCallback_def mpt_callRecvCallback_def
      call_callback_frame)

lemma mpt_action_tok:
  "mpt_writeChunks op c = Inr (op', c') \<Longrightarrow> owes_send op' + called c' = owes_send op + called c"
  "mpt_callSendCallback op c = Inr (op', c') \<Longrightarrow> owes_send op' + called c' = owes_send op + called c"
  "mpt_readChunks rop c = Inr (rop', c') \<Longrightarrow> owes_recv rop' + called c' = owes_recv rop + called c"
  "mpt_callRecvCallback rop c = Inr (rop', c') \<Longrightarrow> owes_recv rop' + called c' = owes_recv rop + called c"
  using mpt_write_lanes_frame mpt_read_lanes_frame
  by (simp_all add: mpt_writeChunks_def mpt_readChunks_def mpt_callSendCallback_def mpt_callRecvCallback_def
      call_callback_tok)

lemma mpt_send_step_safe:
  assumes "t \<in> set mpt_advanceSendOperation" and "mpt_send_ok nz (mpt_view c) op" and "state op = tfrom t"
    and "tcond t op prev c"
  shows "\<exists>op' c'. run_actions (tactions t) op c = Inr (op', c') \<and> mpt_send_ok nz (mpt_view c) (op'\<lparr>state := tto t\<rparr>)"
  using assms mpt_lanes_nth [of "mpt_lanes c"]
  by (auto simp: mpt_table_defs mpt_action_defs mpt_view_def mpt_lanes_ok_def mpt_writeChunks_def
      mpt_write_lanes_eq split: option.splits)

lemma mpt_recv_step_safe:
  assumes "t \<in> set mpt_advanceRecvOperation" and "mpt_recv_ok nz (mpt_view c) op" and "state op = tfrom t"
    and "tcond t op prev c"
  shows "\<exists>op' c'. run_actions (tactions t) op c = Inr (op', c') \<and> mpt_recv_ok nz (mpt_view c) (op'\<lparr>state := tto t\<rparr>)"
  using assms mpt_lanes_nth [of "mpt_lanes c"]
  by (auto simp: mpt_table_defs mpt_action_defs mpt_view_def mpt_lanes_ok_def mpt_readChunks_def
      mpt_read_lanes_eq split: option.splits)

lemma mpt_ok_owes:
  "mpt_send_ok nz v op \<Longrightarrow> state op = MptSend_FINISHED \<Longrightarrow> owes_send op = {#}"
  "mpt_recv_ok nz v rop \<Longrightarrow> state rop = MptRecv_FINISHED \<Longrightarrow> owes_recv rop = {#}"
  by (cases v; simp add: owes_send_def) (cases v; simp add: owes_recv_def)

interpretation mpt: channel_machine
  MptSend_FINISHED mpt_advanceSendOperation "mpt_send_ok nz" mpt_writing owes_send
  MptRecv_FINISHED mpt_advanceRecvOperation "mpt_recv_ok nz" mpt_reading owes_recv
  mpt_view
  for nz
  by (unfold_locales; (rule mpt_finished_top | erule (1) mpt_ok_owes | erule mpt_frame_view
      | erule (3) mpt_send_step_safe | erule (3) mpt_recv_step_safe
      | auto simp: mpt_table_defs mpt_writing_def mpt_reading_def stable_def mpt_view_def
        dest: mpt_action_frame mpt_action_tok))

section \<open>Sweeps of the deques\<close>

abbreviation mpt_chan_inv :: "bool \<Rightarrow> mpt_channel \<Rightarrow> bool" where
  "mpt_chan_inv nz \<equiv> chan_inv MptSend_FINISHED mpt_advanceSendOperation (mpt_send_ok nz)
     MptRecv_FINISHED mpt_advanceRecvOperation (mpt_recv_ok nz) mpt_view"

text \<open>An operation that starts its chunks does not finish in the same sweep: there is a lane.\<close>

lemma mpt_send_first:
  assumes "state op = MptSend_UNINITIALIZED" "op_length op \<noteq> 0" "ms_numChunksBeingWritten op = 0"
    and "\<not> is_error (chan_error c)" "mpt_state c = Mpt_ESTABLISHED" "mpt_lanes_ok Mpt_ESTABLISHED (mpt_lanes c)"
  shows "\<exists>op1 c1. attempt_all mpt_advanceSendOperation op MptSend_FINISHED c = Inr (op1, c1) \<and>
    state op1 \<noteq> MptSend_FINISHED"
  using assms mpt_lanes_nth [of "mpt_lanes c"]
  by (simp add: mpt_advanceSendOperation_def attemptTransition_def mpt_writeChunks_def mpt_write_lanes_eq
      mpt_lanes_ok_def)

lemma mpt_recv_first:
  assumes "state op = MptRecv_UNINITIALIZED" "op_length op \<noteq> 0" "mr_numChunksBeingRead op = 0"
    and "\<not> is_error (chan_error c)" "mpt_state c = Mpt_ESTABLISHED" "mpt_lanes_ok Mpt_ESTABLISHED (mpt_lanes c)"
  shows "\<exists>op1 c1. attempt_all mpt_advanceRecvOperation op MptRecv_FINISHED c = Inr (op1, c1) \<and>
    state op1 \<noteq> MptRecv_FINISHED"
  using assms mpt_lanes_nth [of "mpt_lanes c"]
  by (simp add: mpt_advanceRecvOperation_def attemptTransition_def mpt_readChunks_def mpt_read_lanes_eq
      mpt_lanes_ok_def)

text \<open>
  When a sweep is full: the first operation waits for its chunks or starts them, or else no
  operation has finished yet.
\<close>

definition mpt_sweepable :: "mpt_core \<Rightarrow> mpt_core \<Rightarrow> bool" where
  "mpt_sweepable c0 c \<longleftrightarrow>
     \<not> is_error (chan_error c0) \<and>
     (mpt_state c0 = Mpt_ESTABLISHED \<or>
      \<not> is_error (chan_error c) \<and> mpt_state c = Mpt_ESTABLISHED \<and> mpt_lanes_ok Mpt_ESTABLISHED (mpt_lanes c))"

lemma mpt_send_sweep:
  assumes ok: "machine_ok MptSend_FINISHED mpt_advanceSendOperation ops c0"
    "list_all (mpt_send_ok nz (mpt_view c0)) ops"
    and sw: "mpt_sweepable c0 c \<or> (\<forall>op \<in> set ops. state op \<noteq> MptSend_FINISHED)"
  shows "advanceAllOperations MptSend_FINISHED mpt_advanceSendOperation ops c =
    settle MptSend_FINISHED mpt_advanceSendOperation ops c"
proof (cases "ops = [] \<or> (\<forall>op \<in> set ops. state op \<noteq> MptSend_FINISHED)")
  case True
  then show ?thesis
    using ok(1) mpt.send.advanceAllOperations_settle by (auto simp: machine_ok_def contiguous_iff)
next
  case False
  then obtain op rest n where ops: "ops = op # rest" and n: "seqs_from n (op # rest)"
    using ok(1) by (auto simp: machine_ok_def contiguous_iff neq_Nil_conv)
  have st: "stable mpt_advanceSendOperation op MptSend_FINISHED c0" "state op \<noteq> MptSend_FINISHED"
    and I: "mpt_send_ok nz (mpt_view c0) op" and s: "mpt_sweepable c0 c"
    using ok ops sw False by (auto simp: machine_ok_def)
  show ?thesis
  proof (cases "state op")
    case MptSend_UNINITIALIZED
    then have "op_length op \<noteq> 0" "mpt_state c0 \<noteq> Mpt_ESTABLISHED" "ms_numChunksBeingWritten op = 0"
      using st(1) s I by (auto simp: stable_def mpt_advanceSendOperation_def mpt_sweepable_def mpt_view_def)
    then show ?thesis
      using mpt_send_first [OF MptSend_UNINITIALIZED, of c] s mpt.send.advanceAllOperations_settle_first [OF n] ops
      by (auto simp: mpt_sweepable_def)
  next
    case MptSend_WRITING_CHUNKS
    then have "mpt_writing op"
      using st(1) by (auto simp: stable_def mpt_advanceSendOperation_def mpt_writing_def)
    then show ?thesis
      using mpt.send.advanceAllOperations_settle_held [OF n] mpt.send.waits_stable st(2) ops by blast
  next
    case MptSend_FINISHED
    then show ?thesis using st(2) by simp
  qed
qed

lemma mpt_recv_sweep:
  assumes ok: "machine_ok MptRecv_FINISHED mpt_advanceRecvOperation ops c0"
    "list_all (mpt_recv_ok nz (mpt_view c0)) ops"
    and sw: "mpt_sweepable c0 c \<or> (\<forall>op \<in> set ops. state op \<noteq> MptRecv_FINISHED)"
  shows "advanceAllOperations MptRecv_FINISHED mpt_advanceRecvOperation ops c =
    settle MptRecv_FINISHED mpt_advanceRecvOperation ops c"
proof (cases "ops = [] \<or> (\<forall>op \<in> set ops. state op \<noteq> MptRecv_FINISHED)")
  case True
  then show ?thesis
    using ok(1) mpt.recv.advanceAllOperations_settle by (auto simp: machine_ok_def contiguous_iff)
next
  case False
  then obtain op rest n where ops: "ops = op # rest" and n: "seqs_from n (op # rest)"
    using ok(1) by (auto simp: machine_ok_def contiguous_iff neq_Nil_conv)
  have st: "stable mpt_advanceRecvOperation op MptRecv_FINISHED c0" "state op \<noteq> MptRecv_FINISHED"
    and I: "mpt_recv_ok nz (mpt_view c0) op" and s: "mpt_sweepable c0 c"
    using ok ops sw False by (auto simp: machine_ok_def)
  show ?thesis
  proof (cases "state op")
    case MptRecv_UNINITIALIZED
    then have "op_length op \<noteq> 0" "mpt_state c0 \<noteq> Mpt_ESTABLISHED" "mr_numChunksBeingRead op = 0"
      using st(1) s I by (auto simp: stable_def mpt_advanceRecvOperation_def mpt_sweepable_def mpt_view_def)
    then show ?thesis
      using mpt_recv_first [OF MptRecv_UNINITIALIZED, of c] s mpt.recv.advanceAllOperations_settle_first [OF n] ops
      by (auto simp: mpt_sweepable_def)
  next
    case MptRecv_READING_CHUNKS
    then have "mpt_reading op"
      using st(1) by (auto simp: stable_def mpt_advanceRecvOperation_def mpt_reading_def)
    then show ?thesis
      using mpt.recv.advanceAllOperations_settle_held [OF n] mpt.recv.waits_stable st(2) ops by blast
  next
    case MptRecv_FINISHED
    then show ?thesis using st(2) by simp
  qed
qed

section \<open>The invariant\<close>

text \<open>The state of the handshake.\<close>

definition mpt_wf :: "mpt_core \<Rightarrow> bool" where
  "mpt_wf c \<longleftrightarrow>
     mpt_lanes_ok (mpt_state c) (mpt_lanes c) \<and> length (mpt_lanes c) = mpt_numLanes c \<and>
     mpt_numLanes c < 2 ^ 64 \<and>
     distinct (map fst (mpt_laneRegistrationIds c)) \<and>
     (\<forall>i \<in> fst ` set (mpt_laneRegistrationIds c). i < mpt_numLanes c \<and> mpt_lanes c ! i = None) \<and>
     (mpt_laneRegistrationIds c \<noteq> [] \<longrightarrow> mpt_state c = Mpt_SERVER_ACCEPTING_LANES) \<and>
     (mpt_state c = Mpt_SERVER_ACCEPTING_LANES \<longrightarrow>
        (\<forall>i < mpt_numLanes c. mpt_lanes c ! i = None \<longrightarrow> i \<in> fst ` set (mpt_laneRegistrationIds c)) \<and>
        mpt_numLanesBeingAccepted c = of_nat (length (mpt_laneRegistrationIds c)))"

definition mpt_inv :: "bool \<Rightarrow> mpt_channel \<Rightarrow> bool" where
  "mpt_inv nz ch \<longleftrightarrow> mpt_wf (core ch) \<and> contiguous (sendOps ch) \<and> contiguous (recvOps ch) \<and>
     list_all (mpt_send_ok nz (mpt_view (core ch))) (sendOps ch) \<and>
     list_all (mpt_recv_ok nz (mpt_view (core ch))) (recvOps ch) \<and>
     (nz \<or> \<not> is_error (chan_error (core ch)) \<or> mpt_state (core ch) = Mpt_ESTABLISHED \<longrightarrow> mpt_chan_inv nz ch)"

lemma mpt_wf_frame: "core_frame c = core_frame c' \<Longrightarrow> mpt_wf c = mpt_wf c'"
  using core_frameD(5) [of c c'] mpt_frame_view [of c c']
  by (cases c; cases c') (simp add: mpt_wf_def)

lemma mpt_wf_simps [simp]:
  "mpt_wf (log_effects es c) = mpt_wf c" "mpt_wf (c\<lparr>nextTensorBeingSent := n\<rparr>) = mpt_wf c"
  "mpt_wf (c\<lparr>nextTensorBeingReceived := n\<rparr>) = mpt_wf c" "mpt_wf (c\<lparr>chan_error := e\<rparr>) = mpt_wf c"
  "mpt_wf (c\<lparr>chan_id := i\<rparr>) = mpt_wf c"
  by (simp_all add: mpt_wf_def)

lemma mpt_inv_strong: "mpt_chan_inv nz ch \<Longrightarrow> mpt_wf (core ch) \<Longrightarrow> mpt_inv nz ch"
  by (simp add: mpt_inv_def chan_inv_def machine_ok_def)

lemma mpt_inv_frame:
  assumes "mpt_inv nz ch" and "core_frame c = core_frame (core ch)"
  shows "mpt_inv nz (ch\<lparr>core := c\<rparr>)"
  using assms mpt_frame_view [OF assms(2)] core_frameD [OF assms(2)] mpt_wf_frame [OF assms(2)]
    mpt.chan_inv_view [where ch = ch and c = c]
  by (auto simp: mpt_inv_def mpt_view_def)

lemma mpt_wf_numLanes_word:
  assumes "mpt_wf c"
  shows "length (mpt_laneRegistrationIds c) \<le> mpt_numLanes c"
proof -
  have "fst ` set (mpt_laneRegistrationIds c) \<subseteq> {..<mpt_numLanes c}" using assms by (auto simp: mpt_wf_def)
  then have "card (fst ` set (mpt_laneRegistrationIds c)) \<le> mpt_numLanes c"
    using card_mono [of "{..<mpt_numLanes c}"] by simp
  then show ?thesis using assms distinct_card [of "map fst (mpt_laneRegistrationIds c)"] by (simp add: mpt_wf_def)
qed

text \<open>
  The error handler. It sweeps both deques completely if the lanes are established or no
  tensor is empty; otherwise it may stop early, but still loses no callback.
\<close>

definition mpt_failed :: "tp_error \<Rightarrow> mpt_channel \<Rightarrow> mpt_channel" where
  "mpt_failed e ch = ch\<lparr>core := (core ch)\<lparr>chan_error := e\<rparr>\<rparr>"

lemma mpt_failed_ok:
  assumes "mpt_inv nz ch" and "is_error e"
  shows "list_all (mpt_send_ok nz (mpt_view (core (mpt_failed e ch)))) (sendOps (mpt_failed e ch))"
    "list_all (mpt_recv_ok nz (mpt_view (core (mpt_failed e ch)))) (recvOps (mpt_failed e ch))"
    "contiguous (sendOps (mpt_failed e ch))" "contiguous (recvOps (mpt_failed e ch))"
    "mpt_wf (core (mpt_failed e ch))"
  using assms by (auto simp: mpt_inv_def mpt_failed_def list_all_iff mpt_view_def)

lemma mpt_full_sweeps:
  assumes ci: "mpt_chan_inv nz ch" and ok: "\<not> is_error (chan_error (core ch))"
    and full: "nz \<and> mpt_state (core ch) \<noteq> Mpt_ESTABLISHED \<or> mpt_sweepable (core ch) c"
  shows "advanceAllOperations MptSend_FINISHED mpt_advanceSendOperation (sendOps ch) c =
      settle MptSend_FINISHED mpt_advanceSendOperation (sendOps ch) c"
    "advanceAllOperations MptRecv_FINISHED mpt_advanceRecvOperation (recvOps ch) c =
      settle MptRecv_FINISHED mpt_advanceRecvOperation (recvOps ch) c"
proof -
  have m: "machine_ok MptSend_FINISHED mpt_advanceSendOperation (sendOps ch) (core ch)"
    "machine_ok MptRecv_FINISHED mpt_advanceRecvOperation (recvOps ch) (core ch)"
    "list_all (mpt_send_ok nz (mpt_view (core ch))) (sendOps ch)"
    "list_all (mpt_recv_ok nz (mpt_view (core ch))) (recvOps ch)"
    using ci by (simp_all add: chan_inv_def)
  have "mpt_sweepable (core ch) c \<or> (\<forall>op \<in> set (sendOps ch). state op \<noteq> MptSend_FINISHED) \<and>
      (\<forall>op \<in> set (recvOps ch). state op \<noteq> MptRecv_FINISHED)"
    using full ok m(3,4) by (auto simp: list_all_iff mpt_view_def)
  then show "advanceAllOperations MptSend_FINISHED mpt_advanceSendOperation (sendOps ch) c =
      settle MptSend_FINISHED mpt_advanceSendOperation (sendOps ch) c"
    "advanceAllOperations MptRecv_FINISHED mpt_advanceRecvOperation (recvOps ch) c =
      settle MptRecv_FINISHED mpt_advanceRecvOperation (recvOps ch) c"
    using mpt_send_sweep [OF m(1,3), of c] mpt_recv_sweep [OF m(2,4), of c] by blast+
qed

lemma mpt_release_strong:
  assumes inv: "mpt_inv nz ch" and e: "\<not> is_error (chan_error (core ch))" "is_error e"
    and full: "nz \<or> mpt_state (core ch) = Mpt_ESTABLISHED"
  shows "\<exists>ch'. mpt_advance_both (mpt_failed e ch) = Inr ch' \<and> mpt_inv nz ch' \<and>
    core_frame (core ch') = core_frame (core (mpt_failed e ch)) \<and>
    accounted owes_send owes_recv ch' = accounted owes_send owes_recv (mpt_failed e ch) \<and>
    (\<forall>op \<in> set (sendOps (mpt_failed e ch)). mpt_writing op \<longrightarrow> op \<in> set (sendOps ch')) \<and>
    (\<forall>op \<in> set (recvOps (mpt_failed e ch)). mpt_reading op \<longrightarrow> op \<in> set (recvOps ch'))"
proof -
  note ok = mpt_failed_ok [OF inv e(2)]
  have "mpt_chan_inv nz ch" and "\<And>c. nz \<and> mpt_state (core ch) \<noteq> Mpt_ESTABLISHED \<or> mpt_sweepable (core ch) c"
    using inv e full by (auto simp: mpt_inv_def mpt_sweepable_def)
  note sweeps = mpt_full_sweeps [OF this(1) e(1) this(2)]
  have "\<exists>ch'. mpt_advance_both (mpt_failed e ch) = Inr ch' \<and> mpt_chan_inv nz ch' \<and>
      core_frame (core ch') = core_frame (core (mpt_failed e ch)) \<and>
      accounted owes_send owes_recv ch' = accounted owes_send owes_recv (mpt_failed e ch) \<and>
      (\<forall>op \<in> set (sendOps (mpt_failed e ch)). mpt_writing op \<longrightarrow> op \<in> set (sendOps ch')) \<and>
      (\<forall>op \<in> set (recvOps (mpt_failed e ch)). mpt_reading op \<longrightarrow> op \<in> set (recvOps ch'))"
    unfolding mpt_advance_both_def
    by (rule mpt.advance_both_inv [OF ok(3,4) _ _ ok(1,2)]) (use sweeps e in \<open>auto simp: mpt_failed_def\<close>)
  then obtain ch' where ch': "mpt_advance_both (mpt_failed e ch) = Inr ch'" "mpt_chan_inv nz ch'"
    "core_frame (core ch') = core_frame (core (mpt_failed e ch))"
    "accounted owes_send owes_recv ch' = accounted owes_send owes_recv (mpt_failed e ch)"
    "\<forall>op \<in> set (sendOps (mpt_failed e ch)). mpt_writing op \<longrightarrow> op \<in> set (sendOps ch')"
    "\<forall>op \<in> set (recvOps (mpt_failed e ch)). mpt_reading op \<longrightarrow> op \<in> set (recvOps ch')"
    by blast
  then show ?thesis using mpt_inv_strong mpt_wf_frame [OF ch'(3)] ok(5) by blast
qed

lemma mpt_release_weak:
  assumes inv: "mpt_inv nz ch" and "is_error e"
    and weak: "\<not> nz" "mpt_state (core ch) \<noteq> Mpt_ESTABLISHED"
  shows "\<exists>ch'. mpt_advance_both (mpt_failed e ch) = Inr ch' \<and> mpt_inv nz ch' \<and>
    core_frame (core ch') = core_frame (core (mpt_failed e ch)) \<and>
    accounted owes_send owes_recv ch' = accounted owes_send owes_recv (mpt_failed e ch)"
proof -
  note ok = mpt_failed_ok [OF assms(1,2)]
  obtain ch' where ch': "mpt_advance_both (mpt_failed e ch) = Inr ch'" "contiguous (sendOps ch')" "contiguous (recvOps ch')"
    "list_all (mpt_send_ok nz (mpt_view (core (mpt_failed e ch)))) (sendOps ch')"
    "list_all (mpt_recv_ok nz (mpt_view (core (mpt_failed e ch)))) (recvOps ch')"
    "accounted owes_send owes_recv ch' = accounted owes_send owes_recv (mpt_failed e ch)"
    and fr: "core_frame (core ch') = core_frame (core (mpt_failed e ch))"
    using mpt.advance_both_safe [OF ok(3,4,1,2)] unfolding mpt_advance_both_def by blast
  have v: "mpt_view (core ch') = mpt_view (core (mpt_failed e ch))" by (rule mpt_frame_view [OF fr])
  then have "is_error (chan_error (core ch'))" "mpt_state (core ch') \<noteq> Mpt_ESTABLISHED"
    using assms by (simp_all add: mpt_view_def mpt_failed_def)
  then have "mpt_inv nz ch'"
    using ch'(2-5) weak v mpt_wf_frame [OF fr] ok(5) by (simp add: mpt_inv_def)
  then show ?thesis using ch' fr by blast
qed

lemma mpt_setError_inv:
  assumes inv: "mpt_inv nz ch"
  shows "\<exists>ch'. chan_setError mpt_handleErrorImpl e ch = Inr ch' \<and> mpt_inv nz ch' \<and>
    accounted owes_send owes_recv ch' = accounted owes_send owes_recv ch \<and>
    (mpt_state (core ch) = Mpt_ESTABLISHED \<longrightarrow>
       (\<forall>op \<in> set (sendOps ch). mpt_writing op \<longrightarrow> op \<in> set (sendOps ch')) \<and>
       (\<forall>op \<in> set (recvOps ch). mpt_reading op \<longrightarrow> op \<in> set (recvOps ch'))) \<and>
    (\<not> is_error (chan_error (core ch')) \<longrightarrow> ch' = ch)"
proof (cases "is_error (chan_error (core ch)) \<or> \<not> is_error e")
  case True
  then show ?thesis using inv by (auto simp: chan_setError_def)
next
  case False
  have "\<exists>ch1. mpt_advance_both (mpt_failed e ch) = Inr ch1 \<and> mpt_inv nz ch1 \<and>
      core_frame (core ch1) = core_frame (core (mpt_failed e ch)) \<and>
      accounted owes_send owes_recv ch1 = accounted owes_send owes_recv (mpt_failed e ch) \<and>
      (mpt_state (core ch) = Mpt_ESTABLISHED \<longrightarrow>
         (\<forall>op \<in> set (sendOps (mpt_failed e ch)). mpt_writing op \<longrightarrow> op \<in> set (sendOps ch1)) \<and>
         (\<forall>op \<in> set (recvOps (mpt_failed e ch)). mpt_reading op \<longrightarrow> op \<in> set (recvOps ch1)))"
    using mpt_release_strong [OF inv, of e] mpt_release_weak [OF inv, of e] False by blast
  then obtain ch1 where ch1: "mpt_advance_both (mpt_failed e ch) = Inr ch1" "mpt_inv nz ch1"
    "core_frame (core ch1) = core_frame (core (mpt_failed e ch))"
    "accounted owes_send owes_recv ch1 = accounted owes_send owes_recv ch"
    "mpt_state (core ch) = Mpt_ESTABLISHED \<longrightarrow>
       (\<forall>op \<in> set (sendOps ch). mpt_writing op \<longrightarrow> op \<in> set (sendOps ch1)) \<and>
       (\<forall>op \<in> set (recvOps ch). mpt_reading op \<longrightarrow> op \<in> set (recvOps ch1))"
    by (auto simp: accounted_def mpt_failed_def)
  let ?ch2 = "ch1\<lparr>core := log_effects (mpt_close_effects (core ch1)) (core ch1)\<rparr>"
  have "concat (map effect_callback (mpt_close_effects c)) = []" for c
    by (auto simp: mpt_close_effects_def)
  then have "accounted owes_send owes_recv ?ch2 = accounted owes_send owes_recv ch1"
    by (simp add: accounted_def)
  moreover have "mpt_inv nz ?ch2" by (rule mpt_inv_frame [OF ch1(2)]) simp
  moreover have "is_error (chan_error (core ?ch2))"
    using core_frameD(1) [OF ch1(3)] False by (simp add: mpt_failed_def)
  ultimately show ?thesis
    using ch1 False by (simp add: chan_setError_def mpt_handleErrorImpl_def mpt_failed_def)
qed

text \<open>The lanes are there: both deques are swept completely.\<close>

lemma mpt_established_inv:
  assumes inv: "mpt_inv nz ch" and ok: "\<not> is_error (chan_error (core ch))"
    and st: "mpt_state (core ch) \<noteq> Mpt_ESTABLISHED"
    and c: "mpt_wf c" "mpt_state c = Mpt_ESTABLISHED" "chan_error c = chan_error (core ch)"
      "nextTensorBeingSent c = nextTensorBeingSent (core ch)"
      "nextTensorBeingReceived c = nextTensorBeingReceived (core ch)" "called c = called (core ch)"
  shows "\<exists>ch'. mpt_advance_both (ch\<lparr>core := c\<rparr>) = Inr ch' \<and> mpt_inv nz ch' \<and>
    accounted owes_send owes_recv ch' = accounted owes_send owes_recv ch"
proof -
  let ?ch = "ch\<lparr>core := c\<rparr>"
  have ci: "mpt_chan_inv nz ch" using inv ok by (simp add: mpt_inv_def)
  have lanes: "mpt_lanes_ok Mpt_ESTABLISHED (mpt_lanes c)" using c(1,2) by (simp add: mpt_wf_def)
  have I: "list_all (mpt_send_ok nz (mpt_view c)) (sendOps ch)" "list_all (mpt_recv_ok nz (mpt_view c)) (recvOps ch)"
    using inv lanes st c(2,3) by (auto simp: mpt_inv_def list_all_iff mpt_view_def)
  have sw: "mpt_sweepable (core ch) c'" if "mpt_view c' = mpt_view c" for c'
    using that ok c lanes by (simp add: mpt_sweepable_def mpt_view_def)
  have "\<exists>ch'. mpt_advance_both ?ch = Inr ch' \<and> mpt_chan_inv nz ch' \<and> core_frame (core ch') = core_frame (core ?ch) \<and>
      accounted owes_send owes_recv ch' = accounted owes_send owes_recv ?ch \<and>
      (\<forall>op \<in> set (sendOps ?ch). mpt_writing op \<longrightarrow> op \<in> set (sendOps ch')) \<and>
      (\<forall>op \<in> set (recvOps ?ch). mpt_reading op \<longrightarrow> op \<in> set (recvOps ch'))"
    unfolding mpt_advance_both_def
    by (rule mpt.advance_both_inv)
      (use inv I ci c mpt_full_sweeps [OF ci ok disjI2 [OF sw]] in \<open>auto simp: mpt_inv_def chan_inv_def\<close>)
  then obtain ch' where ch': "mpt_advance_both ?ch = Inr ch'" "mpt_chan_inv nz ch'"
    "core_frame (core ch') = core_frame c" "accounted owes_send owes_recv ch' = accounted owes_send owes_recv ?ch"
    by auto
  then show ?thesis
    using mpt_inv_strong mpt_wf_frame [OF ch'(3)] c(1,6) by (simp add: accounted_def)
qed

section \<open>The handshake\<close>

lemma mpt_connect_lanes_frame:
  "chan_error (mpt_connect_lanes ads c) = chan_error c \<and>
   nextTensorBeingSent (mpt_connect_lanes ads c) = nextTensorBeingSent c \<and>
   nextTensorBeingReceived (mpt_connect_lanes ads c) = nextTensorBeingReceived c \<and>
   called (mpt_connect_lanes ads c) = called c \<and>
   mpt_numLanes (mpt_connect_lanes ads c) = mpt_numLanes c \<and>
   mpt_laneRegistrationIds (mpt_connect_lanes ads c) = mpt_laneRegistrationIds c \<and>
   length (mpt_lanes (mpt_connect_lanes ads c)) = length (mpt_lanes c)"
  by (induction ads c rule: mpt_connect_lanes.induct) (simp_all add: called_def)

lemma mpt_connect_lanes_nth:
  "j < length (mpt_lanes c) \<Longrightarrow> j \<in> fst ` set ads \<or> mpt_lanes c ! j \<noteq> None \<Longrightarrow>
     mpt_lanes (mpt_connect_lanes ads c) ! j \<noteq> None"
proof (induction ads c rule: mpt_connect_lanes.induct)
  case (2 i address registrationId ads c)
  then show ?case by (cases "j = i") (auto simp del: not_None_eq)
qed simp

lemma mpt_client_established:
  assumes "mpt_wf c" and "mpt_state c = Mpt_CLIENT_READING_HELLO" and "length ads = mpt_numLanes c"
  shows "mpt_wf ((mpt_connect_lanes (zip [0..<mpt_numLanes c] ads) c)\<lparr>mpt_state := Mpt_ESTABLISHED\<rparr>)"
proof -
  let ?c = "mpt_connect_lanes (zip [0..<mpt_numLanes c] ads) c"
  have len: "length (mpt_lanes c) = mpt_numLanes c" using assms(1) by (simp add: mpt_wf_def)
  have all: "fst ` set (zip [0..<mpt_numLanes c] ads) = {..<mpt_numLanes c}"
    using assms(3) by (metis atLeast_upt length_upt map_fst_zip minus_nat.diff_0 set_map)
  have "mpt_lanes ?c ! j \<noteq> None" if "j < mpt_numLanes c" for j
    using mpt_connect_lanes_nth [of j c] that all len by auto
  then have "None \<notin> set (mpt_lanes ?c)"
    using mpt_connect_lanes_frame [of "zip [0..<mpt_numLanes c] ads" c] len by (metis in_set_conv_nth)
  moreover have "mpt_lanes ?c \<noteq> []"
    using mpt_connect_lanes_frame [of "zip [0..<mpt_numLanes c] ads" c] assms(1)
    by (metis length_0_conv mpt_lanes_ok_def mpt_wf_def)
  ultimately show ?thesis
    using mpt_connect_lanes_frame [of "zip [0..<mpt_numLanes c] ads" c] assms
    by (auto simp: mpt_wf_def mpt_lanes_ok_def)
qed

lemma mpt_onClientReadHello_inv:
  assumes inv: "mpt_inv nz ch" and ok: "\<not> is_error (chan_error (core ch))"
    and st: "mpt_state (core ch) = Mpt_CLIENT_READING_HELLO" and ads: "length ads = mpt_numLanes (core ch)"
  shows "\<exists>ch'. mpt_onClientReadHelloOnConnection (MptServerHello ads) ch = Inr ch' \<and> mpt_inv nz ch' \<and>
    accounted owes_send owes_recv ch' = accounted owes_send owes_recv ch"
proof -
  let ?c = "(mpt_connect_lanes (zip [0..<mpt_numLanes (core ch)] ads) (core ch))\<lparr>mpt_state := Mpt_ESTABLISHED\<rparr>"
  have "mpt_wf ?c" using mpt_client_established inv st ads by (simp add: mpt_inv_def)
  then have "\<exists>ch'. mpt_advance_both (ch\<lparr>core := ?c\<rparr>) = Inr ch' \<and> mpt_inv nz ch' \<and>
      accounted owes_send owes_recv ch' = accounted owes_send owes_recv ch"
    by (rule mpt_established_inv [OF inv ok, rotated])
      (use st mpt_connect_lanes_frame in \<open>simp_all add: called_def\<close>)
  then show ?thesis using st ads by (simp add: mpt_onClientReadHelloOnConnection_def Let_def)
qed

text \<open>The core of the listening side after a lane was accepted.\<close>

definition mpt_accepted :: "nat \<Rightarrow> nat \<Rightarrow> 64 word \<Rightarrow> mpt_core \<Rightarrow> mpt_core" where
  "mpt_accepted l conn token c =
     log_effects [Lower (MptUnregisterConnectionRequest token)]
       (c\<lparr>mpt_lanes := (mpt_lanes c)[l := Some (MptAccepted conn)],
          mpt_laneRegistrationIds := filter (\<lambda>(k, t). k \<noteq> l) (mpt_laneRegistrationIds c),
          mpt_numLanesBeingAccepted := mpt_numLanesBeingAccepted c - 1\<rparr>)"

lemma filter_key_length:
  "distinct (map fst xs) \<Longrightarrow> l \<in> fst ` set xs \<Longrightarrow> Suc (length (filter (\<lambda>(k, t). k \<noteq> l) xs)) = length xs"
proof (induction xs)
  case (Cons x xs)
  show ?case
  proof (cases "fst x = l")
    case True
    then have "l \<notin> fst ` set xs" using Cons.prems(1) by simp
    then have "\<forall>y \<in> set xs. fst y \<noteq> l" by (metis imageI)
    then have "filter (\<lambda>y. fst y \<noteq> l) xs = xs" by (intro filter_True) simp
    then show ?thesis using True by (simp add: split_beta)
  next
    case False
    then show ?thesis using Cons by (simp add: split_beta)
  qed
qed simp

lemma mpt_accepted_wf:
  assumes wf: "mpt_wf c" and st: "mpt_state c = Mpt_SERVER_ACCEPTING_LANES"
    and l: "l \<in> fst ` set (mpt_laneRegistrationIds c)"
  shows "mpt_wf (mpt_accepted l conn token c)"
    and "mpt_numLanesBeingAccepted (mpt_accepted l conn token c) = 0 \<Longrightarrow>
      mpt_wf ((mpt_accepted l conn token c)\<lparr>mpt_state := Mpt_ESTABLISHED\<rparr>)"
proof -
  let ?r = "filter (\<lambda>(k, t). k \<noteq> l) (mpt_laneRegistrationIds c)"
  have d: "distinct (map fst (mpt_laneRegistrationIds c))" and len: "length (mpt_lanes c) = mpt_numLanes c"
    and ln: "l < mpt_numLanes c" and lt: "mpt_numLanes c < 2 ^ 64"
    using wf l by (auto simp: mpt_wf_def)
  have card: "Suc (length ?r) = length (mpt_laneRegistrationIds c)" using filter_key_length [OF d l] .
  have regs: "fst ` set ?r = fst ` set (mpt_laneRegistrationIds c) - {l}" by force
  have dr: "distinct (map fst ?r)" using d by (rule distinct_map_filter)
  have num: "mpt_numLanesBeingAccepted c - 1 = of_nat (length ?r)"
    using wf st by (simp add: mpt_wf_def card [symmetric] del: of_nat_Suc) simp
  show wf': "mpt_wf (mpt_accepted l conn token c)"
    using wf st len ln lt dr num regs
    by (auto simp: mpt_wf_def mpt_accepted_def mpt_lanes_ok_def nth_list_update)
  assume "mpt_numLanesBeingAccepted (mpt_accepted l conn token c) = 0"
  then have "of_nat (length ?r) = (0 :: 64 word)" using num by (simp add: mpt_accepted_def)
  moreover have "length ?r < 2 ^ 64" using mpt_wf_numLanes_word [OF wf] card lt by simp
  ultimately have "?r = []"
    by (simp add: of_nat_word_eq_0)
  then have "\<forall>i < mpt_numLanes c. mpt_lanes (mpt_accepted l conn token c) ! i \<noteq> None"
    using wf' st by (auto simp: mpt_wf_def mpt_accepted_def)
  then have "None \<notin> set (mpt_lanes (mpt_accepted l conn token c))"
    using wf' by (auto simp: mpt_wf_def mpt_accepted_def in_set_conv_nth)
  then show "mpt_wf ((mpt_accepted l conn token c)\<lparr>mpt_state := Mpt_ESTABLISHED\<rparr>)"
    using wf' \<open>?r = []\<close> by (auto simp: mpt_wf_def mpt_accepted_def mpt_lanes_ok_def)
qed

lemma mpt_onServerAcceptOfLane_inv:
  assumes inv: "mpt_inv nz ch" and ok: "\<not> is_error (chan_error (core ch))"
    and l: "l \<in> fst ` set (mpt_laneRegistrationIds (core ch))"
  shows "\<exists>ch'. mpt_onServerAcceptOfLane l conn ch = Inr ch' \<and> mpt_inv nz ch' \<and>
    accounted owes_send owes_recv ch' = accounted owes_send owes_recv ch"
proof -
  have wf: "mpt_wf (core ch)" using inv by (simp add: mpt_inv_def)
  then have st: "mpt_state (core ch) = Mpt_SERVER_ACCEPTING_LANES" and free: "mpt_lanes (core ch) ! l = None"
    and ln: "l < length (mpt_lanes (core ch))"
    using l by (auto simp: mpt_wf_def)
  obtain token where token: "map_of (mpt_laneRegistrationIds (core ch)) l = Some token"
    using l by (auto simp: map_of_eq_None_iff dest!: weak_map_of_SomeI)
  let ?c = "mpt_accepted l conn token (core ch)"
  have eq: "mpt_onServerAcceptOfLane l conn ch =
      (if mpt_numLanesBeingAccepted ?c = 0 then mpt_advance_both (ch\<lparr>core := ?c\<lparr>mpt_state := Mpt_ESTABLISHED\<rparr>\<rparr>)
       else Inr (ch\<lparr>core := ?c\<rparr>))"
    using st free ln token by (simp add: mpt_onServerAcceptOfLane_def mpt_accepted_def Let_def)
  show ?thesis
  proof (cases "mpt_numLanesBeingAccepted ?c = 0")
    case True
    have "\<exists>ch'. mpt_advance_both (ch\<lparr>core := ?c\<lparr>mpt_state := Mpt_ESTABLISHED\<rparr>\<rparr>) = Inr ch' \<and> mpt_inv nz ch' \<and>
        accounted owes_send owes_recv ch' = accounted owes_send owes_recv ch"
      by (rule mpt_established_inv [OF inv ok])
        (use st mpt_accepted_wf(2) [OF wf st l True] in \<open>simp_all add: mpt_accepted_def called_def\<close>)
    then show ?thesis using eq True by simp
  next
    case False
    have wf': "mpt_wf ?c" using mpt_accepted_wf(1) [OF wf st l] .
    have ci: "mpt_chan_inv nz ch" using inv ok by (simp add: mpt_inv_def)
    have cond: "stable mpt_advanceSendOperation sop sp ?c = stable mpt_advanceSendOperation sop sp (core ch)"
      "stable mpt_advanceRecvOperation rop rp ?c = stable mpt_advanceRecvOperation rop rp (core ch)"
      for sop sp rop rp
      by (simp_all add: stable_def mpt_table_defs mpt_accepted_def)
    have "quiet mpt_advanceSendOperation sp sops ?c = quiet mpt_advanceSendOperation sp sops (core ch)"
      "quiet mpt_advanceRecvOperation rp rops ?c = quiet mpt_advanceRecvOperation rp rops (core ch)"
      for sops sp rops rp
      by (induction sops arbitrary: sp; simp add: cond) (induction rops arbitrary: rp; simp add: cond)
    then have "mpt_chan_inv nz (ch\<lparr>core := ?c\<rparr>)"
      using ci wf' st by (auto simp: chan_inv_def machine_ok_def list_all_iff mpt_view_def mpt_wf_def
          mpt_accepted_def mpt_lanes_ok_def)
    then show ?thesis
      using eq False mpt_inv_strong [of nz "ch\<lparr>core := ?c\<rparr>"] wf' by (simp add: accounted_def mpt_accepted_def called_def)
  qed
qed

lemma mpt_register_lanes_eq:
  "chan_error (mpt_register_lanes is token c) = chan_error c \<and>
   nextTensorBeingSent (mpt_register_lanes is token c) = nextTensorBeingSent c \<and>
   nextTensorBeingReceived (mpt_register_lanes is token c) = nextTensorBeingReceived c \<and>
   called (mpt_register_lanes is token c) = called c \<and>
   mpt_numLanes (mpt_register_lanes is token c) = mpt_numLanes c \<and>
   mpt_lanes (mpt_register_lanes is token c) = mpt_lanes c \<and>
   mpt_state (mpt_register_lanes is token c) = mpt_state c \<and>
   map fst (mpt_laneRegistrationIds (mpt_register_lanes is token c)) = map fst (mpt_laneRegistrationIds c) @ is \<and>
   mpt_numLanesBeingAccepted (mpt_register_lanes is token c) = mpt_numLanesBeingAccepted c + of_nat (length is)"
  by (induction "is" token c rule: mpt_register_lanes.induct) (simp_all add: called_def algebra_simps)

lemma mpt_init_core:
  "mpt_lanes (core (mpt_init i ep n)) = replicate n None" "mpt_numLanes (core (mpt_init i ep n)) = n"
  "called (core (mpt_init i ep n)) = {#}" "mpt_laneRegistrationIds (core (mpt_init i ep n)) = []"
  "mpt_numLanesBeingAccepted (core (mpt_init i ep n)) = 0" "mpt_state (core (mpt_init i ep n)) = Mpt_UNINITIALIZED"
  "mpt_endpoint (core (mpt_init i ep n)) = ep" "chan_error (core (mpt_init i ep n)) = Success"
  "sendOps (mpt_init i ep n) = []" "recvOps (mpt_init i ep n) = []"
  by (simp_all add: mpt_init_def chan_core.defs mpt_core.defs chan_init_core_def called_def)

lemma mpt_called_simps [simp]:
  "called (c\<lparr>mpt_state := st\<rparr>) = called c"
  by (simp add: called_def)

lemma mpt_empty_inv:
  assumes "mpt_wf (core ch)" "called (core ch) = {#}" "sendOps ch = []" "recvOps ch = []"
  shows "mpt_inv nz ch" and "accounted owes_send owes_recv ch = {#}"
  using assms by (auto simp: mpt_inv_def chan_inv_def machine_ok_def contiguous_def ends_at_def accounted_def)

lemma mpt_registered_wf:
  assumes "0 < n" "n < 2 ^ 64" and c: "mpt_lanes c = replicate n None" "mpt_numLanes c = n"
    "mpt_laneRegistrationIds c = []" "mpt_numLanesBeingAccepted c = 0" "mpt_state c = Mpt_SERVER_ACCEPTING_LANES"
  shows "mpt_wf (mpt_register_lanes [0..<n] token c)"
proof -
  note reg = mpt_register_lanes_eq [of "[0..<n]" token c, unfolded c, simplified]
  let ?r = "mpt_laneRegistrationIds (mpt_register_lanes [0..<n] token c)"
  have "map fst ?r = [0..<n]" using reg by simp
  then have "fst ` set ?r = {0..<n}" "length ?r = n"
    by (metis set_map set_upt, metis length_map length_upt minus_nat.diff_0)
  then show ?thesis using assms(1,2) reg by (auto simp: mpt_wf_def mpt_lanes_ok_def c)
qed

lemma mpt_created_inv:
  assumes "0 < numLanes" "numLanes < 2 ^ 64" "length addresses = numLanes"
    and init: "chan_initFromLoop closed (mpt_initImplFromLoop addresses token) (mpt_init i ep numLanes) = Inr ch"
  shows "mpt_inv nz ch" and "accounted owes_send owes_recv ch = {#}"
proof -
  have "mpt_wf (core ch) \<and> called (core ch) = {#} \<and> sendOps ch = [] \<and> recvOps ch = []"
  proof (cases closed)
    case True
    then have "ch = (mpt_init i ep numLanes)\<lparr>core := (core (mpt_init i ep numLanes))\<lparr>chan_error := ChannelClosedError\<rparr>\<rparr>"
      using init by (simp add: chan_initFromLoop_def)
    then show ?thesis using assms(1,2) by (simp add: mpt_wf_def mpt_lanes_ok_def mpt_init_core)
  next
    case open_context: False
    show ?thesis
    proof (cases ep)
      case KConnect
      then show ?thesis
        using open_context init assms(1,2)
        by (auto simp: chan_initFromLoop_def mpt_initImplFromLoop_def mpt_init_core mpt_wf_def mpt_lanes_ok_def Let_def)
    next
      case KListen
      let ?c1 = "(log_effects [EnrollChannel] (core (mpt_init i ep numLanes)))\<lparr>mpt_state := Mpt_SERVER_ACCEPTING_LANES\<rparr>"
      have "mpt_wf (mpt_register_lanes [0..<numLanes] token ?c1)"
        by (rule mpt_registered_wf) (use assms in \<open>simp_all add: mpt_init_core\<close>)
      then show ?thesis
        using open_context init assms(3) KListen mpt_register_lanes_eq [of "[0..<numLanes]" token ?c1]
        by (auto simp: chan_initFromLoop_def mpt_initImplFromLoop_def mpt_init_core Let_def)
    qed
  qed
  then show "mpt_inv nz ch" and "accounted owes_send owes_recv ch = {#}" using mpt_empty_inv by blast+
qed

section \<open>Properties\<close>

fun mpt_requested :: "mpt_event \<Rightarrow> (nat + nat) multiset" where
  "mpt_requested (MptSend buffer len cb) = {#Inl cb#}"
| "mpt_requested (MptRecv buffer len cb) = {#Inr cb#}"
| "mpt_requested _ = {#}"

fun mpt_nonempty :: "mpt_event \<Rightarrow> bool" where
  "mpt_nonempty (MptSend buffer len cb) \<longleftrightarrow> len \<noteq> 0"
| "mpt_nonempty (MptRecv buffer len cb) \<longleftrightarrow> len \<noteq> 0"
| "mpt_nonempty _ \<longleftrightarrow> True"

lemma mpt_ok_cong:
  "mpt_send_ok nz v (op\<lparr>ms_numChunksBeingWritten := k\<rparr>) \<longleftrightarrow>
     mpt_send_ok nz v op" if "state op \<noteq> MptSend_UNINITIALIZED"
  using that by (cases v) simp

lemma mpt_rok_cong:
  "mpt_recv_ok nz v (op\<lparr>mr_numChunksBeingRead := k\<rparr>) \<longleftrightarrow>
     mpt_recv_ok nz v op" if "state op \<noteq> MptRecv_UNINITIALIZED"
  using that by (cases v) simp

text \<open>With an error, a request is answered at once and the deques stay as they are.\<close>

lemma mpt_request_error:
  assumes "mpt_inv nz ch" and "is_error (chan_error (core ch))"
  shows "\<exists>ch'. chan_sendFromLoop sendImpl buffer len cb ch = Inr ch' \<and> mpt_inv nz ch' \<and>
      accounted owes_send owes_recv ch' = accounted owes_send owes_recv ch + {#Inl cb#}"
    and "\<exists>ch'. chan_recvFromLoop recvImpl buffer len cb ch = Inr ch' \<and> mpt_inv nz ch' \<and>
      accounted owes_send owes_recv ch' = accounted owes_send owes_recv ch + {#Inr cb#}"
proof -
  let ?s = "ch\<lparr>core := log_effects [SendCallback cb (chan_error (core ch))]
    ((core ch)\<lparr>nextTensorBeingSent := Suc (nextTensorBeingSent (core ch))\<rparr>)\<rparr>"
  let ?r = "ch\<lparr>core := log_effects [RecvCallback cb (chan_error (core ch))]
    ((core ch)\<lparr>nextTensorBeingReceived := Suc (nextTensorBeingReceived (core ch))\<rparr>)\<rparr>"
  have v: "mpt_view (core ?s) = mpt_view (core ch)" "mpt_view (core ?r) = mpt_view (core ch)"
    by (simp_all add: mpt_view_def)
  have "mpt_inv nz ?s" "mpt_inv nz ?r"
    using assms v mpt.send.machine_ok_cong [OF v(1)] mpt.recv.machine_ok_cong [OF v(1)]
      mpt.send.machine_ok_cong [OF v(2)] mpt.recv.machine_ok_cong [OF v(2)]
    by (simp_all add: mpt_inv_def chan_inv_def)
  then show "\<exists>ch'. chan_sendFromLoop sendImpl buffer len cb ch = Inr ch' \<and> mpt_inv nz ch' \<and>
      accounted owes_send owes_recv ch' = accounted owes_send owes_recv ch + {#Inl cb#}"
    "\<exists>ch'. chan_recvFromLoop recvImpl buffer len cb ch = Inr ch' \<and> mpt_inv nz ch' \<and>
      accounted owes_send owes_recv ch' = accounted owes_send owes_recv ch + {#Inr cb#}"
    using assms(2) by (auto simp: chan_sendFromLoop_def chan_recvFromLoop_def accounted_def Let_def)
qed

lemma mpt_wf_more:
  assumes "chan_core.more c = chan_core.more c'"
  shows "mpt_wf c = mpt_wf c'" "mpt_state c = mpt_state c'"
  using assms by (cases c; cases c'; simp add: mpt_wf_def)+

lemma mpt_send_inv:
  assumes inv: "mpt_inv nz ch" and len: "nz \<longrightarrow> len \<noteq> 0"
  shows "\<exists>ch'. chan_sendFromLoop mpt_sendImplFromLoop buffer len cb ch = Inr ch' \<and> mpt_inv nz ch' \<and>
    accounted owes_send owes_recv ch' = accounted owes_send owes_recv ch + {#Inl cb#}"
proof (cases "is_error (chan_error (core ch))")
  case True
  then show ?thesis by (rule mpt_request_error(1) [OF inv])
next
  case False
  have ci: "mpt_chan_inv nz ch" and wf: "mpt_wf (core ch)" using inv False by (simp_all add: mpt_inv_def)
  have "\<exists>ch'. chan_sendFromLoop mpt_sendImplFromLoop buffer len cb ch = Inr ch' \<and> mpt_chan_inv nz ch' \<and>
      accounted owes_send owes_recv ch' = accounted owes_send owes_recv ch + {#Inl cb#}"
    by (rule mpt.sendFromLoop_inv [OF ci])
      (use wf len in \<open>auto simp: mpt_sendImplFromLoop_def owes_send_def mpt_view_def mpt_wf_def\<close>)
  then obtain ch' where ch': "chan_sendFromLoop mpt_sendImplFromLoop buffer len cb ch = Inr ch'" "mpt_chan_inv nz ch'"
    "accounted owes_send owes_recv ch' = accounted owes_send owes_recv ch + {#Inl cb#}" by blast
  have "send_start MptSend_FINISHED mpt_advanceSendOperation
      \<lparr>sequenceNumber = 0, state = MptSend_UNINITIALIZED, op_ptr = buffer, op_length = len,
       op_callback = Some cb, ms_numChunksBeingWritten = 0\<rparr> (nextTensorBeingSent (core ch))
      (ch\<lparr>core := (core ch)\<lparr>nextTensorBeingSent := Suc (nextTensorBeingSent (core ch))\<rparr>\<rparr>) = Inr ch'"
    using ch'(1) False by (simp add: chan_sendFromLoop_def mpt_sendImplFromLoop_def Let_def)
  from mpt.start_resume_frame(1) [OF this]
  have "mpt_wf (core ch')" using mpt_wf_frame [of "core ch'"] wf by simp
  then show ?thesis using ch' mpt_inv_strong by blast
qed

lemma mpt_recv_inv:
  assumes inv: "mpt_inv nz ch" and len: "nz \<longrightarrow> len \<noteq> 0"
  shows "\<exists>ch'. chan_recvFromLoop mpt_recvImplFromLoop buffer len cb ch = Inr ch' \<and> mpt_inv nz ch' \<and>
    accounted owes_send owes_recv ch' = accounted owes_send owes_recv ch + {#Inr cb#}"
proof (cases "is_error (chan_error (core ch))")
  case True
  then show ?thesis by (rule mpt_request_error(2) [OF inv])
next
  case False
  have ci: "mpt_chan_inv nz ch" and wf: "mpt_wf (core ch)" using inv False by (simp_all add: mpt_inv_def)
  have "\<exists>ch'. chan_recvFromLoop mpt_recvImplFromLoop buffer len cb ch = Inr ch' \<and> mpt_chan_inv nz ch' \<and>
      accounted owes_send owes_recv ch' = accounted owes_send owes_recv ch + {#Inr cb#}"
    by (rule mpt.recvFromLoop_inv [OF ci])
      (use wf len in \<open>auto simp: mpt_recvImplFromLoop_def owes_recv_def mpt_view_def mpt_wf_def\<close>)
  then obtain ch' where ch': "chan_recvFromLoop mpt_recvImplFromLoop buffer len cb ch = Inr ch'" "mpt_chan_inv nz ch'"
    "accounted owes_send owes_recv ch' = accounted owes_send owes_recv ch + {#Inr cb#}" by blast
  have "recv_start MptRecv_FINISHED mpt_advanceRecvOperation
      \<lparr>sequenceNumber = 0, state = MptRecv_UNINITIALIZED, op_ptr = buffer, op_length = len,
       op_callback = Some cb, mr_numChunksBeingRead = 0\<rparr> (nextTensorBeingReceived (core ch))
      (ch\<lparr>core := (core ch)\<lparr>nextTensorBeingReceived := Suc (nextTensorBeingReceived (core ch))\<rparr>\<rparr>) = Inr ch'"
    using ch'(1) False by (simp add: chan_recvFromLoop_def mpt_recvImplFromLoop_def Let_def)
  from mpt.start_resume_frame(2) [OF this]
  have "mpt_wf (core ch')" using mpt_wf_frame [of "core ch'"] wf by simp
  then show ?thesis using ch' mpt_inv_strong by blast
qed

text \<open>Chunks are only outstanding once the lanes are established.\<close>

lemma mpt_chunk_written_inv:
  assumes inv: "mpt_inv nz ch" and op: "op \<in> set (sendOps ch)" "sequenceNumber op = sn" "mpt_writing op"
  shows "\<exists>ch'. entryPointFromLoop (chan_setError mpt_handleErrorImpl) e (mpt_onChunkWritten sn) ch = Inr ch' \<and>
    mpt_inv nz ch' \<and> accounted owes_send owes_recv ch' = accounted owes_send owes_recv ch"
proof -
  have est: "mpt_state (core ch) = Mpt_ESTABLISHED"
    using inv op by (auto simp: mpt_inv_def list_all_iff mpt_view_def mpt_writing_def)
  obtain ch1 where ch1: "chan_setError mpt_handleErrorImpl e ch = Inr ch1" "mpt_inv nz ch1"
    "accounted owes_send owes_recv ch1 = accounted owes_send owes_recv ch" "op \<in> set (sendOps ch1)"
    using mpt_setError_inv [OF inv, of e] est op by blast
  have I: "mpt_send_ok nz (mpt_view (core ch1)) op" using ch1(2,4) by (simp add: mpt_inv_def list_all_iff)
  then have "mpt_state (core ch1) = Mpt_ESTABLISHED" using op(3) by (auto simp: mpt_view_def mpt_writing_def)
  then have ci: "mpt_chan_inv nz ch1" using ch1(2) by (simp add: mpt_inv_def)
  obtain ch' where ch': "mpt_onChunkWritten sn ch1 = Inr ch'" "mpt_chan_inv nz ch'"
    "accounted owes_send owes_recv ch' = accounted owes_send owes_recv ch1"
    using mpt.send_resume_inv [where f = "\<lambda>op. op\<lparr>ms_numChunksBeingWritten := ms_numChunksBeingWritten op - 1\<rparr>",
        OF ci ch1(4) op(2)] I op(3)
    by (auto simp: mpt_onChunkWritten_def mpt_ok_cong mpt_writing_def owes_send_def)
  have "mpt_wf (core ch')"
    using mpt.start_resume_frame(3) ch'(1) mpt_wf_frame ch1(2) unfolding mpt_onChunkWritten_def mpt_inv_def by blast
  then show ?thesis using ch' ch1 mpt_inv_strong by (simp add: entryPointFromLoop_def)
qed

lemma mpt_chunk_read_inv:
  assumes inv: "mpt_inv nz ch" and op: "op \<in> set (recvOps ch)" "sequenceNumber op = sn" "mpt_reading op"
  shows "\<exists>ch'. entryPointFromLoop (chan_setError mpt_handleErrorImpl) e (mpt_onChunkRead sn) ch = Inr ch' \<and>
    mpt_inv nz ch' \<and> accounted owes_send owes_recv ch' = accounted owes_send owes_recv ch"
proof -
  have est: "mpt_state (core ch) = Mpt_ESTABLISHED"
    using inv op by (auto simp: mpt_inv_def list_all_iff mpt_view_def mpt_reading_def)
  obtain ch1 where ch1: "chan_setError mpt_handleErrorImpl e ch = Inr ch1" "mpt_inv nz ch1"
    "accounted owes_send owes_recv ch1 = accounted owes_send owes_recv ch" "op \<in> set (recvOps ch1)"
    using mpt_setError_inv [OF inv, of e] est op by blast
  have I: "mpt_recv_ok nz (mpt_view (core ch1)) op" using ch1(2,4) by (simp add: mpt_inv_def list_all_iff)
  then have "mpt_state (core ch1) = Mpt_ESTABLISHED" using op(3) by (auto simp: mpt_view_def mpt_reading_def)
  then have ci: "mpt_chan_inv nz ch1" using ch1(2) by (simp add: mpt_inv_def)
  obtain ch' where ch': "mpt_onChunkRead sn ch1 = Inr ch'" "mpt_chan_inv nz ch'"
    "accounted owes_send owes_recv ch' = accounted owes_send owes_recv ch1"
    using mpt.recv_resume_inv [where f = "\<lambda>op. op\<lparr>mr_numChunksBeingRead := mr_numChunksBeingRead op - 1\<rparr>",
        OF ci ch1(4) op(2)] I op(3)
    by (auto simp: mpt_onChunkRead_def mpt_rok_cong mpt_reading_def owes_recv_def)
  have "mpt_wf (core ch')"
    using mpt.start_resume_frame(4) ch'(1) mpt_wf_frame ch1(2) unfolding mpt_onChunkRead_def mpt_inv_def by blast
  then show ?thesis using ch' ch1 mpt_inv_strong by (simp add: entryPointFromLoop_def)
qed

lemma mpt_handshake_inv:
  assumes inv: "mpt_inv nz ch" and en: "mpt_enabled ev ch"
    and ev: "ev = MptServerHelloRead packet e \<or> ev = MptLaneRequestDone laneIdx connection e"
  shows "\<exists>ch'. mpt_step ev ch = Inr ch' \<and> mpt_inv nz ch' \<and>
    accounted owes_send owes_recv ch' = accounted owes_send owes_recv ch"
proof -
  obtain ch1 where ch1: "chan_setError mpt_handleErrorImpl e ch = Inr ch1" "mpt_inv nz ch1"
    "accounted owes_send owes_recv ch1 = accounted owes_send owes_recv ch"
    "\<not> is_error (chan_error (core ch1)) \<longrightarrow> ch1 = ch"
    using mpt_setError_inv [OF inv, of e] by blast
  show ?thesis
  proof (cases "is_error (chan_error (core ch1))")
    case True
    then show ?thesis using ch1 ev by (auto simp: entryPointFromLoop_def mpt_unless_error_def)
  next
    case False
    then have "ch1 = ch" "\<not> is_error (chan_error (core ch))" using ch1(4) by auto
    then have step: "mpt_step (MptServerHelloRead packet e) ch = mpt_onClientReadHelloOnConnection packet ch"
      "mpt_step (MptLaneRequestDone laneIdx connection e) ch = mpt_onServerAcceptOfLane laneIdx connection ch"
      using ch1(1) by (simp_all add: entryPointFromLoop_def mpt_unless_error_def)
    from ev show ?thesis
    proof
      assume h: "ev = MptServerHelloRead packet e"
      then obtain ads where "packet = MptServerHello ads" "length ads = mpt_numLanes (core ch)"
        "mpt_state (core ch) = Mpt_CLIENT_READING_HELLO"
        using en by (auto split: mpt_packet.splits)
      then show ?thesis using h step(1) mpt_onClientReadHello_inv [OF inv] \<open>\<not> is_error (chan_error (core ch))\<close> by simp
    next
      assume h: "ev = MptLaneRequestDone laneIdx connection e"
      then show ?thesis
        using en step(2) mpt_onServerAcceptOfLane_inv [OF inv \<open>\<not> is_error (chan_error (core ch))\<close>] by simp
    qed
  qed
qed

lemma mpt_step_inv:
  assumes inv: "mpt_inv nz ch" and en: "mpt_enabled ev ch" and ne: "nz \<longrightarrow> mpt_nonempty ev"
  shows "\<exists>ch'. mpt_step ev ch = Inr ch' \<and> mpt_inv nz ch' \<and>
    accounted owes_send owes_recv ch' = accounted owes_send owes_recv ch + mpt_requested ev"
proof (cases ev)
  case (MptSetId i)
  have "mpt_inv nz (chan_setIdFromLoop i ch)"
    using inv mpt.setIdFromLoop_inv(1) [of nz ch i]
    by (auto simp: mpt_inv_def chan_setIdFromLoop_def mpt_view_def)
  then show ?thesis using MptSetId by (simp add: accounted_def chan_setIdFromLoop_def)
next
  case MptCloseChannel
  then show ?thesis using mpt_setError_inv [OF inv, of ChannelClosedError] by (auto simp: chan_closeFromLoop_def)
next
  case (MptPacketWritten e)
  then show ?thesis using mpt_setError_inv [OF inv, of e] by (auto simp: entryPointFromLoop_def)
next
  case (MptChunkWritten sn e)
  then show ?thesis using mpt_chunk_written_inv [OF inv] en by (auto simp: list_ex_iff)
next
  case (MptChunkRead sn e)
  then show ?thesis using mpt_chunk_read_inv [OF inv] en by (auto simp: list_ex_iff)
next
  case (MptSend buffer len cb)
  then show ?thesis using mpt_send_inv [OF inv] ne by simp
next
  case (MptRecv buffer len cb)
  then show ?thesis using mpt_recv_inv [OF inv] ne by simp
next
  case (MptServerHelloRead packet e)
  then show ?thesis using mpt_handshake_inv [OF inv en, of packet e] by simp
next
  case (MptLaneRequestDone laneIdx connection e)
  then show ?thesis using mpt_handshake_inv [OF inv en, of _ e laneIdx connection] by simp
qed

lemma mpt_trace_inv:
  "mpt_trace evs ch \<Longrightarrow> nz \<longrightarrow> list_all mpt_nonempty evs \<Longrightarrow>
     mpt_inv nz ch \<and> accounted owes_send owes_recv ch = sum_list (map mpt_requested evs)"
proof (induction rule: mpt_trace.induct)
  case (mpt_created numLanes addresses closed token i ep ch)
  then show ?case using mpt_created_inv [OF mpt_created(1-4)] by simp
next
  case (mpt_stepped evs ch ev ch')
  then show ?case using mpt_step_inv [of nz ch ev] by auto
qed

text \<open>
  The connecting side with two lanes: after the hello of the other side, a send of five
  bytes goes out in chunks of two and three.
\<close>

definition mpt_client :: mpt_channel where
  "mpt_client = (mpt_init ''c'' KConnect 2)\<lparr>core := log_effects [EnrollChannel, Lower MptReadPacket]
     ((core (mpt_init ''c'' KConnect 2))\<lparr>mpt_state := Mpt_CLIENT_READING_HELLO\<rparr>)\<rparr>"

definition mpt_session :: "mpt_event list" where
  "mpt_session = [MptSend 100 5 7, MptServerHelloRead (MptServerHello [(''a0'', 3), (''a1'', 4)]) Success,
     MptChunkWritten 0 Success, MptChunkWritten 0 Success]"

fun mpt_run :: "mpt_event list \<Rightarrow> mpt_channel \<Rightarrow> mpt_channel option" where
  "mpt_run [] ch = Some ch"
| "mpt_run (ev # evs) ch =
     (if mpt_enabled ev ch then case mpt_step ev ch of Inl f \<Rightarrow> None | Inr ch' \<Rightarrow> mpt_run evs ch' else None)"

lemma mpt_run_trace: "mpt_trace evs0 ch0 \<Longrightarrow> mpt_run evs ch0 = Some ch \<Longrightarrow> mpt_trace (evs0 @ evs) ch"
proof (induction evs arbitrary: evs0 ch0)
  case (Cons ev evs)
  then obtain ch1 where "mpt_enabled ev ch0" "mpt_step ev ch0 = Inr ch1" "mpt_run evs ch1 = Some ch"
    by (auto split: if_splits sum.splits)
  then show ?case using Cons.IH [of "evs0 @ [ev]" ch1] mpt_stepped [OF Cons.prems(1)] by simp
qed simp

lemma mpt_client_trace: "mpt_trace [] mpt_client"
  by (rule mpt_created [of 2 "[''x'', ''y'']" False 0 "''c''" KConnect])
    (simp_all add: mpt_client_def chan_initFromLoop_def mpt_initImplFromLoop_def mpt_init_core Let_def log_effects_append,
      simp add: log_effects_def)

text \<open>The bytes that a chunk covers.\<close>

definition byte_range :: "addr \<Rightarrow> bytes_len \<Rightarrow> addr list" where
  "byte_range p len = map (\<lambda>k. p + of_nat k) [0..<unat len]"

fun lane_bytes :: "mpt_call chan_effect \<Rightarrow> addr list" where
  "lane_bytes (Lower (MptWriteChunk sn i p len)) = byte_range p len"
| "lane_bytes (Lower (MptReadChunk sn i p len)) = byte_range p len"
| "lane_bytes _ = []"

lemma unat_mpt_offset:
  assumes "0 < n" "unat len * n < 2 ^ 64" "i \<le> n"
  shows "unat (mpt_offset len n i) = unat len * i div n"
proof (cases "unat len = 0")
  case True
  then show ?thesis by (simp add: mpt_offset_def unsigned_eq_0_iff)
next
  case False
  have "n \<le> unat len * n" using False by simp
  then have n: "n < 2 ^ 64" using assms(2) by linarith
  have "unat len * i \<le> unat len * n" using assms(3) by simp
  then have li: "unat len * i < 2 ^ 64" using assms(2) by linarith
  have "len * of_nat i = of_nat (unat len * i)" by simp
  then have "unat (len * of_nat i) = unat len * i"
    using li by (simp only: unsigned_of_nat) (simp add: take_bit_nat_eq_self)
  moreover have "unat (of_nat n :: 64 word) = n"
    using n by (simp add: unsigned_of_nat take_bit_nat_eq_self)
  ultimately show ?thesis by (simp add: mpt_offset_def unat_div)
qed

lemma byte_range_append:
  assumes "a \<le> b" shows "byte_range p a @ byte_range (p + a) (b - a) = byte_range p b"
proof -
  have u: "unat a \<le> unat b" "unat (b - a) = unat b - unat a"
    using assms by (simp_all add: word_le_nat_alt unat_sub)
  have "map (\<lambda>k. p + a + of_nat k) [0..<unat b - unat a] = map (\<lambda>k. p + of_nat k) [unat a..<unat b]"
    by (rule nth_equalityI) (auto simp: ac_simps)
  then show ?thesis
    using upt_add_eq_append [of 0 "unat a" "unat b - unat a"] u by (simp add: byte_range_def ac_simps)
qed

lemma mpt_chunks_cover:
  assumes "0 < n" "unat (op_length op) * n < 2 ^ 64" "i \<le> n"
  shows "concat (map (\<lambda>i. byte_range (fst (mpt_chunk op n i)) (snd (mpt_chunk op n i))) [0..<i]) =
    byte_range (op_ptr op) (mpt_offset (op_length op) n i)"
  using assms(3)
proof (induction i)
  case 0
  then show ?case by (simp add: mpt_offset_def byte_range_def)
next
  case (Suc i)
  let ?len = "op_length op"
  have "unat ?len * i div n \<le> unat ?len * Suc i div n" by (rule div_le_mono) simp
  then have "mpt_offset ?len n i \<le> mpt_offset ?len n (Suc i)"
    using unat_mpt_offset [OF assms(1,2)] Suc.prems by (simp add: word_le_nat_alt)
  from byte_range_append [OF this, of "op_ptr op"] show ?case
    using Suc by (simp add: mpt_chunk_def)
qed

lemma mpt_offset_all:
  assumes "0 < n" "unat len * n < 2 ^ 64"
  shows "mpt_offset len n n = len"
proof -
  have "unat (mpt_offset len n n) = unat len" using unat_mpt_offset [OF assms order_refl] assms(1) by simp
  then show ?thesis by (rule unsigned_word_eqI)
qed

text \<open>
  C39: the chunks that \<^verbatim>\<open>writeChunks\<close> and \<^verbatim>\<open>readChunks\<close> pass to the lanes cover the buffer of the
  operation exactly, each byte once and in order, and the operation counts one chunk per lane,
  as long as the product of length and number of lanes fits 64 bits.
\<close>

theorem mpt_chunks_partition:
  assumes "mpt_lanes c \<noteq> []" and "None \<notin> set (mpt_lanes c)"
    and "unat (op_length op) * length (mpt_lanes c) < 2 ^ 64"
    and "unat (op_length rop) * length (mpt_lanes c) < 2 ^ 64"
  shows "\<exists>op' c1 rop' c2. mpt_writeChunks op c = Inr (op', c1) \<and> mpt_readChunks rop c = Inr (rop', c2) \<and>
    ms_numChunksBeingWritten op' = ms_numChunksBeingWritten op + int (length (mpt_lanes c)) \<and>
    mr_numChunksBeingRead rop' = mr_numChunksBeingRead rop + int (length (mpt_lanes c)) \<and>
    concat (map lane_bytes (drop (length (chan_log c)) (chan_log c1))) = byte_range (op_ptr op) (op_length op) \<and>
    concat (map lane_bytes (drop (length (chan_log c)) (chan_log c2))) = byte_range (op_ptr rop) (op_length rop)"
proof -
  let ?n = "length (mpt_lanes c)"
  have n: "0 < ?n" using assms(1) by simp
  note cover = mpt_chunks_cover [OF n assms(3) order_refl] mpt_chunks_cover [OF n assms(4) order_refl]
  show ?thesis
    using mpt_lanes_nth [OF assms(2)] cover mpt_offset_all [OF n assms(3)] mpt_offset_all [OF n assms(4)]
    by (simp add: mpt_writeChunks_def mpt_readChunks_def mpt_write_lanes_eq mpt_read_lanes_eq comp_def)
qed

theorem mpt_chunks_partition_witness:
  "\<exists>op' c1. mpt_writeChunks \<lparr>sequenceNumber = 0, state = MptSend_UNINITIALIZED, op_ptr = 100, op_length = 5,
      op_callback = Some 7, ms_numChunksBeingWritten = 0\<rparr>
      ((core mpt_client)\<lparr>mpt_lanes := [Some (MptAccepted 0), Some (MptAccepted 1)]\<rparr>) = Inr (op', c1) \<and>
    ms_numChunksBeingWritten op' = 2"
proof -
  let ?op = "\<lparr>sequenceNumber = 0, state = MptSend_UNINITIALIZED, op_ptr = 100, op_length = 5,
    op_callback = Some 7, ms_numChunksBeingWritten = 0\<rparr>"
  let ?rop = "\<lparr>sequenceNumber = 0, state = MptRecv_UNINITIALIZED, op_ptr = 100, op_length = 5,
    op_callback = Some 7, mr_numChunksBeingRead = 0\<rparr>"
  let ?c = "(core mpt_client)\<lparr>mpt_lanes := [Some (MptAccepted 0), Some (MptAccepted 1)]\<rparr>"
  show ?thesis using mpt_chunks_partition [of ?c ?op ?rop] by auto
qed

lemma mpt_channel_no_fault:
  assumes "mpt_trace evs ch" and "mpt_enabled ev ch"
  shows "\<exists>ch'. mpt_step ev ch = Inr ch'"
  using mpt_trace_inv [OF assms(1), of False] mpt_step_inv [of False ch ev] assms(2) by blast

lemma mpt_released:
  assumes "mpt_chan_inv nz ch" and "is_error (chan_error (core ch)) \<or> mpt_state (core ch) = Mpt_ESTABLISHED"
    and "\<not> list_ex mpt_writing (sendOps ch)" and "\<not> list_ex mpt_reading (recvOps ch)"
  shows "sendOps ch = [] \<and> recvOps ch = []"
proof
  have sfront: "mpt_writing op" if "stable mpt_advanceSendOperation op MptSend_FINISHED (core ch)" "state op \<noteq> MptSend_FINISHED" for op
    using that assms(2) by (cases "state op") (auto simp: stable_def mpt_advanceSendOperation_def mpt_writing_def)
  have rfront: "mpt_reading op" if "stable mpt_advanceRecvOperation op MptRecv_FINISHED (core ch)" "state op \<noteq> MptRecv_FINISHED" for op
    using that assms(2) by (cases "state op") (auto simp: stable_def mpt_advanceRecvOperation_def mpt_reading_def)
  show "sendOps ch = []"
    by (rule mpt.send.drained [where waiting = mpt_writing])
      (use assms sfront in \<open>auto simp: chan_inv_def list_ex_iff\<close>)
  show "recvOps ch = []"
    by (rule mpt.recv.drained [where waiting = mpt_reading])
      (use assms rfront in \<open>auto simp: chan_inv_def list_ex_iff\<close>)
qed

lemma mpt_channel_callbacks_once:
  assumes "mpt_trace evs ch"
    and "mpt_state (core ch) = Mpt_ESTABLISHED \<or> is_error (chan_error (core ch)) \<and> list_all mpt_nonempty evs"
    and "\<not> list_ex mpt_writing (sendOps ch)" and "\<not> list_ex mpt_reading (recvOps ch)"
  shows "called (core ch) = sum_list (map mpt_requested evs) \<and> sendOps ch = [] \<and> recvOps ch = []"
proof -
  obtain nz where nz: "nz \<longrightarrow> list_all mpt_nonempty evs" "nz \<or> mpt_state (core ch) = Mpt_ESTABLISHED"
    using assms(2) by blast
  have inv: "mpt_inv nz ch" and acc: "accounted owes_send owes_recv ch = sum_list (map mpt_requested evs)"
    using mpt_trace_inv [OF assms(1) nz(1)] by auto
  have "sendOps ch = [] \<and> recvOps ch = []"
    by (rule mpt_released [where nz = nz]) (use inv nz(2) assms in \<open>auto simp: mpt_inv_def\<close>)
  then show ?thesis using acc by (simp add: accounted_def)
qed



text \<open>With an error and no chunk outstanding, nothing moves the deques any more.\<close>

lemma mpt_frozen_step:
  assumes "is_error (chan_error (core ch))" "\<not> list_ex mpt_writing (sendOps ch)" "\<not> list_ex mpt_reading (recvOps ch)"
    and "mpt_enabled ev ch" "mpt_step ev ch = Inr ch'"
  shows "sendOps ch' = sendOps ch \<and> recvOps ch' = recvOps ch \<and> chan_error (core ch') = chan_error (core ch)"
  using assms
  by (cases ev) (auto simp: chan_sendFromLoop_def chan_recvFromLoop_def chan_setIdFromLoop_def chan_closeFromLoop_def
      chan_setError_def entryPointFromLoop_def mpt_unless_error_def Let_def list_ex_iff)

lemma mpt_frozen_run:
  assumes "is_error (chan_error (core ch))" "\<not> list_ex mpt_writing (sendOps ch)" "\<not> list_ex mpt_reading (recvOps ch)"
    and "mpt_run evs ch = Some ch'"
  shows "sendOps ch' = sendOps ch \<and> recvOps ch' = recvOps ch"
  using assms
proof (induction evs arbitrary: ch)
  case (Cons ev evs)
  then obtain ch1 where ch1: "mpt_enabled ev ch" "mpt_step ev ch = Inr ch1" "mpt_run evs ch1 = Some ch'"
    by (auto split: if_splits sum.splits)
  show ?case using Cons.IH [OF _ _ _ ch1(3)] mpt_frozen_step [OF Cons.prems(1-3) ch1(1,2)] Cons.prems by simp
qed simp


end
