(* ===== verification/Cuda_Basic_Channel.thy ===== *)
theory Cuda_Basic_Channel
  imports Channel_Boilerplate
begin

text \<open>
  The channel \<^verbatim>\<open>tensorpipe/channel/cuda_basic\<close>, which moves buffers of CUDA devices through a channel
  for CPU memory: it cuts each buffer into chunks, copies a chunk to a staging buffer, sends that
  through the CPU channel, and the receiver copies it on to its device. A buffer in CPU memory
  skips the staging. The theory has both state machines, the loops that create the chunks, the
  callbacks of the connection, the allocator, the CUDA loop and the CPU channel, and error handling.
  Calls on the CUDA runtime are recorded as calls that succeed; handing on a staging buffer that is
  not there is a fault.
\<close>

section \<open>Operations\<close>

datatype cb_send_state =
    CbSend_UNINITIALIZED
  | CbSend_ALLOCATING_CPU_BUFFER
  | CbSend_COPYING_FROM_GPU_TO_CPU
  | CbSend_INVOKED_CALLBACK
  | CbSend_SENDING_CPU_BUFFER
  | CbSend_FINISHED

datatype cb_recv_state =
    CbRecv_UNINITIALIZED
  | CbRecv_READING_READY_TO_SEND
  | CbRecv_ALLOCATING_CPU_BUFFER
  | CbRecv_RECEIVING_CPU_BUFFER
  | CbRecv_COPYING_FROM_CPU_TO_GPU
  | CbRecv_COPYING_FROM_CPU_TO_GPU_AND_INVOKED_CALLBACK
  | CbRecv_FINISHED

fun cb_send_pos :: "cb_send_state \<Rightarrow> nat" where
  "cb_send_pos CbSend_UNINITIALIZED = 0"
| "cb_send_pos CbSend_ALLOCATING_CPU_BUFFER = 1"
| "cb_send_pos CbSend_COPYING_FROM_GPU_TO_CPU = 2"
| "cb_send_pos CbSend_INVOKED_CALLBACK = 3"
| "cb_send_pos CbSend_SENDING_CPU_BUFFER = 4"
| "cb_send_pos CbSend_FINISHED = 5"

fun cb_recv_pos :: "cb_recv_state \<Rightarrow> nat" where
  "cb_recv_pos CbRecv_UNINITIALIZED = 0"
| "cb_recv_pos CbRecv_READING_READY_TO_SEND = 1"
| "cb_recv_pos CbRecv_ALLOCATING_CPU_BUFFER = 2"
| "cb_recv_pos CbRecv_RECEIVING_CPU_BUFFER = 3"
| "cb_recv_pos CbRecv_COPYING_FROM_CPU_TO_GPU = 4"
| "cb_recv_pos CbRecv_COPYING_FROM_CPU_TO_GPU_AND_INVOKED_CALLBACK = 5"
| "cb_recv_pos CbRecv_FINISHED = 6"

lemma cb_send_pos_inj: "cb_send_pos a = cb_send_pos b \<Longrightarrow> a = b"
  by (cases a; cases b) simp_all

lemma cb_recv_pos_inj: "cb_recv_pos a = cb_recv_pos b \<Longrightarrow> a = b"
  by (cases a; cases b) simp_all

instantiation cb_send_state :: linorder
begin

definition less_eq_cb_send_state :: "cb_send_state \<Rightarrow> cb_send_state \<Rightarrow> bool" where
  "less_eq_cb_send_state a b \<longleftrightarrow> cb_send_pos a \<le> cb_send_pos b"

definition less_cb_send_state :: "cb_send_state \<Rightarrow> cb_send_state \<Rightarrow> bool" where
  "less_cb_send_state a b \<longleftrightarrow> cb_send_pos a < cb_send_pos b"

instance
  by standard (auto simp: less_eq_cb_send_state_def less_cb_send_state_def dest: cb_send_pos_inj)

end

instantiation cb_recv_state :: linorder
begin

definition less_eq_cb_recv_state :: "cb_recv_state \<Rightarrow> cb_recv_state \<Rightarrow> bool" where
  "less_eq_cb_recv_state a b \<longleftrightarrow> cb_recv_pos a \<le> cb_recv_pos b"

definition less_cb_recv_state :: "cb_recv_state \<Rightarrow> cb_recv_state \<Rightarrow> bool" where
  "less_cb_recv_state a b \<longleftrightarrow> cb_recv_pos a < cb_recv_pos b"

instance
  by standard (auto simp: less_eq_cb_recv_state_def less_cb_recv_state_def dest: cb_recv_pos_inj)

end

lemmas cb_state_order [simp] =
  less_eq_cb_send_state_def less_cb_send_state_def
  less_eq_cb_recv_state_def less_cb_recv_state_def

text \<open>The arguments and data that both kinds of chunk operations have; a null \<^verbatim>\<open>tmpBuffer\<close> is \<open>None\<close>.\<close>

record 's cb_op = "'s data_op" +
  cb_bufferSequenceNumber :: nat
  cb_isCpuBuffer :: bool
  cb_chunkId :: "64 word"
  cb_numChunks :: "64 word"
  cb_stream :: addr
  cb_deviceIdx :: int
  cb_tmpBuffer :: "addr option"
  cb_doneAllocatingCpuStagingBuffer :: bool

record cb_send_op = "cb_send_state cb_op" +
  cbs_doneCopyingFromGpuToCpu :: bool
  cbs_doneSendingCpuBuffer :: bool

record cb_recv_op = "cb_recv_state cb_op" +
  cbr_doneReadingReadyToSend :: bool
  cbr_doneReceivingCpuBuffer :: bool
  cbr_doneCopyingFromCpuToGpu :: bool

text \<open>
  A \<^verbatim>\<open>Buffer\<close> as the channel sees it: its device, and what \<^verbatim>\<open>unwrap\<close> gives for that kind of device
  (the stream of a CPU buffer is never asked for).
\<close>

record tp_buffer =
  buf_deviceType :: string
  buf_deviceIndex :: int
  buf_ptr :: addr
  buf_stream :: addr

definition kCpuDeviceType :: string where
  "kCpuDeviceType = ''cpu''"

definition kCudaDeviceType :: string where
  "kCudaDeviceType = ''cuda''"

definition cb_kSlotSize :: "64 word" where
  "cb_kSlotSize = 1024 * 1024"

text \<open>Calls on the control connection, the allocators, the CUDA runtime and the CPU channel.\<close>

datatype cb_call =
    CbAllocSend nat bytes_len int
  | CbAllocRecv nat bytes_len int
  | CbReleaseStaging addr
  | CbWriteReadyToSend nat
  | CbReadReadyToSend nat
  | CbCudaCopy nat addr addr bytes_len int addr
  | CbCpuSend nat addr bytes_len
  | CbCpuRecv nat addr bytes_len
  | CbSetCpuChannelId string
  | CbCloseConnection
  | CbCloseCpuChannel

record cb_core = "cb_call chan_core" +
  cb_nextChunkBeingSent :: nat
  cb_nextChunkBeingReceived :: nat

type_synonym cb_channel = "(cb_core, cb_send_op, cb_recv_op) channel"

section \<open>Actions\<close>

definition cb_ceilOfRatio :: "64 word \<Rightarrow> 64 word \<Rightarrow> 64 word" where
  "cb_ceilOfRatio n d = (n + d - 1) div d"

text \<open>\<^verbatim>\<open>Allocator::alloc\<close> checks the size it is asked for.\<close>

definition cb_allocateSendCpuBuffer :: "cb_send_op \<Rightarrow> cb_core \<Rightarrow> (cb_send_op \<times> cb_core) result" where
  "cb_allocateSendCpuBuffer op c =
     dcheck (op_length op \<le> cb_kSlotSize)
       (Inr (op, log_effects [Lower (CbAllocSend (sequenceNumber op) (op_length op) (cb_deviceIdx op))] c))"

definition cb_writeReadyToSend :: "cb_send_op \<Rightarrow> cb_core \<Rightarrow> (cb_send_op \<times> cb_core) result" where
  "cb_writeReadyToSend op c = Inr (op, log_effects [Lower (CbWriteReadyToSend (sequenceNumber op))] c)"

text \<open>
  \<^verbatim>\<open>cudaCopy\<close> asks the runtime for the copy and the CUDA loop for a callback after it.
\<close>

definition cb_cudaCopy :: "nat \<Rightarrow> addr \<Rightarrow> addr \<Rightarrow> bytes_len \<Rightarrow> int \<Rightarrow> addr \<Rightarrow> cb_core \<Rightarrow> cb_core" where
  "cb_cudaCopy sn dst src len deviceIdx stream c =
     log_effects [Lower (CbCudaCopy sn dst src len deviceIdx stream)] c"

definition cb_copyFromGpuToCpu :: "cb_send_op \<Rightarrow> cb_core \<Rightarrow> (cb_send_op \<times> cb_core) result" where
  "cb_copyFromGpuToCpu op c =
     (case cb_tmpBuffer op of
        None \<Rightarrow> Inl NullDereference
      | Some tmp \<Rightarrow>
          Inr (op, cb_cudaCopy (sequenceNumber op) tmp (op_ptr op) (op_length op) (cb_deviceIdx op) (cb_stream op) c))"

definition cb_cpuPtr :: "('s, 'm) cb_op_scheme \<Rightarrow> addr option" where
  "cb_cpuPtr op = (if cb_isCpuBuffer op then Some (op_ptr op) else cb_tmpBuffer op)"

definition cb_sendCpuBuffer :: "cb_send_op \<Rightarrow> cb_core \<Rightarrow> (cb_send_op \<times> cb_core) result" where
  "cb_sendCpuBuffer op c =
     (case cb_cpuPtr op of
        None \<Rightarrow> Inl NullDereference
      | Some p \<Rightarrow> Inr (op, log_effects [Lower (CbCpuSend (sequenceNumber op) p (op_length op))] c))"

definition cb_callSendCallback :: "cb_send_op \<Rightarrow> cb_core \<Rightarrow> (cb_send_op \<times> cb_core) result" where
  "cb_callSendCallback op c =
     (if op_callback op \<noteq> None then call_send_callback op c else Inr (op, c))"

text \<open>The deleter of the staging buffer gives it back to its allocator.\<close>

definition cb_returnCpuBuffer ::
  "('s, 'm) cb_op_scheme \<Rightarrow> cb_core \<Rightarrow> (('s, 'm) cb_op_scheme \<times> cb_core) result" where
  "cb_returnCpuBuffer op c =
     Inr (op\<lparr>cb_tmpBuffer := None\<rparr>,
       (case cb_tmpBuffer op of
          None \<Rightarrow> c
        | Some tmp \<Rightarrow> log_effects [Lower (CbReleaseStaging tmp)] c))"

definition cb_returnSendCpuBuffer :: "cb_send_op \<Rightarrow> cb_core \<Rightarrow> (cb_send_op \<times> cb_core) result" where
  "cb_returnSendCpuBuffer op c = cb_returnCpuBuffer op c"

definition cb_readReadyToSend :: "cb_recv_op \<Rightarrow> cb_core \<Rightarrow> (cb_recv_op \<times> cb_core) result" where
  "cb_readReadyToSend op c = Inr (op, log_effects [Lower (CbReadReadyToSend (sequenceNumber op))] c)"

definition cb_allocateRecvCpuBuffer :: "cb_recv_op \<Rightarrow> cb_core \<Rightarrow> (cb_recv_op \<times> cb_core) result" where
  "cb_allocateRecvCpuBuffer op c =
     dcheck (op_length op \<le> cb_kSlotSize)
       (Inr (op, log_effects [Lower (CbAllocRecv (sequenceNumber op) (op_length op) (cb_deviceIdx op))] c))"

definition cb_receiveCpuBuffer :: "cb_recv_op \<Rightarrow> cb_core \<Rightarrow> (cb_recv_op \<times> cb_core) result" where
  "cb_receiveCpuBuffer op c =
     (case cb_cpuPtr op of
        None \<Rightarrow> Inl NullDereference
      | Some p \<Rightarrow> Inr (op, log_effects [Lower (CbCpuRecv (sequenceNumber op) p (op_length op))] c))"

definition cb_copyFromCpuToGpu :: "cb_recv_op \<Rightarrow> cb_core \<Rightarrow> (cb_recv_op \<times> cb_core) result" where
  "cb_copyFromCpuToGpu op c =
     (case cb_tmpBuffer op of
        None \<Rightarrow> Inl NullDereference
      | Some tmp \<Rightarrow>
          Inr (op, cb_cudaCopy (sequenceNumber op) (op_ptr op) tmp (op_length op) (cb_deviceIdx op) (cb_stream op) c))"

definition cb_callRecvCallback :: "cb_recv_op \<Rightarrow> cb_core \<Rightarrow> (cb_recv_op \<times> cb_core) result" where
  "cb_callRecvCallback op c =
     (if op_callback op \<noteq> None then call_recv_callback op c else Inr (op, c))"

definition cb_returnRecvCpuBuffer :: "cb_recv_op \<Rightarrow> cb_core \<Rightarrow> (cb_recv_op \<times> cb_core) result" where
  "cb_returnRecvCpuBuffer op c = cb_returnCpuBuffer op c"

section \<open>Transitions\<close>

type_synonym cb_send_table =
  "(cb_send_state, unit cb_send_op_ext cb_op_ext data_op_ext, cb_core) transition list"
type_synonym cb_recv_table =
  "(cb_recv_state, unit cb_recv_op_ext cb_op_ext data_op_ext, cb_core) transition list"

definition cb_advanceChunkSendOperation :: cb_send_table where
  "cb_advanceChunkSendOperation =
    [Transition CbSend_UNINITIALIZED CbSend_FINISHED
       (\<lambda>op prev c. is_error (chan_error c) \<and> prev \<ge> CbSend_INVOKED_CALLBACK)
       [cb_callSendCallback],
     Transition CbSend_UNINITIALIZED CbSend_SENDING_CPU_BUFFER
       (\<lambda>op prev c. \<not> is_error (chan_error c) \<and> cb_isCpuBuffer op \<and> prev \<ge> CbSend_SENDING_CPU_BUFFER)
       [cb_writeReadyToSend, cb_sendCpuBuffer],
     Transition CbSend_UNINITIALIZED CbSend_ALLOCATING_CPU_BUFFER
       (\<lambda>op prev c. \<not> is_error (chan_error c) \<and> \<not> cb_isCpuBuffer op \<and> prev \<ge> CbSend_ALLOCATING_CPU_BUFFER)
       [cb_allocateSendCpuBuffer],
     Transition CbSend_ALLOCATING_CPU_BUFFER CbSend_FINISHED
       (\<lambda>op prev c. is_error (chan_error c) \<and> cb_doneAllocatingCpuStagingBuffer op \<and> prev \<ge> CbSend_INVOKED_CALLBACK)
       [cb_callSendCallback, cb_returnSendCpuBuffer],
     Transition CbSend_ALLOCATING_CPU_BUFFER CbSend_COPYING_FROM_GPU_TO_CPU
       (\<lambda>op prev c. \<not> is_error (chan_error c) \<and> cb_doneAllocatingCpuStagingBuffer op \<and>
          prev \<ge> CbSend_COPYING_FROM_GPU_TO_CPU)
       [cb_writeReadyToSend, cb_copyFromGpuToCpu],
     Transition CbSend_COPYING_FROM_GPU_TO_CPU CbSend_FINISHED
       (\<lambda>op prev c. is_error (chan_error c) \<and> cbs_doneCopyingFromGpuToCpu op \<and> prev \<ge> CbSend_INVOKED_CALLBACK)
       [cb_callSendCallback, cb_returnSendCpuBuffer],
     Transition CbSend_COPYING_FROM_GPU_TO_CPU CbSend_INVOKED_CALLBACK
       (\<lambda>op prev c. \<not> is_error (chan_error c) \<and> cbs_doneCopyingFromGpuToCpu op \<and> prev \<ge> CbSend_INVOKED_CALLBACK)
       [cb_callSendCallback],
     Transition CbSend_INVOKED_CALLBACK CbSend_FINISHED
       (\<lambda>op prev c. is_error (chan_error c))
       [cb_returnSendCpuBuffer],
     Transition CbSend_INVOKED_CALLBACK CbSend_SENDING_CPU_BUFFER
       (\<lambda>op prev c. \<not> is_error (chan_error c) \<and> prev \<ge> CbSend_SENDING_CPU_BUFFER)
       [cb_sendCpuBuffer],
     Transition CbSend_SENDING_CPU_BUFFER CbSend_FINISHED
       (\<lambda>op prev c. cbs_doneSendingCpuBuffer op \<and> cb_isCpuBuffer op)
       [cb_callSendCallback],
     Transition CbSend_SENDING_CPU_BUFFER CbSend_FINISHED
       (\<lambda>op prev c. cbs_doneSendingCpuBuffer op \<and> \<not> cb_isCpuBuffer op)
       [cb_returnSendCpuBuffer]]"

definition cb_advanceChunkRecvOperation :: cb_recv_table where
  "cb_advanceChunkRecvOperation =
    [Transition CbRecv_UNINITIALIZED CbRecv_FINISHED
       (\<lambda>op prev c. is_error (chan_error c) \<and> prev \<ge> CbRecv_COPYING_FROM_CPU_TO_GPU_AND_INVOKED_CALLBACK)
       [cb_callRecvCallback],
     Transition CbRecv_UNINITIALIZED CbRecv_READING_READY_TO_SEND
       (\<lambda>op prev c. \<not> is_error (chan_error c) \<and> prev \<ge> CbRecv_READING_READY_TO_SEND)
       [cb_readReadyToSend],
     Transition CbRecv_READING_READY_TO_SEND CbRecv_FINISHED
       (\<lambda>op prev c. is_error (chan_error c) \<and> cbr_doneReadingReadyToSend op \<and>
          prev \<ge> CbRecv_COPYING_FROM_CPU_TO_GPU_AND_INVOKED_CALLBACK)
       [cb_callRecvCallback],
     Transition CbRecv_READING_READY_TO_SEND CbRecv_RECEIVING_CPU_BUFFER
       (\<lambda>op prev c. \<not> is_error (chan_error c) \<and> cbr_doneReadingReadyToSend op \<and> cb_isCpuBuffer op \<and>
          prev \<ge> CbRecv_RECEIVING_CPU_BUFFER)
       [cb_receiveCpuBuffer],
     Transition CbRecv_READING_READY_TO_SEND CbRecv_ALLOCATING_CPU_BUFFER
       (\<lambda>op prev c. \<not> is_error (chan_error c) \<and> cbr_doneReadingReadyToSend op \<and> \<not> cb_isCpuBuffer op \<and>
          prev \<ge> CbRecv_ALLOCATING_CPU_BUFFER)
       [cb_allocateRecvCpuBuffer],
     Transition CbRecv_ALLOCATING_CPU_BUFFER CbRecv_FINISHED
       (\<lambda>op prev c. is_error (chan_error c) \<and> cb_doneAllocatingCpuStagingBuffer op \<and>
          prev \<ge> CbRecv_COPYING_FROM_CPU_TO_GPU_AND_INVOKED_CALLBACK)
       [cb_callRecvCallback, cb_returnRecvCpuBuffer],
     Transition CbRecv_ALLOCATING_CPU_BUFFER CbRecv_RECEIVING_CPU_BUFFER
       (\<lambda>op prev c. \<not> is_error (chan_error c) \<and> cb_doneAllocatingCpuStagingBuffer op \<and>
          prev \<ge> CbRecv_RECEIVING_CPU_BUFFER)
       [cb_receiveCpuBuffer],
     Transition CbRecv_RECEIVING_CPU_BUFFER CbRecv_FINISHED
       (\<lambda>op prev c. is_error (chan_error c) \<and> cbr_doneReceivingCpuBuffer op \<and> \<not> cb_isCpuBuffer op \<and>
          prev \<ge> CbRecv_COPYING_FROM_CPU_TO_GPU_AND_INVOKED_CALLBACK)
       [cb_callRecvCallback, cb_returnRecvCpuBuffer],
     Transition CbRecv_RECEIVING_CPU_BUFFER CbRecv_FINISHED
       (\<lambda>op prev c. cbr_doneReceivingCpuBuffer op \<and> cb_isCpuBuffer op)
       [cb_callRecvCallback],
     Transition CbRecv_RECEIVING_CPU_BUFFER CbRecv_COPYING_FROM_CPU_TO_GPU
       (\<lambda>op prev c. \<not> is_error (chan_error c) \<and> cbr_doneReceivingCpuBuffer op \<and> \<not> cb_isCpuBuffer op)
       [cb_copyFromCpuToGpu],
     Transition CbRecv_COPYING_FROM_CPU_TO_GPU CbRecv_COPYING_FROM_CPU_TO_GPU_AND_INVOKED_CALLBACK
       (\<lambda>op prev c. prev \<ge> CbRecv_COPYING_FROM_CPU_TO_GPU_AND_INVOKED_CALLBACK)
       [cb_callRecvCallback],
     Transition CbRecv_COPYING_FROM_CPU_TO_GPU_AND_INVOKED_CALLBACK CbRecv_FINISHED
       (\<lambda>op prev c. cbr_doneCopyingFromCpuToGpu op)
       [cb_returnRecvCpuBuffer]]"

section \<open>Handlers\<close>

definition cb_init :: "string \<Rightarrow> cb_channel" where
  "cb_init i =
     \<lparr>core = chan_core.extend (chan_init_core i) (cb_core.fields 0 0), sendOps = [], recvOps = []\<rparr>"

definition cb_initImplFromLoop :: "cb_channel \<Rightarrow> cb_channel result" where
  "cb_initImplFromLoop ch = Inr (ch\<lparr>core := log_effects [EnrollChannel] (core ch)\<rparr>)"

text \<open>
  The operation for the chunk at an offset: the fields that both kinds have. The callback goes to
  the last chunk, which is done after the others.
\<close>

definition cb_chunk ::
  "'s \<Rightarrow> nat \<Rightarrow> tp_buffer \<Rightarrow> bytes_len \<Rightarrow> nat \<Rightarrow> 64 word \<Rightarrow> 'm \<Rightarrow> ('s, 'm) cb_op_scheme" where
  "cb_chunk s bsn buffer len callback offset m =
     (let numChunks = cb_ceilOfRatio len cb_kSlotSize;
          chunkId = offset div cb_kSlotSize;
          isCpu = (buf_deviceType buffer = kCpuDeviceType)
      in \<lparr>sequenceNumber = 0, state = s, op_ptr = buf_ptr buffer + offset,
          op_length = min (len - offset) cb_kSlotSize,
          op_callback = (if chunkId = numChunks - 1 then Some callback else None),
          cb_bufferSequenceNumber = bsn, cb_isCpuBuffer = isCpu, cb_chunkId = chunkId,
          cb_numChunks = numChunks,
          cb_stream = (if isCpu then 0 else buf_stream buffer),
          cb_deviceIdx = (if isCpu then 0 else buf_deviceIndex buffer),
          cb_tmpBuffer = None, cb_doneAllocatingCpuStagingBuffer = False, \<dots> = m\<rparr>)"

text \<open>
  The loops of \<^verbatim>\<open>sendImplFromLoop\<close> and \<^verbatim>\<open>recvImplFromLoop\<close>, with the offset on 64-bit words; the
  fuel is the number of chunks.
\<close>

fun cb_send_chunks ::
  "nat \<Rightarrow> nat \<Rightarrow> tp_buffer \<Rightarrow> bytes_len \<Rightarrow> nat \<Rightarrow> 64 word \<Rightarrow> cb_channel \<Rightarrow> cb_channel result" where
  "cb_send_chunks 0 bsn buffer len callback offset ch = (if offset < len then Inl OutOfFuel else Inr ch)"
| "cb_send_chunks (Suc k) bsn buffer len callback offset ch =
     (if offset < len then
        let sn = cb_nextChunkBeingSent (core ch);
            ch1 = ch\<lparr>core := (core ch)\<lparr>cb_nextChunkBeingSent := Suc sn\<rparr>\<rparr>
        in if buf_deviceType buffer = kCpuDeviceType \<or> buf_deviceType buffer = kCudaDeviceType
           then bindR (send_start CbSend_FINISHED cb_advanceChunkSendOperation
                  (cb_chunk CbSend_UNINITIALIZED bsn buffer len callback offset (cb_send_op.fields False False)) sn ch1)
                (cb_send_chunks k bsn buffer len callback (offset + cb_kSlotSize))
           else Inl AssertFailed
      else Inr ch)"

definition cb_sendImplFromLoop ::
  "nat \<Rightarrow> tp_buffer \<Rightarrow> bytes_len \<Rightarrow> nat \<Rightarrow> cb_channel \<Rightarrow> cb_channel result" where
  "cb_sendImplFromLoop sn buffer len callback ch =
     (if len = 0
      then Inr (ch\<lparr>core := log_effects [SendCallback callback (chan_error (core ch))] (core ch)\<rparr>)
      else cb_send_chunks (unat (cb_ceilOfRatio len cb_kSlotSize)) sn buffer len callback 0 ch)"

fun cb_recv_chunks ::
  "nat \<Rightarrow> nat \<Rightarrow> tp_buffer \<Rightarrow> bytes_len \<Rightarrow> nat \<Rightarrow> 64 word \<Rightarrow> cb_channel \<Rightarrow> cb_channel result" where
  "cb_recv_chunks 0 bsn buffer len callback offset ch = (if offset < len then Inl OutOfFuel else Inr ch)"
| "cb_recv_chunks (Suc k) bsn buffer len callback offset ch =
     (if offset < len then
        let sn = cb_nextChunkBeingReceived (core ch);
            ch1 = ch\<lparr>core := (core ch)\<lparr>cb_nextChunkBeingReceived := Suc sn\<rparr>\<rparr>
        in if buf_deviceType buffer = kCpuDeviceType \<or> buf_deviceType buffer = kCudaDeviceType
           then bindR (recv_start CbRecv_FINISHED cb_advanceChunkRecvOperation
                  (cb_chunk CbRecv_UNINITIALIZED bsn buffer len callback offset (cb_recv_op.fields False False False)) sn ch1)
                (cb_recv_chunks k bsn buffer len callback (offset + cb_kSlotSize))
           else Inl AssertFailed
      else Inr ch)"

definition cb_recvImplFromLoop ::
  "nat \<Rightarrow> tp_buffer \<Rightarrow> bytes_len \<Rightarrow> nat \<Rightarrow> cb_channel \<Rightarrow> cb_channel result" where
  "cb_recvImplFromLoop sn buffer len callback ch =
     (if len = 0
      then Inr (ch\<lparr>core := log_effects [RecvCallback callback (chan_error (core ch))] (core ch)\<rparr>)
      else cb_recv_chunks (unat (cb_ceilOfRatio len cb_kSlotSize)) sn buffer len callback 0 ch)"

definition cb_setIdImpl :: "cb_channel \<Rightarrow> cb_channel" where
  "cb_setIdImpl ch =
     ch\<lparr>core := log_effects [Lower (CbSetCpuChannelId (chan_id (core ch) @ ''.cpu''))] (core ch)\<rparr>"

definition cb_handleErrorImpl :: "cb_channel \<Rightarrow> cb_channel result" where
  "cb_handleErrorImpl ch =
     bindR (advance_both CbSend_FINISHED cb_advanceChunkSendOperation
              CbRecv_FINISHED cb_advanceChunkRecvOperation ch)
       (\<lambda>ch'. Inr (ch'\<lparr>core := log_effects
          [Lower CbCloseConnection, Lower CbCloseCpuChannel, UnenrollChannel] (core ch')\<rparr>))"

text \<open>The callbacks that the actions pass on; that of the write does nothing.\<close>

definition cb_setStaging :: "addr option \<Rightarrow> tp_error \<Rightarrow> ('s, 'm) cb_op_scheme \<Rightarrow> ('s, 'm) cb_op_scheme" where
  "cb_setStaging tmp e op =
     (let op1 = op\<lparr>cb_doneAllocatingCpuStagingBuffer := True\<rparr>
      in if \<not> is_error e then op1\<lparr>cb_tmpBuffer := tmp\<rparr> else op1)"

definition cb_onSendAllocated :: "nat \<Rightarrow> addr option \<Rightarrow> cb_channel \<Rightarrow> cb_channel result" where
  "cb_onSendAllocated sn tmp ch =
     send_resume CbSend_FINISHED cb_advanceChunkSendOperation sn (cb_setStaging tmp (chan_error (core ch))) ch"

definition cb_onCopiedToCpu :: "nat \<Rightarrow> cb_channel \<Rightarrow> cb_channel result" where
  "cb_onCopiedToCpu sn =
     send_resume CbSend_FINISHED cb_advanceChunkSendOperation sn (\<lambda>op. op\<lparr>cbs_doneCopyingFromGpuToCpu := True\<rparr>)"

definition cb_onCpuSent :: "nat \<Rightarrow> cb_channel \<Rightarrow> cb_channel result" where
  "cb_onCpuSent sn =
     send_resume CbSend_FINISHED cb_advanceChunkSendOperation sn (\<lambda>op. op\<lparr>cbs_doneSendingCpuBuffer := True\<rparr>)"

definition cb_onReadyToSendRead :: "nat \<Rightarrow> cb_channel \<Rightarrow> cb_channel result" where
  "cb_onReadyToSendRead sn =
     recv_resume CbRecv_FINISHED cb_advanceChunkRecvOperation sn (\<lambda>op. op\<lparr>cbr_doneReadingReadyToSend := True\<rparr>)"

definition cb_onRecvAllocated :: "nat \<Rightarrow> addr option \<Rightarrow> cb_channel \<Rightarrow> cb_channel result" where
  "cb_onRecvAllocated sn tmp ch =
     recv_resume CbRecv_FINISHED cb_advanceChunkRecvOperation sn (cb_setStaging tmp (chan_error (core ch))) ch"

definition cb_onCpuReceived :: "nat \<Rightarrow> cb_channel \<Rightarrow> cb_channel result" where
  "cb_onCpuReceived sn =
     recv_resume CbRecv_FINISHED cb_advanceChunkRecvOperation sn (\<lambda>op. op\<lparr>cbr_doneReceivingCpuBuffer := True\<rparr>)"

definition cb_onCopiedToGpu :: "nat \<Rightarrow> cb_channel \<Rightarrow> cb_channel result" where
  "cb_onCopiedToGpu sn =
     recv_resume CbRecv_FINISHED cb_advanceChunkRecvOperation sn (\<lambda>op. op\<lparr>cbr_doneCopyingFromCpuToGpu := True\<rparr>)"

definition cb_onWritten :: "cb_channel \<Rightarrow> cb_channel result" where
  "cb_onWritten ch = Inr ch"

section \<open>Events\<close>

datatype cb_event =
    CbSend tp_buffer bytes_len nat
  | CbRecv tp_buffer bytes_len nat
  | CbSetId string
  | CbCloseChannel
  | CbSendAllocated nat "addr option" tp_error
  | CbCopiedToCpu nat tp_error
  | CbCpuSent nat tp_error
  | CbReadyToSendRead nat tp_error
  | CbRecvAllocated nat "addr option" tp_error
  | CbCpuReceived nat tp_error
  | CbCopiedToGpu nat tp_error
  | CbWritten tp_error

fun cb_step :: "cb_event \<Rightarrow> cb_channel \<Rightarrow> cb_channel result" where
  "cb_step (CbSend buffer len cb) ch = chan_sendFromLoop cb_sendImplFromLoop buffer len cb ch"
| "cb_step (CbRecv buffer len cb) ch = chan_recvFromLoop cb_recvImplFromLoop buffer len cb ch"
| "cb_step (CbSetId i) ch = Inr (cb_setIdImpl (chan_setIdFromLoop i ch))"
| "cb_step CbCloseChannel ch = chan_closeFromLoop cb_handleErrorImpl ch"
| "cb_step (CbSendAllocated sn tmp e) ch =
     entryPointFromLoop (chan_setError cb_handleErrorImpl) e (cb_onSendAllocated sn tmp) ch"
| "cb_step (CbCopiedToCpu sn e) ch =
     entryPointFromLoop (chan_setError cb_handleErrorImpl) e (cb_onCopiedToCpu sn) ch"
| "cb_step (CbCpuSent sn e) ch =
     entryPointFromLoop (chan_setError cb_handleErrorImpl) e (cb_onCpuSent sn) ch"
| "cb_step (CbReadyToSendRead sn e) ch =
     entryPointFromLoop (chan_setError cb_handleErrorImpl) e (cb_onReadyToSendRead sn) ch"
| "cb_step (CbRecvAllocated sn tmp e) ch =
     entryPointFromLoop (chan_setError cb_handleErrorImpl) e (cb_onRecvAllocated sn tmp) ch"
| "cb_step (CbCpuReceived sn e) ch =
     entryPointFromLoop (chan_setError cb_handleErrorImpl) e (cb_onCpuReceived sn) ch"
| "cb_step (CbCopiedToGpu sn e) ch =
     entryPointFromLoop (chan_setError cb_handleErrorImpl) e (cb_onCopiedToGpu sn) ch"
| "cb_step (CbWritten e) ch =
     entryPointFromLoop (chan_setError cb_handleErrorImpl) e cb_onWritten ch"

text \<open>The callbacks that are outstanding for an operation.\<close>

definition cb_send_allocating :: "cb_send_op \<Rightarrow> bool" where
  "cb_send_allocating op \<longleftrightarrow>
     state op = CbSend_ALLOCATING_CPU_BUFFER \<and> \<not> cb_doneAllocatingCpuStagingBuffer op"

definition cb_copying_to_cpu :: "cb_send_op \<Rightarrow> bool" where
  "cb_copying_to_cpu op \<longleftrightarrow>
     state op = CbSend_COPYING_FROM_GPU_TO_CPU \<and> \<not> cbs_doneCopyingFromGpuToCpu op"

definition cb_cpu_sending :: "cb_send_op \<Rightarrow> bool" where
  "cb_cpu_sending op \<longleftrightarrow> state op = CbSend_SENDING_CPU_BUFFER \<and> \<not> cbs_doneSendingCpuBuffer op"

definition cb_send_outstanding :: "cb_send_op \<Rightarrow> bool" where
  "cb_send_outstanding op \<longleftrightarrow> cb_send_allocating op \<or> cb_copying_to_cpu op \<or> cb_cpu_sending op"

definition cb_reading_ready :: "cb_recv_op \<Rightarrow> bool" where
  "cb_reading_ready op \<longleftrightarrow>
     state op = CbRecv_READING_READY_TO_SEND \<and> \<not> cbr_doneReadingReadyToSend op"

definition cb_recv_allocating :: "cb_recv_op \<Rightarrow> bool" where
  "cb_recv_allocating op \<longleftrightarrow>
     state op = CbRecv_ALLOCATING_CPU_BUFFER \<and> \<not> cb_doneAllocatingCpuStagingBuffer op"

definition cb_cpu_receiving :: "cb_recv_op \<Rightarrow> bool" where
  "cb_cpu_receiving op \<longleftrightarrow> state op = CbRecv_RECEIVING_CPU_BUFFER \<and> \<not> cbr_doneReceivingCpuBuffer op"

definition cb_copying_to_gpu :: "cb_recv_op \<Rightarrow> bool" where
  "cb_copying_to_gpu op \<longleftrightarrow>
     (state op = CbRecv_COPYING_FROM_CPU_TO_GPU \<or>
      state op = CbRecv_COPYING_FROM_CPU_TO_GPU_AND_INVOKED_CALLBACK) \<and> \<not> cbr_doneCopyingFromCpuToGpu op"

definition cb_recv_outstanding :: "cb_recv_op \<Rightarrow> bool" where
  "cb_recv_outstanding op \<longleftrightarrow>
     cb_reading_ready op \<or> cb_recv_allocating op \<or> cb_cpu_receiving op \<or> cb_copying_to_gpu op"

text \<open>
  What may come: buffers of the two kinds of devices, whose length leaves room for one more chunk
  in 64 bits (the offset of the loop would wrap around otherwise), and for each outstanding call one
  callback. An allocator that reports no error gives a buffer.
\<close>

definition cb_acceptable :: "tp_buffer \<Rightarrow> bytes_len \<Rightarrow> bool" where
  "cb_acceptable buffer len \<longleftrightarrow>
     (buf_deviceType buffer = kCpuDeviceType \<or> buf_deviceType buffer = kCudaDeviceType) \<and>
     len \<le> - cb_kSlotSize"

fun cb_enabled :: "cb_event \<Rightarrow> cb_channel \<Rightarrow> bool" where
  "cb_enabled (CbSend buffer len cb) ch \<longleftrightarrow> cb_acceptable buffer len"
| "cb_enabled (CbRecv buffer len cb) ch \<longleftrightarrow> cb_acceptable buffer len"
| "cb_enabled (CbSendAllocated sn tmp e) ch \<longleftrightarrow>
     outstanding_at cb_send_allocating sn (sendOps ch) \<and> (is_error e \<or> tmp \<noteq> None)"
| "cb_enabled (CbCopiedToCpu sn e) ch \<longleftrightarrow> outstanding_at cb_copying_to_cpu sn (sendOps ch)"
| "cb_enabled (CbCpuSent sn e) ch \<longleftrightarrow> outstanding_at cb_cpu_sending sn (sendOps ch)"
| "cb_enabled (CbReadyToSendRead sn e) ch \<longleftrightarrow> outstanding_at cb_reading_ready sn (recvOps ch)"
| "cb_enabled (CbRecvAllocated sn tmp e) ch \<longleftrightarrow>
     outstanding_at cb_recv_allocating sn (recvOps ch) \<and> (is_error e \<or> tmp \<noteq> None)"
| "cb_enabled (CbCpuReceived sn e) ch \<longleftrightarrow> outstanding_at cb_cpu_receiving sn (recvOps ch)"
| "cb_enabled (CbCopiedToGpu sn e) ch \<longleftrightarrow> outstanding_at cb_copying_to_gpu sn (recvOps ch)"
| "cb_enabled _ ch \<longleftrightarrow> True"

inductive cb_trace :: "cb_event list \<Rightarrow> cb_channel \<Rightarrow> bool" where
  cb_created: "chan_initFromLoop closed cb_initImplFromLoop (cb_init i) = Inr ch \<Longrightarrow> cb_trace [] ch"
| cb_stepped: "cb_trace evs ch \<Longrightarrow> cb_enabled ev ch \<Longrightarrow> cb_step ev ch = Inr ch' \<Longrightarrow>
     cb_trace (evs @ [ev]) ch'"

section \<open>The tables meet the contract\<close>

text \<open>The chunk that carries the callback of its buffer.\<close>

definition cb_last :: "('s, 'm) cb_op_scheme \<Rightarrow> bool" where
  "cb_last op \<longleftrightarrow> cb_chunkId op = cb_numChunks op - 1"

definition cb_send_ok :: "tp_error \<Rightarrow> cb_send_op \<Rightarrow> bool" where
  "cb_send_ok e op \<longleftrightarrow>
     op_length op \<le> cb_kSlotSize \<and>
     (state op = CbSend_FINISHED \<or> state op = CbSend_INVOKED_CALLBACK \<or>
        state op = CbSend_SENDING_CPU_BUFFER \<and> \<not> cb_isCpuBuffer op \<longrightarrow> op_callback op = None) \<and>
     (cb_isCpuBuffer op \<longrightarrow> state op \<noteq> CbSend_ALLOCATING_CPU_BUFFER \<and>
        state op \<noteq> CbSend_COPYING_FROM_GPU_TO_CPU \<and> state op \<noteq> CbSend_INVOKED_CALLBACK) \<and>
     (cb_last op \<and> state op < CbSend_INVOKED_CALLBACK \<longrightarrow> op_callback op \<noteq> None) \<and>
     (state op = CbSend_INVOKED_CALLBACK \<or> state op = CbSend_SENDING_CPU_BUFFER \<and> \<not> cb_isCpuBuffer op \<longrightarrow>
        cbs_doneCopyingFromGpuToCpu op) \<and>
     (state op = CbSend_UNINITIALIZED \<longrightarrow> \<not> cb_doneAllocatingCpuStagingBuffer op) \<and>
     (\<not> is_error e \<and> state op = CbSend_ALLOCATING_CPU_BUFFER \<and> cb_doneAllocatingCpuStagingBuffer op \<or>
        state op = CbSend_COPYING_FROM_GPU_TO_CPU \<or> state op = CbSend_INVOKED_CALLBACK \<longrightarrow> cb_tmpBuffer op \<noteq> None)"

definition cb_recv_ok :: "tp_error \<Rightarrow> cb_recv_op \<Rightarrow> bool" where
  "cb_recv_ok e op \<longleftrightarrow>
     op_length op \<le> cb_kSlotSize \<and>
     (state op = CbRecv_FINISHED \<or> state op = CbRecv_COPYING_FROM_CPU_TO_GPU_AND_INVOKED_CALLBACK \<longrightarrow>
        op_callback op = None) \<and>
     (cb_isCpuBuffer op \<longrightarrow> state op \<noteq> CbRecv_ALLOCATING_CPU_BUFFER) \<and>
     (cb_last op \<and> state op < CbRecv_COPYING_FROM_CPU_TO_GPU_AND_INVOKED_CALLBACK \<longrightarrow> op_callback op \<noteq> None) \<and>
     (state op = CbRecv_UNINITIALIZED \<or> state op = CbRecv_READING_READY_TO_SEND \<longrightarrow>
        \<not> cb_doneAllocatingCpuStagingBuffer op) \<and>
     (\<not> is_error e \<and> state op = CbRecv_ALLOCATING_CPU_BUFFER \<and> cb_doneAllocatingCpuStagingBuffer op \<or>
        state op = CbRecv_RECEIVING_CPU_BUFFER \<and> \<not> cb_isCpuBuffer op \<longrightarrow> cb_tmpBuffer op \<noteq> None)"

definition cb_recv_waits :: "cb_recv_op \<Rightarrow> bool" where
  "cb_recv_waits op \<longleftrightarrow> cb_recv_outstanding op \<and> state op \<noteq> CbRecv_COPYING_FROM_CPU_TO_GPU"

lemmas cb_action_defs =
  cb_allocateSendCpuBuffer_def cb_writeReadyToSend_def cb_copyFromGpuToCpu_def cb_sendCpuBuffer_def
  cb_callSendCallback_def cb_returnSendCpuBuffer_def cb_readReadyToSend_def cb_allocateRecvCpuBuffer_def
  cb_receiveCpuBuffer_def cb_copyFromCpuToGpu_def cb_callRecvCallback_def cb_returnRecvCpuBuffer_def
  cb_returnCpuBuffer_def cb_cudaCopy_def cb_cpuPtr_def
  call_send_callback_def call_recv_callback_def owes_send_def owes_recv_def dcheck_def

lemmas cb_outstanding_defs =
  cb_send_outstanding_def cb_send_allocating_def cb_copying_to_cpu_def cb_cpu_sending_def
  cb_recv_waits_def cb_recv_outstanding_def cb_reading_ready_def cb_recv_allocating_def
  cb_cpu_receiving_def cb_copying_to_gpu_def

lemma cb_finished_top: "s \<le> CbSend_FINISHED" "r \<le> CbRecv_FINISHED"
  by (cases s; simp) (cases r; simp)

lemma cb_send_front:
  "stable cb_advanceChunkSendOperation op CbSend_FINISHED c \<Longrightarrow> state op \<noteq> CbSend_FINISHED \<Longrightarrow>
     cb_send_outstanding op"
  by (cases "state op") (auto simp: stable_def cb_advanceChunkSendOperation_def cb_outstanding_defs)

lemma cb_recv_front:
  "stable cb_advanceChunkRecvOperation op CbRecv_FINISHED c \<Longrightarrow> state op \<noteq> CbRecv_FINISHED \<Longrightarrow>
     cb_recv_waits op"
  by (cases "state op") (auto simp: stable_def cb_advanceChunkRecvOperation_def cb_outstanding_defs)

text \<open>What each action does to its operation and the core.\<close>

lemma cb_send_actions:
  assumes "t \<in> set cb_advanceChunkSendOperation" and "a \<in> set (tactions t)"
  shows "a \<in> {cb_allocateSendCpuBuffer, cb_writeReadyToSend, cb_copyFromGpuToCpu, cb_sendCpuBuffer,
    cb_callSendCallback, cb_returnSendCpuBuffer}"
  using assms unfolding cb_advanceChunkSendOperation_def by fastforce

lemma cb_recv_actions:
  assumes "t \<in> set cb_advanceChunkRecvOperation" and "a \<in> set (tactions t)"
  shows "a \<in> {cb_readReadyToSend, cb_allocateRecvCpuBuffer, cb_receiveCpuBuffer, cb_copyFromCpuToGpu,
    cb_callRecvCallback, cb_returnRecvCpuBuffer}"
  using assms unfolding cb_advanceChunkRecvOperation_def by fastforce

lemma cb_send_action_frame:
  assumes "a \<in> {cb_allocateSendCpuBuffer, cb_writeReadyToSend, cb_copyFromGpuToCpu, cb_sendCpuBuffer,
      cb_callSendCallback, cb_returnSendCpuBuffer}" and "a op c = Inr (op', c')"
  shows "sequenceNumber op' = sequenceNumber op \<and> state op' = state op \<and> core_frame c' = core_frame c \<and>
    owes_send op' + called c' = owes_send op + called c"
  using assms by (elim insertE emptyE) (auto simp: cb_action_defs split: option.splits if_splits)

lemma cb_recv_action_frame:
  assumes "a \<in> {cb_readReadyToSend, cb_allocateRecvCpuBuffer, cb_receiveCpuBuffer, cb_copyFromCpuToGpu,
      cb_callRecvCallback, cb_returnRecvCpuBuffer}" and "a op c = Inr (op', c')"
  shows "sequenceNumber op' = sequenceNumber op \<and> state op' = state op \<and> core_frame c' = core_frame c \<and>
    owes_recv op' + called c' = owes_recv op + called c"
  using assms by (elim insertE emptyE) (auto simp: cb_action_defs split: option.splits if_splits)

lemma cb_call_callback_eq:
  "cb_callSendCallback op c = Inr (op\<lparr>op_callback := None\<rparr>,
     case op_callback op of None \<Rightarrow> c | Some cb \<Rightarrow> log_effects [SendCallback cb (chan_error c)] c)"
  "cb_callRecvCallback rop c = Inr (rop\<lparr>op_callback := None\<rparr>,
     case op_callback rop of None \<Rightarrow> c | Some cb \<Rightarrow> log_effects [RecvCallback cb (chan_error c)] c)"
  by (cases op; cases "op_callback op"; simp add: cb_action_defs)
    (cases rop; cases "op_callback rop"; simp add: cb_action_defs)

lemma cb_send_step_safe:
  assumes "t \<in> set cb_advanceChunkSendOperation" and "cb_send_ok (chan_error c) op" and "state op = tfrom t"
    and "tcond t op prev c"
  shows "\<exists>op' c'. run_actions (tactions t) op c = Inr (op', c') \<and> cb_send_ok (chan_error c) (op'\<lparr>state := tto t\<rparr>)"
  using assms unfolding cb_advanceChunkSendOperation_def list.set
  by (elim insertE emptyE)
    (auto simp: cb_call_callback_eq cb_send_ok_def cb_last_def cb_allocateSendCpuBuffer_def cb_writeReadyToSend_def
      cb_copyFromGpuToCpu_def cb_sendCpuBuffer_def cb_cpuPtr_def cb_returnSendCpuBuffer_def cb_returnCpuBuffer_def)

lemma cb_recv_step_safe:
  assumes "t \<in> set cb_advanceChunkRecvOperation" and "cb_recv_ok (chan_error c) op" and "state op = tfrom t"
    and "tcond t op prev c"
  shows "\<exists>op' c'. run_actions (tactions t) op c = Inr (op', c') \<and> cb_recv_ok (chan_error c) (op'\<lparr>state := tto t\<rparr>)"
  using assms unfolding cb_advanceChunkRecvOperation_def list.set
  by (elim insertE emptyE)
    (auto simp: cb_call_callback_eq cb_recv_ok_def cb_last_def cb_allocateRecvCpuBuffer_def cb_readReadyToSend_def
      cb_copyFromCpuToGpu_def cb_receiveCpuBuffer_def cb_cpuPtr_def cb_returnRecvCpuBuffer_def cb_returnCpuBuffer_def)

lemma cb_waits_stable:
  "cb_send_outstanding op \<Longrightarrow> stable cb_advanceChunkSendOperation op sprev c"
  "cb_recv_waits rop \<Longrightarrow> stable cb_advanceChunkRecvOperation rop rprev c"
  by (auto simp: stable_def cb_advanceChunkSendOperation_def cb_advanceChunkRecvOperation_def cb_outstanding_defs)

lemma cb_cond_view:
  "t \<in> set cb_advanceChunkSendOperation \<Longrightarrow> chan_error c = chan_error c' \<Longrightarrow> tcond t op sprev c = tcond t op sprev c'"
  "u \<in> set cb_advanceChunkRecvOperation \<Longrightarrow> chan_error c = chan_error c' \<Longrightarrow> tcond u rop rprev c = tcond u rop rprev c'"
  by (auto simp: cb_advanceChunkSendOperation_def cb_advanceChunkRecvOperation_def)

interpretation cb_send: safe_machine CbSend_FINISHED cb_advanceChunkSendOperation
  "chan_error :: cb_core \<Rightarrow> tp_error" core_frame cb_send_outstanding cb_send_ok owes_send called
proof unfold_locales
  show "s \<le> CbSend_FINISHED" for s by (rule cb_finished_top)
  show "topo cb_advanceChunkSendOperation" by (simp add: cb_advanceChunkSendOperation_def)
  show "tfrom t < tto t" if "t \<in> set cb_advanceChunkSendOperation" for t
    using that by (auto simp: cb_advanceChunkSendOperation_def)
  show "sequenceNumber op' = sequenceNumber op \<and> state op' = state op \<and> core_frame c' = core_frame c"
    if "t \<in> set cb_advanceChunkSendOperation" "a \<in> set (tactions t)" "a op c = Inr (op', c')" for t a op c op' c'
    using cb_send_action_frame [OF cb_send_actions [OF that(1,2)] that(3)] by blast
  show "owes_send op' + called c' = owes_send op + called c"
    if "t \<in> set cb_advanceChunkSendOperation" "a \<in> set (tactions t)" "a op c = Inr (op', c')" for t a op c op' c'
    using cb_send_action_frame [OF cb_send_actions [OF that(1,2)] that(3)] by blast
  show "chan_error c = chan_error c'" if "core_frame c = core_frame c'" for c c' :: cb_core
    using that by (rule core_frameD(1))
  show "state op \<noteq> CbSend_FINISHED" if "cb_send_outstanding op" for op
    using that by (auto simp: cb_outstanding_defs)
  show "owes_send op = {#}" if "cb_send_ok e op" "state op = CbSend_FINISHED" for e op
    using that by (simp add: cb_send_ok_def owes_send_def)
qed (rule cb_waits_stable cb_cond_view cb_send_step_safe owes_simps; assumption)+

interpretation cb_recv: safe_machine CbRecv_FINISHED cb_advanceChunkRecvOperation
  "chan_error :: cb_core \<Rightarrow> tp_error" core_frame cb_recv_waits cb_recv_ok owes_recv called
proof unfold_locales
  show "s \<le> CbRecv_FINISHED" for s by (rule cb_finished_top)
  show "topo cb_advanceChunkRecvOperation" by (simp add: cb_advanceChunkRecvOperation_def)
  show "tfrom t < tto t" if "t \<in> set cb_advanceChunkRecvOperation" for t
    using that by (auto simp: cb_advanceChunkRecvOperation_def)
  show "sequenceNumber op' = sequenceNumber op \<and> state op' = state op \<and> core_frame c' = core_frame c"
    if "t \<in> set cb_advanceChunkRecvOperation" "a \<in> set (tactions t)" "a op c = Inr (op', c')" for t a op c op' c'
    using cb_recv_action_frame [OF cb_recv_actions [OF that(1,2)] that(3)] by blast
  show "owes_recv op' + called c' = owes_recv op + called c"
    if "t \<in> set cb_advanceChunkRecvOperation" "a \<in> set (tactions t)" "a op c = Inr (op', c')" for t a op c op' c'
    using cb_recv_action_frame [OF cb_recv_actions [OF that(1,2)] that(3)] by blast
  show "chan_error c = chan_error c'" if "core_frame c = core_frame c'" for c c' :: cb_core
    using that by (rule core_frameD(1))
  show "state op \<noteq> CbRecv_FINISHED" if "cb_recv_waits op" for op
    using that by (auto simp: cb_outstanding_defs)
  show "owes_recv op = {#}" if "cb_recv_ok e op" "state op = CbRecv_FINISHED" for e op
    using that by (simp add: cb_recv_ok_def owes_recv_def)
qed (rule cb_waits_stable cb_cond_view cb_recv_step_safe owes_simps; assumption)+

interpretation cb: prompt_channel
  CbSend_FINISHED cb_advanceChunkSendOperation cb_send_ok cb_send_outstanding owes_send
  CbRecv_FINISHED cb_advanceChunkRecvOperation cb_recv_ok cb_recv_waits owes_recv
  chan_error
  by unfold_locales (auto simp: cb_send_ok_def cb_recv_ok_def dest: cb_send_front cb_recv_front)

text \<open>A copy to the device that is under way stays with its operation.\<close>

lemma cb_copying_kept: "kept CbRecv_FINISHED cb_advanceChunkRecvOperation cb_copying_to_gpu"
proof -
  have step: "cb_copying_to_gpu op'"
    if "t \<in> set cb_advanceChunkRecvOperation" "cb_copying_to_gpu op"
      "attemptTransition (tfrom t) (tto t) (tcond t op prev c) (tactions t) op c = Inr (op', c')" for t op prev c op' c'
    using that unfolding cb_advanceChunkRecvOperation_def list.set
    by (elim insertE emptyE)
      (auto simp: attemptTransition_def cb_copying_to_gpu_def cb_call_callback_eq split: if_splits)
  have "cb_copying_to_gpu op'"
    if "cb_copying_to_gpu op" "attempt_all cb_advanceChunkRecvOperation op prev c = Inr (op', c')" for op prev c op' c'
    by (rule attempt_all_keeps [of cb_advanceChunkRecvOperation cb_copying_to_gpu op prev c op' c', OF step that])
  moreover have "state op \<noteq> CbRecv_FINISHED" if "cb_copying_to_gpu op" for op
    using that by (auto simp: cb_copying_to_gpu_def)
  ultimately show ?thesis unfolding kept_def by blast
qed

section \<open>Chunks\<close>

lemma unat_kSlotSize: "unat cb_kSlotSize = 1048576"
  by (simp add: cb_kSlotSize_def)

lemma unat_pred_kSlotSize: "unat (cb_kSlotSize - 1) = 1048575"
  by (simp add: cb_kSlotSize_def)

lemma cb_length_bound: "len \<le> - cb_kSlotSize \<longleftrightarrow> unat len + 1048576 \<le> 2 ^ 64"
  unfolding word_le_nat_alt by (simp add: cb_kSlotSize_def)

lemma cb_ceilOfRatio_unat:
  assumes "len \<le> - cb_kSlotSize"
  shows "unat (cb_ceilOfRatio len cb_kSlotSize) = (unat len + 1048575) div 1048576"
proof -
  have "unat (len + (cb_kSlotSize - 1)) = unat len + unat (cb_kSlotSize - 1)"
    using assms cb_length_bound by (subst unat_add_lem [symmetric]) (simp add: cb_kSlotSize_def)
  then have "unat (len + cb_kSlotSize - 1) = unat len + 1048575"
    by (simp only: add_diff_eq unat_pred_kSlotSize)
  then show ?thesis by (simp add: cb_ceilOfRatio_def unat_div unat_kSlotSize)
qed

lemma below_ceiling: "i * 1048576 < n \<longleftrightarrow> i < (n + 1048575) div 1048576" for i n :: nat
proof -
  have "i < (n + 1048575) div 1048576 \<longleftrightarrow> Suc i * 1048576 \<le> n + 1048575"
    unfolding Suc_le_eq [symmetric] by (rule less_eq_div_iff_mult_less_eq) simp
  then show ?thesis by auto
qed

text \<open>The offset of chunk \<open>i\<close>, and what the conditions of the loops and of the callback say about it.\<close>

definition cb_offset :: "nat \<Rightarrow> 64 word" where
  "cb_offset i = of_nat (i * 1048576)"

lemma cb_offset_facts:
  assumes "len \<le> - cb_kSlotSize" and "i \<le> unat (cb_ceilOfRatio len cb_kSlotSize)"
  shows "unat (cb_offset i) = i * 1048576"
    and "cb_offset i < len \<longleftrightarrow> i < unat (cb_ceilOfRatio len cb_kSlotSize)"
    and "cb_offset i + cb_kSlotSize = cb_offset (Suc i)"
    and "i < unat (cb_ceilOfRatio len cb_kSlotSize) \<Longrightarrow>
      cb_offset i div cb_kSlotSize = cb_ceilOfRatio len cb_kSlotSize - 1 \<longleftrightarrow> Suc i = unat (cb_ceilOfRatio len cb_kSlotSize)"
proof -
  let ?N = "unat (cb_ceilOfRatio len cb_kSlotSize)"
  have N: "?N = (unat len + 1048575) div 1048576" by (rule cb_ceilOfRatio_unat [OF assms(1)])
  have "i * 1048576 \<le> unat len + 1048575" using assms(2) unfolding N by (simp add: less_eq_div_iff_mult_less_eq)
  then have lt: "i * 1048576 < 2 ^ LENGTH(64)" using assms(1) cb_length_bound by simp
  then show u: "unat (cb_offset i) = i * 1048576" unfolding cb_offset_def by (rule unat_word_of_nat)
  show "cb_offset i < len \<longleftrightarrow> i < ?N" unfolding word_less_nat_alt u N by (rule below_ceiling)
  show "cb_offset i + cb_kSlotSize = cb_offset (Suc i)" by (simp add: cb_offset_def cb_kSlotSize_def algebra_simps)
  assume i: "i < ?N"
  then have "unat (cb_ceilOfRatio len cb_kSlotSize - 1) = ?N - 1"
    by (metis less_zeroE unat_0 unat_minus_one)
  moreover have "unat (cb_offset i div cb_kSlotSize) = i" by (simp add: unat_div u unat_kSlotSize)
  ultimately show "cb_offset i div cb_kSlotSize = cb_ceilOfRatio len cb_kSlotSize - 1 \<longleftrightarrow> Suc i = ?N"
    using i by (auto simp: word_unat_eq_iff)
qed

section \<open>The invariant\<close>

abbreviation cb_inv_at :: "nat \<Rightarrow> nat \<Rightarrow> cb_channel \<Rightarrow> bool" where
  "cb_inv_at ns nr \<equiv> chan_inv_at ns nr CbSend_FINISHED cb_advanceChunkSendOperation cb_send_ok
     CbRecv_FINISHED cb_advanceChunkRecvOperation cb_recv_ok chan_error"

abbreviation cb_inv :: "cb_channel \<Rightarrow> bool" where
  "cb_inv ch \<equiv> cb_inv_at (cb_nextChunkBeingSent (core ch)) (cb_nextChunkBeingReceived (core ch)) ch"

abbreviation cb_accounted :: "cb_channel \<Rightarrow> (nat + nat) multiset" where
  "cb_accounted \<equiv> accounted owes_send owes_recv"

lemma cb_frame:
  assumes "core_frame c = core_frame c'"
  shows "cb_nextChunkBeingSent c = cb_nextChunkBeingSent c'" "cb_nextChunkBeingReceived c = cb_nextChunkBeingReceived c'"
  using arg_cong [OF assms, of cb_nextChunkBeingSent] arg_cong [OF assms, of cb_nextChunkBeingReceived]
  by (simp_all add: core_frame_def)

lemma called_chunk [simp]:
  "called (c\<lparr>cb_nextChunkBeingSent := n\<rparr>) = called c" "called (c\<lparr>cb_nextChunkBeingReceived := n\<rparr>) = called c"
  by (simp_all add: called_def)

lemma cb_log_chunk [simp]:
  "cb_nextChunkBeingSent (log_effects es c) = cb_nextChunkBeingSent c"
  "cb_nextChunkBeingReceived (log_effects es c) = cb_nextChunkBeingReceived c"
  by (simp_all add: log_effects_def)

lemma cb_chunk_simps:
  "state (cb_chunk s bsn buffer len cb off m) = s"
  "cb_send_ok e ((cb_chunk CbSend_UNINITIALIZED bsn buffer len cb off sm)\<lparr>sequenceNumber := n\<rparr>)"
  "cb_recv_ok e ((cb_chunk CbRecv_UNINITIALIZED bsn buffer len cb off rm)\<lparr>sequenceNumber := n\<rparr>)"
  by (simp_all add: cb_chunk_def Let_def cb_last_def cb_send_ok_def cb_recv_ok_def)

lemma cb_chunk_owes:
  "owes_send (cb_chunk s bsn buffer len cb off m) =
     (if off div cb_kSlotSize = cb_ceilOfRatio len cb_kSlotSize - 1 then {#Inl cb#} else {#})"
  "owes_recv (cb_chunk s bsn buffer len cb off m) =
     (if off div cb_kSlotSize = cb_ceilOfRatio len cb_kSlotSize - 1 then {#Inr cb#} else {#})"
  by (simp_all add: cb_chunk_def Let_def owes_send_def owes_recv_def)

lemma cb_send_chunks_ok:
  assumes "cb_inv ch" and "\<not> is_error (chan_error (core ch))" and "cb_acceptable buffer len"
    and "i + k = unat (cb_ceilOfRatio len cb_kSlotSize)"
  shows "\<exists>ch'. cb_send_chunks k bsn buffer len cb (cb_offset i) ch = Inr ch' \<and> cb_inv ch' \<and>
    cb_accounted ch' = cb_accounted ch + (if k = 0 then {#} else {#Inl cb#})"
  using assms
proof (induction k arbitrary: i ch)
  case 0
  then have "\<not> cb_offset i < len" using cb_offset_facts(2) [of len i] by (simp add: cb_acceptable_def)
  then show ?case using 0 by simp
next
  case (Suc k)
  let ?n = "cb_nextChunkBeingSent (core ch)" and ?m = "cb_nextChunkBeingReceived (core ch)"
  let ?ch1 = "ch\<lparr>core := (core ch)\<lparr>cb_nextChunkBeingSent := Suc ?n\<rparr>\<rparr>"
  let ?op = "cb_chunk CbSend_UNINITIALIZED bsn buffer len cb (cb_offset i) (cb_send_op.fields False False) :: cb_send_op"
  have len: "len \<le> - cb_kSlotSize" and i: "i \<le> unat (cb_ceilOfRatio len cb_kSlotSize)"
    "i < unat (cb_ceilOfRatio len cb_kSlotSize)" "Suc i = unat (cb_ceilOfRatio len cb_kSlotSize) \<longleftrightarrow> k = 0"
    using Suc.prems(3,4) by (auto simp: cb_acceptable_def)
  note off = cb_offset_facts [OF len i(1)]
  have inv1: "cb_inv_at ?n ?m ?ch1" by (rule cb.chan_inv_at_view [OF Suc.prems(1)]) simp_all
  obtain ch2 where ch2: "send_start CbSend_FINISHED cb_advanceChunkSendOperation ?op ?n ?ch1 = Inr ch2"
    "cb_inv_at (Suc ?n) ?m ch2" "core_frame (core ch2) = core_frame (core ?ch1)"
    "cb_accounted ch2 = cb_accounted ?ch1 + owes_send (?op\<lparr>sequenceNumber := ?n\<rparr>)"
    using cb.send_start_at [OF inv1, of ?op] Suc.prems(2) by (auto simp: cb_chunk_simps)
  have fr: "cb_nextChunkBeingSent (core ch2) = cb_nextChunkBeingSent (core ?ch1)"
    "cb_nextChunkBeingReceived (core ch2) = cb_nextChunkBeingReceived (core ?ch1)"
    "chan_error (core ch2) = chan_error (core ch)"
    using cb_frame [OF ch2(3)] core_frameD(1) [OF ch2(3)] by simp_all
  have "\<exists>ch'. cb_send_chunks k bsn buffer len cb (cb_offset (Suc i)) ch2 = Inr ch' \<and> cb_inv ch' \<and>
      cb_accounted ch' = cb_accounted ch2 + (if k = 0 then {#} else {#Inl cb#})"
    by (rule Suc.IH) (use ch2(2) fr Suc.prems(2-4) in simp_all)
  then show ?case
    using ch2(1,4) Suc.prems(3) off(2,3) i off(4) [OF i(2)]
    by (auto simp: cb_acceptable_def Let_def accounted_def cb_chunk_owes called_chunk)
qed

lemma cb_recv_chunks_ok:
  assumes "cb_inv ch" and "\<not> is_error (chan_error (core ch))" and "cb_acceptable buffer len"
    and "i + k = unat (cb_ceilOfRatio len cb_kSlotSize)"
  shows "\<exists>ch'. cb_recv_chunks k bsn buffer len cb (cb_offset i) ch = Inr ch' \<and> cb_inv ch' \<and>
    cb_accounted ch' = cb_accounted ch + (if k = 0 then {#} else {#Inr cb#})"
  using assms
proof (induction k arbitrary: i ch)
  case 0
  then have "\<not> cb_offset i < len" using cb_offset_facts(2) [of len i] by (simp add: cb_acceptable_def)
  then show ?case using 0 by simp
next
  case (Suc k)
  let ?n = "cb_nextChunkBeingReceived (core ch)" and ?m = "cb_nextChunkBeingSent (core ch)"
  let ?ch1 = "ch\<lparr>core := (core ch)\<lparr>cb_nextChunkBeingReceived := Suc ?n\<rparr>\<rparr>"
  let ?op = "cb_chunk CbRecv_UNINITIALIZED bsn buffer len cb (cb_offset i) (cb_recv_op.fields False False False) :: cb_recv_op"
  have len: "len \<le> - cb_kSlotSize" and i: "i \<le> unat (cb_ceilOfRatio len cb_kSlotSize)"
    "i < unat (cb_ceilOfRatio len cb_kSlotSize)" "Suc i = unat (cb_ceilOfRatio len cb_kSlotSize) \<longleftrightarrow> k = 0"
    using Suc.prems(3,4) by (auto simp: cb_acceptable_def)
  note off = cb_offset_facts [OF len i(1)]
  have inv1: "cb_inv_at ?m ?n ?ch1" by (rule cb.chan_inv_at_view [OF Suc.prems(1)]) simp_all
  obtain ch2 where ch2: "recv_start CbRecv_FINISHED cb_advanceChunkRecvOperation ?op ?n ?ch1 = Inr ch2"
    "cb_inv_at ?m (Suc ?n) ch2" "core_frame (core ch2) = core_frame (core ?ch1)"
    "cb_accounted ch2 = cb_accounted ?ch1 + owes_recv (?op\<lparr>sequenceNumber := ?n\<rparr>)"
    using cb.recv_start_at [OF inv1, of ?op] Suc.prems(2) by (auto simp: cb_chunk_simps)
  have fr: "cb_nextChunkBeingSent (core ch2) = cb_nextChunkBeingSent (core ?ch1)"
    "cb_nextChunkBeingReceived (core ch2) = cb_nextChunkBeingReceived (core ?ch1)"
    "chan_error (core ch2) = chan_error (core ch)"
    using cb_frame [OF ch2(3)] core_frameD(1) [OF ch2(3)] by simp_all
  have "\<exists>ch'. cb_recv_chunks k bsn buffer len cb (cb_offset (Suc i)) ch2 = Inr ch' \<and> cb_inv ch' \<and>
      cb_accounted ch' = cb_accounted ch2 + (if k = 0 then {#} else {#Inr cb#})"
    by (rule Suc.IH) (use ch2(2) fr Suc.prems(2-4) in simp_all)
  then show ?case
    using ch2(1,4) Suc.prems(3) off(2,3) i off(4) [OF i(2)]
    by (auto simp: cb_acceptable_def Let_def accounted_def cb_chunk_owes called_chunk)
qed

section \<open>Every event keeps the invariant\<close>

lemma cb_handler_shape:
  "cb_handleErrorImpl ch =
     bindR (advance_both CbSend_FINISHED cb_advanceChunkSendOperation
              CbRecv_FINISHED cb_advanceChunkRecvOperation ch)
       (\<lambda>ch'. Inr (ch'\<lparr>core := log_effects
          [Lower CbCloseConnection, Lower CbCloseCpuChannel, UnenrollChannel] (core ch')\<rparr>))"
  by (simp add: cb_handleErrorImpl_def)

lemma cb_error_chunk [simp]:
  "cb_nextChunkBeingSent (c\<lparr>chan_error := e\<rparr>) = cb_nextChunkBeingSent c"
  "cb_nextChunkBeingReceived (c\<lparr>chan_error := e\<rparr>) = cb_nextChunkBeingReceived c"
  by simp_all

lemma cb_resumed:
  assumes "\<exists>ch'. r = Inr ch' \<and>
      cb_inv_at (cb_nextChunkBeingSent (core ch)) (cb_nextChunkBeingReceived (core ch)) ch' \<and>
      core_frame (core ch') = core_frame ((core ch)\<lparr>chan_error := chan_error (core ch')\<rparr>) \<and> cb_accounted ch' = n"
  shows "\<exists>ch'. r = Inr ch' \<and> cb_inv ch' \<and> cb_accounted ch' = n"
proof -
  obtain ch' where ch': "r = Inr ch'" "cb_accounted ch' = n"
    "cb_inv_at (cb_nextChunkBeingSent (core ch)) (cb_nextChunkBeingReceived (core ch)) ch'"
    "core_frame (core ch') = core_frame ((core ch)\<lparr>chan_error := chan_error (core ch')\<rparr>)"
    using assms by (elim exE conjE) (rule that)
  then show ?thesis using cb_frame [OF ch'(4)] by simp
qed

lemma cb_kept:
  "kept CbSend_FINISHED cb_advanceChunkSendOperation cb_send_allocating"
  "kept CbSend_FINISHED cb_advanceChunkSendOperation cb_copying_to_cpu"
  "kept CbSend_FINISHED cb_advanceChunkSendOperation cb_cpu_sending"
  "kept CbRecv_FINISHED cb_advanceChunkRecvOperation cb_reading_ready"
  "kept CbRecv_FINISHED cb_advanceChunkRecvOperation cb_recv_allocating"
  "kept CbRecv_FINISHED cb_advanceChunkRecvOperation cb_cpu_receiving"
  by (auto intro!: cb_send.kept_waits cb_recv.kept_waits simp: cb_outstanding_defs)

lemma cb_setStaging_simps [simp]:
  "sequenceNumber (cb_setStaging tmp e op) = sequenceNumber op"
  "state (cb_setStaging tmp e op) = state op"
  "owes_send (cb_setStaging tmp e op) = owes_send op"
  "owes_recv (cb_setStaging tmp e op) = owes_recv op"
  "cb_isCpuBuffer (cb_setStaging tmp e op) = cb_isCpuBuffer op"
  by (simp_all add: cb_setStaging_def Let_def owes_send_def owes_recv_def)

lemma cb_setStaging_ok:
  "cb_send_allocating op \<Longrightarrow> cb_send_ok v op \<Longrightarrow> tmp \<noteq> None \<or> is_error v \<Longrightarrow> cb_send_ok v (cb_setStaging tmp v op)"
  "cb_recv_allocating rop \<Longrightarrow> cb_recv_ok v rop \<Longrightarrow> tmp \<noteq> None \<or> is_error v \<Longrightarrow> cb_recv_ok v (cb_setStaging tmp v rop)"
  by (auto simp: cb_setStaging_def Let_def cb_last_def cb_send_ok_def cb_recv_ok_def cb_send_allocating_def cb_recv_allocating_def)

lemma cb_sendFromLoop_inv:
  assumes inv: "cb_inv ch" and acc: "cb_acceptable buffer len"
  shows "\<exists>ch'. chan_sendFromLoop cb_sendImplFromLoop buffer len cb ch = Inr ch' \<and> cb_inv ch' \<and>
    cb_accounted ch' = cb_accounted ch + {#Inl cb#}"
proof -
  let ?ch = "ch\<lparr>core := (core ch)\<lparr>nextTensorBeingSent := Suc (nextTensorBeingSent (core ch))\<rparr>\<rparr>"
  have inv1: "cb_inv (?ch\<lparr>core := log_effects es (core ?ch)\<rparr>)" for es
    using cb.chan_inv_at_view [OF inv, of "log_effects es (core ?ch)"] by simp
  have same: "cb_accounted ?ch = cb_accounted ch" by (simp add: accounted_def)
  show ?thesis
  proof (cases "is_error (chan_error (core ch)) \<or> len = 0")
    case True
    then show ?thesis using inv1 by (auto simp: chan_sendFromLoop_def cb_sendImplFromLoop_def Let_def accounted_def)
  next
    case False
    let ?N = "unat (cb_ceilOfRatio len cb_kSlotSize)"
    have "0 < ?N" using cb_offset_facts(2) [of len 0] acc False
      by (simp add: cb_acceptable_def cb_offset_def word_neq_0_conv)
    moreover have "\<exists>ch'. cb_send_chunks ?N (nextTensorBeingSent (core ch)) buffer len cb (cb_offset 0) ?ch = Inr ch' \<and> cb_inv ch' \<and>
        cb_accounted ch' = cb_accounted ?ch + (if ?N = 0 then {#} else {#Inl cb#})"
      by (rule cb_send_chunks_ok) (use cb.chan_inv_at_view [OF inv, of "core ?ch"] acc False in simp_all)
    ultimately show ?thesis
      using False same by (auto simp: chan_sendFromLoop_def cb_sendImplFromLoop_def Let_def cb_offset_def)
  qed
qed

lemma cb_recvFromLoop_inv:
  assumes inv: "cb_inv ch" and acc: "cb_acceptable buffer len"
  shows "\<exists>ch'. chan_recvFromLoop cb_recvImplFromLoop buffer len cb ch = Inr ch' \<and> cb_inv ch' \<and>
    cb_accounted ch' = cb_accounted ch + {#Inr cb#}"
proof -
  let ?ch = "ch\<lparr>core := (core ch)\<lparr>nextTensorBeingReceived := Suc (nextTensorBeingReceived (core ch))\<rparr>\<rparr>"
  have inv1: "cb_inv (?ch\<lparr>core := log_effects es (core ?ch)\<rparr>)" for es
    using cb.chan_inv_at_view [OF inv, of "log_effects es (core ?ch)"] by simp
  have same: "cb_accounted ?ch = cb_accounted ch" by (simp add: accounted_def)
  show ?thesis
  proof (cases "is_error (chan_error (core ch)) \<or> len = 0")
    case True
    then show ?thesis using inv1 by (auto simp: chan_recvFromLoop_def cb_recvImplFromLoop_def Let_def accounted_def)
  next
    case False
    let ?N = "unat (cb_ceilOfRatio len cb_kSlotSize)"
    have "0 < ?N" using cb_offset_facts(2) [of len 0] acc False
      by (simp add: cb_acceptable_def cb_offset_def word_neq_0_conv)
    moreover have "\<exists>ch'. cb_recv_chunks ?N (nextTensorBeingReceived (core ch)) buffer len cb (cb_offset 0) ?ch = Inr ch' \<and> cb_inv ch' \<and>
        cb_accounted ch' = cb_accounted ?ch + (if ?N = 0 then {#} else {#Inr cb#})"
      by (rule cb_recv_chunks_ok) (use cb.chan_inv_at_view [OF inv, of "core ?ch"] acc False in simp_all)
    ultimately show ?thesis
      using False same by (auto simp: chan_recvFromLoop_def cb_recvImplFromLoop_def Let_def cb_offset_def)
  qed
qed

lemma cb_send_allocated_inv:
  assumes inv: "cb_inv ch" and ops: "outstanding_at cb_send_allocating sn (sendOps ch)" and tmp: "is_error e \<or> tmp \<noteq> None"
  shows "\<exists>ch'. entryPointFromLoop (chan_setError cb_handleErrorImpl) e (cb_onSendAllocated sn tmp) ch = Inr ch' \<and> cb_inv ch' \<and>
    cb_accounted ch' = cb_accounted ch"
proof -
  obtain op where op: "op \<in> set (sendOps ch)" "sequenceNumber op = sn" "cb_send_allocating op"
    using ops by (auto simp: outstanding_at_def list_ex_iff)
  have "\<exists>ch'. entryPointFromLoop (chan_setError cb_handleErrorImpl) e (cb_onSendAllocated sn tmp) ch = Inr ch' \<and>
      cb_inv_at (cb_nextChunkBeingSent (core ch)) (cb_nextChunkBeingReceived (core ch)) ch' \<and>
      core_frame (core ch') = core_frame ((core ch)\<lparr>chan_error := chan_error (core ch')\<rparr>) \<and>
      cb_accounted ch' = cb_accounted ch"
    by (rule cb.send_callback_at [where f = "cb_setStaging tmp" and P = cb_send_allocating, OF inv cb_handler_shape _ cb_kept(1) op])
      (use tmp in \<open>auto simp: cb_onSendAllocated_def intro: cb_setStaging_ok\<close>)
  then show ?thesis by (rule cb_resumed)
qed

lemma cb_copied_to_cpu_inv:
  assumes inv: "cb_inv ch" and ops: "outstanding_at cb_copying_to_cpu sn (sendOps ch)"
  shows "\<exists>ch'. entryPointFromLoop (chan_setError cb_handleErrorImpl) e (cb_onCopiedToCpu sn) ch = Inr ch' \<and> cb_inv ch' \<and>
    cb_accounted ch' = cb_accounted ch"
proof -
  obtain op where op: "op \<in> set (sendOps ch)" "sequenceNumber op = sn" "cb_copying_to_cpu op"
    using ops by (auto simp: outstanding_at_def list_ex_iff)
  have "\<exists>ch'. entryPointFromLoop (chan_setError cb_handleErrorImpl) e (cb_onCopiedToCpu sn) ch = Inr ch' \<and>
      cb_inv_at (cb_nextChunkBeingSent (core ch)) (cb_nextChunkBeingReceived (core ch)) ch' \<and>
      core_frame (core ch') = core_frame ((core ch)\<lparr>chan_error := chan_error (core ch')\<rparr>) \<and>
      cb_accounted ch' = cb_accounted ch"
    by (rule cb.send_callback_at [where f = "\<lambda>_ op. op\<lparr>cbs_doneCopyingFromGpuToCpu := True\<rparr>" and P = cb_copying_to_cpu, OF inv cb_handler_shape _ cb_kept(2) op])
      (auto simp: cb_onCopiedToCpu_def cb_last_def cb_send_ok_def owes_send_def)
  then show ?thesis by (rule cb_resumed)
qed

lemma cb_cpu_sent_inv:
  assumes inv: "cb_inv ch" and ops: "outstanding_at cb_cpu_sending sn (sendOps ch)"
  shows "\<exists>ch'. entryPointFromLoop (chan_setError cb_handleErrorImpl) e (cb_onCpuSent sn) ch = Inr ch' \<and> cb_inv ch' \<and>
    cb_accounted ch' = cb_accounted ch"
proof -
  obtain op where op: "op \<in> set (sendOps ch)" "sequenceNumber op = sn" "cb_cpu_sending op"
    using ops by (auto simp: outstanding_at_def list_ex_iff)
  have "\<exists>ch'. entryPointFromLoop (chan_setError cb_handleErrorImpl) e (cb_onCpuSent sn) ch = Inr ch' \<and>
      cb_inv_at (cb_nextChunkBeingSent (core ch)) (cb_nextChunkBeingReceived (core ch)) ch' \<and>
      core_frame (core ch') = core_frame ((core ch)\<lparr>chan_error := chan_error (core ch')\<rparr>) \<and>
      cb_accounted ch' = cb_accounted ch"
    by (rule cb.send_callback_at [where f = "\<lambda>_ op. op\<lparr>cbs_doneSendingCpuBuffer := True\<rparr>" and P = cb_cpu_sending, OF inv cb_handler_shape _ cb_kept(3) op])
      (auto simp: cb_onCpuSent_def cb_last_def cb_send_ok_def owes_send_def)
  then show ?thesis by (rule cb_resumed)
qed

lemma cb_ready_read_inv:
  assumes inv: "cb_inv ch" and ops: "outstanding_at cb_reading_ready sn (recvOps ch)"
  shows "\<exists>ch'. entryPointFromLoop (chan_setError cb_handleErrorImpl) e (cb_onReadyToSendRead sn) ch = Inr ch' \<and> cb_inv ch' \<and>
    cb_accounted ch' = cb_accounted ch"
proof -
  obtain op where op: "op \<in> set (recvOps ch)" "sequenceNumber op = sn" "cb_reading_ready op"
    using ops by (auto simp: outstanding_at_def list_ex_iff)
  have "\<exists>ch'. entryPointFromLoop (chan_setError cb_handleErrorImpl) e (cb_onReadyToSendRead sn) ch = Inr ch' \<and>
      cb_inv_at (cb_nextChunkBeingSent (core ch)) (cb_nextChunkBeingReceived (core ch)) ch' \<and>
      core_frame (core ch') = core_frame ((core ch)\<lparr>chan_error := chan_error (core ch')\<rparr>) \<and>
      cb_accounted ch' = cb_accounted ch"
    by (rule cb.recv_callback_at [where f = "\<lambda>_ op. op\<lparr>cbr_doneReadingReadyToSend := True\<rparr>" and P = cb_reading_ready, OF inv cb_handler_shape _ cb_kept(4) op])
      (auto simp: cb_onReadyToSendRead_def cb_last_def cb_recv_ok_def owes_recv_def)
  then show ?thesis by (rule cb_resumed)
qed

lemma cb_recv_allocated_inv:
  assumes inv: "cb_inv ch" and ops: "outstanding_at cb_recv_allocating sn (recvOps ch)" and tmp: "is_error e \<or> tmp \<noteq> None"
  shows "\<exists>ch'. entryPointFromLoop (chan_setError cb_handleErrorImpl) e (cb_onRecvAllocated sn tmp) ch = Inr ch' \<and> cb_inv ch' \<and>
    cb_accounted ch' = cb_accounted ch"
proof -
  obtain op where op: "op \<in> set (recvOps ch)" "sequenceNumber op = sn" "cb_recv_allocating op"
    using ops by (auto simp: outstanding_at_def list_ex_iff)
  have "\<exists>ch'. entryPointFromLoop (chan_setError cb_handleErrorImpl) e (cb_onRecvAllocated sn tmp) ch = Inr ch' \<and>
      cb_inv_at (cb_nextChunkBeingSent (core ch)) (cb_nextChunkBeingReceived (core ch)) ch' \<and>
      core_frame (core ch') = core_frame ((core ch)\<lparr>chan_error := chan_error (core ch')\<rparr>) \<and>
      cb_accounted ch' = cb_accounted ch"
    by (rule cb.recv_callback_at [where f = "cb_setStaging tmp" and P = cb_recv_allocating, OF inv cb_handler_shape _ cb_kept(5) op])
      (use tmp in \<open>auto simp: cb_onRecvAllocated_def intro: cb_setStaging_ok\<close>)
  then show ?thesis by (rule cb_resumed)
qed

lemma cb_cpu_received_inv:
  assumes inv: "cb_inv ch" and ops: "outstanding_at cb_cpu_receiving sn (recvOps ch)"
  shows "\<exists>ch'. entryPointFromLoop (chan_setError cb_handleErrorImpl) e (cb_onCpuReceived sn) ch = Inr ch' \<and> cb_inv ch' \<and>
    cb_accounted ch' = cb_accounted ch"
proof -
  obtain op where op: "op \<in> set (recvOps ch)" "sequenceNumber op = sn" "cb_cpu_receiving op"
    using ops by (auto simp: outstanding_at_def list_ex_iff)
  have "\<exists>ch'. entryPointFromLoop (chan_setError cb_handleErrorImpl) e (cb_onCpuReceived sn) ch = Inr ch' \<and>
      cb_inv_at (cb_nextChunkBeingSent (core ch)) (cb_nextChunkBeingReceived (core ch)) ch' \<and>
      core_frame (core ch') = core_frame ((core ch)\<lparr>chan_error := chan_error (core ch')\<rparr>) \<and>
      cb_accounted ch' = cb_accounted ch"
    by (rule cb.recv_callback_at [where f = "\<lambda>_ op. op\<lparr>cbr_doneReceivingCpuBuffer := True\<rparr>" and P = cb_cpu_receiving, OF inv cb_handler_shape _ cb_kept(6) op])
      (auto simp: cb_onCpuReceived_def cb_last_def cb_recv_ok_def owes_recv_def)
  then show ?thesis by (rule cb_resumed)
qed

lemma cb_copied_to_gpu_inv:
  assumes inv: "cb_inv ch" and ops: "outstanding_at cb_copying_to_gpu sn (recvOps ch)"
  shows "\<exists>ch'. entryPointFromLoop (chan_setError cb_handleErrorImpl) e (cb_onCopiedToGpu sn) ch = Inr ch' \<and> cb_inv ch' \<and>
    cb_accounted ch' = cb_accounted ch"
proof -
  obtain op where op: "op \<in> set (recvOps ch)" "sequenceNumber op = sn" "cb_copying_to_gpu op"
    using ops by (auto simp: outstanding_at_def list_ex_iff)
  have "\<exists>ch'. entryPointFromLoop (chan_setError cb_handleErrorImpl) e (cb_onCopiedToGpu sn) ch = Inr ch' \<and>
      cb_inv_at (cb_nextChunkBeingSent (core ch)) (cb_nextChunkBeingReceived (core ch)) ch' \<and>
      core_frame (core ch') = core_frame ((core ch)\<lparr>chan_error := chan_error (core ch')\<rparr>) \<and>
      cb_accounted ch' = cb_accounted ch"
    by (rule cb.recv_callback_at [where f = "\<lambda>_ op. op\<lparr>cbr_doneCopyingFromCpuToGpu := True\<rparr>" and P = cb_copying_to_gpu, OF inv cb_handler_shape _ cb_copying_kept op])
      (auto simp: cb_onCopiedToGpu_def cb_last_def cb_recv_ok_def owes_recv_def)
  then show ?thesis by (rule cb_resumed)
qed

fun cb_requested :: "cb_event \<Rightarrow> (nat + nat) multiset" where
  "cb_requested (CbSend buffer len cb) = {#Inl cb#}"
| "cb_requested (CbRecv buffer len cb) = {#Inr cb#}"
| "cb_requested _ = {#}"

lemma cb_setError_inv:
  assumes "cb_inv ch"
  shows "\<exists>ch'. chan_setError cb_handleErrorImpl e ch = Inr ch' \<and> cb_inv ch' \<and> cb_accounted ch' = cb_accounted ch"
  by (rule cb_resumed) (use cb.setError_at [OF assms cb_handler_shape, of e] in auto)

lemma cb_setId_inv:
  assumes "cb_inv ch"
  shows "cb_inv (cb_setIdImpl (chan_setIdFromLoop i ch)) \<and>
    cb_accounted (cb_setIdImpl (chan_setIdFromLoop i ch)) = cb_accounted ch"
  using cb.chan_inv_at_view [OF assms, of "core (cb_setIdImpl (chan_setIdFromLoop i ch))"]
  by (simp add: cb_setIdImpl_def chan_setIdFromLoop_def accounted_def)

lemma cb_step_inv:
  assumes "cb_inv ch" and "cb_enabled ev ch"
  shows "\<exists>ch'. cb_step ev ch = Inr ch' \<and> cb_inv ch' \<and> cb_accounted ch' = cb_accounted ch + cb_requested ev"
proof (cases ev)
  case CbCloseChannel
  then show ?thesis using cb_setError_inv [OF assms(1)] by (simp add: chan_closeFromLoop_def)
next
  case (CbWritten e)
  then show ?thesis using cb_setError_inv [OF assms(1), of e] by (auto simp: entryPointFromLoop_def cb_onWritten_def)
next
  case (CbSetId i)
  then show ?thesis using cb_setId_inv [OF assms(1)] by simp
qed (use assms cb_sendFromLoop_inv cb_recvFromLoop_inv cb_send_allocated_inv cb_copied_to_cpu_inv cb_cpu_sent_inv
    cb_ready_read_inv cb_recv_allocated_inv cb_cpu_received_inv cb_copied_to_gpu_inv in simp_all)

lemma cb_created_inv:
  assumes "chan_initFromLoop closed cb_initImplFromLoop (cb_init i) = Inr ch"
  shows "cb_inv ch" and "cb_accounted ch = {#}"
  using assms
  by (auto simp: chan_initFromLoop_def cb_initImplFromLoop_def cb_init_def chan_init_core_def chan_core.defs cb_core.defs
      chan_inv_at_def machine_ok_def contiguous_def ends_at_def accounted_def called_def log_effects_def
      split: if_splits)

lemma cb_trace_inv: "cb_trace evs ch \<Longrightarrow> cb_inv ch \<and> cb_accounted ch = sum_list (map cb_requested evs)"
proof (induction rule: cb_trace.induct)
  case (cb_created closed i ch)
  then show ?case using cb_created_inv by simp
next
  case (cb_stepped evs ch ev ch')
  then show ?case using cb_step_inv [of ch ev] by auto
qed

end
