(* ===== verification/Cuda_Basic_Properties.thy ===== *)
theory Cuda_Basic_Properties
  imports Cuda_Basic_Channel
begin

text \<open>
  What a cuda_basic channel promises: no event makes it fault, each callback is called exactly once,
  and not before all chunks of its buffer have got as far.
\<close>

section \<open>Callbacks come after all chunks\<close>

text \<open>
  An operation reaches \<^verbatim>\<open>INVOKED_CALLBACK\<close>, and a receive operation of a CUDA buffer the state that
  corresponds to it, only behind one that is there.
\<close>

lemma cb_recv_action_cpu:
  assumes "a \<in> {cb_readReadyToSend, cb_allocateRecvCpuBuffer, cb_receiveCpuBuffer, cb_copyFromCpuToGpu,
      cb_callRecvCallback, cb_returnRecvCpuBuffer}" and "a op c = Inr (op', c')"
  shows "cb_isCpuBuffer op' = cb_isCpuBuffer op"
  using assms by (elim insertE emptyE) (auto simp: cb_action_defs split: option.splits if_splits)

lemma cb_barriers:
  "barrier cb_advanceChunkSendOperation CbSend_INVOKED_CALLBACK (\<lambda>_. True)"
  "barrier cb_advanceChunkRecvOperation CbRecv_COPYING_FROM_CPU_TO_GPU_AND_INVOKED_CALLBACK (\<lambda>op. \<not> cb_isCpuBuffer op)"
proof -
  have "CbRecv_COPYING_FROM_CPU_TO_GPU_AND_INVOKED_CALLBACK \<le> prev"
    if "t \<in> set cb_advanceChunkRecvOperation" "\<not> cb_isCpuBuffer op" "state op = tfrom t" "tcond t op prev c"
      "tfrom t < CbRecv_COPYING_FROM_CPU_TO_GPU_AND_INVOKED_CALLBACK"
      "CbRecv_COPYING_FROM_CPU_TO_GPU_AND_INVOKED_CALLBACK \<le> tto t" for t op prev c
    using that unfolding cb_advanceChunkRecvOperation_def list.set by (elim insertE emptyE) simp_all
  then show "barrier cb_advanceChunkRecvOperation CbRecv_COPYING_FROM_CPU_TO_GPU_AND_INVOKED_CALLBACK
      (\<lambda>op. \<not> cb_isCpuBuffer op)"
    unfolding barrier_def using cb_recv_action_cpu [OF cb_recv_actions] by (intro conjI) (blast, blast, simp)
  have "CbSend_INVOKED_CALLBACK \<le> prev"
    if "t \<in> set cb_advanceChunkSendOperation" "state op = tfrom t" "tcond t op prev c"
      "tfrom t < CbSend_INVOKED_CALLBACK" "CbSend_INVOKED_CALLBACK \<le> tto t" for t op prev c
    using that unfolding cb_advanceChunkSendOperation_def list.set by (elim insertE emptyE) simp_all
  then show "barrier cb_advanceChunkSendOperation CbSend_INVOKED_CALLBACK (\<lambda>_. True)"
    unfolding barrier_def by blast
qed

definition cb_behind :: "cb_channel \<Rightarrow> bool" where
  "cb_behind ch \<longleftrightarrow>
     behind CbSend_INVOKED_CALLBACK (\<lambda>_. True) CbSend_FINISHED (sendOps ch) \<and>
     behind CbRecv_COPYING_FROM_CPU_TO_GPU_AND_INVOKED_CALLBACK (\<lambda>op. \<not> cb_isCpuBuffer op) CbRecv_FINISHED (recvOps ch)"

lemma cb_send_chunks_behind:
  assumes "cb_inv ch" and "\<not> is_error (chan_error (core ch))" and "cb_behind ch"
    and "cb_send_chunks k bsn buffer len cb off ch = Inr ch'"
  shows "cb_behind ch'"
  using assms
proof (induction k arbitrary: off ch)
  case 0
  then show ?case by (simp split: if_splits)
next
  case (Suc k)
  let ?n = "cb_nextChunkBeingSent (core ch)" and ?m = "cb_nextChunkBeingReceived (core ch)"
  let ?ch1 = "ch\<lparr>core := (core ch)\<lparr>cb_nextChunkBeingSent := Suc ?n\<rparr>\<rparr>"
  let ?op = "cb_chunk CbSend_UNINITIALIZED bsn buffer len cb off (cb_send_op.fields False False) :: cb_send_op"
  show ?case
  proof (cases "off < len")
    case False
    then show ?thesis using Suc.prems by simp
  next
    case True
    then obtain ch2 where ch2: "send_start CbSend_FINISHED cb_advanceChunkSendOperation ?op ?n ?ch1 = Inr ch2"
      and rest: "cb_send_chunks k bsn buffer len cb (off + cb_kSlotSize) ch2 = Inr ch'"
      using Suc.prems(4) by (auto simp: Let_def bindR_eq_Inr split: if_splits)
    have inv1: "cb_inv_at ?n ?m ?ch1" by (rule cb.chan_inv_at_view [OF Suc.prems(1)]) simp_all
    then have inv2: "cb_inv_at (Suc ?n) ?m ch2" and fr: "core_frame (core ch2) = core_frame (core ?ch1)"
      using cb.send_start_at [OF inv1, of ?op] Suc.prems(2) ch2 by (auto simp: cb_chunk_simps)
    have "cb_behind ch2"
      using cb.send_start_behind [OF inv1 _ cb_barriers(1) _ _ _ ch2] Suc.prems(2,3)
      by (auto simp: cb_behind_def cb_chunk_simps)
    then show ?thesis
      by (intro Suc.IH [OF _ _ _ rest]) (use inv2 cb_frame [OF fr] core_frameD(1) [OF fr] Suc.prems(2) in simp_all)
  qed
qed

lemma cb_recv_chunks_behind:
  assumes "cb_inv ch" and "\<not> is_error (chan_error (core ch))" and "cb_behind ch"
    and "cb_recv_chunks k bsn buffer len cb off ch = Inr ch'"
  shows "cb_behind ch'"
  using assms
proof (induction k arbitrary: off ch)
  case 0
  then show ?case by (simp split: if_splits)
next
  case (Suc k)
  let ?n = "cb_nextChunkBeingReceived (core ch)" and ?m = "cb_nextChunkBeingSent (core ch)"
  let ?ch1 = "ch\<lparr>core := (core ch)\<lparr>cb_nextChunkBeingReceived := Suc ?n\<rparr>\<rparr>"
  let ?op = "cb_chunk CbRecv_UNINITIALIZED bsn buffer len cb off (cb_recv_op.fields False False False) :: cb_recv_op"
  show ?case
  proof (cases "off < len")
    case False
    then show ?thesis using Suc.prems by simp
  next
    case True
    then obtain ch2 where ch2: "recv_start CbRecv_FINISHED cb_advanceChunkRecvOperation ?op ?n ?ch1 = Inr ch2"
      and rest: "cb_recv_chunks k bsn buffer len cb (off + cb_kSlotSize) ch2 = Inr ch'"
      using Suc.prems(4) by (auto simp: Let_def bindR_eq_Inr split: if_splits)
    have inv1: "cb_inv_at ?m ?n ?ch1" by (rule cb.chan_inv_at_view [OF Suc.prems(1)]) simp_all
    then have inv2: "cb_inv_at ?m (Suc ?n) ch2" and fr: "core_frame (core ch2) = core_frame (core ?ch1)"
      using cb.recv_start_at [OF inv1, of ?op] Suc.prems(2) ch2 by (auto simp: cb_chunk_simps)
    have "cb_behind ch2"
      using cb.recv_start_behind [OF inv1 _ cb_barriers(2) _ _ _ ch2] Suc.prems(2,3)
      by (auto simp: cb_behind_def cb_chunk_simps)
    then show ?thesis
      by (intro Suc.IH [OF _ _ _ rest]) (use inv2 cb_frame [OF fr] core_frameD(1) [OF fr] Suc.prems(2) in simp_all)
  qed
qed

lemma cb_sendFromLoop_behind:
  assumes "cb_inv ch" and "cb_behind ch" and "chan_sendFromLoop cb_sendImplFromLoop buffer len cb ch = Inr ch'"
  shows "cb_behind ch'"
proof (cases "is_error (chan_error (core ch)) \<or> len = 0")
  case True
  then show ?thesis
    using assms(2,3) by (auto simp: chan_sendFromLoop_def cb_sendImplFromLoop_def Let_def cb_behind_def split: if_splits)
next
  case False
  let ?ch = "ch\<lparr>core := (core ch)\<lparr>nextTensorBeingSent := Suc (nextTensorBeingSent (core ch))\<rparr>\<rparr>"
  have "cb_inv ?ch" using cb.chan_inv_at_view [OF assms(1), of "core ?ch"] by simp
  then show ?thesis
    by (rule cb_send_chunks_behind)
      (use assms(2,3) False in \<open>auto simp: chan_sendFromLoop_def cb_sendImplFromLoop_def Let_def cb_behind_def\<close>)
qed

lemma cb_recvFromLoop_behind:
  assumes "cb_inv ch" and "cb_behind ch" and "chan_recvFromLoop cb_recvImplFromLoop buffer len cb ch = Inr ch'"
  shows "cb_behind ch'"
proof (cases "is_error (chan_error (core ch)) \<or> len = 0")
  case True
  then show ?thesis
    using assms(2,3) by (auto simp: chan_recvFromLoop_def cb_recvImplFromLoop_def Let_def cb_behind_def split: if_splits)
next
  case False
  let ?ch = "ch\<lparr>core := (core ch)\<lparr>nextTensorBeingReceived := Suc (nextTensorBeingReceived (core ch))\<rparr>\<rparr>"
  have "cb_inv ?ch" using cb.chan_inv_at_view [OF assms(1), of "core ?ch"] by simp
  then show ?thesis
    by (rule cb_recv_chunks_behind)
      (use assms(2,3) False in \<open>auto simp: chan_recvFromLoop_def cb_recvImplFromLoop_def Let_def cb_behind_def\<close>)
qed

lemma cb_send_callback_behind:
  assumes "cb_inv ch" and "cb_behind ch" and "kept CbSend_FINISHED cb_advanceChunkSendOperation P"
    and "outstanding_at P sn (sendOps ch)"
    and "\<And>ch. fn ch = send_resume CbSend_FINISHED cb_advanceChunkSendOperation sn (f (chan_error (core ch))) ch"
    and "\<And>v op. sequenceNumber (f v op) = sequenceNumber op" "\<And>v op. state (f v op) = state op"
    and "entryPointFromLoop (chan_setError cb_handleErrorImpl) e fn ch = Inr ch'"
  shows "cb_behind ch'"
proof -
  obtain op where op: "op \<in> set (sendOps ch)" "sequenceNumber op = sn" "P op"
    using assms(4) by (auto simp: outstanding_at_def list_ex_iff)
  show ?thesis
    unfolding cb_behind_def
    by (rule cb.send_callback_behind [where f = f and fn = fn and e = e, OF assms(1) cb_handler_shape _ assms(3) op assms(5)])
      (use assms(2,6-8) cb_barriers in \<open>simp_all add: cb_behind_def\<close>)
qed

lemma cb_recv_callback_behind:
  assumes "cb_inv ch" and "cb_behind ch" and "kept CbRecv_FINISHED cb_advanceChunkRecvOperation P"
    and "outstanding_at P sn (recvOps ch)"
    and "\<And>ch. fn ch = recv_resume CbRecv_FINISHED cb_advanceChunkRecvOperation sn (f (chan_error (core ch))) ch"
    and "\<And>v op. sequenceNumber (f v op) = sequenceNumber op" "\<And>v op. state (f v op) = state op" "\<And>v op. cb_isCpuBuffer (f v op) = cb_isCpuBuffer op"
    and "entryPointFromLoop (chan_setError cb_handleErrorImpl) e fn ch = Inr ch'"
  shows "cb_behind ch'"
proof -
  obtain op where op: "op \<in> set (recvOps ch)" "sequenceNumber op = sn" "P op"
    using assms(4) by (auto simp: outstanding_at_def list_ex_iff)
  show ?thesis
    unfolding cb_behind_def
    by (rule cb.recv_callback_behind [where f = f and fn = fn and e = e, OF assms(1) cb_handler_shape _ assms(3) op assms(5)])
      (use assms(2,6-9) cb_barriers in \<open>simp_all add: cb_behind_def\<close>)
qed

lemma cb_step_behind:
  assumes "cb_inv ch" and "cb_enabled ev ch" and "cb_behind ch" and "cb_step ev ch = Inr ch'"
  shows "cb_behind ch'"
proof (cases ev)
  case (CbSend buffer len cb)
  then show ?thesis using cb_sendFromLoop_behind [OF assms(1,3)] assms(4) by simp
next
  case (CbRecv buffer len cb)
  then show ?thesis using cb_recvFromLoop_behind [OF assms(1,3)] assms(4) by simp
next
  case (CbSetId i)
  then show ?thesis using assms(3,4) by (auto simp: cb_setIdImpl_def chan_setIdFromLoop_def cb_behind_def)
next
  case CbCloseChannel
  then show ?thesis
    using cb.setError_behind [OF assms(1) cb_handler_shape cb_barriers(1) _ cb_barriers(2)] assms(3,4)
    by (simp add: chan_closeFromLoop_def cb_behind_def)
next
  case (CbWritten e)
  then show ?thesis
    using cb.setError_behind [OF assms(1) cb_handler_shape cb_barriers(1) _ cb_barriers(2)] assms(3,4)
    by (simp add: entryPointFromLoop_def bindR_eq_Inr cb_onWritten_def cb_behind_def)
next
  case (CbSendAllocated sn tmp e)
  show ?thesis
    by (rule cb_send_callback_behind [where P = cb_send_allocating and f = "cb_setStaging tmp" and fn = "cb_onSendAllocated sn tmp" and e = e, OF assms(1,3) cb_kept(1)])
      (use assms(2,4) CbSendAllocated in \<open>simp_all add: cb_onSendAllocated_def\<close>)
next
  case (CbCopiedToCpu sn e)
  show ?thesis
    by (rule cb_send_callback_behind [where P = cb_copying_to_cpu and f = "\<lambda>_ op. op\<lparr>cbs_doneCopyingFromGpuToCpu := True\<rparr>" and fn = "cb_onCopiedToCpu sn" and e = e, OF assms(1,3) cb_kept(2)])
      (use assms(2,4) CbCopiedToCpu in \<open>simp_all add: cb_onCopiedToCpu_def\<close>)
next
  case (CbCpuSent sn e)
  show ?thesis
    by (rule cb_send_callback_behind [where P = cb_cpu_sending and f = "\<lambda>_ op. op\<lparr>cbs_doneSendingCpuBuffer := True\<rparr>" and fn = "cb_onCpuSent sn" and e = e, OF assms(1,3) cb_kept(3)])
      (use assms(2,4) CbCpuSent in \<open>simp_all add: cb_onCpuSent_def\<close>)
next
  case (CbReadyToSendRead sn e)
  show ?thesis
    by (rule cb_recv_callback_behind [where P = cb_reading_ready and f = "\<lambda>_ op. op\<lparr>cbr_doneReadingReadyToSend := True\<rparr>" and fn = "cb_onReadyToSendRead sn" and e = e, OF assms(1,3) cb_kept(4)])
      (use assms(2,4) CbReadyToSendRead in \<open>simp_all add: cb_onReadyToSendRead_def\<close>)
next
  case (CbRecvAllocated sn tmp e)
  show ?thesis
    by (rule cb_recv_callback_behind [where P = cb_recv_allocating and f = "cb_setStaging tmp" and fn = "cb_onRecvAllocated sn tmp" and e = e, OF assms(1,3) cb_kept(5)])
      (use assms(2,4) CbRecvAllocated in \<open>simp_all add: cb_onRecvAllocated_def\<close>)
next
  case (CbCpuReceived sn e)
  show ?thesis
    by (rule cb_recv_callback_behind [where P = cb_cpu_receiving and f = "\<lambda>_ op. op\<lparr>cbr_doneReceivingCpuBuffer := True\<rparr>" and fn = "cb_onCpuReceived sn" and e = e, OF assms(1,3) cb_kept(6)])
      (use assms(2,4) CbCpuReceived in \<open>simp_all add: cb_onCpuReceived_def\<close>)
next
  case (CbCopiedToGpu sn e)
  show ?thesis
    by (rule cb_recv_callback_behind [where P = cb_copying_to_gpu and f = "\<lambda>_ op. op\<lparr>cbr_doneCopyingFromCpuToGpu := True\<rparr>" and fn = "cb_onCopiedToGpu sn" and e = e, OF assms(1,3) cb_copying_kept])
      (use assms(2,4) CbCopiedToGpu in \<open>simp_all add: cb_onCopiedToGpu_def\<close>)
qed

lemma cb_trace_behind: "cb_trace evs ch \<Longrightarrow> cb_behind ch"
proof (induction rule: cb_trace.induct)
  case (cb_created closed i ch)
  then show ?case
    by (auto simp: chan_initFromLoop_def cb_initImplFromLoop_def cb_init_def cb_behind_def split: if_splits)
next
  case (cb_stepped evs ch ev ch')
  then show ?case using cb_step_behind cb_trace_inv by blast
qed

section \<open>Properties\<close>

text \<open>
  Traces by evaluation, and two of them: a buffer of a CUDA device, one byte longer than a chunk, whose two
  chunks have been copied to staging buffers and handed to the CPU channel; and five bytes received
  into CPU memory.
\<close>

fun cb_run :: "cb_event list \<Rightarrow> cb_channel \<Rightarrow> cb_channel option" where
  "cb_run [] ch = Some ch"
| "cb_run (ev # evs) ch =
     (if cb_enabled ev ch then case cb_step ev ch of Inl f \<Rightarrow> None | Inr ch' \<Rightarrow> cb_run evs ch' else None)"

lemma cb_run_trace: "cb_trace evs0 ch0 \<Longrightarrow> cb_run evs ch0 = Some ch \<Longrightarrow> cb_trace (evs0 @ evs) ch"
proof (induction evs arbitrary: evs0 ch0)
  case (Cons ev evs)
  then obtain ch1 where "cb_step ev ch0 = Inr ch1" "cb_run evs ch1 = Some ch" "cb_trace (evs0 @ [ev]) ch1"
    by (auto split: if_splits sum.splits intro: cb_stepped)
  then show ?case using Cons.IH [of "evs0 @ [ev]" ch1] by simp
qed simp

definition cb_start :: cb_channel where
  "cb_start = cb_init ''c''\<lparr>core := log_effects [EnrollChannel] (core (cb_init ''c''))\<rparr>"

lemma cb_start_trace: "cb_trace [] cb_start"
  by (rule cb_created [of False "''c''"]) (simp add: chan_initFromLoop_def cb_initImplFromLoop_def cb_start_def)

definition cb_send_story :: "cb_event list" where
  "cb_send_story =
     [CbSend \<lparr>buf_deviceType = ''cuda'', buf_deviceIndex = 1, buf_ptr = 8192, buf_stream = 64\<rparr> 1048577 7,
      CbSendAllocated 0 (Some 5000) Success, CbSendAllocated 1 (Some 9000) Success,
      CbCopiedToCpu 0 Success, CbCopiedToCpu 1 Success]"

definition cb_sent_chunk :: "nat \<Rightarrow> addr \<Rightarrow> bytes_len \<Rightarrow> addr \<Rightarrow> cb_send_op" where
  "cb_sent_chunk i p len tmp =
     \<lparr>sequenceNumber = i, state = CbSend_SENDING_CPU_BUFFER, op_ptr = p, op_length = len, op_callback = None,
      cb_bufferSequenceNumber = 0, cb_isCpuBuffer = False, cb_chunkId = of_nat i, cb_numChunks = 2,
      cb_stream = 64, cb_deviceIdx = 1, cb_tmpBuffer = Some tmp, cb_doneAllocatingCpuStagingBuffer = True,
      cbs_doneCopyingFromGpuToCpu = True, cbs_doneSendingCpuBuffer = False\<rparr>"

definition cb_story_sent :: cb_channel where
  "cb_story_sent =
     \<lparr>core = \<lparr>chan_id = ''c'', chan_error = Success, nextTensorBeingSent = 1, nextTensorBeingReceived = 0,
        chan_log = [EnrollChannel, Lower (CbAllocSend 0 1048576 1), Lower (CbAllocSend 1 1 1),
          Lower (CbWriteReadyToSend 0), Lower (CbCudaCopy 0 5000 8192 1048576 1 64),
          Lower (CbWriteReadyToSend 1), Lower (CbCudaCopy 1 9000 1056768 1 1 64),
          Lower (CbCpuSend 0 5000 1048576), SendCallback 7 Success, Lower (CbCpuSend 1 9000 1)],
        cb_nextChunkBeingSent = 2, cb_nextChunkBeingReceived = 0\<rparr>,
      sendOps = [cb_sent_chunk 0 8192 1048576 5000, cb_sent_chunk 1 1056768 1 9000],
      recvOps = []\<rparr>"

lemma cb_story_sent_trace: "cb_trace cb_send_story cb_story_sent"
proof -
  have "cb_run cb_send_story cb_start = Some cb_story_sent" by code_simp
  then show ?thesis using cb_run_trace [OF cb_start_trace] by simp
qed

definition cb_recv_story :: "cb_event list" where
  "cb_recv_story =
     [CbRecv \<lparr>buf_deviceType = ''cpu'', buf_deviceIndex = 0, buf_ptr = 100, buf_stream = 0\<rparr> 5 8,
      CbReadyToSendRead 0 Success, CbCpuReceived 0 Success]"

definition cb_story_received :: cb_channel where
  "cb_story_received =
     \<lparr>core = \<lparr>chan_id = ''c'', chan_error = Success, nextTensorBeingSent = 0, nextTensorBeingReceived = 1,
        chan_log = [EnrollChannel, Lower (CbReadReadyToSend 0), Lower (CbCpuRecv 0 100 5), RecvCallback 8 Success],
        cb_nextChunkBeingSent = 0, cb_nextChunkBeingReceived = 1\<rparr>,
      sendOps = [], recvOps = []\<rparr>"

lemma cb_story_received_trace: "cb_trace cb_recv_story cb_story_received"
proof -
  have "cb_run cb_recv_story cb_start = Some cb_story_received" by code_simp
  then show ?thesis using cb_run_trace [OF cb_start_trace] by simp
qed





end
