(* ===== verification/Cuda_Xth_Channel.thy ===== *)
theory Cuda_Xth_Channel
  imports Channel_Boilerplate
begin

text \<open>
  The channel \<^verbatim>\<open>tensorpipe/channel/cuda_xth\<close> between threads of one process whose buffers are on CUDA
  devices: the sender records an event on its stream and writes a descriptor with the event, the
  address, the device and the stream of its buffer; the receiver makes its own stream wait for the
  event, puts the copy on it, makes the stream of the sender wait for the copy, and writes a
  completion. Nothing waits for the devices themselves. What the CUDA driver and runtime answer (the
  device of a pointer, the handle of a new event) comes with the request.
\<close>

section \<open>Operations\<close>

datatype cx_send_state = CxSend_UNINITIALIZED | CxSend_READING_COMPLETION | CxSend_FINISHED

datatype cx_recv_state = CxRecv_UNINITIALIZED | CxRecv_READING_DESCRIPTOR | CxRecv_FINISHED

fun cx_send_pos :: "cx_send_state \<Rightarrow> nat" where
  "cx_send_pos CxSend_UNINITIALIZED = 0"
| "cx_send_pos CxSend_READING_COMPLETION = 1"
| "cx_send_pos CxSend_FINISHED = 2"

fun cx_recv_pos :: "cx_recv_state \<Rightarrow> nat" where
  "cx_recv_pos CxRecv_UNINITIALIZED = 0"
| "cx_recv_pos CxRecv_READING_DESCRIPTOR = 1"
| "cx_recv_pos CxRecv_FINISHED = 2"

lemma cx_send_pos_inj: "cx_send_pos a = cx_send_pos b \<Longrightarrow> a = b"
  by (cases a; cases b) simp_all

lemma cx_recv_pos_inj: "cx_recv_pos a = cx_recv_pos b \<Longrightarrow> a = b"
  by (cases a; cases b) simp_all

instantiation cx_send_state :: linorder
begin

definition less_eq_cx_send_state :: "cx_send_state \<Rightarrow> cx_send_state \<Rightarrow> bool" where
  "less_eq_cx_send_state a b \<longleftrightarrow> cx_send_pos a \<le> cx_send_pos b"

definition less_cx_send_state :: "cx_send_state \<Rightarrow> cx_send_state \<Rightarrow> bool" where
  "less_cx_send_state a b \<longleftrightarrow> cx_send_pos a < cx_send_pos b"

instance
  by standard (auto simp: less_eq_cx_send_state_def less_cx_send_state_def dest: cx_send_pos_inj)

end

instantiation cx_recv_state :: linorder
begin

definition less_eq_cx_recv_state :: "cx_recv_state \<Rightarrow> cx_recv_state \<Rightarrow> bool" where
  "less_eq_cx_recv_state a b \<longleftrightarrow> cx_recv_pos a \<le> cx_recv_pos b"

definition less_cx_recv_state :: "cx_recv_state \<Rightarrow> cx_recv_state \<Rightarrow> bool" where
  "less_cx_recv_state a b \<longleftrightarrow> cx_recv_pos a < cx_recv_pos b"

instance
  by standard (auto simp: less_eq_cx_recv_state_def less_cx_recv_state_def dest: cx_recv_pos_inj)

end

lemmas cx_state_order [simp] =
  less_eq_cx_send_state_def less_cx_send_state_def
  less_eq_cx_recv_state_def less_cx_recv_state_def

text \<open>The structure \<^verbatim>\<open>Descriptor\<close>; handles of events and streams travel as addresses.\<close>

record cx_descriptor =
  cxd_startEvent :: addr
  cxd_srcPtr :: addr
  cxd_srcDeviceIdx :: int
  cxd_srcStream :: addr

record cuda_buffer =
  cub_ptr :: addr
  cub_stream :: addr

record cx_send_op = "cx_send_state data_op" +
  cxs_doneReadingCompletion :: bool
  cxs_deviceIdx :: int
  cxs_stream :: addr
  cxs_startEv :: addr

text \<open>
  The members \<^verbatim>\<open>startEvent\<close>, \<^verbatim>\<open>srcPtr\<close>, \<^verbatim>\<open>srcDeviceIdx\<close> and \<^verbatim>\<open>srcStream\<close> have no initial values and are set
  together.
\<close>

record cx_recv_op = "cx_recv_state data_op" +
  cxr_doneReadingDescriptor :: bool
  cxr_deviceIdx :: int
  cxr_stream :: addr
  cxr_source :: "cx_descriptor option"

text \<open>Calls on the CUDA runtime and on the two connections.\<close>

datatype cx_call =
    CxRecordStart nat int addr addr
  | CxStreamWaitEvent int addr addr
  | CxMemcpyDeviceToDevice int addr addr bytes_len addr
  | CxRecordStop nat int addr
  | CxWaitStop nat addr int
  | CxWriteDescriptor nat cx_descriptor
  | CxReadCompletion nat
  | CxReadDescriptor nat
  | CxWriteCompletion nat
  | CxCloseDescriptorConnection
  | CxCloseCompletionConnection

type_synonym cx_core = "cx_call chan_core"
type_synonym cx_channel = "(cx_core, cx_send_op, cx_recv_op) channel"

section \<open>Actions\<close>

definition cx_writeDescriptor :: "cx_send_op \<Rightarrow> cx_core \<Rightarrow> (cx_send_op \<times> cx_core) result" where
  "cx_writeDescriptor op c =
     Inr (op, log_effects [Lower (CxWriteDescriptor (sequenceNumber op)
       \<lparr>cxd_startEvent = cxs_startEv op, cxd_srcPtr = op_ptr op, cxd_srcDeviceIdx = cxs_deviceIdx op,
        cxd_srcStream = cxs_stream op\<rparr>)] c)"

definition cx_readCompletion :: "cx_send_op \<Rightarrow> cx_core \<Rightarrow> (cx_send_op \<times> cx_core) result" where
  "cx_readCompletion op c = Inr (op, log_effects [Lower (CxReadCompletion (sequenceNumber op))] c)"

definition cx_callSendCallback :: "cx_send_op \<Rightarrow> cx_core \<Rightarrow> (cx_send_op \<times> cx_core) result" where
  "cx_callSendCallback op c = call_send_callback op c"

definition cx_readDescriptor :: "cx_recv_op \<Rightarrow> cx_core \<Rightarrow> (cx_recv_op \<times> cx_core) result" where
  "cx_readDescriptor op c = Inr (op, log_effects [Lower (CxReadDescriptor (sequenceNumber op))] c)"

text \<open>\<^verbatim>\<open>RecvOperation::process\<close>: the calls in the order in which the streams get them.\<close>

definition cx_process :: "cx_recv_op \<Rightarrow> cx_core \<Rightarrow> cx_core result" where
  "cx_process op c =
     (case cxr_source op of
        None \<Rightarrow> Inl UninitializedRead
      | Some d \<Rightarrow>
          Inr (log_effects
            [Lower (CxStreamWaitEvent (cxr_deviceIdx op) (cxr_stream op) (cxd_startEvent d)),
             Lower (CxMemcpyDeviceToDevice (cxr_deviceIdx op) (op_ptr op) (cxd_srcPtr d) (op_length op) (cxr_stream op)),
             Lower (CxRecordStop (sequenceNumber op) (cxr_deviceIdx op) (cxr_stream op)),
             Lower (CxWaitStop (sequenceNumber op) (cxd_srcStream d) (cxd_srcDeviceIdx d))] c))"

definition cx_waitOnStartEventAndCopyAndSyncWithSourceStream ::
  "cx_recv_op \<Rightarrow> cx_core \<Rightarrow> (cx_recv_op \<times> cx_core) result" where
  "cx_waitOnStartEventAndCopyAndSyncWithSourceStream op c = bindR (cx_process op c) (\<lambda>c'. Inr (op, c'))"

definition cx_callRecvCallback :: "cx_recv_op \<Rightarrow> cx_core \<Rightarrow> (cx_recv_op \<times> cx_core) result" where
  "cx_callRecvCallback op c = call_recv_callback op c"

definition cx_writeCompletion :: "cx_recv_op \<Rightarrow> cx_core \<Rightarrow> (cx_recv_op \<times> cx_core) result" where
  "cx_writeCompletion op c = Inr (op, log_effects [Lower (CxWriteCompletion (sequenceNumber op))] c)"

section \<open>Transitions\<close>

type_synonym cx_send_table = "(cx_send_state, unit cx_send_op_ext data_op_ext, cx_core) transition list"
type_synonym cx_recv_table = "(cx_recv_state, unit cx_recv_op_ext data_op_ext, cx_core) transition list"

definition cx_advanceSendOperation :: cx_send_table where
  "cx_advanceSendOperation =
    [Transition CxSend_UNINITIALIZED CxSend_FINISHED
       (\<lambda>op prev c. is_error (chan_error c) \<or> op_length op = 0)
       [cx_callSendCallback],
     Transition CxSend_UNINITIALIZED CxSend_READING_COMPLETION
       (\<lambda>op prev c. \<not> is_error (chan_error c) \<and> prev \<ge> CxSend_READING_COMPLETION)
       [cx_writeDescriptor, cx_readCompletion],
     Transition CxSend_READING_COMPLETION CxSend_FINISHED
       (\<lambda>op prev c. cxs_doneReadingCompletion op)
       [cx_callSendCallback]]"

definition cx_advanceRecvOperation :: cx_recv_table where
  "cx_advanceRecvOperation =
    [Transition CxRecv_UNINITIALIZED CxRecv_FINISHED
       (\<lambda>op prev c. is_error (chan_error c) \<or> op_length op = 0)
       [cx_callRecvCallback],
     Transition CxRecv_UNINITIALIZED CxRecv_READING_DESCRIPTOR
       (\<lambda>op prev c. \<not> is_error (chan_error c) \<and> prev \<ge> CxRecv_READING_DESCRIPTOR)
       [cx_readDescriptor],
     Transition CxRecv_READING_DESCRIPTOR CxRecv_FINISHED
       (\<lambda>op prev c. is_error (chan_error c) \<and> cxr_doneReadingDescriptor op)
       [cx_callRecvCallback],
     Transition CxRecv_READING_DESCRIPTOR CxRecv_FINISHED
       (\<lambda>op prev c. \<not> is_error (chan_error c) \<and> cxr_doneReadingDescriptor op \<and> prev \<ge> CxRecv_FINISHED)
       [cx_waitOnStartEventAndCopyAndSyncWithSourceStream, cx_callRecvCallback, cx_writeCompletion]]"

section \<open>Handlers\<close>

definition cx_init :: "string \<Rightarrow> cx_channel" where
  "cx_init i = \<lparr>core = chan_init_core i, sendOps = [], recvOps = []\<rparr>"

definition cx_initImplFromLoop :: "cx_channel \<Rightarrow> cx_channel result" where
  "cx_initImplFromLoop ch = Inr (ch\<lparr>core := log_effects [EnrollChannel] (core ch)\<rparr>)"

text \<open>
  The constructor of the operation creates the event \<open>ev\<close> on the device of the buffer and records it on the
  stream, before the operation advances.
\<close>

definition cx_sendImplFromLoop ::
  "int \<Rightarrow> addr \<Rightarrow> nat \<Rightarrow> cuda_buffer \<Rightarrow> bytes_len \<Rightarrow> nat \<Rightarrow> cx_channel \<Rightarrow> cx_channel result" where
  "cx_sendImplFromLoop deviceIdx ev sn buffer len callback ch =
     send_start CxSend_FINISHED cx_advanceSendOperation
       \<lparr>sequenceNumber = 0, state = CxSend_UNINITIALIZED, op_ptr = cub_ptr buffer, op_length = len,
        op_callback = Some callback, cxs_doneReadingCompletion = False, cxs_deviceIdx = deviceIdx,
        cxs_stream = cub_stream buffer, cxs_startEv = ev\<rparr> sn
       (ch\<lparr>core := log_effects [Lower (CxRecordStart sn deviceIdx ev (cub_stream buffer))] (core ch)\<rparr>)"

definition cx_recvImplFromLoop ::
  "int \<Rightarrow> nat \<Rightarrow> cuda_buffer \<Rightarrow> bytes_len \<Rightarrow> nat \<Rightarrow> cx_channel \<Rightarrow> cx_channel result" where
  "cx_recvImplFromLoop deviceIdx sn buffer len callback =
     recv_start CxRecv_FINISHED cx_advanceRecvOperation
       \<lparr>sequenceNumber = 0, state = CxRecv_UNINITIALIZED, op_ptr = cub_ptr buffer, op_length = len,
        op_callback = Some callback, cxr_doneReadingDescriptor = False, cxr_deviceIdx = deviceIdx,
        cxr_stream = cub_stream buffer, cxr_source = None\<rparr> sn"

definition cx_handleErrorImpl :: "cx_channel \<Rightarrow> cx_channel result" where
  "cx_handleErrorImpl ch =
     bindR (advance_both CxSend_FINISHED cx_advanceSendOperation
              CxRecv_FINISHED cx_advanceRecvOperation ch)
       (\<lambda>ch'. Inr (ch'\<lparr>core := log_effects
          [Lower CxCloseDescriptorConnection, Lower CxCloseCompletionConnection, UnenrollChannel] (core ch')\<rparr>))"

text \<open>The callbacks that the actions pass on; those of the two writes do nothing.\<close>

definition cx_onCompletionRead :: "nat \<Rightarrow> cx_channel \<Rightarrow> cx_channel result" where
  "cx_onCompletionRead sn =
     send_resume CxSend_FINISHED cx_advanceSendOperation sn (\<lambda>op. op\<lparr>cxs_doneReadingCompletion := True\<rparr>)"

definition cx_setDescriptor :: "cx_descriptor \<Rightarrow> tp_error \<Rightarrow> cx_recv_op \<Rightarrow> cx_recv_op" where
  "cx_setDescriptor d e op =
     (let op1 = op\<lparr>cxr_doneReadingDescriptor := True\<rparr>
      in if \<not> is_error e then op1\<lparr>cxr_source := Some d\<rparr> else op1)"

definition cx_onDescriptorRead :: "nat \<Rightarrow> cx_descriptor \<Rightarrow> cx_channel \<Rightarrow> cx_channel result" where
  "cx_onDescriptorRead sn d ch =
     recv_resume CxRecv_FINISHED cx_advanceRecvOperation sn (cx_setDescriptor d (chan_error (core ch))) ch"

definition cx_onWritten :: "cx_channel \<Rightarrow> cx_channel result" where
  "cx_onWritten ch = Inr ch"

section \<open>Events\<close>

datatype cx_event =
    CxSend int addr cuda_buffer bytes_len nat
  | CxRecv int cuda_buffer bytes_len nat
  | CxSetId string
  | CxCloseChannel
  | CxCompletionRead nat tp_error
  | CxDescriptorRead nat cx_descriptor tp_error
  | CxWritten tp_error

fun cx_step :: "cx_event \<Rightarrow> cx_channel \<Rightarrow> cx_channel result" where
  "cx_step (CxSend dev ev buffer len cb) ch = chan_sendFromLoop (cx_sendImplFromLoop dev ev) buffer len cb ch"
| "cx_step (CxRecv dev buffer len cb) ch = chan_recvFromLoop (cx_recvImplFromLoop dev) buffer len cb ch"
| "cx_step (CxSetId i) ch = Inr (chan_setIdFromLoop i ch)"
| "cx_step CxCloseChannel ch = chan_closeFromLoop cx_handleErrorImpl ch"
| "cx_step (CxCompletionRead sn e) ch =
     entryPointFromLoop (chan_setError cx_handleErrorImpl) e (cx_onCompletionRead sn) ch"
| "cx_step (CxDescriptorRead sn d e) ch =
     entryPointFromLoop (chan_setError cx_handleErrorImpl) e (cx_onDescriptorRead sn d) ch"
| "cx_step (CxWritten e) ch =
     entryPointFromLoop (chan_setError cx_handleErrorImpl) e cx_onWritten ch"

definition cx_awaiting_completion :: "cx_send_op \<Rightarrow> bool" where
  "cx_awaiting_completion op \<longleftrightarrow> state op = CxSend_READING_COMPLETION \<and> \<not> cxs_doneReadingCompletion op"

definition cx_reading_descriptor :: "cx_recv_op \<Rightarrow> bool" where
  "cx_reading_descriptor op \<longleftrightarrow> state op = CxRecv_READING_DESCRIPTOR \<and> \<not> cxr_doneReadingDescriptor op"

text \<open>Callbacks that carry an iterator arrive once per started operation; those of the writes at any time.\<close>

fun cx_enabled :: "cx_event \<Rightarrow> cx_channel \<Rightarrow> bool" where
  "cx_enabled (CxCompletionRead sn e) ch \<longleftrightarrow> outstanding_at cx_awaiting_completion sn (sendOps ch)"
| "cx_enabled (CxDescriptorRead sn d e) ch \<longleftrightarrow> outstanding_at cx_reading_descriptor sn (recvOps ch)"
| "cx_enabled _ ch \<longleftrightarrow> True"

inductive cx_trace :: "cx_event list \<Rightarrow> cx_channel \<Rightarrow> bool" where
  cx_created: "chan_initFromLoop closed cx_initImplFromLoop (cx_init i) = Inr ch \<Longrightarrow> cx_trace [] ch"
| cx_stepped: "cx_trace evs ch \<Longrightarrow> cx_enabled ev ch \<Longrightarrow> cx_step ev ch = Inr ch' \<Longrightarrow>
     cx_trace (evs @ [ev]) ch'"

section \<open>The tables meet the contract\<close>

definition cx_send_ok :: "tp_error \<Rightarrow> cx_send_op \<Rightarrow> bool" where
  "cx_send_ok e op \<longleftrightarrow> (op_callback op = None \<longleftrightarrow> state op = CxSend_FINISHED)"

definition cx_recv_ok :: "tp_error \<Rightarrow> cx_recv_op \<Rightarrow> bool" where
  "cx_recv_ok e op \<longleftrightarrow> (op_callback op = None \<longleftrightarrow> state op = CxRecv_FINISHED) \<and>
     (\<not> is_error e \<and> cxr_doneReadingDescriptor op \<longrightarrow> cxr_source op \<noteq> None)"

lemmas cx_action_defs =
  cx_writeDescriptor_def cx_readCompletion_def cx_callSendCallback_def cx_readDescriptor_def cx_process_def
  cx_waitOnStartEventAndCopyAndSyncWithSourceStream_def cx_callRecvCallback_def cx_writeCompletion_def
  call_send_callback_def call_recv_callback_def owes_send_def owes_recv_def

lemmas cx_table_defs =
  cx_advanceSendOperation_def cx_advanceRecvOperation_def cx_send_ok_def cx_recv_ok_def
  cx_awaiting_completion_def cx_reading_descriptor_def

lemma cx_finished_top: "s \<le> CxSend_FINISHED" "r \<le> CxRecv_FINISHED"
  by (cases s; simp) (cases r; simp)

lemma cx_send_front:
  "stable cx_advanceSendOperation op CxSend_FINISHED c \<Longrightarrow> state op \<noteq> CxSend_FINISHED \<Longrightarrow> cx_awaiting_completion op"
  by (cases "state op") (auto simp: stable_def cx_table_defs)

lemma cx_recv_front:
  "stable cx_advanceRecvOperation op CxRecv_FINISHED c \<Longrightarrow> state op \<noteq> CxRecv_FINISHED \<Longrightarrow> cx_reading_descriptor op"
  by (cases "state op") (auto simp: stable_def cx_table_defs)

interpretation cx: prompt_channel
  CxSend_FINISHED cx_advanceSendOperation cx_send_ok cx_awaiting_completion owes_send
  CxRecv_FINISHED cx_advanceRecvOperation cx_recv_ok cx_reading_descriptor owes_recv
  chan_error
  by (unfold_locales; (intro cx_finished_top | erule (1) cx_send_front cx_recv_front
      | auto simp: cx_table_defs cx_action_defs stable_def dest: core_frameD(1) split: option.splits))

section \<open>Every event keeps the invariant\<close>

abbreviation cx_inv :: "cx_channel \<Rightarrow> bool" where
  "cx_inv \<equiv> chan_inv CxSend_FINISHED cx_advanceSendOperation cx_send_ok
     CxRecv_FINISHED cx_advanceRecvOperation cx_recv_ok chan_error"

abbreviation cx_accounted :: "cx_channel \<Rightarrow> (nat + nat) multiset" where
  "cx_accounted \<equiv> accounted owes_send owes_recv"

fun cx_requested :: "cx_event \<Rightarrow> (nat + nat) multiset" where
  "cx_requested (CxSend dev ev buffer len cb) = {#Inl cb#}"
| "cx_requested (CxRecv dev buffer len cb) = {#Inr cb#}"
| "cx_requested _ = {#}"

lemma cx_handler_shape:
  "cx_handleErrorImpl ch =
     bindR (advance_both CxSend_FINISHED cx_advanceSendOperation
              CxRecv_FINISHED cx_advanceRecvOperation ch)
       (\<lambda>ch'. Inr (ch'\<lparr>core := log_effects
          [Lower CxCloseDescriptorConnection, Lower CxCloseCompletionConnection, UnenrollChannel] (core ch')\<rparr>))"
  by (simp add: cx_handleErrorImpl_def)

lemma cx_setDescriptor_simps [simp]:
  "sequenceNumber (cx_setDescriptor d e op) = sequenceNumber op"
  "state (cx_setDescriptor d e op) = state op"
  "owes_recv (cx_setDescriptor d e op) = owes_recv op"
  "cx_recv_ok e op \<Longrightarrow> cx_recv_ok e (cx_setDescriptor d e op)"
  by (simp_all add: cx_setDescriptor_def Let_def owes_recv_def cx_recv_ok_def)

lemma cx_log_sent:
  "(log_effects es c)\<lparr>nextTensorBeingSent := n\<rparr> = log_effects es (c\<lparr>nextTensorBeingSent := n\<rparr>)" for c :: cx_core
  by (cases c) (simp add: log_effects_def)

lemma cx_send_inv:
  assumes inv: "cx_inv ch"
  shows "\<exists>ch'. chan_sendFromLoop (cx_sendImplFromLoop dev ev) buffer len cb ch = Inr ch' \<and> cx_inv ch' \<and>
    cx_accounted ch' = cx_accounted ch + {#Inl cb#}"
proof (cases "is_error (chan_error (core ch))")
  case True
  have "cx_inv (ch\<lparr>core := log_effects [SendCallback cb (chan_error (core ch))]
      ((core ch)\<lparr>nextTensorBeingSent := Suc (nextTensorBeingSent (core ch))\<rparr>)\<rparr>)"
    using cx.chan_inv_at_view [OF inv [unfolded chan_inv_at_next]] True by (simp add: chan_inv_at_def chan_inv_def)
  then show ?thesis using True by (simp add: chan_sendFromLoop_def Let_def accounted_def)
next
  case False
  let ?e = "Lower (CxRecordStart (nextTensorBeingSent (core ch)) dev ev (cub_stream buffer))"
  let ?ch = "ch\<lparr>core := log_effects [?e] (core ch)\<rparr>"
  have "cx_inv ?ch" by (rule cx.chan_inv_view [OF inv]) simp_all
  from cx.send_start_inv [OF this _ refl, of "\<lparr>sequenceNumber = 0, state = CxSend_UNINITIALIZED,
      op_ptr = cub_ptr buffer, op_length = len, op_callback = Some cb, cxs_doneReadingCompletion = False,
      cxs_deviceIdx = dev, cxs_stream = cub_stream buffer, cxs_startEv = ev\<rparr>"]
  show ?thesis
    using False
    by (simp add: chan_sendFromLoop_def cx_sendImplFromLoop_def Let_def cx_log_sent cx_send_ok_def
        owes_send_def accounted_def)
qed

lemma cx_callback_inv:
  assumes "cx_inv ch"
  shows "outstanding_at cx_awaiting_completion sn (sendOps ch) \<Longrightarrow>
      \<exists>ch'. entryPointFromLoop (chan_setError cx_handleErrorImpl) e (cx_onCompletionRead sn) ch = Inr ch' \<and>
        cx_inv ch' \<and> cx_accounted ch' = cx_accounted ch"
    and "outstanding_at cx_reading_descriptor sn (recvOps ch) \<Longrightarrow>
      \<exists>ch'. entryPointFromLoop (chan_setError cx_handleErrorImpl) e (cx_onDescriptorRead sn d) ch = Inr ch' \<and>
        cx_inv ch' \<and> cx_accounted ch' = cx_accounted ch"
proof -
  assume "outstanding_at cx_awaiting_completion sn (sendOps ch)"
  then obtain op where op: "op \<in> set (sendOps ch)" "sequenceNumber op = sn" "cx_awaiting_completion op"
    by (auto simp: outstanding_at_def list_ex_iff)
  show "\<exists>ch'. entryPointFromLoop (chan_setError cx_handleErrorImpl) e (cx_onCompletionRead sn) ch = Inr ch' \<and>
      cx_inv ch' \<and> cx_accounted ch' = cx_accounted ch"
    by (rule cx.send_callback_inv [where f = "\<lambda>_ op. op\<lparr>cxs_doneReadingCompletion := True\<rparr>",
          OF assms cx_handler_shape _ op])
      (auto simp: cx_onCompletionRead_def cx_send_ok_def owes_send_def)
next
  assume "outstanding_at cx_reading_descriptor sn (recvOps ch)"
  then obtain op where op: "op \<in> set (recvOps ch)" "sequenceNumber op = sn" "cx_reading_descriptor op"
    by (auto simp: outstanding_at_def list_ex_iff)
  show "\<exists>ch'. entryPointFromLoop (chan_setError cx_handleErrorImpl) e (cx_onDescriptorRead sn d) ch = Inr ch' \<and>
      cx_inv ch' \<and> cx_accounted ch' = cx_accounted ch"
    by (rule cx.recv_callback_inv [where f = "cx_setDescriptor d", OF assms cx_handler_shape _ op])
      (auto simp: cx_onDescriptorRead_def)
qed

lemma cx_step_inv:
  assumes "cx_inv ch" and "cx_enabled ev ch"
  shows "\<exists>ch'. cx_step ev ch = Inr ch' \<and> cx_inv ch' \<and> cx_accounted ch' = cx_accounted ch + cx_requested ev"
proof (cases ev)
  case (CxSend dev e buffer len cb)
  then show ?thesis using cx_send_inv [OF assms(1)] by simp
next
  case (CxRecv dev buffer len cb)
  show ?thesis unfolding CxRecv cx_step.simps cx_requested.simps
    by (rule cx.recvFromLoop_inv [OF assms(1)])
      (auto simp: cx_recvImplFromLoop_def cx_recv_ok_def owes_recv_def)
next
  case (CxSetId i)
  then show ?thesis using cx.setIdFromLoop_inv [OF assms(1)] by simp
next
  case CxCloseChannel
  then show ?thesis
    using cx.setError_inv [OF assms(1) cx_handler_shape, of ChannelClosedError]
    by (auto simp: chan_closeFromLoop_def)
next
  case (CxWritten e)
  then show ?thesis
    using cx.setError_inv [OF assms(1) cx_handler_shape, of e]
    by (auto simp: entryPointFromLoop_def cx_onWritten_def)
qed (use assms cx_callback_inv in simp_all)

lemma cx_created_inv:
  assumes "chan_initFromLoop closed cx_initImplFromLoop (cx_init i) = Inr ch"
  shows "cx_inv ch" and "cx_accounted ch = {#}"
  using assms
  by (auto simp: chan_initFromLoop_def cx_initImplFromLoop_def cx_init_def chan_init_core_def
      chan_inv_def machine_ok_def contiguous_def ends_at_def accounted_def called_def log_effects_def
      split: if_splits)

lemma cx_trace_inv: "cx_trace evs ch \<Longrightarrow> cx_inv ch \<and> cx_accounted ch = sum_list (map cx_requested evs)"
proof (induction rule: cx_trace.induct)
  case (cx_created closed i ch)
  then show ?case using cx_created_inv by simp
next
  case (cx_stepped evs ch ev ch')
  then show ?case using cx_step_inv [of ch ev] by auto
qed

section \<open>Properties\<close>


text \<open>A channel that receives five bytes from another device.\<close>

definition cx_received :: cx_channel where
  "cx_received =
     \<lparr>core = \<lparr>chan_id = ''c'', chan_error = Success, nextTensorBeingSent = 0, nextTensorBeingReceived = 1,
        chan_log = [EnrollChannel, Lower (CxReadDescriptor 0), Lower (CxStreamWaitEvent 1 70 900),
          Lower (CxMemcpyDeviceToDevice 1 100 800 5 70), Lower (CxRecordStop 0 1 70), Lower (CxWaitStop 0 60 0),
          RecvCallback 7 Success, Lower (CxWriteCompletion 0)]\<rparr>,
      sendOps = [], recvOps = []\<rparr>"

lemma cx_received_trace:
  "cx_trace [CxRecv 1 \<lparr>cub_ptr = 100, cub_stream = 70\<rparr> 5 7,
     CxDescriptorRead 0 \<lparr>cxd_startEvent = 900, cxd_srcPtr = 800, cxd_srcDeviceIdx = 0, cxd_srcStream = 60\<rparr> Success]
     cx_received"
proof -
  let ?ch0 = "\<lparr>core = log_effects [EnrollChannel] (chan_init_core ''c''), sendOps = [], recvOps = []\<rparr>"
  let ?e1 = "CxRecv 1 \<lparr>cub_ptr = 100, cub_stream = 70\<rparr> 5 7"
  let ?e2 = "CxDescriptorRead 0 \<lparr>cxd_startEvent = 900, cxd_srcPtr = 800, cxd_srcDeviceIdx = 0, cxd_srcStream = 60\<rparr> Success"
  have "cx_trace [] ?ch0"
    by (rule cx_created [of False "''c''"]) (simp add: chan_initFromLoop_def cx_initImplFromLoop_def cx_init_def)
  moreover have "cx_enabled ?e1 ?ch0" by simp
  moreover have "cx_step ?e1 ?ch0 = Inr (
      \<lparr>core = \<lparr>chan_id = ''c'', chan_error = Success, nextTensorBeingSent = 0, nextTensorBeingReceived = 1,
         chan_log = [EnrollChannel, Lower (CxReadDescriptor 0)]\<rparr>,
       sendOps = [],
       recvOps = [\<lparr>sequenceNumber = 0, state = CxRecv_READING_DESCRIPTOR, op_ptr = 100, op_length = 5,
         op_callback = Some 7, cxr_doneReadingDescriptor = False, cxr_deviceIdx = 1, cxr_stream = 70,
         cxr_source = None\<rparr>]\<rparr>)" (is "_ = Inr ?ch1") by code_simp
  ultimately have "cx_trace ([] @ [?e1]) ?ch1" by (rule cx_stepped)
  then have "cx_trace (([] @ [?e1]) @ [?e2]) cx_received" by (rule cx_stepped) code_simp+
  then show ?thesis by simp
qed


end
