(* ===== verification/Allocator.thy ===== *)
theory Allocator
  imports TP_Prelude
begin

text \<open>
  The allocator of staging buffers (\<^verbatim>\<open>tensorpipe/common/allocator.cc\<close>): it divides one area into chunks of
  equal size, hands them out to requests in order, lets requests wait while all chunks are in use, and
  serves them when a chunk is released. A chunk is a shared pointer whose deleter calls
  \<^verbatim>\<open>releaseChunk\<close>. The callbacks of its users only schedule a task of a loop, so none of them calls
  back into the allocator; the log has their calls, by the number the user gave.
\<close>

section \<open>State and operations\<close>

definition AllocatorClosedError :: tp_error where
  "AllocatorClosedError = OtherError ''allocator closed''"

record allocator =
  al_numChunks :: nat
  al_chunkSize :: "64 word"
  al_data :: "64 word"
  al_chunkAvailable :: "bool list"
  al_allocatedChunks :: "64 word"
  al_pendingAllocations :: "nat list"
  al_closed :: bool
  al_log :: "(nat \<times> tp_error \<times> 64 word option) list"

definition allocator_new :: "64 word \<Rightarrow> nat \<Rightarrow> 64 word \<Rightarrow> allocator" where
  "allocator_new data n sz =
     \<lparr>al_numChunks = n, al_chunkSize = sz, al_data = data, al_chunkAvailable = replicate n True,
      al_allocatedChunks = 0, al_pendingAllocations = [], al_closed = False, al_log = []\<rparr>"

text \<open>The loop of \<^verbatim>\<open>getAvailableChunk\<close>, from chunk \<open>cur\<close> on.\<close>

function find_available :: "nat \<Rightarrow> nat \<Rightarrow> bool list \<Rightarrow> nat option" where
  "find_available cur n avail =
     (if cur < n then if avail ! cur then Some cur else find_available (Suc cur) n avail else None)"
  by pat_completeness auto
termination by (relation "measure (\<lambda>(cur, n, avail). n - cur)") auto

declare find_available.simps [simp del]

definition chunk_at :: "allocator \<Rightarrow> nat \<Rightarrow> 64 word" where
  "chunk_at al i = al_data al + of_nat i * al_chunkSize al"

definition getAvailableChunk :: "allocator \<Rightarrow> 64 word option \<times> allocator" where
  "getAvailableChunk al =
     (case find_available 0 (al_numChunks al) (al_chunkAvailable al) of
        None \<Rightarrow> (None, al)
      | Some i \<Rightarrow> (Some (chunk_at al i),
          al\<lparr>al_chunkAvailable := (al_chunkAvailable al)[i := False], al_allocatedChunks := al_allocatedChunks al + 1\<rparr>))"

text \<open>The loop of \<^verbatim>\<open>processAllocations\<close> over the requests that wait.\<close>

fun serve_allocations :: "nat list \<Rightarrow> allocator \<Rightarrow> allocator" where
  "serve_allocations [] al = al\<lparr>al_pendingAllocations := []\<rparr>"
| "serve_allocations (cb # cbs) al =
     (if al_closed al
      then serve_allocations cbs (al\<lparr>al_log := al_log al @ [(cb, AllocatorClosedError, None)]\<rparr>)
      else case getAvailableChunk al of
             (None, al') \<Rightarrow> al'\<lparr>al_pendingAllocations := cb # cbs\<rparr>
           | (Some p, al') \<Rightarrow> serve_allocations cbs (al'\<lparr>al_log := al_log al' @ [(cb, Success, Some p)]\<rparr>))"

definition processAllocations :: "allocator \<Rightarrow> allocator" where
  "processAllocations al = serve_allocations (al_pendingAllocations al) al"

definition al_alloc :: "64 word \<Rightarrow> nat \<Rightarrow> allocator \<Rightarrow> allocator result" where
  "al_alloc sz callback al =
     dcheck (sz \<le> al_chunkSize al)
       (Inr (processAllocations (al\<lparr>al_pendingAllocations := al_pendingAllocations al @ [callback]\<rparr>)))"

definition getChunkLength :: "allocator \<Rightarrow> 64 word" where
  "getChunkLength al = al_chunkSize al"

definition al_close :: "allocator \<Rightarrow> allocator" where
  "al_close al = (if al_closed al then al else processAllocations (al\<lparr>al_closed := True\<rparr>))"

definition releaseChunk :: "64 word \<Rightarrow> allocator \<Rightarrow> allocator result" where
  "releaseChunk p al =
     (let chunkId = unat ((p - al_data al) div al_chunkSize al)
      in if chunkId < length (al_chunkAvailable al)
         then Inr (processAllocations (al\<lparr>al_chunkAvailable := (al_chunkAvailable al)[chunkId := True],
                al_allocatedChunks := al_allocatedChunks al - 1\<rparr>))
         else Inl OutOfRange)"

section \<open>Runs\<close>

text \<open>
  Users ask for chunks and drop those they hold, each once. \<open>held\<close> are the chunks that were handed out and
  not dropped, \<open>asked\<close> the requests so far. The area is not at the null pointer (which stands for no chunk in the
  code) and does not wrap around the address space.
\<close>

definition al_granted :: "allocator \<Rightarrow> allocator \<Rightarrow> 64 word list" where
  "al_granted al al' = List.map_filter (\<lambda>(cb, e, p). p) (drop (length (al_log al)) (al_log al'))"

inductive al_run :: "allocator \<Rightarrow> 64 word list \<Rightarrow> nat list \<Rightarrow> bool" where
  al_created: "0 < sz \<Longrightarrow> data \<noteq> 0 \<Longrightarrow> unat data + n * unat sz < 2 ^ 64 \<Longrightarrow> al_run (allocator_new data n sz) [] []"
| al_asked: "al_run al held asked \<Longrightarrow> al_alloc sz cb al = Inr al' \<Longrightarrow>
     al_run al' (held @ al_granted al al') (asked @ [cb])"
| al_released: "al_run al held asked \<Longrightarrow> p \<in> set held \<Longrightarrow> releaseChunk p al = Inr al' \<Longrightarrow>
     al_run al' (remove1 p held @ al_granted al al') asked"
| al_closing: "al_run al held asked \<Longrightarrow> al_run (al_close al) (held @ al_granted al (al_close al)) asked"

section \<open>The invariant\<close>

text \<open>\<open>is\<close> are the indices of the chunks in use.\<close>

definition al_ok :: "allocator \<Rightarrow> nat list \<Rightarrow> bool" where
  "al_ok al is \<longleftrightarrow>
     0 < al_chunkSize al \<and> unat (al_data al) + al_numChunks al * unat (al_chunkSize al) < 2 ^ 64 \<and>
     length (al_chunkAvailable al) = al_numChunks al \<and>
     distinct is \<and> set is \<subseteq> {..<al_numChunks al} \<and>
     (\<forall>i < al_numChunks al. al_chunkAvailable al ! i \<longleftrightarrow> i \<notin> set is) \<and>
     al_allocatedChunks al = of_nat (length is)"

lemma find_available_Some:
  "find_available cur n avail = Some i \<Longrightarrow> cur \<le> i \<and> i < n \<and> avail ! i"
  by (induction cur n avail rule: find_available.induct) (subst (asm) (2) find_available.simps, auto split: if_splits)

lemma find_available_None:
  "find_available cur n avail = None \<Longrightarrow> \<forall>i. cur \<le> i \<and> i < n \<longrightarrow> \<not> avail ! i"
proof (induction cur n avail rule: find_available.induct)
  case (1 cur n avail)
  have step: "cur < n \<Longrightarrow> \<not> avail ! cur \<and> (\<forall>i. Suc cur \<le> i \<and> i < n \<longrightarrow> \<not> avail ! i)"
    using 1 by (subst (asm) (2) find_available.simps) (auto split: if_splits)
  show ?case using step le_eq_less_or_eq by (metis Suc_leI dual_order.strict_trans2)
qed

lemma al_ok_bounds:
  assumes "al_ok al is" and "i < al_numChunks al"
  shows "unat (of_nat i * al_chunkSize al) = i * unat (al_chunkSize al)"
    and "unat (chunk_at al i) = unat (al_data al) + i * unat (al_chunkSize al)"
    and "unat ((chunk_at al i - al_data al) div al_chunkSize al) = i"
proof -
  have "Suc i * unat (al_chunkSize al) \<le> al_numChunks al * unat (al_chunkSize al)"
    using assms(2) by (intro mult_le_mono1) simp
  then have lt: "unat (al_data al) + i * unat (al_chunkSize al) < 2 ^ 64" and s: "0 < unat (al_chunkSize al)"
    using assms(1) by (auto simp: al_ok_def word_less_nat_alt)
  have "i * 1 \<le> i * unat (al_chunkSize al)" using s by (intro mult_le_mono2) simp
  then have "i < 2 ^ 64" using lt by linarith
  then have i: "unat (of_nat i :: 64 word) = i" by (intro unat_word_of_nat) simp
  show m: "unat (of_nat i * al_chunkSize al) = i * unat (al_chunkSize al)"
    using lt i by (subst unat_mult_lem [THEN iffD1]) simp_all
  show "unat (chunk_at al i) = unat (al_data al) + i * unat (al_chunkSize al)"
    unfolding chunk_at_def using lt m by (subst unat_add_lem [THEN iffD1]) simp_all
  show "unat ((chunk_at al i - al_data al) div al_chunkSize al) = i"
    using m s by (simp add: chunk_at_def unat_div)
qed

text \<open>Serving requests: those at the front get chunks that were free, or the error when the allocator is closed.\<close>

definition al_same :: "allocator \<Rightarrow> allocator \<Rightarrow> bool" where
  "al_same al al' \<longleftrightarrow> al_numChunks al' = al_numChunks al \<and> al_chunkSize al' = al_chunkSize al \<and>
     al_data al' = al_data al \<and> al_closed al' = al_closed al"

lemma getAvailableChunk_ok:
  assumes ok: "al_ok al is"
  shows "(case getAvailableChunk al of
      (None, al') \<Rightarrow> al' = al \<and> length is = al_numChunks al
    | (Some p, al') \<Rightarrow> \<exists>i. p = chunk_at al i \<and> al_ok al' (is @ [i]) \<and> al_same al al' \<and> al_log al' = al_log al)"
proof (cases "find_available 0 (al_numChunks al) (al_chunkAvailable al)")
  case None
  then have "set is = {..<al_numChunks al}"
    using find_available_None [OF None] ok by (auto simp: al_ok_def)
  then have "length is = al_numChunks al" using ok distinct_card by (fastforce simp: al_ok_def)
  then show ?thesis using None by (simp add: getAvailableChunk_def)
next
  case (Some i)
  let ?al' = "al\<lparr>al_chunkAvailable := (al_chunkAvailable al)[i := False], al_allocatedChunks := al_allocatedChunks al + 1\<rparr>"
  have i: "i < al_numChunks al" "al_chunkAvailable al ! i" using find_available_Some [OF Some] by auto
  have "al_ok ?al' (is @ [i])"
    using ok i by (auto simp: al_ok_def nth_list_update add.commute)
  then show ?thesis using Some by (auto simp: getAvailableChunk_def al_same_def)
qed

definition al_served ::
  "allocator \<Rightarrow> nat list \<Rightarrow> nat list \<Rightarrow> allocator \<Rightarrow> nat list \<Rightarrow> (nat \<times> tp_error \<times> 64 word option) list \<Rightarrow> bool" where
  "al_served al is cbs al' js new \<longleftrightarrow>
     al_ok al' (is @ js) \<and> al_same al al' \<and> al_log al' = al_log al @ new \<and>
     List.map_filter (\<lambda>(cb, e, p). p) new = map (chunk_at al) js \<and>
     map fst new @ al_pendingAllocations al' = cbs \<and>
     (al_pendingAllocations al' \<noteq> [] \<longrightarrow> \<not> al_closed al \<and> length (is @ js) = al_numChunks al) \<and>
     (\<forall>x \<in> set new. if al_closed al then snd x = (AllocatorClosedError, None) else \<exists>p. snd x = (Success, Some p))"

lemma al_served_Cons:
  assumes "al_served al1 (is @ js1) cbs al' js new" and "al_same al al1" and "al_log al1 = al_log al @ [x]"
    and "List.map_filter (\<lambda>(cb, e, p). p) [x] = map (chunk_at al) js1" and "fst x = cb"
    and "if al_closed al then snd x = (AllocatorClosedError, None) else \<exists>p. snd x = (Success, Some p)"
  shows "al_served al is (cb # cbs) al' (js1 @ js) (x # new)"
proof -
  have "chunk_at al1 = chunk_at al" using assms(2) by (auto simp: chunk_at_def al_same_def)
  then show ?thesis using assms
    by (auto simp: al_served_def al_same_def map_filter_simps split: option.splits)
qed

lemma serve_ok: "al_ok al is \<Longrightarrow> \<exists>js new. al_served al is cbs (serve_allocations cbs al) js new"
proof (induction cbs arbitrary: al "is")
  case Nil
  then show ?case
    by (intro exI [of _ "[]"]) (simp add: al_served_def al_ok_def al_same_def map_filter_simps)
next
  case (Cons cb cbs)
  show ?case
  proof (cases "al_closed al")
    case True
    let ?x = "(cb, AllocatorClosedError, None)"
    have "al_ok (al\<lparr>al_log := al_log al @ [?x]\<rparr>) (is @ [])" using Cons.prems by (simp add: al_ok_def)
    from Cons.IH [OF this] obtain js new
      where "al_served (al\<lparr>al_log := al_log al @ [?x]\<rparr>) (is @ []) cbs (serve_allocations (cb # cbs) al) js new"
      using True by auto
    then have "al_served al is (cb # cbs) (serve_allocations (cb # cbs) al) ([] @ js) (?x # new)"
      by (rule al_served_Cons) (use True in \<open>simp_all add: al_same_def map_filter_simps\<close>)
    then show ?thesis by blast
  next
    case False
    obtain r al' where g: "getAvailableChunk al = (r, al')" by (cases "getAvailableChunk al")
    show ?thesis
    proof (cases r)
      case None
      then have "al' = al" "length is = al_numChunks al" using getAvailableChunk_ok [OF Cons.prems] g by auto
      then have "al_served al is (cb # cbs) (serve_allocations (cb # cbs) al) [] []"
        using False g None Cons.prems by (simp add: al_served_def al_ok_def al_same_def map_filter_simps)
      then show ?thesis by blast
    next
      case (Some p)
      then obtain i where i: "p = chunk_at al i" "al_ok al' (is @ [i])" "al_same al al'" "al_log al' = al_log al"
        using getAvailableChunk_ok [OF Cons.prems] g by auto
      let ?x = "(cb, Success, Some p)"
      have "al_ok (al'\<lparr>al_log := al_log al' @ [?x]\<rparr>) (is @ [i])" using i(2) by (simp add: al_ok_def)
      from Cons.IH [OF this] obtain js new
        where "al_served (al'\<lparr>al_log := al_log al' @ [?x]\<rparr>) (is @ [i]) cbs (serve_allocations (cb # cbs) al) js new"
        using False g Some by auto
      then have "al_served al is (cb # cbs) (serve_allocations (cb # cbs) al) ([i] @ js) (?x # new)"
        by (rule al_served_Cons) (use i False in \<open>simp_all add: al_same_def map_filter_simps\<close>)
      then show ?thesis by blast
    qed
  qed
qed

definition al_inv :: "allocator \<Rightarrow> 64 word list \<Rightarrow> nat list \<Rightarrow> bool" where
  "al_inv al held asked \<longleftrightarrow>
     (\<exists>is. al_ok al is \<and> held = map (chunk_at al) is \<and> map fst (al_log al) @ al_pendingAllocations al = asked \<and>
        (al_pendingAllocations al \<noteq> [] \<longrightarrow> \<not> al_closed al \<and> length is = al_numChunks al))"

text \<open>After a change of the members that served requests do not depend on, serving gives the invariant back.\<close>

lemma process_inv:
  assumes ok: "al_ok al is" and asked: "map fst (al_log al) @ al_pendingAllocations al = asked"
    and log: "al_log al0 = al_log al"
  shows "al_inv (processAllocations al) (map (chunk_at al) is @ al_granted al0 (processAllocations al)) asked"
proof -
  obtain js new where s: "al_served al is (al_pendingAllocations al) (processAllocations al) js new"
    using serve_ok [OF ok] unfolding processAllocations_def by blast
  then have "chunk_at (processAllocations al) = chunk_at al" "al_granted al0 (processAllocations al) = map (chunk_at al) js"
    using log by (auto simp: al_served_def al_same_def chunk_at_def al_granted_def)
  then show ?thesis
    unfolding al_inv_def using s asked
    by (intro exI [of _ "is @ js"]) (auto simp: al_served_def al_same_def)
qed

lemma al_ok_release:
  assumes ok: "al_ok al is" and i: "i \<in> set is"
  shows "al_ok (al\<lparr>al_chunkAvailable := (al_chunkAvailable al)[i := True], al_allocatedChunks := al_allocatedChunks al - 1\<rparr>)
    (remove1 i is)"
proof -
  have "length is = Suc (length (remove1 i is))" using i by (simp add: length_remove1) (metis Suc_pred length_pos_if_in_set)
  then show ?thesis using assms
    by (auto simp: al_ok_def nth_list_update set_remove1_eq)
qed

lemma chunk_at_inj: "al_ok al is \<Longrightarrow> inj_on (chunk_at al) {..<al_numChunks al}"
  using al_ok_bounds(3) by (metis (no_types, lifting) inj_on_def lessThan_iff)

lemma remove1_map: "inj_on f (insert x (set xs)) \<Longrightarrow> remove1 (f x) (map f xs) = map f (remove1 x xs)"
  by (induction xs) (auto simp: inj_on_def)

lemma release_ok:
  assumes inv: "al_inv al held asked" and p: "p \<in> set held"
  shows "\<exists>al'. releaseChunk p al = Inr al' \<and> al_inv al' (remove1 p held @ al_granted al al') asked"
proof -
  obtain "is" where ok: "al_ok al is" and held: "held = map (chunk_at al) is"
    and asked: "map fst (al_log al) @ al_pendingAllocations al = asked"
    using inv by (auto simp: al_inv_def)
  obtain i where i: "i \<in> set is" "p = chunk_at al i" using p held by auto
  have n: "i < al_numChunks al" using ok i by (auto simp: al_ok_def)
  let ?al = "al\<lparr>al_chunkAvailable := (al_chunkAvailable al)[i := True], al_allocatedChunks := al_allocatedChunks al - 1\<rparr>"
  have "releaseChunk p al = Inr (processAllocations ?al)"
    using n ok al_ok_bounds(3) [OF ok n] by (simp add: releaseChunk_def i(2) al_ok_def)
  moreover have "map (chunk_at ?al) (remove1 i is) = remove1 p held"
  proof -
    have "insert i (set is) \<subseteq> {..<al_numChunks al}" using ok n by (auto simp: al_ok_def)
    from remove1_map [OF inj_on_subset [OF chunk_at_inj [OF ok] this]]
    show ?thesis by (simp add: held i(2) chunk_at_def)
  qed
  moreover have "al_inv (processAllocations ?al) (map (chunk_at ?al) (remove1 i is) @ al_granted al (processAllocations ?al)) asked"
    by (rule process_inv [OF al_ok_release [OF ok i(1)]]) (simp_all add: asked [symmetric])
  ultimately show ?thesis by metis
qed

lemma al_run_inv: "al_run al held asked \<Longrightarrow> al_inv al held asked"
proof (induction rule: al_run.induct)
  case (al_created sz data n)
  then have "al_ok (allocator_new data n sz) []" by (simp add: al_ok_def allocator_new_def)
  then show ?case by (auto simp: al_inv_def allocator_new_def)
next
  case (al_asked al held asked sz cb al')
  then obtain "is" where ok: "al_ok al is" and held: "held = map (chunk_at al) is"
    and asked: "map fst (al_log al) @ al_pendingAllocations al = asked"
    by (auto simp: al_inv_def)
  let ?al = "al\<lparr>al_pendingAllocations := al_pendingAllocations al @ [cb]\<rparr>"
  have "al_ok ?al is" using ok by (simp add: al_ok_def)
  then have "al_inv (processAllocations ?al) (map (chunk_at ?al) is @ al_granted al (processAllocations ?al)) (asked @ [cb])"
    by (rule process_inv) (simp_all add: asked [symmetric])
  moreover have "al' = processAllocations ?al" using al_asked.hyps(2) by (simp add: al_alloc_def dcheck_eq_Inr)
  moreover have "chunk_at ?al = chunk_at al" by (rule ext) (simp add: chunk_at_def)
  ultimately show ?case unfolding held by metis
next
  case (al_released al held asked p al')
  then show ?case using release_ok [OF al_released.IH al_released.hyps(2)] by simp
next
  case (al_closing al held asked)
  show ?case
  proof (cases "al_closed al")
    case True
    then show ?thesis using al_closing.IH by (simp add: al_close_def al_granted_def map_filter_simps)
  next
    case False
    obtain "is" where ok: "al_ok al is" and held: "held = map (chunk_at al) is"
      and asked: "map fst (al_log al) @ al_pendingAllocations al = asked"
      using al_closing.IH by (auto simp: al_inv_def)
    have "al_ok (al\<lparr>al_closed := True\<rparr>) is" using ok by (simp add: al_ok_def)
    then have "al_inv (processAllocations (al\<lparr>al_closed := True\<rparr>))
        (map (chunk_at (al\<lparr>al_closed := True\<rparr>)) is @ al_granted al (processAllocations (al\<lparr>al_closed := True\<rparr>))) asked"
      by (rule process_inv) (simp_all add: asked)
    moreover have "chunk_at (al\<lparr>al_closed := True\<rparr>) = chunk_at al" by (rule ext) (simp add: chunk_at_def)
    ultimately show ?thesis using False unfolding held al_close_def by metis
  qed
qed

lemma chunks_apart:
  assumes ok: "al_ok al is" and "i < al_numChunks al" "j < al_numChunks al" "i < j"
  shows "unat (chunk_at al i) + unat (al_chunkSize al) \<le> unat (chunk_at al j)"
proof -
  have "Suc i * unat (al_chunkSize al) \<le> j * unat (al_chunkSize al)" using assms(4) by (intro mult_le_mono1) simp
  then show ?thesis using al_ok_bounds(2) [OF ok] assms(2,3) by simp
qed

section \<open>Properties\<close>

text \<open>
  C36: in every run of an allocator, the chunks that are in use are distinct, lie in the area and do not
  overlap; every request is answered once, in the order of the requests; a request waits only while
  all chunks are in use, and none waits once the allocator is closed; and releasing a chunk that is in
  use succeeds.
\<close>

theorem allocator_correct:
  assumes "al_run al held asked"
  shows "distinct held \<and>
    (\<forall>p \<in> set held. unat (al_data al) \<le> unat p \<and>
      unat p + unat (al_chunkSize al) \<le> unat (al_data al) + al_numChunks al * unat (al_chunkSize al) \<and>
      (\<forall>q \<in> set held. p = q \<or> unat p + unat (al_chunkSize al) \<le> unat q \<or> unat q + unat (al_chunkSize al) \<le> unat p) \<and>
      (\<exists>al'. releaseChunk p al = Inr al')) \<and>
    map fst (al_log al) @ al_pendingAllocations al = asked \<and>
    (al_pendingAllocations al \<noteq> [] \<longrightarrow> \<not> al_closed al \<and> length held = al_numChunks al)"
proof -
  have inv: "al_inv al held asked" by (rule al_run_inv [OF assms])
  then obtain "is" where ok: "al_ok al is" and held: "held = map (chunk_at al) is"
    and rest: "map fst (al_log al) @ al_pendingAllocations al = asked"
      "al_pendingAllocations al \<noteq> [] \<longrightarrow> \<not> al_closed al \<and> length held = al_numChunks al"
    by (auto simp: al_inv_def)
  have sub: "set is \<subseteq> {..<al_numChunks al}" and d: "distinct is" using ok by (auto simp: al_ok_def)
  have "distinct held" using d inj_on_subset [OF chunk_at_inj [OF ok] sub] by (simp add: held distinct_map)
  moreover have "unat (al_data al) \<le> unat p \<and>
      unat p + unat (al_chunkSize al) \<le> unat (al_data al) + al_numChunks al * unat (al_chunkSize al) \<and>
      (\<forall>q \<in> set held. p = q \<or> unat p + unat (al_chunkSize al) \<le> unat q \<or> unat q + unat (al_chunkSize al) \<le> unat p) \<and>
      (\<exists>al'. releaseChunk p al = Inr al')" if p: "p \<in> set held" for p
  proof -
    obtain i where i: "p = chunk_at al i" "i < al_numChunks al" using p sub by (auto simp: held)
    have "Suc i * unat (al_chunkSize al) \<le> al_numChunks al * unat (al_chunkSize al)"
      using i(2) by (intro mult_le_mono1) simp
    moreover have "p = q \<or> unat p + unat (al_chunkSize al) \<le> unat q \<or> unat q + unat (al_chunkSize al) \<le> unat p"
      if q: "q \<in> set held" for q
    proof -
      obtain j where j: "q = chunk_at al j" "j < al_numChunks al" using q sub by (auto simp: held)
      then show ?thesis using chunks_apart [OF ok] i by (metis linorder_neqE_nat)
    qed
    ultimately show ?thesis using al_ok_bounds(2) [OF ok i(2)] i(1) release_ok [OF inv p] by auto
  qed
  ultimately show ?thesis using rest by blast
qed

text \<open>Two chunks of sixteen bytes; three requests, the third of which gets the chunk that the first gives back.\<close>

definition al_example :: allocator where
  "al_example =
     \<lparr>al_numChunks = 2, al_chunkSize = 16, al_data = 4096, al_chunkAvailable = [False, False],
      al_allocatedChunks = 2, al_pendingAllocations = [],
      al_closed = False,
      al_log = [(1, Success, Some 4096), (2, Success, Some 4112), (3, Success, Some 4096)]\<rparr>"

lemma al_example_run: "al_run al_example [4112, 4096] [1, 2, 3]"
proof -
  let ?l1 = "[(1, Success, Some 4096)] :: (nat \<times> tp_error \<times> 64 word option) list"
  let ?l2 = "?l1 @ [(2, Success, Some 4112)]"
  let ?al = "\<lambda>av n pend l. \<lparr>al_numChunks = 2, al_chunkSize = 16, al_data = 4096, al_chunkAvailable = av,
    al_allocatedChunks = n, al_pendingAllocations = pend, al_closed = False, al_log = l\<rparr>"
  have "al_run (allocator_new 4096 2 16) [] []" by (rule al_created) simp_all
  then have "al_run (?al [False, True] 1 [] ?l1) ([] @ al_granted (allocator_new 4096 2 16) (?al [False, True] 1 [] ?l1)) ([] @ [1])"
    by (rule al_asked [of _ _ _ 16]) code_simp
  moreover have "al_granted (allocator_new 4096 2 16) (?al [False, True] 1 [] ?l1) = [4096]" by code_simp
  ultimately have "al_run (?al [False, True] 1 [] ?l1) [4096] [1]" by simp
  then have "al_run (?al [False, False] 2 [] ?l2) ([4096] @ al_granted (?al [False, True] 1 [] ?l1) (?al [False, False] 2 [] ?l2)) ([1] @ [2])"
    by (rule al_asked [of _ _ _ 10]) code_simp
  moreover have "al_granted (?al [False, True] 1 [] ?l1) (?al [False, False] 2 [] ?l2) = [4112]" by code_simp
  ultimately have "al_run (?al [False, False] 2 [] ?l2) [4096, 4112] [1, 2]" by simp
  then have "al_run (?al [False, False] 2 [3] ?l2) ([4096, 4112] @ al_granted (?al [False, False] 2 [] ?l2) (?al [False, False] 2 [3] ?l2)) ([1, 2] @ [3])"
    by (rule al_asked [of _ _ _ 10]) code_simp
  moreover have "al_granted (?al [False, False] 2 [] ?l2) (?al [False, False] 2 [3] ?l2) = []" by code_simp
  ultimately have "al_run (?al [False, False] 2 [3] ?l2) [4096, 4112] [1, 2, 3]" by simp
  then have "al_run al_example (remove1 4096 [4096, 4112] @ al_granted (?al [False, False] 2 [3] ?l2) al_example) [1, 2, 3]"
    by (rule al_released) (simp, code_simp)
  moreover have "al_granted (?al [False, False] 2 [3] ?l2) al_example = [4096]" by code_simp
  ultimately show ?thesis by simp
qed

theorem allocator_correct_witness:
  "map fst (al_log al_example) = [1, 2, 3] \<and> (\<exists>al'. releaseChunk 4112 al_example = Inr al')"
  using allocator_correct [OF al_example_run] by (simp add: al_example_def)

end
