(* ===== verification/Cuda_Loop.thy ===== *)
theory Cuda_Loop
  imports TP_Prelude
begin

text \<open>
  The loop that runs callbacks after work on a CUDA stream (\<^verbatim>\<open>tensorpipe/common/cuda_loop.cc\<close>): the runtime
  must not be called from within its own callbacks, so these only queue an operation, and a thread
  calls the functions. Three kinds of threads meet at the mutex: users who add callbacks or close the loop, the
  CUDA runtime, and the thread of the loop. Every stretch of code under the mutex is one step, and so
  is every call of a callback by the thread; steps of the three come in any order.
\<close>

section \<open>State\<close>

text \<open>
  Where the thread is: before taking the lock, asleep in \<^verbatim>\<open>cv_.wait\<close>, woken from it, calling
  callbacks (those it still has to call), or past the end of its function.
\<close>

datatype cl_thread =
    AtLock
  | Asleep
  | Woken
  | Calling "(nat \<times> tp_error) list"
  | Ended

text \<open>
  \<open>cl_streams\<close> are the callbacks that were given to \<^verbatim>\<open>cudaStreamAddCallback\<close> and that the runtime has not
  run yet; the log has the calls of user callbacks, which are numbered by the user.
\<close>

record cuda_loop =
  cl_operations :: "(nat \<times> tp_error) list"
  cl_pendingOperations :: nat
  cl_closed :: bool
  cl_joined :: bool
  cl_thread :: cl_thread
  cl_streams :: "nat list"
  cl_log :: "(nat \<times> tp_error) list"

definition CudaLoopClosedError :: tp_error where
  "CudaLoopClosedError = OtherError ''CUDA loop already closed''"

definition cl_new :: cuda_loop where
  "cl_new = \<lparr>cl_operations = [], cl_pendingOperations = 0, cl_closed = False, cl_joined = False, cl_thread = AtLock,
     cl_streams = [], cl_log = []\<rparr>"

section \<open>Steps\<close>

definition cl_notify_all :: "cuda_loop \<Rightarrow> cuda_loop" where
  "cl_notify_all l = (if cl_thread l = Asleep then l\<lparr>cl_thread := Woken\<rparr> else l)"

definition cl_addCallback :: "nat \<Rightarrow> cuda_loop \<Rightarrow> cuda_loop" where
  "cl_addCallback cb l =
     (if cl_closed l then l\<lparr>cl_log := cl_log l @ [(cb, CudaLoopClosedError)]\<rparr>
      else l\<lparr>cl_pendingOperations := cl_pendingOperations l + 1, cl_streams := cl_streams l @ [cb]\<rparr>)"

definition cl_runCudaCallback :: "nat \<Rightarrow> tp_error \<Rightarrow> cuda_loop \<Rightarrow> cuda_loop" where
  "cl_runCudaCallback cb e l =
     cl_notify_all (l\<lparr>cl_streams := remove1 cb (cl_streams l), cl_operations := cl_operations l @ [(cb, e)]\<rparr>)"

definition cl_close :: "cuda_loop \<Rightarrow> cuda_loop" where
  "cl_close l = (if cl_closed l then l else cl_notify_all (l\<lparr>cl_closed := True\<rparr>))"

text \<open>\<^verbatim>\<open>join\<close> closes the loop and, the first time, waits for the thread; it returns when the thread has ended.\<close>

definition cl_join :: "cuda_loop \<Rightarrow> cuda_loop" where
  "cl_join l = (cl_close l)\<lparr>cl_joined := True\<rparr>"

definition cl_join_returns :: "cuda_loop \<Rightarrow> bool" where
  "cl_join_returns l \<longleftrightarrow> cl_thread l = Ended"

text \<open>
  \<^verbatim>\<open>processCallbacks\<close>: taking the lock, the thread ends, falls asleep or takes the operations; woken, it takes
  the operations, of which there may be none; then it calls their callbacks without the lock.
\<close>

definition cl_take :: "cuda_loop \<Rightarrow> cuda_loop" where
  "cl_take l =
     l\<lparr>cl_operations := [], cl_pendingOperations := cl_pendingOperations l - length (cl_operations l),
       cl_thread := Calling (cl_operations l)\<rparr>"

definition cl_processCallbacks :: "cuda_loop \<Rightarrow> cuda_loop" where
  "cl_processCallbacks l =
     (case cl_thread l of
        AtLock \<Rightarrow>
          if cl_operations l = [] then
            if cl_closed l \<and> cl_pendingOperations l = 0 then l\<lparr>cl_thread := Ended\<rparr>
            else l\<lparr>cl_thread := Asleep\<rparr>
          else cl_take l
      | Asleep \<Rightarrow> l
      | Woken \<Rightarrow> cl_take l
      | Calling [] \<Rightarrow> l\<lparr>cl_thread := AtLock\<rparr>
      | Calling (op # ops) \<Rightarrow> l\<lparr>cl_log := cl_log l @ [op], cl_thread := Calling ops\<rparr>
      | Ended \<Rightarrow> l)"

text \<open>
  All interleavings; \<open>given\<close> are the callbacks that users have added. The runtime runs each callback once. A
  condition variable may wake the thread without a notification.
\<close>

inductive cl_run :: "cuda_loop \<Rightarrow> nat multiset \<Rightarrow> bool" where
  cl_started: "cl_run cl_new {#}"
| cl_added: "cl_run l given \<Longrightarrow> cl_run (cl_addCallback cb l) (add_mset cb given)"
| cl_cuda_ran: "cl_run l given \<Longrightarrow> cb \<in> set (cl_streams l) \<Longrightarrow> cl_run (cl_runCudaCallback cb e l) given"
| cl_closes: "cl_run l given \<Longrightarrow> cl_run (cl_close l) given"
| cl_joins: "cl_run l given \<Longrightarrow> cl_run (cl_join l) given"
| cl_thread_steps: "cl_run l given \<Longrightarrow> cl_run (cl_processCallbacks l) given"
| cl_spurious: "cl_run l given \<Longrightarrow> cl_run (cl_notify_all l) given"

section \<open>The invariant\<close>

fun cl_calling :: "cl_thread \<Rightarrow> (nat \<times> tp_error) list" where
  "cl_calling (Calling ops) = ops"
| "cl_calling _ = []"

definition cl_account :: "cuda_loop \<Rightarrow> nat multiset" where
  "cl_account l = mset (map fst (cl_log l)) + mset (map fst (cl_calling (cl_thread l))) +
     mset (map fst (cl_operations l)) + mset (cl_streams l)"

definition cl_inv :: "cuda_loop \<Rightarrow> nat multiset \<Rightarrow> bool" where
  "cl_inv l given \<longleftrightarrow>
     cl_account l = given \<and>
     cl_pendingOperations l = length (cl_streams l) + length (cl_operations l) \<and>
     (cl_thread l = Asleep \<longrightarrow> cl_operations l = [] \<and> \<not> (cl_closed l \<and> cl_pendingOperations l = 0)) \<and>
     (cl_thread l = Ended \<longrightarrow> cl_closed l \<and> cl_pendingOperations l = 0)"

lemmas cl_step_defs =
  cl_addCallback_def cl_runCudaCallback_def cl_close_def cl_notify_all_def cl_processCallbacks_def cl_take_def

lemma cl_thread_steps_inv: "cl_inv l given \<Longrightarrow> cl_inv (cl_processCallbacks l) given"
  by (auto simp: cl_inv_def cl_account_def cl_step_defs split: cl_thread.splits list.splits)

lemma cl_run_inv: "cl_run l given \<Longrightarrow> cl_inv l given"
proof (induction rule: cl_run.induct)
  case cl_started
  show ?case by (simp add: cl_inv_def cl_account_def cl_new_def)
next
  case (cl_added l given cb)
  then show ?case by (auto simp: cl_inv_def cl_account_def cl_step_defs)
next
  case (cl_cuda_ran l given cb e)
  then have "cl_streams l \<noteq> []" by auto
  then show ?case using cl_cuda_ran
    by (auto simp: cl_inv_def cl_account_def cl_step_defs length_remove1 Suc_diff_Suc)
next
  case (cl_closes l given)
  then show ?case by (auto simp: cl_inv_def cl_account_def cl_step_defs)
next
  case (cl_joins l given)
  then show ?case by (auto simp: cl_inv_def cl_account_def cl_step_defs cl_join_def)
next
  case (cl_thread_steps l given)
  then show ?case by (intro cl_thread_steps_inv)
next
  case (cl_spurious l given)
  then show ?case by (auto simp: cl_inv_def cl_account_def cl_step_defs)
qed

section \<open>The thread ends\<close>

text \<open>How far the thread is from its end, once the loop is closed and nothing is left on the streams.\<close>

fun cl_distance :: "cl_thread \<Rightarrow> nat \<Rightarrow> nat" where
  "cl_distance AtLock q = 3 * q + 1"
| "cl_distance Asleep q = 0"
| "cl_distance Woken q = 3 * q + 3"
| "cl_distance (Calling ops) q = length ops + 3 * q + 2"
| "cl_distance Ended q = 0"

lemma cl_closing_step:
  assumes "cl_inv l given" and "cl_closed l" and "cl_streams l = []" and "cl_thread l \<noteq> Ended"
  shows "cl_distance (cl_thread (cl_processCallbacks l)) (length (cl_operations (cl_processCallbacks l))) <
      cl_distance (cl_thread l) (length (cl_operations l))"
    and "cl_closed (cl_processCallbacks l)" and "cl_streams (cl_processCallbacks l) = []"
  using assms by (auto simp: cl_inv_def cl_step_defs neq_Nil_conv split: cl_thread.splits list.splits)

lemma cl_thread_ends:
  "cl_inv l given \<Longrightarrow> cl_closed l \<Longrightarrow> cl_streams l = [] \<Longrightarrow> \<exists>n. cl_thread ((cl_processCallbacks ^^ n) l) = Ended"
proof (induction "cl_distance (cl_thread l) (length (cl_operations l))" arbitrary: l rule: less_induct)
  case less
  show ?case
  proof (cases "cl_thread l = Ended")
    case True
    then show ?thesis by (intro exI [of _ 0]) simp
  next
    case False
    note step = cl_closing_step [OF less.prems False]
    obtain n where "cl_thread ((cl_processCallbacks ^^ n) (cl_processCallbacks l)) = Ended"
      using less.hyps [OF step(1) cl_thread_steps_inv [OF less.prems(1)] step(2,3)] by blast
    then show ?thesis by (intro exI [of _ "Suc n"]) (simp add: funpow_swap1)
  qed
qed

section \<open>Properties\<close>

text \<open>
  C37: whatever the order in which users, the CUDA runtime and the thread take their steps, no callback is called
  twice, and the thread does not sleep while there is something to call or nothing left to wait for;
  when it has ended, every callback has been called; and once the loop is closed and the streams have
  run their callbacks, the thread ends by its own steps, so that a join returns.
\<close>

theorem cuda_loop_joins:
  assumes "cl_run l given"
  shows "mset (map fst (cl_log l)) \<subseteq># given \<and>
    (cl_thread l = Asleep \<longrightarrow> cl_operations l = [] \<and> (\<not> cl_closed l \<or> cl_streams l \<noteq> [])) \<and>
    (cl_thread l = Ended \<longrightarrow> mset (map fst (cl_log l)) = given) \<and>
    (cl_closed l \<and> cl_streams l = [] \<longrightarrow> (\<exists>n. cl_join_returns ((cl_processCallbacks ^^ n) l)))"
proof -
  have inv: "cl_inv l given" by (rule cl_run_inv [OF assms])
  then have "cl_account l = given" by (simp add: cl_inv_def)
  then have "mset (map fst (cl_log l)) \<subseteq># given"
    unfolding cl_account_def by (metis mset_subset_eq_add_left add.assoc)
  moreover have "mset (map fst (cl_log l)) = given" if "cl_thread l = Ended"
    using inv that by (auto simp: cl_inv_def cl_account_def)
  ultimately show ?thesis using inv cl_thread_ends [OF inv] by (auto simp: cl_inv_def cl_join_returns_def)
qed

text \<open>
  A callback is added, the loop is closed, and only then the stream runs the callback; the thread, which
  had fallen asleep, calls it and ends.
\<close>

definition cl_late :: cuda_loop where
  "cl_late = cl_runCudaCallback 5 Success (cl_close (cl_processCallbacks (cl_addCallback 5 cl_new)))"

lemma cl_late_run: "cl_run cl_late {#5#}"
  unfolding cl_late_def
  by (rule cl_cuda_ran, rule cl_closes, rule cl_thread_steps, rule cl_added, rule cl_started) code_simp

theorem cuda_loop_joins_witness:
  "cl_closed cl_late \<and> (\<exists>n. cl_join_returns ((cl_processCallbacks ^^ n) cl_late))"
proof -
  have "cl_closed cl_late" "cl_streams cl_late = []" by code_simp+
  then show ?thesis using cuda_loop_joins [OF cl_late_run] by blast
qed

end
