(* ===== verification/Pipe_Types.thy ===== *)
theory Pipe_Types
  imports Channel_Boilerplate
begin

text \<open>
  The data of \<^verbatim>\<open>tensorpipe/core\<close> (messages, descriptors, allocations, the packets of the
  handshake) and the functions of \<^verbatim>\<open>core/pipe_impl.cc\<close> that have no state: descriptors and
  descriptor replies, and the selection of a transport and of channels. Unordered maps are
  association lists with distinct keys; nothing here depends on their order.
\<close>

section \<open>Devices, messages, descriptors\<close>

record device =
  device_type :: string
  device_index :: int

record buffer =
  buffer_device :: device
  buffer_ptr :: addr

record message_payload =
  mp_data :: addr
  mp_length :: bytes_len
  mp_metadata :: string

record message_tensor =
  mt_buffer :: buffer
  mt_length :: bytes_len
  mt_targetDevice :: "device option"
  mt_metadata :: string

record message =
  m_metadata :: string
  m_payloads :: "message_payload list"
  m_tensors :: "message_tensor list"

record descriptor_payload =
  dp_length :: bytes_len
  dp_metadata :: string

record descriptor_tensor =
  dt_length :: bytes_len
  dt_sourceDevice :: device
  dt_targetDevice :: "device option"
  dt_metadata :: string

record descriptor =
  d_metadata :: string
  d_payloads :: "descriptor_payload list"
  d_tensors :: "descriptor_tensor list"

record allocation =
  a_payloads :: "addr list"
  a_tensors :: "buffer list"

type_synonym descriptor_reply = "device list"

text \<open>\<^verbatim>\<open>WriteOperation::Tensor\<close>.\<close>

record write_tensor =
  wt_sourceDevice :: device
  wt_targetDevice :: "device option"

section \<open>Descriptors and replies\<close>

text \<open>The loop of \<^verbatim>\<open>parseDescriptorReplyOfMessage\<close>, over the tensors that are left.\<close>

fun parse_reply_loop ::
  "message_tensor list \<Rightarrow> write_tensor list \<Rightarrow> descriptor_reply \<Rightarrow> nat \<Rightarrow> (write_tensor list \<times> nat) result" where
  "parse_reply_loop [] ts reply targetDeviceIdx = Inr ([], targetDeviceIdx)"
| "parse_reply_loop (m # ms) [] reply targetDeviceIdx = Inl OutOfRange"
| "parse_reply_loop (m # ms) (t # ts) reply targetDeviceIdx =
     (if mt_targetDevice m = None then
        (if targetDeviceIdx < length reply
         then bindR (parse_reply_loop ms ts reply (targetDeviceIdx + 1)) (\<lambda>(ts', k).
                Inr (t\<lparr>wt_targetDevice := Some (reply ! targetDeviceIdx)\<rparr> # ts', k))
         else Inl OutOfRange)
      else bindR (parse_reply_loop ms ts reply targetDeviceIdx) (\<lambda>(ts', k). Inr (t # ts', k)))"

definition parseDescriptorReplyOfMessage ::
  "message \<Rightarrow> write_tensor list \<Rightarrow> descriptor_reply \<Rightarrow> write_tensor list result" where
  "parseDescriptorReplyOfMessage msg tensors reply =
     bindR (parse_reply_loop (m_tensors msg) tensors reply 0) (\<lambda>(ts, targetDeviceIdx).
       dcheck (targetDeviceIdx = length reply) (Inr ts))"

fun check_devices :: "buffer list \<Rightarrow> descriptor_tensor list \<Rightarrow> unit result" where
  "check_devices (b # bs) (d # ds) =
     (case dt_targetDevice d of
        Some dev \<Rightarrow> throw_assert_if (buffer_device b \<noteq> dev) (check_devices bs ds)
      | None \<Rightarrow> check_devices bs ds)"
| "check_devices _ _ = Inr ()"

definition checkAllocationCompatibility :: "descriptor \<Rightarrow> allocation \<Rightarrow> unit result" where
  "checkAllocationCompatibility d a =
     throw_assert_if (length (a_payloads a) \<noteq> length (d_payloads d))
       (throw_assert_if (length (a_tensors a) \<noteq> length (d_tensors d))
         (check_devices (a_tensors a) (d_tensors d)))"

definition descriptor_of_tensor :: "message_tensor \<Rightarrow> descriptor_tensor" where
  "descriptor_of_tensor t = \<lparr>dt_length = mt_length t, dt_sourceDevice = buffer_device (mt_buffer t),
     dt_targetDevice = mt_targetDevice t, dt_metadata = mt_metadata t\<rparr>"

definition makeDescriptorForMessage :: "message \<Rightarrow> write_tensor list \<Rightarrow> descriptor result" where
  "makeDescriptorForMessage msg tensors =
     dcheck (length (m_tensors msg) = length tensors)
       (Inr \<lparr>d_metadata = m_metadata msg,
          d_payloads = map (\<lambda>p. \<lparr>dp_length = mp_length p, dp_metadata = mp_metadata p\<rparr>) (m_payloads msg),
          d_tensors = map descriptor_of_tensor (m_tensors msg)\<rparr>)"

fun reply_devices :: "descriptor_tensor list \<Rightarrow> buffer list \<Rightarrow> device list result" where
  "reply_devices [] bs = Inr []"
| "reply_devices (d # ds) (b # bs) =
     bindR (reply_devices ds bs) (\<lambda>devs.
       Inr (if dt_targetDevice d = None then buffer_device b # devs else devs))"
| "reply_devices (d # ds) [] =
     (if dt_targetDevice d = None then Inl OutOfRange else reply_devices ds [])"

definition makeDescriptorReplyForMessage :: "descriptor \<Rightarrow> allocation \<Rightarrow> descriptor_reply result" where
  "makeDescriptorReplyForMessage d a = reply_devices (d_tensors d) (a_tensors a)"

text \<open>The tensors that \<^verbatim>\<open>writeFromLoop\<close> prepares for a message.\<close>

definition tensor_being_sent :: "message_tensor \<Rightarrow> write_tensor" where
  "tensor_being_sent t = \<lparr>wt_sourceDevice = buffer_device (mt_buffer t), wt_targetDevice = mt_targetDevice t\<rparr>"

definition tensorsBeingSent :: "message \<Rightarrow> write_tensor list" where
  "tensorsBeingSent msg = map tensor_being_sent (m_tensors msg)"

definition missingTargetDevices :: "message \<Rightarrow> bool" where
  "missingTargetDevices msg = list_ex (\<lambda>t. mt_targetDevice t = None) (m_tensors msg)"

definition descriptorMissesTargetDevices :: "descriptor \<Rightarrow> bool" where
  "descriptorMissesTargetDevices d = list_ex (\<lambda>t. dt_targetDevice t = None) (d_tensors d)"

text \<open>A tensor of a message that the receiver has allocated in a buffer.\<close>

definition tensor_on :: "message_tensor \<Rightarrow> buffer \<Rightarrow> write_tensor" where
  "tensor_on t b = \<lparr>wt_sourceDevice = buffer_device (mt_buffer t), wt_targetDevice = Some (buffer_device b)\<rparr>"

lemma descriptor_of_tensor_simps [simp]:
  "dt_targetDevice (descriptor_of_tensor t) = mt_targetDevice t"
  "dt_sourceDevice (descriptor_of_tensor t) = buffer_device (mt_buffer t)"
  by (simp_all add: descriptor_of_tensor_def)

lemma tensor_being_sent_on:
  "(tensor_being_sent t)\<lparr>wt_targetDevice := Some (buffer_device b)\<rparr> = tensor_on t b"
  "mt_targetDevice t = Some (buffer_device b) \<Longrightarrow> tensor_being_sent t = tensor_on t b"
  by (simp_all add: tensor_being_sent_def tensor_on_def)

lemma parse_reply_loop_ok:
  assumes "length ms = length bs"
    and "check_devices bs (map descriptor_of_tensor ms) = Inr ()"
  shows "\<exists>devs. reply_devices (map descriptor_of_tensor ms) bs = Inr devs \<and>
    (\<forall>pre. parse_reply_loop ms (map tensor_being_sent ms) (pre @ devs) (length pre) =
      Inr (map2 tensor_on ms bs,
           length (pre @ devs)))"
  using assms
proof (induction ms bs rule: list_induct2)
  case (Cons m ms b bs)
  then obtain devs where devs: "reply_devices (map descriptor_of_tensor ms) bs = Inr devs"
    and parse: "\<And>pre. parse_reply_loop ms (map tensor_being_sent ms) (pre @ devs) (length pre) =
      Inr (map2 tensor_on ms bs,
           length (pre @ devs))"
    by (auto simp: throw_assert_if_eq_Inr split: option.splits)
  show ?case
  proof (cases "mt_targetDevice m")
    case None
    then show ?thesis using devs parse [of "pre @ [buffer_device b]" for pre] by (auto simp: nth_append tensor_being_sent_on)
  next
    case (Some dev)
    then show ?thesis using devs parse Cons.prems
      by (auto simp: throw_assert_if_eq_Inr tensor_being_sent_on)
  qed
qed simp

text \<open>
  C9: the round trip of the target devices. If the receiver's allocation is compatible with the
  descriptor that the sender made of a message, the reply that the receiver makes is accepted
  by the sender, which then knows for every tensor the device it was allocated on.
\<close>

theorem descriptor_reply_roundtrip:
  assumes "makeDescriptorForMessage msg (tensorsBeingSent msg) = Inr d"
    and "checkAllocationCompatibility d a = Inr ()"
  shows "\<exists>reply. makeDescriptorReplyForMessage d a = Inr reply \<and>
    parseDescriptorReplyOfMessage msg (tensorsBeingSent msg) reply =
      Inr (map2 tensor_on
        (m_tensors msg) (a_tensors a)) \<and>
    length (a_tensors a) = length (m_tensors msg)"
proof -
  have d: "d_tensors d = map descriptor_of_tensor (m_tensors msg)"
    using assms(1) by (auto simp: makeDescriptorForMessage_def dcheck_eq_Inr)
  have len: "length (m_tensors msg) = length (a_tensors a)"
    and chk: "check_devices (a_tensors a) (d_tensors d) = Inr ()"
    using assms(2) d by (auto simp: checkAllocationCompatibility_def throw_assert_if_eq_Inr)
  from parse_reply_loop_ok [OF len] chk obtain devs where
    "reply_devices (d_tensors d) (a_tensors a) = Inr devs"
    "parse_reply_loop (m_tensors msg) (tensorsBeingSent msg) devs 0 =
      Inr (map2 tensor_on
        (m_tensors msg) (a_tensors a), length devs)"
    unfolding d tensorsBeingSent_def by (metis append_Nil list.size(3))
  then show ?thesis
    using len by (simp add: makeDescriptorReplyForMessage_def parseDescriptorReplyOfMessage_def)
qed

definition cpu :: device where
  "cpu = \<lparr>device_type = ''cpu'', device_index = 0\<rparr>"

definition gpu :: device where
  "gpu = \<lparr>device_type = ''cuda'', device_index = 1\<rparr>"

definition sample_message :: message where
  "sample_message = \<lparr>m_metadata = ''m'', m_payloads = [\<lparr>mp_data = 16, mp_length = 4, mp_metadata = ''p''\<rparr>],
     m_tensors = [\<lparr>mt_buffer = \<lparr>buffer_device = cpu, buffer_ptr = 32\<rparr>, mt_length = 8,
       mt_targetDevice = None, mt_metadata = ''t''\<rparr>]\<rparr>"

definition sample_descriptor :: descriptor where
  "sample_descriptor = \<lparr>d_metadata = ''m'', d_payloads = [\<lparr>dp_length = 4, dp_metadata = ''p''\<rparr>],
     d_tensors = [\<lparr>dt_length = 8, dt_sourceDevice = cpu, dt_targetDevice = None, dt_metadata = ''t''\<rparr>]\<rparr>"

definition sample_allocation :: allocation where
  "sample_allocation = \<lparr>a_payloads = [64], a_tensors = [\<lparr>buffer_device = gpu, buffer_ptr = 96\<rparr>]\<rparr>"

theorem descriptor_reply_roundtrip_witness:
  "\<exists>reply. makeDescriptorReplyForMessage sample_descriptor sample_allocation = Inr reply \<and>
    parseDescriptorReplyOfMessage sample_message (tensorsBeingSent sample_message) reply =
      Inr [\<lparr>wt_sourceDevice = cpu, wt_targetDevice = Some gpu\<rparr>]"
proof -
  have "makeDescriptorForMessage sample_message (tensorsBeingSent sample_message) = Inr sample_descriptor"
    and "checkAllocationCompatibility sample_descriptor sample_allocation = Inr ()"
    by code_simp+
  from descriptor_reply_roundtrip [OF this] show ?thesis
    by (simp add: sample_message_def sample_allocation_def tensor_on_def)
qed

end
