(* ===== verification/Pipe_Selection.thy ===== *)
theory Pipe_Selection
  imports Pipe_Types
begin

text \<open>
  The functions \<^verbatim>\<open>selectTransport\<close> and \<^verbatim>\<open>selectChannels\<close> of \<^verbatim>\<open>core/pipe_impl.cc\<close>, by which the
  two ends of a pipe agree on what to use, and the consistency check of the connecting side.
  Transport and channel contexts are given by what these functions ask of them; the ordered
  maps of the context are lists in order of priority.
\<close>

record transport_ctx =
  tc_name :: string
  tc_domainDescriptor :: string
  tc_canCommunicateWithRemote :: "string \<Rightarrow> bool"

record channel_ctx =
  cc_name :: string
  cc_deviceDescriptors :: "(device \<times> string) list"
  cc_canCommunicateWithRemote :: "string \<Rightarrow> string \<Rightarrow> bool"
  cc_numConnectionsNeeded :: nat

section \<open>Transports\<close>

record selected_transport =
  st_name :: string
  st_address :: string
  st_domainDescriptor :: string

fun selectTransport ::
  "transport_ctx list \<Rightarrow> (string \<times> string) list \<Rightarrow> (string \<times> string) list \<Rightarrow> selected_transport result" where
  "selectTransport [] remoteDomainDescriptors addresses = Inl AssertFailed"
| "selectTransport (t # ts) remoteDomainDescriptors addresses =
     (case map_of addresses (tc_name t) of
        None \<Rightarrow> selectTransport ts remoteDomainDescriptors addresses
      | Some address \<Rightarrow>
          (case map_of remoteDomainDescriptors (tc_name t) of
             None \<Rightarrow> selectTransport ts remoteDomainDescriptors addresses
           | Some remoteDomainDescriptor \<Rightarrow>
               if \<not> tc_canCommunicateWithRemote t remoteDomainDescriptor
               then selectTransport ts remoteDomainDescriptors addresses
               else Inr \<lparr>st_name = tc_name t, st_address = address, st_domainDescriptor = tc_domainDescriptor t\<rparr>))"

definition transport_viable ::
  "(string \<times> string) list \<Rightarrow> (string \<times> string) list \<Rightarrow> transport_ctx \<Rightarrow> bool" where
  "transport_viable remote addresses t \<longleftrightarrow> map_of addresses (tc_name t) \<noteq> None \<and>
     (\<exists>d. map_of remote (tc_name t) = Some d \<and> tc_canCommunicateWithRemote t d)"

text \<open>
  \<^verbatim>\<open>selectTransport\<close> returns the transport of highest priority that the listener has an
  address for and that can reach the remote end, with that address; it throws exactly when
  there is none.
\<close>

theorem selectTransport_first_viable:
  "selectTransport ts remote addresses =
     (case List.find (transport_viable remote addresses) ts of
        None \<Rightarrow> Inl AssertFailed
      | Some t \<Rightarrow> Inr \<lparr>st_name = tc_name t, st_address = the (map_of addresses (tc_name t)),
          st_domainDescriptor = tc_domainDescriptor t\<rparr>)"
  by (induction ts) (auto simp: transport_viable_def split: option.splits)

section \<open>Channels\<close>

type_synonym pair_map = "((device \<times> device) \<times> string) list"

record selected_channels =
  descriptorsMap :: "(string \<times> (device \<times> string) list) list"
  channelForDevicePair :: pair_map

fun select_remotes ::
  "channel_ctx \<Rightarrow> device \<Rightarrow> string \<Rightarrow> (device \<times> string) list \<Rightarrow> bool \<times> pair_map \<Rightarrow> bool \<times> pair_map" where
  "select_remotes c localDevice localDesc [] acc = acc"
| "select_remotes c localDevice localDesc ((remoteDevice, remoteDesc) # rs) (selected, pairs) =
     (if \<not> cc_canCommunicateWithRemote c localDesc remoteDesc
      then select_remotes c localDevice localDesc rs (selected, pairs)
      else if map_of pairs (localDevice, remoteDevice) \<noteq> None
      then select_remotes c localDevice localDesc rs (selected, pairs)
      else select_remotes c localDevice localDesc rs
             (True, pairs @ [((localDevice, remoteDevice), cc_name c)]))"

fun select_locals ::
  "channel_ctx \<Rightarrow> (device \<times> string) list \<Rightarrow> (device \<times> string) list \<Rightarrow> bool \<times> pair_map \<Rightarrow> bool \<times> pair_map" where
  "select_locals c [] rs acc = acc"
| "select_locals c ((localDevice, localDesc) # ls) rs acc =
     select_locals c ls rs (select_remotes c localDevice localDesc rs acc)"

fun select_channels_loop ::
  "channel_ctx list \<Rightarrow> (string \<times> (device \<times> string) list) list \<Rightarrow> selected_channels \<Rightarrow> selected_channels" where
  "select_channels_loop [] remote r = r"
| "select_channels_loop (c # cs) remote r =
     (case map_of remote (cc_name c) of
        None \<Rightarrow> select_channels_loop cs remote r
      | Some rs \<Rightarrow>
          let (selected, pairs) = select_locals c (cc_deviceDescriptors c) rs (False, channelForDevicePair r)
          in select_channels_loop cs remote
               (if selected
                then \<lparr>descriptorsMap = descriptorsMap r @ [(cc_name c, cc_deviceDescriptors c)], channelForDevicePair = pairs\<rparr>
                else r\<lparr>channelForDevicePair := pairs\<rparr>))"

definition selectChannels ::
  "channel_ctx list \<Rightarrow> (string \<times> (device \<times> string) list) list \<Rightarrow> selected_channels" where
  "selectChannels orderedChannels remoteDescriptorsMap =
     select_channels_loop orderedChannels remoteDescriptorsMap \<lparr>descriptorsMap = [], channelForDevicePair = []\<rparr>"

text \<open>The check of the connecting side against the map in the brochure answer.\<close>

fun check_pairs :: "pair_map \<Rightarrow> pair_map \<Rightarrow> unit result" where
  "check_pairs [] answer = Inr ()"
| "check_pairs (((localDevice, remoteDevice), channelName) # ps) answer =
     (case map_of answer (remoteDevice, localDevice) of
        None \<Rightarrow> Inl AssertFailed
      | Some name \<Rightarrow> throw_assert_if (name \<noteq> channelName) (check_pairs ps answer))"

definition check_channel_maps :: "pair_map \<Rightarrow> pair_map \<Rightarrow> unit result" where
  "check_channel_maps mine answer = throw_assert_if (length answer \<noteq> length mine) (check_pairs mine answer)"

section \<open>What is selected\<close>

text \<open>A channel is usable for a pair of devices if some descriptors of them are compatible.\<close>

definition usable :: "channel_ctx \<Rightarrow> (device \<times> string) list \<Rightarrow> device \<Rightarrow> device \<Rightarrow> bool" where
  "usable c rs a b \<longleftrightarrow>
     (\<exists>da db. (a, da) \<in> set (cc_deviceDescriptors c) \<and> (b, db) \<in> set rs \<and> cc_canCommunicateWithRemote c da db)"

definition offered :: "(string \<times> (device \<times> string) list) list \<Rightarrow> device \<Rightarrow> device \<Rightarrow> channel_ctx \<Rightarrow> bool" where
  "offered remote a b c \<longleftrightarrow> (\<exists>rs. map_of remote (cc_name c) = Some rs \<and> usable c rs a b)"

text \<open>The channel of highest priority that can serve the pair.\<close>

definition best_channel ::
  "channel_ctx list \<Rightarrow> (string \<times> (device \<times> string) list) list \<Rightarrow> device \<times> device \<Rightarrow> string option" where
  "best_channel cs remote = (\<lambda>(a, b). map_option cc_name (List.find (offered remote a b) cs))"

lemma select_remotes_map:
  "map_of (snd (select_remotes c l ld rs (sel, pairs))) (a, b) =
     (case map_of pairs (a, b) of
        Some n \<Rightarrow> Some n
      | None \<Rightarrow> if a = l \<and> (\<exists>db. (b, db) \<in> set rs \<and> cc_canCommunicateWithRemote c ld db) then Some (cc_name c) else None)"
proof (induction rs arbitrary: sel pairs)
  case (Cons r rs)
  then show ?case by (cases r) (auto split: option.splits simp: map_add_Some_iff)
qed (simp split: option.splits)

lemma select_locals_map:
  "map_of (snd (select_locals c ls rs (sel, pairs))) (a, b) =
     (case map_of pairs (a, b) of
        Some n \<Rightarrow> Some n
      | None \<Rightarrow> if \<exists>da db. (a, da) \<in> set ls \<and> (b, db) \<in> set rs \<and> cc_canCommunicateWithRemote c da db
                then Some (cc_name c) else None)"
proof (induction ls arbitrary: sel pairs)
  case (Cons l ls)
  obtain ld d where l: "l = (ld, d)" by (cases l)
  obtain sel1 pairs1 where s: "select_remotes c ld d rs (sel, pairs) = (sel1, pairs1)" by (cases "select_remotes c ld d rs (sel, pairs)")
  have "map_of pairs1 (a, b) = (case map_of pairs (a, b) of Some n \<Rightarrow> Some n
      | None \<Rightarrow> if a = ld \<and> (\<exists>db. (b, db) \<in> set rs \<and> cc_canCommunicateWithRemote c d db) then Some (cc_name c) else None)"
    using select_remotes_map [of c ld d rs sel pairs a b] s by simp
  then show ?case using Cons.IH [of sel1 pairs1] s l by (auto split: option.splits)
qed (simp split: option.splits)

lemma select_remotes_distinct:
  "distinct (map fst pairs) \<Longrightarrow> distinct (map fst (snd (select_remotes c l ld rs (sel, pairs))))"
proof (induction rs arbitrary: sel pairs)
  case (Cons r rs)
  then show ?case by (cases r) (auto simp: map_of_eq_None_iff)
qed simp

lemma select_locals_distinct:
  "distinct (map fst pairs) \<Longrightarrow> distinct (map fst (snd (select_locals c ls rs (sel, pairs))))"
proof (induction ls arbitrary: sel pairs)
  case (Cons l ls)
  then show ?case
    using select_remotes_distinct [of pairs c "fst l" "snd l" rs sel]
    by (cases l; cases "select_remotes c (fst l) (snd l) rs (sel, pairs)") simp
qed simp

lemma select_remotes_grow:
  "\<exists>new. snd (select_remotes c l ld rs (sel, pairs)) = pairs @ new \<and> (\<forall>p \<in> set new. snd p = cc_name c) \<and>
     (fst (select_remotes c l ld rs (sel, pairs)) \<longleftrightarrow> sel \<or> new \<noteq> [])"
proof (induction rs arbitrary: sel pairs)
  case (Cons r rs)
  obtain rd d where r: "r = (rd, d)" by (cases r)
  show ?case
  proof (cases "cc_canCommunicateWithRemote c ld d \<and> map_of pairs (l, rd) = None")
    case True
    obtain new where "snd (select_remotes c l ld rs (True, pairs @ [((l, rd), cc_name c)])) = (pairs @ [((l, rd), cc_name c)]) @ new"
      "\<forall>p \<in> set new. snd p = cc_name c" "fst (select_remotes c l ld rs (True, pairs @ [((l, rd), cc_name c)]))"
      using Cons.IH [of True "pairs @ [((l, rd), cc_name c)]"] by blast
    then show ?thesis using True r by (intro exI [of _ "((l, rd), cc_name c) # new"]) simp
  next
    case False
    then show ?thesis using Cons.IH [of sel pairs] r by auto
  qed
qed simp

lemma select_locals_grow:
  "\<exists>new. snd (select_locals c ls rs (sel, pairs)) = pairs @ new \<and> (\<forall>p \<in> set new. snd p = cc_name c) \<and>
     (fst (select_locals c ls rs (sel, pairs)) \<longleftrightarrow> sel \<or> new \<noteq> [])"
proof (induction ls arbitrary: sel pairs)
  case (Cons l ls)
  obtain ld d where l: "l = (ld, d)" by (cases l)
  obtain sel1 pairs1 where s: "select_remotes c ld d rs (sel, pairs) = (sel1, pairs1)" by (cases "select_remotes c ld d rs (sel, pairs)")
  obtain new1 where 1: "pairs1 = pairs @ new1" "\<forall>p \<in> set new1. snd p = cc_name c" "sel1 \<longleftrightarrow> sel \<or> new1 \<noteq> []"
    using select_remotes_grow [of c ld d rs sel pairs] s by auto
  obtain new2 where "snd (select_locals c ls rs (sel1, pairs1)) = pairs1 @ new2" "\<forall>p \<in> set new2. snd p = cc_name c"
    "fst (select_locals c ls rs (sel1, pairs1)) \<longleftrightarrow> sel1 \<or> new2 \<noteq> []"
    using Cons.IH [of sel1 pairs1] by blast
  then show ?case using 1 s l by (intro exI [of _ "new1 @ new2"]) auto
qed simp

text \<open>The loop over the channels, whatever was selected before.\<close>

lemma best_channel_simps [simp]:
  "best_channel [] remote (a, b) = None"
  "best_channel (c # cs) remote (a, b) =
     (if offered remote a b c then Some (cc_name c) else best_channel cs remote (a, b))"
  by (simp_all add: best_channel_def)

lemma select_channels_loop_map:
  "map_of (channelForDevicePair (select_channels_loop cs remote r)) (a, b) =
     (case map_of (channelForDevicePair r) (a, b) of
        Some n \<Rightarrow> Some n
      | None \<Rightarrow> best_channel cs remote (a, b))"
proof (induction cs arbitrary: r)
  case (Cons c cs)
  show ?case
  proof (cases "map_of remote (cc_name c)")
    case None
    then show ?thesis using Cons.IH by (simp add: offered_def split: option.splits)
  next
    case (Some rs)
    obtain sel pairs where s: "select_locals c (cc_deviceDescriptors c) rs (False, channelForDevicePair r) = (sel, pairs)"
      by (cases "select_locals c (cc_deviceDescriptors c) rs (False, channelForDevicePair r)")
    have "map_of pairs (a, b) = (case map_of (channelForDevicePair r) (a, b) of Some n \<Rightarrow> Some n
        | None \<Rightarrow> if usable c rs a b then Some (cc_name c) else None)"
      unfolding usable_def
      using select_locals_map [of c "cc_deviceDescriptors c" rs False "channelForDevicePair r" a b, unfolded s snd_conv] .
    then show ?thesis
      using Cons.IH Some s
      by (cases "map_of (channelForDevicePair r) (a, b)") (auto simp: offered_def)
  qed
qed (simp split: option.splits)

lemma selectChannels_map:
  "map_of (channelForDevicePair (selectChannels cs remote)) = best_channel cs remote"
  by (rule ext) (clarsimp simp: selectChannels_def select_channels_loop_map)

lemma select_channels_loop_distinct:
  "distinct (map fst (channelForDevicePair r)) \<Longrightarrow>
     distinct (map fst (channelForDevicePair (select_channels_loop cs remote r)))"
proof (induction cs arbitrary: r)
  case (Cons c cs)
  show ?case
  proof (cases "map_of remote (cc_name c)")
    case (Some rs)
    obtain sel pairs where s: "select_locals c (cc_deviceDescriptors c) rs (False, channelForDevicePair r) = (sel, pairs)"
      by (cases "select_locals c (cc_deviceDescriptors c) rs (False, channelForDevicePair r)")
    then have "distinct (map fst pairs)"
      using select_locals_distinct [OF Cons.prems, of c "cc_deviceDescriptors c" rs False] by simp
    then show ?thesis using Some s by (simp add: Cons.IH)
  qed (simp add: Cons)
qed simp

lemma selectChannels_distinct: "distinct (map fst (channelForDevicePair (selectChannels cs remote)))"
  by (simp add: selectChannels_def select_channels_loop_distinct)

text \<open>The descriptors that are kept: those of every selected channel.\<close>

lemma select_channels_loop_descriptors:
  assumes "snd ` set (channelForDevicePair r) \<subseteq> fst ` set (descriptorsMap r)"
  shows "snd ` set (channelForDevicePair (select_channels_loop cs remote r)) \<subseteq>
      fst ` set (descriptorsMap (select_channels_loop cs remote r)) \<and>
    set (descriptorsMap (select_channels_loop cs remote r)) \<subseteq>
      set (descriptorsMap r) \<union> (\<lambda>c. (cc_name c, cc_deviceDescriptors c)) ` set cs"
  using assms
proof (induction cs arbitrary: r)
  case (Cons c cs)
  show ?case
  proof (cases "map_of remote (cc_name c)")
    case None
    then show ?thesis using Cons.IH [OF Cons.prems] by auto
  next
    case (Some rs)
    obtain sel pairs where s: "select_locals c (cc_deviceDescriptors c) rs (False, channelForDevicePair r) = (sel, pairs)"
      by (cases "select_locals c (cc_deviceDescriptors c) rs (False, channelForDevicePair r)")
    obtain new where new: "pairs = channelForDevicePair r @ new" "\<forall>p \<in> set new. snd p = cc_name c" "sel \<longleftrightarrow> new \<noteq> []"
      using select_locals_grow [of c "cc_deviceDescriptors c" rs False "channelForDevicePair r"] s by auto
    let ?r = "if sel then \<lparr>descriptorsMap = descriptorsMap r @ [(cc_name c, cc_deviceDescriptors c)], channelForDevicePair = pairs\<rparr>
      else r\<lparr>channelForDevicePair := pairs\<rparr>"
    have "snd ` set (channelForDevicePair ?r) \<subseteq> fst ` set (descriptorsMap ?r)"
      using new Cons.prems by auto
    from Cons.IH [OF this] show ?thesis using Some s by (auto split: if_splits)
  qed
qed simp

lemma selectChannels_descriptors:
  "snd ` set (channelForDevicePair (selectChannels cs remote)) \<subseteq> fst ` set (descriptorsMap (selectChannels cs remote))"
  "set (descriptorsMap (selectChannels cs remote)) \<subseteq> (\<lambda>c. (cc_name c, cc_deviceDescriptors c)) ` set cs"
  using select_channels_loop_descriptors [of "\<lparr>descriptorsMap = [], channelForDevicePair = []\<rparr>" cs remote]
  by (simp_all add: selectChannels_def)

text \<open>
  C8: \<^verbatim>\<open>selectChannels\<close> gives every pair of devices the channel of highest priority that both
  ends have and that can connect the pair, and none if there is no such channel; the order in
  which it walks through the unordered maps does not matter.
\<close>

theorem selectChannels_best:
  "map_of (channelForDevicePair (selectChannels cs remote)) (a, b) =
     map_option cc_name (List.find (\<lambda>c. \<exists>rs da db. map_of remote (cc_name c) = Some rs \<and>
       (a, da) \<in> set (cc_deviceDescriptors c) \<and> (b, db) \<in> set rs \<and> cc_canCommunicateWithRemote c da db) cs)"
  unfolding selectChannels_map best_channel_def offered_def usable_def
  by (auto intro!: arg_cong [where f = "\<lambda>P. map_option cc_name (List.find P cs)"])

section \<open>The two ends agree\<close>

text \<open>The descriptors of all channels, as the brochure of the connecting side lists them.\<close>

definition channel_brochure :: "channel_ctx list \<Rightarrow> (string \<times> (device \<times> string) list) list" where
  "channel_brochure cs = map (\<lambda>c. (cc_name c, cc_deviceDescriptors c)) cs"

text \<open>
  The two contexts have the channels they share in the same order of priority, and the
  shared channels decide symmetrically.
\<close>

definition compatible_contexts :: "channel_ctx list \<Rightarrow> channel_ctx list \<Rightarrow> bool" where
  "compatible_contexts server client \<longleftrightarrow>
     distinct (map cc_name server) \<and> distinct (map cc_name client) \<and>
     filter (\<lambda>n. n \<in> set (map cc_name client)) (map cc_name server) =
     filter (\<lambda>n. n \<in> set (map cc_name server)) (map cc_name client) \<and>
     (\<forall>s \<in> set server. \<forall>c \<in> set client. cc_name s = cc_name c \<longrightarrow>
        (\<forall>x y. cc_canCommunicateWithRemote s x y = cc_canCommunicateWithRemote c y x))"

lemma find_map_filter:
  "map_option f (List.find P xs) = List.find Q (map f xs)" if "\<forall>x \<in> set xs. P x \<longleftrightarrow> Q (f x)"
  using that by (induction xs) auto

lemma find_filter: "List.find (\<lambda>x. Q x \<and> P x) xs = List.find P (filter Q xs)"
  by (induction xs) auto

lemma find_strengthen:
  "(\<And>x. List.find P xs = Some x \<Longrightarrow> Q x) \<Longrightarrow> List.find (\<lambda>x. Q x \<and> P x) xs = List.find P xs"
proof (induction xs)
  case (Cons x xs)
  then show ?case by (cases "P x") auto
qed simp

lemma map_of_channel_brochure:
  assumes "distinct (map cc_name cs)" and "c \<in> set cs"
  shows "map_of (channel_brochure cs) (cc_name c) = Some (cc_deviceDescriptors c)"
  using assms by (intro map_of_is_SomeI) (auto simp: channel_brochure_def comp_def)

lemma channel_brochure_dom: "map_of (channel_brochure cs) n \<noteq> None \<longleftrightarrow> n \<in> set (map cc_name cs)"
  by (induction cs) (auto simp: channel_brochure_def)

text \<open>A channel, by name, that both contexts have and that can connect the pair.\<close>

definition shared_usable ::
  "channel_ctx list \<Rightarrow> channel_ctx list \<Rightarrow> device \<Rightarrow> device \<Rightarrow> string \<Rightarrow> bool" where
  "shared_usable server client b a n \<longleftrightarrow>
     (\<exists>s \<in> set server. \<exists>c \<in> set client. cc_name s = n \<and> cc_name c = n \<and> usable s (cc_deviceDescriptors c) b a)"

lemma distinct_name_unique: "distinct (map cc_name cs) \<Longrightarrow> c \<in> set cs \<Longrightarrow> c' \<in> set cs \<Longrightarrow> cc_name c = cc_name c' \<Longrightarrow> c = c'"
  by (metis inj_onD distinct_map)

lemma server_best:
  assumes "compatible_contexts server client"
  shows "best_channel server (channel_brochure client) (b, a) =
    List.find (shared_usable server client b a) (filter (\<lambda>n. n \<in> set (map cc_name client)) (map cc_name server))"
proof -
  have d: "distinct (map cc_name server)" "distinct (map cc_name client)"
    using assms by (simp_all add: compatible_contexts_def)
  have "offered (channel_brochure client) b a s \<longleftrightarrow>
      cc_name s \<in> set (map cc_name client) \<and> shared_usable server client b a (cc_name s)" if s: "s \<in> set server" for s
  proof
    assume "offered (channel_brochure client) b a s"
    then obtain rs where rs: "map_of (channel_brochure client) (cc_name s) = Some rs" "usable s rs b a"
      by (auto simp: offered_def)
    then have "cc_name s \<in> set (map cc_name client)" using channel_brochure_dom by fastforce
    then obtain c where c: "c \<in> set client" "cc_name c = cc_name s" by auto
    then have "rs = cc_deviceDescriptors c" using map_of_channel_brochure [OF d(2)] rs(1) by fastforce
    then show "cc_name s \<in> set (map cc_name client) \<and> shared_usable server client b a (cc_name s)"
      using c s rs(2) \<open>cc_name s \<in> set (map cc_name client)\<close> unfolding shared_usable_def by blast
  next
    assume "cc_name s \<in> set (map cc_name client) \<and> shared_usable server client b a (cc_name s)"
    then obtain s' c where "s' \<in> set server" "c \<in> set client" "cc_name s' = cc_name s" "cc_name c = cc_name s"
      "usable s' (cc_deviceDescriptors c) b a"
      by (auto simp: shared_usable_def)
    then show "offered (channel_brochure client) b a s"
      using map_of_channel_brochure [OF d(2)] distinct_name_unique [OF d(1) _ s] by (metis offered_def)
  qed
  then have "best_channel server (channel_brochure client) (b, a) =
      List.find (\<lambda>n. n \<in> set (map cc_name client) \<and> shared_usable server client b a n) (map cc_name server)"
    unfolding best_channel_def prod.case by (intro find_map_filter) blast
  then show ?thesis by (simp only: find_filter)
qed

lemma client_best:
  assumes cc: "compatible_contexts server client"
    and dm: "set dm \<subseteq> (\<lambda>s. (cc_name s, cc_deviceDescriptors s)) ` set server"
  shows "best_channel client dm (a, b) =
    List.find (\<lambda>n. n \<in> fst ` set dm \<and> shared_usable server client b a n)
      (filter (\<lambda>n. n \<in> set (map cc_name server)) (map cc_name client))"
proof -
  have d: "distinct (map cc_name server)" "distinct (map cc_name client)"
    and sym: "\<And>s c x y. s \<in> set server \<Longrightarrow> c \<in> set client \<Longrightarrow> cc_name s = cc_name c \<Longrightarrow>
      cc_canCommunicateWithRemote s x y = cc_canCommunicateWithRemote c y x"
    using cc by (auto simp: compatible_contexts_def)
  have turn: "usable c (cc_deviceDescriptors s) a b \<longleftrightarrow> usable s (cc_deviceDescriptors c) b a"
    if "s \<in> set server" "c \<in> set client" "cc_name s = cc_name c" for s c
    using sym [OF that] by (auto simp: usable_def)
  have "offered dm a b c \<longleftrightarrow> cc_name c \<in> set (map cc_name server) \<and>
      (cc_name c \<in> fst ` set dm \<and> shared_usable server client b a (cc_name c))" if c: "c \<in> set client" for c
  proof
    assume "offered dm a b c"
    then obtain rs where rs: "(cc_name c, rs) \<in> set dm" "usable c rs a b"
      by (auto simp: offered_def dest: map_of_SomeD)
    then obtain s where "s \<in> set server" "cc_name s = cc_name c" "rs = cc_deviceDescriptors s" using dm by auto
    then show "cc_name c \<in> set (map cc_name server) \<and>
        (cc_name c \<in> fst ` set dm \<and> shared_usable server client b a (cc_name c))"
      using rs turn c unfolding shared_usable_def by (metis fst_conv image_eqI list.set_map)
  next
    assume h: "cc_name c \<in> set (map cc_name server) \<and>
        (cc_name c \<in> fst ` set dm \<and> shared_usable server client b a (cc_name c))"
    then obtain s c' where s: "s \<in> set server" "c' \<in> set client" "cc_name s = cc_name c" "cc_name c' = cc_name c"
      "usable s (cc_deviceDescriptors c') b a"
      by (auto simp: shared_usable_def)
    have c': "c' = c" using distinct_name_unique [OF d(2) s(2) c s(4)] .
    obtain rs where rs: "map_of dm (cc_name c) = Some rs" using h by (metis map_of_eq_None_iff not_None_eq)
    have "(cc_name c, rs) \<in> (\<lambda>s. (cc_name s, cc_deviceDescriptors s)) ` set server"
      using dm map_of_SomeD [OF rs] by blast
    then obtain s' where "s' \<in> set server" "cc_name s' = cc_name c" "rs = cc_deviceDescriptors s'" by auto
    then have "rs = cc_deviceDescriptors s" using distinct_name_unique [OF d(1) s(1)] s(3) by simp
    then show "offered dm a b c" using rs s turn c c' by (auto simp: offered_def)
  qed
  then have "best_channel client dm (a, b) = List.find (\<lambda>n. n \<in> set (map cc_name server) \<and>
      (n \<in> fst ` set dm \<and> shared_usable server client b a n)) (map cc_name client)"
    unfolding best_channel_def prod.case by (intro find_map_filter) blast
  then show ?thesis by (simp only: find_filter)
qed

lemma selection_mirrored:
  fixes server client
  defines "r \<equiv> selectChannels server (channel_brochure client)"
  assumes cc: "compatible_contexts server client"
  shows "map_of (channelForDevicePair (selectChannels client (descriptorsMap r))) (a, b) =
    map_of (channelForDevicePair r) (b, a)"
proof -
  let ?L = "filter (\<lambda>n. n \<in> set (map cc_name client)) (map cc_name server)"
  have L: "filter (\<lambda>n. n \<in> set (map cc_name server)) (map cc_name client) = ?L"
    using cc by (simp add: compatible_contexts_def)
  have sel: "n \<in> fst ` set (descriptorsMap r)" if "List.find (shared_usable server client b a) ?L = Some n" for n
  proof -
    have "map_of (channelForDevicePair r) (b, a) = Some n"
      using that by (simp only: r_def selectChannels_map server_best [OF cc])
    then have "n \<in> snd ` set (channelForDevicePair r)" by (metis image_eqI map_of_SomeD snd_conv)
    then show ?thesis using selectChannels_descriptors(1) unfolding r_def by blast
  qed
  have "best_channel client (descriptorsMap r) (a, b) =
      List.find (\<lambda>n. n \<in> fst ` set (descriptorsMap r) \<and> shared_usable server client b a n) ?L"
    unfolding L [symmetric] by (rule client_best [OF cc]) (use selectChannels_descriptors(2) r_def in blast)
  also have "\<dots> = List.find (shared_usable server client b a) ?L" by (rule find_strengthen) (rule sel)
  finally show ?thesis by (simp only: r_def selectChannels_map server_best [OF cc])
qed

lemma check_pairs_ok:
  "\<forall>((a, b), n) \<in> set ps. map_of answer (b, a) = Some n \<Longrightarrow> check_pairs ps answer = Inr ()"
  by (induction ps answer rule: check_pairs.induct) auto

lemma mirrored_length:
  assumes d: "distinct (map fst ps)" "distinct (map fst qs)" and m: "\<And>a b. map_of ps (a, b) = map_of qs (b, a)"
  shows "length ps = length qs"
proof -
  have "fst ` set ps = prod.swap ` fst ` set qs"
  proof -
    have "(a, b) \<in> fst ` set ps \<longleftrightarrow> (b, a) \<in> fst ` set qs" for a b
      using m [of a b] by (metis map_of_eq_None_iff)
    then show ?thesis by (force simp: image_iff)
  qed
  then have "card (fst ` set ps) = card (fst ` set qs)" by (simp add: card_image)
  then show ?thesis using distinct_card [OF d(1)] distinct_card [OF d(2)] by simp
qed

lemma selection_checked:
  assumes "compatible_contexts server client" and "r = selectChannels server (channel_brochure client)"
  shows "check_channel_maps (channelForDevicePair (selectChannels client (descriptorsMap r))) (channelForDevicePair r) = Inr ()"
proof -
  let ?q = "selectChannels client (descriptorsMap r)"
  have m: "map_of (channelForDevicePair ?q) (a, b) = map_of (channelForDevicePair r) (b, a)" for a b
    using selection_mirrored [OF assms(1)] assms(2) by simp
  have d: "distinct (map fst (channelForDevicePair ?q))" "distinct (map fst (channelForDevicePair r))"
    by (simp_all add: assms(2) selectChannels_distinct)
  have "check_pairs (channelForDevicePair ?q) (channelForDevicePair r) = Inr ()"
    by (rule check_pairs_ok) (use m map_of_is_SomeI [OF d(1)] in \<open>force\<close>)
  then show ?thesis using mirrored_length [OF d m] by (simp add: check_channel_maps_def)
qed

text \<open>
  C7: the two ends agree on the channels. When the contexts have the channels they share in the
  same order and these decide symmetrically, the map that the connecting side recomputes from
  the answer is the mirror image of the one the listening side sent, so its consistency check
  does not throw.
\<close>

theorem channel_selection_consistent:
  assumes "compatible_contexts server client"
    and "r = selectChannels server (channel_brochure client)"
    and "q = selectChannels client (descriptorsMap r)"
  shows "(\<forall>a b. map_of (channelForDevicePair q) (a, b) = map_of (channelForDevicePair r) (b, a)) \<and>
    check_channel_maps (channelForDevicePair q) (channelForDevicePair r) = Inr ()"
  using selection_mirrored [OF assms(1)] selection_checked [OF assms(1)] assms(2,3) by simp

definition sample_channels :: "channel_ctx list" where
  "sample_channels =
     [\<lparr>cc_name = ''xth'', cc_deviceDescriptors = [(cpu, ''boot1'')], cc_canCommunicateWithRemote = (=), cc_numConnectionsNeeded = 2\<rparr>,
      \<lparr>cc_name = ''basic'', cc_deviceDescriptors = [(cpu, ''any'')], cc_canCommunicateWithRemote = (=), cc_numConnectionsNeeded = 1\<rparr>]"

theorem channel_selection_consistent_witness:
  "channelForDevicePair (selectChannels sample_channels (channel_brochure sample_channels)) = [((cpu, cpu), ''xth'')] \<and>
   check_channel_maps (channelForDevicePair (selectChannels sample_channels
       (descriptorsMap (selectChannels sample_channels (channel_brochure sample_channels)))))
     (channelForDevicePair (selectChannels sample_channels (channel_brochure sample_channels))) = Inr ()"
proof -
  have "compatible_contexts sample_channels sample_channels"
    by (auto simp: compatible_contexts_def sample_channels_def)
  from channel_selection_consistent [OF this refl refl] show ?thesis
    by (auto simp: sample_channels_def selectChannels_def channel_brochure_def cpu_def)
qed

end
