(* ===== verification/Pipe_Ops.thy ===== *)
theory Pipe_Ops
  imports Pipe_Selection
begin

text \<open>
  The operations of a pipe (\<^verbatim>\<open>tensorpipe/core/pipe_impl.h\<close> and \<^verbatim>\<open>pipe_impl.cc\<close>): the read and
  write operations, the actions that start their steps, and the two transition tables. Calls
  that leave the pipe are recorded in its log; user callbacks are numbered by the caller.
\<close>

section \<open>State\<close>

datatype read_state =
    Read_UNINITIALIZED
  | READING_DESCRIPTOR
  | ASKING_FOR_ALLOCATION
  | ASKING_FOR_ALLOCATION_FIRST_IN_LINE
  | READING_PAYLOADS_AND_RECEIVING_TENSORS
  | Read_FINISHED

datatype write_state =
    Write_UNINITIALIZED
  | WRITING_PAYLOADS_AND_READING_TARGET_DEVICES
  | WRITING_PAYLOADS_AND_SENDING_TENSORS
  | Write_FINISHED

fun read_pos :: "read_state \<Rightarrow> nat" where
  "read_pos Read_UNINITIALIZED = 0"
| "read_pos READING_DESCRIPTOR = 1"
| "read_pos ASKING_FOR_ALLOCATION = 2"
| "read_pos ASKING_FOR_ALLOCATION_FIRST_IN_LINE = 3"
| "read_pos READING_PAYLOADS_AND_RECEIVING_TENSORS = 4"
| "read_pos Read_FINISHED = 5"

fun write_pos :: "write_state \<Rightarrow> nat" where
  "write_pos Write_UNINITIALIZED = 0"
| "write_pos WRITING_PAYLOADS_AND_READING_TARGET_DEVICES = 1"
| "write_pos WRITING_PAYLOADS_AND_SENDING_TENSORS = 2"
| "write_pos Write_FINISHED = 3"

lemma read_pos_inj: "read_pos a = read_pos b \<Longrightarrow> a = b"
  by (cases a; cases b) simp_all

lemma write_pos_inj: "write_pos a = write_pos b \<Longrightarrow> a = b"
  by (cases a; cases b) simp_all

instantiation read_state :: linorder
begin

definition less_eq_read_state :: "read_state \<Rightarrow> read_state \<Rightarrow> bool" where
  "less_eq_read_state a b \<longleftrightarrow> read_pos a \<le> read_pos b"

definition less_read_state :: "read_state \<Rightarrow> read_state \<Rightarrow> bool" where
  "less_read_state a b \<longleftrightarrow> read_pos a < read_pos b"

instance
  by standard (auto simp: less_eq_read_state_def less_read_state_def dest: read_pos_inj)

end

instantiation write_state :: linorder
begin

definition less_eq_write_state :: "write_state \<Rightarrow> write_state \<Rightarrow> bool" where
  "less_eq_write_state a b \<longleftrightarrow> write_pos a \<le> write_pos b"

definition less_write_state :: "write_state \<Rightarrow> write_state \<Rightarrow> bool" where
  "less_write_state a b \<longleftrightarrow> write_pos a < write_pos b"

instance
  by standard (auto simp: less_eq_write_state_def less_write_state_def dest: write_pos_inj)

end

lemmas pipe_state_order =
  less_eq_read_state_def less_read_state_def less_eq_write_state_def less_write_state_def

record read_op = "read_state operation" +
  doneReadingDescriptor :: bool
  doneGettingAllocation :: bool
  numPayloadsBeingRead :: "64 word"
  numTensorsBeingReceived :: "64 word"
  readDescriptorCallback :: "nat option"
  readCallback :: "nat option"
  r_hasMissingTargetDevices :: bool
  r_descriptor :: descriptor
  r_allocation :: allocation

record write_op = "write_state operation" +
  doneReadingDescriptorReply :: bool
  numPayloadsBeingWritten :: "64 word"
  numTensorsBeingSent :: "64 word"
  writeCallback :: "nat option"
  w_hasMissingTargetDevices :: bool
  w_message :: message
  w_tensors :: "write_tensor list"

datatype pipe_state =
    INITIALIZING
  | CLIENT_ABOUT_TO_SEND_HELLO_AND_BROCHURE
  | SERVER_WAITING_FOR_BROCHURE
  | CLIENT_WAITING_FOR_BROCHURE_ANSWER
  | SERVER_WAITING_FOR_CONNECTIONS
  | ESTABLISHED

datatype connection_id = DESCRIPTOR | DESCRIPTOR_REPLY

datatype connection_state = AWAITING_DESCRIPTOR | AWAITING_PAYLOADS

text \<open>
  A connection of the pipe: one that it opened, numbered in the order of the calls to
  \<^verbatim>\<open>connect\<close>, or one that a listener accepted.
\<close>

datatype pconn = OpenedConn nat | AcceptedConn nat

text \<open>What a connection request that is registered with the listener is for.\<close>

datatype request = ForConnection connection_id | ForChannel string nat

text \<open>The packets of the handshake (\<^verbatim>\<open>core/nop_types.h\<close>).\<close>

datatype packet = SpontaneousConnection string | RequestedConnection "64 word"

record brochure =
  transportDomainDescriptors :: "(string \<times> string) list"
  channelDeviceDescriptors :: "(string \<times> (device \<times> string) list) list"

record brochure_answer =
  ba_transport :: string
  ba_address :: string
  ba_transportRegistrationIds :: "(connection_id \<times> 64 word) list"
  ba_transportDomainDescriptor :: string
  ba_channelRegistrationIds :: "(string \<times> 64 word list) list"
  ba_channelDeviceDescriptors :: "(string \<times> (device \<times> string) list) list"
  ba_channelForDevicePair :: pair_map

datatype chan_endpoint = ConnectEndpoint | ListenEndpoint

datatype pipe_effect =
    CallReadDescriptor nat tp_error descriptor
  | CallRead nat tp_error
  | CallWrite nat tp_error
  | EnrollPipe
  | UnenrollPipe
  | OpenConnection pconn string string
  | SetConnectionId pconn string
  | WritePacket pconn packet
  | WriteBrochure pconn brochure
  | ReadBrochureAnswer pconn
  | ReadBrochure pconn
  | WriteBrochureAnswer pconn brochure_answer
  | ReadDescriptor pconn nat
  | WriteDescriptor pconn nat descriptor
  | ReadPayload pconn nat nat addr bytes_len
  | WritePayload pconn nat nat addr bytes_len
  | ReadDescriptorReply pconn nat
  | WriteDescriptorReply pconn nat descriptor_reply
  | ChannelRecv string nat nat buffer bytes_len
  | ChannelSend string nat nat buffer bytes_len
  | CloseConnection pconn
  | CloseChannel string
  | RegisterConnectionRequest "64 word" request
  | UnregisterConnectionRequest "64 word"
  | CreateChannel string "pconn list" chan_endpoint
  | SetChannelId string string

record pipe_core =
  p_state :: pipe_state
  p_id :: string
  p_remoteName :: string
  p_transport :: string
  p_opened :: nat
  p_descriptorConnection :: pconn
  p_descriptorReplyConnection :: "pconn option"
  p_channels :: "string list"
  p_channelForDevicePair :: pair_map
  p_registrationIds :: "(connection_id \<times> 64 word) list"
  p_channelRegistrationIds :: "(string \<times> 64 word list) list"
  p_channelReceivedConnections :: "(string \<times> pconn option list) list"
  nextMessageBeingRead :: nat
  nextMessageBeingWritten :: nat
  nextReadDescriptorCallbackToCall :: nat
  nextReadCallbackToCall :: nat
  nextWriteCallbackToCall :: nat
  connectionState :: connection_state
  messageBeingReadFromConnection :: nat
  nextMessageGettingAllocation :: "nat option"
  p_error :: tp_error
  p_log :: "pipe_effect list"

definition plog :: "pipe_effect list \<Rightarrow> pipe_core \<Rightarrow> pipe_core" where
  "plog es c = c\<lparr>p_log := p_log c @ es\<rparr>"

section \<open>Actions of read operations\<close>

definition callReadDescriptorCallback :: "read_op \<Rightarrow> pipe_core \<Rightarrow> (read_op \<times> pipe_core) result" where
  "callReadDescriptorCallback op c =
     (case readDescriptorCallback op of
        None \<Rightarrow> Inl BadFunctionCall
      | Some cb \<Rightarrow>
          dcheck (sequenceNumber op = nextReadDescriptorCallbackToCall c)
            (Inr (op\<lparr>readDescriptorCallback := None\<rparr>,
                  plog [CallReadDescriptor cb (p_error c) (r_descriptor op)]
                    (c\<lparr>nextReadDescriptorCallbackToCall := nextReadDescriptorCallbackToCall c + 1\<rparr>))))"

definition readDescriptorOfMessage :: "read_op \<Rightarrow> pipe_core \<Rightarrow> (read_op \<times> pipe_core) result" where
  "readDescriptorOfMessage op c =
     dcheck (connectionState c = AWAITING_DESCRIPTOR)
       (dcheck (messageBeingReadFromConnection c = sequenceNumber op)
         (Inr (op, plog [ReadDescriptor (p_descriptorConnection c) (sequenceNumber op)]
                (c\<lparr>connectionState := AWAITING_PAYLOADS\<rparr>))))"

definition expectReadCall :: "read_op \<Rightarrow> pipe_core \<Rightarrow> (read_op \<times> pipe_core) result" where
  "expectReadCall op c =
     dcheck (nextMessageGettingAllocation c = None)
       (Inr (op, c\<lparr>nextMessageGettingAllocation := Some (sequenceNumber op)\<rparr>))"

fun read_payloads ::
  "nat \<Rightarrow> addr list \<Rightarrow> descriptor_payload list \<Rightarrow> read_op \<Rightarrow> pipe_core \<Rightarrow> (read_op \<times> pipe_core) result" where
  "read_payloads payloadIdx [] ds op c = Inr (op, c)"
| "read_payloads payloadIdx (data # as) [] op c = Inl OutOfRange"
| "read_payloads payloadIdx (data # as) (d # ds) op c =
     read_payloads (payloadIdx + 1) as ds
       (op\<lparr>numPayloadsBeingRead := numPayloadsBeingRead op + 1\<rparr>)
       (plog [ReadPayload (p_descriptorConnection c) (sequenceNumber op) payloadIdx data (dp_length d)] c)"

definition readPayloadsOfMessage :: "read_op \<Rightarrow> pipe_core \<Rightarrow> (read_op \<times> pipe_core) result" where
  "readPayloadsOfMessage op c =
     dcheck (connectionState c = AWAITING_PAYLOADS)
       (dcheck (messageBeingReadFromConnection c = sequenceNumber op)
         (bindR (read_payloads 0 (a_payloads (r_allocation op)) (d_payloads (r_descriptor op)) op c) (\<lambda>(op', c').
            Inr (op', c'\<lparr>connectionState := AWAITING_DESCRIPTOR,
                         messageBeingReadFromConnection := messageBeingReadFromConnection c' + 1\<rparr>))))"

text \<open>
  The loop of \<^verbatim>\<open>receiveTensorsOfMessage\<close>; \<^verbatim>\<open>channels_.at\<close> throws for a name that is not there.
\<close>

fun receive_tensors ::
  "nat \<Rightarrow> buffer list \<Rightarrow> descriptor_tensor list \<Rightarrow> read_op \<Rightarrow> pipe_core \<Rightarrow> (read_op \<times> pipe_core) result" where
  "receive_tensors tensorIdx bs [] op c = Inr (op, c)"
| "receive_tensors tensorIdx [] (d # ds) op c = Inl OutOfRange"
| "receive_tensors tensorIdx (b # bs) (d # ds) op c =
     (case map_of (p_channelForDevicePair c) (buffer_device b, dt_sourceDevice d) of
        None \<Rightarrow> Inl AssertFailed
      | Some channelName \<Rightarrow>
          if channelName \<notin> set (p_channels c) then Inl OutOfRange
          else receive_tensors (tensorIdx + 1) bs ds
                 (op\<lparr>numTensorsBeingReceived := numTensorsBeingReceived op + 1\<rparr>)
                 (plog [ChannelRecv channelName (sequenceNumber op) tensorIdx b (dt_length d)] c))"

definition receiveTensorsOfMessage :: "read_op \<Rightarrow> pipe_core \<Rightarrow> (read_op \<times> pipe_core) result" where
  "receiveTensorsOfMessage op c =
     dcheck (length (d_tensors (r_descriptor op)) = length (a_tensors (r_allocation op)))
       (receive_tensors 0 (a_tensors (r_allocation op)) (d_tensors (r_descriptor op)) op c)"

definition writeDescriptorReplyOfMessage :: "read_op \<Rightarrow> pipe_core \<Rightarrow> (read_op \<times> pipe_core) result" where
  "writeDescriptorReplyOfMessage op c =
     dcheck (r_hasMissingTargetDevices op)
       (bindR (makeDescriptorReplyForMessage (r_descriptor op) (r_allocation op)) (\<lambda>reply.
          case p_descriptorReplyConnection c of
            None \<Rightarrow> Inl NullDereference
          | Some conn \<Rightarrow> Inr (op, plog [WriteDescriptorReply conn (sequenceNumber op) reply] c)))"

definition callReadCallback :: "read_op \<Rightarrow> pipe_core \<Rightarrow> (read_op \<times> pipe_core) result" where
  "callReadCallback op c =
     (case readCallback op of
        None \<Rightarrow> Inl BadFunctionCall
      | Some cb \<Rightarrow>
          dcheck (sequenceNumber op = nextReadCallbackToCall c)
            (Inr (op\<lparr>readCallback := None\<rparr>,
                  plog [CallRead cb (p_error c)]
                    (c\<lparr>nextReadCallbackToCall := nextReadCallbackToCall c + 1\<rparr>))))"

section \<open>Actions of write operations\<close>

definition callWriteCallback :: "write_op \<Rightarrow> pipe_core \<Rightarrow> (write_op \<times> pipe_core) result" where
  "callWriteCallback op c =
     (case writeCallback op of
        None \<Rightarrow> Inl BadFunctionCall
      | Some cb \<Rightarrow>
          dcheck (sequenceNumber op = nextWriteCallbackToCall c)
            (Inr (op\<lparr>writeCallback := None\<rparr>,
                  plog [CallWrite cb (p_error c)]
                    (c\<lparr>nextWriteCallbackToCall := nextWriteCallbackToCall c + 1\<rparr>))))"

definition writeDescriptorOfMessage :: "write_op \<Rightarrow> pipe_core \<Rightarrow> (write_op \<times> pipe_core) result" where
  "writeDescriptorOfMessage op c =
     bindR (makeDescriptorForMessage (w_message op) (w_tensors op)) (\<lambda>d.
       Inr (op, plog [WriteDescriptor (p_descriptorConnection c) (sequenceNumber op) d] c))"

fun write_payloads ::
  "nat \<Rightarrow> message_payload list \<Rightarrow> write_op \<Rightarrow> pipe_core \<Rightarrow> (write_op \<times> pipe_core) result" where
  "write_payloads payloadIdx [] op c = Inr (op, c)"
| "write_payloads payloadIdx (p # ps) op c =
     write_payloads (payloadIdx + 1) ps
       (op\<lparr>numPayloadsBeingWritten := numPayloadsBeingWritten op + 1\<rparr>)
       (plog [WritePayload (p_descriptorConnection c) (sequenceNumber op) payloadIdx (mp_data p) (mp_length p)] c)"

definition writePayloadsOfMessage :: "write_op \<Rightarrow> pipe_core \<Rightarrow> (write_op \<times> pipe_core) result" where
  "writePayloadsOfMessage op c = write_payloads 0 (m_payloads (w_message op)) op c"

definition readDescriptorReplyOfMessage :: "write_op \<Rightarrow> pipe_core \<Rightarrow> (write_op \<times> pipe_core) result" where
  "readDescriptorReplyOfMessage op c =
     dcheck (w_hasMissingTargetDevices op)
       (case p_descriptorReplyConnection c of
          None \<Rightarrow> Inl NullDereference
        | Some conn \<Rightarrow> Inr (op, plog [ReadDescriptorReply conn (sequenceNumber op)] c))"

text \<open>
  The loop of \<^verbatim>\<open>sendTensorsOfMessage\<close>; \<^verbatim>\<open>channels_[channelName]\<close> makes a null pointer for a
  name that is not there, which is then dereferenced.
\<close>

fun send_tensors ::
  "nat \<Rightarrow> message_tensor list \<Rightarrow> write_tensor list \<Rightarrow> write_op \<Rightarrow> pipe_core \<Rightarrow> (write_op \<times> pipe_core) result" where
  "send_tensors tensorIdx [] ts op c = Inr (op, c)"
| "send_tensors tensorIdx (m # ms) [] op c = Inl OutOfRange"
| "send_tensors tensorIdx (m # ms) (t # ts) op c =
     (case wt_targetDevice t of
        None \<Rightarrow> Inl DCheckFailed
      | Some remoteDevice \<Rightarrow>
          (case map_of (p_channelForDevicePair c) (wt_sourceDevice t, remoteDevice) of
             None \<Rightarrow> Inl AssertFailed
           | Some channelName \<Rightarrow>
               if channelName \<notin> set (p_channels c) then Inl NullDereference
               else send_tensors (tensorIdx + 1) ms ts
                      (op\<lparr>numTensorsBeingSent := numTensorsBeingSent op + 1\<rparr>)
                      (plog [ChannelSend channelName (sequenceNumber op) tensorIdx (mt_buffer m) (mt_length m)] c)))"

definition sendTensorsOfMessage :: "write_op \<Rightarrow> pipe_core \<Rightarrow> (write_op \<times> pipe_core) result" where
  "sendTensorsOfMessage op c =
     dcheck (length (m_tensors (w_message op)) = length (w_tensors op))
       (send_tensors 0 (m_tensors (w_message op)) (w_tensors op) op c)"

section \<open>Transitions\<close>

type_synonym read_table = "(read_state, unit read_op_ext, pipe_core) transition list"
type_synonym write_table = "(write_state, unit write_op_ext, pipe_core) transition list"

definition advanceReadOperation :: read_table where
  "advanceReadOperation =
    [Transition Read_UNINITIALIZED ASKING_FOR_ALLOCATION
       (\<lambda>op prev c. is_error (p_error c) \<and> prev \<ge> ASKING_FOR_ALLOCATION)
       [callReadDescriptorCallback],
     Transition Read_UNINITIALIZED READING_DESCRIPTOR
       (\<lambda>op prev c. \<not> is_error (p_error c) \<and> p_state c = ESTABLISHED \<and>
          prev \<ge> READING_PAYLOADS_AND_RECEIVING_TENSORS)
       [readDescriptorOfMessage],
     Transition READING_DESCRIPTOR ASKING_FOR_ALLOCATION
       (\<lambda>op prev c. doneReadingDescriptor op \<and> prev \<ge> ASKING_FOR_ALLOCATION)
       [callReadDescriptorCallback],
     Transition ASKING_FOR_ALLOCATION ASKING_FOR_ALLOCATION_FIRST_IN_LINE
       (\<lambda>op prev c. doneReadingDescriptor op \<and> prev \<ge> READING_PAYLOADS_AND_RECEIVING_TENSORS)
       [expectReadCall],
     Transition ASKING_FOR_ALLOCATION_FIRST_IN_LINE Read_FINISHED
       (\<lambda>op prev c. is_error (p_error c) \<and> doneGettingAllocation op \<and> prev \<ge> Read_FINISHED)
       [callReadCallback],
     Transition ASKING_FOR_ALLOCATION_FIRST_IN_LINE READING_PAYLOADS_AND_RECEIVING_TENSORS
       (\<lambda>op prev c. \<not> is_error (p_error c) \<and> doneGettingAllocation op \<and> \<not> r_hasMissingTargetDevices op)
       [readPayloadsOfMessage, receiveTensorsOfMessage],
     Transition ASKING_FOR_ALLOCATION_FIRST_IN_LINE READING_PAYLOADS_AND_RECEIVING_TENSORS
       (\<lambda>op prev c. \<not> is_error (p_error c) \<and> doneGettingAllocation op \<and> r_hasMissingTargetDevices op)
       [readPayloadsOfMessage, writeDescriptorReplyOfMessage, receiveTensorsOfMessage],
     Transition READING_PAYLOADS_AND_RECEIVING_TENSORS Read_FINISHED
       (\<lambda>op prev c. numPayloadsBeingRead op = 0 \<and> numTensorsBeingReceived op = 0 \<and> prev \<ge> Read_FINISHED)
       [callReadCallback]]"

definition advanceWriteOperation :: write_table where
  "advanceWriteOperation =
    [Transition Write_UNINITIALIZED Write_FINISHED
       (\<lambda>op prev c. is_error (p_error c) \<and> prev \<ge> Write_FINISHED)
       [callWriteCallback],
     Transition Write_UNINITIALIZED WRITING_PAYLOADS_AND_SENDING_TENSORS
       (\<lambda>op prev c. \<not> is_error (p_error c) \<and> p_state c = ESTABLISHED \<and> \<not> w_hasMissingTargetDevices op \<and>
          prev \<ge> WRITING_PAYLOADS_AND_SENDING_TENSORS)
       [writeDescriptorOfMessage, writePayloadsOfMessage, sendTensorsOfMessage],
     Transition Write_UNINITIALIZED WRITING_PAYLOADS_AND_READING_TARGET_DEVICES
       (\<lambda>op prev c. \<not> is_error (p_error c) \<and> p_state c = ESTABLISHED \<and> w_hasMissingTargetDevices op \<and>
          prev \<ge> WRITING_PAYLOADS_AND_READING_TARGET_DEVICES)
       [writeDescriptorOfMessage, writePayloadsOfMessage, readDescriptorReplyOfMessage],
     Transition WRITING_PAYLOADS_AND_READING_TARGET_DEVICES Write_FINISHED
       (\<lambda>op prev c. is_error (p_error c) \<and> numPayloadsBeingWritten op = 0 \<and> doneReadingDescriptorReply op \<and>
          prev \<ge> Write_FINISHED)
       [callWriteCallback],
     Transition WRITING_PAYLOADS_AND_READING_TARGET_DEVICES WRITING_PAYLOADS_AND_SENDING_TENSORS
       (\<lambda>op prev c. \<not> is_error (p_error c) \<and> doneReadingDescriptorReply op \<and>
          prev \<ge> WRITING_PAYLOADS_AND_SENDING_TENSORS)
       [sendTensorsOfMessage],
     Transition WRITING_PAYLOADS_AND_SENDING_TENSORS Write_FINISHED
       (\<lambda>op prev c. numPayloadsBeingWritten op = 0 \<and> numTensorsBeingSent op = 0 \<and> prev \<ge> Write_FINISHED)
       [callWriteCallback]]"

end
