(* ===== verification/Pipe_Inv.thy ===== *)
theory Pipe_Inv
  imports Pipe_Ops
begin

text \<open>
  The invariants of the two deques of a pipe. The read machine is tied to several counters and
  to the state of the primary connection; the invariant \<open>read_J\<close> says how, and that every
  debug check of its actions holds. \<open>write_J\<close> does the same for write operations. Both
  machines are interpreted as instances of \<open>deque_machine\<close>.
\<close>

section \<open>Callbacks of the user\<close>

datatype pipe_callback = ReadDescriptorCb nat | ReadCb nat | WriteCb nat

fun read_effect_callback :: "pipe_effect \<Rightarrow> pipe_callback list" where
  "read_effect_callback (CallReadDescriptor cb e d) = [ReadDescriptorCb cb]"
| "read_effect_callback (CallRead cb e) = [ReadCb cb]"
| "read_effect_callback _ = []"

fun write_effect_callback :: "pipe_effect \<Rightarrow> pipe_callback list" where
  "write_effect_callback (CallWrite cb e) = [WriteCb cb]"
| "write_effect_callback _ = []"

definition paid_r :: "pipe_core \<Rightarrow> pipe_callback multiset" where
  "paid_r c = mset (concat (map read_effect_callback (p_log c)))"

definition paid_w :: "pipe_core \<Rightarrow> pipe_callback multiset" where
  "paid_w c = mset (concat (map write_effect_callback (p_log c)))"

definition owes_r :: "read_op \<Rightarrow> pipe_callback multiset" where
  "owes_r op = (case readDescriptorCallback op of None \<Rightarrow> {#} | Some cb \<Rightarrow> {#ReadDescriptorCb cb#}) +
     (case readCallback op of None \<Rightarrow> {#} | Some cb \<Rightarrow> {#ReadCb cb#})"

definition owes_w :: "write_op \<Rightarrow> pipe_callback multiset" where
  "owes_w op = (case writeCallback op of None \<Rightarrow> {#} | Some cb \<Rightarrow> {#WriteCb cb#})"

text \<open>
  Calls to a connection or a channel whose callback goes through an iterator, named by the
  operation. The pipe issues them in its log; they come back one by one.
\<close>

datatype pipe_token =
    DescriptorTok nat
  | PayloadReadTok nat
  | TensorRecvTok nat
  | ReplyTok nat
  | PayloadWriteTok nat
  | TensorSendTok nat
  | BrochureTok
  | AnswerTok
  | RequestTok request

fun read_effect_token :: "pipe_effect \<Rightarrow> pipe_token list" where
  "read_effect_token (ReadDescriptor conn sn) = [DescriptorTok sn]"
| "read_effect_token (ReadPayload conn sn i data len) = [PayloadReadTok sn]"
| "read_effect_token (ChannelRecv ch sn i b len) = [TensorRecvTok sn]"
| "read_effect_token _ = []"

fun write_effect_token :: "pipe_effect \<Rightarrow> pipe_token list" where
  "write_effect_token (ReadDescriptorReply conn sn) = [ReplyTok sn]"
| "write_effect_token (WritePayload conn sn i data len) = [PayloadWriteTok sn]"
| "write_effect_token (ChannelSend ch sn i b len) = [TensorSendTok sn]"
| "write_effect_token _ = []"

fun shake_effect_token :: "pipe_effect \<Rightarrow> pipe_token list" where
  "shake_effect_token (ReadBrochure conn) = [BrochureTok]"
| "shake_effect_token (ReadBrochureAnswer conn) = [AnswerTok]"
| "shake_effect_token (RegisterConnectionRequest token req) = [RequestTok req]"
| "shake_effect_token _ = []"

definition issued_h :: "pipe_core \<Rightarrow> pipe_token multiset" where
  "issued_h c = mset (concat (map shake_effect_token (p_log c)))"

definition issued_r :: "pipe_core \<Rightarrow> pipe_token multiset" where
  "issued_r c = mset (concat (map read_effect_token (p_log c)))"

definition issued_w :: "pipe_core \<Rightarrow> pipe_token multiset" where
  "issued_w c = mset (concat (map write_effect_token (p_log c)))"

definition pend_r :: "read_op \<Rightarrow> pipe_token multiset" where
  "pend_r op = (if state op = READING_DESCRIPTOR \<and> \<not> doneReadingDescriptor op then {#DescriptorTok (sequenceNumber op)#} else {#}) +
     replicate_mset (unat (numPayloadsBeingRead op)) (PayloadReadTok (sequenceNumber op)) +
     replicate_mset (unat (numTensorsBeingReceived op)) (TensorRecvTok (sequenceNumber op))"

definition pend_w :: "write_op \<Rightarrow> pipe_token multiset" where
  "pend_w op = (if state op = WRITING_PAYLOADS_AND_READING_TARGET_DEVICES \<and> \<not> doneReadingDescriptorReply op
       then {#ReplyTok (sequenceNumber op)#} else {#}) +
     replicate_mset (unat (numPayloadsBeingWritten op)) (PayloadWriteTok (sequenceNumber op)) +
     replicate_mset (unat (numTensorsBeingSent op)) (TensorSendTok (sequenceNumber op))"

section \<open>Positions in a deque\<close>

definition numbered :: "nat \<Rightarrow> ('s, 'm) operation_scheme list \<Rightarrow> bool" where
  "numbered n ops \<longleftrightarrow> length ops \<le> n \<and> seqs_from (n - length ops) ops"

definition below :: "'s::linorder \<Rightarrow> ('s, 'm) operation_scheme list \<Rightarrow> nat" where
  "below r ops = length (filter (\<lambda>op. state op < r) ops)"

lemma below_simps [simp]:
  "below r [] = 0" "below r (op # ops) = (if state op < r then Suc (below r ops) else below r ops)"
  "below r (xs @ ys) = below r xs + below r ys"
  by (simp_all add: below_def)

lemma below_all: "\<forall>op \<in> set ops. state op < r \<Longrightarrow> below r ops = length ops"
  by (simp add: below_def)

lemma below_none: "\<forall>op \<in> set ops. r \<le> state op \<Longrightarrow> below r ops = 0"
  by (auto simp: below_def filter_empty_conv)

lemma numbered_mid: "numbered n (xs @ op # ys) \<Longrightarrow> sequenceNumber op + Suc (length ys) = n"
  by (auto simp: numbered_def seqs_from_append seqs_from_Cons)

lemma numbered_cong: "map sequenceNumber xs = map sequenceNumber ys \<Longrightarrow> numbered n xs \<longleftrightarrow> numbered n ys"
  unfolding numbered_def using seqs_from_map_cong by (metis length_map)

lemma numbered_tl: "numbered n (op # ops) \<Longrightarrow> numbered n ops"
  by (auto simp: numbered_def seqs_from_Cons Suc_diff_Suc)

lemma numbered_ok: "numbered n ops \<Longrightarrow> contiguous ops \<and> ends_at n ops"
  using ends_at_iff [of "n - length ops" ops n] by (auto simp: numbered_def contiguous_iff)

lemma numbered_unique:
  assumes "numbered n ops" "a \<in> set ops" "b \<in> set ops" "sequenceNumber a = sequenceNumber b"
  shows "a = b"
proof -
  have "distinct (map sequenceNumber ops)" using assms(1) by (simp add: numbered_def seqs_from_def)
  then show ?thesis using assms(2-4) by (metis distinct_map inj_onD)
qed

text \<open>The counter of the operations that have passed a threshold names the next one to pass.\<close>

lemma counter_here:
  assumes "numbered n (zs @ op # ys)" and "k + below r (zs @ op # ys) = n"
    and "\<forall>z \<in> set zs. r \<le> state z" "state op < r" "\<forall>y \<in> set ys. state y < r"
  shows "k = sequenceNumber op"
  using assms numbered_mid [OF assms(1)] by (simp add: below_none below_all)

section \<open>Read operations\<close>

text \<open>
  Of two read operations in the deque: the later one reads, may get its allocation or is
  beyond that only if the earlier one has started reading its payloads; and callbacks are
  called in order.
\<close>

definition read_rel :: "read_op \<Rightarrow> read_op \<Rightarrow> bool" where
  "read_rel a b \<longleftrightarrow>
     (state b \<in> {READING_DESCRIPTOR, ASKING_FOR_ALLOCATION_FIRST_IN_LINE,
        READING_PAYLOADS_AND_RECEIVING_TENSORS, Read_FINISHED} \<longrightarrow>
        READING_PAYLOADS_AND_RECEIVING_TENSORS \<le> state a) \<and>
     (ASKING_FOR_ALLOCATION \<le> state b \<longrightarrow> ASKING_FOR_ALLOCATION \<le> state a) \<and>
     (Read_FINISHED \<le> state b \<longrightarrow> Read_FINISHED \<le> state a)"

text \<open>Without an error, an operation starts only when the one before reads its payloads.\<close>

definition read_strict :: "read_op \<Rightarrow> read_op \<Rightarrow> bool" where
  "read_strict a b \<longleftrightarrow> (state b \<noteq> Read_UNINITIALIZED \<longrightarrow> READING_PAYLOADS_AND_RECEIVING_TENSORS \<le> state a)"

definition read_ok :: "pipe_core \<Rightarrow> read_op \<Rightarrow> bool" where
  "read_ok c op \<longleftrightarrow>
     (readDescriptorCallback op \<noteq> None \<longleftrightarrow> state op < ASKING_FOR_ALLOCATION) \<and>
     (readCallback op \<noteq> None \<longleftrightarrow> doneGettingAllocation op \<and> state op \<noteq> Read_FINISHED) \<and>
     (doneGettingAllocation op \<longrightarrow> ASKING_FOR_ALLOCATION_FIRST_IN_LINE \<le> state op \<and>
        checkAllocationCompatibility (r_descriptor op) (r_allocation op) = Inr ()) \<and>
     (READING_PAYLOADS_AND_RECEIVING_TENSORS \<le> state op \<longrightarrow> doneGettingAllocation op) \<and>
     (doneGettingAllocation op \<longrightarrow> length (a_payloads (r_allocation op)) < 2 ^ 64 \<and> length (a_tensors (r_allocation op)) < 2 ^ 64) \<and>
     (state op \<noteq> READING_PAYLOADS_AND_RECEIVING_TENSORS \<longrightarrow> numPayloadsBeingRead op = 0 \<and> numTensorsBeingReceived op = 0) \<and>
     (r_hasMissingTargetDevices op \<longleftrightarrow> descriptorMissesTargetDevices (r_descriptor op)) \<and>
     (r_hasMissingTargetDevices op \<longrightarrow> doneReadingDescriptor op) \<and>
     (doneReadingDescriptor op \<longrightarrow> state op \<noteq> Read_UNINITIALIZED) \<and>
     (ASKING_FOR_ALLOCATION_FIRST_IN_LINE \<le> state op \<longrightarrow> doneReadingDescriptor op) \<and>
     (ASKING_FOR_ALLOCATION \<le> state op \<and> \<not> is_error (p_error c) \<longrightarrow> doneReadingDescriptor op) \<and>
     (state op \<noteq> Read_UNINITIALIZED \<and> \<not> is_error (p_error c) \<longrightarrow> p_state c = ESTABLISHED)"

definition core_ok :: "pipe_core \<Rightarrow> bool" where
  "core_ok c \<longleftrightarrow> (p_state c = ESTABLISHED \<longrightarrow> p_descriptorReplyConnection c \<noteq> None \<and>
     snd ` set (p_channelForDevicePair c) \<subseteq> set (p_channels c))"

definition read_J :: "pipe_callback multiset \<Rightarrow> pipe_token multiset \<Rightarrow> read_op list \<Rightarrow> pipe_core \<Rightarrow> bool" where
  "read_J K D ops c \<longleftrightarrow>
     numbered (nextMessageBeingRead c) ops \<and> sorted_wrt read_rel ops \<and> list_all (read_ok c) ops \<and> core_ok c \<and>
     nextReadDescriptorCallbackToCall c + below ASKING_FOR_ALLOCATION ops = nextMessageBeingRead c \<and>
     nextReadCallbackToCall c + below Read_FINISHED ops = nextMessageBeingRead c \<and>
     (\<not> is_error (p_error c) \<longrightarrow> sorted_wrt read_strict ops \<and>
        messageBeingReadFromConnection c + below READING_PAYLOADS_AND_RECEIVING_TENSORS ops = nextMessageBeingRead c \<and>
        (connectionState c = AWAITING_PAYLOADS \<longleftrightarrow>
           (\<exists>op \<in> set ops. READING_DESCRIPTOR \<le> state op \<and> state op < READING_PAYLOADS_AND_RECEIVING_TENSORS))) \<and>
     (\<forall>sn. nextMessageGettingAllocation c = Some sn \<longleftrightarrow>
        (\<exists>op \<in> set ops. sequenceNumber op = sn \<and> state op = ASKING_FOR_ALLOCATION_FIRST_IN_LINE \<and>
           \<not> doneGettingAllocation op)) \<and>
     sum_list (map owes_r ops) + paid_r c = K \<and>
     sum_list (map pend_r ops) + D = issued_r c"

lemma read_JD:
  assumes "read_J K D ops c"
  shows "numbered (nextMessageBeingRead c) ops" "sorted_wrt read_rel ops" "list_all (read_ok c) ops" "core_ok c"
    "nextReadDescriptorCallbackToCall c + below ASKING_FOR_ALLOCATION ops = nextMessageBeingRead c"
    "nextReadCallbackToCall c + below Read_FINISHED ops = nextMessageBeingRead c"
    "\<not> is_error (p_error c) \<Longrightarrow>
       messageBeingReadFromConnection c + below READING_PAYLOADS_AND_RECEIVING_TENSORS ops = nextMessageBeingRead c"
    "\<not> is_error (p_error c) \<Longrightarrow> connectionState c = AWAITING_PAYLOADS \<longleftrightarrow>
       (\<exists>op \<in> set ops. READING_DESCRIPTOR \<le> state op \<and> state op < READING_PAYLOADS_AND_RECEIVING_TENSORS)"
    "nextMessageGettingAllocation c = Some sn \<longleftrightarrow>
        (\<exists>op \<in> set ops. sequenceNumber op = sn \<and> state op = ASKING_FOR_ALLOCATION_FIRST_IN_LINE \<and>
           \<not> doneGettingAllocation op)"
    "sum_list (map owes_r ops) + paid_r c = K"
    "sum_list (map pend_r ops) + D = issued_r c"
    "\<not> is_error (p_error c) \<Longrightarrow> sorted_wrt read_strict ops"
  using assms unfolding read_J_def by blast+

lemma read_ok_cong: "p_error c' = p_error c \<Longrightarrow> p_state c' = p_state c \<Longrightarrow> read_ok c' = read_ok c"
  by (simp add: fun_eq_iff read_ok_def)

lemma read_rel_mono: "read_rel a b \<Longrightarrow> state a \<le> state a' \<Longrightarrow> read_rel a' b"
  unfolding read_rel_def by (meson order_trans)

lemma read_sorted_update:
  assumes "sorted_wrt read_rel (zs @ op # ys)" and "state op \<le> state op'" and "\<forall>z \<in> set zs. read_rel z op'"
  shows "sorted_wrt read_rel (zs @ op' # ys)"
  using assms by (auto simp: sorted_wrt_append intro: read_rel_mono)

lemma read_prev_all:
  assumes "sorted_wrt read_rel (zs @ ys)"
    and "r \<in> {ASKING_FOR_ALLOCATION, READING_PAYLOADS_AND_RECEIVING_TENSORS, Read_FINISHED}"
    and "r \<le> prev_state Read_FINISHED zs"
  shows "\<forall>z \<in> set zs. r \<le> state z"
proof (cases zs rule: rev_cases)
  case (snoc xs x)
  have "r \<le> state z" if "z \<in> set xs" for z
  proof -
    have "read_rel z x" using assms(1) snoc that by (auto simp: sorted_wrt_append)
    moreover have "r \<le> state x" using assms(3) snoc by (simp add: prev_state_def)
    ultimately show ?thesis
      using assms(2) by (cases "state x") (auto simp: read_rel_def pipe_state_order)
  qed
  then show ?thesis using assms(3) snoc by (auto simp: prev_state_def)
qed simp

text \<open>What follows an operation that has not passed a threshold has not either.\<close>

lemma read_later:
  assumes "sorted_wrt read_rel (zs @ op # ys)" and "y \<in> set ys"
  shows "state op < ASKING_FOR_ALLOCATION \<Longrightarrow> state y = Read_UNINITIALIZED"
    "state op < READING_PAYLOADS_AND_RECEIVING_TENSORS \<Longrightarrow> state y \<in> {Read_UNINITIALIZED, ASKING_FOR_ALLOCATION}"
    "state op < Read_FINISHED \<Longrightarrow> state y < Read_FINISHED"
proof -
  have r: "read_rel op y" using assms by (auto simp: sorted_wrt_append)
  show "state op < ASKING_FOR_ALLOCATION \<Longrightarrow> state y = Read_UNINITIALIZED"
    using r by (cases "state y"; cases "state op") (auto simp: read_rel_def pipe_state_order)
  show "state op < READING_PAYLOADS_AND_RECEIVING_TENSORS \<Longrightarrow> state y \<in> {Read_UNINITIALIZED, ASKING_FOR_ALLOCATION}"
    using r by (cases "state y"; cases "state op") (auto simp: read_rel_def pipe_state_order)
  show "state op < Read_FINISHED \<Longrightarrow> state y < Read_FINISHED"
    using r by (cases "state y"; cases "state op") (auto simp: read_rel_def pipe_state_order)
qed

lemma plog_simps [simp]:
  "p_state (plog es c) = p_state c" "p_error (plog es c) = p_error c"
  "p_channels (plog es c) = p_channels c" "p_channelForDevicePair (plog es c) = p_channelForDevicePair c"
  "p_descriptorConnection (plog es c) = p_descriptorConnection c"
  "p_descriptorReplyConnection (plog es c) = p_descriptorReplyConnection c"
  "nextMessageBeingRead (plog es c) = nextMessageBeingRead c"
  "nextMessageBeingWritten (plog es c) = nextMessageBeingWritten c"
  "nextReadDescriptorCallbackToCall (plog es c) = nextReadDescriptorCallbackToCall c"
  "nextReadCallbackToCall (plog es c) = nextReadCallbackToCall c"
  "nextWriteCallbackToCall (plog es c) = nextWriteCallbackToCall c"
  "connectionState (plog es c) = connectionState c"
  "messageBeingReadFromConnection (plog es c) = messageBeingReadFromConnection c"
  "nextMessageGettingAllocation (plog es c) = nextMessageGettingAllocation c"
  "p_registrationIds (plog es c) = p_registrationIds c"
  "p_channelRegistrationIds (plog es c) = p_channelRegistrationIds c"
  "p_channelReceivedConnections (plog es c) = p_channelReceivedConnections c"
  "p_transport (plog es c) = p_transport c" "p_id (plog es c) = p_id c"
  "paid_r (plog es c) = paid_r c + mset (concat (map read_effect_callback es))"
  "paid_w (plog es c) = paid_w c + mset (concat (map write_effect_callback es))"
  "issued_r (plog es c) = issued_r c + mset (concat (map read_effect_token es))"
  "issued_w (plog es c) = issued_w c + mset (concat (map write_effect_token es))"
  "issued_h (plog es c) = issued_h c + mset (concat (map shake_effect_token es))"
  "p_opened (plog es c) = p_opened c" "p_remoteName (plog es c) = p_remoteName c"
  "plog es' (plog es c) = plog (es @ es') c"
  by (simp_all add: plog_def paid_r_def paid_w_def issued_r_def issued_w_def issued_h_def)

lemma log_update [simp]:
  "paid_r (c\<lparr>nextReadDescriptorCallbackToCall := v0\<rparr>) = paid_r c"
  "paid_w (c\<lparr>nextReadDescriptorCallbackToCall := v0\<rparr>) = paid_w c"
  "issued_r (c\<lparr>nextReadDescriptorCallbackToCall := v0\<rparr>) = issued_r c"
  "issued_w (c\<lparr>nextReadDescriptorCallbackToCall := v0\<rparr>) = issued_w c"
  "issued_h (c\<lparr>nextReadDescriptorCallbackToCall := v0\<rparr>) = issued_h c"
  "paid_r (c\<lparr>nextReadCallbackToCall := v1\<rparr>) = paid_r c"
  "paid_w (c\<lparr>nextReadCallbackToCall := v1\<rparr>) = paid_w c"
  "issued_r (c\<lparr>nextReadCallbackToCall := v1\<rparr>) = issued_r c"
  "issued_w (c\<lparr>nextReadCallbackToCall := v1\<rparr>) = issued_w c"
  "issued_h (c\<lparr>nextReadCallbackToCall := v1\<rparr>) = issued_h c"
  "paid_r (c\<lparr>nextWriteCallbackToCall := v2\<rparr>) = paid_r c"
  "paid_w (c\<lparr>nextWriteCallbackToCall := v2\<rparr>) = paid_w c"
  "issued_r (c\<lparr>nextWriteCallbackToCall := v2\<rparr>) = issued_r c"
  "issued_w (c\<lparr>nextWriteCallbackToCall := v2\<rparr>) = issued_w c"
  "issued_h (c\<lparr>nextWriteCallbackToCall := v2\<rparr>) = issued_h c"
  "paid_r (c\<lparr>nextMessageBeingRead := v3\<rparr>) = paid_r c"
  "paid_w (c\<lparr>nextMessageBeingRead := v3\<rparr>) = paid_w c"
  "issued_r (c\<lparr>nextMessageBeingRead := v3\<rparr>) = issued_r c"
  "issued_w (c\<lparr>nextMessageBeingRead := v3\<rparr>) = issued_w c"
  "issued_h (c\<lparr>nextMessageBeingRead := v3\<rparr>) = issued_h c"
  "paid_r (c\<lparr>nextMessageBeingWritten := v4\<rparr>) = paid_r c"
  "paid_w (c\<lparr>nextMessageBeingWritten := v4\<rparr>) = paid_w c"
  "issued_r (c\<lparr>nextMessageBeingWritten := v4\<rparr>) = issued_r c"
  "issued_w (c\<lparr>nextMessageBeingWritten := v4\<rparr>) = issued_w c"
  "issued_h (c\<lparr>nextMessageBeingWritten := v4\<rparr>) = issued_h c"
  "paid_r (c\<lparr>connectionState := v5\<rparr>) = paid_r c"
  "paid_w (c\<lparr>connectionState := v5\<rparr>) = paid_w c"
  "issued_r (c\<lparr>connectionState := v5\<rparr>) = issued_r c"
  "issued_w (c\<lparr>connectionState := v5\<rparr>) = issued_w c"
  "issued_h (c\<lparr>connectionState := v5\<rparr>) = issued_h c"
  "paid_r (c\<lparr>messageBeingReadFromConnection := v6\<rparr>) = paid_r c"
  "paid_w (c\<lparr>messageBeingReadFromConnection := v6\<rparr>) = paid_w c"
  "issued_r (c\<lparr>messageBeingReadFromConnection := v6\<rparr>) = issued_r c"
  "issued_w (c\<lparr>messageBeingReadFromConnection := v6\<rparr>) = issued_w c"
  "issued_h (c\<lparr>messageBeingReadFromConnection := v6\<rparr>) = issued_h c"
  "paid_r (c\<lparr>nextMessageGettingAllocation := v7\<rparr>) = paid_r c"
  "paid_w (c\<lparr>nextMessageGettingAllocation := v7\<rparr>) = paid_w c"
  "issued_r (c\<lparr>nextMessageGettingAllocation := v7\<rparr>) = issued_r c"
  "issued_w (c\<lparr>nextMessageGettingAllocation := v7\<rparr>) = issued_w c"
  "issued_h (c\<lparr>nextMessageGettingAllocation := v7\<rparr>) = issued_h c"
  "paid_r (c\<lparr>p_error := v8\<rparr>) = paid_r c"
  "paid_w (c\<lparr>p_error := v8\<rparr>) = paid_w c"
  "issued_r (c\<lparr>p_error := v8\<rparr>) = issued_r c"
  "issued_w (c\<lparr>p_error := v8\<rparr>) = issued_w c"
  "issued_h (c\<lparr>p_error := v8\<rparr>) = issued_h c"
  "paid_r (c\<lparr>p_state := v9\<rparr>) = paid_r c"
  "paid_w (c\<lparr>p_state := v9\<rparr>) = paid_w c"
  "issued_r (c\<lparr>p_state := v9\<rparr>) = issued_r c"
  "issued_w (c\<lparr>p_state := v9\<rparr>) = issued_w c"
  "issued_h (c\<lparr>p_state := v9\<rparr>) = issued_h c"
  "paid_r (c\<lparr>p_transport := v10\<rparr>) = paid_r c"
  "paid_w (c\<lparr>p_transport := v10\<rparr>) = paid_w c"
  "issued_r (c\<lparr>p_transport := v10\<rparr>) = issued_r c"
  "issued_w (c\<lparr>p_transport := v10\<rparr>) = issued_w c"
  "issued_h (c\<lparr>p_transport := v10\<rparr>) = issued_h c"
  "paid_r (c\<lparr>p_opened := v11\<rparr>) = paid_r c"
  "paid_w (c\<lparr>p_opened := v11\<rparr>) = paid_w c"
  "issued_r (c\<lparr>p_opened := v11\<rparr>) = issued_r c"
  "issued_w (c\<lparr>p_opened := v11\<rparr>) = issued_w c"
  "issued_h (c\<lparr>p_opened := v11\<rparr>) = issued_h c"
  "paid_r (c\<lparr>p_descriptorConnection := v12\<rparr>) = paid_r c"
  "paid_w (c\<lparr>p_descriptorConnection := v12\<rparr>) = paid_w c"
  "issued_r (c\<lparr>p_descriptorConnection := v12\<rparr>) = issued_r c"
  "issued_w (c\<lparr>p_descriptorConnection := v12\<rparr>) = issued_w c"
  "issued_h (c\<lparr>p_descriptorConnection := v12\<rparr>) = issued_h c"
  "paid_r (c\<lparr>p_descriptorReplyConnection := v13\<rparr>) = paid_r c"
  "paid_w (c\<lparr>p_descriptorReplyConnection := v13\<rparr>) = paid_w c"
  "issued_r (c\<lparr>p_descriptorReplyConnection := v13\<rparr>) = issued_r c"
  "issued_w (c\<lparr>p_descriptorReplyConnection := v13\<rparr>) = issued_w c"
  "issued_h (c\<lparr>p_descriptorReplyConnection := v13\<rparr>) = issued_h c"
  "paid_r (c\<lparr>p_channels := v14\<rparr>) = paid_r c"
  "paid_w (c\<lparr>p_channels := v14\<rparr>) = paid_w c"
  "issued_r (c\<lparr>p_channels := v14\<rparr>) = issued_r c"
  "issued_w (c\<lparr>p_channels := v14\<rparr>) = issued_w c"
  "issued_h (c\<lparr>p_channels := v14\<rparr>) = issued_h c"
  "paid_r (c\<lparr>p_channelForDevicePair := v15\<rparr>) = paid_r c"
  "paid_w (c\<lparr>p_channelForDevicePair := v15\<rparr>) = paid_w c"
  "issued_r (c\<lparr>p_channelForDevicePair := v15\<rparr>) = issued_r c"
  "issued_w (c\<lparr>p_channelForDevicePair := v15\<rparr>) = issued_w c"
  "issued_h (c\<lparr>p_channelForDevicePair := v15\<rparr>) = issued_h c"
  "paid_r (c\<lparr>p_registrationIds := v16\<rparr>) = paid_r c"
  "paid_w (c\<lparr>p_registrationIds := v16\<rparr>) = paid_w c"
  "issued_r (c\<lparr>p_registrationIds := v16\<rparr>) = issued_r c"
  "issued_w (c\<lparr>p_registrationIds := v16\<rparr>) = issued_w c"
  "issued_h (c\<lparr>p_registrationIds := v16\<rparr>) = issued_h c"
  "paid_r (c\<lparr>p_channelRegistrationIds := v17\<rparr>) = paid_r c"
  "paid_w (c\<lparr>p_channelRegistrationIds := v17\<rparr>) = paid_w c"
  "issued_r (c\<lparr>p_channelRegistrationIds := v17\<rparr>) = issued_r c"
  "issued_w (c\<lparr>p_channelRegistrationIds := v17\<rparr>) = issued_w c"
  "issued_h (c\<lparr>p_channelRegistrationIds := v17\<rparr>) = issued_h c"
  "paid_r (c\<lparr>p_channelReceivedConnections := v18\<rparr>) = paid_r c"
  "paid_w (c\<lparr>p_channelReceivedConnections := v18\<rparr>) = paid_w c"
  "issued_r (c\<lparr>p_channelReceivedConnections := v18\<rparr>) = issued_r c"
  "issued_w (c\<lparr>p_channelReceivedConnections := v18\<rparr>) = issued_w c"
  "issued_h (c\<lparr>p_channelReceivedConnections := v18\<rparr>) = issued_h c"
  by (simp_all add: paid_r_def paid_w_def issued_r_def issued_w_def issued_h_def)

section \<open>The loops of the actions in closed form\<close>

definition payload_reads :: "pconn \<Rightarrow> nat \<Rightarrow> nat \<Rightarrow> addr list \<Rightarrow> descriptor_payload list \<Rightarrow> pipe_effect list" where
  "payload_reads conn sn i as ds =
     map (\<lambda>(k, a, d). ReadPayload conn sn k a (dp_length d)) (zip [i..<i + length as] (zip as ds))"

definition tensor_recvs :: "pair_map \<Rightarrow> nat \<Rightarrow> nat \<Rightarrow> buffer list \<Rightarrow> descriptor_tensor list \<Rightarrow> pipe_effect list" where
  "tensor_recvs pairs sn i bs ds =
     map (\<lambda>(k, b, d). ChannelRecv (the (map_of pairs (buffer_device b, dt_sourceDevice d))) sn k b (dt_length d))
       (zip [i..<i + length bs] (zip bs ds))"

definition payload_writes :: "pconn \<Rightarrow> nat \<Rightarrow> nat \<Rightarrow> message_payload list \<Rightarrow> pipe_effect list" where
  "payload_writes conn sn i ps =
     map (\<lambda>(k, p). WritePayload conn sn k (mp_data p) (mp_length p)) (zip [i..<i + length ps] ps)"

definition tensor_sends :: "pair_map \<Rightarrow> nat \<Rightarrow> nat \<Rightarrow> message_tensor list \<Rightarrow> write_tensor list \<Rightarrow> pipe_effect list" where
  "tensor_sends pairs sn i ms ts =
     map (\<lambda>(k, m, t). ChannelSend (the (map_of pairs (wt_sourceDevice t, the (wt_targetDevice t)))) sn k (mt_buffer m) (mt_length m))
       (zip [i..<i + length ms] (zip ms ts))"

lemma plog_Nil [simp]: "plog [] c = c"
  by (simp add: plog_def)

lemma upt_Suc_Cons: "[i..<Suc (i + n)] = i # [Suc i..<Suc (i + n)]"
  by (simp add: upt_conv_Cons)

lemma concat_map_Nil: "(\<And>x. x \<in> set xs \<Longrightarrow> f x = []) \<Longrightarrow> concat (map f xs) = []"
  by (induction xs) auto

lemma concat_map_single: "(\<And>x. x \<in> set xs \<Longrightarrow> f x = [y]) \<Longrightarrow> concat (map f xs) = replicate (length xs) y"
  by (induction xs) auto

lemma transfer_tokens:
  "length as \<le> length ds \<Longrightarrow> concat (map read_effect_token (payload_reads conn sn i as ds)) = replicate (length as) (PayloadReadTok sn)"
  "length bs = length ds' \<Longrightarrow> concat (map read_effect_token (tensor_recvs pairs sn i bs ds')) = replicate (length bs) (TensorRecvTok sn)"
  "concat (map write_effect_token (payload_writes conn sn i ps)) = replicate (length ps) (PayloadWriteTok sn)"
  "length ms \<le> length ts \<Longrightarrow> concat (map write_effect_token (tensor_sends pairs sn i ms ts)) = replicate (length ms) (TensorSendTok sn)"
  unfolding payload_reads_def tensor_recvs_def payload_writes_def tensor_sends_def map_map comp_def
  by (subst concat_map_single; auto)+

lemma transfer_silent [simp]:
  "concat (map read_effect_callback (payload_reads conn sn i as ds)) = []" "concat (map write_effect_callback (payload_reads conn sn i as ds)) = []"
  "concat (map read_effect_callback (tensor_recvs pairs sn i bs ds')) = []" "concat (map write_effect_callback (tensor_recvs pairs sn i bs ds')) = []"
  "concat (map read_effect_callback (payload_writes conn sn i ps)) = []" "concat (map write_effect_callback (payload_writes conn sn i ps)) = []"
  "concat (map read_effect_callback (tensor_sends pairs sn i ms ts)) = []" "concat (map write_effect_callback (tensor_sends pairs sn i ms ts)) = []"
  "concat (map write_effect_token (payload_reads conn sn i as ds)) = []" "concat (map write_effect_token (tensor_recvs pairs sn i bs ds')) = []"
  "concat (map shake_effect_token (payload_reads conn sn i as ds)) = []" "concat (map shake_effect_token (tensor_recvs pairs sn i bs ds')) = []"
  "concat (map shake_effect_token (payload_writes conn sn i ps)) = []" "concat (map shake_effect_token (tensor_sends pairs sn i ms ts)) = []"
  "concat (map read_effect_token (payload_writes conn sn i ps)) = []" "concat (map read_effect_token (tensor_sends pairs sn i ms ts)) = []"
  unfolding payload_reads_def tensor_recvs_def payload_writes_def tensor_sends_def map_map comp_def
  by (rule concat_map_Nil; auto)+

lemma read_payloads_eq:
  "length as \<le> length ds \<Longrightarrow> read_payloads i as ds op c =
     Inr (op\<lparr>numPayloadsBeingRead := numPayloadsBeingRead op + of_nat (length as)\<rparr>,
          plog (payload_reads (p_descriptorConnection c) (sequenceNumber op) i as ds) c)"
proof (induction i as ds op c rule: read_payloads.induct)
  case (3 i a as d ds op c)
  then show ?case by (simp add: payload_reads_def upt_Suc_Cons add.assoc del: upt_Suc)
qed (simp_all add: payload_reads_def)

lemma receive_tensors_eq:
  assumes "length bs = length ds" and "snd ` set (p_channelForDevicePair c) \<subseteq> set (p_channels c)"
  shows "receive_tensors i bs ds op c =
    (if \<forall>(b, d) \<in> set (zip bs ds). map_of (p_channelForDevicePair c) (buffer_device b, dt_sourceDevice d) \<noteq> None
     then Inr (op\<lparr>numTensorsBeingReceived := numTensorsBeingReceived op + of_nat (length bs)\<rparr>,
               plog (tensor_recvs (p_channelForDevicePair c) (sequenceNumber op) i bs ds) c)
     else Inl AssertFailed)"
  using assms
proof (induction i bs ds op c rule: receive_tensors.induct)
  case (3 i b bs d ds op c)
  show ?case
  proof (cases "map_of (p_channelForDevicePair c) (buffer_device b, dt_sourceDevice d)")
    case None
    then show ?thesis by simp
  next
    case (Some name)
    then have "name \<in> set (p_channels c)" using 3(3) by (auto dest: map_of_in_range)
    then show ?thesis using 3 Some by (simp add: tensor_recvs_def upt_Suc_Cons add.assoc del: upt_Suc)
  qed
qed (simp_all add: tensor_recvs_def)

lemma write_payloads_eq:
  "write_payloads i ps op c =
     Inr (op\<lparr>numPayloadsBeingWritten := numPayloadsBeingWritten op + of_nat (length ps)\<rparr>,
          plog (payload_writes (p_descriptorConnection c) (sequenceNumber op) i ps) c)"
proof (induction i ps op c rule: write_payloads.induct)
  case (2 i p ps op c)
  then show ?case by (simp add: payload_writes_def upt_Suc_Cons add.assoc del: upt_Suc)
qed (simp add: payload_writes_def)

lemma send_tensors_eq:
  assumes "length ms = length ts" and "snd ` set (p_channelForDevicePair c) \<subseteq> set (p_channels c)"
    and "\<forall>t \<in> set ts. wt_targetDevice t \<noteq> None"
  shows "send_tensors i ms ts op c =
    (if \<forall>t \<in> set ts. map_of (p_channelForDevicePair c) (wt_sourceDevice t, the (wt_targetDevice t)) \<noteq> None
     then Inr (op\<lparr>numTensorsBeingSent := numTensorsBeingSent op + of_nat (length ms)\<rparr>,
               plog (tensor_sends (p_channelForDevicePair c) (sequenceNumber op) i ms ts) c)
     else Inl AssertFailed)"
  using assms
proof (induction i ms ts op c rule: send_tensors.induct)
  case (3 i m ms t ts op c)
  obtain dev where dev: "wt_targetDevice t = Some dev" using 3(4) by auto
  show ?case
  proof (cases "map_of (p_channelForDevicePair c) (wt_sourceDevice t, dev)")
    case None
    then show ?thesis using dev by simp
  next
    case (Some name)
    then have "name \<in> set (p_channels c)" using 3(3) by (auto dest: map_of_in_range)
    then show ?thesis using 3 Some dev by (simp add: tensor_sends_def upt_Suc_Cons add.assoc del: upt_Suc)
  qed
qed (simp_all add: tensor_sends_def)

text \<open>
  What is left to show of a step at a position: it passes the operation on, moves the counters
  with it, and keeps the parts of the invariant that concern the operation itself.
\<close>

lemma read_J_replace:
  assumes J: "read_J K D (zs @ op # ys) c"
    and op': "sequenceNumber op' = sequenceNumber op" "state op \<le> state op'" "\<forall>z \<in> set zs. read_rel z op'"
      "read_ok c' op'" "owes_r op' + paid_r c' = owes_r op + paid_r c"
      "pend_r op' + issued_r c = pend_r op + issued_r c'"
      "\<not> is_error (p_error c) \<Longrightarrow> state op = Read_UNINITIALIZED \<Longrightarrow>
         \<forall>z \<in> set zs. READING_PAYLOADS_AND_RECEIVING_TENSORS \<le> state z"
    and c': "p_error c' = p_error c" "p_state c' = p_state c" "core_ok c'" "nextMessageBeingRead c' = nextMessageBeingRead c"
    and counters:
      "nextReadDescriptorCallbackToCall c' + below ASKING_FOR_ALLOCATION [op'] =
         nextReadDescriptorCallbackToCall c + below ASKING_FOR_ALLOCATION [op]"
      "nextReadCallbackToCall c' + below Read_FINISHED [op'] = nextReadCallbackToCall c + below Read_FINISHED [op]"
      "\<not> is_error (p_error c) \<Longrightarrow>
         messageBeingReadFromConnection c' + below READING_PAYLOADS_AND_RECEIVING_TENSORS [op'] =
         messageBeingReadFromConnection c + below READING_PAYLOADS_AND_RECEIVING_TENSORS [op]"
    and wire: "\<not> is_error (p_error c) \<Longrightarrow> connectionState c' = AWAITING_PAYLOADS \<longleftrightarrow>
         (\<exists>x \<in> set (zs @ op' # ys). READING_DESCRIPTOR \<le> state x \<and> state x < READING_PAYLOADS_AND_RECEIVING_TENSORS)"
    and alloc: "\<And>sn. nextMessageGettingAllocation c' = Some sn \<longleftrightarrow>
        (\<exists>x \<in> set (zs @ op' # ys). sequenceNumber x = sn \<and> state x = ASKING_FOR_ALLOCATION_FIRST_IN_LINE \<and>
           \<not> doneGettingAllocation x)"
  shows "read_J K D (zs @ op' # ys) c'"
proof -
  note Jd = read_JD [OF J]
  have n: "numbered (nextMessageBeingRead c') (zs @ op' # ys)"
    using Jd(1) op'(1) c'(4) numbered_cong [of "zs @ op' # ys" "zs @ op # ys"] by simp
  have s: "sorted_wrt read_rel (zs @ op' # ys)"
    using Jd(2) op' read_sorted_update [of zs op ys op'] by simp
  have st: "sorted_wrt read_strict (zs @ op' # ys)" if "\<not> is_error (p_error c)"
    using Jd(12) [OF that] op'(7) [OF that] op'(2)
    by (auto simp: sorted_wrt_append read_strict_def intro: order_trans)
  have ok: "list_all (read_ok c') (zs @ op' # ys)"
    using Jd(3) op'(4) read_ok_cong [OF c'(1,2)] by simp
  have "sum_list (map owes_r (zs @ op' # ys)) + paid_r c' =
      sum_list (map owes_r zs) + sum_list (map owes_r ys) + (owes_r op' + paid_r c')"
    by (simp add: ac_simps)
  also have "\<dots> = K" using Jd(10) unfolding op'(5) by (simp add: ac_simps)
  finally have acc: "sum_list (map owes_r (zs @ op' # ys)) + paid_r c' = K" .
  have "sum_list (map pend_r (zs @ op' # ys)) + D + issued_r c =
      sum_list (map pend_r zs) + sum_list (map pend_r ys) + D + (pend_r op' + issued_r c)"
    by (simp add: ac_simps)
  also have "\<dots> = sum_list (map pend_r (zs @ op # ys)) + D + issued_r c'"
    unfolding op'(6) by (simp add: ac_simps)
  finally have pend: "sum_list (map pend_r (zs @ op' # ys)) + D = issued_r c'"
    unfolding Jd(11) by (simp add: ac_simps)
  have k1: "nextReadDescriptorCallbackToCall c' + below ASKING_FOR_ALLOCATION (zs @ op' # ys) = nextMessageBeingRead c'"
    using Jd(5) counters(1) c'(4) by (simp split: if_splits)
  have k2: "nextReadCallbackToCall c' + below Read_FINISHED (zs @ op' # ys) = nextMessageBeingRead c'"
    using Jd(6) counters(2) c'(4) by (simp split: if_splits)
  have k3: "messageBeingReadFromConnection c' + below READING_PAYLOADS_AND_RECEIVING_TENSORS (zs @ op' # ys) =
      nextMessageBeingRead c'" if "\<not> is_error (p_error c)"
    using Jd(7) [OF that] counters(3) [OF that] c'(4) by (simp split: if_splits)
  show ?thesis
    unfolding read_J_def c'(1)
    by (intro conjI impI allI n s st ok c'(3) k1 k2 k3 wire alloc acc pend)
qed

lemma read_frames:
  assumes "read_J K D (zs @ op # ys) c" and "sequenceNumber op' = sequenceNumber op"
  shows "(state op = ASKING_FOR_ALLOCATION_FIRST_IN_LINE \<and> \<not> doneGettingAllocation op) =
      (state op' = ASKING_FOR_ALLOCATION_FIRST_IN_LINE \<and> \<not> doneGettingAllocation op') \<Longrightarrow>
      nextMessageGettingAllocation c = Some sn \<longleftrightarrow>
        (\<exists>x \<in> set (zs @ op' # ys). sequenceNumber x = sn \<and> state x = ASKING_FOR_ALLOCATION_FIRST_IN_LINE \<and>
           \<not> doneGettingAllocation x)"
    and "\<not> is_error (p_error c) \<Longrightarrow>
      (READING_DESCRIPTOR \<le> state op \<and> state op < READING_PAYLOADS_AND_RECEIVING_TENSORS) =
      (READING_DESCRIPTOR \<le> state op' \<and> state op' < READING_PAYLOADS_AND_RECEIVING_TENSORS) \<Longrightarrow>
      connectionState c = AWAITING_PAYLOADS \<longleftrightarrow>
         (\<exists>x \<in> set (zs @ op' # ys). READING_DESCRIPTOR \<le> state x \<and> state x < READING_PAYLOADS_AND_RECEIVING_TENSORS)"
  using read_JD(8,9) [OF assms(1)] assms(2) by (auto simp del: not_less)

lemma core_ok_cong:
  "p_state c' = p_state c \<Longrightarrow> p_descriptorReplyConnection c' = p_descriptorReplyConnection c \<Longrightarrow>
   p_channelForDevicePair c' = p_channelForDevicePair c \<Longrightarrow> p_channels c' = p_channels c \<Longrightarrow> core_ok c' = core_ok c"
  by (simp add: core_ok_def)

text \<open>Calling the descriptor callback.\<close>

lemma read_step_descriptor_callback:
  assumes J: "read_J K D (zs @ op # ys) c" and st: "state op < ASKING_FOR_ALLOCATION"
    and prev: "ASKING_FOR_ALLOCATION \<le> prev_state Read_FINISHED zs"
    and why: "if is_error (p_error c) \<and> state op = Read_UNINITIALIZED then True
      else state op = READING_DESCRIPTOR \<and> doneReadingDescriptor op"
  shows "ok_result allowed (\<lambda>(op', c'). read_J K D (zs @ op'\<lparr>state := ASKING_FOR_ALLOCATION\<rparr> # ys) c')
    (run_actions [callReadDescriptorCallback] op c)"
proof -
  note Jd = read_JD [OF J]
  have ok: "read_ok c op" using Jd(3) by simp
  then obtain cb where cb: "readDescriptorCallback op = Some cb" using st by (auto simp: read_ok_def)
  have zs: "\<forall>z \<in> set zs. ASKING_FOR_ALLOCATION \<le> state z"
    using read_prev_all [OF Jd(2) _ prev] by simp
  have sn: "nextReadDescriptorCallbackToCall c = sequenceNumber op"
    by (rule counter_here [OF Jd(1,5) zs st]) (use read_later(1) [OF Jd(2) _ st] in \<open>auto simp: pipe_state_order\<close>)
  let ?c = "plog [CallReadDescriptor cb (p_error c) (r_descriptor op)]
     (c\<lparr>nextReadDescriptorCallbackToCall := nextReadDescriptorCallbackToCall c + 1\<rparr>)"
  let ?op = "op\<lparr>readDescriptorCallback := None, state := ASKING_FOR_ALLOCATION\<rparr>"
  have "read_J K D (zs @ ?op # ys) ?c"
  proof (rule read_J_replace [OF J])
    show "read_ok ?c ?op" using ok st why by (auto simp: read_ok_def pipe_state_order split: if_splits)
    show "\<forall>z \<in> set zs. read_rel z ?op" using zs by (simp add: read_rel_def pipe_state_order)
    show "core_ok ?c" using Jd(4) by (simp add: core_ok_def)
    show "owes_r ?op + paid_r ?c = owes_r op + paid_r c" using cb by (simp add: owes_r_def)
    show "pend_r ?op + issued_r c = pend_r op + issued_r ?c"
      using why by (auto simp: pend_r_def split: if_splits)
    show "nextMessageGettingAllocation ?c = Some sn \<longleftrightarrow>
        (\<exists>x \<in> set (zs @ ?op # ys). sequenceNumber x = sn \<and> state x = ASKING_FOR_ALLOCATION_FIRST_IN_LINE \<and>
           \<not> doneGettingAllocation x)" for sn
      using read_frames(1) [OF J, of ?op sn] st by (cases "state op") (simp_all add: pipe_state_order)
    show "\<not> is_error (p_error c) \<Longrightarrow> connectionState ?c = AWAITING_PAYLOADS \<longleftrightarrow>
         (\<exists>x \<in> set (zs @ ?op # ys). READING_DESCRIPTOR \<le> state x \<and> state x < READING_PAYLOADS_AND_RECEIVING_TENSORS)"
      using read_frames(2) [OF J, of ?op] why by (simp add: pipe_state_order)
    show "\<forall>z \<in> set zs. READING_PAYLOADS_AND_RECEIVING_TENSORS \<le> state z" if "\<not> is_error (p_error c)" "state op = Read_UNINITIALIZED"
      using that why by (simp split: if_splits)
  qed (use st why in \<open>auto simp: pipe_state_order split: if_splits\<close>)
  then show ?thesis using cb sn by (simp add: callReadDescriptorCallback_def)
qed

text \<open>Asking the connection for the next descriptor.\<close>

lemma read_window_empty:
  assumes J: "read_J K D (zs @ op # ys) c" and ne: "\<not> is_error (p_error c)"
    and zs: "\<forall>z \<in> set zs. READING_PAYLOADS_AND_RECEIVING_TENSORS \<le> state z"
    and st: "state op < READING_PAYLOADS_AND_RECEIVING_TENSORS"
  shows "\<forall>x \<in> set zs \<union> set ys. \<not> (READING_DESCRIPTOR \<le> state x \<and> state x < READING_PAYLOADS_AND_RECEIVING_TENSORS)"
    and "messageBeingReadFromConnection c = sequenceNumber op"
proof -
  note Jd = read_JD [OF J]
  have ys: "state y = Read_UNINITIALIZED" if "y \<in> set ys" for y
    using Jd(12) [OF ne] that st by (auto simp: sorted_wrt_append read_strict_def not_le [symmetric])
  show "\<forall>x \<in> set zs \<union> set ys. \<not> (READING_DESCRIPTOR \<le> state x \<and> state x < READING_PAYLOADS_AND_RECEIVING_TENSORS)"
    using zs ys by (auto simp: pipe_state_order)
  show "messageBeingReadFromConnection c = sequenceNumber op"
    by (rule counter_here [OF Jd(1) Jd(7) [OF ne] zs st]) (use ys in \<open>auto simp: pipe_state_order\<close>)
qed

lemma read_step_descriptor:
  assumes J: "read_J K D (zs @ op # ys) c" and st: "state op = Read_UNINITIALIZED" and ne: "\<not> is_error (p_error c)"
    and est: "p_state c = ESTABLISHED"
    and prev: "READING_PAYLOADS_AND_RECEIVING_TENSORS \<le> prev_state Read_FINISHED zs"
  shows "ok_result allowed (\<lambda>(op', c'). read_J K D (zs @ op'\<lparr>state := READING_DESCRIPTOR\<rparr> # ys) c')
    (run_actions [readDescriptorOfMessage] op c)"
proof -
  note Jd = read_JD [OF J]
  have ok: "read_ok c op" using Jd(3) by simp
  have zs: "\<forall>z \<in> set zs. READING_PAYLOADS_AND_RECEIVING_TENSORS \<le> state z"
    using read_prev_all [OF Jd(2) _ prev] by simp
  note w = read_window_empty [OF J ne zs]
  have wire: "connectionState c = AWAITING_DESCRIPTOR"
    using w(1) st Jd(8) [OF ne] by (cases "connectionState c") (auto simp: pipe_state_order)
  have sn: "messageBeingReadFromConnection c = sequenceNumber op" using w(2) st by (simp add: pipe_state_order)
  let ?c = "plog [ReadDescriptor (p_descriptorConnection c) (sequenceNumber op)] (c\<lparr>connectionState := AWAITING_PAYLOADS\<rparr>)"
  let ?op = "op\<lparr>state := READING_DESCRIPTOR\<rparr>"
  have "read_J K D (zs @ ?op # ys) ?c"
  proof (rule read_J_replace [OF J])
    show "read_ok ?c ?op" using ok st est by (auto simp: read_ok_def pipe_state_order)
    show "\<forall>z \<in> set zs. read_rel z ?op" using zs by (simp add: read_rel_def pipe_state_order)
    show "core_ok ?c" using Jd(4) by (simp add: core_ok_def)
    show "owes_r ?op + paid_r ?c = owes_r op + paid_r c" by (simp add: owes_r_def)
    show "pend_r ?op + issued_r c = pend_r op + issued_r ?c"
      using st ok by (auto simp: pend_r_def read_ok_def)
    show "nextMessageGettingAllocation ?c = Some sn \<longleftrightarrow>
        (\<exists>x \<in> set (zs @ ?op # ys). sequenceNumber x = sn \<and> state x = ASKING_FOR_ALLOCATION_FIRST_IN_LINE \<and>
           \<not> doneGettingAllocation x)" for sn
      using read_frames(1) [OF J, of ?op sn] st by simp
  qed (use st zs in \<open>auto simp: pipe_state_order\<close>)
  then show ?thesis using wire sn by (simp add: readDescriptorOfMessage_def)
qed

text \<open>Letting the user provide the allocation.\<close>

lemma read_step_expect:
  assumes J: "read_J K D (zs @ op # ys) c" and st: "state op = ASKING_FOR_ALLOCATION" and done_: "doneReadingDescriptor op"
    and prev: "READING_PAYLOADS_AND_RECEIVING_TENSORS \<le> prev_state Read_FINISHED zs"
  shows "ok_result allowed (\<lambda>(op', c'). read_J K D (zs @ op'\<lparr>state := ASKING_FOR_ALLOCATION_FIRST_IN_LINE\<rparr> # ys) c')
    (run_actions [expectReadCall] op c)"
proof -
  note Jd = read_JD [OF J]
  have ok: "read_ok c op" using Jd(3) by simp
  have zs: "\<forall>z \<in> set zs. READING_PAYLOADS_AND_RECEIVING_TENSORS \<le> state z"
    using read_prev_all [OF Jd(2) _ prev] by simp
  have nf: "state x \<noteq> ASKING_FOR_ALLOCATION_FIRST_IN_LINE" if "x \<in> set zs \<union> set ys" for x
    using that zs read_later(2) [OF Jd(2), of x] st by (auto simp: pipe_state_order)
  have none: "nextMessageGettingAllocation c = None"
    using Jd(9) nf st by (cases "nextMessageGettingAllocation c") auto
  let ?c = "c\<lparr>nextMessageGettingAllocation := Some (sequenceNumber op)\<rparr>"
  let ?op = "op\<lparr>state := ASKING_FOR_ALLOCATION_FIRST_IN_LINE\<rparr>"
  have nd: "\<not> doneGettingAllocation op" using ok st by (auto simp: read_ok_def pipe_state_order)
  have "read_J K D (zs @ ?op # ys) ?c"
  proof (rule read_J_replace [OF J])
    show "read_ok ?c ?op" using ok st done_ by (auto simp: read_ok_def pipe_state_order)
    show "\<forall>z \<in> set zs. read_rel z ?op" using zs by (auto simp: read_rel_def pipe_state_order)
    show "core_ok ?c" using Jd(4) by (simp add: core_ok_def)
    show "owes_r ?op + paid_r ?c = owes_r op + paid_r c" by (simp add: owes_r_def)
    show "pend_r ?op + issued_r c = pend_r op + issued_r ?c" using st by (simp add: pend_r_def)
    show "nextMessageGettingAllocation ?c = Some sn \<longleftrightarrow>
        (\<exists>x \<in> set (zs @ ?op # ys). sequenceNumber x = sn \<and> state x = ASKING_FOR_ALLOCATION_FIRST_IN_LINE \<and>
           \<not> doneGettingAllocation x)" for sn
      using nf nd by auto
    show "connectionState ?c = AWAITING_PAYLOADS \<longleftrightarrow>
         (\<exists>x \<in> set (zs @ ?op # ys). READING_DESCRIPTOR \<le> state x \<and> state x < READING_PAYLOADS_AND_RECEIVING_TENSORS)"
      if "\<not> is_error (p_error c)"
      using read_frames(2) [OF J, of ?op] that st by (simp add: pipe_state_order)
  qed (use st zs in \<open>auto simp: pipe_state_order\<close>)
  then show ?thesis using none by (simp add: expectReadCall_def)
qed

text \<open>Calling the read callback, with or without an error.\<close>

lemma read_step_callback:
  assumes J: "read_J K D (zs @ op # ys) c" and st: "state op = ASKING_FOR_ALLOCATION_FIRST_IN_LINE \<and> is_error (p_error c) \<or>
      state op = READING_PAYLOADS_AND_RECEIVING_TENSORS \<and> numPayloadsBeingRead op = 0 \<and> numTensorsBeingReceived op = 0"
    and da: "doneGettingAllocation op" and prev: "Read_FINISHED \<le> prev_state Read_FINISHED zs"
  shows "ok_result allowed (\<lambda>(op', c'). read_J K D (zs @ op'\<lparr>state := Read_FINISHED\<rparr> # ys) c')
    (run_actions [callReadCallback] op c)"
proof -
  note Jd = read_JD [OF J]
  have ok: "read_ok c op" using Jd(3) by simp
  have lt: "state op < Read_FINISHED" using st by (auto simp: pipe_state_order)
  obtain cb where cb: "readCallback op = Some cb" using ok da lt by (auto simp: read_ok_def)
  have zs: "\<forall>z \<in> set zs. Read_FINISHED \<le> state z"
    using read_prev_all [OF Jd(2) _ prev] by simp
  have sn: "nextReadCallbackToCall c = sequenceNumber op"
    by (rule counter_here [OF Jd(1,6) zs lt]) (use read_later(3) [OF Jd(2) _ lt] in auto)
  let ?c = "plog [CallRead cb (p_error c)] (c\<lparr>nextReadCallbackToCall := nextReadCallbackToCall c + 1\<rparr>)"
  let ?op = "op\<lparr>readCallback := None, state := Read_FINISHED\<rparr>"
  have "read_J K D (zs @ ?op # ys) ?c"
  proof (rule read_J_replace [OF J])
    show "read_ok ?c ?op" using ok st da by (auto simp: read_ok_def pipe_state_order)
    show "\<forall>z \<in> set zs. read_rel z ?op" using zs by (auto simp: read_rel_def pipe_state_order)
    show "core_ok ?c" using Jd(4) by (simp add: core_ok_def)
    show "owes_r ?op + paid_r ?c = owes_r op + paid_r c" using cb by (simp add: owes_r_def)
    show "pend_r ?op + issued_r c = pend_r op + issued_r ?c" using st by (auto simp: pend_r_def)
    show "nextMessageGettingAllocation ?c = Some sn \<longleftrightarrow>
        (\<exists>x \<in> set (zs @ ?op # ys). sequenceNumber x = sn \<and> state x = ASKING_FOR_ALLOCATION_FIRST_IN_LINE \<and>
           \<not> doneGettingAllocation x)" for sn
      using read_frames(1) [OF J, of ?op sn] da by simp
    show "connectionState ?c = AWAITING_PAYLOADS \<longleftrightarrow>
         (\<exists>x \<in> set (zs @ ?op # ys). READING_DESCRIPTOR \<le> state x \<and> state x < READING_PAYLOADS_AND_RECEIVING_TENSORS)"
      if "\<not> is_error (p_error c)"
      using read_frames(2) [OF J, of ?op] that st by (auto simp: pipe_state_order)
  qed (use st zs in \<open>auto simp: pipe_state_order\<close>)
  then show ?thesis using cb sn by (simp add: callReadCallback_def)
qed

text \<open>
  Reading the payloads and receiving the tensors. The user's allocation may name a device that
  no channel serves: the pipe then throws.
\<close>

lemma checkAllocation_lengths:
  "checkAllocationCompatibility d a = Inr () \<Longrightarrow>
     length (a_payloads a) = length (d_payloads d) \<and> length (a_tensors a) = length (d_tensors d)"
  by (auto simp: checkAllocationCompatibility_def throw_assert_if_eq_Inr)

lemma reply_devices_total: "length ds = length bs \<Longrightarrow> \<exists>r. reply_devices ds bs = Inr r"
  by (induction ds bs rule: reply_devices.induct) auto

lemma read_step_payloads_J:
  assumes J: "read_J K D (zs @ op # ys) c" and st: "state op = ASKING_FOR_ALLOCATION_FIRST_IN_LINE"
    and ne: "\<not> is_error (p_error c)" and da: "doneGettingAllocation op"
    and es: "concat (map read_effect_callback es) = []"
      "mset (concat (map read_effect_token es)) =
         replicate_mset (length (a_payloads (r_allocation op))) (PayloadReadTok (sequenceNumber op)) +
         replicate_mset (length (a_tensors (r_allocation op))) (TensorRecvTok (sequenceNumber op))"
  shows "read_J K D (zs @ op\<lparr>numPayloadsBeingRead := of_nat (length (a_payloads (r_allocation op))),
        numTensorsBeingReceived := of_nat (length (a_tensors (r_allocation op))),
        state := READING_PAYLOADS_AND_RECEIVING_TENSORS\<rparr> # ys)
     (plog es (c\<lparr>connectionState := AWAITING_DESCRIPTOR,
        messageBeingReadFromConnection := messageBeingReadFromConnection c + 1\<rparr>))"
    (is "read_J K D (zs @ ?op # ys) ?c")
proof (rule read_J_replace [OF J])
  note Jd = read_JD [OF J]
  have ok: "read_ok c op" using Jd(3) by simp
  have zs: "\<forall>z \<in> set zs. READING_PAYLOADS_AND_RECEIVING_TENSORS \<le> state z"
    using Jd(2) st by (auto simp: sorted_wrt_append read_rel_def)
  have w: "\<forall>x \<in> set zs \<union> set ys. \<not> (READING_DESCRIPTOR \<le> state x \<and> state x < READING_PAYLOADS_AND_RECEIVING_TENSORS)"
    using read_window_empty(1) [OF J ne zs] st by (simp add: pipe_state_order)
  show "read_ok ?c ?op" using ok st da by (auto simp: read_ok_def pipe_state_order)
  show "\<forall>z \<in> set zs. read_rel z ?op" using zs by (auto simp: read_rel_def pipe_state_order)
  show "core_ok ?c" using Jd(4) by (simp add: core_ok_def)
  show "owes_r ?op + paid_r ?c = owes_r op + paid_r c" using es(1) by (simp add: owes_r_def)
  have "length (a_payloads (r_allocation op)) < 2 ^ 64" "length (a_tensors (r_allocation op)) < 2 ^ 64"
    "numPayloadsBeingRead op = 0" "numTensorsBeingReceived op = 0"
    using ok da st by (auto simp: read_ok_def)
  then show "pend_r ?op + issued_r c = pend_r op + issued_r ?c"
    using st es(2) by (simp add: pend_r_def unat_word_of_nat)
  show "nextMessageGettingAllocation ?c = Some sn \<longleftrightarrow>
      (\<exists>x \<in> set (zs @ ?op # ys). sequenceNumber x = sn \<and> state x = ASKING_FOR_ALLOCATION_FIRST_IN_LINE \<and>
         \<not> doneGettingAllocation x)" for sn
    using read_frames(1) [OF J, of ?op sn] da by simp
  show "connectionState ?c = AWAITING_PAYLOADS \<longleftrightarrow>
       (\<exists>x \<in> set (zs @ ?op # ys). READING_DESCRIPTOR \<le> state x \<and> state x < READING_PAYLOADS_AND_RECEIVING_TENSORS)"
    using w by auto
qed (use st in \<open>auto simp: pipe_state_order\<close>)

lemma read_step_payloads:
  assumes J: "read_J K D (zs @ op # ys) c" and st: "state op = ASKING_FOR_ALLOCATION_FIRST_IN_LINE"
    and ne: "\<not> is_error (p_error c)" and da: "doneGettingAllocation op"
  shows "\<not> r_hasMissingTargetDevices op \<Longrightarrow>
      ok_result (\<lambda>f. f = AssertFailed) (\<lambda>(op', c'). read_J K D (zs @ op'\<lparr>state := READING_PAYLOADS_AND_RECEIVING_TENSORS\<rparr> # ys) c')
        (run_actions [readPayloadsOfMessage, receiveTensorsOfMessage] op c)"
    "r_hasMissingTargetDevices op \<Longrightarrow>
      ok_result (\<lambda>f. f = AssertFailed) (\<lambda>(op', c'). read_J K D (zs @ op'\<lparr>state := READING_PAYLOADS_AND_RECEIVING_TENSORS\<rparr> # ys) c')
        (run_actions [readPayloadsOfMessage, writeDescriptorReplyOfMessage, receiveTensorsOfMessage] op c)"
proof -
  note Jd = read_JD [OF J]
  have ok: "read_ok c op" using Jd(3) by simp
  have zs: "\<forall>z \<in> set zs. READING_PAYLOADS_AND_RECEIVING_TENSORS \<le> state z"
    using Jd(2) st by (auto simp: sorted_wrt_append read_rel_def)
  have sn: "messageBeingReadFromConnection c = sequenceNumber op"
    using read_window_empty(2) [OF J ne zs] st by (simp add: pipe_state_order)
  have wire: "connectionState c = AWAITING_PAYLOADS" using Jd(8) [OF ne] st by (auto simp: pipe_state_order)
  have len: "length (a_payloads (r_allocation op)) = length (d_payloads (r_descriptor op))"
    "length (a_tensors (r_allocation op)) = length (d_tensors (r_descriptor op))"
    using ok da checkAllocation_lengths by (auto simp: read_ok_def)
  have est: "p_state c = ESTABLISHED" using ok st ne by (auto simp: read_ok_def)
  then obtain conn where conn: "p_descriptorReplyConnection c = Some conn" and
    ch: "snd ` set (p_channelForDevicePair c) \<subseteq> set (p_channels c)"
    using Jd(4) by (auto simp: core_ok_def)
  obtain reply where reply: "reply_devices (d_tensors (r_descriptor op)) (a_tensors (r_allocation op)) = Inr reply"
    using reply_devices_total len by metis
  have n0: "numPayloadsBeingRead op = 0" "numTensorsBeingReceived op = 0" using ok st by (auto simp: read_ok_def)
  note J' = read_step_payloads_J [OF J st ne da]
  note simps = readPayloadsOfMessage_def receiveTensorsOfMessage_def writeDescriptorReplyOfMessage_def
    makeDescriptorReplyForMessage_def read_payloads_eq receive_tensors_eq wire sn len reply conn ch n0
  let ?p = "payload_reads (p_descriptorConnection c) (sequenceNumber op) 0 (a_payloads (r_allocation op)) (d_payloads (r_descriptor op))"
  let ?t = "tensor_recvs (p_channelForDevicePair c) (sequenceNumber op) 0 (a_tensors (r_allocation op)) (d_tensors (r_descriptor op))"
  have silent: "concat (map read_effect_callback (?p @ ?t)) = []"
    "concat (map read_effect_callback (?p @ WriteDescriptorReply conn (sequenceNumber op) reply # ?t)) = []"
    unfolding map_append concat_append by simp_all
  have tok: "mset (concat (map read_effect_token (?p @ ?t))) =
       replicate_mset (length (a_payloads (r_allocation op))) (PayloadReadTok (sequenceNumber op)) +
       replicate_mset (length (a_tensors (r_allocation op))) (TensorRecvTok (sequenceNumber op))"
    "mset (concat (map read_effect_token (?p @ WriteDescriptorReply conn (sequenceNumber op) reply # ?t))) =
       replicate_mset (length (a_payloads (r_allocation op))) (PayloadReadTok (sequenceNumber op)) +
       replicate_mset (length (a_tensors (r_allocation op))) (TensorRecvTok (sequenceNumber op))"
    unfolding map_append concat_append by (simp_all add: transfer_tokens len)
  have upd: "(plog es c)\<lparr>connectionState := s, messageBeingReadFromConnection := n\<rparr> =
      plog es (c\<lparr>connectionState := s, messageBeingReadFromConnection := n\<rparr>)" for es s n
    by (simp add: plog_def)
  show "ok_result (\<lambda>f. f = AssertFailed) (\<lambda>(op', c'). read_J K D (zs @ op'\<lparr>state := READING_PAYLOADS_AND_RECEIVING_TENSORS\<rparr> # ys) c')
        (run_actions [readPayloadsOfMessage, receiveTensorsOfMessage] op c)"
    if "\<not> r_hasMissingTargetDevices op"
    using J' [OF silent(1) tok(1)] by (simp add: simps upd)
  show "ok_result (\<lambda>f. f = AssertFailed) (\<lambda>(op', c'). read_J K D (zs @ op'\<lparr>state := READING_PAYLOADS_AND_RECEIVING_TENSORS\<rparr> # ys) c')
        (run_actions [readPayloadsOfMessage, writeDescriptorReplyOfMessage, receiveTensorsOfMessage] op c)"
    if "r_hasMissingTargetDevices op"
    using J' [OF silent(2) tok(2)] that by (simp add: simps upd)
qed

section \<open>Write operations\<close>

definition write_rel :: "write_op \<Rightarrow> write_op \<Rightarrow> bool" where
  "write_rel a b \<longleftrightarrow> state b \<le> state a"

definition write_ok :: "pipe_core \<Rightarrow> write_op \<Rightarrow> bool" where
  "write_ok c op \<longleftrightarrow>
     (writeCallback op \<noteq> None \<longleftrightarrow> state op \<noteq> Write_FINISHED) \<and>
     length (m_tensors (w_message op)) = length (w_tensors op) \<and>
     length (m_payloads (w_message op)) < 2 ^ 64 \<and> length (w_tensors op) < 2 ^ 64 \<and>
     (state op \<noteq> WRITING_PAYLOADS_AND_SENDING_TENSORS \<longrightarrow> numTensorsBeingSent op = 0) \<and>
     (state op \<in> {Write_UNINITIALIZED, Write_FINISHED} \<longrightarrow> numPayloadsBeingWritten op = 0) \<and>
     (w_hasMissingTargetDevices op \<longleftrightarrow> missingTargetDevices (w_message op)) \<and>
     (state op = WRITING_PAYLOADS_AND_READING_TARGET_DEVICES \<longrightarrow> w_hasMissingTargetDevices op) \<and>
     (doneReadingDescriptorReply op \<longrightarrow> state op \<noteq> Write_UNINITIALIZED) \<and>
     (\<not> doneReadingDescriptorReply op \<longrightarrow> w_tensors op = tensorsBeingSent (w_message op)) \<and>
     (doneReadingDescriptorReply op \<and> \<not> is_error (p_error c) \<longrightarrow> (\<forall>t \<in> set (w_tensors op). wt_targetDevice t \<noteq> None)) \<and>
     (state op \<noteq> Write_UNINITIALIZED \<and> \<not> is_error (p_error c) \<longrightarrow> p_state c = ESTABLISHED)"

definition write_J :: "pipe_callback multiset \<Rightarrow> pipe_token multiset \<Rightarrow> write_op list \<Rightarrow> pipe_core \<Rightarrow> bool" where
  "write_J K D ops c \<longleftrightarrow>
     numbered (nextMessageBeingWritten c) ops \<and> sorted_wrt write_rel ops \<and> list_all (write_ok c) ops \<and> core_ok c \<and>
     nextWriteCallbackToCall c + below Write_FINISHED ops = nextMessageBeingWritten c \<and>
     sum_list (map owes_w ops) + paid_w c = K \<and>
     sum_list (map pend_w ops) + D = issued_w c"

lemma write_JD:
  assumes "write_J K D ops c"
  shows "numbered (nextMessageBeingWritten c) ops" "sorted_wrt write_rel ops" "list_all (write_ok c) ops" "core_ok c"
    "nextWriteCallbackToCall c + below Write_FINISHED ops = nextMessageBeingWritten c"
    "sum_list (map owes_w ops) + paid_w c = K" "sum_list (map pend_w ops) + D = issued_w c"
  using assms unfolding write_J_def by blast+

lemma write_ok_cong: "p_error c' = p_error c \<Longrightarrow> p_state c' = p_state c \<Longrightarrow> write_ok c' = write_ok c"
  by (simp add: fun_eq_iff write_ok_def)

lemma write_prev_all:
  assumes "sorted_wrt write_rel (zs @ ys)" and "r \<le> prev_state Write_FINISHED zs"
  shows "\<forall>z \<in> set zs. r \<le> state z"
  using assms
  by (cases zs rule: rev_cases) (auto simp: sorted_wrt_append write_rel_def prev_state_def intro: order_trans)

lemma write_J_replace:
  assumes J: "write_J K D (zs @ op # ys) c"
    and op': "sequenceNumber op' = sequenceNumber op" "state op \<le> state op'" "state op' \<le> prev_state Write_FINISHED zs"
      "write_ok c' op'" "owes_w op' + paid_w c' = owes_w op + paid_w c" "pend_w op' + issued_w c = pend_w op + issued_w c'"
    and c': "p_error c' = p_error c" "p_state c' = p_state c" "core_ok c'" "nextMessageBeingWritten c' = nextMessageBeingWritten c"
    and counter: "nextWriteCallbackToCall c' + below Write_FINISHED [op'] = nextWriteCallbackToCall c + below Write_FINISHED [op]"
  shows "write_J K D (zs @ op' # ys) c'"
proof -
  note Jd = write_JD [OF J]
  have n: "numbered (nextMessageBeingWritten c') (zs @ op' # ys)"
    using Jd(1) op'(1) c'(4) numbered_cong [of "zs @ op' # ys" "zs @ op # ys"] by simp
  have s: "sorted_wrt write_rel (zs @ op' # ys)"
    using Jd(2) op'(2) write_prev_all [OF Jd(2) op'(3)]
    by (auto simp: sorted_wrt_append write_rel_def intro: order_trans)
  have ok: "list_all (write_ok c') (zs @ op' # ys)"
    using Jd(3) op'(4) write_ok_cong [OF c'(1,2)] by simp
  have "sum_list (map owes_w (zs @ op' # ys)) + paid_w c' =
      sum_list (map owes_w zs) + sum_list (map owes_w ys) + (owes_w op' + paid_w c')"
    by (simp add: ac_simps)
  also have "\<dots> = K" using Jd(6) unfolding op'(5) by (simp add: ac_simps)
  finally have acc: "sum_list (map owes_w (zs @ op' # ys)) + paid_w c' = K" .
  have "sum_list (map pend_w (zs @ op' # ys)) + D + issued_w c =
      sum_list (map pend_w zs) + sum_list (map pend_w ys) + D + (pend_w op' + issued_w c)"
    by (simp add: ac_simps)
  also have "\<dots> = sum_list (map pend_w (zs @ op # ys)) + D + issued_w c'"
    unfolding op'(6) by (simp add: ac_simps)
  finally have pend: "sum_list (map pend_w (zs @ op' # ys)) + D = issued_w c'"
    unfolding Jd(7) by (simp add: ac_simps)
  have k: "nextWriteCallbackToCall c' + below Write_FINISHED (zs @ op' # ys) = nextMessageBeingWritten c'"
    using Jd(5) counter c'(4) by (simp split: if_splits)
  show ?thesis
    unfolding write_J_def by (intro conjI n s ok c'(3) k acc pend)
qed

text \<open>Calling the write callback.\<close>

lemma write_step_callback:
  assumes J: "write_J K D (zs @ op # ys) c" and st: "state op \<noteq> Write_FINISHED"
    and idle: "numPayloadsBeingWritten op = 0" "numTensorsBeingSent op = 0"
      "state op = WRITING_PAYLOADS_AND_READING_TARGET_DEVICES \<Longrightarrow> doneReadingDescriptorReply op"
    and live: "state op = Write_UNINITIALIZED \<Longrightarrow> is_error (p_error c)"
    and prev: "Write_FINISHED \<le> prev_state Write_FINISHED zs"
  shows "ok_result allowed (\<lambda>(op', c'). write_J K D (zs @ op'\<lparr>state := Write_FINISHED\<rparr> # ys) c')
    (run_actions [callWriteCallback] op c)"
proof -
  note Jd = write_JD [OF J]
  have ok: "write_ok c op" using Jd(3) by simp
  have lt: "state op < Write_FINISHED" using st by (cases "state op") (auto simp: pipe_state_order)
  obtain cb where cb: "writeCallback op = Some cb" using ok st by (auto simp: write_ok_def)
  have zs: "\<forall>z \<in> set zs. Write_FINISHED \<le> state z" by (rule write_prev_all [OF Jd(2) prev])
  have sn: "nextWriteCallbackToCall c = sequenceNumber op"
    by (rule counter_here [OF Jd(1,5) zs lt])
      (use Jd(2) lt in \<open>auto simp: sorted_wrt_append write_rel_def intro: le_less_trans\<close>)
  let ?c = "plog [CallWrite cb (p_error c)] (c\<lparr>nextWriteCallbackToCall := nextWriteCallbackToCall c + 1\<rparr>)"
  let ?op = "op\<lparr>writeCallback := None, state := Write_FINISHED\<rparr>"
  have "write_J K D (zs @ ?op # ys) ?c"
  proof (rule write_J_replace [OF J])
    show "write_ok ?c ?op" using ok st idle live by (auto simp: write_ok_def pipe_state_order)
    show "core_ok ?c" using Jd(4) by (simp add: core_ok_def)
    show "owes_w ?op + paid_w ?c = owes_w op + paid_w c" using cb by (simp add: owes_w_def)
    show "pend_w ?op + issued_w c = pend_w op + issued_w ?c" using idle by (auto simp: pend_w_def)
  qed (use lt prev in auto)
  then show ?thesis using cb sn by (simp add: callWriteCallback_def)
qed

text \<open>Starting an operation whose target devices are known, or not.\<close>

lemma send_devices:
  assumes ok: "write_ok c op" and ne: "\<not> is_error (p_error c)"
    and known: "\<not> w_hasMissingTargetDevices op \<or> doneReadingDescriptorReply op"
  shows "\<forall>t \<in> set (w_tensors op). wt_targetDevice t \<noteq> None"
proof (cases "doneReadingDescriptorReply op")
  case True
  then show ?thesis using ok ne unfolding write_ok_def by blast
next
  case False
  then have "\<not> missingTargetDevices (w_message op)" "w_tensors op = tensorsBeingSent (w_message op)"
    using ok known unfolding write_ok_def by blast+
  then show ?thesis by (auto simp: tensorsBeingSent_def tensor_being_sent_def missingTargetDevices_def list_ex_iff)
qed

lemma write_step_send:
  assumes J: "write_J K D (zs @ op # ys) c" and st: "state op = Write_UNINITIALIZED" and ne: "\<not> is_error (p_error c)"
    and est: "p_state c = ESTABLISHED" and nm: "\<not> w_hasMissingTargetDevices op"
    and prev: "WRITING_PAYLOADS_AND_SENDING_TENSORS \<le> prev_state Write_FINISHED zs"
  shows "ok_result (\<lambda>f. f = AssertFailed) (\<lambda>(op', c'). write_J K D (zs @ op'\<lparr>state := WRITING_PAYLOADS_AND_SENDING_TENSORS\<rparr> # ys) c')
    (run_actions [writeDescriptorOfMessage, writePayloadsOfMessage, sendTensorsOfMessage] op c)"
proof -
  note Jd = write_JD [OF J]
  have ok: "write_ok c op" using Jd(3) by simp
  have len: "length (m_tensors (w_message op)) = length (w_tensors op)" "length (m_payloads (w_message op)) < 2 ^ 64"
    "length (w_tensors op) < 2 ^ 64" "numPayloadsBeingWritten op = 0" "numTensorsBeingSent op = 0"
    using ok st by (auto simp: write_ok_def)
  have ch: "snd ` set (p_channelForDevicePair c) \<subseteq> set (p_channels c)" using Jd(4) est by (auto simp: core_ok_def)
  note dev = send_devices [OF ok ne disjI1 [OF nm]]
  obtain d where d: "makeDescriptorForMessage (w_message op) (w_tensors op) = Inr d"
    using len by (simp add: makeDescriptorForMessage_def)
  let ?p = "payload_writes (p_descriptorConnection c) (sequenceNumber op) 0 (m_payloads (w_message op))"
  let ?t = "tensor_sends (p_channelForDevicePair c) (sequenceNumber op) 0 (m_tensors (w_message op)) (w_tensors op)"
  let ?c = "plog (WriteDescriptor (p_descriptorConnection c) (sequenceNumber op) d # ?p @ ?t) c"
  let ?op = "op\<lparr>numPayloadsBeingWritten := of_nat (length (m_payloads (w_message op))),
    numTensorsBeingSent := of_nat (length (w_tensors op)), state := WRITING_PAYLOADS_AND_SENDING_TENSORS\<rparr>"
  have "write_J K D (zs @ ?op # ys) ?c"
  proof (rule write_J_replace [OF J])
    show "write_ok ?c ?op" using ok st est by (auto simp: write_ok_def)
    show "core_ok ?c" using Jd(4) by (simp add: core_ok_def)
    show "owes_w ?op + paid_w ?c = owes_w op + paid_w c" by (simp add: owes_w_def)
    show "pend_w ?op + issued_w c = pend_w op + issued_w ?c"
      using len st by (simp add: pend_w_def unat_word_of_nat transfer_tokens)
  qed (use st prev in \<open>auto simp: pipe_state_order\<close>)
  then show ?thesis
    using len ch dev d
    by (simp add: writeDescriptorOfMessage_def writePayloadsOfMessage_def write_payloads_eq
      sendTensorsOfMessage_def send_tensors_eq)
qed

lemma write_step_ask:
  assumes J: "write_J K D (zs @ op # ys) c" and st: "state op = Write_UNINITIALIZED" and ne: "\<not> is_error (p_error c)"
    and est: "p_state c = ESTABLISHED" and nm: "w_hasMissingTargetDevices op"
    and prev: "WRITING_PAYLOADS_AND_READING_TARGET_DEVICES \<le> prev_state Write_FINISHED zs"
  shows "ok_result allowed (\<lambda>(op', c'). write_J K D (zs @ op'\<lparr>state := WRITING_PAYLOADS_AND_READING_TARGET_DEVICES\<rparr> # ys) c')
    (run_actions [writeDescriptorOfMessage, writePayloadsOfMessage, readDescriptorReplyOfMessage] op c)"
proof -
  note Jd = write_JD [OF J]
  have ok: "write_ok c op" using Jd(3) by simp
  have len: "length (m_tensors (w_message op)) = length (w_tensors op)" "length (m_payloads (w_message op)) < 2 ^ 64"
    "numPayloadsBeingWritten op = 0" "numTensorsBeingSent op = 0" "\<not> doneReadingDescriptorReply op"
    using ok st by (auto simp: write_ok_def)
  obtain conn where conn: "p_descriptorReplyConnection c = Some conn" using Jd(4) est by (auto simp: core_ok_def)
  obtain d where d: "makeDescriptorForMessage (w_message op) (w_tensors op) = Inr d"
    using len by (simp add: makeDescriptorForMessage_def)
  let ?p = "payload_writes (p_descriptorConnection c) (sequenceNumber op) 0 (m_payloads (w_message op))"
  let ?c = "plog (WriteDescriptor (p_descriptorConnection c) (sequenceNumber op) d # ?p @ [ReadDescriptorReply conn (sequenceNumber op)]) c"
  let ?op = "op\<lparr>numPayloadsBeingWritten := of_nat (length (m_payloads (w_message op))),
    state := WRITING_PAYLOADS_AND_READING_TARGET_DEVICES\<rparr>"
  have "write_J K D (zs @ ?op # ys) ?c"
  proof (rule write_J_replace [OF J])
    show "write_ok ?c ?op" using ok st est nm by (auto simp: write_ok_def)
    show "core_ok ?c" using Jd(4) by (simp add: core_ok_def)
    show "owes_w ?op + paid_w ?c = owes_w op + paid_w c" by (simp add: owes_w_def)
    show "pend_w ?op + issued_w c = pend_w op + issued_w ?c"
      using len st by (simp add: pend_w_def unat_word_of_nat transfer_tokens)
  qed (use st prev in \<open>auto simp: pipe_state_order\<close>)
  then show ?thesis
    using len nm d conn
    by (simp add: writeDescriptorOfMessage_def writePayloadsOfMessage_def write_payloads_eq readDescriptorReplyOfMessage_def)
qed

lemma write_step_send_after:
  assumes J: "write_J K D (zs @ op # ys) c" and st: "state op = WRITING_PAYLOADS_AND_READING_TARGET_DEVICES"
    and ne: "\<not> is_error (p_error c)" and done_: "doneReadingDescriptorReply op"
    and prev: "WRITING_PAYLOADS_AND_SENDING_TENSORS \<le> prev_state Write_FINISHED zs"
  shows "ok_result (\<lambda>f. f = AssertFailed) (\<lambda>(op', c'). write_J K D (zs @ op'\<lparr>state := WRITING_PAYLOADS_AND_SENDING_TENSORS\<rparr> # ys) c')
    (run_actions [sendTensorsOfMessage] op c)"
proof -
  note Jd = write_JD [OF J]
  have ok: "write_ok c op" using Jd(3) by simp
  have len: "length (m_tensors (w_message op)) = length (w_tensors op)"
    "length (w_tensors op) < 2 ^ 64" "numTensorsBeingSent op = 0" "p_state c = ESTABLISHED"
    using ok st ne by (auto simp: write_ok_def)
  have ch: "snd ` set (p_channelForDevicePair c) \<subseteq> set (p_channels c)" using Jd(4) len(4) by (auto simp: core_ok_def)
  have dev: "\<forall>t \<in> set (w_tensors op). wt_targetDevice t \<noteq> None" using send_devices [OF ok ne] done_ by simp
  let ?t = "tensor_sends (p_channelForDevicePair c) (sequenceNumber op) 0 (m_tensors (w_message op)) (w_tensors op)"
  let ?c = "plog ?t c"
  let ?op = "op\<lparr>numTensorsBeingSent := of_nat (length (w_tensors op)), state := WRITING_PAYLOADS_AND_SENDING_TENSORS\<rparr>"
  have "write_J K D (zs @ ?op # ys) ?c"
  proof (rule write_J_replace [OF J])
    show "write_ok ?c ?op" using ok st by (auto simp: write_ok_def)
    show "core_ok ?c" using Jd(4) by (simp add: core_ok_def)
    show "owes_w ?op + paid_w ?c = owes_w op + paid_w c" by (simp add: owes_w_def)
    show "pend_w ?op + issued_w c = pend_w op + issued_w ?c"
      using len done_ by (simp add: pend_w_def unat_word_of_nat transfer_tokens)
  qed (use st prev in \<open>auto simp: pipe_state_order\<close>)
  then show ?thesis using len ch dev by (simp add: sendTensorsOfMessage_def send_tensors_eq)
qed

section \<open>The two machines\<close>

definition pipe_view :: "pipe_core \<Rightarrow> tp_error \<times> bool" where
  "pipe_view c = (p_error c, p_state c = ESTABLISHED)"

definition frame_r :: "pipe_core \<Rightarrow> pipe_core \<times> pipe_callback multiset \<times> pipe_token multiset \<times> pipe_token multiset" where
  "frame_r c = (c\<lparr>nextReadDescriptorCallbackToCall := 0, nextReadCallbackToCall := 0,
     connectionState := AWAITING_DESCRIPTOR, messageBeingReadFromConnection := 0,
     nextMessageGettingAllocation := None, p_log := []\<rparr>, paid_w c, issued_w c, issued_h c)"

definition frame_w :: "pipe_core \<Rightarrow> pipe_core \<times> pipe_callback multiset \<times> pipe_token multiset \<times> pipe_token multiset" where
  "frame_w c = (c\<lparr>nextWriteCallbackToCall := 0, p_log := []\<rparr>, paid_r c, issued_r c, issued_h c)"

lemma frame_plog:
  "concat (map write_effect_callback es) = [] \<Longrightarrow> concat (map write_effect_token es) = [] \<Longrightarrow>
   concat (map shake_effect_token es) = [] \<Longrightarrow> frame_r (plog es c) = frame_r c"
  "concat (map read_effect_callback es) = [] \<Longrightarrow> concat (map read_effect_token es) = [] \<Longrightarrow>
   concat (map shake_effect_token es) = [] \<Longrightarrow> frame_w (plog es c) = frame_w c"
  unfolding frame_r_def frame_w_def plog_simps by (simp_all add: plog_def)

lemma read_payloads_frame:
  "read_payloads i as ds op c = Inr (op', c') \<Longrightarrow>
     sequenceNumber op' = sequenceNumber op \<and> state op' = state op \<and> frame_r c' = frame_r c"
  by (induction i as ds op c rule: read_payloads.induct) (auto simp: frame_plog)

lemma receive_tensors_frame:
  "receive_tensors i bs ds op c = Inr (op', c') \<Longrightarrow>
     sequenceNumber op' = sequenceNumber op \<and> state op' = state op \<and> frame_r c' = frame_r c"
  by (induction i bs ds op c rule: receive_tensors.induct) (auto simp: frame_plog split: option.splits if_splits)

lemma send_tensors_frame:
  "send_tensors i ms ts op c = Inr (op', c') \<Longrightarrow>
     sequenceNumber op' = sequenceNumber op \<and> state op' = state op \<and> frame_w c' = frame_w c"
  by (induction i ms ts op c rule: send_tensors.induct) (auto simp: frame_plog split: option.splits if_splits)

lemma frame_r_updates [simp]:
  "frame_r (c\<lparr>nextReadDescriptorCallbackToCall := n\<rparr>) = frame_r c" "frame_r (c\<lparr>nextReadCallbackToCall := n\<rparr>) = frame_r c"
  "frame_r (c\<lparr>connectionState := s\<rparr>) = frame_r c" "frame_r (c\<lparr>messageBeingReadFromConnection := n\<rparr>) = frame_r c"
  "frame_r (c\<lparr>nextMessageGettingAllocation := a\<rparr>) = frame_r c" "frame_w (c\<lparr>nextWriteCallbackToCall := n\<rparr>) = frame_w c"
  by (simp_all add: frame_r_def frame_w_def)

lemma read_action_frame:
  assumes "a \<in> {callReadDescriptorCallback, readDescriptorOfMessage, expectReadCall, callReadCallback,
      readPayloadsOfMessage, receiveTensorsOfMessage, writeDescriptorReplyOfMessage}"
    and "a op c = Inr (op', c')"
  shows "sequenceNumber op' = sequenceNumber op \<and> state op' = state op \<and> frame_r c' = frame_r c"
  using assms
  by (auto simp: callReadDescriptorCallback_def readDescriptorOfMessage_def expectReadCall_def callReadCallback_def
      readPayloadsOfMessage_def receiveTensorsOfMessage_def writeDescriptorReplyOfMessage_def result_eq_Inr frame_plog
      split: option.splits dest!: read_payloads_frame receive_tensors_frame)

lemma write_action_frame:
  assumes "a \<in> {callWriteCallback, writeDescriptorOfMessage, writePayloadsOfMessage, readDescriptorReplyOfMessage, sendTensorsOfMessage}"
    and "a op c = Inr (op', c')"
  shows "sequenceNumber op' = sequenceNumber op \<and> state op' = state op \<and> frame_w c' = frame_w c"
  using assms
  by (auto simp: callWriteCallback_def writeDescriptorOfMessage_def writePayloadsOfMessage_def
      readDescriptorReplyOfMessage_def sendTensorsOfMessage_def write_payloads_eq result_eq_Inr frame_plog
      split: option.splits dest!: send_tensors_frame)

lemma frame_view:
  "frame_r c = frame_r c' \<Longrightarrow> pipe_view c = pipe_view c'" "frame_w c = frame_w c' \<Longrightarrow> pipe_view c = pipe_view c'"
  unfolding frame_r_def frame_w_def pipe_view_def by (cases c; cases c'; simp)+

lemma read_J_pop: "read_J K D (op # ops) c \<Longrightarrow> state op = Read_FINISHED \<Longrightarrow> read_J K D ops c"
  unfolding read_J_def
  by (auto simp: read_ok_def owes_r_def pend_r_def pipe_state_order dest: numbered_tl)

lemma write_J_pop: "write_J K D (op # ops) c \<Longrightarrow> state op = Write_FINISHED \<Longrightarrow> write_J K D ops c"
  unfolding write_J_def
  by (auto simp: write_ok_def owes_w_def pend_w_def pipe_state_order dest: numbered_tl)

text \<open>Only the user can make a pipe throw: by naming a device that no channel serves.\<close>

definition user_fault :: "fault \<Rightarrow> bool" where
  "user_fault f \<longleftrightarrow> f = AssertFailed"

lemma read_table_frame:
  assumes "t \<in> set advanceReadOperation" and "a \<in> set (tactions t)" and "a op c = Inr (op', c')"
  shows "sequenceNumber op' = sequenceNumber op \<and> state op' = state op \<and> frame_r c' = frame_r c"
  by (rule read_action_frame [of a, OF _ assms(3)]) (use assms(1,2) in \<open>auto simp: advanceReadOperation_def\<close>)

lemma write_table_frame:
  assumes "t \<in> set advanceWriteOperation" and "a \<in> set (tactions t)" and "a op c = Inr (op', c')"
  shows "sequenceNumber op' = sequenceNumber op \<and> state op' = state op \<and> frame_w c' = frame_w c"
  by (rule write_action_frame [of a, OF _ assms(3)]) (use assms(1,2) in \<open>auto simp: advanceWriteOperation_def\<close>)

lemma read_J_step:
  assumes t: "t \<in> set advanceReadOperation" and J: "read_J K D (zs @ op # ys) c" and st: "state op = tfrom t"
    and cond: "tcond t op (prev_state Read_FINISHED zs) c"
  shows "ok_result user_fault (\<lambda>(op', c'). read_J K D (zs @ op'\<lparr>state := tto t\<rparr> # ys) c') (run_actions (tactions t) op c)"
proof -
  have ok: "read_ok c op" using read_JD(3) [OF J] by simp
  note user_fault_def [abs_def, simp]
  from t show ?thesis
    unfolding advanceReadOperation_def list.set insert_iff empty_iff
  proof (elim disjE FalseE, goal_cases)
    case 1
    show ?case using st cond unfolding 1 transition.sel
      by (intro read_step_descriptor_callback [OF J]) (auto simp: pipe_state_order)
  next
    case 2
    show ?case using st cond unfolding 2 transition.sel by (intro read_step_descriptor [OF J]) auto
  next
    case 3
    show ?case using st cond unfolding 3 transition.sel
      by (intro read_step_descriptor_callback [OF J]) (auto simp: pipe_state_order)
  next
    case 4
    show ?case using st cond unfolding 4 transition.sel by (intro read_step_expect [OF J]) auto
  next
    case 5
    show ?case using st cond unfolding 5 transition.sel by (intro read_step_callback [OF J]) auto
  next
    case 6
    show ?case using st cond unfolding 6 transition.sel user_fault_def [abs_def] by (intro read_step_payloads(1) [OF J]) auto
  next
    case 7
    show ?case using st cond unfolding 7 transition.sel user_fault_def [abs_def] by (intro read_step_payloads(2) [OF J]) auto
  next
    case 8
    show ?case using st cond ok unfolding 8 transition.sel
      by (intro read_step_callback [OF J]) (auto simp: read_ok_def)
  qed
qed

lemma write_J_step:
  assumes t: "t \<in> set advanceWriteOperation" and J: "write_J K D (zs @ op # ys) c" and st: "state op = tfrom t"
    and cond: "tcond t op (prev_state Write_FINISHED zs) c"
  shows "ok_result user_fault (\<lambda>(op', c'). write_J K D (zs @ op'\<lparr>state := tto t\<rparr> # ys) c') (run_actions (tactions t) op c)"
proof -
  have ok: "write_ok c op" using write_JD(3) [OF J] by simp
  have idle: "state op \<noteq> WRITING_PAYLOADS_AND_SENDING_TENSORS \<Longrightarrow> numTensorsBeingSent op = 0"
    "state op = Write_UNINITIALIZED \<Longrightarrow> numPayloadsBeingWritten op = 0"
    using ok unfolding write_ok_def by blast+
  from t show ?thesis
    unfolding advanceWriteOperation_def list.set insert_iff empty_iff
  proof (elim disjE FalseE, goal_cases)
    case 1
    show ?case using st cond idle unfolding 1 transition.sel by (intro write_step_callback [OF J]) auto
  next
    case 2
    show ?case using st cond unfolding 2 transition.sel user_fault_def [abs_def] by (intro write_step_send [OF J]) auto
  next
    case 3
    show ?case using st cond unfolding 3 transition.sel by (intro write_step_ask [OF J]) auto
  next
    case 4
    show ?case using st cond idle unfolding 4 transition.sel by (intro write_step_callback [OF J]) auto
  next
    case 5
    show ?case using st cond unfolding 5 transition.sel user_fault_def [abs_def] by (intro write_step_send_after [OF J]) auto
  next
    case 6
    show ?case using st cond unfolding 6 transition.sel by (intro write_step_callback [OF J]) auto
  qed
qed

lemma read_J_order:
  "read_J K D (op # ops) c \<Longrightarrow> state op \<noteq> Read_FINISHED \<Longrightarrow> op' \<in> set ops \<Longrightarrow> state op' \<noteq> Read_FINISHED"
  using read_JD(2) [of K D "op # ops" c] by (cases "state op") (auto simp: read_rel_def pipe_state_order)

lemma write_J_order:
  "write_J K D (op # ops) c \<Longrightarrow> state op \<noteq> Write_FINISHED \<Longrightarrow> op' \<in> set ops \<Longrightarrow> state op' \<noteq> Write_FINISHED"
  using write_JD(2) [of K D "op # ops" c] by (cases "state op") (auto simp: write_rel_def pipe_state_order)

lemma pipe_finished_top: "s \<le> Read_FINISHED" "w \<le> Write_FINISHED"
  by (cases s; simp add: pipe_state_order) (cases w; simp add: pipe_state_order)

interpretation rd: deque_machine Read_FINISHED advanceReadOperation pipe_view frame_r "read_J K D" user_fault
  for K D
proof (unfold_locales, goal_cases)
  case 1 show ?case by (rule pipe_finished_top)
next
  case 2 then show ?case by (auto simp: advanceReadOperation_def pipe_state_order)
next
  case 3 show ?case by (simp add: advanceReadOperation_def)
next
  case 4 then show ?case by (rule read_table_frame)
next
  case 5 then show ?case by (rule frame_view)
next
  case 6 then show ?case by (auto simp: advanceReadOperation_def pipe_view_def)
next
  case 7 then show ?case using numbered_ok by (auto dest: read_JD(1))
next
  case 8 then show ?case by (rule read_J_order)
next
  case 9 then show ?case by (rule read_J_pop)
next
  case 10 then show ?case by (rule read_J_step)
qed

interpretation wr: deque_machine Write_FINISHED advanceWriteOperation pipe_view frame_w "write_J K D" user_fault
  for K D
proof (unfold_locales, goal_cases)
  case 1 show ?case by (rule pipe_finished_top)
next
  case 2 then show ?case by (auto simp: advanceWriteOperation_def pipe_state_order)
next
  case 3 show ?case by (simp add: advanceWriteOperation_def)
next
  case 4 then show ?case by (rule write_table_frame)
next
  case 5 then show ?case by (rule frame_view)
next
  case 6 then show ?case by (auto simp: advanceWriteOperation_def pipe_view_def)
next
  case 7 then show ?case using numbered_ok by (auto dest: write_JD(1))
next
  case 8 then show ?case by (rule write_J_order)
next
  case 9 then show ?case by (rule write_J_pop)
next
  case 10 then show ?case by (rule write_J_step)
qed

section \<open>After an error\<close>

text \<open>Once there is an error the machines only call callbacks, and nothing they do can throw.\<close>

lemma read_error_action:
  assumes "t \<in> set advanceReadOperation" and "tcond t op prev c" and "is_error (p_error c)"
    and "run_actions (tactions t) op c = Inr (op', c')"
  shows "issued_r c' = issued_r c"
  using assms
  by (auto simp: advanceReadOperation_def result_eq_Inr callReadDescriptorCallback_def expectReadCall_def callReadCallback_def split: option.splits)

lemma read_J_step_error:
  assumes t: "t \<in> set advanceReadOperation" and J: "read_J K D (zs @ op # ys) c" and e: "is_error (p_error c)"
    and st: "state op = tfrom t" and cond: "tcond t op (prev_state Read_FINISHED zs) c"
  shows "ok_result (\<lambda>_. False) (\<lambda>(op', c'). read_J K D (zs @ op'\<lparr>state := tto t\<rparr> # ys) c' \<and> is_error (p_error c') \<and> issued_r c' = issued_r c)
    (run_actions (tactions t) op c)"
proof -
  have ok: "read_ok c op" using read_JD(3) [OF J] by simp
  have "ok_result (\<lambda>_. False) (\<lambda>(op', c'). read_J K D (zs @ op'\<lparr>state := tto t\<rparr> # ys) c') (run_actions (tactions t) op c)"
    using t unfolding advanceReadOperation_def list.set insert_iff empty_iff
  proof (elim disjE FalseE, goal_cases)
    case 1
    show ?case using st cond unfolding 1 transition.sel
      by (intro read_step_descriptor_callback [OF J]) (auto simp: pipe_state_order)
  next
    case 3
    show ?case using st cond unfolding 3 transition.sel
      by (intro read_step_descriptor_callback [OF J]) (auto simp: pipe_state_order)
  next
    case 4
    show ?case using st cond unfolding 4 transition.sel by (intro read_step_expect [OF J]) auto
  next
    case 5
    show ?case using st cond unfolding 5 transition.sel by (intro read_step_callback [OF J]) auto
  next
    case 8
    show ?case using st cond ok unfolding 8 transition.sel
      by (intro read_step_callback [OF J]) (auto simp: read_ok_def)
  qed (use cond e in auto)
  moreover have "p_error c' = p_error c" if "run_actions (tactions t) op c = Inr (op', c')" for op' c'
    using frame_view(1) rd.run_actions_frame [OF t order_refl that] unfolding pipe_view_def by blast
  ultimately show ?thesis
    using e read_error_action [OF t cond e] by (elim ok_result_mono) (simp split: prod.splits del: run_actions.simps)
qed

lemma write_error_action:
  assumes "t \<in> set advanceWriteOperation" and "tcond t op prev c" and "is_error (p_error c)"
    and "run_actions (tactions t) op c = Inr (op', c')"
  shows "issued_w c' = issued_w c"
  using assms
  by (auto simp: advanceWriteOperation_def result_eq_Inr callWriteCallback_def split: option.splits)

lemma write_J_step_error:
  assumes t: "t \<in> set advanceWriteOperation" and J: "write_J K D (zs @ op # ys) c" and e: "is_error (p_error c)"
    and st: "state op = tfrom t" and cond: "tcond t op (prev_state Write_FINISHED zs) c"
  shows "ok_result (\<lambda>_. False) (\<lambda>(op', c'). write_J K D (zs @ op'\<lparr>state := tto t\<rparr> # ys) c' \<and> is_error (p_error c') \<and> issued_w c' = issued_w c)
    (run_actions (tactions t) op c)"
proof -
  have ok: "write_ok c op" using write_JD(3) [OF J] by simp
  have idle: "state op \<noteq> WRITING_PAYLOADS_AND_SENDING_TENSORS \<Longrightarrow> numTensorsBeingSent op = 0"
    "state op = Write_UNINITIALIZED \<Longrightarrow> numPayloadsBeingWritten op = 0"
    using ok unfolding write_ok_def by blast+
  have "ok_result (\<lambda>_. False) (\<lambda>(op', c'). write_J K D (zs @ op'\<lparr>state := tto t\<rparr> # ys) c') (run_actions (tactions t) op c)"
    using t unfolding advanceWriteOperation_def list.set insert_iff empty_iff
  proof (elim disjE FalseE, goal_cases)
    case 1
    show ?case using st cond idle unfolding 1 transition.sel by (intro write_step_callback [OF J]) auto
  next
    case 4
    show ?case using st cond idle unfolding 4 transition.sel by (intro write_step_callback [OF J]) auto
  next
    case 6
    show ?case using st cond unfolding 6 transition.sel by (intro write_step_callback [OF J]) auto
  qed (use cond e in auto)
  moreover have "p_error c' = p_error c" if "run_actions (tactions t) op c = Inr (op', c')" for op' c'
    using frame_view(2) wr.run_actions_frame [OF t order_refl that] unfolding pipe_view_def by blast
  ultimately show ?thesis
    using e write_error_action [OF t cond e] by (elim ok_result_mono) (simp split: prod.splits del: run_actions.simps)
qed

interpretation rde: deque_machine Read_FINISHED advanceReadOperation pipe_view frame_r
  "\<lambda>ops c. read_J K D ops c \<and> is_error (p_error c) \<and> issued_r c = I" "\<lambda>_. False"
  for K D I
proof (unfold_locales, goal_cases)
  case 1 then show ?case using rd.J_contiguous by blast
next
  case 2 then show ?case using read_J_order by blast
next
  case 3 then show ?case using rd.J_pop by blast
next
  case (4 t zs op ys c)
  then show ?case using read_J_step_error [of t K D zs op ys c] by simp
qed

interpretation wre: deque_machine Write_FINISHED advanceWriteOperation pipe_view frame_w
  "\<lambda>ops c. write_J K D ops c \<and> is_error (p_error c) \<and> issued_w c = I" "\<lambda>_. False"
  for K D I
proof (unfold_locales, goal_cases)
  case 1 then show ?case using wr.J_contiguous by blast
next
  case 2 then show ?case using write_J_order by blast
next
  case 3 then show ?case using wr.J_pop by blast
next
  case (4 t zs op ys c)
  then show ?case using write_J_step_error [of t K D zs op ys c] by simp
qed

end
