(* ===== verification/Address.thy ===== *)
theory Address
  imports TP_Prelude
begin

text \<open>
  \<^verbatim>\<open>splitSchemeOfURL\<close> of \<^verbatim>\<open>tensorpipe/common/address.cc\<close>, which the constructors of pipes and
  listeners apply to the URLs of the user, and the decimal numerals that identifiers contain.
\<close>

fun find_scheme :: "string \<Rightarrow> (string \<times> string) option" where
  "find_scheme [] = None"
| "find_scheme (c # cs) =
     (if take 3 (c # cs) = ''://'' then Some ([], drop 3 (c # cs))
      else map_option (\<lambda>(scheme, rest). (c # scheme, rest)) (find_scheme cs))"

definition splitSchemeOfURL :: "string \<Rightarrow> (string \<times> string) result" where
  "splitSchemeOfURL url = (case find_scheme url of None \<Rightarrow> Inl InvalidArgument | Some p \<Rightarrow> Inr p)"

text \<open>\<^verbatim>\<open>std::to_string\<close> of an unsigned number.\<close>

fun to_string :: "nat \<Rightarrow> string" where
  "to_string n = (if n < 10 then [char_of (48 + n)] else to_string (n div 10) @ [char_of (48 + n mod 10)])"

declare to_string.simps [simp del]

lemma find_scheme_sound: "find_scheme url = Some (scheme, address) \<Longrightarrow> url = scheme @ ''://'' @ address"
proof (induction url arbitrary: scheme)
  case (Cons c cs)
  show ?case
  proof (cases "take 3 (c # cs) = ''://''")
    case True
    then have "c # cs = ''://'' @ drop 3 (c # cs)" by (metis append_take_drop_id)
    then show ?thesis using Cons.prems True by (simp del: take_Suc_Cons drop_Suc_Cons)
  next
    case False
    then obtain s where "find_scheme cs = Some (s, address)" "scheme = c # s"
      using Cons.prems by (auto simp del: take_Suc_Cons drop_Suc_Cons)
    then show ?thesis using Cons.IH by simp
  qed
qed simp

lemma find_scheme_append: "CHR '':'' \<notin> set scheme \<Longrightarrow> find_scheme (scheme @ ''://'' @ address) = Some (scheme, address)"
  by (induction scheme) auto

lemma find_scheme_None: "find_scheme url = None \<Longrightarrow> url \<noteq> scheme @ ''://'' @ address"
proof (induction url arbitrary: scheme)
  case (Cons c cs)
  then show ?case by (cases scheme) (auto split: if_splits)
qed simp

text \<open>
  \<^verbatim>\<open>splitSchemeOfURL\<close> undoes \<^verbatim>\<open>ListenerImpl::url\<close>: for a transport name without a colon it
  gives back the transport and the address; what it returns always makes up the URL again;
  and it throws only for a URL that has no \<^verbatim>\<open>://\<close> anywhere.
\<close>

theorem splitSchemeOfURL_url:
  "(CHR '':'' \<notin> set transport \<longrightarrow> splitSchemeOfURL (transport @ ''://'' @ address) = Inr (transport, address)) \<and>
   (case splitSchemeOfURL url of
      Inr (scheme, rest) \<Rightarrow> url = scheme @ ''://'' @ rest
    | Inl f \<Rightarrow> f = InvalidArgument \<and> (\<nexists>scheme rest. url = scheme @ ''://'' @ rest))"
  using find_scheme_append [of transport address] find_scheme_sound [of url] find_scheme_None [of url]
  by (auto simp: splitSchemeOfURL_def split: option.splits)

theorem splitSchemeOfURL_url_witness:
  "CHR '':'' \<notin> set ''shm'' \<and> splitSchemeOfURL (''shm'' @ ''://'' @ ''a:1'') = Inr (''shm'', ''a:1'')"
  using splitSchemeOfURL_url [of "''shm''" "''a:1''" "[]"] by simp

end
