(* ===== verification/Pipe.thy ===== *)
theory Pipe
  imports Pipe_Inv Address "HOL-Library.AList"
begin

text \<open>
  \<^verbatim>\<open>PipeImpl\<close> (\<^verbatim>\<open>tensorpipe/core/pipe_impl.cc\<close>): construction, the handshake of both ends, the
  entry points of the user, the callbacks of connections and channels, and error handling.
  Every function runs in the loop of the context, one at a time. The context is a parameter
  of the functions that consult it, and so is the registration counter of the listener.
\<close>

section \<open>State\<close>

record pipe =
  pcore :: pipe_core
  readOps :: "read_op list"
  writeOps :: "write_op list"

record pipe_context =
  ctx_name :: string
  ctx_transports :: "transport_ctx list"
  ctx_channels :: "channel_ctx list"

definition getTransport :: "pipe_context \<Rightarrow> string \<Rightarrow> transport_ctx result" where
  "getTransport ctx transport =
     (case List.find (\<lambda>t. tc_name t = transport) (ctx_transports ctx) of
        None \<Rightarrow> Inl InvalidArgument
      | Some t \<Rightarrow> Inr t)"

definition getChannel :: "pipe_context \<Rightarrow> string \<Rightarrow> channel_ctx result" where
  "getChannel ctx channel =
     (case List.find (\<lambda>c. cc_name c = channel) (ctx_channels ctx) of
        None \<Rightarrow> Inl InvalidArgument
      | Some c \<Rightarrow> Inr c)"

section \<open>Construction\<close>

definition pipe_new :: "pipe_state \<Rightarrow> string \<Rightarrow> string \<Rightarrow> string \<Rightarrow> pconn \<Rightarrow> pipe" where
  "pipe_new st pid remoteName transport connection =
     \<lparr>pcore = \<lparr>p_state = st, p_id = pid, p_remoteName = remoteName, p_transport = transport, p_opened = 0,
        p_descriptorConnection = connection, p_descriptorReplyConnection = None, p_channels = [],
        p_channelForDevicePair = [], p_registrationIds = [], p_channelRegistrationIds = [],
        p_channelReceivedConnections = [], nextMessageBeingRead = 0, nextMessageBeingWritten = 0,
        nextReadDescriptorCallbackToCall = 0, nextReadCallbackToCall = 0, nextWriteCallbackToCall = 0,
        connectionState = AWAITING_DESCRIPTOR, messageBeingReadFromConnection = 0,
        nextMessageGettingAllocation = None, p_error = Success, p_log = []\<rparr>,
      readOps = [], writeOps = []\<rparr>"

definition pcall :: "(pipe_core \<Rightarrow> pipe_core) \<Rightarrow> pipe \<Rightarrow> pipe" where
  "pcall f p = p\<lparr>pcore := f (pcore p)\<rparr>"

text \<open>\<^verbatim>\<open>transportContext->connect(address)\<close> and the identifier given to the new connection.\<close>

definition open_connection :: "string \<Rightarrow> string \<Rightarrow> string \<Rightarrow> pipe_core \<Rightarrow> pconn \<times> pipe_core" where
  "open_connection transport address pid c =
     (let conn = OpenedConn (p_opened c)
      in (conn, plog [OpenConnection conn transport address, SetConnectionId conn pid] (c\<lparr>p_opened := p_opened c + 1\<rparr>)))"

definition PipeImpl_client :: "pipe_context \<Rightarrow> string \<Rightarrow> string \<Rightarrow> string \<Rightarrow> pipe result" where
  "PipeImpl_client ctx pid remoteName url =
     bindR (splitSchemeOfURL url) (\<lambda>(transport, address).
       bindR (getTransport ctx transport) (\<lambda>_.
         let p = pipe_new CLIENT_ABOUT_TO_SEND_HELLO_AND_BROCHURE pid remoteName transport (OpenedConn 0);
             (conn, c) = open_connection transport address (pid @ ''.d.tr_'' @ transport) (pcore p)
         in Inr (p\<lparr>pcore := c\<lparr>p_descriptorConnection := conn\<rparr>\<rparr>)))"

definition PipeImpl_server :: "string \<Rightarrow> string \<Rightarrow> string \<Rightarrow> nat \<Rightarrow> pipe" where
  "PipeImpl_server pid remoteName transport connection =
     pcall (plog [SetConnectionId (AcceptedConn connection) (pid @ ''.d.tr_'' @ transport)])
       (pipe_new SERVER_WAITING_FOR_BROCHURE pid remoteName transport (AcceptedConn connection))"

definition make_brochure :: "pipe_context \<Rightarrow> brochure" where
  "make_brochure ctx =
     \<lparr>transportDomainDescriptors = map (\<lambda>t. (tc_name t, tc_domainDescriptor t)) (ctx_transports ctx),
      channelDeviceDescriptors = channel_brochure (ctx_channels ctx)\<rparr>"

definition pipe_initFromLoop :: "bool \<Rightarrow> pipe_context \<Rightarrow> pipe \<Rightarrow> pipe" where
  "pipe_initFromLoop closed ctx p =
     (if closed then pcall (\<lambda>c. c\<lparr>p_error := PipeClosedError\<rparr>) p
      else
        let p1 = pcall (plog [EnrollPipe]) p;
            p2 = (if p_state (pcore p1) = CLIENT_ABOUT_TO_SEND_HELLO_AND_BROCHURE
                  then pcall (\<lambda>c.
                         plog [ReadBrochureAnswer (p_descriptorConnection c)]
                           ((plog [WritePacket (p_descriptorConnection c) (SpontaneousConnection (ctx_name ctx)),
                                   WriteBrochure (p_descriptorConnection c) (make_brochure ctx)] c)
                              \<lparr>p_state := CLIENT_WAITING_FOR_BROCHURE_ANSWER\<rparr>)) p1
                  else p1)
        in if p_state (pcore p2) = SERVER_WAITING_FOR_BROCHURE
           then pcall (\<lambda>c. plog [ReadBrochure (p_descriptorConnection c)] c) p2
           else p2)"

section \<open>Error handling\<close>

definition advance_all :: "pipe \<Rightarrow> pipe result" where
  "advance_all p =
     bindR (advanceAllOperations Read_FINISHED advanceReadOperation (readOps p) (pcore p)) (\<lambda>(ro, c).
       bindR (advanceAllOperations Write_FINISHED advanceWriteOperation (writeOps p) c) (\<lambda>(wo, c').
         Inr (p\<lparr>pcore := c', readOps := ro, writeOps := wo\<rparr>)))"

definition close_effects :: "pipe_core \<Rightarrow> pipe_effect list" where
  "close_effects c =
     [CloseConnection (p_descriptorConnection c)] @
     (case p_descriptorReplyConnection c of None \<Rightarrow> [] | Some conn \<Rightarrow> [CloseConnection conn]) @
     map CloseChannel (p_channels c) @
     map (UnregisterConnectionRequest \<circ> snd) (p_registrationIds c) @
     concat (map (map UnregisterConnectionRequest \<circ> snd) (p_channelRegistrationIds c))"

definition handleError :: "pipe \<Rightarrow> pipe result" where
  "handleError p =
     bindR (advance_all (pcall (\<lambda>c. (plog (close_effects c) c)\<lparr>p_registrationIds := [],
         p_channelRegistrationIds := [], p_channelReceivedConnections := []\<rparr>) p)) (\<lambda>p'.
       Inr (pcall (plog [UnenrollPipe]) p'))"

definition pipe_setError :: "tp_error \<Rightarrow> pipe \<Rightarrow> pipe result" where
  "pipe_setError e p =
     (if is_error (p_error (pcore p)) \<or> \<not> is_error e then Inr p
      else handleError (pcall (\<lambda>c. c\<lparr>p_error := e\<rparr>) p))"

definition pipe_closeFromLoop :: "pipe \<Rightarrow> pipe result" where
  "pipe_closeFromLoop p = pipe_setError PipeClosedError p"

section \<open>Entry points of the user\<close>

definition new_read_op :: read_op where
  "new_read_op = \<lparr>sequenceNumber = 0, state = Read_UNINITIALIZED, doneReadingDescriptor = False,
     doneGettingAllocation = False, numPayloadsBeingRead = 0, numTensorsBeingReceived = 0,
     readDescriptorCallback = None, readCallback = None, r_hasMissingTargetDevices = False,
     r_descriptor = \<lparr>d_metadata = [], d_payloads = [], d_tensors = []\<rparr>,
     r_allocation = \<lparr>a_payloads = [], a_tensors = []\<rparr>\<rparr>"

definition new_write_op :: write_op where
  "new_write_op = \<lparr>sequenceNumber = 0, state = Write_UNINITIALIZED, doneReadingDescriptorReply = False,
     numPayloadsBeingWritten = 0, numTensorsBeingSent = 0, writeCallback = None, w_hasMissingTargetDevices = False,
     w_message = \<lparr>m_metadata = [], m_payloads = [], m_tensors = []\<rparr>, w_tensors = []\<rparr>"

definition run_read :: "pipe \<Rightarrow> (read_op list \<times> pipe_core) result \<Rightarrow> pipe result" where
  "run_read p r = bindR r (\<lambda>(ops, c). Inr (p\<lparr>pcore := c, readOps := ops\<rparr>))"

definition run_write :: "pipe \<Rightarrow> (write_op list \<times> pipe_core) result \<Rightarrow> pipe result" where
  "run_write p r = bindR r (\<lambda>(ops, c). Inr (p\<lparr>pcore := c, writeOps := ops\<rparr>))"

definition readDescriptorFromLoop :: "nat \<Rightarrow> pipe \<Rightarrow> pipe result" where
  "readDescriptorFromLoop cb p =
     (let sn = nextMessageBeingRead (pcore p);
          c = (pcore p)\<lparr>nextMessageBeingRead := sn + 1\<rparr>;
          ops = emplaceBack (new_read_op\<lparr>readDescriptorCallback := Some cb\<rparr>) sn (readOps p)
      in run_read p (advanceOperation Read_FINISHED advanceReadOperation sn ops c))"

text \<open>
  \<^verbatim>\<open>readFromLoop\<close>; the operation is reached through the iterator kept since
  \<^verbatim>\<open>expectReadCall\<close>.
\<close>

definition through_read :: "nat \<Rightarrow> (read_op \<Rightarrow> read_op) \<Rightarrow> pipe \<Rightarrow> pipe result" where
  "through_read sn f p =
     run_read p (bindR (through_iter sn f (readOps p)) (\<lambda>ops.
       advanceOperation Read_FINISHED advanceReadOperation sn ops (pcore p)))"

definition through_write :: "nat \<Rightarrow> (write_op \<Rightarrow> write_op) \<Rightarrow> pipe \<Rightarrow> pipe result" where
  "through_write sn f p =
     run_write p (bindR (through_iter sn f (writeOps p)) (\<lambda>ops.
       advanceOperation Write_FINISHED advanceWriteOperation sn ops (pcore p)))"

definition deref :: "nat \<Rightarrow> ('s, 'm) operation_scheme list \<Rightarrow> ('s, 'm) operation_scheme result" where
  "deref sn ops = (case List.find (\<lambda>op. sequenceNumber op = sn) ops of None \<Rightarrow> Inl DanglingIterator | Some op \<Rightarrow> Inr op)"

definition readFromLoop :: "allocation \<Rightarrow> nat \<Rightarrow> pipe \<Rightarrow> pipe result" where
  "readFromLoop alloc cb p =
     (case nextMessageGettingAllocation (pcore p) of
        None \<Rightarrow> Inl AssertFailed
      | Some sn \<Rightarrow>
          bindR (deref sn (readOps p)) (\<lambda>op.
            bindR (checkAllocationCompatibility (r_descriptor op) alloc) (\<lambda>_.
              through_read sn
                (\<lambda>op. op\<lparr>r_allocation := alloc, readCallback := Some cb, doneGettingAllocation := True\<rparr>)
                (pcall (\<lambda>c. c\<lparr>nextMessageGettingAllocation := None\<rparr>) p))))"

definition writeFromLoop :: "message \<Rightarrow> nat \<Rightarrow> pipe \<Rightarrow> pipe result" where
  "writeFromLoop msg cb p =
     (let sn = nextMessageBeingWritten (pcore p);
          c = (pcore p)\<lparr>nextMessageBeingWritten := sn + 1\<rparr>;
          op = new_write_op\<lparr>w_tensors := tensorsBeingSent msg, w_hasMissingTargetDevices := missingTargetDevices msg,
                 w_message := msg, writeCallback := Some cb\<rparr>;
          ops = emplaceBack op sn (writeOps p)
      in run_write p (advanceOperation Write_FINISHED advanceWriteOperation sn ops c))"

section \<open>Callbacks of connections and channels\<close>

definition onDescriptorRead :: "nat \<Rightarrow> descriptor \<Rightarrow> pipe \<Rightarrow> pipe result" where
  "onDescriptorRead sn d p =
     through_read sn (\<lambda>op.
       let op' = op\<lparr>doneReadingDescriptor := True\<rparr>
       in if is_error (p_error (pcore p)) then op'
          else op'\<lparr>r_descriptor := d,
                 r_hasMissingTargetDevices := r_hasMissingTargetDevices op \<or> descriptorMissesTargetDevices d\<rparr>) p"

definition onPayloadRead :: "nat \<Rightarrow> pipe \<Rightarrow> pipe result" where
  "onPayloadRead sn p = through_read sn (\<lambda>op. op\<lparr>numPayloadsBeingRead := numPayloadsBeingRead op - 1\<rparr>) p"

definition onTensorReceived :: "nat \<Rightarrow> pipe \<Rightarrow> pipe result" where
  "onTensorReceived sn p = through_read sn (\<lambda>op. op\<lparr>numTensorsBeingReceived := numTensorsBeingReceived op - 1\<rparr>) p"

definition onPayloadWritten :: "nat \<Rightarrow> pipe \<Rightarrow> pipe result" where
  "onPayloadWritten sn p = through_write sn (\<lambda>op. op\<lparr>numPayloadsBeingWritten := numPayloadsBeingWritten op - 1\<rparr>) p"

definition onTensorSent :: "nat \<Rightarrow> pipe \<Rightarrow> pipe result" where
  "onTensorSent sn p = through_write sn (\<lambda>op. op\<lparr>numTensorsBeingSent := numTensorsBeingSent op - 1\<rparr>) p"

definition onDescriptorReplyRead :: "nat \<Rightarrow> descriptor_reply \<Rightarrow> pipe \<Rightarrow> pipe result" where
  "onDescriptorReplyRead sn reply p =
     bindR (deref sn (writeOps p)) (\<lambda>op.
       if is_error (p_error (pcore p))
       then through_write sn (\<lambda>op. op\<lparr>doneReadingDescriptorReply := True\<rparr>) p
       else bindR (parseDescriptorReplyOfMessage (w_message op) (w_tensors op) reply) (\<lambda>ts.
              through_write sn (\<lambda>op. op\<lparr>doneReadingDescriptorReply := True, w_tensors := ts\<rparr>) p))"

section \<open>Handshake, listening side\<close>

definition pendingRegistrations :: "pipe_core \<Rightarrow> bool" where
  "pendingRegistrations c \<longleftrightarrow> p_registrationIds c \<noteq> [] \<or> p_channelRegistrationIds c \<noteq> []"

text \<open>Registering a request with the listener, whose counter gives the token.\<close>

definition registerTransport :: "connection_id \<Rightarrow> 64 word \<Rightarrow> pipe_core \<Rightarrow> (64 word \<times> pipe_core) result" where
  "registerTransport connId counter c =
     dcheck (map_of (p_registrationIds c) connId = None)
       (Inr (counter, plog [RegisterConnectionRequest counter (ForConnection connId)]
          (c\<lparr>p_registrationIds := AList.update connId counter (p_registrationIds c)\<rparr>)))"

definition registerChannel ::
  "pipe_context \<Rightarrow> string \<Rightarrow> 64 word \<Rightarrow> pipe_core \<Rightarrow> (64 word list \<times> pipe_core) result" where
  "registerChannel ctx channelName counter c =
     bindR (getChannel ctx channelName) (\<lambda>cc.
       let n = cc_numConnectionsNeeded cc;
           tokens = map (\<lambda>i. counter + of_nat i) [0..<n]
       in Inr (tokens,
            plog (map (\<lambda>i. RegisterConnectionRequest (counter + of_nat i) (ForChannel channelName i)) [0..<n])
              (c\<lparr>p_channelRegistrationIds := AList.update channelName tokens (p_channelRegistrationIds c),
                 p_channelReceivedConnections :=
                   AList.update channelName (replicate n None) (p_channelReceivedConnections c)\<rparr>)))"

fun register_channels ::
  "pipe_context \<Rightarrow> (string \<times> (device \<times> string) list) list \<Rightarrow> 64 word \<Rightarrow> pipe_core
     \<Rightarrow> ((string \<times> 64 word list) list \<times> pipe_core) result" where
  "register_channels ctx [] counter c = Inr ([], c)"
| "register_channels ctx ((channelName, descs) # rest) counter c =
     bindR (registerChannel ctx channelName counter c) (\<lambda>(tokens, c').
       bindR (register_channels ctx rest (counter + of_nat (length tokens)) c') (\<lambda>(ids, c'').
         Inr ((channelName, tokens) # ids, c'')))"

text \<open>\<^verbatim>\<open>state_ = ESTABLISHED\<close> and what follows it, on both ends.\<close>

definition establish :: "pipe \<Rightarrow> pipe result" where
  "establish p = advance_all (pcall (\<lambda>c. c\<lparr>p_state := ESTABLISHED\<rparr>) p)"

definition onReadWhileServerWaitingForBrochure ::
  "pipe_context \<Rightarrow> (string \<times> string) list \<Rightarrow> 64 word \<Rightarrow> brochure \<Rightarrow> pipe \<Rightarrow> pipe result" where
  "onReadWhileServerWaitingForBrochure ctx addresses counter b p =
     dcheck (p_state (pcore p) = SERVER_WAITING_FOR_BROCHURE)
      (bindR (selectTransport (ctx_transports ctx) (transportDomainDescriptors b) addresses) (\<lambda>transport.
       bindR (if st_name transport \<noteq> p_transport (pcore p)
              then bindR (registerTransport DESCRIPTOR counter ((pcore p)\<lparr>p_transport := st_name transport\<rparr>)) (\<lambda>(token, c).
                     Inr ([(DESCRIPTOR, token)], c))
              else Inr ([], pcore p)) (\<lambda>(ids1, c1).
       let counter1 = counter + of_nat (length ids1)
       in bindR (registerTransport DESCRIPTOR_REPLY counter1 c1) (\<lambda>(token, c2).
       let selected = selectChannels (ctx_channels ctx) (channelDeviceDescriptors b);
           c3 = c2\<lparr>p_channelForDevicePair := channelForDevicePair selected\<rparr>
       in bindR (register_channels ctx (descriptorsMap selected) (counter1 + 1) c3) (\<lambda>(ids, c4).
       let answer = \<lparr>ba_transport = st_name transport, ba_address = st_address transport,
             ba_transportRegistrationIds = ids1 @ [(DESCRIPTOR_REPLY, token)],
             ba_transportDomainDescriptor = st_domainDescriptor transport,
             ba_channelRegistrationIds = ids,
             ba_channelDeviceDescriptors = descriptorsMap selected,
             ba_channelForDevicePair = channelForDevicePair selected\<rparr>;
           c5 = plog [WriteBrochureAnswer (p_descriptorConnection c4) answer] c4
       in if \<not> pendingRegistrations c5 then establish (p\<lparr>pcore := c5\<rparr>)
          else Inr (p\<lparr>pcore := c5\<lparr>p_state := SERVER_WAITING_FOR_CONNECTIONS\<rparr>\<rparr>))))))"

definition onAcceptWhileServerWaitingForConnection ::
  "connection_id \<Rightarrow> string \<Rightarrow> nat \<Rightarrow> pipe \<Rightarrow> pipe result" where
  "onAcceptWhileServerWaitingForConnection connId receivedTransport connection p =
     dcheck (p_state (pcore p) = SERVER_WAITING_FOR_CONNECTIONS)
      (case map_of (p_registrationIds (pcore p)) connId of
         None \<Rightarrow> Inl DCheckFailed
       | Some token \<Rightarrow>
           let c1 = plog [UnregisterConnectionRequest token]
                 ((pcore p)\<lparr>p_registrationIds := AList.delete connId (p_registrationIds (pcore p))\<rparr>);
               conn = AcceptedConn connection
           in dcheck (p_transport c1 = receivedTransport)
               (let c2 = (case connId of
                       DESCRIPTOR \<Rightarrow> (plog [SetConnectionId conn (p_id c1 @ ''.d.tr_'' @ receivedTransport)] c1)
                         \<lparr>p_descriptorConnection := conn\<rparr>
                     | DESCRIPTOR_REPLY \<Rightarrow> (plog [SetConnectionId conn (p_id c1 @ ''.r.tr_'' @ receivedTransport)] c1)
                         \<lparr>p_descriptorReplyConnection := Some conn\<rparr>)
                in if \<not> pendingRegistrations c2 then establish (p\<lparr>pcore := c2\<rparr>) else Inr (p\<lparr>pcore := c2\<rparr>)))"

definition onAcceptWhileServerWaitingForChannel ::
  "pipe_context \<Rightarrow> string \<Rightarrow> nat \<Rightarrow> string \<Rightarrow> nat \<Rightarrow> pipe \<Rightarrow> pipe result" where
  "onAcceptWhileServerWaitingForChannel ctx channelName connId receivedTransport connection p =
     (let c = pcore p in
      dcheck (p_state c = SERVER_WAITING_FOR_CONNECTIONS)
      (dcheck (p_transport c = receivedTransport)
       (case map_of (p_channelRegistrationIds c) channelName of
          None \<Rightarrow> Inl DCheckFailed
        | Some tokens \<Rightarrow>
            if connId \<ge> length tokens then Inl OutOfRange
            else
              let conn = AcceptedConn connection;
                  c1 = plog [UnregisterConnectionRequest (tokens ! connId),
                         SetConnectionId conn (p_id c @ ''.ch_'' @ channelName @ ''_'' @ to_string connId)] c
              in case map_of (p_channelReceivedConnections c) channelName of
                   None \<Rightarrow> Inl OutOfRange
                 | Some received \<Rightarrow>
                     if connId \<ge> length received then Inl OutOfRange
                     else
                       let received' = received[connId := Some conn];
                           c2 = c1\<lparr>p_channelReceivedConnections :=
                                  AList.update channelName received' (p_channelReceivedConnections c)\<rparr>
                       in if None \<in> set received' then Inr (p\<lparr>pcore := c2\<rparr>)
                          else bindR (getChannel ctx channelName) (\<lambda>_.
                            let c3 = (plog [CreateChannel channelName (map the received') ListenEndpoint,
                                   SetChannelId channelName (p_id c @ ''.ch_'' @ channelName)] c2)
                                 \<lparr>p_channelRegistrationIds := AList.delete channelName (p_channelRegistrationIds c),
                                  p_channelReceivedConnections := AList.delete channelName (p_channelReceivedConnections c2)\<rparr>
                            in dcheck (channelName \<notin> set (p_channels c3))
                                (let c4 = c3\<lparr>p_channels := p_channels c3 @ [channelName]\<rparr>
                                 in if \<not> pendingRegistrations c4 then establish (p\<lparr>pcore := c4\<rparr>)
                                    else Inr (p\<lparr>pcore := c4\<rparr>))))))"

section \<open>Handshake, connecting side\<close>

definition initConnection :: "pconn \<Rightarrow> 64 word \<Rightarrow> pipe_core \<Rightarrow> pipe_core" where
  "initConnection conn token c = plog [WritePacket conn (RequestedConnection token)] c"

text \<open>The loop over the connections of one channel, and the one over the channels.\<close>

fun open_channel_connections ::
  "string \<Rightarrow> string \<Rightarrow> string \<Rightarrow> nat \<Rightarrow> 64 word list \<Rightarrow> pipe_core \<Rightarrow> pconn list \<times> pipe_core" where
  "open_channel_connections transport address channelName connId [] c = ([], c)"
| "open_channel_connections transport address channelName connId (token # tokens) c =
     (let (conn, c1) = open_connection transport address
            (p_id c @ ''.ch_'' @ channelName @ ''_'' @ to_string connId) c;
          (conns, c2) = open_channel_connections transport address channelName (connId + 1) tokens
            (initConnection conn token c1)
      in (conn # conns, c2))"

definition emplace :: "'a \<Rightarrow> 'a list \<Rightarrow> 'a list" where
  "emplace x xs = (if x \<in> set xs then xs else xs @ [x])"

fun create_channels ::
  "pipe_context \<Rightarrow> brochure_answer \<Rightarrow> (string \<times> (device \<times> string) list) list \<Rightarrow> pipe_core \<Rightarrow> pipe_core result" where
  "create_channels ctx a [] c = Inr c"
| "create_channels ctx a ((channelName, descs) # rest) c =
     bindR (getChannel ctx channelName) (\<lambda>cc.
       case map_of (ba_channelRegistrationIds a) channelName of
         None \<Rightarrow> Inl OutOfRange
       | Some registrationIds \<Rightarrow>
           dcheck (cc_numConnectionsNeeded cc = length registrationIds)
            (let (conns, c1) = open_channel_connections (ba_transport a) (ba_address a) channelName 0 registrationIds c;
                 c2 = plog [CreateChannel channelName conns ConnectEndpoint,
                        SetChannelId channelName (p_id c @ ''.ch_'' @ channelName)] c1
             in create_channels ctx a rest (c2\<lparr>p_channels := emplace channelName (p_channels c2)\<rparr>)))"

definition onReadWhileClientWaitingForBrochureAnswer ::
  "pipe_context \<Rightarrow> brochure_answer \<Rightarrow> pipe \<Rightarrow> pipe result" where
  "onReadWhileClientWaitingForBrochureAnswer ctx a p =
     dcheck (p_state (pcore p) = CLIENT_WAITING_FOR_BROCHURE_ANSWER)
      (bindR (getTransport ctx (ba_transport a)) (\<lambda>t.
       dcheck (tc_canCommunicateWithRemote t (ba_transportDomainDescriptor a))
       (bindR (if ba_transport a \<noteq> p_transport (pcore p)
               then let (conn, c) = open_connection (ba_transport a) (ba_address a)
                          (p_id (pcore p) @ ''.d.tr_'' @ ba_transport a) (pcore p)
                    in case map_of (ba_transportRegistrationIds a) DESCRIPTOR of
                         None \<Rightarrow> Inl DCheckFailed
                       | Some token \<Rightarrow>
                           Inr ((initConnection conn token c)\<lparr>p_transport := ba_transport a, p_descriptorConnection := conn\<rparr>)
               else Inr (pcore p)) (\<lambda>c1.
        let (conn, c2) = open_connection (ba_transport a) (ba_address a) (p_id c1 @ ''.r.tr_'' @ ba_transport a) c1
        in case map_of (ba_transportRegistrationIds a) DESCRIPTOR_REPLY of
             None \<Rightarrow> Inl DCheckFailed
           | Some token \<Rightarrow>
               let selected = selectChannels (ctx_channels ctx) (ba_channelDeviceDescriptors a);
                   c3 = (initConnection conn token c2)\<lparr>p_descriptorReplyConnection := Some conn,
                          p_channelForDevicePair := channelForDevicePair selected\<rparr>
               in bindR (check_channel_maps (channelForDevicePair selected) (ba_channelForDevicePair a)) (\<lambda>_.
                    bindR (create_channels ctx a (descriptorsMap selected) c3) (\<lambda>c4.
                      establish (p\<lparr>pcore := c4\<rparr>)))))))"

end
