(* ===== verification/Rearmable.thy ===== *)
theory Rearmable
  imports TP_Prelude
begin

text \<open>
  \<^verbatim>\<open>RearmableCallback\<close> of \<^verbatim>\<open>tensorpipe/common/callback.h\<close>, through which listeners hand out what
  they accept. Callbacks that wait for arguments and arguments that wait for callbacks are kept
  in two queues; each method returns the calls that it makes, in order.
\<close>

section \<open>Operations\<close>

record ('f, 'a) rearmable =
  callbacks :: "'f list"
  stored_args :: "'a list"

definition no_callbacks :: "('f, 'a) rearmable" where
  "no_callbacks = \<lparr>callbacks = [], stored_args = []\<rparr>"

definition arm :: "'f \<Rightarrow> ('f, 'a) rearmable \<Rightarrow> ('f \<times> 'a) list \<times> ('f, 'a) rearmable" where
  "arm fn r = (case stored_args r of
     a # as \<Rightarrow> ([(fn, a)], r\<lparr>stored_args := as\<rparr>)
   | [] \<Rightarrow> ([], r\<lparr>callbacks := callbacks r @ [fn]\<rparr>))"

definition trigger :: "'a \<Rightarrow> ('f, 'a) rearmable \<Rightarrow> ('f \<times> 'a) list \<times> ('f, 'a) rearmable" where
  "trigger a r = (case callbacks r of
     fn # fns \<Rightarrow> ([(fn, a)], r\<lparr>callbacks := fns\<rparr>)
   | [] \<Rightarrow> ([], r\<lparr>stored_args := stored_args r @ [a]\<rparr>))"

text \<open>The generator always gives the same arguments.\<close>

definition triggerAll :: "'a \<Rightarrow> ('f, 'a) rearmable \<Rightarrow> ('f \<times> 'a) list \<times> ('f, 'a) rearmable" where
  "triggerAll a r = (map (\<lambda>fn. (fn, a)) (callbacks r), r\<lparr>callbacks := []\<rparr>)"

section \<open>What it implements\<close>

text \<open>
  The first callback is called with the first arguments, the second with the second, and so on:
  after the callbacks \<open>fs\<close> and the arguments \<open>as\<close> the calls \<open>zip fs as\<close> have been made.
\<close>

definition rearmed :: "'f list \<Rightarrow> 'a list \<Rightarrow> ('f, 'a) rearmable \<Rightarrow> bool" where
  "rearmed fs as r \<longleftrightarrow> callbacks r = drop (length as) fs \<and> stored_args r = drop (length fs) as"

lemma rearmed_no_callbacks [simp]: "rearmed [] [] no_callbacks"
  by (simp add: rearmed_def no_callbacks_def)

lemma zip_snoc_first: "zip (fs @ [f]) as = zip fs as @ (case drop (length fs) as of [] \<Rightarrow> [] | a # as' \<Rightarrow> [(f, a)])"
  by (induction fs as rule: list_induct2') (simp_all split: list.splits)

lemma zip_snoc_second: "zip fs (as @ [a]) = zip fs as @ (case drop (length as) fs of [] \<Rightarrow> [] | f # fs' \<Rightarrow> [(f, a)])"
  by (induction fs as rule: list_induct2') (simp_all split: list.splits)

lemma arm_rearmed:
  assumes "rearmed fs as r" and "arm f r = (calls, r')"
  shows "rearmed (fs @ [f]) as r'" and "zip (fs @ [f]) as = zip fs as @ calls"
proof -
  have d: "drop (length fs) as = a # as' \<Longrightarrow> drop (Suc (length fs)) as = as'" for a as'
    by (metis drop_Suc list.sel(3) tl_drop)
  have l: "drop (length fs) as = a # as' \<Longrightarrow> Suc 0 \<le> length as - length fs" for a as'
    by (metis length_drop length_Cons le_add2 plus_1_eq_Suc One_nat_def Suc_le_mono zero_le)
  show "rearmed (fs @ [f]) as r'" "zip (fs @ [f]) as = zip fs as @ calls"
    using assms d l by (auto simp: arm_def rearmed_def zip_snoc_first split: list.splits)
qed

lemma trigger_rearmed:
  assumes "rearmed fs as r" and "trigger a r = (calls, r')"
  shows "rearmed fs (as @ [a]) r'" and "zip fs (as @ [a]) = zip fs as @ calls"
proof -
  have d: "drop (length as) fs = f # fs' \<Longrightarrow> drop (Suc (length as)) fs = fs'" for f fs'
    by (metis drop_Suc list.sel(3) tl_drop)
  have l: "drop (length as) fs = f # fs' \<Longrightarrow> Suc 0 \<le> length fs - length as" for f fs'
    by (metis length_drop length_Cons le_add2 plus_1_eq_Suc One_nat_def Suc_le_mono zero_le)
  show "rearmed fs (as @ [a]) r'" "zip fs (as @ [a]) = zip fs as @ calls"
    using assms d l by (auto simp: trigger_def rearmed_def zip_snoc_second split: list.splits)
qed

lemma triggerAll_rearmed:
  assumes "rearmed fs as r" and "triggerAll a r = (calls, r')"
  shows "calls = map (\<lambda>f. (f, a)) (drop (length as) fs)" and "callbacks r' = []" and "stored_args r' = stored_args r"
  using assms by (auto simp: triggerAll_def rearmed_def)

end
