(* ===== verification/Listener.thy ===== *)
theory Listener
  imports Pipe Rearmable
begin

text \<open>
  \<^verbatim>\<open>ListenerImpl\<close> (\<^verbatim>\<open>tensorpipe/core/listener_impl.cc\<close>). A listener accepts connections on several
  transports and reads one packet from each: a spontaneous connection becomes a new pipe, a
  requested one is handed to the pipe that has registered for it. Every function runs in the
  loop of the context. Calls that leave the listener are recorded in its log.
\<close>

section \<open>State\<close>

datatype listener_effect =
    LCallAccept nat tp_error "pipe option"
  | LCallRequest "64 word" nat tp_error "(string \<times> nat) option"
  | LEnroll
  | LUnenroll
  | LListen string string
  | LSetListenerId string string
  | LAcceptOn string
  | LReadHello nat
  | LOpenPipe pipe
  | LCloseListener string
  | LCloseConnection nat
  | LUnknownPacket

text \<open>
  The callback of \<^verbatim>\<open>accept\<close> is wrapped with its sequence number. The maps keep the first value that
  is put at a key.
\<close>

record listener =
  l_error :: tp_error
  l_id :: string
  l_pipeCounter :: "64 word"
  l_listeners :: "string list"
  l_addresses :: "(string \<times> string) list"
  nextPipeBeingAccepted :: "64 word"
  nextAcceptCallbackToCall :: "64 word"
  acceptCallback :: "(64 word \<times> nat, tp_error \<times> pipe option) rearmable"
  connectionsWaitingForHello :: "nat list"
  nextConnectionRequestRegistrationId :: "64 word"
  connectionRequestRegistrations :: "(64 word \<times> nat) list"
  l_log :: "listener_effect list"

definition llog :: "listener_effect list \<Rightarrow> listener \<Rightarrow> listener" where
  "llog es l = l\<lparr>l_log := l_log l @ es\<rparr>"

definition map_emplace :: "'k \<Rightarrow> 'v \<Rightarrow> ('k \<times> 'v) list \<Rightarrow> ('k \<times> 'v) list" where
  "map_emplace k v m = (if map_of m k = None then m @ [(k, v)] else m)"

section \<open>Construction\<close>

definition listener_new :: "string \<Rightarrow> listener" where
  "listener_new lid = \<lparr>l_error = Success, l_id = lid, l_pipeCounter = 0, l_listeners = [], l_addresses = [],
     nextPipeBeingAccepted = 0, nextAcceptCallbackToCall = 0, acceptCallback = no_callbacks, connectionsWaitingForHello = [],
     nextConnectionRequestRegistrationId = 0, connectionRequestRegistrations = [], l_log = []\<rparr>"

text \<open>\<open>materialize\<close> is the address that a transport gives to its listener.\<close>

fun listen_urls :: "pipe_context \<Rightarrow> (string \<Rightarrow> string \<Rightarrow> string) \<Rightarrow> string list \<Rightarrow> listener \<Rightarrow> listener result" where
  "listen_urls ctx materialize [] l = Inr l"
| "listen_urls ctx materialize (url # urls) l =
     bindR (splitSchemeOfURL url) (\<lambda>(transport, address).
       bindR (getTransport ctx transport) (\<lambda>_.
         listen_urls ctx materialize urls
           ((llog [LListen transport address, LSetListenerId transport (l_id l @ ''.tr_'' @ transport)] l)
              \<lparr>l_addresses := map_emplace transport (materialize transport address) (l_addresses l),
               l_listeners := (if transport \<in> set (l_listeners l) then l_listeners l else l_listeners l @ [transport])\<rparr>)))"

definition ListenerImpl :: "pipe_context \<Rightarrow> (string \<Rightarrow> string \<Rightarrow> string) \<Rightarrow> string \<Rightarrow> string list \<Rightarrow> listener result" where
  "ListenerImpl ctx materialize lid urls = listen_urls ctx materialize urls (listener_new lid)"

definition armListener :: "string \<Rightarrow> listener \<Rightarrow> listener result" where
  "armListener transport l = (if transport \<notin> set (l_listeners l) then Inl InvalidArgument else Inr (llog [LAcceptOn transport] l))"

fun arm_listeners :: "string list \<Rightarrow> listener \<Rightarrow> listener result" where
  "arm_listeners [] l = Inr l"
| "arm_listeners (t # ts) l = bindR (armListener t l) (arm_listeners ts)"

definition listener_initFromLoop :: "bool \<Rightarrow> listener \<Rightarrow> listener result" where
  "listener_initFromLoop closed l =
     (if closed then Inr (l\<lparr>l_error := ListenerClosedError\<rparr>)
      else arm_listeners (l_listeners l) (llog [LEnroll] l))"

section \<open>Callbacks\<close>

text \<open>The wrapped callbacks of \<^verbatim>\<open>accept\<close>, called one after the other.\<close>

fun call_accepts :: "((64 word \<times> nat) \<times> tp_error \<times> pipe option) list \<Rightarrow> listener \<Rightarrow> listener result" where
  "call_accepts [] l = Inr l"
| "call_accepts (((sn, fn), e, p) # calls) l =
     dcheck (sn = nextAcceptCallbackToCall l)
       (call_accepts calls (llog [LCallAccept fn e p] (l\<lparr>nextAcceptCallbackToCall := nextAcceptCallbackToCall l + 1\<rparr>)))"

definition acceptFromLoop :: "nat \<Rightarrow> listener \<Rightarrow> listener result" where
  "acceptFromLoop fn l =
     (let sn = nextPipeBeingAccepted l;
          l1 = l\<lparr>nextPipeBeingAccepted := sn + 1\<rparr>
      in if is_error (l_error l1) then call_accepts [((sn, fn), l_error l1, None)] l1
         else let (calls, cb) = arm (sn, fn) (acceptCallback l1) in call_accepts calls (l1\<lparr>acceptCallback := cb\<rparr>))"

definition listener_address :: "string \<Rightarrow> listener \<Rightarrow> string result" where
  "listener_address transport l = (case map_of (l_addresses l) transport of None \<Rightarrow> Inl AssertFailed | Some a \<Rightarrow> Inr a)"

definition listener_url :: "string \<Rightarrow> listener \<Rightarrow> string result" where
  "listener_url transport l = bindR (listener_address transport l) (\<lambda>a. Inr (transport @ ''://'' @ a))"

definition registerConnectionRequest :: "nat \<Rightarrow> listener \<Rightarrow> 64 word \<times> listener" where
  "registerConnectionRequest fn l =
     (let registrationId = nextConnectionRequestRegistrationId l;
          l1 = l\<lparr>nextConnectionRequestRegistrationId := registrationId + 1\<rparr>
      in (registrationId,
          if is_error (l_error l1) then llog [LCallRequest registrationId fn (l_error l1) None] l1
          else l1\<lparr>connectionRequestRegistrations := map_emplace registrationId fn (connectionRequestRegistrations l1)\<rparr>))"

definition unregisterConnectionRequest :: "64 word \<Rightarrow> listener \<Rightarrow> listener" where
  "unregisterConnectionRequest registrationId l =
     l\<lparr>connectionRequestRegistrations := AList.delete registrationId (connectionRequestRegistrations l)\<rparr>"

section \<open>Error handling\<close>

definition listener_handleError :: "listener \<Rightarrow> listener result" where
  "listener_handleError l =
     (let (calls, cb) = triggerAll (l_error l, None) (acceptCallback l)
      in bindR (call_accepts calls (l\<lparr>acceptCallback := cb\<rparr>)) (\<lambda>l1.
        let l2 = (llog (map (\<lambda>(i, fn). LCallRequest i fn (l_error l1) None) (connectionRequestRegistrations l1)) l1)
              \<lparr>connectionRequestRegistrations := []\<rparr>;
            l3 = llog (map LCloseListener (l_listeners l2)) l2;
            l4 = (llog (map LCloseConnection (connectionsWaitingForHello l3)) l3)\<lparr>connectionsWaitingForHello := []\<rparr>
        in Inr (llog [LUnenroll] l4)))"

definition listener_setError :: "tp_error \<Rightarrow> listener \<Rightarrow> listener result" where
  "listener_setError e l =
     (if is_error (l_error l) \<or> \<not> is_error e then Inr l else listener_handleError (l\<lparr>l_error := e\<rparr>))"

definition listener_closeFromLoop :: "listener \<Rightarrow> listener result" where
  "listener_closeFromLoop l = listener_setError ListenerClosedError l"

section \<open>Connections\<close>

definition onAccept :: "nat \<Rightarrow> listener \<Rightarrow> listener" where
  "onAccept connection l =
     llog [LReadHello connection]
       (l\<lparr>connectionsWaitingForHello := List.insert connection (connectionsWaitingForHello l)\<rparr>)"

text \<open>
  The packet is \<open>None\<close> when it has none of the known contents. A new pipe is initialized at once;
  \<open>closed\<close> tells whether the context is.
\<close>

definition onConnectionHelloRead ::
  "pipe_context \<Rightarrow> bool \<Rightarrow> string \<Rightarrow> nat \<Rightarrow> packet option \<Rightarrow> listener \<Rightarrow> listener result" where
  "onConnectionHelloRead ctx closed transport connection nopPacketIn l =
     (case nopPacketIn of
        Some (SpontaneousConnection remoteContextName) \<Rightarrow>
          let pid = l_id l @ ''.p'' @ to_string (unat (l_pipeCounter l));
              l1 = l\<lparr>l_pipeCounter := l_pipeCounter l + 1\<rparr>;
              pid' = (if remoteContextName \<noteq> [] then l_id l @ ''_from_'' @ remoteContextName else pid);
              p = pipe_initFromLoop closed ctx (PipeImpl_server pid' remoteContextName transport connection);
              (calls, cb) = trigger (Success, Some p) (acceptCallback l1)
          in call_accepts calls (llog [LOpenPipe p] (l1\<lparr>acceptCallback := cb\<rparr>))
      | Some (RequestedConnection registrationId) \<Rightarrow>
          (case map_of (connectionRequestRegistrations l) registrationId of
             None \<Rightarrow> Inr l
           | Some fn \<Rightarrow>
               Inr (llog [LCallRequest registrationId fn Success (Some (transport, connection))]
                 (l\<lparr>connectionRequestRegistrations := AList.delete registrationId (connectionRequestRegistrations l)\<rparr>)))
      | None \<Rightarrow> Inr (llog [LUnknownPacket] l))"

definition onTransportAccept :: "string \<Rightarrow> tp_error \<Rightarrow> nat \<Rightarrow> listener \<Rightarrow> listener result" where
  "onTransportAccept transport e connection =
     entryPointFromLoop listener_setError e (\<lambda>l.
       if is_error (l_error l) then Inr l else armListener transport (onAccept connection l))"

definition onHelloRead :: "pipe_context \<Rightarrow> bool \<Rightarrow> string \<Rightarrow> nat \<Rightarrow> tp_error \<Rightarrow> packet option \<Rightarrow> listener \<Rightarrow> listener result" where
  "onHelloRead ctx closed transport connection e nopPacketIn =
     entryPointFromLoop listener_setError e (\<lambda>l.
       if is_error (l_error l) then Inr l
       else onConnectionHelloRead ctx closed transport connection nopPacketIn
              (l\<lparr>connectionsWaitingForHello := removeAll connection (connectionsWaitingForHello l)\<rparr>))"

end
