(* ===== verification/Listener_Properties.thy ===== *)
theory Listener_Properties
  imports Listener
begin

text \<open>
  What a listener promises, for every sequence of events: its internal checks hold, accepted pipes
  reach the callbacks of the user in order, and a connection request is answered once.
\<close>

section \<open>Events\<close>

datatype listener_event =
    LAccept nat
  | LRegister nat
  | LUnregister "64 word"
  | LAccepted string tp_error nat
  | LHello bool string nat tp_error "packet option"
  | LClose

fun listener_step :: "pipe_context \<Rightarrow> listener_event \<Rightarrow> listener \<Rightarrow> listener result" where
  "listener_step ctx (LAccept fn) l = acceptFromLoop fn l"
| "listener_step ctx (LRegister fn) l = Inr (snd (registerConnectionRequest fn l))"
| "listener_step ctx (LUnregister i) l = Inr (unregisterConnectionRequest i l)"
| "listener_step ctx (LAccepted transport e connection) l = onTransportAccept transport e connection l"
| "listener_step ctx (LHello closed transport connection e packet) l = onHelloRead ctx closed transport connection e packet l"
| "listener_step ctx LClose l = listener_closeFromLoop l"

text \<open>Only transports on which the listener listens report connections.\<close>

fun listener_enabled :: "listener_event \<Rightarrow> listener \<Rightarrow> bool" where
  "listener_enabled (LAccepted transport e connection) l \<longleftrightarrow> transport \<in> set (l_listeners l)"
| "listener_enabled ev l \<longleftrightarrow> True"

inductive listener_trace :: "pipe_context \<Rightarrow> listener_event list \<Rightarrow> listener \<Rightarrow> bool" for ctx where
  listener_started: "ListenerImpl ctx materialize lid urls = Inr l \<Longrightarrow> listener_initFromLoop closed l = Inr l' \<Longrightarrow> listener_trace ctx [] l'"
| listener_stepped: "listener_trace ctx evs l \<Longrightarrow> listener_enabled ev l \<Longrightarrow> listener_step ctx ev l = Inr l' \<Longrightarrow>
    listener_trace ctx (evs @ [ev]) l'"

fun accept_of :: "listener_event \<Rightarrow> nat list" where
  "accept_of (LAccept fn) = [fn]" | "accept_of ev = []"

fun register_of :: "listener_event \<Rightarrow> nat list" where
  "register_of (LRegister fn) = [fn]" | "register_of ev = []"

abbreviation accepts :: "listener_event list \<Rightarrow> nat list" where
  "accepts evs \<equiv> concat (map accept_of evs)"

abbreviation registers :: "listener_event list \<Rightarrow> nat list" where
  "registers evs \<equiv> concat (map register_of evs)"

fun accept_call :: "listener_effect \<Rightarrow> (nat \<times> tp_error \<times> pipe option) list" where
  "accept_call (LCallAccept fn e p) = [(fn, e, p)]" | "accept_call ef = []"

fun request_call :: "listener_effect \<Rightarrow> (64 word \<times> nat) list" where
  "request_call (LCallRequest i fn e conn) = [(i, fn)]" | "request_call ef = []"

fun opened_pipe :: "listener_effect \<Rightarrow> pipe list" where
  "opened_pipe (LOpenPipe p) = [p]" | "opened_pipe ef = []"

abbreviation accept_calls :: "listener \<Rightarrow> (nat \<times> tp_error \<times> pipe option) list" where
  "accept_calls l \<equiv> concat (map accept_call (l_log l))"

abbreviation request_calls :: "listener \<Rightarrow> (64 word \<times> nat) list" where
  "request_calls l \<equiv> concat (map request_call (l_log l))"

abbreviation opened_pipes :: "listener \<Rightarrow> pipe list" where
  "opened_pipes l \<equiv> concat (map opened_pipe (l_log l))"

section \<open>Calling callbacks in order\<close>

definition numbered_fns :: "nat list \<Rightarrow> (64 word \<times> nat) list" where
  "numbered_fns fs = zip (map of_nat [0..<length fs]) fs"

definition accept_args :: "pipe list \<Rightarrow> (tp_error \<times> pipe option) list" where
  "accept_args ps = map (\<lambda>p. (Success, Some p)) ps"

lemma length_numbered_fns [simp]: "length (numbered_fns fs) = length fs" "length (accept_args ps) = length ps"
  by (simp_all add: numbered_fns_def accept_args_def)

lemma numbered_fns_snoc: "numbered_fns (fs @ [f]) = numbered_fns fs @ [(of_nat (length fs), f)]"
  by (simp add: numbered_fns_def)

lemma numbered_numbers: "map fst (numbered_fns fs) = map of_nat [0..<length fs]" "map snd (numbered_fns fs) = fs"
  by (simp_all add: numbered_fns_def)

lemma accept_args_snoc: "accept_args (ps @ [p]) = accept_args ps @ [(Success, Some p)]"
  by (simp add: accept_args_def)

definition accept_called :: "((64 word \<times> nat) \<times> tp_error \<times> pipe option) list \<Rightarrow> (nat \<times> tp_error \<times> pipe option) list" where
  "accept_called calls = map (\<lambda>((sn, fn), e, p). (fn, e, p)) calls"

text \<open>The state after the calls, which have consecutive numbers.\<close>

definition after_calls :: "((64 word \<times> nat) \<times> tp_error \<times> pipe option) list \<Rightarrow> listener \<Rightarrow> listener" where
  "after_calls calls l = (llog (map (\<lambda>(fn, e, p). LCallAccept fn e p) (accept_called calls)) l)
     \<lparr>nextAcceptCallbackToCall := nextAcceptCallbackToCall l + of_nat (length calls)\<rparr>"

lemma call_accepts_eq:
  assumes "map (fst \<circ> fst) calls = map of_nat [n..<n + length calls]" and "nextAcceptCallbackToCall l = of_nat n"
  shows "call_accepts calls l = Inr (after_calls calls l)"
  using assms
proof (induction calls arbitrary: n l)
  case Nil
  then show ?case by (simp add: after_calls_def accept_called_def llog_def)
next
  case (Cons c calls)
  obtain sn fn e p where c: "c = ((sn, fn), e, p)" by (cases c) auto
  have sn: "sn = of_nat n" "map (fst \<circ> fst) calls = map of_nat [Suc n..<Suc n + length calls]"
    using Cons.prems(1) by (simp_all add: c upt_conv_Cons comp_def del: upt_Suc)
  let ?l = "llog [LCallAccept fn e p] (l\<lparr>nextAcceptCallbackToCall := nextAcceptCallbackToCall l + 1\<rparr>)"
  have "call_accepts calls ?l = Inr (after_calls calls ?l)"
    by (rule Cons.IH [OF sn(2)]) (use Cons.prems(2) in \<open>simp add: llog_def\<close>)
  moreover have "after_calls calls ?l = after_calls (c # calls) l" by (simp add: after_calls_def accept_called_def llog_def c)
  ultimately show ?case using sn Cons.prems(2) by (simp add: c)
qed

lemma numbered_calls:
  assumes "zip (numbered_fns fs) as = cs @ calls" and "length cs = n"
  shows "map (fst \<circ> fst) calls = map of_nat [n..<n + length calls]"
proof -
  have "map (fst \<circ> fst) (zip (numbered_fns fs) as) = map fst (take (min (length fs) (length as)) (numbered_fns fs))"
    by (simp add: map_fst_zip_take flip: map_map)
  also have "\<dots> = map of_nat [0..<min (length fs) (length as)]"
    by (simp add: numbered_numbers flip: take_map) (simp add: take_map)
  also have "min (length fs) (length as) = n + length calls" using arg_cong [OF assms(1), of length] assms(2) by simp
  finally have "map (fst \<circ> fst) cs @ map (fst \<circ> fst) calls = map of_nat [0..<n + length calls]" unfolding assms(1) by (simp add: comp_def)
  then have "map (fst \<circ> fst) calls = drop n (map of_nat [0..<n + length calls])" using assms(2) by (metis append_eq_conv_conj length_map)
  then show ?thesis by (simp add: drop_map)
qed

lemma called_zip: "accept_called (zip (numbered_fns fs) (accept_args ps)) = map (\<lambda>(f, p). (f, Success, Some p)) (zip fs ps)"
proof -
  have "zip fs ps = map (\<lambda>((sn, f), p). (f, p)) (zip (numbered_fns fs) ps)"
    unfolding zip_map1 [of snd "numbered_fns fs" ps, unfolded numbered_numbers] by (simp add: case_prod_beta)
  then show ?thesis by (simp add: accept_called_def accept_args_def zip_map2 case_prod_beta comp_def)
qed

section \<open>The callbacks of accept\<close>

definition accepted_ok :: "nat list \<Rightarrow> listener \<Rightarrow> bool" where
  "accepted_ok fs l \<longleftrightarrow> nextPipeBeingAccepted l = of_nat (length fs) \<and> nextAcceptCallbackToCall l = of_nat (length (accept_calls l)) \<and>
     (if is_error (l_error l)
      then callbacks (acceptCallback l) = [] \<and> connectionRequestRegistrations l = [] \<and> (\<exists>k \<le> length fs. k \<le> length (opened_pipes l) \<and>
        accept_calls l = map (\<lambda>(f, p). (f, Success, Some p)) (zip (take k fs) (opened_pipes l)) @ map (\<lambda>f. (f, l_error l, None)) (drop k fs))
      else rearmed (numbered_fns fs) (accept_args (opened_pipes l)) (acceptCallback l) \<and>
        accept_calls l = map (\<lambda>(f, p). (f, Success, Some p)) (zip fs (opened_pipes l)))"

lemma called_accepts: "concat (map accept_call (map (\<lambda>(fn, e, p). LCallAccept fn e p) cs)) = cs"
  "concat (map opened_pipe (map (\<lambda>(fn, e, p). LCallAccept fn e p) cs)) = []"
  "concat (map request_call (map (\<lambda>(fn, e, p). LCallAccept fn e p) cs)) = []"
  by (induction cs) auto

lemma after_calls_simps [simp]:
  "accept_calls (after_calls calls l) = accept_calls l @ accept_called calls" "opened_pipes (after_calls calls l) = opened_pipes l"
  "request_calls (after_calls calls l) = request_calls l"
  "l_error (after_calls calls l) = l_error l" "acceptCallback (after_calls calls l) = acceptCallback l" "l_listeners (after_calls calls l) = l_listeners l"
  "nextPipeBeingAccepted (after_calls calls l) = nextPipeBeingAccepted l"
  "nextAcceptCallbackToCall (after_calls calls l) = nextAcceptCallbackToCall l + of_nat (length calls)"
  "connectionRequestRegistrations (after_calls calls l) = connectionRequestRegistrations l"
  "nextConnectionRequestRegistrationId (after_calls calls l) = nextConnectionRequestRegistrationId l"
  "connectionsWaitingForHello (after_calls calls l) = connectionsWaitingForHello l"
  using called_accepts [of "accept_called calls"] by (simp_all add: after_calls_def llog_def)

lemma llog_simps [simp]:
  "l_log (llog es l) = l_log l @ es" "l_error (llog es l) = l_error l" "acceptCallback (llog es l) = acceptCallback l"
  "l_listeners (llog es l) = l_listeners l" "nextPipeBeingAccepted (llog es l) = nextPipeBeingAccepted l"
  "nextAcceptCallbackToCall (llog es l) = nextAcceptCallbackToCall l" "connectionRequestRegistrations (llog es l) = connectionRequestRegistrations l"
  "nextConnectionRequestRegistrationId (llog es l) = nextConnectionRequestRegistrationId l"
  "connectionsWaitingForHello (llog es l) = connectionsWaitingForHello l" "l_id (llog es l) = l_id l" "l_pipeCounter (llog es l) = l_pipeCounter l"
  by (simp_all add: llog_def)

lemma call_accepts_frame:
  "call_accepts calls l = Inr l' \<Longrightarrow> request_calls l' = request_calls l \<and> connectionRequestRegistrations l' = connectionRequestRegistrations l \<and>
    nextConnectionRequestRegistrationId l' = nextConnectionRequestRegistrationId l \<and> l_listeners l' = l_listeners l \<and> l_error l' = l_error l \<and>
    opened_pipes l' = opened_pipes l"
proof (induction calls arbitrary: l)
  case (Cons c calls)
  obtain sn fn e p where "c = ((sn, fn), e, p)" by (cases c) auto
  then show ?case using Cons.prems Cons.IH by (fastforce simp: dcheck_eq_Inr)
qed simp

lemma length_called [simp]: "length (accept_called calls) = length calls"
  by (simp add: accept_called_def)

lemma called_append: "accept_called (cs @ cs') = accept_called cs @ accept_called cs'"
  by (simp add: accept_called_def)

text \<open>One more callback, or one more pipe: the calls that become possible.\<close>

lemma accept_more:
  assumes ok: "accepted_ok fs l" and healthy: "\<not> is_error (l_error l)"
    and zip: "zip (numbered_fns fs') (accept_args ps') = zip (numbered_fns fs) (accept_args (opened_pipes l)) @ calls"
    and re: "rearmed (numbered_fns fs') (accept_args ps') cb"
    and l': "accept_calls l' = accept_calls l" "opened_pipes l' = ps'" "l_error l' = l_error l" "acceptCallback l' = cb"
      "nextPipeBeingAccepted l' = of_nat (length fs')" "nextAcceptCallbackToCall l' = nextAcceptCallbackToCall l"
  shows "call_accepts calls l' = Inr (after_calls calls l') \<and> accepted_ok fs' (after_calls calls l')"
proof -
  have a: "accept_calls l = accept_called (zip (numbered_fns fs) (accept_args (opened_pipes l)))" using ok healthy by (simp add: accepted_ok_def called_zip)
  then have len: "length (accept_calls l) = length (zip (numbered_fns fs) (accept_args (opened_pipes l)))" by simp
  have "map (fst \<circ> fst) calls = map of_nat [length (accept_calls l)..<length (accept_calls l) + length calls]"
    unfolding len by (rule numbered_calls [OF zip refl])
  then have run: "call_accepts calls l' = Inr (after_calls calls l')"
    by (rule call_accepts_eq) (use ok l'(6) in \<open>simp add: accepted_ok_def\<close>)
  have "accept_calls l @ accept_called calls = accept_called (zip (numbered_fns fs') (accept_args ps'))" unfolding a zip called_append ..
  moreover have "of_nat (min (length fs) (length (opened_pipes l))) + of_nat (length calls) = (of_nat (min (length fs') (length ps')) :: 64 word)"
    using arg_cong [OF zip, of length] by (simp flip: of_nat_add)
  ultimately show ?thesis using run re l' healthy ok by (simp add: accepted_ok_def called_zip)
qed

lemma acceptFromLoop_ok:
  assumes ok: "accepted_ok fs l"
  shows "\<exists>l'. acceptFromLoop fn l = Inr l' \<and> accepted_ok (fs @ [fn]) l'"
proof (cases "is_error (l_error l)")
  case True
  let ?l = "l\<lparr>nextPipeBeingAccepted := nextPipeBeingAccepted l + 1\<rparr>" and ?calls = "[((nextPipeBeingAccepted l, fn), l_error l, None)]"
  obtain k where k: "k \<le> length fs" "k \<le> length (opened_pipes l)" "accept_calls l = map (\<lambda>(f, p). (f, Success, Some p)) (zip (take k fs) (opened_pipes l)) @
      map (\<lambda>f. (f, l_error l, None)) (drop k fs)" using ok True by (auto simp: accepted_ok_def)
  have "length (accept_calls l) = length fs" unfolding k(3) using k(1,2) by simp
  then have run: "call_accepts ?calls ?l = Inr (after_calls ?calls ?l)"
    using ok by (intro call_accepts_eq [of _ "length fs"]) (simp_all add: accepted_ok_def)
  have "accepted_ok (fs @ [fn]) (after_calls ?calls ?l)"
    using ok True k by (auto simp: accepted_ok_def accept_called_def intro!: exI [of _ k])
  then show ?thesis using run True by (simp add: acceptFromLoop_def Let_def)
next
  case False
  obtain calls cb where cb: "arm (nextPipeBeingAccepted l, fn) (acceptCallback l) = (calls, cb)" by fastforce
  have n: "nextPipeBeingAccepted l = of_nat (length fs)" and re: "rearmed (numbered_fns fs) (accept_args (opened_pipes l)) (acceptCallback l)"
    using ok False by (simp_all add: accepted_ok_def)
  note arm = arm_rearmed [OF re cb, unfolded n numbered_fns_snoc [symmetric]]
  let ?l = "l\<lparr>nextPipeBeingAccepted := nextPipeBeingAccepted l + 1, acceptCallback := cb\<rparr>"
  have "call_accepts calls ?l = Inr (after_calls calls ?l) \<and> accepted_ok (fs @ [fn]) (after_calls calls ?l)"
    by (rule accept_more [OF ok False arm(2,1)]) (simp_all add: n)
  then show ?thesis using False cb by (simp add: acceptFromLoop_def Let_def)
qed

lemma open_pipe_ok:
  assumes ok: "accepted_ok fs l" and healthy: "\<not> is_error (l_error l)"
    and cb: "trigger (Success, Some p) (acceptCallback l) = (calls, cb)"
  shows "\<exists>l'. call_accepts calls (llog [LOpenPipe p] (l\<lparr>l_pipeCounter := n, acceptCallback := cb\<rparr>)) = Inr l' \<and> accepted_ok fs l' \<and>
    l' = after_calls calls (llog [LOpenPipe p] (l\<lparr>l_pipeCounter := n, acceptCallback := cb\<rparr>))"
proof -
  let ?l = "llog [LOpenPipe p] (l\<lparr>l_pipeCounter := n, acceptCallback := cb\<rparr>)"
  have re: "rearmed (numbered_fns fs) (accept_args (opened_pipes l)) (acceptCallback l)" using ok healthy by (simp add: accepted_ok_def)
  note tr = trigger_rearmed [OF re cb, folded accept_args_snoc]
  have "call_accepts calls ?l = Inr (after_calls calls ?l) \<and> accepted_ok fs (after_calls calls ?l)"
    by (rule accept_more [OF ok healthy tr(2,1)]) (use ok in \<open>simp_all add: accepted_ok_def\<close>)
  then show ?thesis by blast
qed

lemma handleError_ok:
  assumes ok: "accepted_ok fs l" and healthy: "\<not> is_error (l_error l)" and e: "is_error e"
  shows "\<exists>l'. listener_handleError (l\<lparr>l_error := e\<rparr>) = Inr l' \<and> accepted_ok fs l' \<and> l_error l' = e \<and> l_listeners l' = l_listeners l \<and>
    connectionRequestRegistrations l' = [] \<and> request_calls l' = request_calls l @ connectionRequestRegistrations l \<and>
    nextConnectionRequestRegistrationId l' = nextConnectionRequestRegistrationId l \<and> connectionsWaitingForHello l' = [] \<and>
    (\<forall>t \<in> set (l_listeners l). LCloseListener t \<in> set (l_log l'))"
proof -
  obtain calls cb where cb: "triggerAll (e, None) (acceptCallback l) = (calls, cb)" by fastforce
  have re: "rearmed (numbered_fns fs) (accept_args (opened_pipes l)) (acceptCallback l)" using ok healthy by (simp add: accepted_ok_def)
  note T = triggerAll_rearmed [OF re cb]
  let ?k = "min (length fs) (length (opened_pipes l))" and ?l = "l\<lparr>l_error := e, acceptCallback := cb\<rparr>"
  have drop: "drop (length (opened_pipes l)) (numbered_fns fs) = drop ?k (numbered_fns fs)" by (simp add: min_def)
  have "map (fst \<circ> fst) calls = map of_nat [?k..<?k + length calls]"
    unfolding T(1) length_numbered_fns drop by (simp add: comp_def numbered_numbers flip: drop_map) (simp add: drop_map)
  moreover have "nextAcceptCallbackToCall ?l = of_nat ?k" using ok healthy by (simp add: accepted_ok_def)
  ultimately have run: "call_accepts calls ?l = Inr (after_calls calls ?l)" by (rule call_accepts_eq)
  have called: "accept_called calls = map (\<lambda>f. (f, e, None)) (drop ?k fs)"
  proof -
    have "accept_called calls = map (\<lambda>f. (f, e, None)) (map snd (drop ?k (numbered_fns fs)))"
      unfolding T(1) length_numbered_fns drop by (simp add: accept_called_def comp_def case_prod_beta)
    then show ?thesis by (simp add: numbered_numbers flip: drop_map)
  qed
  let ?m = "after_calls calls ?l"
  define l' where "l' = (llog ([] @ map (\<lambda>(i, fn). LCallRequest i fn e None) (connectionRequestRegistrations l) @ map LCloseListener (l_listeners l) @
      map LCloseConnection (connectionsWaitingForHello l) @ [LUnenroll]) ?m)\<lparr>connectionRequestRegistrations := [], connectionsWaitingForHello := []\<rparr>"
  have h: "listener_handleError (l\<lparr>l_error := e\<rparr>) = Inr l'"
    using cb run by (simp add: listener_handleError_def Let_def l'_def llog_def)
  have none: "concat (map accept_call (map (\<lambda>(i, fn). LCallRequest i fn e None) rs)) = []" "concat (map opened_pipe (map (\<lambda>(i, fn). LCallRequest i fn e None) rs)) = []"
    "concat (map request_call (map (\<lambda>(i, fn). LCallRequest i fn e None) rs)) = rs" for rs by (induction rs) auto
  have closes: "concat (map accept_call (map LCloseListener ts)) = []" "concat (map opened_pipe (map LCloseListener ts)) = []" "concat (map request_call (map LCloseListener ts)) = []"
    "concat (map accept_call (map LCloseConnection cs)) = []" "concat (map opened_pipe (map LCloseConnection cs)) = []" "concat (map request_call (map LCloseConnection cs)) = []"
    for ts cs by simp_all
  have calls: "accept_calls l' = accept_calls l @ accept_called calls" "opened_pipes l' = opened_pipes l" "request_calls l' = request_calls l @ connectionRequestRegistrations l"
    using none after_calls_simps(1-3) [of calls ?l] by (simp_all add: l'_def closes del: after_calls_simps map_map)
  have "length (accept_calls l') = ?k + length calls" using calls(1) ok healthy by (simp add: accepted_ok_def)
  moreover have "nextAcceptCallbackToCall l' = of_nat (?k + length calls)" using ok healthy by (simp add: l'_def accepted_ok_def)
  moreover have "accept_calls l' = map (\<lambda>(f, p). (f, Success, Some p)) (zip (take ?k fs) (opened_pipes l')) @ map (\<lambda>f. (f, e, None)) (drop ?k fs)"
  proof -
    have "zip (take ?k fs) (opened_pipes l) = zip fs (opened_pipes l)" by (rule nth_equalityI) auto
    then show ?thesis unfolding calls called using ok healthy by (simp add: accepted_ok_def)
  qed
  moreover have "nextPipeBeingAccepted l' = of_nat (length fs)" "callbacks (acceptCallback l') = []" "l_error l' = e" "connectionRequestRegistrations l' = []"
    using ok T(2) by (simp_all add: l'_def accepted_ok_def)
  ultimately have "accepted_ok fs l'" using e calls(2) unfolding accepted_ok_def by (auto intro!: exI [of _ ?k])
  then show ?thesis using h calls(3) by (auto simp: l'_def)
qed

lemma setError_ok:
  assumes "accepted_ok fs l"
  shows "\<exists>l'. listener_setError e l = Inr l' \<and> accepted_ok fs l' \<and> l_listeners l' = l_listeners l \<and>
    nextConnectionRequestRegistrationId l' = nextConnectionRequestRegistrationId l \<and>
    (if is_error (l_error l) \<or> \<not> is_error e then l' = l
     else l_error l' = e \<and> connectionRequestRegistrations l' = [] \<and> request_calls l' = request_calls l @ connectionRequestRegistrations l)"
  using assms handleError_ok [of fs l e] by (auto simp: listener_setError_def)

section \<open>Connection requests\<close>

definition registered_as :: "listener_event list \<Rightarrow> 64 word \<times> nat \<Rightarrow> bool" where
  "registered_as evs x \<longleftrightarrow> (\<exists>j < length (registers evs). x = (of_nat j, registers evs ! j))"

definition request_list_ok :: "listener_event list \<Rightarrow> (64 word \<times> nat) list \<Rightarrow> bool" where
  "request_list_ok evs xs \<longleftrightarrow> distinct (map fst xs) \<and>
     (\<forall>x \<in> set xs. registered_as evs x) \<and>
     (\<forall>j < length (registers evs). of_nat j \<in> fst ` set xs \<or> LUnregister (of_nat j) \<in> set evs)"

definition requests_ok :: "listener_event list \<Rightarrow> listener \<Rightarrow> bool" where
  "requests_ok evs l \<longleftrightarrow> nextConnectionRequestRegistrationId l = of_nat (length (registers evs)) \<and>
     request_list_ok evs (request_calls l @ connectionRequestRegistrations l)"

lemma request_list_ok_mset:
  assumes "mset xs = mset ys"
  shows "request_list_ok evs xs = request_list_ok evs ys"
proof -
  have "mset (map fst xs) = mset (map fst ys)" using assms by simp
  then have "distinct (map fst xs) = distinct (map fst ys)" by (rule mset_eq_imp_distinct_iff)
  then show ?thesis using mset_eq_setD [OF assms] by (simp add: request_list_ok_def)
qed

lemma registered_as_mono: "registered_as evs x \<Longrightarrow> registered_as (evs @ [ev]) x"
proof -
  assume "registered_as evs x"
  then obtain j where "j < length (registers evs)" "x = (of_nat j, registers evs ! j)" by (auto simp: registered_as_def)
  then show ?thesis unfolding registered_as_def by (intro exI [of _ j]) (simp add: nth_append)
qed

lemma request_list_ok_other:
  "register_of ev = [] \<Longrightarrow> request_list_ok evs xs \<Longrightarrow> request_list_ok (evs @ [ev]) xs"
  by (simp add: request_list_ok_def registered_as_mono) blast

lemma request_list_ok_unregister:
  assumes "request_list_ok evs (cs @ rs)"
  shows "request_list_ok (evs @ [LUnregister i]) (cs @ AList.delete i rs)"
proof -
  have sub: "set (AList.delete i rs) \<subseteq> set rs" "\<And>x. x \<in> set rs \<Longrightarrow> x \<in> set (AList.delete i rs) \<or> fst x = i" by (auto simp: AList.delete_eq)
  have "distinct (map fst (cs @ AList.delete i rs))" using assms distinct_delete [of rs i] sub(1) by (auto simp: request_list_ok_def)
  moreover have "\<forall>x \<in> set (cs @ AList.delete i rs). registered_as (evs @ [LUnregister i]) x"
  proof
    fix x
    assume "x \<in> set (cs @ AList.delete i rs)"
    then have "x \<in> set (cs @ rs)" using sub(1) by auto
    then show "registered_as (evs @ [LUnregister i]) x" using assms by (auto simp: request_list_ok_def intro: registered_as_mono)
  qed
  moreover have "\<forall>x \<in> fst ` set (cs @ rs). x \<in> fst ` set (cs @ AList.delete i rs) \<or> x = i" using sub(2) by force
  then have "\<forall>j < length (registers evs). of_nat j \<in> fst ` set (cs @ AList.delete i rs) \<or> LUnregister (of_nat j) \<in> set (evs @ [LUnregister i])"
    using assms unfolding request_list_ok_def by (metis list.set_intros(1) Un_iff set_append)
  ultimately show ?thesis unfolding request_list_ok_def by simp
qed

lemma unat_of_nat64: "n < 2 ^ 64 \<Longrightarrow> unat (of_nat n :: 64 word) = n"
  by (simp add: unat_of_nat take_bit_nat_eq_self)

lemma request_list_ok_register:
  assumes ok: "request_list_ok evs xs" and few: "length (registers evs) < 2 ^ 64"
  shows "request_list_ok (evs @ [LRegister fn]) (xs @ [(of_nat (length (registers evs)), fn)])"
    and "of_nat (length (registers evs)) \<notin> fst ` set xs"
proof -
  let ?n = "length (registers evs)"
  show new: "of_nat ?n \<notin> fst ` set xs"
  proof
    assume "of_nat ?n \<in> fst ` set xs"
    then obtain f where "(of_nat ?n, f) \<in> set xs" by force
    then obtain j where "j < ?n" "(of_nat j :: 64 word) = of_nat ?n" using ok by (auto simp: request_list_ok_def registered_as_def)
    then show False using few unat_of_nat64 [of j] unat_of_nat64 [of ?n] by simp
  qed
  show "request_list_ok (evs @ [LRegister fn]) (xs @ [(of_nat ?n, fn)])"
  proof -
    have "registered_as (evs @ [LRegister fn]) (of_nat ?n, fn)" unfolding registered_as_def by (rule exI [of _ ?n]) simp
    moreover have "distinct (map fst (xs @ [(of_nat ?n, fn)]))" using ok new by (simp add: request_list_ok_def)
    ultimately show ?thesis using ok by (simp add: request_list_ok_def less_Suc_eq registered_as_mono)
  qed
qed

section \<open>Every event keeps the invariant\<close>

definition listener_ok :: "listener_event list \<Rightarrow> listener \<Rightarrow> bool" where
  "listener_ok evs l \<longleftrightarrow> accepted_ok (accepts evs) l \<and> (length (registers evs) \<le> 2 ^ 64 \<longrightarrow> requests_ok evs l)"

definition listener_good :: "pipe_context \<Rightarrow> listener_event list \<Rightarrow> listener_event \<Rightarrow> listener \<Rightarrow> bool" where
  "listener_good ctx evs ev l \<longleftrightarrow> (\<exists>l'. listener_step ctx ev l = Inr l' \<and> listener_ok (evs @ [ev]) l')"

text \<open>Events that neither ask for a pipe nor register for a connection.\<close>

lemma listener_ok_internal:
  assumes ok: "listener_ok evs l" and ev: "accept_of ev = []" "register_of ev = []" and acc: "accepted_ok (accepts evs) l'"
    and id: "nextConnectionRequestRegistrationId l' = nextConnectionRequestRegistrationId l"
    and calls: "length (registers evs) \<le> 2 ^ 64 \<Longrightarrow> mset (request_calls l' @ connectionRequestRegistrations l') = mset (request_calls l @ connectionRequestRegistrations l)"
  shows "listener_ok (evs @ [ev]) l'"
proof -
  have "requests_ok (evs @ [ev]) l'" if "requests_ok evs l" and few: "length (registers evs) \<le> 2 ^ 64"
  proof -
    have "request_list_ok evs (request_calls l' @ connectionRequestRegistrations l')"
      using that request_list_ok_mset [OF calls [OF few]] by (simp add: requests_ok_def)
    then show ?thesis using that ev(2) id by (simp add: requests_ok_def request_list_ok_other)
  qed
  then show ?thesis using ok acc ev by (simp add: listener_ok_def)
qed

lemma setError_listener_ok:
  assumes ok: "listener_ok evs l" and ev: "accept_of ev = []" "register_of ev = []"
  shows "\<exists>l'. listener_setError e l = Inr l' \<and> listener_ok (evs @ [ev]) l' \<and> (if is_error e then is_error (l_error l') else l' = l)"
proof -
  have acc: "accepted_ok (accepts evs) l" using ok by (simp add: listener_ok_def)
  obtain l' where l': "listener_setError e l = Inr l'" "accepted_ok (accepts evs) l'"
    "nextConnectionRequestRegistrationId l' = nextConnectionRequestRegistrationId l"
    "if is_error (l_error l) \<or> \<not> is_error e then l' = l
     else l_error l' = e \<and> connectionRequestRegistrations l' = [] \<and> request_calls l' = request_calls l @ connectionRequestRegistrations l"
    using setError_ok [OF acc, of e] by blast
  have "listener_ok (evs @ [ev]) l'"
    by (rule listener_ok_internal [OF ok ev l'(2,3)]) (use l'(4) in \<open>auto split: if_splits\<close>)
  then show ?thesis using l' by (auto split: if_splits)
qed

lemma listener_entry:
  assumes ok: "listener_ok evs l" and ev: "accept_of ev = []" "register_of ev = []"
    and fn: "\<not> is_error (l_error l) \<Longrightarrow> \<not> is_error e \<Longrightarrow> \<exists>l'. fn l = Inr l' \<and> listener_ok (evs @ [ev]) l'"
  shows "\<exists>l'. entryPointFromLoop listener_setError e (\<lambda>l. if is_error (l_error l) then Inr l else fn l) l = Inr l' \<and> listener_ok (evs @ [ev]) l'"
proof -
  obtain l' where l': "listener_setError e l = Inr l'" "listener_ok (evs @ [ev]) l'" "if is_error e then is_error (l_error l') else l' = l"
    using setError_listener_ok [OF ok ev] by blast
  then show ?thesis using fn by (cases "is_error (l_error l')") (auto simp: entryPointFromLoop_def split: if_splits)
qed

lemma listener_step_accept: "listener_ok evs l \<Longrightarrow> listener_good ctx evs (LAccept fn) l"
proof -
  assume ok: "listener_ok evs l"
  then obtain l' where l': "acceptFromLoop fn l = Inr l'" "accepted_ok (accepts evs @ [fn]) l'"
    using acceptFromLoop_ok [of "accepts evs" l fn] by (auto simp: listener_ok_def)
  have "request_calls l' = request_calls l \<and> connectionRequestRegistrations l' = connectionRequestRegistrations l \<and>
      nextConnectionRequestRegistrationId l' = nextConnectionRequestRegistrationId l"
  proof (cases "is_error (l_error l)")
    case True
    then show ?thesis using l'(1) call_accepts_frame [of _ "l\<lparr>nextPipeBeingAccepted := nextPipeBeingAccepted l + 1\<rparr>" l']
      by (simp add: acceptFromLoop_def Let_def del: call_accepts.simps)
  next
    case False
    then show ?thesis using l'(1)
      by (auto simp: acceptFromLoop_def Let_def split: prod.split_asm dest!: call_accepts_frame)
  qed
  then have "requests_ok (evs @ [LAccept fn]) l'" if "requests_ok evs l"
    using that by (simp add: requests_ok_def request_list_ok_other)
  then show ?thesis using ok l' by (simp add: listener_good_def listener_ok_def)
qed

lemma listener_step_register: "listener_ok evs l \<Longrightarrow> listener_good ctx evs (LRegister fn) l"
proof -
  assume ok: "listener_ok evs l"
  let ?l = "snd (registerConnectionRequest fn l)" and ?i = "nextConnectionRequestRegistrationId l"
  have acc: "accepted_ok (accepts evs) ?l"
    using ok by (auto simp: listener_ok_def accepted_ok_def registerConnectionRequest_def Let_def)
  have "requests_ok (evs @ [LRegister fn]) ?l" if few: "length (registers evs) < 2 ^ 64"
  proof -
    have req: "?i = of_nat (length (registers evs))" "request_list_ok evs (request_calls l @ connectionRequestRegistrations l)"
      using ok few by (simp_all add: listener_ok_def requests_ok_def)
    note R = request_list_ok_register(1) [OF req(2) few, of fn, folded req(1)] request_list_ok_register(2) [OF req(2) few, folded req(1)]
    have e: "is_error (l_error l) \<Longrightarrow> connectionRequestRegistrations l = []" using ok by (simp add: listener_ok_def accepted_ok_def)
    have "map_of (connectionRequestRegistrations l) ?i = None" using R(2) by (auto simp: map_of_eq_None_iff)
    then have "mset (request_calls ?l @ connectionRequestRegistrations ?l) = mset ((request_calls l @ connectionRequestRegistrations l) @ [(?i, fn)])"
      using e by (auto simp: registerConnectionRequest_def Let_def map_emplace_def)
    then have "request_list_ok (evs @ [LRegister fn]) (request_calls ?l @ connectionRequestRegistrations ?l)" using R(1) request_list_ok_mset by blast
    then show ?thesis using req(1) by (simp add: requests_ok_def registerConnectionRequest_def Let_def)
  qed
  then show ?thesis using acc by (simp add: listener_good_def listener_ok_def)
qed

lemma listener_step_unregister: "listener_ok evs l \<Longrightarrow> listener_good ctx evs (LUnregister i) l"
proof -
  assume ok: "listener_ok evs l"
  have "accepted_ok (accepts evs) (unregisterConnectionRequest i l)"
    using ok by (auto simp: listener_ok_def accepted_ok_def unregisterConnectionRequest_def)
  moreover have "requests_ok (evs @ [LUnregister i]) (unregisterConnectionRequest i l)" if "requests_ok evs l"
    using that request_list_ok_unregister by (auto simp: requests_ok_def unregisterConnectionRequest_def)
  ultimately show ?thesis using ok by (simp add: listener_good_def listener_ok_def)
qed

lemma listener_step_accepted:
  assumes ok: "listener_ok evs l" and t: "transport \<in> set (l_listeners l)"
  shows "listener_good ctx evs (LAccepted transport e connection) l"
  unfolding listener_good_def listener_step.simps onTransportAccept_def
proof (rule listener_entry [OF ok])
  let ?l = "llog [LReadHello connection, LAcceptOn transport] (l\<lparr>connectionsWaitingForHello := List.insert connection (connectionsWaitingForHello l)\<rparr>)"
  have "armListener transport (onAccept connection l) = Inr ?l" using t by (simp add: armListener_def onAccept_def llog_def)
  moreover have "listener_ok (evs @ [LAccepted transport e connection]) ?l"
    by (rule listener_ok_internal [OF ok]) (use ok in \<open>auto simp: listener_ok_def accepted_ok_def\<close>)
  ultimately show "\<exists>l'. armListener transport (onAccept connection l) = Inr l' \<and> listener_ok (evs @ [LAccepted transport e connection]) l'" by blast
qed simp_all

lemma listener_step_hello:
  assumes ok: "listener_ok evs l"
  shows "listener_good ctx evs (LHello closed transport connection e packet) l"
  unfolding listener_good_def listener_step.simps onHelloRead_def
proof (rule listener_entry [OF ok])
  assume healthy: "\<not> is_error (l_error l)"
  let ?ev = "LHello closed transport connection e packet"
  let ?l = "l\<lparr>connectionsWaitingForHello := removeAll connection (connectionsWaitingForHello l)\<rparr>"
  have acc: "accepted_ok (accepts evs) ?l" using ok by (auto simp: listener_ok_def accepted_ok_def)
  have req: "requests_ok evs l" if "length (registers evs) \<le> 2 ^ 64" using ok that by (simp add: listener_ok_def)
  consider (spontaneous) name where "packet = Some (SpontaneousConnection name)" | (requested) i where "packet = Some (RequestedConnection i)" | (unknown) "packet = None"
    by (metis option.exhaust packet.exhaust)
  then show "\<exists>l'. onConnectionHelloRead ctx closed transport connection packet ?l = Inr l' \<and> listener_ok (evs @ [?ev]) l'"
  proof cases
    case spontaneous
    define p where "p = pipe_initFromLoop closed ctx (PipeImpl_server (if name \<noteq> [] then l_id l @ ''_from_'' @ name
      else l_id l @ ''.p'' @ to_string (unat (l_pipeCounter l))) name transport connection)"
    obtain calls cb where cb: "trigger (Success, Some p) (acceptCallback ?l) = (calls, cb)" by fastforce
    obtain l' where l': "call_accepts calls (llog [LOpenPipe p] (?l\<lparr>l_pipeCounter := l_pipeCounter l + 1, acceptCallback := cb\<rparr>)) = Inr l'" "accepted_ok (accepts evs) l'"
      using open_pipe_ok [OF acc _ cb] healthy by auto
    have "onConnectionHelloRead ctx closed transport connection packet ?l = Inr l'"
      using l'(1) cb by (simp add: onConnectionHelloRead_def spontaneous p_def Let_def llog_def cong: if_cong)
    moreover have "listener_ok (evs @ [?ev]) l'"
      by (rule listener_ok_internal [OF ok _ _ l'(2)]) (use call_accepts_frame [OF l'(1)] in simp_all)
    ultimately show ?thesis by blast
  next
    case (requested i)
    show ?thesis
    proof (cases "map_of (connectionRequestRegistrations l) i")
      case None
      have "listener_ok (evs @ [?ev]) ?l" by (rule listener_ok_internal [OF ok _ _ acc]) simp_all
      then show ?thesis using None requested by (simp add: onConnectionHelloRead_def)
    next
      case (Some fn)
      let ?l' = "llog [LCallRequest i fn Success (Some (transport, connection))] (?l\<lparr>connectionRequestRegistrations := AList.delete i (connectionRequestRegistrations l)\<rparr>)"
      have "mset (connectionRequestRegistrations l) = add_mset (i, fn) (mset (AList.delete i (connectionRequestRegistrations l)))"
        if "length (registers evs) \<le> 2 ^ 64"
        using mset_delete [OF _ Some, of id] req [OF that] by (simp add: requests_ok_def request_list_ok_def)
      then have "listener_ok (evs @ [?ev]) ?l'"
        by (intro listener_ok_internal [OF ok]) (use acc healthy in \<open>simp_all add: accepted_ok_def\<close>)
      then show ?thesis using Some requested by (simp add: onConnectionHelloRead_def)
    qed
  next
    case unknown
    have "listener_ok (evs @ [?ev]) (llog [LUnknownPacket] ?l)"
      by (rule listener_ok_internal [OF ok]) (use acc healthy in \<open>simp_all add: accepted_ok_def\<close>)
    then show ?thesis using unknown by (simp add: onConnectionHelloRead_def)
  qed
qed simp_all

lemma listener_step_close: "listener_ok evs l \<Longrightarrow> listener_good ctx evs LClose l"
  using setError_listener_ok [of evs l LClose ListenerClosedError] by (auto simp: listener_good_def listener_closeFromLoop_def)

lemma listener_step_good: "listener_ok evs l \<Longrightarrow> listener_enabled ev l \<Longrightarrow> listener_good ctx evs ev l"
  by (cases ev) (simp_all add: listener_step_accept listener_step_register listener_step_unregister listener_step_accepted
      listener_step_hello listener_step_close)

text \<open>The states before the first event.\<close>

definition listener_quiet :: "listener \<Rightarrow> bool" where
  "listener_quiet l \<longleftrightarrow> acceptCallback l = no_callbacks \<and> nextPipeBeingAccepted l = 0 \<and> nextAcceptCallbackToCall l = 0 \<and>
     nextConnectionRequestRegistrationId l = 0 \<and> connectionRequestRegistrations l = [] \<and>
     accept_calls l = [] \<and> request_calls l = [] \<and> opened_pipes l = []"

lemma listen_urls_quiet: "listen_urls ctx materialize urls l = Inr l' \<Longrightarrow> listener_quiet l \<Longrightarrow> listener_quiet l'"
  by (induction ctx materialize urls l rule: listen_urls.induct) (fastforce simp: bindR_eq_Inr listener_quiet_def)+

lemma arm_listeners_total: "set ts \<subseteq> set (l_listeners l) \<Longrightarrow> arm_listeners ts l = Inr (llog (map LAcceptOn ts) l)"
  by (induction ts arbitrary: l) (simp_all add: armListener_def llog_def)

lemma init_quiet:
  assumes "listener_quiet l"
  shows "\<exists>l'. listener_initFromLoop closed l = Inr l' \<and> listener_quiet l' \<and> l_error l' = (if closed then ListenerClosedError else l_error l)"
  using assms arm_listeners_total [of "l_listeners l" "llog [LEnroll] l"]
  by (auto simp: listener_initFromLoop_def listener_quiet_def comp_def)

lemma quiet_ok: "listener_quiet l \<Longrightarrow> listener_ok [] l"
  by (auto simp: listener_quiet_def listener_ok_def accepted_ok_def requests_ok_def request_list_ok_def numbered_fns_def accept_args_def
      no_callbacks_def rearmed_def simp del: concat_eq_Nil_conv)

lemma listener_trace_ok: "listener_trace ctx evs l \<Longrightarrow> listener_ok evs l"
proof (induction rule: listener_trace.induct)
  case (listener_started materialize lid urls l closed l')
  have "listener_quiet (listener_new lid)" by (simp add: listener_quiet_def listener_new_def)
  then have "listener_quiet l" using listener_started(1) listen_urls_quiet by (simp add: ListenerImpl_def)
  then show ?case using init_quiet [of l closed] listener_started(2) quiet_ok by auto
next
  case (listener_stepped evs l ev l')
  then show ?case using listener_step_good [of evs l ev ctx] by (simp add: listener_good_def)
qed

lemma listener_trace_step:
  "listener_trace ctx evs l \<Longrightarrow> listener_enabled ev l \<Longrightarrow> \<exists>l'. listener_step ctx ev l = Inr l' \<and> listener_trace ctx (evs @ [ev]) l'"
  using listener_step_good [OF listener_trace_ok, of ctx evs l ev ctx] listener_stepped [of ctx evs l ev] by (auto simp: listener_good_def)

section \<open>The pipes that are handed out\<close>

lemma server_pipe_state: "p_state (pcore (pipe_initFromLoop closed ctx (PipeImpl_server pid name transport connection))) = SERVER_WAITING_FOR_BROCHURE"
  by (simp add: pipe_initFromLoop_def PipeImpl_server_def pipe_new_def pcall_def plog_def Let_def)

lemma setError_opened: "listener_setError e l = Inr l' \<Longrightarrow> opened_pipes l' = opened_pipes l"
proof -
  have r: "concat (map opened_pipe (map (\<lambda>(i, fn). LCallRequest i fn e None) rs)) = []" for e and rs by (induction rs) auto
  have c: "concat (map opened_pipe (map LCloseListener ts)) = []" "concat (map opened_pipe (map LCloseConnection cs)) = []" for ts cs by simp_all
  assume "listener_setError e l = Inr l'"
  then show ?thesis using r c
    by (auto simp: listener_setError_def listener_handleError_def Let_def bindR_eq_Inr comp_def simp del: map_map concat_eq_Nil_conv
        split: if_split_asm prod.split_asm dest!: call_accepts_frame)
qed

lemma hello_opened:
  assumes "onConnectionHelloRead ctx closed transport connection packet l = Inr l'" and "p \<in> set (opened_pipes l')"
  shows "p \<in> set (opened_pipes l) \<or> p_state (pcore p) = SERVER_WAITING_FOR_BROCHURE"
proof (cases packet)
  case (Some pk)
  then show ?thesis
  proof (cases pk)
    case (SpontaneousConnection name)
    define q where "q = pipe_initFromLoop closed ctx (PipeImpl_server (if name \<noteq> [] then l_id l @ ''_from_'' @ name
      else l_id l @ ''.p'' @ to_string (unat (l_pipeCounter l))) name transport connection)"
    obtain calls cb where "trigger (Success, Some q) (acceptCallback l) = (calls, cb)" by fastforce
    then have "call_accepts calls (llog [LOpenPipe q] (l\<lparr>l_pipeCounter := l_pipeCounter l + 1, acceptCallback := cb\<rparr>)) = Inr l'"
      using assms(1) Some SpontaneousConnection by (simp add: onConnectionHelloRead_def q_def Let_def cong: if_cong)
    from call_accepts_frame [OF this] have "opened_pipes l' = opened_pipes l @ [q]" by simp
    then show ?thesis using assms(2) by (auto simp: q_def server_pipe_state)
  qed (use assms Some in \<open>auto simp: onConnectionHelloRead_def split: option.split_asm\<close>)
qed (use assms in \<open>auto simp: onConnectionHelloRead_def\<close>)

lemma listener_step_opened:
  assumes "listener_step ctx ev l = Inr l'" and "p \<in> set (opened_pipes l')"
  shows "p \<in> set (opened_pipes l) \<or> p_state (pcore p) = SERVER_WAITING_FOR_BROCHURE"
proof (cases ev)
  case (LAccept fn)
  then show ?thesis using assms by (auto simp: acceptFromLoop_def Let_def dcheck_eq_Inr simp del: set_concat split: if_split_asm prod.split_asm dest!: call_accepts_frame)
next
  case (LHello closed transport connection e packet)
  then obtain l1 where l1: "listener_setError e l = Inr l1" "opened_pipes l1 = opened_pipes l"
    "(if is_error (l_error l1) then Inr l1 else onConnectionHelloRead ctx closed transport connection packet
        (l1\<lparr>connectionsWaitingForHello := removeAll connection (connectionsWaitingForHello l1)\<rparr>)) = Inr l'"
    using assms(1) setError_opened by (auto simp: onHelloRead_def entryPointFromLoop_def bindR_eq_Inr)
  show ?thesis
  proof (cases "is_error (l_error l1)")
    case True
    then show ?thesis using l1 assms(2) by (simp del: set_concat)
  next
    case False
    then show ?thesis using l1 hello_opened [OF _ assms(2)] by fastforce
  qed
next
  case (LAccepted transport e connection)
  then show ?thesis using assms
    by (auto simp: onTransportAccept_def entryPointFromLoop_def bindR_eq_Inr armListener_def onAccept_def simp del: set_concat
        split: if_split_asm dest!: setError_opened)
next
  case LClose
  then show ?thesis using assms setError_opened by (auto simp: listener_closeFromLoop_def simp del: set_concat)
qed (use assms in \<open>auto simp: registerConnectionRequest_def unregisterConnectionRequest_def Let_def simp del: set_concat split: if_split_asm\<close>)

text \<open>A pipe is handed out as soon as its first packet was read, before the handshake.\<close>

lemma listener_pipe_not_established:
  assumes "listener_trace ctx evs l" and "p \<in> set (opened_pipes l)"
  shows "p_state (pcore p) = SERVER_WAITING_FOR_BROCHURE"
  using assms
proof (induction arbitrary: p rule: listener_trace.induct)
  case (listener_started materialize lid urls l closed l')
  have "listener_quiet (listener_new lid)" by (simp add: listener_quiet_def listener_new_def)
  then have "listener_quiet l" using listener_started(1) listen_urls_quiet by (simp add: ListenerImpl_def)
  then show ?case using init_quiet [of l closed] listener_started by (auto simp: listener_quiet_def)
next
  case (listener_stepped evs l ev l')
  then show ?case using listener_step_opened by blast
qed

section \<open>Properties\<close>

definition listener_context :: pipe_context where
  "listener_context = \<lparr>ctx_name = ''b'', ctx_transports = [\<lparr>tc_name = ''uv'', tc_domainDescriptor = ''d'', tc_canCommunicateWithRemote = (\<lambda>_. True)\<rparr>],
     ctx_channels = []\<rparr>"

lemma sample_listener: "\<exists>l. listener_trace listener_context [] l \<and> l_error l = Success \<and> listener_quiet l"
proof -
  obtain l where l: "ListenerImpl listener_context (\<lambda>t a. a) ''l'' [''uv://x''] = Inr l" "l_error l = Success" "listener_quiet l"
  proof -
    have t: "\<exists>t. getTransport listener_context ''uv'' = Inr t" by (simp add: getTransport_def listener_context_def)
    have u: "splitSchemeOfURL ''uv://x'' = Inr (''uv'', ''x'')" by code_simp
    define l where "l = (llog [LListen ''uv'' ''x'', LSetListenerId ''uv'' (''l'' @ ''.tr_'' @ ''uv'')] (listener_new ''l''))
      \<lparr>l_addresses := map_emplace ''uv'' ''x'' [], l_listeners := [''uv'']\<rparr>"
    have "ListenerImpl listener_context (\<lambda>t a. a) ''l'' [''uv://x''] = Inr l"
      using t u by (auto simp: ListenerImpl_def l_def listener_new_def llog_def)
    moreover have "l_error l = Success" "listener_quiet l" by (simp_all add: l_def listener_quiet_def listener_new_def)
    ultimately show thesis using that by blast
  qed
  obtain l' where "listener_initFromLoop False l = Inr l'" "l_error l' = Success" "listener_quiet l'" using init_quiet [OF l(3), of False] l(2) by auto
  then show ?thesis using listener_started [OF l(1)] by blast
qed



text \<open>
  C11: a connection request is answered at most once, by the callback that was registered under its
  number, and once the listener has failed or was closed, every request that was not withdrawn
  was answered, also those registered later. (Numbers are 64 bits wide.)
\<close>

theorem listener_requests_once:
  assumes "listener_trace ctx evs l" and "length (registers evs) \<le> 2 ^ 64"
  shows "distinct (map fst (request_calls l)) \<and> (\<forall>x \<in> set (request_calls l). registered_as evs x) \<and>
    (is_error (l_error l) \<longrightarrow> (\<forall>j < length (registers evs). of_nat j \<in> fst ` set (request_calls l) \<or> LUnregister (of_nat j) \<in> set evs))"
  using listener_trace_ok [OF assms(1)] assms(2) by (auto simp: listener_ok_def accepted_ok_def requests_ok_def request_list_ok_def)

theorem listener_requests_once_witness:
  "\<exists>l. listener_trace listener_context [LRegister 4, LClose] l \<and> fst ` set (request_calls l) = {0}"
proof -
  obtain l where l: "listener_trace listener_context [] l" using sample_listener by blast
  obtain l1 where l1: "listener_trace listener_context [LRegister 4] l1" using listener_trace_step [OF l, of "LRegister 4"] by auto
  obtain l2 where l2: "listener_step listener_context LClose l1 = Inr l2" "listener_trace listener_context [LRegister 4, LClose] l2"
    using listener_trace_step [OF l1, of LClose] by auto
  have e: "is_error (l_error l2)"
    using l2(1) setError_listener_ok [OF listener_trace_ok [OF l1], of LClose ListenerClosedError] by (auto simp: listener_closeFromLoop_def)
  have "of_nat 0 \<in> fst ` set (request_calls l2)" "\<forall>x \<in> set (request_calls l2). registered_as [LRegister 4, LClose] x"
    using listener_requests_once [OF l2(2)] e by auto
  then have "fst ` set (request_calls l2) = {0}" by (force simp: registered_as_def)
  then show ?thesis using l2(2) by blast
qed

text \<open>
  C12: no event makes a listener fail one of its checks, in particular that the callbacks of accept
  are called in the order in which they were given, or throw; and it can always be closed.
\<close>

theorem listener_no_fault:
  assumes "listener_trace ctx evs l" and "listener_enabled ev l"
  shows "\<exists>l'. listener_step ctx ev l = Inr l' \<and> (ev = LClose \<longrightarrow> is_error (l_error l'))"
proof -
  obtain l' where l': "listener_step ctx ev l = Inr l'" using listener_trace_step [OF assms] by blast
  have "is_error (l_error l')" if "ev = LClose"
    using that l' setError_listener_ok [OF listener_trace_ok [OF assms(1)], of LClose ListenerClosedError] by (auto simp: listener_closeFromLoop_def)
  then show ?thesis using l' by blast
qed

theorem listener_no_fault_witness: "\<exists>l l'. listener_trace listener_context [] l \<and> listener_step listener_context LClose l = Inr l' \<and> is_error (l_error l')"
proof -
  obtain l where l: "listener_trace listener_context [] l" using sample_listener by blast
  from listener_no_fault [OF l, of LClose] l show ?thesis by auto
qed

end
