(* ===== verification/Pipe_Correct.thy ===== *)
theory Pipe_Correct
  imports Pipe
begin

text \<open>
  Correctness of the pipe. Its environment (the user, connections, channels, the listener) is
  a sequence of events; a callback can only come back for a call that the pipe has issued and
  that has not come back yet. The invariant ties both deques, the handshake and the account of
  callbacks together.
\<close>

section \<open>Events\<close>

datatype pipe_event =
    PReadDescriptor nat
  | PRead allocation nat
  | PWrite message nat
  | PClose
  | PDescriptorRead nat descriptor tp_error
  | PPayloadRead nat tp_error
  | PTensorReceived nat tp_error
  | PPayloadWritten nat tp_error
  | PTensorSent nat tp_error
  | PReplyRead nat descriptor_reply tp_error
  | PWriteDone tp_error
  | PBrochureRead "64 word" brochure tp_error
  | PAnswerRead brochure_answer tp_error
  | PConnectionRequestDone connection_id string nat tp_error
  | PChannelRequestDone string nat string nat tp_error

definition unless_error :: "(pipe \<Rightarrow> pipe result) \<Rightarrow> pipe \<Rightarrow> pipe result" where
  "unless_error fn p = (if is_error (p_error (pcore p)) then Inr p else fn p)"

fun pipe_step :: "pipe_context \<Rightarrow> (string \<times> string) list \<Rightarrow> pipe_event \<Rightarrow> pipe \<Rightarrow> pipe result" where
  "pipe_step ctx addrs (PReadDescriptor cb) p = readDescriptorFromLoop cb p"
| "pipe_step ctx addrs (PRead alloc cb) p = readFromLoop alloc cb p"
| "pipe_step ctx addrs (PWrite msg cb) p = writeFromLoop msg cb p"
| "pipe_step ctx addrs PClose p = pipe_closeFromLoop p"
| "pipe_step ctx addrs (PDescriptorRead sn d e) p = entryPointFromLoop pipe_setError e (onDescriptorRead sn d) p"
| "pipe_step ctx addrs (PPayloadRead sn e) p = entryPointFromLoop pipe_setError e (onPayloadRead sn) p"
| "pipe_step ctx addrs (PTensorReceived sn e) p = entryPointFromLoop pipe_setError e (onTensorReceived sn) p"
| "pipe_step ctx addrs (PPayloadWritten sn e) p = entryPointFromLoop pipe_setError e (onPayloadWritten sn) p"
| "pipe_step ctx addrs (PTensorSent sn e) p = entryPointFromLoop pipe_setError e (onTensorSent sn) p"
| "pipe_step ctx addrs (PReplyRead sn reply e) p = entryPointFromLoop pipe_setError e (onDescriptorReplyRead sn reply) p"
| "pipe_step ctx addrs (PWriteDone e) p = entryPointFromLoop pipe_setError e Inr p"
| "pipe_step ctx addrs (PBrochureRead counter b e) p =
     entryPointFromLoop pipe_setError e (unless_error (onReadWhileServerWaitingForBrochure ctx addrs counter b)) p"
| "pipe_step ctx addrs (PAnswerRead a e) p =
     entryPointFromLoop pipe_setError e (unless_error (onReadWhileClientWaitingForBrochureAnswer ctx a)) p"
| "pipe_step ctx addrs (PConnectionRequestDone connId transport conn e) p =
     entryPointFromLoop pipe_setError e (unless_error (onAcceptWhileServerWaitingForConnection connId transport conn)) p"
| "pipe_step ctx addrs (PChannelRequestDone name connId transport conn e) p =
     entryPointFromLoop pipe_setError e (unless_error (onAcceptWhileServerWaitingForChannel ctx name connId transport conn)) p"

text \<open>What the user asked for, and which calls have come back.\<close>

fun requests_r :: "pipe_event \<Rightarrow> pipe_callback list" where
  "requests_r (PReadDescriptor cb) = [ReadDescriptorCb cb]"
| "requests_r (PRead alloc cb) = [ReadCb cb]"
| "requests_r _ = []"

fun requests_w :: "pipe_event \<Rightarrow> pipe_callback list" where
  "requests_w (PWrite msg cb) = [WriteCb cb]"
| "requests_w _ = []"

fun returns_r :: "pipe_event \<Rightarrow> pipe_token list" where
  "returns_r (PDescriptorRead sn d e) = [DescriptorTok sn]"
| "returns_r (PPayloadRead sn e) = [PayloadReadTok sn]"
| "returns_r (PTensorReceived sn e) = [TensorRecvTok sn]"
| "returns_r _ = []"

fun returns_w :: "pipe_event \<Rightarrow> pipe_token list" where
  "returns_w (PReplyRead sn reply e) = [ReplyTok sn]"
| "returns_w (PPayloadWritten sn e) = [PayloadWriteTok sn]"
| "returns_w (PTensorSent sn e) = [TensorSendTok sn]"
| "returns_w _ = []"

fun returns_h :: "pipe_event \<Rightarrow> pipe_token list" where
  "returns_h (PBrochureRead counter b e) = [BrochureTok]"
| "returns_h (PAnswerRead a e) = [AnswerTok]"
| "returns_h (PConnectionRequestDone connId transport conn e) = [RequestTok (ForConnection connId)]"
| "returns_h (PChannelRequestDone name connId transport conn e) = [RequestTok (ForChannel name connId)]"
| "returns_h _ = []"

definition over :: "(pipe_event \<Rightarrow> 'a list) \<Rightarrow> pipe_event list \<Rightarrow> 'a multiset" where
  "over f evs = mset (concat (map f evs))"

lemma over_simps [simp]: "over f [] = {#}" "over f (evs @ [ev]) = over f evs + mset (f ev)"
  by (simp_all add: over_def)

text \<open>
  The calls that are outstanding after some events. The peer follows the protocol: it replies
  with one device per tensor that has none, connects with the transport that was chosen, and
  sends an answer that the connecting side can use. Messages and allocations have fewer than
  \<open>2 ^ 64\<close> parts.
\<close>

definition usable_answer :: "pipe_context \<Rightarrow> brochure_answer \<Rightarrow> pipe_core \<Rightarrow> bool" where
  "usable_answer ctx a c \<longleftrightarrow>
     (\<exists>t \<in> set (ctx_transports ctx). tc_name t = ba_transport a) \<and>
     (\<forall>t \<in> set (ctx_transports ctx). tc_name t = ba_transport a \<longrightarrow>
        tc_canCommunicateWithRemote t (ba_transportDomainDescriptor a)) \<and>
     (ba_transport a \<noteq> p_transport c \<longrightarrow> map_of (ba_transportRegistrationIds a) DESCRIPTOR \<noteq> None) \<and>
     map_of (ba_transportRegistrationIds a) DESCRIPTOR_REPLY \<noteq> None \<and>
     (\<forall>cc \<in> set (ctx_channels ctx). map_of (ba_channelDeviceDescriptors a) (cc_name cc) \<noteq> None \<longrightarrow>
        map_option length (map_of (ba_channelRegistrationIds a) (cc_name cc)) = Some (cc_numConnectionsNeeded cc))"

definition outstanding :: "pipe_event list \<Rightarrow> pipe \<Rightarrow> pipe_token multiset" where
  "outstanding evs p =
     (issued_r (pcore p) - over returns_r evs) + (issued_w (pcore p) - over returns_w evs) +
     (issued_h (pcore p) - over returns_h evs)"

fun follows_protocol :: "pipe_context \<Rightarrow> pipe_event \<Rightarrow> pipe \<Rightarrow> bool" where
  "follows_protocol ctx (PRead alloc cb) p \<longleftrightarrow> int (length (a_payloads alloc)) < 2 ^ 64 \<and> int (length (a_tensors alloc)) < 2 ^ 64"
| "follows_protocol ctx (PWrite msg cb) p \<longleftrightarrow> int (length (m_payloads msg)) < 2 ^ 64 \<and> int (length (m_tensors msg)) < 2 ^ 64"
| "follows_protocol ctx (PReplyRead sn reply e) p \<longleftrightarrow> is_error e \<or>
     (\<forall>op \<in> set (writeOps p). sequenceNumber op = sn \<longrightarrow>
        length reply = length (filter (\<lambda>t. mt_targetDevice t = None) (m_tensors (w_message op))))"
| "follows_protocol ctx (PAnswerRead a e) p \<longleftrightarrow> is_error e \<or> usable_answer ctx a (pcore p)"
| "follows_protocol ctx (PConnectionRequestDone connId transport conn e) p \<longleftrightarrow>
     is_error e \<or> transport = p_transport (pcore p)"
| "follows_protocol ctx (PChannelRequestDone name connId transport conn e) p \<longleftrightarrow>
     is_error e \<or> transport = p_transport (pcore p)"
| "follows_protocol ctx ev p \<longleftrightarrow> True"

definition pipe_enabled :: "pipe_context \<Rightarrow> pipe_event list \<Rightarrow> pipe_event \<Rightarrow> pipe \<Rightarrow> bool" where
  "pipe_enabled ctx evs ev p \<longleftrightarrow>
     mset (returns_r ev) \<subseteq># issued_r (pcore p) - over returns_r evs \<and>
     mset (returns_w ev) \<subseteq># issued_w (pcore p) - over returns_w evs \<and>
     mset (returns_h ev) \<subseteq># issued_h (pcore p) - over returns_h evs \<and> follows_protocol ctx ev p"

inductive pipe_trace :: "pipe_context \<Rightarrow> (string \<times> string) list \<Rightarrow> pipe_event list \<Rightarrow> pipe \<Rightarrow> bool"
  for ctx addrs where
  pipe_connected: "PipeImpl_client ctx pid remoteName url = Inr p \<Longrightarrow>
     pipe_trace ctx addrs [] (pipe_initFromLoop closed ctx p)"
| pipe_accepted: "pipe_trace ctx addrs [] (pipe_initFromLoop closed ctx (PipeImpl_server pid remoteName transport conn))"
| pipe_stepped: "pipe_trace ctx addrs evs p \<Longrightarrow> pipe_enabled ctx evs ev p \<Longrightarrow> pipe_step ctx addrs ev p = Inr p' \<Longrightarrow>
     pipe_trace ctx addrs (evs @ [ev]) p'"

section \<open>Frames\<close>

lemma frame_rD:
  assumes "frame_r c' = frame_r c"
  shows "p_state c' = p_state c" "p_error c' = p_error c" "p_transport c' = p_transport c" "p_id c' = p_id c"
    "p_descriptorConnection c' = p_descriptorConnection c" "p_descriptorReplyConnection c' = p_descriptorReplyConnection c"
    "p_channels c' = p_channels c" "p_channelForDevicePair c' = p_channelForDevicePair c"
    "p_registrationIds c' = p_registrationIds c" "p_channelRegistrationIds c' = p_channelRegistrationIds c"
    "p_channelReceivedConnections c' = p_channelReceivedConnections c"
    "nextMessageBeingRead c' = nextMessageBeingRead c" "nextMessageBeingWritten c' = nextMessageBeingWritten c"
    "nextWriteCallbackToCall c' = nextWriteCallbackToCall c" "paid_w c' = paid_w c" "issued_w c' = issued_w c"
    "issued_h c' = issued_h c"
  using assms unfolding frame_r_def by (cases c; cases c'; simp)+

lemma frame_wD:
  assumes "frame_w c' = frame_w c"
  shows "p_state c' = p_state c" "p_error c' = p_error c" "p_transport c' = p_transport c" "p_id c' = p_id c"
    "p_descriptorConnection c' = p_descriptorConnection c" "p_descriptorReplyConnection c' = p_descriptorReplyConnection c"
    "p_channels c' = p_channels c" "p_channelForDevicePair c' = p_channelForDevicePair c"
    "p_registrationIds c' = p_registrationIds c" "p_channelRegistrationIds c' = p_channelRegistrationIds c"
    "p_channelReceivedConnections c' = p_channelReceivedConnections c"
    "nextMessageBeingRead c' = nextMessageBeingRead c" "nextMessageBeingWritten c' = nextMessageBeingWritten c"
    "nextReadDescriptorCallbackToCall c' = nextReadDescriptorCallbackToCall c"
    "nextReadCallbackToCall c' = nextReadCallbackToCall c" "connectionState c' = connectionState c"
    "messageBeingReadFromConnection c' = messageBeingReadFromConnection c"
    "nextMessageGettingAllocation c' = nextMessageGettingAllocation c" "paid_r c' = paid_r c" "issued_r c' = issued_r c"
    "issued_h c' = issued_h c"
  using assms unfolding frame_w_def by (cases c; cases c'; simp)+

lemma write_J_frame: "frame_r c' = frame_r c \<Longrightarrow> write_J K D ops c' = write_J K D ops c"
  using frame_rD [of c' c] core_ok_cong [of c' c] write_ok_cong [of c' c] by (simp add: write_J_def)

lemma read_J_frame: "frame_w c' = frame_w c \<Longrightarrow> read_J K D ops c' = read_J K D ops c"
  using frame_wD [of c' c] core_ok_cong [of c' c] read_ok_cong [of c' c] by (simp add: read_J_def)

lemma numbered_snoc: "numbered n ops \<Longrightarrow> sequenceNumber op = n \<Longrightarrow> numbered (Suc n) (ops @ [op])"
  by (auto simp: numbered_def seqs_from_append seqs_from_Cons)

lemma read_J_emplace:
  assumes J: "read_J K D ops c"
  shows "read_J (K + {#ReadDescriptorCb cb#}) D
    (emplaceBack (new_read_op\<lparr>readDescriptorCallback := Some cb\<rparr>) (nextMessageBeingRead c) ops)
    (c\<lparr>nextMessageBeingRead := nextMessageBeingRead c + 1\<rparr>)"
    (is "read_J _ _ ?ops ?c")
proof -
  note Jd = read_JD [OF J]
  define op where "op = new_read_op\<lparr>readDescriptorCallback := Some cb, sequenceNumber := nextMessageBeingRead c\<rparr>"
  have ops: "?ops = ops @ [op]" by (simp add: emplaceBack_def op_def)
  have op: "state op = Read_UNINITIALIZED" "sequenceNumber op = nextMessageBeingRead c" "read_ok ?c op"
    "owes_r op = {#ReadDescriptorCb cb#}" "pend_r op = {#}"
    by (simp_all add: op_def new_read_op_def read_ok_def owes_r_def pend_r_def pipe_state_order descriptorMissesTargetDevices_def)
  have rel: "read_rel a op" "read_strict a op" for a
    using op(1) by (simp_all add: read_rel_def read_strict_def pipe_state_order)
  have lt: "state op < ASKING_FOR_ALLOCATION" "state op < Read_FINISHED" "state op < READING_PAYLOADS_AND_RECEIVING_TENSORS"
    "\<not> READING_DESCRIPTOR \<le> state op"
    using op(1) by (simp_all add: pipe_state_order)
  have ok: "list_all (read_ok ?c) ops" using Jd(3) read_ok_cong [of ?c c] by simp
  have core: "core_ok ?c" using Jd(4) by (simp add: core_ok_def)
  show ?thesis
    unfolding ops read_J_def
    using Jd ok core op rel lt numbered_snoc [OF Jd(1) op(2)]
    by (simp add: sorted_wrt_append ac_simps)
qed

lemma write_J_emplace:
  assumes J: "write_J K D ops c" and len: "length (m_payloads msg) < 2 ^ 64" "length (m_tensors msg) < 2 ^ 64"
  shows "write_J (K + {#WriteCb cb#}) D
    (emplaceBack (new_write_op\<lparr>w_tensors := tensorsBeingSent msg, w_hasMissingTargetDevices := missingTargetDevices msg,
        w_message := msg, writeCallback := Some cb\<rparr>) (nextMessageBeingWritten c) ops)
    (c\<lparr>nextMessageBeingWritten := nextMessageBeingWritten c + 1\<rparr>)"
    (is "write_J _ _ ?ops ?c")
proof -
  note Jd = write_JD [OF J]
  define op where "op = new_write_op\<lparr>w_tensors := tensorsBeingSent msg, w_hasMissingTargetDevices := missingTargetDevices msg,
        w_message := msg, writeCallback := Some cb, sequenceNumber := nextMessageBeingWritten c\<rparr>"
  have ops: "?ops = ops @ [op]" by (simp add: emplaceBack_def op_def)
  have op: "state op = Write_UNINITIALIZED" "sequenceNumber op = nextMessageBeingWritten c"
    "owes_w op = {#WriteCb cb#}" "pend_w op = {#}" "write_ok ?c op"
    using len by (simp_all add: op_def new_write_op_def write_ok_def owes_w_def pend_w_def pipe_state_order tensorsBeingSent_def)
  have rel: "write_rel a op" "state op < Write_FINISHED" for a
    using op(1) by (simp_all add: write_rel_def pipe_state_order)
  have ok: "list_all (write_ok ?c) ops" using Jd(3) write_ok_cong [of ?c c] by simp
  have core: "core_ok ?c" using Jd(4) by (simp add: core_ok_def)
  show ?thesis
    unfolding ops write_J_def
    using Jd ok core op rel numbered_snoc [OF Jd(1) op(2)]
    by (simp add: sorted_wrt_append ac_simps)
qed

text \<open>A callback changes one operation and leaves its state alone.\<close>

lemma read_J_touch:
  assumes J: "read_J K D (zs @ op # ys) c"
    and op': "sequenceNumber op' = sequenceNumber op" "state op' = state op" "read_ok c op'"
    and acc: "owes_r op' = owes_r op + k" "pend_r op' + d = pend_r op"
    and c': "c' = c\<lparr>nextMessageGettingAllocation := al\<rparr>"
    and alloc: "\<And>sn. al = Some sn \<longleftrightarrow>
        (\<exists>x \<in> set (zs @ op' # ys). sequenceNumber x = sn \<and> state x = ASKING_FOR_ALLOCATION_FIRST_IN_LINE \<and>
           \<not> doneGettingAllocation x)"
  shows "read_J (K + k) (D + d) (zs @ op' # ys) c'"
proof -
  note Jd = read_JD [OF J]
  have n: "numbered (nextMessageBeingRead c') (zs @ op' # ys)"
    using Jd(1) op'(1) c' numbered_cong [of "zs @ op' # ys" "zs @ op # ys"] by simp
  have s: "sorted_wrt read_rel (zs @ op' # ys)" using Jd(2) op'(2) by (simp add: sorted_wrt_append read_rel_def)
  have st: "sorted_wrt read_strict (zs @ op' # ys)" if "\<not> is_error (p_error c)"
    using Jd(12) [OF that] op'(2) by (simp add: sorted_wrt_append read_strict_def)
  have ok: "list_all (read_ok c') (zs @ op' # ys)" using Jd(3) op'(3) read_ok_cong [of c' c] c' by simp
  have core: "core_ok c'" using Jd(4) c' by (simp add: core_ok_def)
  have b: "below r (zs @ op' # ys) = below r (zs @ op # ys)" for r using op'(2) by simp
  have o: "sum_list (map owes_r (zs @ op' # ys)) + paid_r c' = K + k"
    using Jd(10) acc(1) c' by (simp add: ac_simps)
  have p: "sum_list (map pend_r (zs @ op' # ys)) + (D + d) = issued_r c'"
    using Jd(11) c' unfolding map_append list.map sum_list.append sum_list.Cons acc(2) [symmetric] by (simp add: ac_simps)
  have w: "connectionState c' = AWAITING_PAYLOADS \<longleftrightarrow>
      (\<exists>x \<in> set (zs @ op' # ys). READING_DESCRIPTOR \<le> state x \<and> state x < READING_PAYLOADS_AND_RECEIVING_TENSORS)"
    if "\<not> is_error (p_error c)"
    using Jd(8) [OF that] op'(2) c' by auto
  have k: "nextReadDescriptorCallbackToCall c' + below ASKING_FOR_ALLOCATION (zs @ op' # ys) = nextMessageBeingRead c'"
    "nextReadCallbackToCall c' + below Read_FINISHED (zs @ op' # ys) = nextMessageBeingRead c'"
    "\<not> is_error (p_error c) \<Longrightarrow>
       messageBeingReadFromConnection c' + below READING_PAYLOADS_AND_RECEIVING_TENSORS (zs @ op' # ys) = nextMessageBeingRead c'"
    unfolding b using Jd(5-7) c' by simp_all
  have e: "p_error c' = p_error c" "nextMessageGettingAllocation c' = al" using c' by simp_all
  show ?thesis
    unfolding read_J_def e
    by (intro conjI impI allI n s st ok core k w alloc o p)
qed

lemma write_J_touch:
  assumes J: "write_J K D (zs @ op # ys) c"
    and op': "sequenceNumber op' = sequenceNumber op" "state op' = state op" "write_ok c op'"
    and acc: "owes_w op' = owes_w op" "pend_w op' + d = pend_w op"
  shows "write_J K (D + d) (zs @ op' # ys) c"
proof -
  note Jd = write_JD [OF J]
  have n: "numbered (nextMessageBeingWritten c) (zs @ op' # ys)"
    using Jd(1) op'(1) numbered_cong [of "zs @ op' # ys" "zs @ op # ys"] by simp
  have s: "sorted_wrt write_rel (zs @ op' # ys)" using Jd(2) op'(2) by (simp add: sorted_wrt_append write_rel_def)
  have p: "sum_list (map pend_w (zs @ op' # ys)) + (D + d) = issued_w c"
    using Jd(7) unfolding map_append list.map sum_list.append sum_list.Cons acc(2) [symmetric] by (simp add: ac_simps)
  show ?thesis
    unfolding write_J_def using Jd n s p op' acc(1) by (simp add: ac_simps)
qed

section \<open>The invariant\<close>

text \<open>The calls of the handshake that are outstanding, as a function of the state of the pipe.\<close>

fun channel_tokens :: "string \<times> pconn option list \<Rightarrow> pipe_token multiset" where
  "channel_tokens (name, conns) =
     mset (map (\<lambda>i. RequestTok (ForChannel name i)) (filter (\<lambda>i. conns ! i = None) [0..<length conns]))"

definition request_tokens :: "pipe_core \<Rightarrow> pipe_token multiset" where
  "request_tokens c = mset (map (\<lambda>(connId, token). RequestTok (ForConnection connId)) (p_registrationIds c)) +
     sum_list (map channel_tokens (p_channelReceivedConnections c))"

definition waiting_ok :: "pipe_context \<Rightarrow> pipe_core \<Rightarrow> bool" where
  "waiting_ok ctx c \<longleftrightarrow>
     distinct (map fst (p_registrationIds c)) \<and> distinct (map fst (p_channelReceivedConnections c)) \<and>
     map fst (p_channelRegistrationIds c) = map fst (p_channelReceivedConnections c) \<and>
     (\<forall>name tokens conns. map_of (p_channelRegistrationIds c) name = Some tokens \<longrightarrow>
        map_of (p_channelReceivedConnections c) name = Some conns \<longrightarrow> length tokens = length conns) \<and>
     snd ` set (p_channelForDevicePair c) \<subseteq> set (p_channels c) \<union> fst ` set (p_channelReceivedConnections c) \<and>
     set (p_channels c) \<inter> fst ` set (p_channelReceivedConnections c) = {} \<and>
     fst ` set (p_channelReceivedConnections c) \<subseteq> cc_name ` set (ctx_channels ctx) \<and>
     (p_descriptorReplyConnection c \<noteq> None \<or> DESCRIPTOR_REPLY \<in> fst ` set (p_registrationIds c))"

definition shake_ok :: "pipe_context \<Rightarrow> pipe_token multiset \<Rightarrow> pipe_core \<Rightarrow> bool" where
  "shake_ok ctx D c \<longleftrightarrow> \<not> is_error (p_error c) \<longrightarrow>
     (case p_state c of
        INITIALIZING \<Rightarrow> False
      | CLIENT_ABOUT_TO_SEND_HELLO_AND_BROCHURE \<Rightarrow> False
      | SERVER_WAITING_FOR_BROCHURE \<Rightarrow> issued_h c = D + {#BrochureTok#} \<and> p_registrationIds c = [] \<and>
          p_channelRegistrationIds c = [] \<and> p_channelReceivedConnections c = [] \<and> p_channels c = []
      | CLIENT_WAITING_FOR_BROCHURE_ANSWER \<Rightarrow> issued_h c = D + {#AnswerTok#} \<and> p_channels c = []
      | SERVER_WAITING_FOR_CONNECTIONS \<Rightarrow> issued_h c = D + request_tokens c \<and> waiting_ok ctx c
      | ESTABLISHED \<Rightarrow> issued_h c = D)"

definition pipe_inv ::
  "pipe_context \<Rightarrow> pipe_callback multiset \<Rightarrow> pipe_callback multiset \<Rightarrow> pipe_token multiset \<Rightarrow> pipe_token multiset
     \<Rightarrow> pipe_token multiset \<Rightarrow> pipe \<Rightarrow> bool" where
  "pipe_inv ctx Kr Kw Dr Dw Dh p \<longleftrightarrow>
     read_J Kr Dr (readOps p) (pcore p) \<and> machine_ok Read_FINISHED advanceReadOperation (readOps p) (pcore p) \<and>
     write_J Kw Dw (writeOps p) (pcore p) \<and> machine_ok Write_FINISHED advanceWriteOperation (writeOps p) (pcore p) \<and>
     shake_ok ctx Dh (pcore p)"

lemma shake_ok_cong:
  assumes "p_error c' = p_error c" "p_state c' = p_state c" "issued_h c' = issued_h c" "p_registrationIds c' = p_registrationIds c"
    "p_channelRegistrationIds c' = p_channelRegistrationIds c" "p_channelReceivedConnections c' = p_channelReceivedConnections c"
    "p_channels c' = p_channels c" "p_channelForDevicePair c' = p_channelForDevicePair c"
    "p_descriptorReplyConnection c' = p_descriptorReplyConnection c"
  shows "shake_ok ctx D c' = shake_ok ctx D c"
  unfolding shake_ok_def waiting_ok_def request_tokens_def assms by (rule refl)

lemma shake_ok_frame:
  "frame_r c' = frame_r c \<Longrightarrow> shake_ok ctx D c' = shake_ok ctx D c"
  "frame_w c' = frame_w c \<Longrightarrow> shake_ok ctx D c' = shake_ok ctx D c"
  by (rule shake_ok_cong; erule frame_rD) (rule shake_ok_cong; erule frame_wD)

lemma run_read_inv:
  assumes "rd.settled Kr Dr c r"
    and "write_J Kw Dw (writeOps p) c" "machine_ok Write_FINISHED advanceWriteOperation (writeOps p) c" "shake_ok ctx Dh c"
  shows "ok_result user_fault (pipe_inv ctx Kr Kw Dr Dw Dh) (run_read p r)"
  using assms(1) unfolding run_read_def rd.settled_def
proof (rule ok_result_bind, clarify)
  fix ops c'
  assume "read_J Kr Dr ops c'" "machine_ok Read_FINISHED advanceReadOperation ops c'" and fr: "frame_r c' = frame_r c"
  moreover have "machine_ok Write_FINISHED advanceWriteOperation (writeOps p) c'"
    using assms(3) wr.machine_ok_cong [OF frame_view(1) [OF fr]] by blast
  ultimately show "ok_result user_fault (pipe_inv ctx Kr Kw Dr Dw Dh) (Inr (p\<lparr>pcore := c', readOps := ops\<rparr>))"
    using assms(2,4) write_J_frame [OF fr] shake_ok_frame(1) [OF fr] by (simp add: pipe_inv_def)
qed

lemma run_write_inv:
  assumes "wr.settled Kw Dw c r"
    and "read_J Kr Dr (readOps p) c" "machine_ok Read_FINISHED advanceReadOperation (readOps p) c" "shake_ok ctx Dh c"
  shows "ok_result user_fault (pipe_inv ctx Kr Kw Dr Dw Dh) (run_write p r)"
  using assms(1) unfolding run_write_def wr.settled_def
proof (rule ok_result_bind, clarify)
  fix ops c'
  assume "write_J Kw Dw ops c'" "machine_ok Write_FINISHED advanceWriteOperation ops c'" and fr: "frame_w c' = frame_w c"
  moreover have "machine_ok Read_FINISHED advanceReadOperation (readOps p) c'"
    using assms(3) rd.machine_ok_cong [OF frame_view(2) [OF fr]] by blast
  ultimately show "ok_result user_fault (pipe_inv ctx Kr Kw Dr Dw Dh) (Inr (p\<lparr>pcore := c', writeOps := ops\<rparr>))"
    using assms(2,4) read_J_frame [OF fr] shake_ok_frame(2) [OF fr] by (simp add: pipe_inv_def)
qed

text \<open>A full sweep of both deques, and one after an error, which cannot throw.\<close>

definition fronts_ok :: "pipe \<Rightarrow> bool" where
  "fronts_ok p \<longleftrightarrow> (readOps p = [] \<or> state (hd (readOps p)) \<noteq> Read_FINISHED) \<and>
     (writeOps p = [] \<or> state (hd (writeOps p)) \<noteq> Write_FINISHED)"

lemma advance_all_inv:
  assumes "read_J Kr Dr (readOps p) (pcore p)" "write_J Kw Dw (writeOps p) (pcore p)" "shake_ok ctx Dh (pcore p)" "fronts_ok p"
  shows "ok_result user_fault (pipe_inv ctx Kr Kw Dr Dw Dh) (advance_all p)"
proof -
  have r: "rd.settled Kr Dr (pcore p) (advanceAllOperations Read_FINISHED advanceReadOperation (readOps p) (pcore p))"
    using rd.advance_all_settled assms by (simp add: fronts_ok_def)
  show ?thesis
    unfolding advance_all_def
  proof (rule ok_result_bind [OF r [unfolded rd.settled_def]], clarsimp)
    fix ro c
    assume ro: "read_J Kr Dr ro c" "machine_ok Read_FINISHED advanceReadOperation ro c" and fr: "frame_r c = frame_r (pcore p)"
    have w: "wr.settled Kw Dw c (advanceAllOperations Write_FINISHED advanceWriteOperation (writeOps p) c)"
      using wr.advance_all_settled assms write_J_frame [OF fr] by (simp add: fronts_ok_def)
    have "ok_result user_fault (pipe_inv ctx Kr Kw Dr Dw Dh)
        (run_write (p\<lparr>readOps := ro\<rparr>) (advanceAllOperations Write_FINISHED advanceWriteOperation (writeOps p) c))"
      by (rule run_write_inv [OF w]) (use ro assms(3) shake_ok_frame(1) [OF fr] in simp_all)
    then show "ok_result user_fault (pipe_inv ctx Kr Kw Dr Dw Dh)
        (bindR (advanceAllOperations Write_FINISHED advanceWriteOperation (writeOps p) c)
          (\<lambda>(wo, c'). Inr (p\<lparr>pcore := c', readOps := ro, writeOps := wo\<rparr>)))"
      by (cases p) (simp add: run_write_def)
  qed
qed

lemma advance_all_error:
  assumes J: "read_J Kr Dr (readOps p) (pcore p)" "write_J Kw Dw (writeOps p) (pcore p)" and "fronts_ok p"
    and e: "is_error (p_error (pcore p))"
  shows "\<exists>p'. advance_all p = Inr p' \<and> pipe_inv ctx Kr Kw Dr Dw Dh p' \<and> p_error (pcore p') = p_error (pcore p) \<and>
    issued_r (pcore p') = issued_r (pcore p) \<and> issued_w (pcore p') = issued_w (pcore p)"
proof -
  obtain ro c where r: "advanceAllOperations Read_FINISHED advanceReadOperation (readOps p) (pcore p) = Inr (ro, c)"
    and ro: "read_J Kr Dr ro c" "machine_ok Read_FINISHED advanceReadOperation ro c"
      "issued_r c = issued_r (pcore p)" and fr: "frame_r c = frame_r (pcore p)"
    using rde.advance_all_settled [of Kr Dr "readOps p" "pcore p" "issued_r (pcore p)"] assms
    by (cases "advanceAllOperations Read_FINISHED advanceReadOperation (readOps p) (pcore p)")
      (auto simp: rde.settled_def fronts_ok_def)
  note frD = frame_rD [OF fr]
  obtain wo c' where w: "advanceAllOperations Write_FINISHED advanceWriteOperation (writeOps p) c = Inr (wo, c')"
    and wo: "write_J Kw Dw wo c'" "machine_ok Write_FINISHED advanceWriteOperation wo c'"
      "issued_w c' = issued_w c" and fw: "frame_w c' = frame_w c"
    using wre.advance_all_settled [of Kw Dw "writeOps p" c "issued_w c"] assms write_J_frame [OF fr] frD
    by (cases "advanceAllOperations Write_FINISHED advanceWriteOperation (writeOps p) c")
      (auto simp: wre.settled_def fronts_ok_def)
  note fwD = frame_wD [OF fw]
  have "machine_ok Read_FINISHED advanceReadOperation ro c'"
    using ro(2) rd.machine_ok_cong [OF frame_view(2) [OF fw]] by blast
  then have "pipe_inv ctx Kr Kw Dr Dw Dh (p\<lparr>pcore := c', readOps := ro, writeOps := wo\<rparr>)"
    using ro wo e frD(2) fwD(2) read_J_frame [OF fw] by (simp add: pipe_inv_def shake_ok_def)
  then show ?thesis using r w ro wo frD fwD by (simp add: advance_all_def)
qed

lemma pipe_inv_fronts: "pipe_inv ctx Kr Kw Dr Dw Dh p \<Longrightarrow> fronts_ok p"
  by (auto simp: pipe_inv_def machine_ok_def fronts_ok_def)

section \<open>Errors\<close>

text \<open>Both deque invariants survive an error: what they say of the connection then lapses.\<close>

lemma J_error:
  assumes "is_error e" and "p_error c' = e" "p_state c' = p_state c" "core_ok c'"
    "nextMessageBeingRead c' = nextMessageBeingRead c" "nextMessageBeingWritten c' = nextMessageBeingWritten c"
    "nextReadDescriptorCallbackToCall c' = nextReadDescriptorCallbackToCall c"
    "nextReadCallbackToCall c' = nextReadCallbackToCall c" "nextWriteCallbackToCall c' = nextWriteCallbackToCall c"
    "nextMessageGettingAllocation c' = nextMessageGettingAllocation c"
    "paid_r c' = paid_r c" "paid_w c' = paid_w c" "issued_r c' = issued_r c" "issued_w c' = issued_w c"
  shows "read_J K D ops c \<Longrightarrow> read_J K D ops c'" and "write_J K D wops c \<Longrightarrow> write_J K D wops c'"
proof -
  have r: "read_ok c op \<Longrightarrow> read_ok c' op" for op using assms(1-3) by (simp add: read_ok_def)
  have w: "write_ok c op \<Longrightarrow> write_ok c' op" for op using assms(1-3) unfolding write_ok_def by blast
  show "read_J K D ops c'" if J: "read_J K D ops c"
  proof -
    have "list_all (read_ok c') ops" using read_JD(3) [OF J] r by (auto simp: list_all_iff)
    then show ?thesis using J assms unfolding read_J_def by simp
  qed
  show "write_J K D wops c'" if J: "write_J K D wops c"
  proof -
    have "list_all (write_ok c') wops" using write_JD(3) [OF J] w by (auto simp: list_all_iff)
    then show ?thesis using J assms unfolding write_J_def by simp
  qed
qed

lemma close_effects_silent:
  "concat (map read_effect_callback (close_effects c)) = []" "concat (map write_effect_callback (close_effects c)) = []"
  "concat (map read_effect_token (close_effects c)) = []" "concat (map write_effect_token (close_effects c)) = []"
  by (rule concat_map_Nil; auto simp: close_effects_def split: option.splits)+

lemma pcall_simps [simp]:
  "pcore (pcall f p) = f (pcore p)" "readOps (pcall f p) = readOps p" "writeOps (pcall f p) = writeOps p"
  by (simp_all add: pcall_def)

lemma pipe_inv_log:
  assumes "pipe_inv ctx Kr Kw Dr Dw Dh p" and "is_error (p_error (pcore p))"
    and "concat (map read_effect_callback es) = []" "concat (map write_effect_callback es) = []"
      "concat (map read_effect_token es) = []" "concat (map write_effect_token es) = []"
  shows "pipe_inv ctx Kr Kw Dr Dw Dh (pcall (plog es) p)"
proof -
  have v: "pipe_view (plog es (pcore p)) = pipe_view (pcore p)" by (simp add: pipe_view_def)
  have "core_ok (pcore p)" using assms(1) read_JD(4) unfolding pipe_inv_def by blast
  then have "core_ok (plog es (pcore p))" by (simp add: core_ok_def)
  from J_error [OF assms(2) _ _ this] assms show ?thesis
    using rd.machine_ok_cong [OF v] wr.machine_ok_cong [OF v] by (simp add: pipe_inv_def shake_ok_def)
qed

lemma pipe_setError_inv:
  assumes inv: "pipe_inv ctx Kr Kw Dr Dw Dh p"
  shows "\<exists>p'. pipe_setError e p = Inr p' \<and> pipe_inv ctx Kr Kw Dr Dw Dh p' \<and>
    issued_r (pcore p') = issued_r (pcore p) \<and> issued_w (pcore p') = issued_w (pcore p) \<and>
    (if is_error e then is_error (p_error (pcore p')) else p' = p)"
proof (cases "is_error (p_error (pcore p)) \<or> \<not> is_error e")
  case True
  then show ?thesis using inv by (auto simp: pipe_setError_def)
next
  case False
  define c where "c = (pcore p)\<lparr>p_error := e\<rparr>"
  define c' where "c' = (plog (close_effects c) c)\<lparr>p_registrationIds := [], p_channelRegistrationIds := [], p_channelReceivedConnections := []\<rparr>"
  let ?p = "p\<lparr>pcore := c'\<rparr>"
  have J: "read_J Kr Dr (readOps p) (pcore p)" "write_J Kw Dw (writeOps p) (pcore p)" using inv by (simp_all add: pipe_inv_def)
  have core: "core_ok c'" using read_JD(4) [OF J(1)] by (simp add: core_ok_def c'_def c_def)
  have eqs: "p_error c' = e" "p_state c' = p_state (pcore p)" "nextMessageBeingRead c' = nextMessageBeingRead (pcore p)"
    "nextMessageBeingWritten c' = nextMessageBeingWritten (pcore p)"
    "nextReadDescriptorCallbackToCall c' = nextReadDescriptorCallbackToCall (pcore p)"
    "nextReadCallbackToCall c' = nextReadCallbackToCall (pcore p)" "nextWriteCallbackToCall c' = nextWriteCallbackToCall (pcore p)"
    "nextMessageGettingAllocation c' = nextMessageGettingAllocation (pcore p)"
    "paid_r c' = paid_r (pcore p)" "paid_w c' = paid_w (pcore p)" "issued_r c' = issued_r (pcore p)" "issued_w c' = issued_w (pcore p)"
    unfolding c'_def c_def by (simp_all add: close_effects_silent)
  have e: "is_error e" using False by simp
  note J' = J_error [OF e eqs(1,2) core eqs(3-12)]
  obtain p1 where p1: "advance_all ?p = Inr p1" "pipe_inv ctx Kr Kw Dr Dw Dh p1" "p_error (pcore p1) = e"
    "issued_r (pcore p1) = issued_r c'" "issued_w (pcore p1) = issued_w c'"
    using advance_all_error [of Kr Dr ?p Kw Dw ctx Dh] J'(1) [OF J(1)] J'(2) [OF J(2)] pipe_inv_fronts [OF inv] e eqs(1)
    by (auto simp: fronts_ok_def)
  have "pipe_setError e p = Inr (pcall (plog [UnenrollPipe]) p1)"
    using False p1(1) by (simp add: pipe_setError_def handleError_def pcall_def c'_def c_def)
  moreover have "pipe_inv ctx Kr Kw Dr Dw Dh (pcall (plog [UnenrollPipe]) p1)"
    by (rule pipe_inv_log [OF p1(2)]) (use p1(3) e in simp_all)
  ultimately show ?thesis using p1 eqs e by simp
qed

section \<open>The user\<close>

lemma pipe_inv_ends:
  assumes "pipe_inv ctx Kr Kw Dr Dw Dh p"
  shows "ends_at (nextMessageBeingRead (pcore p)) (readOps p)" "ends_at (nextMessageBeingWritten (pcore p)) (writeOps p)"
  using assms numbered_ok read_JD(1) write_JD(1) unfolding pipe_inv_def by metis+

lemma readDescriptor_inv:
  assumes inv: "pipe_inv ctx Kr Kw Dr Dw Dh p"
  shows "ok_result user_fault (pipe_inv ctx (Kr + {#ReadDescriptorCb cb#}) Kw Dr Dw Dh) (readDescriptorFromLoop cb p)"
proof -
  let ?c = "(pcore p)\<lparr>nextMessageBeingRead := nextMessageBeingRead (pcore p) + 1\<rparr>"
  let ?op = "new_read_op\<lparr>readDescriptorCallback := Some cb\<rparr>"
  have v: "pipe_view ?c = pipe_view (pcore p)" by (simp add: pipe_view_def)
  have J: "read_J (Kr + {#ReadDescriptorCb cb#}) Dr (emplaceBack ?op (nextMessageBeingRead (pcore p)) (readOps p)) ?c"
    by (rule read_J_emplace) (use inv in \<open>simp add: pipe_inv_def\<close>)
  have "rd.settled (Kr + {#ReadDescriptorCb cb#}) Dr ?c (advanceOperation Read_FINISHED advanceReadOperation
      (nextMessageBeingRead (pcore p)) (emplaceBack ?op (nextMessageBeingRead (pcore p)) (readOps p)) ?c)"
    by (rule rd.emplace_settled [OF _ pipe_inv_ends(1) [OF inv] _ J])
      (use inv rd.machine_ok_cong [OF v] in \<open>simp_all add: pipe_inv_def new_read_op_def\<close>)
  moreover have "write_J Kw Dw (writeOps p) ?c"
  proof -
    have "write_J Kw Dw (writeOps p) (pcore p)" using inv by (simp add: pipe_inv_def)
    then show ?thesis
      using write_ok_cong [of ?c "pcore p"] core_ok_cong [of ?c "pcore p"] by (simp add: write_J_def)
  qed
  moreover have "shake_ok ctx Dh ?c" using inv shake_ok_cong [of ?c "pcore p"] by (simp add: pipe_inv_def)
  ultimately show ?thesis
    unfolding readDescriptorFromLoop_def Let_def
    using inv wr.machine_ok_cong [OF v] by (intro run_read_inv) (simp_all add: pipe_inv_def)
qed

lemma write_inv:
  assumes inv: "pipe_inv ctx Kr Kw Dr Dw Dh p" and len: "length (m_payloads msg) < 2 ^ 64" "length (m_tensors msg) < 2 ^ 64"
  shows "ok_result user_fault (pipe_inv ctx Kr (Kw + {#WriteCb cb#}) Dr Dw Dh) (writeFromLoop msg cb p)"
proof -
  let ?c = "(pcore p)\<lparr>nextMessageBeingWritten := nextMessageBeingWritten (pcore p) + 1\<rparr>"
  let ?op = "new_write_op\<lparr>w_tensors := tensorsBeingSent msg, w_hasMissingTargetDevices := missingTargetDevices msg,
                 w_message := msg, writeCallback := Some cb\<rparr>"
  have v: "pipe_view ?c = pipe_view (pcore p)" by (simp add: pipe_view_def)
  have J: "write_J (Kw + {#WriteCb cb#}) Dw (emplaceBack ?op (nextMessageBeingWritten (pcore p)) (writeOps p)) ?c"
    by (rule write_J_emplace [OF _ len]) (use inv in \<open>simp add: pipe_inv_def\<close>)
  have "wr.settled (Kw + {#WriteCb cb#}) Dw ?c (advanceOperation Write_FINISHED advanceWriteOperation
      (nextMessageBeingWritten (pcore p)) (emplaceBack ?op (nextMessageBeingWritten (pcore p)) (writeOps p)) ?c)"
    by (rule wr.emplace_settled [OF _ pipe_inv_ends(2) [OF inv] _ J])
      (use inv wr.machine_ok_cong [OF v] in \<open>simp_all add: pipe_inv_def new_write_op_def\<close>)
  moreover have "read_J Kr Dr (readOps p) ?c"
  proof -
    have "read_J Kr Dr (readOps p) (pcore p)" using inv by (simp add: pipe_inv_def)
    then show ?thesis
      using read_ok_cong [of ?c "pcore p"] core_ok_cong [of ?c "pcore p"] by (simp add: read_J_def)
  qed
  moreover have "shake_ok ctx Dh ?c" using inv shake_ok_cong [of ?c "pcore p"] by (simp add: pipe_inv_def)
  ultimately show ?thesis
    unfolding writeFromLoop_def Let_def
    using inv rd.machine_ok_cong [OF v] by (intro run_write_inv) (simp_all add: pipe_inv_def)
qed

section \<open>Callbacks through iterators\<close>

lemma in_sum_list: "x \<in># sum_list (map f xs) \<longleftrightarrow> (\<exists>y \<in> set xs. x \<in># f y)"
  by (induction xs) auto

lemma pending_op_r:
  assumes J: "read_J K D ops c" and tok: "{#tok#} \<subseteq># issued_r c - D"
  shows "\<exists>op \<in> set ops. tok \<in># pend_r op"
proof -
  have "issued_r c - D = sum_list (map pend_r ops)" unfolding read_JD(11) [OF J, symmetric] by simp
  then show ?thesis using tok in_sum_list [of tok pend_r ops] by simp
qed

lemma pending_op_w:
  assumes J: "write_J K D ops c" and tok: "{#tok#} \<subseteq># issued_w c - D"
  shows "\<exists>op \<in> set ops. tok \<in># pend_w op"
proof -
  have "issued_w c - D = sum_list (map pend_w ops)" unfolding write_JD(7) [OF J, symmetric] by simp
  then show ?thesis using tok in_sum_list [of tok pend_w ops] by simp
qed

lemma through_read_inv:
  assumes inv: "pipe_inv ctx Kr Kw Dr Dw Dh p" and op: "op \<in> set (readOps p)" "sequenceNumber op = sn"
    and f: "sequenceNumber (f op) = sequenceNumber op" "state (f op) = state op" and fr: "frame_r c' = frame_r (pcore p)"
    and J: "\<And>xs ys. readOps p = xs @ op # ys \<Longrightarrow> read_J Kr' Dr' (xs @ f op # ys) c'"
  shows "ok_result user_fault (pipe_inv ctx Kr' Kw Dr' Dw Dh) (through_read sn f (p\<lparr>pcore := c'\<rparr>))"
proof -
  note v = frame_view(1) [OF fr]
  have "machine_ok Read_FINISHED advanceReadOperation (readOps p) c'"
    using inv rd.machine_ok_cong [OF v] by (simp add: pipe_inv_def)
  from rd.resume_settled [where f = f, OF this op f J]
  have "rd.settled Kr' Dr' c' (bindR (through_iter sn f (readOps p)) (\<lambda>ops1.
      advanceOperation Read_FINISHED advanceReadOperation sn ops1 c'))" .
  moreover have "write_J Kw Dw (writeOps p) c'" "shake_ok ctx Dh c'"
    "machine_ok Write_FINISHED advanceWriteOperation (writeOps p) c'"
    unfolding write_J_frame [OF fr] shake_ok_frame(1) [OF fr] wr.machine_ok_cong [OF v]
    using inv by (simp_all add: pipe_inv_def)
  ultimately show ?thesis
    unfolding through_read_def by (intro run_read_inv) simp_all
qed

lemma through_write_inv:
  assumes inv: "pipe_inv ctx Kr Kw Dr Dw Dh p" and op: "op \<in> set (writeOps p)" "sequenceNumber op = sn"
    and f: "sequenceNumber (f op) = sequenceNumber op" "state (f op) = state op"
    and J: "\<And>xs ys. writeOps p = xs @ op # ys \<Longrightarrow> write_J Kw Dw' (xs @ f op # ys) (pcore p)"
  shows "ok_result user_fault (pipe_inv ctx Kr Kw Dr Dw' Dh) (through_write sn f p)"
proof -
  have "machine_ok Write_FINISHED advanceWriteOperation (writeOps p) (pcore p)" using inv by (simp add: pipe_inv_def)
  from wr.resume_settled [where f = f, OF this op f J]
  have "wr.settled Kw Dw' (pcore p) (bindR (through_iter sn f (writeOps p)) (\<lambda>ops1.
      advanceOperation Write_FINISHED advanceWriteOperation sn ops1 (pcore p)))" .
  then show ?thesis
    unfolding through_write_def by (rule run_write_inv) (use inv [unfolded pipe_inv_def] in blast)+
qed

lemma pend_r_cases:
  "DescriptorTok sn \<in># pend_r op \<Longrightarrow> sequenceNumber op = sn \<and> state op = READING_DESCRIPTOR \<and> \<not> doneReadingDescriptor op"
  "PayloadReadTok sn \<in># pend_r op \<Longrightarrow> sequenceNumber op = sn \<and> numPayloadsBeingRead op \<noteq> 0"
  "TensorRecvTok sn \<in># pend_r op \<Longrightarrow> sequenceNumber op = sn \<and> numTensorsBeingReceived op \<noteq> 0"
  by (auto simp: pend_r_def split: if_splits)

lemma pend_w_cases:
  "ReplyTok sn \<in># pend_w op \<Longrightarrow> sequenceNumber op = sn \<and>
     state op = WRITING_PAYLOADS_AND_READING_TARGET_DEVICES \<and> \<not> doneReadingDescriptorReply op"
  "PayloadWriteTok sn \<in># pend_w op \<Longrightarrow> sequenceNumber op = sn \<and> numPayloadsBeingWritten op \<noteq> 0"
  "TensorSendTok sn \<in># pend_w op \<Longrightarrow> sequenceNumber op = sn \<and> numTensorsBeingSent op \<noteq> 0"
  by (auto simp: pend_w_def split: if_splits)

text \<open>The callbacks of read operations.\<close>

lemma read_event_inv:
  assumes inv: "pipe_inv ctx Kr Kw Dr Dw Dh p" and op: "op \<in> set (readOps p)" "sequenceNumber op = sn"
    and f: "sequenceNumber (f op) = sequenceNumber op" "state (f op) = state op" "doneGettingAllocation (f op) = doneGettingAllocation op"
      "read_ok (pcore p) op \<Longrightarrow> read_ok (pcore p) (f op)" "owes_r (f op) = owes_r op" "pend_r (f op) + {#tok#} = pend_r op"
  shows "ok_result user_fault (pipe_inv ctx Kr Kw (Dr + {#tok#}) Dw Dh) (through_read sn f p)"
proof -
  have "read_J Kr (Dr + {#tok#}) (xs @ f op # ys) (pcore p)" if ops: "readOps p = xs @ op # ys" for xs ys
  proof -
    have J: "read_J Kr Dr (xs @ op # ys) (pcore p)" using inv ops by (simp add: pipe_inv_def)
    have ok: "read_ok (pcore p) op" using read_JD(3) [OF J] by simp
    have c: "pcore p = (pcore p)\<lparr>nextMessageGettingAllocation := nextMessageGettingAllocation (pcore p)\<rparr>" by simp
    have al: "nextMessageGettingAllocation (pcore p) = Some sn \<longleftrightarrow>
        (\<exists>x \<in> set (xs @ f op # ys). sequenceNumber x = sn \<and> state x = ASKING_FOR_ALLOCATION_FIRST_IN_LINE \<and>
           \<not> doneGettingAllocation x)" for sn
      by (rule read_frames(1) [OF J f(1)]) (simp add: f)
    from read_J_touch [OF J f(1,2) f(4) [OF ok] _ f(6) c al, of "{#}"] f(5) show ?thesis by simp
  qed
  from through_read_inv [where f = f, OF inv op f(1,2) refl this] show ?thesis by simp
qed

lemma read_ok_pending:
  assumes "read_ok c op"
  shows "numPayloadsBeingRead op \<noteq> 0 \<Longrightarrow> state op = READING_PAYLOADS_AND_RECEIVING_TENSORS"
    "numTensorsBeingReceived op \<noteq> 0 \<Longrightarrow> state op = READING_PAYLOADS_AND_RECEIVING_TENSORS"
  using assms unfolding read_ok_def by blast+

lemma unat_pred: "(w :: 64 word) \<noteq> 0 \<Longrightarrow> unat w = Suc (unat (w - 1))"
  by (simp add: unat_minus_one unat_gt_0)

lemma descriptor_read_inv:
  assumes inv: "pipe_inv ctx Kr Kw Dr Dw Dh p" and tok: "{#DescriptorTok sn#} \<subseteq># issued_r (pcore p) - Dr"
  shows "ok_result user_fault (pipe_inv ctx Kr Kw (Dr + {#DescriptorTok sn#}) Dw Dh) (onDescriptorRead sn d p)"
proof -
  have J: "read_J Kr Dr (readOps p) (pcore p)" using inv by (simp add: pipe_inv_def)
  obtain op where op: "op \<in> set (readOps p)" "DescriptorTok sn \<in># pend_r op" using pending_op_r [OF J tok] by blast
  note c = pend_r_cases(1) [OF op(2)]
  show ?thesis
    unfolding onDescriptorRead_def
    by (rule read_event_inv [OF inv op(1)])
      (use c in \<open>auto simp: Let_def read_ok_def owes_r_def pend_r_def pipe_state_order descriptorMissesTargetDevices_def\<close>)
qed

lemma payload_read_inv:
  assumes inv: "pipe_inv ctx Kr Kw Dr Dw Dh p" and tok: "{#PayloadReadTok sn#} \<subseteq># issued_r (pcore p) - Dr"
  shows "ok_result user_fault (pipe_inv ctx Kr Kw (Dr + {#PayloadReadTok sn#}) Dw Dh) (onPayloadRead sn p)"
proof -
  have J: "read_J Kr Dr (readOps p) (pcore p)" using inv by (simp add: pipe_inv_def)
  obtain op where op: "op \<in> set (readOps p)" "PayloadReadTok sn \<in># pend_r op" using pending_op_r [OF J tok] by blast
  note c = pend_r_cases(2) [OF op(2)]
  show ?thesis
    unfolding onPayloadRead_def
  proof (rule read_event_inv [OF inv op(1)])
    show "read_ok (pcore p) (op\<lparr>numPayloadsBeingRead := numPayloadsBeingRead op - 1\<rparr>)" if "read_ok (pcore p) op"
      using that read_ok_pending [OF that] c by (simp add: read_ok_def)
    show "pend_r (op\<lparr>numPayloadsBeingRead := numPayloadsBeingRead op - 1\<rparr>) + {#PayloadReadTok sn#} = pend_r op"
      using c unat_pred [of "numPayloadsBeingRead op"] by (simp add: pend_r_def)
  qed (use c in \<open>simp_all add: owes_r_def\<close>)
qed

lemma tensor_received_inv:
  assumes inv: "pipe_inv ctx Kr Kw Dr Dw Dh p" and tok: "{#TensorRecvTok sn#} \<subseteq># issued_r (pcore p) - Dr"
  shows "ok_result user_fault (pipe_inv ctx Kr Kw (Dr + {#TensorRecvTok sn#}) Dw Dh) (onTensorReceived sn p)"
proof -
  have J: "read_J Kr Dr (readOps p) (pcore p)" using inv by (simp add: pipe_inv_def)
  obtain op where op: "op \<in> set (readOps p)" "TensorRecvTok sn \<in># pend_r op" using pending_op_r [OF J tok] by blast
  note c = pend_r_cases(3) [OF op(2)]
  show ?thesis
    unfolding onTensorReceived_def
  proof (rule read_event_inv [OF inv op(1)])
    show "read_ok (pcore p) (op\<lparr>numTensorsBeingReceived := numTensorsBeingReceived op - 1\<rparr>)" if "read_ok (pcore p) op"
      using that read_ok_pending [OF that] c by (simp add: read_ok_def)
    show "pend_r (op\<lparr>numTensorsBeingReceived := numTensorsBeingReceived op - 1\<rparr>) + {#TensorRecvTok sn#} = pend_r op"
      using c unat_pred [of "numTensorsBeingReceived op"] by (simp add: pend_r_def)
  qed (use c in \<open>simp_all add: owes_r_def\<close>)
qed

text \<open>The callbacks of write operations.\<close>

lemma write_event_inv:
  assumes inv: "pipe_inv ctx Kr Kw Dr Dw Dh p" and op: "op \<in> set (writeOps p)" "sequenceNumber op = sn"
    and f: "sequenceNumber (f op) = sequenceNumber op" "state (f op) = state op"
      "write_ok (pcore p) op \<Longrightarrow> write_ok (pcore p) (f op)" "owes_w (f op) = owes_w op" "pend_w (f op) + {#tok#} = pend_w op"
  shows "ok_result user_fault (pipe_inv ctx Kr Kw Dr (Dw + {#tok#}) Dh) (through_write sn f p)"
proof (rule through_write_inv [where f = f, OF inv op f(1,2)])
  fix xs ys
  assume ops: "writeOps p = xs @ op # ys"
  have J: "write_J Kw Dw (xs @ op # ys) (pcore p)" using inv ops by (simp add: pipe_inv_def)
  have ok: "write_ok (pcore p) op" using write_JD(3) [OF J] by simp
  show "write_J Kw (Dw + {#tok#}) (xs @ f op # ys) (pcore p)"
    by (rule write_J_touch [OF J f(1,2) f(3) [OF ok] f(4,5)])
qed

lemma write_ok_pending:
  assumes "write_ok c op"
  shows "numPayloadsBeingWritten op \<noteq> 0 \<Longrightarrow> state op \<notin> {Write_UNINITIALIZED, Write_FINISHED}"
    "numTensorsBeingSent op \<noteq> 0 \<Longrightarrow> state op = WRITING_PAYLOADS_AND_SENDING_TENSORS"
  using assms unfolding write_ok_def by blast+

lemma payload_written_inv:
  assumes inv: "pipe_inv ctx Kr Kw Dr Dw Dh p" and tok: "{#PayloadWriteTok sn#} \<subseteq># issued_w (pcore p) - Dw"
  shows "ok_result user_fault (pipe_inv ctx Kr Kw Dr (Dw + {#PayloadWriteTok sn#}) Dh) (onPayloadWritten sn p)"
proof -
  have J: "write_J Kw Dw (writeOps p) (pcore p)" using inv by (simp add: pipe_inv_def)
  obtain op where op: "op \<in> set (writeOps p)" "PayloadWriteTok sn \<in># pend_w op" using pending_op_w [OF J tok] by blast
  note c = pend_w_cases(2) [OF op(2)]
  show ?thesis
    unfolding onPayloadWritten_def
  proof (rule write_event_inv [OF inv op(1)])
    show "write_ok (pcore p) (op\<lparr>numPayloadsBeingWritten := numPayloadsBeingWritten op - 1\<rparr>)" if "write_ok (pcore p) op"
      using that write_ok_pending(1) [OF that] c by (auto simp: write_ok_def)
    show "pend_w (op\<lparr>numPayloadsBeingWritten := numPayloadsBeingWritten op - 1\<rparr>) + {#PayloadWriteTok sn#} = pend_w op"
      using c unat_pred [of "numPayloadsBeingWritten op"] by (simp add: pend_w_def)
  qed (use c in \<open>simp_all add: owes_w_def\<close>)
qed

lemma tensor_sent_inv:
  assumes inv: "pipe_inv ctx Kr Kw Dr Dw Dh p" and tok: "{#TensorSendTok sn#} \<subseteq># issued_w (pcore p) - Dw"
  shows "ok_result user_fault (pipe_inv ctx Kr Kw Dr (Dw + {#TensorSendTok sn#}) Dh) (onTensorSent sn p)"
proof -
  have J: "write_J Kw Dw (writeOps p) (pcore p)" using inv by (simp add: pipe_inv_def)
  obtain op where op: "op \<in> set (writeOps p)" "TensorSendTok sn \<in># pend_w op" using pending_op_w [OF J tok] by blast
  note c = pend_w_cases(3) [OF op(2)]
  show ?thesis
    unfolding onTensorSent_def
  proof (rule write_event_inv [OF inv op(1)])
    show "write_ok (pcore p) (op\<lparr>numTensorsBeingSent := numTensorsBeingSent op - 1\<rparr>)" if "write_ok (pcore p) op"
      using that write_ok_pending(2) [OF that] c by (auto simp: write_ok_def)
    show "pend_w (op\<lparr>numTensorsBeingSent := numTensorsBeingSent op - 1\<rparr>) + {#TensorSendTok sn#} = pend_w op"
      using c unat_pred [of "numTensorsBeingSent op"] by (simp add: pend_w_def)
  qed (use c in \<open>simp_all add: owes_w_def\<close>)
qed

text \<open>A reply with as many devices as are missing gives every tensor one.\<close>

lemma parse_reply_loop_total:
  assumes "length ms = length ts" and "k + length (filter (\<lambda>t. mt_targetDevice t = None) ms) \<le> length reply"
    and "\<forall>(m, t) \<in> set (zip ms ts). mt_targetDevice m \<noteq> None \<longrightarrow> wt_targetDevice t \<noteq> None"
  shows "\<exists>ts'. parse_reply_loop ms ts reply k =
      Inr (ts', k + length (filter (\<lambda>t. mt_targetDevice t = None) ms)) \<and> length ts' = length ts \<and>
      (\<forall>t \<in> set ts'. wt_targetDevice t \<noteq> None)"
  using assms
proof (induction ms ts reply k rule: parse_reply_loop.induct)
  case (3 m ms t ts reply k)
  show ?case
  proof (cases "mt_targetDevice m")
    case None
    then have "k < length reply" "length ms = length ts"
      "k + 1 + length (filter (\<lambda>t. mt_targetDevice t = None) ms) \<le> length reply" using "3.prems"(1,2) by auto
    moreover have "\<forall>(m, t) \<in> set (zip ms ts). mt_targetDevice m \<noteq> None \<longrightarrow> wt_targetDevice t \<noteq> None"
      using "3.prems"(3) by auto
    ultimately obtain ts' where "parse_reply_loop ms ts reply (k + 1) =
        Inr (ts', k + 1 + length (filter (\<lambda>t. mt_targetDevice t = None) ms))" "length ts' = length ts"
        "\<forall>t \<in> set ts'. wt_targetDevice t \<noteq> None"
      using "3.IH"(1) [OF None] by blast
    then show ?thesis using None \<open>k < length reply\<close> by simp
  next
    case (Some dev)
    have "length ms = length ts" "k + length (filter (\<lambda>t. mt_targetDevice t = None) ms) \<le> length reply"
      "\<forall>(m, t) \<in> set (zip ms ts). mt_targetDevice m \<noteq> None \<longrightarrow> wt_targetDevice t \<noteq> None"
      using "3.prems" Some by auto
    moreover have "mt_targetDevice m \<noteq> None" using Some by simp
    ultimately obtain ts' where "parse_reply_loop ms ts reply k =
        Inr (ts', k + length (filter (\<lambda>t. mt_targetDevice t = None) ms))" "length ts' = length ts"
        "\<forall>t \<in> set ts'. wt_targetDevice t \<noteq> None"
      using "3.IH"(2) by blast
    then show ?thesis using Some "3.prems"(3) by simp
  qed
qed simp_all

lemma parse_reply_ok:
  assumes "length reply = length (filter (\<lambda>t. mt_targetDevice t = None) (m_tensors msg))"
  shows "\<exists>ts. parseDescriptorReplyOfMessage msg (tensorsBeingSent msg) reply = Inr ts \<and>
    length ts = length (m_tensors msg) \<and> (\<forall>t \<in> set ts. wt_targetDevice t \<noteq> None)"
proof -
  have "\<exists>ts'. parse_reply_loop (m_tensors msg) (tensorsBeingSent msg) reply 0 =
      Inr (ts', 0 + length (filter (\<lambda>t. mt_targetDevice t = None) (m_tensors msg))) \<and>
      length ts' = length (tensorsBeingSent msg) \<and> (\<forall>t \<in> set ts'. wt_targetDevice t \<noteq> None)"
    by (rule parse_reply_loop_total)
      (use assms in \<open>auto simp: tensorsBeingSent_def tensor_being_sent_def in_set_zip\<close>)
  then show ?thesis
    using assms by (auto simp: parseDescriptorReplyOfMessage_def tensorsBeingSent_def)
qed

lemma numbered_distinct: "numbered n ops \<Longrightarrow> distinct ops"
  unfolding numbered_def seqs_from_def by (metis distinct_map distinct_upt)

lemma deref_eq:
  assumes "numbered n ops" and "op \<in> set ops" "sequenceNumber op = sn"
  shows "deref sn ops = Inr op"
proof -
  obtain op' where f: "List.find (\<lambda>op. sequenceNumber op = sn) ops = Some op'"
    using assms(2,3) by (cases "List.find (\<lambda>op. sequenceNumber op = sn) ops") (auto simp: find_None_iff)
  then have "op' \<in> set ops" "sequenceNumber op' = sn" by (auto simp: find_Some_iff)
  then show ?thesis using f numbered_unique [OF assms(1)] assms(2,3) by (auto simp: deref_def)
qed

lemma reply_read_inv:
  assumes inv: "pipe_inv ctx Kr Kw Dr Dw Dh p" and tok: "{#ReplyTok sn#} \<subseteq># issued_w (pcore p) - Dw"
    and fits: "\<not> is_error (p_error (pcore p)) \<Longrightarrow> \<forall>op \<in> set (writeOps p). sequenceNumber op = sn \<longrightarrow>
        length reply = length (filter (\<lambda>t. mt_targetDevice t = None) (m_tensors (w_message op)))"
  shows "ok_result user_fault (pipe_inv ctx Kr Kw Dr (Dw + {#ReplyTok sn#}) Dh) (onDescriptorReplyRead sn reply p)"
proof -
  have J: "write_J Kw Dw (writeOps p) (pcore p)" using inv by (simp add: pipe_inv_def)
  obtain op where op: "op \<in> set (writeOps p)" "ReplyTok sn \<in># pend_w op" using pending_op_w [OF J tok] by blast
  note c = pend_w_cases(1) [OF op(2)]
  have ok: "write_ok (pcore p) op" using write_JD(3) [OF J] op(1) by (simp add: list_all_iff)
  have d: "deref sn (writeOps p) = Inr op" using deref_eq [OF write_JD(1) [OF J] op(1)] c by simp
  have ts: "w_tensors op = tensorsBeingSent (w_message op)" using ok c unfolding write_ok_def by blast
  show ?thesis
  proof (cases "is_error (p_error (pcore p))")
    case True
    have "ok_result user_fault (pipe_inv ctx Kr Kw Dr (Dw + {#ReplyTok sn#}) Dh)
        (through_write sn (\<lambda>op. op\<lparr>doneReadingDescriptorReply := True\<rparr>) p)"
    proof (rule write_event_inv [OF inv op(1)])
      show "write_ok (pcore p) (op\<lparr>doneReadingDescriptorReply := True\<rparr>)" if "write_ok (pcore p) op"
        using that c True by (auto simp: write_ok_def)
    qed (use c in \<open>simp_all add: owes_w_def pend_w_def\<close>)
    then show ?thesis using True d by (simp add: onDescriptorReplyRead_def)
  next
    case False
    have "length reply = length (filter (\<lambda>t. mt_targetDevice t = None) (m_tensors (w_message op)))"
      using fits [OF False] op(1) c by blast
    then obtain ts' where ts': "parseDescriptorReplyOfMessage (w_message op) (w_tensors op) reply = Inr ts'"
      "length ts' = length (m_tensors (w_message op))" "\<forall>t \<in> set ts'. wt_targetDevice t \<noteq> None"
      using parse_reply_ok unfolding ts by blast
    have "ok_result user_fault (pipe_inv ctx Kr Kw Dr (Dw + {#ReplyTok sn#}) Dh)
        (through_write sn (\<lambda>op. op\<lparr>doneReadingDescriptorReply := True, w_tensors := ts'\<rparr>) p)"
    proof (rule write_event_inv [OF inv op(1)])
      show "write_ok (pcore p) (op\<lparr>doneReadingDescriptorReply := True, w_tensors := ts'\<rparr>)" if "write_ok (pcore p) op"
        using that c ts'(2,3) by (auto simp: write_ok_def)
    qed (use c in \<open>simp_all add: owes_w_def pend_w_def\<close>)
    then show ?thesis using False d ts' by (simp add: onDescriptorReplyRead_def)
  qed
qed

lemma check_devices_fault: "check_devices bs ds = Inl f \<Longrightarrow> f = AssertFailed"
  by (induction bs ds rule: check_devices.induct) (auto simp: throw_assert_if_def split: option.splits if_splits)

text \<open>
  The allocation of the user. Calling \<^verbatim>\<open>read\<close> when no descriptor waits for one, or with one that
  does not fit, is answered by an exception.
\<close>

lemma read_inv:
  assumes inv: "pipe_inv ctx Kr Kw Dr Dw Dh p"
    and len: "length (a_payloads alloc) < 2 ^ 64" "length (a_tensors alloc) < 2 ^ 64"
  shows "ok_result user_fault (pipe_inv ctx (Kr + {#ReadCb cb#}) Kw Dr Dw Dh) (readFromLoop alloc cb p)"
proof (cases "nextMessageGettingAllocation (pcore p)")
  case None
  then show ?thesis by (simp add: readFromLoop_def user_fault_def)
next
  case (Some sn)
  have J: "read_J Kr Dr (readOps p) (pcore p)" using inv by (simp add: pipe_inv_def)
  obtain op where op: "op \<in> set (readOps p)" "sequenceNumber op = sn" "state op = ASKING_FOR_ALLOCATION_FIRST_IN_LINE"
    "\<not> doneGettingAllocation op"
    using read_JD(9) [OF J] Some by blast
  have d: "deref sn (readOps p) = Inr op" by (rule deref_eq [OF read_JD(1) [OF J] op(1,2)])
  have ok: "read_ok (pcore p) op" using read_JD(3) [OF J] op(1) by (simp add: list_all_iff)
  show ?thesis
  proof (cases "checkAllocationCompatibility (r_descriptor op) alloc")
    case (Inl f)
    have "f = AssertFailed"
      using Inl check_devices_fault by (auto simp: checkAllocationCompatibility_def throw_assert_if_def split: if_splits)
    then show ?thesis using Some d Inl by (simp add: readFromLoop_def user_fault_def)
  next
    case (Inr u)
    let ?f = "\<lambda>op. op\<lparr>r_allocation := alloc, readCallback := Some cb, doneGettingAllocation := True\<rparr>"
    let ?c = "(pcore p)\<lparr>nextMessageGettingAllocation := None\<rparr>"
    have "read_J (Kr + {#ReadCb cb#}) Dr (xs @ ?f op # ys) ?c" if ops: "readOps p = xs @ op # ys" for xs ys
    proof -
      have J': "read_J Kr Dr (xs @ op # ys) (pcore p)" using J ops by simp
      have "read_J (Kr + {#ReadCb cb#}) (Dr + {#}) (xs @ ?f op # ys) ?c"
      proof (rule read_J_touch [OF J' _ _ _ _ _ refl])
        show "read_ok (pcore p) (?f op)" using ok op len Inr by (simp add: read_ok_def pipe_state_order)
        show "owes_r (?f op) = owes_r op + {#ReadCb cb#}"
          using ok op unfolding owes_r_def read_ok_def by (auto split: option.splits)
        show "None = Some sn \<longleftrightarrow> (\<exists>x \<in> set (xs @ ?f op # ys). sequenceNumber x = sn \<and>
            state x = ASKING_FOR_ALLOCATION_FIRST_IN_LINE \<and> \<not> doneGettingAllocation x)" for sn
        proof -
          have "x = op" if "x \<in> set xs \<union> set ys" "state x = ASKING_FOR_ALLOCATION_FIRST_IN_LINE" "\<not> doneGettingAllocation x" for x
          proof -
            have x: "x \<in> set (xs @ op # ys)" "op \<in> set (xs @ op # ys)" using that by auto
            have "nextMessageGettingAllocation (pcore p) = Some (sequenceNumber x)"
              using read_JD(9) [OF J', of "sequenceNumber x"] x that by blast
            then have "sequenceNumber x = sequenceNumber op" using Some op(2) by simp
            then show ?thesis by (rule numbered_unique [OF read_JD(1) [OF J'] x])
          qed
          moreover have "op \<notin> set xs \<union> set ys"
            using numbered_distinct [OF read_JD(1) [OF J']] by simp
          ultimately show ?thesis by auto
        qed
      qed (simp_all add: pend_r_def)
      then show ?thesis by simp
    qed
    from through_read_inv [where f = ?f and c' = ?c, OF inv op(1,2) _ _ _ this]
    show ?thesis using Some d Inr by (simp add: readFromLoop_def pcall_def)
  qed
qed

end
