(* ===== verification/Pipe_Handshake.thy ===== *)
theory Pipe_Handshake
  imports Pipe_Correct
begin

text \<open>
  The handshake of the pipe keeps the invariant of \<open>Pipe_Correct\<close>: on the listening side
  from the brochure to the last connection, on the connecting side with the brochure answer.
\<close>

section \<open>What the deques depend on\<close>

definition ops_frame where
  "ops_frame c = (p_error c, nextMessageBeingRead c, nextMessageBeingWritten c, nextReadDescriptorCallbackToCall c,
     nextReadCallbackToCall c, nextWriteCallbackToCall c, connectionState c, messageBeingReadFromConnection c,
     nextMessageGettingAllocation c, paid_r c, paid_w c, issued_r c, issued_w c)"

lemma ops_frame_updates [simp]:
  "ops_frame (c\<lparr>p_transport := v1\<rparr>) = ops_frame c" "ops_frame (c\<lparr>p_opened := v2\<rparr>) = ops_frame c"
  "ops_frame (c\<lparr>p_descriptorConnection := v3\<rparr>) = ops_frame c"
  "ops_frame (c\<lparr>p_descriptorReplyConnection := v4\<rparr>) = ops_frame c"
  "ops_frame (c\<lparr>p_channels := v5\<rparr>) = ops_frame c" "ops_frame (c\<lparr>p_channelForDevicePair := v6\<rparr>) = ops_frame c"
  "ops_frame (c\<lparr>p_registrationIds := v7\<rparr>) = ops_frame c" "ops_frame (c\<lparr>p_channelRegistrationIds := v8\<rparr>) = ops_frame c"
  "ops_frame (c\<lparr>p_channelReceivedConnections := v9\<rparr>) = ops_frame c" "ops_frame (c\<lparr>p_state := v0\<rparr>) = ops_frame c"
  by (simp_all add: ops_frame_def)

lemma ops_frame_plog [simp]:
  "concat (map read_effect_callback es) = [] \<Longrightarrow> concat (map write_effect_callback es) = [] \<Longrightarrow>
   concat (map read_effect_token es) = [] \<Longrightarrow> concat (map write_effect_token es) = [] \<Longrightarrow> ops_frame (plog es c) = ops_frame c"
  by (simp add: ops_frame_def)

lemma ops_frameD:
  assumes "ops_frame c' = ops_frame c"
  shows "p_error c' = p_error c"
  using assms by (simp add: ops_frame_def)

lemma J_shake:
  assumes fr: "ops_frame c' = ops_frame c" and core: "core_ok c'" and st: "p_state c = ESTABLISHED \<longrightarrow> p_state c' = ESTABLISHED"
  shows "read_J K D ops c \<Longrightarrow> read_J K D ops c'" and "write_J K D wops c \<Longrightarrow> write_J K D wops c'"
proof -
  have r: "read_ok c op \<Longrightarrow> read_ok c' op" for op using fr st unfolding read_ok_def ops_frame_def by auto
  have w: "write_ok c op \<Longrightarrow> write_ok c' op" for op using fr st unfolding write_ok_def ops_frame_def by auto
  show "read_J K D ops c'" if J: "read_J K D ops c"
  proof -
    have "list_all (read_ok c') ops" using read_JD(3) [OF J] r by (auto simp: list_all_iff)
    then show ?thesis using J core fr unfolding read_J_def ops_frame_def by simp
  qed
  show "write_J K D wops c'" if J: "write_J K D wops c"
  proof -
    have "list_all (write_ok c') wops" using write_JD(3) [OF J] w by (auto simp: list_all_iff)
    then show ?thesis using J core fr unfolding write_J_def ops_frame_def by simp
  qed
qed

lemma establish_inv:
  assumes inv: "pipe_inv ctx Kr Kw Dr Dw Dh0 p" and fr: "ops_frame c' = ops_frame (pcore p)"
    and ready: "p_descriptorReplyConnection c' \<noteq> None" "snd ` set (p_channelForDevicePair c') \<subseteq> set (p_channels c')"
      "issued_h c' = Dh"
  shows "ok_result user_fault (pipe_inv ctx Kr Kw Dr Dw Dh) (establish (p\<lparr>pcore := c'\<rparr>))"
proof -
  let ?c = "c'\<lparr>p_state := ESTABLISHED\<rparr>"
  have fr': "ops_frame ?c = ops_frame (pcore p)" using fr by simp
  have core: "core_ok ?c" using ready by (simp add: core_ok_def)
  have "ok_result user_fault (pipe_inv ctx Kr Kw Dr Dw Dh) (advance_all (p\<lparr>pcore := ?c\<rparr>))"
  proof (rule advance_all_inv)
    show "read_J Kr Dr (readOps (p\<lparr>pcore := ?c\<rparr>)) (pcore (p\<lparr>pcore := ?c\<rparr>))"
      using inv J_shake(1) [OF fr' core] by (simp add: pipe_inv_def)
    show "write_J Kw Dw (writeOps (p\<lparr>pcore := ?c\<rparr>)) (pcore (p\<lparr>pcore := ?c\<rparr>))"
      using inv J_shake(2) [OF fr' core] by (simp add: pipe_inv_def)
    show "shake_ok ctx Dh (pcore (p\<lparr>pcore := ?c\<rparr>))" using ready(3) by (simp add: shake_ok_def)
    show "fronts_ok (p\<lparr>pcore := ?c\<rparr>)" using pipe_inv_fronts [OF inv] by (simp add: fronts_ok_def)
  qed
  then show ?thesis by (simp add: establish_def pcall_def)
qed

text \<open>The end of every step of the listening side: established, or waiting for more connections.\<close>

lemma request_step_inv:
  assumes inv: "pipe_inv ctx Kr Kw Dr Dw Dh0 p" and ne: "p_state (pcore p) \<noteq> ESTABLISHED"
    and fr: "ops_frame c' = ops_frame (pcore p)" and st: "p_state c' = SERVER_WAITING_FOR_CONNECTIONS"
    and w: "waiting_ok ctx c'" and h: "issued_h c' = Dh + request_tokens c'"
  shows "ok_result user_fault (pipe_inv ctx Kr Kw Dr Dw Dh)
    (if \<not> pendingRegistrations c' then establish (p\<lparr>pcore := c'\<rparr>) else Inr (p\<lparr>pcore := c'\<rparr>))"
proof (cases "pendingRegistrations c'")
  case True
  have core: "core_ok c'" using st by (simp add: core_ok_def)
  have v: "pipe_view c' = pipe_view (pcore p)" using st ne ops_frameD [OF fr] by (simp add: pipe_view_def)
  have "pipe_inv ctx Kr Kw Dr Dw Dh (p\<lparr>pcore := c'\<rparr>)"
    using inv J_shake [OF fr core] ne rd.machine_ok_cong [OF v] wr.machine_ok_cong [OF v] st w h
    by (simp add: pipe_inv_def shake_ok_def)
  then show ?thesis using True by simp
next
  case False
  then have e: "p_registrationIds c' = []" "p_channelRegistrationIds c' = []" by (simp_all add: pendingRegistrations_def)
  then have r: "p_channelReceivedConnections c' = []" using w by (simp add: waiting_ok_def)
  have "ok_result user_fault (pipe_inv ctx Kr Kw Dr Dw Dh) (establish (p\<lparr>pcore := c'\<rparr>))"
    by (rule establish_inv [OF inv fr]) (use w h e r in \<open>simp_all add: waiting_ok_def request_tokens_def\<close>)
  then show ?thesis using False by simp
qed

section \<open>Association lists\<close>

lemma sum_delete:
  fixes f :: "'k \<times> 'v \<Rightarrow> 'm multiset"
  assumes "distinct (map fst al)" and "map_of al k = Some v"
  shows "sum_list (map f al) = sum_list (map f (AList.delete k al)) + f (k, v)"
  using arg_cong [OF mset_delete [OF assms, of f], of sum_mset]
  by (simp add: sum_mset_sum_list add.commute del: mset_map)

lemma sum_update:
  fixes f :: "'k \<times> 'v \<Rightarrow> 'm multiset"
  assumes "distinct (map fst al)" and "map_of al k = Some v"
  shows "sum_list (map f (AList.update k v' al)) + f (k, v) = sum_list (map f al) + f (k, v')"
  using assms
proof (induction al)
  case (Cons x al)
  show ?case
  proof (cases "fst x = k")
    case True
    then show ?thesis using Cons.prems(2) by (cases x) (simp add: ac_simps)
  next
    case False
    then have "sum_list (map f (AList.update k v' al)) + f (k, v) = sum_list (map f al) + f (k, v')"
      using Cons by (cases x) simp
    then show ?thesis using False by (cases x) (simp add: add.assoc)
  qed
qed simp

lemma update_fresh: "k \<notin> fst ` set al \<Longrightarrow> AList.update k v al = al @ [(k, v)]"
  by (induction al) auto

lemma update_keys: "k \<in> fst ` set al \<Longrightarrow> map fst (AList.update k v al) = map fst al"
  by (induction al) auto

lemma delete_keys: "map fst (AList.delete k al) = filter (\<lambda>x. x \<noteq> k) (map fst al)"
  by (induction al) (auto simp: AList.delete_eq)

section \<open>Accepting a connection\<close>

text \<open>Without an error, an outstanding request means that the pipe waits for connections.\<close>

lemma waiting_for_request:
  assumes inv: "pipe_inv ctx Kr Kw Dr Dw Dh p" and ne: "\<not> is_error (p_error (pcore p))"
    and tok: "{#RequestTok r#} \<subseteq># issued_h (pcore p) - Dh"
  shows "p_state (pcore p) = SERVER_WAITING_FOR_CONNECTIONS" "waiting_ok ctx (pcore p)"
    "issued_h (pcore p) = Dh + request_tokens (pcore p)" "RequestTok r \<in># request_tokens (pcore p)"
  using assms by (auto simp: pipe_inv_def shake_ok_def split: pipe_state.splits)

lemma waiting_okD:
  assumes "waiting_ok ctx c"
  shows "distinct (map fst (p_registrationIds c))" "distinct (map fst (p_channelReceivedConnections c))"
     "map fst (p_channelRegistrationIds c) = map fst (p_channelReceivedConnections c)"
     "map_of (p_channelRegistrationIds c) name = Some tokens \<Longrightarrow>
        map_of (p_channelReceivedConnections c) name = Some conns \<Longrightarrow> length tokens = length conns"
     "snd ` set (p_channelForDevicePair c) \<subseteq> set (p_channels c) \<union> fst ` set (p_channelReceivedConnections c)"
     "set (p_channels c) \<inter> fst ` set (p_channelReceivedConnections c) = {}"
     "fst ` set (p_channelReceivedConnections c) \<subseteq> cc_name ` set (ctx_channels ctx)"
     "p_descriptorReplyConnection c \<noteq> None \<or> DESCRIPTOR_REPLY \<in> fst ` set (p_registrationIds c)"
  using assms unfolding waiting_ok_def by (elim conjE, (assumption | fast))+

lemma request_tokens_connection:
  "RequestTok (ForConnection connId) \<in># request_tokens c \<longleftrightarrow> connId \<in> fst ` set (p_registrationIds c)"
  by (auto simp: request_tokens_def in_sum_list intro: rev_image_eqI)

lemma accept_connection_inv:
  assumes inv: "pipe_inv ctx Kr Kw Dr Dw Dh p" and ne: "\<not> is_error (p_error (pcore p))"
    and tok: "{#RequestTok (ForConnection connId)#} \<subseteq># issued_h (pcore p) - Dh"
    and tr: "transport = p_transport (pcore p)"
  shows "ok_result user_fault (pipe_inv ctx Kr Kw Dr Dw (Dh + {#RequestTok (ForConnection connId)#}))
    (onAcceptWhileServerWaitingForConnection connId transport conn p)"
proof -
  let ?c = "pcore p"
  note w = waiting_for_request [OF inv ne tok]
  have d: "distinct (map fst (p_registrationIds ?c))" using w(2) by (simp add: waiting_ok_def)
  obtain token where token: "map_of (p_registrationIds ?c) connId = Some token"
    using w(4) unfolding request_tokens_connection by (auto simp: map_of_eq_None_iff [symmetric] dest: weak_map_of_SomeI)
  define regs where "regs = AList.delete connId (p_registrationIds ?c)"
  define c' where "c' = (case connId of
      DESCRIPTOR \<Rightarrow> (plog [UnregisterConnectionRequest token, SetConnectionId (AcceptedConn conn) (p_id ?c @ ''.d.tr_'' @ transport)]
        (?c\<lparr>p_registrationIds := regs\<rparr>))\<lparr>p_descriptorConnection := AcceptedConn conn\<rparr>
    | DESCRIPTOR_REPLY \<Rightarrow> (plog [UnregisterConnectionRequest token, SetConnectionId (AcceptedConn conn) (p_id ?c @ ''.r.tr_'' @ transport)]
        (?c\<lparr>p_registrationIds := regs\<rparr>))\<lparr>p_descriptorReplyConnection := Some (AcceptedConn conn)\<rparr>)"
  have eqs: "p_state c' = p_state ?c" "ops_frame c' = ops_frame ?c" "issued_h c' = issued_h ?c" "p_registrationIds c' = regs"
    "p_channelRegistrationIds c' = p_channelRegistrationIds ?c" "p_channelReceivedConnections c' = p_channelReceivedConnections ?c"
    "p_channels c' = p_channels ?c" "p_channelForDevicePair c' = p_channelForDevicePair ?c"
    by (cases connId; simp add: c'_def)+
  have keys: "map fst regs = filter (\<lambda>x. x \<noteq> connId) (map fst (p_registrationIds ?c))"
    unfolding regs_def by (rule delete_keys)
  then have ks: "fst ` set regs = fst ` set (p_registrationIds ?c) - {connId}"
    by (metis (no_types) image_set set_filter set_minus_filter_out)
  have reply: "p_descriptorReplyConnection c' \<noteq> None \<or> DESCRIPTOR_REPLY \<in> fst ` set regs"
    using w(2) ks by (cases connId) (auto simp: c'_def waiting_ok_def)
  have wt: "waiting_ok ctx c'"
    using w(2) d reply keys unfolding waiting_ok_def eqs by (simp add: distinct_filter)
  have "request_tokens ?c = request_tokens c' + {#RequestTok (ForConnection connId)#}"
    using mset_delete [OF d token, of "\<lambda>(connId, token). RequestTok (ForConnection connId)"]
    unfolding request_tokens_def eqs regs_def by (simp add: ac_simps)
  then have h: "issued_h c' = Dh + {#RequestTok (ForConnection connId)#} + request_tokens c'"
    using w(3) eqs(3) by (simp add: ac_simps)
  have "onAcceptWhileServerWaitingForConnection connId transport conn p =
      (if \<not> pendingRegistrations c' then establish (p\<lparr>pcore := c'\<rparr>) else Inr (p\<lparr>pcore := c'\<rparr>))"
    using w(1) token tr by (cases connId) (simp_all add: onAcceptWhileServerWaitingForConnection_def c'_def regs_def Let_def)
  moreover have "ok_result user_fault (pipe_inv ctx Kr Kw Dr Dw (Dh + {#RequestTok (ForConnection connId)#}))
      (if \<not> pendingRegistrations c' then establish (p\<lparr>pcore := c'\<rparr>) else Inr (p\<lparr>pcore := c'\<rparr>))"
    by (rule request_step_inv [OF inv _ eqs(2) _ wt h]) (use w(1) eqs(1) in simp_all)
  ultimately show ?thesis by (simp only:)
qed

section \<open>Accepting a connection of a channel\<close>

lemma request_tokens_channel:
  "RequestTok (ForChannel name i) \<in># request_tokens c \<longleftrightarrow>
     (\<exists>conns. (name, conns) \<in> set (p_channelReceivedConnections c) \<and> i < length conns \<and> conns ! i = None)"
  by (force simp: request_tokens_def in_sum_list)

lemma channel_tokens_update:
  assumes "i < length conns" and "conns ! i = None"
  shows "channel_tokens (name, conns) = channel_tokens (name, conns[i := Some conn]) + {#RequestTok (ForChannel name i)#}"
proof -
  let ?xs = "filter (\<lambda>k. conns ! k = None) [0..<length conns]"
  let ?ys = "filter (\<lambda>k. conns[i := Some conn] ! k = None) [0..<length conns]"
  have xs: "set ?xs = insert i (set ?ys)" and i: "i \<notin> set ?ys" using assms by (auto simp: nth_list_update)
  have "mset_set (set ?xs) = add_mset i (mset_set (set ?ys))"
    unfolding xs using i by (intro mset_set.insert finite_set)
  then have "mset ?xs = add_mset i (mset ?ys)" by (simp only: mset_set_set distinct_filter distinct_upt)
  then have "image_mset (\<lambda>k. RequestTok (ForChannel name k)) (mset ?xs) =
      image_mset (\<lambda>k. RequestTok (ForChannel name k)) (mset ?ys) + {#RequestTok (ForChannel name i)#}"
    by (simp only: image_mset_add_mset) (rule add_mset_add_single)
  then show ?thesis by (simp only: channel_tokens.simps mset_map length_list_update)
qed

lemma channel_tokens_full: "None \<notin> set conns \<Longrightarrow> channel_tokens (name, conns) = {#}"
proof -
  assume "None \<notin> set conns"
  then have "\<forall>k \<in> set [0..<length conns]. conns ! k \<noteq> None" by (auto simp: in_set_conv_nth)
  then have "filter (\<lambda>k. conns ! k = None) [0..<length conns] = []" unfolding filter_empty_conv by blast
  then show ?thesis by (simp only: channel_tokens.simps list.map mset.simps)
qed

lemma accept_channel_inv:
  assumes inv: "pipe_inv ctx Kr Kw Dr Dw Dh p" and ne: "\<not> is_error (p_error (pcore p))"
    and tok: "{#RequestTok (ForChannel name i)#} \<subseteq># issued_h (pcore p) - Dh"
    and tr: "transport = p_transport (pcore p)"
  shows "ok_result user_fault (pipe_inv ctx Kr Kw Dr Dw (Dh + {#RequestTok (ForChannel name i)#}))
    (onAcceptWhileServerWaitingForChannel ctx name i transport conn p)"
proof -
  let ?c = "pcore p"
  let ?rc = "p_channelReceivedConnections ?c"
  note w = waiting_for_request [OF inv ne tok]
  note wt = waiting_okD [OF w(2)]
  note d = wt(2) and keys = wt(3)
  obtain conns where mem: "(name, conns) \<in> set ?rc" and i: "i < length conns" "conns ! i = None"
    using w(4) unfolding request_tokens_channel by blast
  have rc: "map_of ?rc name = Some conns" by (rule map_of_is_SomeI [OF d mem])
  have name: "name \<in> fst ` set ?rc" using mem by force
  have "name \<in> set (map fst (p_channelRegistrationIds ?c))" unfolding keys using name by simp
  then have "map_of (p_channelRegistrationIds ?c) name \<noteq> None" unfolding map_of_eq_None_iff by simp
  then obtain tokens where tokens: "map_of (p_channelRegistrationIds ?c) name = Some tokens" by blast
  have len: "length tokens = length conns" using wt(4) [OF tokens rc] .
  define conns' where "conns' = conns[i := Some (AcceptedConn conn)]"
  define c2 where "c2 = (plog [UnregisterConnectionRequest (tokens ! i),
      SetConnectionId (AcceptedConn conn) (p_id ?c @ ''.ch_'' @ name @ ''_'' @ to_string i)] ?c)
      \<lparr>p_channelReceivedConnections := AList.update name conns' ?rc\<rparr>"
  have toks: "channel_tokens (name, conns) = channel_tokens (name, conns') + {#RequestTok (ForChannel name i)#}"
    unfolding conns'_def by (rule channel_tokens_update [OF i])
  have c2: "p_state c2 = SERVER_WAITING_FOR_CONNECTIONS" "ops_frame c2 = ops_frame ?c" "issued_h c2 = issued_h ?c"
    using w(1) by (simp_all add: c2_def)
  show ?thesis
  proof (cases "None \<in> set conns'")
    case True
    have rt: "request_tokens ?c = request_tokens c2 + {#RequestTok (ForChannel name i)#}"
      using sum_update [OF d rc, of channel_tokens conns'] toks
      by (simp add: request_tokens_def c2_def ac_simps)
    have wt2: "waiting_ok ctx c2"
      unfolding waiting_ok_def
    proof (intro conjI allI impI)
      fix n t cs
      assume "map_of (p_channelRegistrationIds c2) n = Some t" "map_of (p_channelReceivedConnections c2) n = Some cs"
      then show "length t = length cs"
        using wt(4) [of n t cs] tokens len by (cases "n = name") (auto simp: c2_def update_conv' conns'_def)
    next
      have k: "map fst (p_channelReceivedConnections c2) = map fst ?rc" using update_keys [OF name] by (simp add: c2_def)
      then have ks: "fst ` set (p_channelReceivedConnections c2) = fst ` set ?rc" by (metis image_set)
      show "distinct (map fst (p_channelReceivedConnections c2))" unfolding k by (rule d)
      show "map fst (p_channelRegistrationIds c2) = map fst (p_channelReceivedConnections c2)"
        unfolding k using keys by (simp add: c2_def)
      show "snd ` set (p_channelForDevicePair c2) \<subseteq> set (p_channels c2) \<union> fst ` set (p_channelReceivedConnections c2)"
        unfolding ks using wt(5) by (simp add: c2_def)
      show "set (p_channels c2) \<inter> fst ` set (p_channelReceivedConnections c2) = {}" unfolding ks using wt(6) by (simp add: c2_def)
      show "fst ` set (p_channelReceivedConnections c2) \<subseteq> cc_name ` set (ctx_channels ctx)" unfolding ks by (rule wt(7))
    qed (use wt(1,8) in \<open>simp_all add: c2_def\<close>)
    have "pendingRegistrations c2" using tokens by (auto simp: pendingRegistrations_def c2_def)
    then have eq: "onAcceptWhileServerWaitingForChannel ctx name i transport conn p =
        (if \<not> pendingRegistrations c2 then establish (p\<lparr>pcore := c2\<rparr>) else Inr (p\<lparr>pcore := c2\<rparr>))"
      using w(1) tr tokens i rc True len
      by (simp add: onAcceptWhileServerWaitingForChannel_def Let_def c2_def conns'_def)
    show ?thesis
      unfolding eq by (rule request_step_inv [OF inv _ c2(2,1) wt2]) (use w(1,3) c2(3) rt in \<open>simp_all add: ac_simps\<close>)
  next
    case False
    define c4 where "c4 = (plog [CreateChannel name (map the conns') ListenEndpoint, SetChannelId name (p_id ?c @ ''.ch_'' @ name)] c2)
        \<lparr>p_channelRegistrationIds := AList.delete name (p_channelRegistrationIds ?c),
         p_channelReceivedConnections := AList.delete name (AList.update name conns' ?rc),
         p_channels := p_channels ?c @ [name]\<rparr>"
    have del: "AList.delete name (AList.update name conns' ?rc) = AList.delete name ?rc" by (simp add: delete_update_same)
    have c4: "p_state c4 = SERVER_WAITING_FOR_CONNECTIONS" "ops_frame c4 = ops_frame ?c" "issued_h c4 = issued_h ?c"
      using c2 by (simp_all add: c4_def)
    have rt: "request_tokens ?c = request_tokens c4 + {#RequestTok (ForChannel name i)#}"
      using sum_delete [OF d rc, of channel_tokens] toks channel_tokens_full [OF False]
      by (simp add: request_tokens_def c4_def c2_def del ac_simps)
    have wt4: "waiting_ok ctx c4"
      unfolding waiting_ok_def
    proof (intro conjI allI impI)
      fix n t cs
      assume "map_of (p_channelRegistrationIds c4) n = Some t" "map_of (p_channelReceivedConnections c4) n = Some cs"
      then show "length t = length cs"
        using wt(4) [of n t cs] by (cases "n = name") (auto simp: c4_def del delete_conv')
    next
      show "map fst (p_channelRegistrationIds c4) = map fst (p_channelReceivedConnections c4)"
        using keys by (simp add: c4_def del delete_keys)
      show "distinct (map fst (p_channelReceivedConnections c4))" using d by (simp add: c4_def del delete_keys)
      have k: "fst ` set (p_channelReceivedConnections c4) = fst ` set ?rc - {name}"
      proof -
        have "p_channelReceivedConnections c4 = AList.delete name ?rc" unfolding c4_def del by simp
        then have "set (map fst (p_channelReceivedConnections c4)) = set (filter (\<lambda>x. x \<noteq> name) (map fst ?rc))"
          by (simp only: delete_keys)
        then show ?thesis by auto
      qed
      show "snd ` set (p_channelForDevicePair c4) \<subseteq> set (p_channels c4) \<union> fst ` set (p_channelReceivedConnections c4)"
        using wt(5) unfolding k by (auto simp: c4_def c2_def)
      show "set (p_channels c4) \<inter> fst ` set (p_channelReceivedConnections c4) = {}"
        using wt(6) unfolding k by (auto simp: c4_def c2_def)
      show "fst ` set (p_channelReceivedConnections c4) \<subseteq> cc_name ` set (ctx_channels ctx)" using wt(7) unfolding k by auto
    qed (use wt(1,8) in \<open>simp_all add: c4_def c2_def\<close>)
    obtain cc where cc: "getChannel ctx name = Inr cc"
    proof -
      have "name \<in> cc_name ` set (ctx_channels ctx)" using wt(7) name by blast
      then have "List.find (\<lambda>c. cc_name c = name) (ctx_channels ctx) \<noteq> None" by (auto simp: find_None_iff)
      then show ?thesis using that by (auto simp: getChannel_def)
    qed
    have fresh: "name \<notin> set (p_channels ?c)" using wt(6) name by blast
    have eq: "onAcceptWhileServerWaitingForChannel ctx name i transport conn p =
        (if \<not> pendingRegistrations c4 then establish (p\<lparr>pcore := c4\<rparr>) else Inr (p\<lparr>pcore := c4\<rparr>))"
      using w(1) tr tokens i rc False len cc fresh
      by (simp add: onAcceptWhileServerWaitingForChannel_def Let_def c4_def c2_def conns'_def)
    show ?thesis
      unfolding eq by (rule request_step_inv [OF inv _ c4(2,1) wt4]) (use w(1,3) c4(3) rt in \<open>simp_all add: ac_simps\<close>)
  qed
qed

section \<open>The brochure, on the listening side\<close>

definition context_ok :: "pipe_context \<Rightarrow> bool" where
  "context_ok ctx \<longleftrightarrow> distinct (map tc_name (ctx_transports ctx)) \<and> distinct (map cc_name (ctx_channels ctx))"

definition new_received :: "pipe_context \<Rightarrow> string \<Rightarrow> string \<times> pconn option list" where
  "new_received ctx name = (name, case getChannel ctx name of Inl f \<Rightarrow> [] | Inr cc \<Rightarrow> replicate (cc_numConnectionsNeeded cc) None)"

lemma getChannel_known: "name \<in> cc_name ` set (ctx_channels ctx) \<Longrightarrow> \<exists>cc \<in> set (ctx_channels ctx). getChannel ctx name = Inr cc \<and> cc_name cc = name"
proof -
  assume "name \<in> cc_name ` set (ctx_channels ctx)"
  then have "List.find (\<lambda>c. cc_name c = name) (ctx_channels ctx) \<noteq> None" by (auto simp: find_None_iff)
  then obtain cc where "List.find (\<lambda>c. cc_name c = name) (ctx_channels ctx) = Some cc" by blast
  moreover from this have "cc \<in> set (ctx_channels ctx)" "cc_name cc = name" by (auto simp: find_Some_iff)
  ultimately show ?thesis by (auto simp: getChannel_def)
qed

lemma new_tokens: "channel_tokens (name, replicate n None) = mset (map (\<lambda>i. RequestTok (ForChannel name i)) [0..<n])"
proof -
  have "filter (\<lambda>i. replicate n None ! i = (None :: pconn option)) [0..<length (replicate n (None :: pconn option))] = [0..<n]"
    by (auto simp: filter_id_conv)
  then show ?thesis by (simp only: channel_tokens.simps)
qed

lemma register_channels_eq:
  assumes "fst ` set ds \<subseteq> cc_name ` set (ctx_channels ctx)" and "distinct (map fst ds)"
    and "fst ` set ds \<inter> fst ` set (p_channelRegistrationIds c) = {}" "fst ` set ds \<inter> fst ` set (p_channelReceivedConnections c) = {}"
  shows "\<exists>ids es. register_channels ctx ds counter c = Inr (ids, plog es (c\<lparr>
      p_channelRegistrationIds := p_channelRegistrationIds c @ ids,
      p_channelReceivedConnections := p_channelReceivedConnections c @ map (new_received ctx \<circ> fst) ds\<rparr>)) \<and>
    map (\<lambda>(name, tokens). (name, length tokens)) ids = map ((\<lambda>(name, conns). (name, length conns)) \<circ> new_received ctx \<circ> fst) ds \<and>
    (\<forall>e \<in> set es. \<exists>token name i. e = RegisterConnectionRequest token (ForChannel name i)) \<and>
    mset (concat (map shake_effect_token es)) = sum_list (map (channel_tokens \<circ> new_received ctx \<circ> fst) ds)"
  using assms
proof (induction ds arbitrary: counter c)
  case Nil
  then show ?case by (intro exI [of _ "[]"]) simp
next
  case (Cons d ds)
  obtain name descs where d: "d = (name, descs)" by (cases d)
  obtain cc where cc: "getChannel ctx name = Inr cc"
    using getChannel_known [of name ctx] Cons.prems(1) d by auto
  let ?n = "cc_numConnectionsNeeded cc"
  let ?tokens = "map (\<lambda>i. counter + of_nat i) [0..<?n] :: 64 word list"
  let ?es = "map (\<lambda>i. RegisterConnectionRequest (counter + of_nat i) (ForChannel name i)) [0..<?n]"
  have fresh: "name \<notin> fst ` set (p_channelRegistrationIds c)" "name \<notin> fst ` set (p_channelReceivedConnections c)"
    using Cons.prems d by auto
  have nr: "new_received ctx name = (name, replicate ?n None)" using cc by (simp add: new_received_def)
  let ?c1 = "c\<lparr>p_channelRegistrationIds := p_channelRegistrationIds c @ [(name, ?tokens)],
    p_channelReceivedConnections := p_channelReceivedConnections c @ [new_received ctx name]\<rparr>"
  have reg: "registerChannel ctx name counter c = Inr (?tokens, plog ?es ?c1)"
    using cc fresh by (simp add: registerChannel_def Let_def update_fresh nr)
  have "\<exists>ids es. register_channels ctx ds (counter + of_nat (length ?tokens)) (plog ?es ?c1) = Inr (ids, plog es ((plog ?es ?c1)\<lparr>
      p_channelRegistrationIds := p_channelRegistrationIds (plog ?es ?c1) @ ids,
      p_channelReceivedConnections := p_channelReceivedConnections (plog ?es ?c1) @ map (new_received ctx \<circ> fst) ds\<rparr>)) \<and>
    map (\<lambda>(name, tokens). (name, length tokens)) ids = map ((\<lambda>(name, conns). (name, length conns)) \<circ> new_received ctx \<circ> fst) ds \<and>
    (\<forall>e \<in> set es. \<exists>token name i. e = RegisterConnectionRequest token (ForChannel name i)) \<and>
    mset (concat (map shake_effect_token es)) = sum_list (map (channel_tokens \<circ> new_received ctx \<circ> fst) ds)"
    by (rule Cons.IH) (use Cons.prems d nr in auto)
  then obtain ids es where ih: "register_channels ctx ds (counter + of_nat (length ?tokens)) (plog ?es ?c1) =
      Inr (ids, plog es ((plog ?es ?c1)\<lparr>
      p_channelRegistrationIds := p_channelRegistrationIds (plog ?es ?c1) @ ids,
      p_channelReceivedConnections := p_channelReceivedConnections (plog ?es ?c1) @ map (new_received ctx \<circ> fst) ds\<rparr>))"
    and lens: "map (\<lambda>(name, tokens). (name, length tokens)) ids = map ((\<lambda>(name, conns). (name, length conns)) \<circ> new_received ctx \<circ> fst) ds"
    and es: "\<forall>e \<in> set es. \<exists>token name i. e = RegisterConnectionRequest token (ForChannel name i)"
    and toks: "mset (concat (map shake_effect_token es)) = sum_list (map (channel_tokens \<circ> new_received ctx \<circ> fst) ds)"
    by blast
  have c2: "plog es ((plog ?es ?c1)\<lparr>
      p_channelRegistrationIds := p_channelRegistrationIds (plog ?es ?c1) @ ids,
      p_channelReceivedConnections := p_channelReceivedConnections (plog ?es ?c1) @ map (new_received ctx \<circ> fst) ds\<rparr>) =
    plog (?es @ es) (c\<lparr>p_channelRegistrationIds := p_channelRegistrationIds c @ (name, ?tokens) # ids,
      p_channelReceivedConnections := p_channelReceivedConnections c @ map (new_received ctx \<circ> fst) (d # ds)\<rparr>)"
    by (simp add: plog_def d)
  have et: "concat (map shake_effect_token ?es) = map (\<lambda>i. RequestTok (ForChannel name i)) [0..<?n]"
    by (simp add: comp_def)
  have "mset (concat (map shake_effect_token (?es @ es))) = sum_list (map (channel_tokens \<circ> new_received ctx \<circ> fst) (d # ds))"
    unfolding map_append concat_append mset_append et toks by (simp only: list.map comp_apply d fst_conv nr new_tokens sum_list.Cons)
  moreover have "register_channels ctx (d # ds) counter c = Inr ((name, ?tokens) # ids, plog (?es @ es)
      (c\<lparr>p_channelRegistrationIds := p_channelRegistrationIds c @ (name, ?tokens) # ids,
      p_channelReceivedConnections := p_channelReceivedConnections c @ map (new_received ctx \<circ> fst) (d # ds)\<rparr>))"
    unfolding c2 [symmetric] using reg ih by (simp add: d)
  moreover have "map (\<lambda>(name, tokens). (name, length tokens)) ((name, ?tokens) # ids) =
      map ((\<lambda>(name, conns). (name, length conns)) \<circ> new_received ctx \<circ> fst) (d # ds)"
    using lens nr by (simp add: d)
  moreover have "\<forall>e \<in> set (?es @ es). \<exists>token name i. e = RegisterConnectionRequest token (ForChannel name i)"
    using es by auto
  ultimately show ?case by blast
qed

lemma selected_names:
  assumes "distinct (map cc_name cs)"
  shows "distinct (map fst (descriptorsMap (selectChannels cs remote)))"
proof -
  have "distinct (map cc_name cs) \<Longrightarrow> distinct (map fst (descriptorsMap r)) \<Longrightarrow>
      fst ` set (descriptorsMap r) \<inter> cc_name ` set cs = {} \<Longrightarrow>
      distinct (map fst (descriptorsMap (select_channels_loop cs remote r)))" for r
  proof (induction cs arbitrary: r)
    case (Cons c cs)
    show ?case
    proof (cases "map_of remote (cc_name c)")
      case None
      then show ?thesis using Cons by auto
    next
      case (Some rs)
      obtain sel pairs where "select_locals c (cc_deviceDescriptors c) rs (False, channelForDevicePair r) = (sel, pairs)" by fastforce
      then show ?thesis using Some Cons.prems by (cases sel) (simp_all add: Cons.IH)
    qed
  qed simp
  then show ?thesis using assms by (simp add: selectChannels_def)
qed

lemma selectTransport_fault: "selectTransport ts remote addresses = Inl f \<Longrightarrow> f = AssertFailed"
  by (induction ts) (auto split: option.splits if_splits)

lemma silent_requests:
  assumes "\<forall>e \<in> set es. \<exists>token name i. e = RegisterConnectionRequest token (ForChannel name i)"
  shows "concat (map read_effect_callback es) = []" "concat (map write_effect_callback es) = []"
    "concat (map read_effect_token es) = []" "concat (map write_effect_token es) = []"
  by (rule concat_map_Nil; use assms in fastforce)+

text \<open>The answer that the listening side makes of a transport, its tokens and its channels.\<close>

definition server_answer ::
  "pipe_context \<Rightarrow> brochure \<Rightarrow> selected_transport \<Rightarrow> (connection_id \<times> 64 word) list \<Rightarrow> (string \<times> 64 word list) list \<Rightarrow> brochure_answer" where
  "server_answer ctx b t regs ids =
     \<lparr>ba_transport = st_name t, ba_address = st_address t, ba_transportRegistrationIds = regs,
      ba_transportDomainDescriptor = st_domainDescriptor t, ba_channelRegistrationIds = ids,
      ba_channelDeviceDescriptors = descriptorsMap (selectChannels (ctx_channels ctx) (channelDeviceDescriptors b)),
      ba_channelForDevicePair = channelForDevicePair (selectChannels (ctx_channels ctx) (channelDeviceDescriptors b))\<rparr>"

lemma brochure_eq:
  assumes ctx: "context_ok ctx" and st: "p_state (pcore p) = SERVER_WAITING_FOR_BROCHURE"
    and e: "p_registrationIds (pcore p) = []" "p_channelRegistrationIds (pcore p) = []"
      "p_channelReceivedConnections (pcore p) = []" "p_channels (pcore p) = []"
    and Inr: "selectTransport (ctx_transports ctx) (transportDomainDescriptors b) addrs = Inr t"
  obtains c6 regs ids where
    "onReadWhileServerWaitingForBrochure ctx addrs counter b p = Inr (p\<lparr>pcore := c6\<rparr>)"
    "pendingRegistrations c6" "waiting_ok ctx c6" "p_state c6 = SERVER_WAITING_FOR_CONNECTIONS" "ops_frame c6 = ops_frame (pcore p)"
    "issued_h c6 = issued_h (pcore p) + request_tokens c6"
    "WriteBrochureAnswer (p_descriptorConnection (pcore p)) (server_answer ctx b t regs ids) \<in> set (p_log c6)"
    "p_channelForDevicePair c6 = channelForDevicePair (selectChannels (ctx_channels ctx) (channelDeviceDescriptors b))"
    "map_of regs DESCRIPTOR_REPLY \<noteq> None" "st_name t \<noteq> p_transport (pcore p) \<Longrightarrow> map_of regs DESCRIPTOR \<noteq> None"
    "\<And>name cc. name \<in> fst ` set (descriptorsMap (selectChannels (ctx_channels ctx) (channelDeviceDescriptors b))) \<Longrightarrow>
       getChannel ctx name = Inr cc \<Longrightarrow> map_option length (map_of ids name) = Some (cc_numConnectionsNeeded cc)"
proof -
  let ?c = "pcore p"
  define changed where "changed = (st_name t \<noteq> p_transport ?c)"
  define regs where "regs = (if changed then [(DESCRIPTOR, counter), (DESCRIPTOR_REPLY, counter + 1)] else [(DESCRIPTOR_REPLY, counter)])"
  define es1 where "es1 = map (\<lambda>(connId, token). RegisterConnectionRequest token (ForConnection connId)) regs"
  define sel where "sel = selectChannels (ctx_channels ctx) (channelDeviceDescriptors b)"
  define c3 where "c3 = (plog es1 (?c\<lparr>p_transport := st_name t, p_registrationIds := regs\<rparr>))\<lparr>p_channelForDevicePair := channelForDevicePair sel\<rparr>"
  define counter2 where "counter2 = counter + (if changed then 2 else 1)"
  have names: "fst ` set (descriptorsMap sel) \<subseteq> cc_name ` set (ctx_channels ctx)"
    "snd ` set (channelForDevicePair sel) \<subseteq> fst ` set (descriptorsMap sel)" "distinct (map fst (descriptorsMap sel))"
    using selectChannels_descriptors [of "ctx_channels ctx" "channelDeviceDescriptors b"] selected_names ctx
    by (auto simp: sel_def context_ok_def)
  obtain ids es where reg: "register_channels ctx (descriptorsMap sel) counter2 c3 = Inr (ids, plog es (c3\<lparr>
      p_channelRegistrationIds := ids, p_channelReceivedConnections := map (new_received ctx \<circ> fst) (descriptorsMap sel)\<rparr>))"
    and lens: "map (\<lambda>(name, tokens). (name, length tokens)) ids =
      map ((\<lambda>(name, conns). (name, length conns)) \<circ> new_received ctx \<circ> fst) (descriptorsMap sel)"
    and es: "\<forall>e \<in> set es. \<exists>token name i. e = RegisterConnectionRequest token (ForChannel name i)"
    and toks: "mset (concat (map shake_effect_token es)) = sum_list (map (channel_tokens \<circ> new_received ctx \<circ> fst) (descriptorsMap sel))"
    using register_channels_eq [OF names(1,3), of c3 counter2] e by (auto simp: c3_def)
  define answer where "answer = server_answer ctx b t regs ids"
  define c5 where "c5 = plog [WriteBrochureAnswer (p_descriptorConnection ?c) answer] (plog es (c3\<lparr>
      p_channelRegistrationIds := ids, p_channelReceivedConnections := map (new_received ctx \<circ> fst) (descriptorsMap sel)\<rparr>))"
  let ?c6 = "c5\<lparr>p_state := SERVER_WAITING_FOR_CONNECTIONS\<rparr>"
  have eq: "onReadWhileServerWaitingForBrochure ctx addrs counter b p =
      (if \<not> pendingRegistrations ?c6 then establish (p\<lparr>pcore := ?c6\<rparr>) else Inr (p\<lparr>pcore := ?c6\<rparr>))"
  proof -
    define c1 where "c1 = (if changed then plog [RegisterConnectionRequest counter (ForConnection DESCRIPTOR)]
        (?c\<lparr>p_transport := st_name t, p_registrationIds := [(DESCRIPTOR, counter)]\<rparr>) else ?c)"
    define ids1 where "ids1 = (if changed then [(DESCRIPTOR, counter)] else [])"
    define counter1 where "counter1 = counter + of_nat (length ids1)"
    define c2 where "c2 = plog [RegisterConnectionRequest counter1 (ForConnection DESCRIPTOR_REPLY)] (c1\<lparr>p_registrationIds := regs\<rparr>)"
    have r1: "(if st_name t \<noteq> p_transport ?c
          then bindR (registerTransport DESCRIPTOR counter (?c\<lparr>p_transport := st_name t\<rparr>)) (\<lambda>(token, c). Inr ([(DESCRIPTOR, token)], c))
          else Inr ([], ?c)) = Inr (ids1, c1)"
      using e(1) by (simp add: changed_def registerTransport_def c1_def ids1_def)
    have r2: "registerTransport DESCRIPTOR_REPLY counter1 c1 = Inr (counter1, c2)"
      using e(1) by (simp add: registerTransport_def c1_def c2_def regs_def counter1_def ids1_def)
    have regs: "ids1 @ [(DESCRIPTOR_REPLY, counter1)] = regs" "counter1 + 1 = counter2"
      by (simp_all add: ids1_def counter1_def regs_def counter2_def)
    have c3: "c2\<lparr>p_channelForDevicePair := channelForDevicePair sel\<rparr> = c3"
      by (cases ?c) (simp add: c3_def c2_def c1_def regs_def es1_def counter1_def ids1_def plog_def changed_def)
    have dc: "p_descriptorConnection c3 = p_descriptorConnection ?c" by (simp add: c3_def)
    have "onReadWhileServerWaitingForBrochure ctx addrs counter b p =
      (if \<not> pendingRegistrations c5 then establish (p\<lparr>pcore := c5\<rparr>) else Inr (p\<lparr>pcore := ?c6\<rparr>))"
      unfolding onReadWhileServerWaitingForBrochure_def Inr st r1 bindR_simps prod.case
        Let_def counter1_def [symmetric] r2 sel_def [symmetric] c3 regs reg c5_def answer_def server_answer_def dcheck_simps
      by (simp add: dc)
    then show ?thesis by (simp add: establish_def pcall_def pendingRegistrations_def)
  qed
  let ?rc = "map (new_received ctx \<circ> fst) (descriptorsMap sel)"
  have fields: "p_registrationIds ?c6 = regs" "p_channelRegistrationIds ?c6 = ids" "p_channelReceivedConnections ?c6 = ?rc"
    "p_channels ?c6 = []" "p_channelForDevicePair ?c6 = channelForDevicePair sel"
    using e(4) by (simp_all add: c5_def c3_def)
  have rc: "map fst ?rc = map fst (descriptorsMap sel)" by (simp add: new_received_def)
  then have rcs: "fst ` set ?rc = fst ` set (descriptorsMap sel)" by (metis image_set)
  have lens': "map (\<lambda>(name, tokens). (name, length tokens)) ids = map (\<lambda>(name, conns). (name, length conns)) ?rc"
    unfolding lens by (simp add: comp_assoc)
  have wt: "waiting_ok ctx ?c6"
    unfolding waiting_ok_def fields
  proof (intro conjI allI impI)
    show "map fst ids = map fst ?rc"
      using arg_cong [OF lens', of "map fst"] by (simp add: comp_def split_def)
    fix name tokens conns
    assume "map_of ids name = Some tokens" "map_of ?rc name = Some conns"
    then show "length tokens = length conns"
      using arg_cong [OF lens', of "\<lambda>al. map_of al name"] by (simp only: map_of_map comp_apply option.map option.inject)
  next
    show "distinct (map fst ?rc)" unfolding rc by (rule names)
    show "snd ` set (channelForDevicePair sel) \<subseteq> set [] \<union> fst ` set ?rc" unfolding rcs using names by simp
    show "fst ` set ?rc \<subseteq> cc_name ` set (ctx_channels ctx)" unfolding rcs by (rule names)
  qed (simp_all add: regs_def)
  have "mset (concat (map shake_effect_token es1)) = mset (map (\<lambda>(connId, token). RequestTok (ForConnection connId)) regs)"
    by (simp add: es1_def regs_def)
  then have h6: "issued_h ?c6 = issued_h ?c + request_tokens ?c6"
    unfolding request_tokens_def fields using toks by (simp add: c5_def c3_def comp_assoc)
  have pend: "pendingRegistrations ?c6" by (simp add: pendingRegistrations_def fields regs_def)
  have known: "map_option length (map_of ids name) = Some (cc_numConnectionsNeeded cc)"
    if "name \<in> fst ` set (descriptorsMap sel)" "getChannel ctx name = Inr cc" for name cc
  proof -
    have m: "(name, replicate (cc_numConnectionsNeeded cc) None) \<in> set ?rc"
      using that by (force simp: new_received_def)
    have "map_of ?rc name = Some (replicate (cc_numConnectionsNeeded cc) None)"
      by (rule map_of_is_SomeI [OF _ m]) (simp only: rc names)
    then show ?thesis
      using arg_cong [OF lens', of "\<lambda>al. map_of al name"] by (simp only: map_of_map comp_apply option.map length_replicate)
  qed
  show ?thesis
  proof (rule that)
    show "onReadWhileServerWaitingForBrochure ctx addrs counter b p = Inr (p\<lparr>pcore := ?c6\<rparr>)" using eq pend by simp
    show "pendingRegistrations ?c6" "waiting_ok ctx ?c6" by (fact pend, fact wt)
    show "issued_h ?c6 = issued_h ?c + request_tokens ?c6" by (fact h6)
    show "WriteBrochureAnswer (p_descriptorConnection ?c) (server_answer ctx b t regs ids) \<in> set (p_log ?c6)"
      by (simp add: c5_def answer_def plog_def)
    show "ops_frame ?c6 = ops_frame ?c" using silent_requests [OF es] by (simp add: c5_def c3_def es1_def regs_def)
    show "map_of regs DESCRIPTOR_REPLY \<noteq> None" "st_name t \<noteq> p_transport ?c \<Longrightarrow> map_of regs DESCRIPTOR \<noteq> None"
      by (simp_all add: regs_def changed_def)
    show "map_option length (map_of ids name) = Some (cc_numConnectionsNeeded cc)"
      if "name \<in> fst ` set (descriptorsMap (selectChannels (ctx_channels ctx) (channelDeviceDescriptors b)))"
        "getChannel ctx name = Inr cc" for name cc
      using known that by (simp only: sel_def)
  qed (simp_all add: fields(5) [unfolded sel_def])
qed

lemma brochure_inv:
  assumes inv: "pipe_inv ctx Kr Kw Dr Dw Dh p" and ne: "\<not> is_error (p_error (pcore p))" and ctx: "context_ok ctx"
    and tok: "{#BrochureTok#} \<subseteq># issued_h (pcore p) - Dh"
  shows "ok_result user_fault (pipe_inv ctx Kr Kw Dr Dw (Dh + {#BrochureTok#}))
    (onReadWhileServerWaitingForBrochure ctx addrs counter b p)"
proof -
  let ?c = "pcore p"
  have nt: "BrochureTok \<notin># request_tokens ?c" by (auto simp: request_tokens_def in_sum_list)
  have st: "p_state ?c = SERVER_WAITING_FOR_BROCHURE" and h: "issued_h ?c = Dh + {#BrochureTok#}"
    and e: "p_registrationIds ?c = []" "p_channelRegistrationIds ?c = []" "p_channelReceivedConnections ?c = []" "p_channels ?c = []"
    using inv ne tok nt by (auto simp: pipe_inv_def shake_ok_def split: pipe_state.splits)
  show ?thesis
  proof (cases "selectTransport (ctx_transports ctx) (transportDomainDescriptors b) addrs")
    case (Inl f)
    then show ?thesis using st selectTransport_fault [OF Inl] by (simp add: onReadWhileServerWaitingForBrochure_def user_fault_def)
  next
    case (Inr t)
    obtain c6 where eq: "onReadWhileServerWaitingForBrochure ctx addrs counter b p = Inr (p\<lparr>pcore := c6\<rparr>)"
      and c6: "pendingRegistrations c6" "waiting_ok ctx c6" "p_state c6 = SERVER_WAITING_FOR_CONNECTIONS" "ops_frame c6 = ops_frame ?c"
        "issued_h c6 = issued_h ?c + request_tokens c6"
      by (rule brochure_eq [OF ctx st e Inr])
    have "ok_result user_fault (pipe_inv ctx Kr Kw Dr Dw (Dh + {#BrochureTok#}))
        (if \<not> pendingRegistrations c6 then establish (p\<lparr>pcore := c6\<rparr>) else Inr (p\<lparr>pcore := c6\<rparr>))"
      by (rule request_step_inv [OF inv _ c6(4,3,2)]) (use st c6(5) h in simp_all)
    then show ?thesis unfolding eq using c6(1) by simp
  qed
qed

section \<open>The answer, on the connecting side\<close>

lemma open_connection_eq:
  "open_connection transport address cid c = (OpenedConn (p_opened c),
     plog [OpenConnection (OpenedConn (p_opened c)) transport address, SetConnectionId (OpenedConn (p_opened c)) cid]
       (c\<lparr>p_opened := p_opened c + 1\<rparr>))"
  by (simp add: open_connection_def Let_def)

text \<open>What opening connections and creating channels leaves as it is.\<close>

definition connect_frame where
  "connect_frame c = (ops_frame c, issued_h c, p_state c, p_id c, p_transport c, p_descriptorConnection c,
     p_descriptorReplyConnection c, p_channelForDevicePair c)"

lemma open_channel_connections_frame:
  "connect_frame (snd (open_channel_connections transport address name i tokens c)) = connect_frame c \<and>
   p_channels (snd (open_channel_connections transport address name i tokens c)) = p_channels c"
proof (induction tokens arbitrary: i c)
  case (Cons token tokens)
  have "connect_frame (initConnection (OpenedConn (p_opened c)) token (snd (open_connection transport address cid c))) = connect_frame c \<and>
      p_channels (initConnection (OpenedConn (p_opened c)) token (snd (open_connection transport address cid c))) = p_channels c" for cid
    by (simp add: open_connection_eq initConnection_def connect_frame_def)
  then show ?case
    using Cons.IH by (simp add: open_connection_eq Let_def split: prod.splits) (metis sndI)
qed (simp add: connect_frame_def)

lemma create_channels_ok:
  assumes "fst ` set ds \<subseteq> cc_name ` set (ctx_channels ctx)"
    and "\<forall>name \<in> fst ` set ds. \<forall>cc. getChannel ctx name = Inr cc \<longrightarrow>
      (\<exists>ids. map_of (ba_channelRegistrationIds a) name = Some ids \<and> length ids = cc_numConnectionsNeeded cc)"
  shows "\<exists>c'. create_channels ctx a ds c = Inr c' \<and> connect_frame c' = connect_frame c \<and>
    set (p_channels c') = set (p_channels c) \<union> fst ` set ds"
  using assms
proof (induction ds arbitrary: c)
  case (Cons d ds)
  obtain name descs where d: "d = (name, descs)" by (cases d)
  obtain cc where cc: "getChannel ctx name = Inr cc" using getChannel_known [of name ctx] Cons.prems(1) d by auto
  then obtain ids where ids: "map_of (ba_channelRegistrationIds a) name = Some ids" "length ids = cc_numConnectionsNeeded cc"
    using Cons.prems(2) d by auto
  obtain conns c1 where oc: "open_channel_connections (ba_transport a) (ba_address a) name 0 ids c = (conns, c1)" by fastforce
  have f1: "connect_frame c1 = connect_frame c" "p_channels c1 = p_channels c"
    using open_channel_connections_frame [of "ba_transport a" "ba_address a" name 0 ids c] oc by simp_all
  let ?c2 = "plog [CreateChannel name conns ConnectEndpoint, SetChannelId name (p_id c @ ''.ch_'' @ name)] c1"
  let ?c3 = "?c2\<lparr>p_channels := emplace name (p_channels ?c2)\<rparr>"
  have f3: "connect_frame ?c3 = connect_frame c" using f1(1) by (simp add: connect_frame_def)
  obtain c' where "create_channels ctx a ds ?c3 = Inr c'" "connect_frame c' = connect_frame ?c3"
    "set (p_channels c') = set (p_channels ?c3) \<union> fst ` set ds"
    using Cons.IH [of ?c3] Cons.prems by auto
  then show ?case using d cc ids oc f1(2) f3 by (auto simp: emplace_def Let_def)
qed simp

lemma check_pairs_fault: "check_pairs ps answer = Inl f \<Longrightarrow> f = AssertFailed"
  by (induction ps answer rule: check_pairs.induct) (auto simp: throw_assert_if_def split: option.splits if_splits)

lemma select_channels_known:
  "(name, descs) \<in> set (descriptorsMap (select_channels_loop cs remote r)) \<Longrightarrow>
     (name, descs) \<in> set (descriptorsMap r) \<or> map_of remote name \<noteq> None"
proof (induction cs arbitrary: r)
  case (Cons c cs)
  show ?case
  proof (cases "map_of remote (cc_name c)")
    case None
    then show ?thesis using Cons by auto
  next
    case (Some rs)
    obtain sel pairs where "select_locals c (cc_deviceDescriptors c) rs (False, channelForDevicePair r) = (sel, pairs)" by fastforce
    then show ?thesis using Cons.IH Cons.prems Some by (cases sel) fastforce+
  qed
qed simp

lemma answer_channels:
  assumes use: "usable_answer ctx a c" and sel: "sel = selectChannels (ctx_channels ctx) (ba_channelDeviceDescriptors a)"
  shows "\<forall>name \<in> fst ` set (descriptorsMap sel). \<forall>cc. getChannel ctx name = Inr cc \<longrightarrow>
      (\<exists>ids. map_of (ba_channelRegistrationIds a) name = Some ids \<and> length ids = cc_numConnectionsNeeded cc)"
proof (clarify)
  fix name descs cc
  assume m: "(name, descs) \<in> set (descriptorsMap sel)" and cc: "getChannel ctx (fst (name, descs)) = Inr cc"
  have "map_of (ba_channelDeviceDescriptors a) name \<noteq> None"
    using select_channels_known m by (fastforce simp: sel selectChannels_def)
  then obtain ds where ds: "map_of (ba_channelDeviceDescriptors a) name = Some ds" by blast
  have "cc \<in> set (ctx_channels ctx)" "cc_name cc = name"
    using cc by (auto simp: getChannel_def find_Some_iff split: option.splits)
  with use ds have "map_option length (map_of (ba_channelRegistrationIds a) name) = Some (cc_numConnectionsNeeded cc)"
    unfolding usable_answer_def by force
  then show "\<exists>ids. map_of (ba_channelRegistrationIds a) (fst (name, descs)) = Some ids \<and> length ids = cc_numConnectionsNeeded cc"
    by auto
qed

lemma answer_eq:
  assumes st: "p_state (pcore p) = CLIENT_WAITING_FOR_BROCHURE_ANSWER" and use: "usable_answer ctx a (pcore p)"
    and sel_def: "sel = selectChannels (ctx_channels ctx) (ba_channelDeviceDescriptors a)"
  obtains c4 where
    "onReadWhileClientWaitingForBrochureAnswer ctx a p =
      bindR (check_channel_maps (channelForDevicePair sel) (ba_channelForDevicePair a)) (\<lambda>_. establish (p\<lparr>pcore := c4\<rparr>))"
    "ops_frame c4 = ops_frame (pcore p)" "issued_h c4 = issued_h (pcore p)" "p_descriptorReplyConnection c4 \<noteq> None"
    "p_channelForDevicePair c4 = channelForDevicePair sel" "snd ` set (p_channelForDevicePair c4) \<subseteq> set (p_channels c4)"
proof -
  let ?c = "pcore p"
  obtain t where t: "getTransport ctx (ba_transport a) = Inr t" "tc_canCommunicateWithRemote t (ba_transportDomainDescriptor a)"
  proof -
    have "List.find (\<lambda>t. tc_name t = ba_transport a) (ctx_transports ctx) \<noteq> None"
      using use by (auto simp: usable_answer_def find_None_iff)
    then obtain t where "List.find (\<lambda>t. tc_name t = ba_transport a) (ctx_transports ctx) = Some t" by blast
    moreover from this have "t \<in> set (ctx_transports ctx)" "tc_name t = ba_transport a" by (auto simp: find_Some_iff)
    ultimately show ?thesis using that use by (auto simp: usable_answer_def getTransport_def)
  qed
  have names: "fst ` set (descriptorsMap sel) \<subseteq> cc_name ` set (ctx_channels ctx)"
    "snd ` set (channelForDevicePair sel) \<subseteq> fst ` set (descriptorsMap sel)"
    using selectChannels_descriptors [of "ctx_channels ctx" "ba_channelDeviceDescriptors a"] by (auto simp: sel_def)
  note ids = answer_channels [OF use sel_def]
  obtain c1 where c1: "(if ba_transport a \<noteq> p_transport ?c
      then let (conn, c) = open_connection (ba_transport a) (ba_address a) (p_id ?c @ ''.d.tr_'' @ ba_transport a) ?c
           in case map_of (ba_transportRegistrationIds a) DESCRIPTOR of None \<Rightarrow> Inl DCheckFailed
              | Some token \<Rightarrow> Inr ((initConnection conn token c)\<lparr>p_transport := ba_transport a, p_descriptorConnection := conn\<rparr>)
      else Inr ?c) = Inr c1"
    and f1: "ops_frame c1 = ops_frame ?c" "issued_h c1 = issued_h ?c"
  proof (cases "ba_transport a = p_transport ?c")
    case True
    then show ?thesis using that by simp
  next
    case False
    then obtain token where "map_of (ba_transportRegistrationIds a) DESCRIPTOR = Some token"
      using use by (auto simp: usable_answer_def)
    then show ?thesis using that False by (simp add: open_connection_eq initConnection_def)
  qed
  obtain token where token: "map_of (ba_transportRegistrationIds a) DESCRIPTOR_REPLY = Some token"
    using use by (auto simp: usable_answer_def)
  define conn where "conn = OpenedConn (p_opened c1)"
  define c3 where "c3 = (initConnection conn token (snd (open_connection (ba_transport a) (ba_address a)
      (p_id c1 @ ''.r.tr_'' @ ba_transport a) c1)))\<lparr>p_descriptorReplyConnection := Some conn, p_channelForDevicePair := channelForDevicePair sel\<rparr>"
  have f3: "ops_frame c3 = ops_frame ?c" "issued_h c3 = issued_h ?c" "p_descriptorReplyConnection c3 \<noteq> None"
    "p_channelForDevicePair c3 = channelForDevicePair sel"
    using f1 by (simp_all add: c3_def open_connection_eq initConnection_def)
  obtain c4 where c4: "create_channels ctx a (descriptorsMap sel) c3 = Inr c4" "connect_frame c4 = connect_frame c3"
    "set (p_channels c4) = set (p_channels c3) \<union> fst ` set (descriptorsMap sel)"
    using create_channels_ok [OF names(1) ids] by blast
  have eq: "onReadWhileClientWaitingForBrochureAnswer ctx a p =
      bindR (check_channel_maps (channelForDevicePair sel) (ba_channelForDevicePair a)) (\<lambda>_. establish (p\<lparr>pcore := c4\<rparr>))"
    unfolding onReadWhileClientWaitingForBrochureAnswer_def st dcheck_simps t(1) bindR_simps c1
    using t(2) token c4(1) by (simp add: open_connection_eq sel_def [symmetric] c3_def conn_def Let_def)
  show ?thesis
    by (rule that [OF eq]) (use c4 f3 names in \<open>auto simp: connect_frame_def\<close>)
qed

lemma answer_inv:
  assumes inv: "pipe_inv ctx Kr Kw Dr Dw Dh p" and ne: "\<not> is_error (p_error (pcore p))"
    and tok: "{#AnswerTok#} \<subseteq># issued_h (pcore p) - Dh" and use: "usable_answer ctx a (pcore p)"
  shows "ok_result user_fault (pipe_inv ctx Kr Kw Dr Dw (Dh + {#AnswerTok#}))
    (onReadWhileClientWaitingForBrochureAnswer ctx a p)"
proof -
  let ?c = "pcore p" and ?sel = "selectChannels (ctx_channels ctx) (ba_channelDeviceDescriptors a)"
  have nt: "AnswerTok \<notin># request_tokens ?c" by (auto simp: request_tokens_def in_sum_list)
  have st: "p_state ?c = CLIENT_WAITING_FOR_BROCHURE_ANSWER" and h: "issued_h ?c = Dh + {#AnswerTok#}"
    using inv ne tok nt by (auto simp: pipe_inv_def shake_ok_def split: pipe_state.splits)
  obtain c4 where eq: "onReadWhileClientWaitingForBrochureAnswer ctx a p =
      bindR (check_channel_maps (channelForDevicePair ?sel) (ba_channelForDevicePair a)) (\<lambda>_. establish (p\<lparr>pcore := c4\<rparr>))"
    and c4: "ops_frame c4 = ops_frame ?c" "issued_h c4 = issued_h ?c" "p_descriptorReplyConnection c4 \<noteq> None"
      "snd ` set (p_channelForDevicePair c4) \<subseteq> set (p_channels c4)"
    by (rule answer_eq [OF st use refl])
  have "ok_result user_fault (pipe_inv ctx Kr Kw Dr Dw (Dh + {#AnswerTok#})) (establish (p\<lparr>pcore := c4\<rparr>))"
    by (rule establish_inv [OF inv c4(1,3,4)]) (use c4(2) h in simp)
  moreover have "f = AssertFailed" if "check_channel_maps (channelForDevicePair ?sel) (ba_channelForDevicePair a) = Inl f" for f
    using that check_pairs_fault by (auto simp: check_channel_maps_def throw_assert_if_def split: if_splits)
  ultimately show ?thesis
    unfolding eq
    by (cases "check_channel_maps (channelForDevicePair ?sel) (ba_channelForDevicePair a)") (simp_all add: user_fault_def)
qed

end
