(* ===== verification/Pipe_Properties.thy ===== *)
theory Pipe_Properties
  imports Pipe_Handshake
begin

text \<open>
  What a pipe promises to its user, for every sequence of events: no fault other than the
  exceptions that answer a misuse, and every callback exactly once.
\<close>

section \<open>Every event keeps the invariant\<close>

lemma pipe_new_inv:
  assumes "c = (pcore p)\<lparr>p_log := es, p_state := st, p_error := e, p_descriptorConnection := conn, p_opened := n\<rparr>"
    and "p = pipe_new st0 pid remoteName transport conn0" and "st \<noteq> ESTABLISHED"
    and "concat (map read_effect_callback es) = []" "concat (map write_effect_callback es) = []"
      "concat (map read_effect_token es) = []" "concat (map write_effect_token es) = []"
    and "is_error e \<or> st = SERVER_WAITING_FOR_BROCHURE \<and> concat (map shake_effect_token es) = [BrochureTok] \<or>
      st = CLIENT_WAITING_FOR_BROCHURE_ANSWER \<and> concat (map shake_effect_token es) = [AnswerTok]"
  shows "pipe_inv ctx {#} {#} {#} {#} {#} (p\<lparr>pcore := c\<rparr>)"
  using assms
  by (auto simp: pipe_new_def pipe_inv_def read_J_def write_J_def numbered_def core_ok_def shake_ok_def paid_r_def paid_w_def
      issued_r_def issued_w_def issued_h_def)

lemma client_init_inv:
  assumes "PipeImpl_client ctx pid remoteName url = Inr p"
  shows "pipe_inv ctx {#} {#} {#} {#} {#} (pipe_initFromLoop closed ctx p)"
proof -
  obtain transport address where p: "p = (pipe_new CLIENT_ABOUT_TO_SEND_HELLO_AND_BROCHURE pid remoteName transport (OpenedConn 0))
      \<lparr>pcore := (plog [OpenConnection (OpenedConn 0) transport address, SetConnectionId (OpenedConn 0) (pid @ ''.d.tr_'' @ transport)]
        ((pcore (pipe_new CLIENT_ABOUT_TO_SEND_HELLO_AND_BROCHURE pid remoteName transport (OpenedConn 0)))\<lparr>p_opened := 1\<rparr>))
        \<lparr>p_descriptorConnection := OpenedConn 0\<rparr>\<rparr>"
    using assms by (auto simp: PipeImpl_client_def bindR_eq_Inr open_connection_eq Let_def pipe_new_def)
  show ?thesis
    by (simp add: p pipe_initFromLoop_def pipe_inv_def read_J_def write_J_def numbered_def core_ok_def shake_ok_def paid_r_def paid_w_def
      issued_r_def issued_w_def issued_h_def pipe_new_def pcall_def plog_def Let_def)
qed

lemma server_init_inv: "pipe_inv ctx {#} {#} {#} {#} {#} (pipe_initFromLoop closed ctx (PipeImpl_server pid remoteName transport conn))"
  by (simp add: PipeImpl_server_def pipe_initFromLoop_def pipe_inv_def read_J_def write_J_def numbered_def core_ok_def shake_ok_def
      paid_r_def paid_w_def issued_r_def issued_w_def issued_h_def pipe_new_def pcall_def plog_def Let_def)

lemma entry_inv:
  assumes inv: "pipe_inv ctx Kr Kw Dr Dw Dh p"
    and ok: "\<And>p'. pipe_inv ctx Kr Kw Dr Dw Dh p' \<Longrightarrow> issued_r (pcore p') = issued_r (pcore p) \<Longrightarrow>
      issued_w (pcore p') = issued_w (pcore p) \<Longrightarrow> (if is_error e then is_error (p_error (pcore p')) else p' = p) \<Longrightarrow>
      ok_result user_fault Q (h p')"
  shows "ok_result user_fault Q (entryPointFromLoop pipe_setError e h p)"
  using pipe_setError_inv [OF inv, of e] ok by (auto simp: entryPointFromLoop_def)

lemma pipe_inv_shake:
  "is_error (p_error (pcore p)) \<Longrightarrow> pipe_inv ctx Kr Kw Dr Dw Dh p \<Longrightarrow> pipe_inv ctx Kr Kw Dr Dw Dh' p"
  by (simp add: pipe_inv_def shake_ok_def)

lemma shake_entry_inv:
  assumes inv: "pipe_inv ctx Kr Kw Dr Dw Dh p"
    and ok: "\<not> is_error (p_error (pcore p)) \<Longrightarrow> \<not> is_error e \<Longrightarrow> ok_result user_fault (pipe_inv ctx Kr Kw Dr Dw Dh') (fn p)"
  shows "ok_result user_fault (pipe_inv ctx Kr Kw Dr Dw Dh') (entryPointFromLoop pipe_setError e (unless_error fn) p)"
proof (rule entry_inv [OF inv])
  fix p'
  assume "pipe_inv ctx Kr Kw Dr Dw Dh p'" "if is_error e then is_error (p_error (pcore p')) else p' = p"
  then show "ok_result user_fault (pipe_inv ctx Kr Kw Dr Dw Dh') (unless_error fn p')"
    using ok by (auto simp: unless_error_def intro: pipe_inv_shake split: if_splits)
qed

lemma pipe_step_inv:
  assumes ctx: "context_ok ctx"
    and inv: "pipe_inv ctx Kr Kw (over returns_r evs) (over returns_w evs) (over returns_h evs) p"
    and en: "pipe_enabled ctx evs ev p"
  shows "ok_result user_fault (pipe_inv ctx (Kr + mset (requests_r ev)) (Kw + mset (requests_w ev))
    (over returns_r (evs @ [ev])) (over returns_w (evs @ [ev])) (over returns_h (evs @ [ev]))) (pipe_step ctx addrs ev p)"
proof -
  note en = en [unfolded pipe_enabled_def]
  show ?thesis
  proof (cases ev)
    case (PReadDescriptor cb)
    then show ?thesis using readDescriptor_inv [OF inv, of cb] by simp
  next
    case (PRead alloc cb)
    then have "length (a_payloads alloc) < 2 ^ 64" "length (a_tensors alloc) < 2 ^ 64" using en by simp_all
    then show ?thesis using PRead read_inv [OF inv, of alloc cb] by simp
  next
    case (PWrite msg cb)
    then have "length (m_payloads msg) < 2 ^ 64" "length (m_tensors msg) < 2 ^ 64" using en by simp_all
    then show ?thesis using PWrite write_inv [OF inv, of msg cb] by simp
  next
    case PClose
    then show ?thesis using pipe_setError_inv [OF inv, of PipeClosedError] by (auto simp: pipe_closeFromLoop_def)
  next
    case (PDescriptorRead sn d e)
    show ?thesis
      unfolding PDescriptorRead pipe_step.simps
      by (rule entry_inv [OF inv]) (use descriptor_read_inv en PDescriptorRead in simp)
  next
    case (PPayloadRead sn e)
    show ?thesis
      unfolding PPayloadRead pipe_step.simps
      by (rule entry_inv [OF inv]) (use payload_read_inv en PPayloadRead in simp)
  next
    case (PTensorReceived sn e)
    show ?thesis
      unfolding PTensorReceived pipe_step.simps
      by (rule entry_inv [OF inv]) (use tensor_received_inv en PTensorReceived in simp)
  next
    case (PPayloadWritten sn e)
    show ?thesis
      unfolding PPayloadWritten pipe_step.simps
      by (rule entry_inv [OF inv]) (use payload_written_inv en PPayloadWritten in simp)
  next
    case (PTensorSent sn e)
    show ?thesis
      unfolding PTensorSent pipe_step.simps
      by (rule entry_inv [OF inv]) (use tensor_sent_inv en PTensorSent in simp)
  next
    case (PReplyRead sn reply e)
    show ?thesis
      unfolding PReplyRead pipe_step.simps
    proof (rule entry_inv [OF inv], goal_cases)
      case (1 p')
      then have "ok_result user_fault (pipe_inv ctx Kr Kw (over returns_r evs) (over returns_w evs + {#ReplyTok sn#}) (over returns_h evs))
          (onDescriptorReplyRead sn reply p')"
        using en PReplyRead by (intro reply_read_inv) (auto split: if_splits)
      then show ?case by simp
    qed
  next
    case (PWriteDone e)
    show ?thesis unfolding PWriteDone pipe_step.simps by (rule entry_inv [OF inv]) simp
  next
    case (PBrochureRead counter b e)
    have "ok_result user_fault (pipe_inv ctx Kr Kw (over returns_r evs) (over returns_w evs) (over returns_h evs + {#BrochureTok#}))
        (entryPointFromLoop pipe_setError e (unless_error (onReadWhileServerWaitingForBrochure ctx addrs counter b)) p)"
      by (rule shake_entry_inv [OF inv], rule brochure_inv [OF inv _ ctx]) (use en PBrochureRead in simp_all)
    then show ?thesis unfolding PBrochureRead by simp
  next
    case (PAnswerRead a e)
    have "ok_result user_fault (pipe_inv ctx Kr Kw (over returns_r evs) (over returns_w evs) (over returns_h evs + {#AnswerTok#}))
        (entryPointFromLoop pipe_setError e (unless_error (onReadWhileClientWaitingForBrochureAnswer ctx a)) p)"
      by (rule shake_entry_inv [OF inv], rule answer_inv [OF inv]) (use en PAnswerRead in simp_all)
    then show ?thesis unfolding PAnswerRead by simp
  next
    case (PConnectionRequestDone connId transport conn e)
    have "ok_result user_fault (pipe_inv ctx Kr Kw (over returns_r evs) (over returns_w evs) (over returns_h evs + {#RequestTok (ForConnection connId)#}))
        (entryPointFromLoop pipe_setError e (unless_error (onAcceptWhileServerWaitingForConnection connId transport conn)) p)"
      by (rule shake_entry_inv [OF inv], rule accept_connection_inv [OF inv]) (use en PConnectionRequestDone in simp_all)
    then show ?thesis unfolding PConnectionRequestDone by simp
  next
    case (PChannelRequestDone name connId transport conn e)
    have "ok_result user_fault (pipe_inv ctx Kr Kw (over returns_r evs) (over returns_w evs) (over returns_h evs + {#RequestTok (ForChannel name connId)#}))
        (entryPointFromLoop pipe_setError e (unless_error (onAcceptWhileServerWaitingForChannel ctx name connId transport conn)) p)"
      by (rule shake_entry_inv [OF inv], rule accept_channel_inv [OF inv]) (use en PChannelRequestDone in simp_all)
    then show ?thesis unfolding PChannelRequestDone by simp
  qed
qed

theorem pipe_trace_inv:
  assumes "context_ok ctx" and "pipe_trace ctx addrs evs p"
  shows "pipe_inv ctx (over requests_r evs) (over requests_w evs) (over returns_r evs) (over returns_w evs) (over returns_h evs) p"
  using assms(2)
proof (induction rule: pipe_trace.induct)
  case (pipe_connected pid remoteName url p closed)
  then show ?case using client_init_inv by simp
next
  case (pipe_accepted closed pid remoteName transport conn)
  show ?case using server_init_inv by simp
next
  case (pipe_stepped evs p ev p')
  then show ?case using pipe_step_inv [OF assms(1) pipe_stepped.IH pipe_stepped.hyps(2), of addrs] by simp
qed

section \<open>Nothing outstanding\<close>

lemma sum_list_empty: "sum_list (map f xs) = ({#} :: 'a multiset) \<longleftrightarrow> (\<forall>x \<in> set xs. f x = {#})"
  by (induction xs) auto

lemma no_pending:
  assumes "pipe_inv ctx Kr Kw Dr Dw Dh p"
  shows "issued_r (pcore p) - Dr = {#} \<Longrightarrow> op \<in> set (readOps p) \<Longrightarrow> pend_r op = {#}"
    and "issued_w (pcore p) - Dw = {#} \<Longrightarrow> wop \<in> set (writeOps p) \<Longrightarrow> pend_w wop = {#}"
proof -
  have r: "sum_list (map pend_r (readOps p)) = issued_r (pcore p) - Dr"
    using assms read_JD(11) [of Kr Dr "readOps p" "pcore p"] by (auto simp: pipe_inv_def dest: sym)
  have w: "sum_list (map pend_w (writeOps p)) = issued_w (pcore p) - Dw"
    using assms write_JD(7) [of Kw Dw "writeOps p" "pcore p"] by (auto simp: pipe_inv_def dest: sym)
  show "issued_r (pcore p) - Dr = {#} \<Longrightarrow> op \<in> set (readOps p) \<Longrightarrow> pend_r op = {#}" using r by (simp add: sum_list_empty)
  show "issued_w (pcore p) - Dw = {#} \<Longrightarrow> wop \<in> set (writeOps p) \<Longrightarrow> pend_w wop = {#}" using w by (simp add: sum_list_empty)
qed

lemma pend_empty:
  "pend_r op = {#} \<Longrightarrow> numPayloadsBeingRead op = 0 \<and> numTensorsBeingReceived op = 0 \<and>
     (state op = READING_DESCRIPTOR \<longrightarrow> doneReadingDescriptor op)"
  "pend_w wop = {#} \<Longrightarrow> numPayloadsBeingWritten wop = 0 \<and> numTensorsBeingSent wop = 0 \<and>
     (state wop = WRITING_PAYLOADS_AND_READING_TARGET_DEVICES \<longrightarrow> doneReadingDescriptorReply wop)"
  by (auto simp: pend_r_def pend_w_def unat_eq_0 split: if_splits)

lemma writes_drained:
  assumes inv: "pipe_inv ctx Kr Kw Dr Dw Dh p" and none: "issued_w (pcore p) - Dw = {#}"
    and live: "is_error (p_error (pcore p)) \<or> p_state (pcore p) = ESTABLISHED"
  shows "writeOps p = []"
proof (rule wr.drained [where waiting = "\<lambda>op. pend_w op \<noteq> {#}"])
  show "machine_ok Write_FINISHED advanceWriteOperation (writeOps p) (pcore p)" using inv by (simp add: pipe_inv_def)
  show "\<forall>op \<in> set (writeOps p). \<not> pend_w op \<noteq> {#}" using no_pending(2) [OF inv none] by blast
  fix op
  assume op: "op \<in> set (writeOps p)" and st: "stable advanceWriteOperation op Write_FINISHED (pcore p)" and "\<not> pend_w op \<noteq> {#}"
  then have idle: "numPayloadsBeingWritten op = 0" "numTensorsBeingSent op = 0"
    "state op = WRITING_PAYLOADS_AND_READING_TARGET_DEVICES \<longrightarrow> doneReadingDescriptorReply op"
    using pend_empty(2) by auto
  show "state op = Write_FINISHED"
    using st idle live
    by (cases "state op"; cases "is_error (p_error (pcore p))"; cases "w_hasMissingTargetDevices op")
      (auto simp: stable_def advanceWriteOperation_def pipe_state_order)
qed

lemma read_front_error:
  assumes "is_error (p_error c)" and "stable advanceReadOperation op Read_FINISHED c" and "pend_r op = {#}" and "read_ok c op"
    and "state op \<noteq> Read_FINISHED"
  shows "state op \<in> {ASKING_FOR_ALLOCATION, ASKING_FOR_ALLOCATION_FIRST_IN_LINE} \<and> owes_r op = {#}"
  using assms pend_empty(1) [OF assms(3)]
  by (cases "state op") (auto simp: stable_def advanceReadOperation_def pipe_state_order read_ok_def owes_r_def split: option.splits)

lemma read_rest_error:
  assumes "is_error (p_error c)" and "quiet advanceReadOperation prev ops c" and "ASKING_FOR_ALLOCATION \<le> prev"
    and "\<forall>op \<in> set ops. state op \<in> {Read_UNINITIALIZED, ASKING_FOR_ALLOCATION} \<and> read_ok c op"
  shows "\<forall>op \<in> set ops. owes_r op = {#}"
  using assms(2-)
proof (induction ops arbitrary: prev)
  case (Cons op ops)
  have st: "state op = ASKING_FOR_ALLOCATION"
    using Cons.prems assms(1) by (auto simp: stable_def advanceReadOperation_def)
  then have "owes_r op = {#}" using Cons.prems(3) by (auto simp: read_ok_def owes_r_def pipe_state_order split: option.splits)
  then show ?case using Cons.IH [of "state op"] Cons.prems st by (simp add: pipe_state_order)
qed simp

lemma reads_settled_error:
  assumes inv: "pipe_inv ctx Kr Kw Dr Dw Dh p" and none: "issued_r (pcore p) - Dr = {#}" and e: "is_error (p_error (pcore p))"
  shows "\<forall>op \<in> set (readOps p). owes_r op = {#}"
proof (cases "readOps p")
  case (Cons op ops)
  have J: "read_J Kr Dr (readOps p) (pcore p)" and ok: "machine_ok Read_FINISHED advanceReadOperation (readOps p) (pcore p)"
    using inv by (simp_all add: pipe_inv_def)
  have q: "stable advanceReadOperation op Read_FINISHED (pcore p)" "quiet advanceReadOperation (state op) ops (pcore p)"
    "state op \<noteq> Read_FINISHED"
    using ok Cons by (simp_all add: machine_ok_def)
  have f: "state op \<in> {ASKING_FOR_ALLOCATION, ASKING_FOR_ALLOCATION_FIRST_IN_LINE} \<and> owes_r op = {#}"
    by (rule read_front_error [OF e q(1) _ _ q(3)])
      (use no_pending(1) [OF inv none] read_JD(3) [OF J] Cons in auto)
  then have "state op < READING_PAYLOADS_AND_RECEIVING_TENSORS" "ASKING_FOR_ALLOCATION \<le> state op"
    by (auto simp: pipe_state_order)
  then have "\<forall>y \<in> set ops. state y \<in> {Read_UNINITIALIZED, ASKING_FOR_ALLOCATION} \<and> read_ok (pcore p) y"
    using read_later(2) [of "[]" op ops] read_JD(2,3) [OF J] Cons by (auto simp: list_all_iff)
  from read_rest_error [OF e q(2) _ this] f Cons \<open>ASKING_FOR_ALLOCATION \<le> state op\<close> show ?thesis by auto
qed simp

lemma paid_all:
  assumes "pipe_inv ctx Kr Kw Dr Dw Dh p"
  shows "\<forall>op \<in> set (readOps p). owes_r op = {#} \<Longrightarrow> paid_r (pcore p) = Kr"
    and "writeOps p = [] \<Longrightarrow> paid_w (pcore p) = Kw"
proof -
  have "sum_list (map owes_r (readOps p)) + paid_r (pcore p) = Kr" "sum_list (map owes_w (writeOps p)) + paid_w (pcore p) = Kw"
    using assms read_JD(10) write_JD(6) by (auto simp: pipe_inv_def)
  then show "\<forall>op \<in> set (readOps p). owes_r op = {#} \<Longrightarrow> paid_r (pcore p) = Kr" "writeOps p = [] \<Longrightarrow> paid_w (pcore p) = Kw"
    by (auto simp: sum_list_empty)
qed

section \<open>Runs\<close>

fun pipe_run :: "pipe_context \<Rightarrow> (string \<times> string) list \<Rightarrow> pipe_event list \<Rightarrow> pipe_event list \<Rightarrow> pipe \<Rightarrow> pipe option" where
  "pipe_run ctx addrs past [] p = Some p"
| "pipe_run ctx addrs past (ev # evs) p =
     (if pipe_enabled ctx past ev p
      then case pipe_step ctx addrs ev p of Inl f \<Rightarrow> None | Inr p' \<Rightarrow> pipe_run ctx addrs (past @ [ev]) evs p'
      else None)"

lemma pipe_run_trace:
  "pipe_trace ctx addrs evs0 p0 \<Longrightarrow> pipe_run ctx addrs evs0 evs p0 = Some p \<Longrightarrow> pipe_trace ctx addrs (evs0 @ evs) p"
proof (induction evs arbitrary: evs0 p0)
  case (Cons ev evs)
  then obtain p1 where "pipe_enabled ctx evs0 ev p0" "pipe_step ctx addrs ev p0 = Inr p1"
    "pipe_run ctx addrs (evs0 @ [ev]) evs p1 = Some p"
    by (auto split: if_splits sum.splits)
  then show ?case using Cons.IH [of "evs0 @ [ev]" p1] pipe_stepped Cons.prems(1) by fastforce
qed simp

definition sample_context :: pipe_context where
  "sample_context = \<lparr>ctx_name = ''c'', ctx_transports = [\<lparr>tc_name = ''shm'', tc_domainDescriptor = ''d'', tc_canCommunicateWithRemote = (=) ''d''\<rparr>],
     ctx_channels = sample_channels\<rparr>"

definition sample_pipe :: pipe where
  "sample_pipe = (case PipeImpl_client sample_context ''p'' ''q'' ''shm://a'' of Inl f \<Rightarrow> PipeImpl_server [] [] [] 0
     | Inr p \<Rightarrow> pipe_initFromLoop False sample_context p)"

definition sample_answer :: brochure_answer where
  "sample_answer = \<lparr>ba_transport = ''shm'', ba_address = ''a'', ba_transportRegistrationIds = [(DESCRIPTOR_REPLY, 0)],
     ba_transportDomainDescriptor = ''d'', ba_channelRegistrationIds = [(''xth'', [1, 2])],
     ba_channelDeviceDescriptors = [(''xth'', [(cpu, ''boot1'')])], ba_channelForDevicePair = [((cpu, cpu), ''xth'')]\<rparr>"

lemma sample_context_ok: "context_ok sample_context"
  by (simp add: context_ok_def sample_context_def sample_channels_def)

lemma sample_start: "pipe_trace sample_context addrs [] sample_pipe"
proof -
  have "case PipeImpl_client sample_context ''p'' ''q'' ''shm://a'' of Inl f \<Rightarrow> False | Inr p \<Rightarrow> True" by code_simp
  then obtain p where p: "PipeImpl_client sample_context ''p'' ''q'' ''shm://a'' = Inr p" by (auto split: sum.splits)
  then show ?thesis using pipe_connected [OF p, of addrs False] by (simp add: sample_pipe_def)
qed

section \<open>Properties\<close>



text \<open>
  C6: closing a pipe always succeeds, in whatever state the pipe is, and leaves it with an
  error; the same goes for every error that a connection or a channel reports.
\<close>

theorem pipe_close_total:
  assumes "context_ok ctx" and "pipe_trace ctx addrs evs p" and "is_error e"
  shows "\<exists>p'. pipe_setError e p = Inr p' \<and> is_error (p_error (pcore p')) \<and> (\<exists>p''. pipe_closeFromLoop p = Inr p'')"
  using pipe_setError_inv [OF pipe_trace_inv [OF assms(1,2)], of e]
    pipe_setError_inv [OF pipe_trace_inv [OF assms(1,2)], of PipeClosedError] assms(3)
  by (auto simp: pipe_closeFromLoop_def)

theorem pipe_close_total_witness: "is_error ContextClosedError \<and> (\<exists>p'. pipe_closeFromLoop sample_pipe = Inr p')"
  using pipe_close_total [OF sample_context_ok sample_start [of "[]"], of ContextClosedError] by auto

text \<open>
  C5: at every moment the callbacks that a pipe has called are among those it was given, each
  at most as often as it was given.
\<close>

theorem pipe_callbacks_never_twice:
  assumes "context_ok ctx" and "pipe_trace ctx addrs evs p"
  shows "mset (concat (map read_effect_callback (p_log (pcore p)))) \<subseteq># over requests_r evs \<and>
    mset (concat (map write_effect_callback (p_log (pcore p)))) \<subseteq># over requests_w evs"
proof -
  have J: "read_J (over requests_r evs) (over returns_r evs) (readOps p) (pcore p)"
    "write_J (over requests_w evs) (over returns_w evs) (writeOps p) (pcore p)"
    using pipe_trace_inv [OF assms] by (simp_all add: pipe_inv_def)
  show ?thesis
    unfolding paid_r_def [symmetric] paid_w_def [symmetric]
      read_JD(10) [OF J(1), symmetric] write_JD(6) [OF J(2), symmetric] by simp
qed

theorem pipe_callbacks_never_twice_witness: "mset (concat (map write_effect_callback (p_log (pcore sample_pipe)))) = {#}"
  using pipe_callbacks_never_twice [OF sample_context_ok sample_start [of "[]"]] by simp

text \<open>
  C1: once a pipe has an error and the calls it has made to connections and channels have all
  come back, it has called every callback it was given exactly once: those of
  \<^verbatim>\<open>readDescriptor\<close>, of \<^verbatim>\<open>read\<close> and of \<^verbatim>\<open>write\<close>; no write operation is left.
\<close>

theorem pipe_callbacks_once_error:
  assumes "context_ok ctx" and "pipe_trace ctx addrs evs p" and "is_error (p_error (pcore p))"
    and "issued_r (pcore p) = over returns_r evs" and "issued_w (pcore p) = over returns_w evs"
  shows "writeOps p = [] \<and> mset (concat (map read_effect_callback (p_log (pcore p)))) = over requests_r evs \<and>
    mset (concat (map write_effect_callback (p_log (pcore p)))) = over requests_w evs"
proof -
  note inv = pipe_trace_inv [OF assms(1,2)]
  have "writeOps p = []" by (rule writes_drained [OF inv]) (use assms in simp_all)
  moreover have "\<forall>op \<in> set (readOps p). owes_r op = {#}" by (rule reads_settled_error [OF inv]) (use assms in simp_all)
  ultimately show ?thesis using paid_all [OF inv] by (simp add: paid_r_def paid_w_def)
qed

definition sample_failure :: "pipe_event list" where
  "sample_failure = [PReadDescriptor 1, PWrite sample_message 2, PClose]"

definition sample_failed :: pipe where
  "sample_failed = the (pipe_run sample_context [] [] sample_failure sample_pipe)"

lemma sample_failed_ok:
  "pipe_run sample_context [] [] sample_failure sample_pipe = Some sample_failed"
  "is_error (p_error (pcore sample_failed))"
  "concat (map read_effect_token (p_log (pcore sample_failed))) = []"
  "concat (map write_effect_token (p_log (pcore sample_failed))) = []"
proof -
  have "case pipe_run sample_context [] [] sample_failure sample_pipe of
      None \<Rightarrow> False | Some p \<Rightarrow> is_error (p_error (pcore p)) \<and>
        concat (map read_effect_token (p_log (pcore p))) = [] \<and> concat (map write_effect_token (p_log (pcore p))) = []"
    by code_simp
  then show
    "pipe_run sample_context [] [] sample_failure sample_pipe = Some sample_failed"
    "is_error (p_error (pcore sample_failed))"
    "concat (map read_effect_token (p_log (pcore sample_failed))) = []"
    "concat (map write_effect_token (p_log (pcore sample_failed))) = []"
    unfolding sample_failed_def by (cases "pipe_run sample_context [] [] sample_failure sample_pipe"; simp)+
qed

theorem pipe_callbacks_once_error_witness:
  "is_error (p_error (pcore sample_failed)) \<and> writeOps sample_failed = [] \<and>
   mset (concat (map read_effect_callback (p_log (pcore sample_failed)))) = {#ReadDescriptorCb 1#} \<and>
   mset (concat (map write_effect_callback (p_log (pcore sample_failed)))) = {#WriteCb 2#}"
  using pipe_callbacks_once_error [OF sample_context_ok pipe_run_trace [OF sample_start sample_failed_ok(1)] sample_failed_ok(2)]
    sample_failed_ok
  by (simp add: issued_r_def issued_w_def over_def sample_failure_def)

text \<open>
  C4: on an established pipe whose calls have all come back every write has finished and its
  callback has been called exactly once, and the reads have come as far as they can: none is
  left, or the first of them waits for the allocation that its user has to provide.
\<close>

theorem pipe_established_progress:
  assumes "context_ok ctx" and "pipe_trace ctx addrs evs p" and "p_state (pcore p) = ESTABLISHED" and "\<not> is_error (p_error (pcore p))"
    and "issued_r (pcore p) = over returns_r evs" and "issued_w (pcore p) = over returns_w evs"
  shows "writeOps p = [] \<and> mset (concat (map write_effect_callback (p_log (pcore p)))) = over requests_w evs \<and>
    (readOps p = [] \<or> nextMessageGettingAllocation (pcore p) = Some (sequenceNumber (hd (readOps p))))"
proof -
  note inv = pipe_trace_inv [OF assms(1,2)]
  have w: "writeOps p = []" by (rule writes_drained [OF inv]) (use assms in simp_all)
  have "nextMessageGettingAllocation (pcore p) = Some (sequenceNumber op)" if ops: "readOps p = op # ops" for op ops
  proof -
    have J: "read_J (over requests_r evs) (over returns_r evs) (readOps p) (pcore p)"
      and ok: "machine_ok Read_FINISHED advanceReadOperation (readOps p) (pcore p)"
      using inv by (simp_all add: pipe_inv_def)
    have "stable advanceReadOperation op Read_FINISHED (pcore p)" "state op \<noteq> Read_FINISHED" "read_ok (pcore p) op"
      using ok ops read_JD(3) [OF J] by (simp_all add: machine_ok_def)
    moreover have "pend_r op = {#}" using no_pending(1) [OF inv] assms(5) ops by simp
    ultimately have "state op = ASKING_FOR_ALLOCATION_FIRST_IN_LINE \<and> \<not> doneGettingAllocation op"
      using pend_empty(1) [of op] assms(3,4)
      by (cases "state op"; cases "r_hasMissingTargetDevices op") (auto simp: stable_def advanceReadOperation_def pipe_state_order read_ok_def)
    then show ?thesis using read_JD(9) [OF J] ops by auto
  qed
  then show ?thesis using w paid_all(2) [OF inv w] by (cases "readOps p") (simp_all add: paid_w_def)
qed

definition sample_success :: "pipe_event list" where
  "sample_success = [PReadDescriptor 1, PAnswerRead sample_answer Success,
     PDescriptorRead 0 \<lparr>d_metadata = [], d_payloads = [], d_tensors = []\<rparr> Success]"

definition sample_established :: pipe where
  "sample_established = the (pipe_run sample_context [] [] sample_success sample_pipe)"

lemma sample_established_ok:
  "pipe_run sample_context [] [] sample_success sample_pipe = Some sample_established"
  "p_state (pcore sample_established) = ESTABLISHED" "\<not> is_error (p_error (pcore sample_established))"
  "concat (map read_effect_token (p_log (pcore sample_established))) = [DescriptorTok 0]"
  "concat (map write_effect_token (p_log (pcore sample_established))) = []"
  "length (readOps sample_established) = 1"
proof -
  have "case pipe_run sample_context [] [] sample_success sample_pipe of
      None \<Rightarrow> False | Some p \<Rightarrow> p_state (pcore p) = ESTABLISHED \<and> \<not> is_error (p_error (pcore p)) \<and>
        concat (map read_effect_token (p_log (pcore p))) = [DescriptorTok 0] \<and>
        concat (map write_effect_token (p_log (pcore p))) = [] \<and> length (readOps p) = 1"
    by code_simp
  then show
    "pipe_run sample_context [] [] sample_success sample_pipe = Some sample_established"
    "p_state (pcore sample_established) = ESTABLISHED" "\<not> is_error (p_error (pcore sample_established))"
    "concat (map read_effect_token (p_log (pcore sample_established))) = [DescriptorTok 0]"
    "concat (map write_effect_token (p_log (pcore sample_established))) = []"
    "length (readOps sample_established) = 1"
    unfolding sample_established_def by (cases "pipe_run sample_context [] [] sample_success sample_pipe"; simp)+
qed

theorem pipe_established_progress_witness:
  "p_state (pcore sample_established) = ESTABLISHED \<and> writeOps sample_established = [] \<and>
   nextMessageGettingAllocation (pcore sample_established) = Some (sequenceNumber (hd (readOps sample_established)))"
  using pipe_established_progress [OF sample_context_ok pipe_run_trace [OF sample_start sample_established_ok(1)]
      sample_established_ok(2,3)]
    sample_established_ok
  by (auto simp: issued_r_def issued_w_def over_def sample_success_def)

section \<open>The two ends of the handshake\<close>

text \<open>
  Contexts that were set up alike: transports and channels of the same name decide
  symmetrically, use the same number of connections, and the shared channels have the same
  order of priority.
\<close>

definition matching_contexts :: "pipe_context \<Rightarrow> pipe_context \<Rightarrow> bool" where
  "matching_contexts server client \<longleftrightarrow>
     context_ok server \<and> context_ok client \<and> compatible_contexts (ctx_channels server) (ctx_channels client) \<and>
     (\<forall>s \<in> set (ctx_transports server). \<forall>c \<in> set (ctx_transports client). tc_name s = tc_name c \<longrightarrow>
        tc_canCommunicateWithRemote s (tc_domainDescriptor c) = tc_canCommunicateWithRemote c (tc_domainDescriptor s)) \<and>
     (\<forall>s \<in> set (ctx_channels server). \<forall>c \<in> set (ctx_channels client). cc_name s = cc_name c \<longrightarrow>
        cc_numConnectionsNeeded s = cc_numConnectionsNeeded c)"

lemma selectTransport_selected:
  "selectTransport ts remote addresses = Inr t \<Longrightarrow>
     \<exists>s \<in> set ts. st_name t = tc_name s \<and> st_domainDescriptor t = tc_domainDescriptor s \<and>
       (\<exists>d. map_of remote (tc_name s) = Some d \<and> tc_canCommunicateWithRemote s d)"
  by (induction ts) (auto split: option.splits if_splits)

lemma offered_transport:
  assumes "distinct (map tc_name ts)"
  shows "map_of (map (\<lambda>t. (tc_name t, tc_domainDescriptor t)) ts) name = Some d \<longleftrightarrow>
    (\<exists>t \<in> set ts. tc_name t = name \<and> tc_domainDescriptor t = d)"
  using assms by (subst map_of_eq_Some_iff) (auto simp: comp_def image_iff)

lemma server_answer_usable:
  assumes match: "matching_contexts server client"
    and sel: "selectTransport (ctx_transports server) (transportDomainDescriptors (make_brochure client)) addrs = Inr t"
    and regs: "map_of regs DESCRIPTOR_REPLY \<noteq> None" "st_name t \<noteq> p_transport c \<Longrightarrow> map_of regs DESCRIPTOR \<noteq> None"
    and ids: "\<And>name cc. name \<in> fst ` set (descriptorsMap (selectChannels (ctx_channels server) (channel_brochure (ctx_channels client)))) \<Longrightarrow>
       getChannel server name = Inr cc \<Longrightarrow> map_option length (map_of ids name) = Some (cc_numConnectionsNeeded cc)"
  shows "usable_answer client (server_answer server (make_brochure client) t regs ids) c"
proof -
  obtain s cl where s: "s \<in> set (ctx_transports server)" "st_name t = tc_name s" "st_domainDescriptor t = tc_domainDescriptor s"
    and cl: "cl \<in> set (ctx_transports client)" "tc_name cl = tc_name s" "tc_canCommunicateWithRemote s (tc_domainDescriptor cl)"
    using selectTransport_selected [OF sel] match by (auto simp: make_brochure_def matching_contexts_def context_ok_def offered_transport)
  have "tc_canCommunicateWithRemote c' (tc_domainDescriptor s)" if "c' \<in> set (ctx_transports client)" "tc_name c' = tc_name s" for c'
  proof -
    have "c' = cl" using that cl match by (auto simp: matching_contexts_def context_ok_def distinct_map inj_on_def)
    then show ?thesis using match s(1) cl unfolding matching_contexts_def by metis
  qed
  moreover have "map_option length (map_of ids (cc_name cc)) = Some (cc_numConnectionsNeeded cc)"
    if cc: "cc \<in> set (ctx_channels client)"
      and m: "map_of (descriptorsMap (selectChannels (ctx_channels server) (channel_brochure (ctx_channels client)))) (cc_name cc) \<noteq> None" for cc
  proof -
    have n: "cc_name cc \<in> fst ` set (descriptorsMap (selectChannels (ctx_channels server) (channel_brochure (ctx_channels client))))"
      using m map_of_eq_None_iff by metis
    then have "cc_name cc \<in> cc_name ` set (ctx_channels server)"
      using selectChannels_descriptors(2) [of "ctx_channels server" "channel_brochure (ctx_channels client)"] by force
    then obtain sc where sc: "sc \<in> set (ctx_channels server)" "getChannel server (cc_name cc) = Inr sc" "cc_name sc = cc_name cc"
      using getChannel_known by blast
    then have "cc_numConnectionsNeeded sc = cc_numConnectionsNeeded cc" using match cc unfolding matching_contexts_def by blast
    then show ?thesis using ids [OF n sc(2)] by simp
  qed
  ultimately show ?thesis
    using s cl regs by (auto simp: usable_answer_def server_answer_def make_brochure_def)
qed

lemma establish_idle:
  assumes "readOps p = []" and "writeOps p = []"
  shows "establish p = Inr (pcall (\<lambda>c. c\<lparr>p_state := ESTABLISHED\<rparr>) p)"
  using assms by (simp add: establish_def advance_all_def pcall_def run_read_def run_write_def advanceAllOperations_def)

text \<open>
  C3: the handshake succeeds and its two ends agree. When a connecting pipe sends its brochure
  to an accepting pipe of a matching context, and that one finds a transport, then the answer
  it writes is accepted by the connecting pipe, which reaches the established state with no
  debug check failing; the accepting pipe waits for the connections it registered; and each
  end sends the tensors of a pair of devices over the channel on which the other receives them.
\<close>

theorem handshake_agreement:
  assumes "matching_contexts server client"
    and "PipeImpl_client client pid remoteName url = Inr q0" and "q = pipe_initFromLoop False client q0"
    and "p = pipe_initFromLoop False server (PipeImpl_server pid' remoteName' (p_transport (pcore q)) conn)"
    and "onReadWhileServerWaitingForBrochure server addrs counter (make_brochure client) p = Inr p'"
  shows "\<exists>answer q'. WriteBrochureAnswer (AcceptedConn conn) answer \<in> set (p_log (pcore p')) \<and>
    onReadWhileClientWaitingForBrochureAnswer client answer q = Inr q' \<and>
    p_state (pcore p') = SERVER_WAITING_FOR_CONNECTIONS \<and> p_state (pcore q') = ESTABLISHED \<and>
    (\<forall>a b. map_of (p_channelForDevicePair (pcore q')) (a, b) = map_of (p_channelForDevicePair (pcore p')) (b, a))"
proof -
  let ?b = "make_brochure client"
  have q: "p_state (pcore q) = CLIENT_WAITING_FOR_BROCHURE_ANSWER" "readOps q = []" "writeOps q = []"
    using assms(2,3) by (auto simp: PipeImpl_client_def pipe_initFromLoop_def pcall_def pipe_new_def open_connection_eq Let_def bindR_eq_Inr)
  have p: "p_state (pcore p) = SERVER_WAITING_FOR_BROCHURE" "p_registrationIds (pcore p) = []" "p_channelRegistrationIds (pcore p) = []"
    "p_channelReceivedConnections (pcore p) = []" "p_channels (pcore p) = []" "p_transport (pcore p) = p_transport (pcore q)"
    "p_descriptorConnection (pcore p) = AcceptedConn conn"
    using assms(4) by (simp_all add: PipeImpl_server_def pipe_initFromLoop_def pcall_def pipe_new_def Let_def)
  obtain t where t: "selectTransport (ctx_transports server) (transportDomainDescriptors ?b) addrs = Inr t"
    using assms(5) p(1) by (cases "selectTransport (ctx_transports server) (transportDomainDescriptors ?b) addrs")
      (simp_all add: onReadWhileServerWaitingForBrochure_def)
  have ctx: "context_ok server" and cc: "compatible_contexts (ctx_channels server) (ctx_channels client)"
    using assms(1) by (simp_all add: matching_contexts_def)
  obtain c6 regs ids where p': "p' = p\<lparr>pcore := c6\<rparr>" "p_state c6 = SERVER_WAITING_FOR_CONNECTIONS"
      "p_channelForDevicePair c6 = channelForDevicePair (selectChannels (ctx_channels server) (channelDeviceDescriptors ?b))"
    and log: "WriteBrochureAnswer (AcceptedConn conn) (server_answer server ?b t regs ids) \<in> set (p_log c6)"
    and use: "usable_answer client (server_answer server ?b t regs ids) (pcore q)"
  proof (rule brochure_eq [OF ctx p(1-5) t, of counter])
    fix c6 regs ids
    assume a: "onReadWhileServerWaitingForBrochure server addrs counter ?b p = Inr (p\<lparr>pcore := c6\<rparr>)"
      "p_state c6 = SERVER_WAITING_FOR_CONNECTIONS"
      "WriteBrochureAnswer (p_descriptorConnection (pcore p)) (server_answer server ?b t regs ids) \<in> set (p_log c6)"
      "p_channelForDevicePair c6 = channelForDevicePair (selectChannels (ctx_channels server) (channelDeviceDescriptors ?b))"
      and r: "map_of regs DESCRIPTOR_REPLY \<noteq> None" "st_name t \<noteq> p_transport (pcore p) \<Longrightarrow> map_of regs DESCRIPTOR \<noteq> None"
      and i: "\<And>name cc. name \<in> fst ` set (descriptorsMap (selectChannels (ctx_channels server) (channelDeviceDescriptors ?b))) \<Longrightarrow>
        getChannel server name = Inr cc \<Longrightarrow> map_option length (map_of ids name) = Some (cc_numConnectionsNeeded cc)"
    have "usable_answer client (server_answer server ?b t regs ids) (pcore q)"
      by (rule server_answer_usable [OF assms(1) t r(1)]) (use r(2) i p(6) in \<open>auto simp: make_brochure_def\<close>)
    then show ?thesis using that a assms(5) p(7) by auto
  qed
  let ?a = "server_answer server ?b t regs ids" and ?r = "selectChannels (ctx_channels server) (channel_brochure (ctx_channels client))"
  obtain c4 where eq: "onReadWhileClientWaitingForBrochureAnswer client ?a q =
      bindR (check_channel_maps (channelForDevicePair (selectChannels (ctx_channels client) (descriptorsMap ?r))) (channelForDevicePair ?r))
        (\<lambda>_. establish (q\<lparr>pcore := c4\<rparr>))"
    and c4: "p_channelForDevicePair c4 = channelForDevicePair (selectChannels (ctx_channels client) (descriptorsMap ?r))"
    by (rule answer_eq [OF q(1) use refl]) (auto simp: server_answer_def make_brochure_def)
  have "onReadWhileClientWaitingForBrochureAnswer client ?a q = Inr (q\<lparr>pcore := c4\<lparr>p_state := ESTABLISHED\<rparr>\<rparr>)"
    unfolding eq selection_checked [OF cc refl] using q(2,3) by (simp add: establish_idle pcall_def)
  moreover have "map_of (p_channelForDevicePair c4) (a, b) = map_of (p_channelForDevicePair c6) (b, a)" for a b
    unfolding c4 p'(3) using selection_mirrored [OF cc] by (simp add: make_brochure_def)
  ultimately show ?thesis using p' log by auto
qed

definition sample_accepted :: pipe where
  "sample_accepted = pipe_initFromLoop False sample_context (PipeImpl_server ''r'' ''s'' ''shm'' 7)"

theorem handshake_agreement_witness:
  "\<exists>answer p' q'. onReadWhileServerWaitingForBrochure sample_context [(''shm'', ''a'')] 0 (make_brochure sample_context) sample_accepted = Inr p' \<and>
    WriteBrochureAnswer (AcceptedConn 7) answer \<in> set (p_log (pcore p')) \<and>
    onReadWhileClientWaitingForBrochureAnswer sample_context answer sample_pipe = Inr q' \<and> p_state (pcore q') = ESTABLISHED"
proof -
  have m: "matching_contexts sample_context sample_context"
    by (auto simp: matching_contexts_def sample_context_def sample_channels_def context_ok_def compatible_contexts_def)
  have "case PipeImpl_client sample_context ''p'' ''q'' ''shm://a'' of Inl f \<Rightarrow> False | Inr p \<Rightarrow> p_transport (pcore (pipe_initFromLoop False sample_context p)) = ''shm''"
    by code_simp
  then obtain q0 where q0: "PipeImpl_client sample_context ''p'' ''q'' ''shm://a'' = Inr q0" and tr: "p_transport (pcore sample_pipe) = ''shm''"
    by (auto simp: sample_pipe_def split: sum.splits)
  have q: "sample_pipe = pipe_initFromLoop False sample_context q0" using q0 by (simp add: sample_pipe_def)
  have "case onReadWhileServerWaitingForBrochure sample_context [(''shm'', ''a'')] 0 (make_brochure sample_context) sample_accepted of
      Inl f \<Rightarrow> False | Inr p \<Rightarrow> True"
    by code_simp
  then obtain p' where p': "onReadWhileServerWaitingForBrochure sample_context [(''shm'', ''a'')] 0 (make_brochure sample_context) sample_accepted = Inr p'"
    by (auto split: sum.splits)
  from handshake_agreement [OF m q0 q _ p', of "''r''" "''s''" 7] tr p' show ?thesis by (auto simp: sample_accepted_def)
qed

end
