(* ===== verification/Context.thy ===== *)
theory Context
  imports Listener_Properties Pipe_Properties
begin

text \<open>
  \<^verbatim>\<open>ContextImpl\<close> (\<^verbatim>\<open>tensorpipe/core/context_impl.cc\<close>): the registry of transports and channels, the
  creation of listeners and pipes, the objects that are enrolled, and closing. The tables of
  transports and channels are what pipes and listeners consult.
\<close>

section \<open>State\<close>

datatype context_effect =
    CSetTransportId string string
  | CSetChannelId string string
  | CCloseTransport string
  | CCloseChannel string
  | CJoinTransport string
  | CJoinChannel string
  | CListenerClosed nat listener
  | CPipeClosed nat pipe

text \<open>
  A transport or channel carries the name under which it was registered. The maps by priority are
  kept in the order of their keys, which are signed 64-bit integers. Enrolled objects are
  identified by numbers.
\<close>

record context_impl =
  c_error :: tp_error
  c_joined :: bool
  c_id :: string
  c_name :: string
  c_listenerCounter :: "64 word"
  c_pipeCounter :: "64 word"
  c_listeners :: "(nat \<times> listener) list"
  c_pipes :: "(nat \<times> pipe) list"
  c_transports :: "(string \<times> transport_ctx) list"
  c_channels :: "(string \<times> channel_ctx) list"
  transportsByPriority :: "(64 word \<times> transport_ctx) list"
  channelsByPriority :: "(64 word \<times> channel_ctx) list"
  c_log :: "context_effect list"

definition clog :: "context_effect list \<Rightarrow> context_impl \<Rightarrow> context_impl" where
  "clog es c = c\<lparr>c_log := c_log c @ es\<rparr>"

definition createContextId :: "nat \<Rightarrow> 64 word \<Rightarrow> string" where
  "createContextId pid contextCounter = to_string pid @ '':c'' @ to_string (unat contextCounter)"

definition ContextImpl :: "nat \<Rightarrow> 64 word \<Rightarrow> string \<Rightarrow> context_impl" where
  "ContextImpl pid contextCounter name =
     \<lparr>c_error = Success, c_joined = False, c_id = (if name \<noteq> [] then name else createContextId pid contextCounter), c_name = name,
      c_listenerCounter = 0, c_pipeCounter = 0, c_listeners = [], c_pipes = [], c_transports = [], c_channels = [],
      transportsByPriority = [], channelsByPriority = [], c_log = []\<rparr>"

section \<open>The registry\<close>

text \<open>\<^verbatim>\<open>emplace\<close> into an ordered map.\<close>

fun emplace_ordered :: "64 word \<Rightarrow> 'v \<Rightarrow> (64 word \<times> 'v) list \<Rightarrow> (64 word \<times> 'v) list" where
  "emplace_ordered k v [] = [(k, v)]"
| "emplace_ordered k v ((k', v') # m) =
     (if sint k < sint k' then (k, v) # (k', v') # m
      else if k = k' then (k', v') # m
      else (k', v') # emplace_ordered k v m)"

definition context_registerTransport :: "64 word \<Rightarrow> string \<Rightarrow> bool \<Rightarrow> transport_ctx \<Rightarrow> context_impl \<Rightarrow> context_impl result" where
  "context_registerTransport priority transport viable t c =
     throw_assert_if (transport = [])
      (throw_assert_if (map_of (c_transports c) transport \<noteq> None)
       (throw_assert_if (map_of (transportsByPriority c) (- priority) \<noteq> None)
         (if \<not> viable then Inr c
          else let t' = t\<lparr>tc_name := transport\<rparr>
               in Inr ((clog [CSetTransportId transport (c_id c @ ''.tr_'' @ transport)] c)
                    \<lparr>c_transports := map_emplace transport t' (c_transports c),
                     transportsByPriority := emplace_ordered (- priority) t' (transportsByPriority c)\<rparr>))))"

definition context_registerChannel :: "64 word \<Rightarrow> string \<Rightarrow> bool \<Rightarrow> channel_ctx \<Rightarrow> context_impl \<Rightarrow> context_impl result" where
  "context_registerChannel priority channel viable h c =
     throw_assert_if (channel = [])
      (throw_assert_if (map_of (c_channels c) channel \<noteq> None)
       (throw_assert_if (map_of (channelsByPriority c) (- priority) \<noteq> None)
         (if \<not> viable then Inr c
          else let h' = h\<lparr>cc_name := channel\<rparr>
               in Inr ((clog [CSetChannelId channel (c_id c @ ''.ch_'' @ channel)] c)
                    \<lparr>c_channels := map_emplace channel h' (c_channels c),
                     channelsByPriority := emplace_ordered (- priority) h' (channelsByPriority c)\<rparr>))))"

definition context_getTransport :: "string \<Rightarrow> context_impl \<Rightarrow> transport_ctx result" where
  "context_getTransport transport c = (case map_of (c_transports c) transport of None \<Rightarrow> Inl InvalidArgument | Some t \<Rightarrow> Inr t)"

definition context_getChannel :: "string \<Rightarrow> context_impl \<Rightarrow> channel_ctx result" where
  "context_getChannel channel c = (case map_of (c_channels c) channel of None \<Rightarrow> Inl InvalidArgument | Some h \<Rightarrow> Inr h)"

text \<open>What pipes and listeners see of the context: its name and the tables in the order of priority.\<close>

definition pipe_context_of :: "context_impl \<Rightarrow> pipe_context" where
  "pipe_context_of c = \<lparr>ctx_name = c_name c, ctx_transports = map snd (transportsByPriority c), ctx_channels = map snd (channelsByPriority c)\<rparr>"

section \<open>Listeners and pipes\<close>

definition enroll :: "nat \<Rightarrow> 'o \<Rightarrow> (nat \<times> 'o) list \<Rightarrow> (nat \<times> 'o) list result" where
  "enroll k ob m = dcheck (map_of m k = None) (Inr (m @ [(k, ob)]))"

definition unenroll :: "nat \<Rightarrow> (nat \<times> 'o) list \<Rightarrow> (nat \<times> 'o) list result" where
  "unenroll k m = dcheck (map_of m k \<noteq> None) (Inr (AList.delete k m))"

text \<open>A listener or a pipe is created and then initialized in the loop, where it enrolls itself unless the context is closed.\<close>

definition context_listen :: "nat \<Rightarrow> (string \<Rightarrow> string \<Rightarrow> string) \<Rightarrow> string list \<Rightarrow> context_impl \<Rightarrow> (listener \<times> context_impl) result" where
  "context_listen k materialize urls c =
     (let lid = c_id c @ ''[l'' @ to_string (unat (c_listenerCounter c)) @ '']'';
          c1 = c\<lparr>c_listenerCounter := c_listenerCounter c + 1\<rparr>
      in bindR (ListenerImpl (pipe_context_of c1) materialize lid urls) (\<lambda>l.
           bindR (listener_initFromLoop (is_error (c_error c1)) l) (\<lambda>l'.
             if is_error (c_error c1) then Inr (l', c1)
             else bindR (enroll k l' (c_listeners c1)) (\<lambda>ls. Inr (l', c1\<lparr>c_listeners := ls\<rparr>)))))"

definition context_connect :: "nat \<Rightarrow> string \<Rightarrow> string \<Rightarrow> context_impl \<Rightarrow> (pipe \<times> context_impl) result" where
  "context_connect k url remoteName c =
     (let pid = c_id c @ ''.p'' @ to_string (unat (c_pipeCounter c));
          c1 = c\<lparr>c_pipeCounter := c_pipeCounter c + 1\<rparr>;
          pid' = (if remoteName \<noteq> [] then c_id c @ ''_to_'' @ remoteName else pid)
      in bindR (PipeImpl_client (pipe_context_of c1) pid' remoteName url) (\<lambda>p.
           let p' = pipe_initFromLoop (is_error (c_error c1)) (pipe_context_of c1) p
           in if is_error (c_error c1) then Inr (p', c1)
              else bindR (enroll k p' (c_pipes c1)) (\<lambda>ps. Inr (p', c1\<lparr>c_pipes := ps\<rparr>))))"

section \<open>Closing\<close>

text \<open>
  The loop over a copy of one of the tables: every object is closed, and leaves the table when it
  unenrolls itself, which it does once. The result has the table and the closed objects.
\<close>

fun close_objects ::
  "('o \<Rightarrow> 'o result) \<Rightarrow> ('o \<Rightarrow> bool) \<Rightarrow> (nat \<times> 'o) list \<Rightarrow> (nat \<times> 'o) list \<Rightarrow> ((nat \<times> 'o) list \<times> (nat \<times> 'o) list) result" where
  "close_objects close unenrolled [] m = Inr (m, [])"
| "close_objects close unenrolled ((k, ob) # obs) m =
     bindR (close ob) (\<lambda>ob'.
       bindR (if unenrolled ob' then unenroll k m else Inr m) (\<lambda>m'.
         bindR (close_objects close unenrolled obs m') (\<lambda>(m'', cs). Inr (m'', (k, ob') # cs))))"

definition listener_unenrolled :: "listener \<Rightarrow> bool" where
  "listener_unenrolled l \<longleftrightarrow> LUnenroll \<in> set (l_log l)"

definition pipe_unenrolled :: "pipe \<Rightarrow> bool" where
  "pipe_unenrolled p \<longleftrightarrow> UnenrollPipe \<in> set (p_log (pcore p))"

definition context_handleError :: "context_impl \<Rightarrow> context_impl result" where
  "context_handleError c =
     (let listenersCopy = c_listeners c; pipesCopy = c_pipes c
      in bindR (close_objects listener_closeFromLoop listener_unenrolled listenersCopy (c_listeners c)) (\<lambda>(ls, closedListeners).
           bindR (close_objects pipe_closeFromLoop pipe_unenrolled pipesCopy (c_pipes c)) (\<lambda>(ps, closedPipes).
             Inr (clog (map (\<lambda>(k, l). CListenerClosed k l) closedListeners @ map (\<lambda>(k, p). CPipeClosed k p) closedPipes @
                   map (CCloseTransport \<circ> fst) (c_transports c) @ map (CCloseChannel \<circ> fst) (c_channels c))
                 (c\<lparr>c_listeners := ls, c_pipes := ps\<rparr>)))))"

definition context_setError :: "tp_error \<Rightarrow> context_impl \<Rightarrow> context_impl result" where
  "context_setError e c = (if is_error (c_error c) \<or> \<not> is_error e then Inr c else context_handleError (c\<lparr>c_error := e\<rparr>))"

definition context_closeFromLoop :: "context_impl \<Rightarrow> context_impl result" where
  "context_closeFromLoop c = context_setError ContextClosedError c"

text \<open>Joining: closing has run when the transports and channels are joined.\<close>

definition context_join :: "context_impl \<Rightarrow> context_impl result" where
  "context_join c =
     bindR (context_closeFromLoop c) (\<lambda>c1.
       if c_joined c1 then Inr c1
       else let c2 = clog (map (CJoinTransport \<circ> fst) (c_transports c1) @ map (CJoinChannel \<circ> fst) (c_channels c1)) (c1\<lparr>c_joined := True\<rparr>)
            in dcheck (c_listeners c2 = []) (dcheck (c_pipes c2 = []) (Inr c2)))"

section \<open>Tables\<close>

text \<open>
  A map by name and a map by priority that hold the same objects, each with its own name and its
  own priority.
\<close>

definition table_ok :: "('v \<Rightarrow> string) \<Rightarrow> (64 word \<times> 'v) list \<Rightarrow> (string \<times> 'v) list \<Rightarrow> bool" where
  "table_ok nm byp m \<longleftrightarrow> sorted_wrt (\<lambda>a b. sint (fst a) < sint (fst b)) byp \<and> distinct (map fst m) \<and>
     mset (map snd byp) = mset (map snd m) \<and> (\<forall>(n, t) \<in> set m. nm t = n)"

lemma set_emplace_ordered: "map_of byp k = None \<Longrightarrow> mset (emplace_ordered k v byp) = add_mset (k, v) (mset byp)"
  by (induction k v byp rule: emplace_ordered.induct) (auto split: if_split_asm)

lemma sorted_emplace_ordered:
  "sorted_wrt (\<lambda>a b. sint (fst a) < sint (fst b)) byp \<Longrightarrow> map_of byp k = None \<Longrightarrow>
   sorted_wrt (\<lambda>a b. sint (fst a) < sint (fst b)) (emplace_ordered k v byp)"
proof (induction k v byp rule: emplace_ordered.induct)
  case (2 k v k' v' m)
  have ne: "k \<noteq> k'" "map_of m k = None" using 2(3) by (auto split: if_split_asm)
  show ?case
  proof (cases "sint k < sint k'")
    case True
    then show ?thesis using 2(2) by auto
  next
    case False
    have "sint k' < sint k" using False ne(1) by (metis linorder_neqE_linordered_idom signed_word_eqI)
    moreover have "set (emplace_ordered k v m) = insert (k, v) (set m)"
      using arg_cong [OF set_emplace_ordered [OF ne(2), of v], of set_mset] by simp
    ultimately show ?thesis using 2 False ne by auto
  qed
qed simp

lemma table_ok_register:
  assumes "table_ok nm byp m" and "map_of m n = None" and "map_of byp k = None" and "nm t = n"
  shows "table_ok nm (emplace_ordered k t byp) (map_emplace n t m)"
  using assms sorted_emplace_ordered [of byp k t] set_emplace_ordered [of byp k t]
  by (auto simp: table_ok_def map_emplace_def map_of_eq_None_iff)

lemma table_names:
  assumes "table_ok nm byp m"
  shows "distinct (map nm (map snd byp))"
proof -
  have "map nm (map snd m) = map fst m" using assms by (auto simp: table_ok_def)
  moreover have e: "mset (map snd byp) = mset (map snd m)" and d: "distinct (map fst m)" using assms by (simp_all add: table_ok_def)
  have "mset (map nm (map snd byp)) = mset (map nm (map snd m))" by (simp only: mset_map [of nm] e)
  ultimately show ?thesis using d mset_eq_imp_distinct_iff by metis
qed

lemma table_lookup:
  assumes ok: "table_ok nm byp m"
  shows "List.find (\<lambda>t. nm t = n) (map snd byp) = map_of m n"
proof -
  have find: "List.find (\<lambda>t. nm t = n) ts = map_of (map (\<lambda>t. (nm t, t)) ts) n" for ts by (induction ts) auto
  have m: "m = map (\<lambda>t. (nm t, t)) (map snd m)" using ok by (auto simp: table_ok_def intro!: map_idI [symmetric])
  have "set (map snd byp) = set (map snd m)" using ok mset_eq_setD by (metis table_ok_def)
  then have "set (map (\<lambda>t. (nm t, t)) (map snd byp)) = set (map (\<lambda>t. (nm t, t)) (map snd m))" by (simp only: set_map [of "\<lambda>t. (nm t, t)"])
  then have "set (map (\<lambda>t. (nm t, t)) (map snd byp)) = set m" unfolding m [symmetric] .
  moreover have "distinct (map fst (map (\<lambda>t. (nm t, t)) (map snd byp)))" using table_names [OF ok] by (simp add: comp_def)
  ultimately have "map_of (map (\<lambda>t. (nm t, t)) (map snd byp)) = map_of m" using ok by (intro map_of_inject_set [THEN iffD2]) (auto simp: table_ok_def)
  then show ?thesis unfolding find by simp
qed

section \<open>Contexts that can be built\<close>

inductive context_built :: "context_impl \<Rightarrow> bool" where
  context_made: "context_built (ContextImpl pid counter name)"
| transport_registered: "context_built c \<Longrightarrow> context_registerTransport priority transport viable t c = Inr c' \<Longrightarrow> context_built c'"
| channel_registered: "context_built c \<Longrightarrow> context_registerChannel priority channel viable h c = Inr c' \<Longrightarrow> context_built c'"
| context_listened: "context_built c \<Longrightarrow> context_listen k materialize urls c = Inr (l, c') \<Longrightarrow> context_built c'"
| context_connected: "context_built c \<Longrightarrow> context_connect k url remoteName c = Inr (p, c') \<Longrightarrow> context_built c'"
| context_closed: "context_built c \<Longrightarrow> context_join c = Inr c' \<Longrightarrow> context_built c'"

definition registry_ok :: "context_impl \<Rightarrow> bool" where
  "registry_ok c \<longleftrightarrow> table_ok tc_name (transportsByPriority c) (c_transports c) \<and> table_ok cc_name (channelsByPriority c) (c_channels c)"

lemma registry_ok_cong:
  "c_transports c' = c_transports c \<Longrightarrow> c_channels c' = c_channels c \<Longrightarrow> transportsByPriority c' = transportsByPriority c \<Longrightarrow>
   channelsByPriority c' = channelsByPriority c \<Longrightarrow> registry_ok c' = registry_ok c"
  by (simp add: registry_ok_def)

lemma context_setError_registry: "context_setError e c = Inr c' \<Longrightarrow> registry_ok c' = registry_ok c"
  by (auto simp: context_setError_def context_handleError_def Let_def bindR_eq_Inr clog_def registry_ok_def split: if_split_asm)

lemma context_built_registry: "context_built c \<Longrightarrow> registry_ok c"
proof (induction rule: context_built.induct)
  case (context_made pid counter name)
  show ?case by (simp add: registry_ok_def table_ok_def ContextImpl_def)
next
  case (transport_registered c priority transport viable t c')
  then show ?case
    by (auto simp: context_registerTransport_def throw_assert_if_eq_Inr registry_ok_def clog_def Let_def split: if_split_asm intro!: table_ok_register)
next
  case (channel_registered c priority channel viable h c')
  then show ?case
    by (auto simp: context_registerChannel_def throw_assert_if_eq_Inr registry_ok_def clog_def Let_def split: if_split_asm intro!: table_ok_register)
next
  case (context_listened c k materialize urls l c')
  then show ?case by (auto simp: context_listen_def Let_def bindR_eq_Inr registry_ok_def split: if_split_asm)
next
  case (context_connected c k url remoteName p c')
  then show ?case by (auto simp: context_connect_def Let_def bindR_eq_Inr registry_ok_def split: if_split_asm)
next
  case (context_closed c c')
  then show ?case
    by (auto simp: context_join_def context_closeFromLoop_def Let_def bindR_eq_Inr dcheck_eq_Inr registry_ok_def clog_def split: if_split_asm
        dest!: context_setError_registry)
qed

section \<open>Closing everything\<close>

lemma unenroll_front: "distinct (map fst ((k, x) # m)) \<Longrightarrow> unenroll k ((k, x) # m) = Inr m"
  by (force simp: unenroll_def AList.delete_eq filter_id_conv)

text \<open>What the context relies on: an object in good health can be closed, and then unenrolls itself.\<close>

locale enrollable =
  fixes close :: "'o \<Rightarrow> 'o result" and unenrolled :: "'o \<Rightarrow> bool" and reachable :: "'o \<Rightarrow> bool" and failed :: "'o \<Rightarrow> bool"
  assumes close_reachable: "reachable ob \<Longrightarrow> \<not> failed ob \<Longrightarrow> \<exists>ob'. close ob = Inr ob' \<and> failed ob' \<and> unenrolled ob'"
begin

lemma close_all:
  assumes "distinct (map fst obs)" and "\<forall>x \<in> set obs. reachable (snd x) \<and> \<not> failed (snd x)"
  shows "\<exists>cs. close_objects close unenrolled obs obs = Inr ([], cs) \<and> map fst cs = map fst obs \<and> (\<forall>x \<in> set cs. failed (snd x))"
  using assms
proof (induction obs)
  case (Cons x obs)
  obtain k ob where x: "x = (k, ob)" by (cases x)
  obtain ob' where ob': "close ob = Inr ob'" "failed ob'" "unenrolled ob'" using Cons.prems(2) close_reachable by (auto simp: x)
  have un: "unenroll k (x # obs) = Inr obs" using unenroll_front Cons.prems(1) by (simp add: x)
  obtain cs where "close_objects close unenrolled obs obs = Inr ([], cs)" "map fst cs = map fst obs" "\<forall>x \<in> set cs. failed (snd x)"
    using Cons by auto
  then show ?case using ob' un by (simp add: x)
qed simp

end

interpretation listener_objects: enrollable listener_closeFromLoop listener_unenrolled "\<lambda>l. \<exists>ctx evs. listener_trace ctx evs l" "\<lambda>l. is_error (l_error l)"
proof
  fix l
  assume "\<exists>ctx evs. listener_trace ctx evs l" and healthy: "\<not> is_error (l_error l)"
  then obtain ctx evs where "listener_trace ctx evs l" by blast
  then have "accepted_ok (accepts evs) l" using listener_trace_ok by (simp add: listener_ok_def)
  then obtain l' where "listener_handleError (l\<lparr>l_error := ListenerClosedError\<rparr>) = Inr l'" "l_error l' = ListenerClosedError"
    using handleError_ok [OF _ healthy, of "accepts evs" ListenerClosedError] by auto
  then show "\<exists>l'. listener_closeFromLoop l = Inr l' \<and> is_error (l_error l') \<and> listener_unenrolled l'" using healthy
    by (auto simp: listener_closeFromLoop_def listener_setError_def listener_handleError_def listener_unenrolled_def Let_def bindR_eq_Inr split: prod.split_asm)
qed

interpretation pipe_objects: enrollable pipe_closeFromLoop pipe_unenrolled
  "\<lambda>p. \<exists>ctx addrs evs. context_ok ctx \<and> pipe_trace ctx addrs evs p" "\<lambda>p. is_error (p_error (pcore p))"
proof
  fix p
  assume "\<exists>ctx addrs evs. context_ok ctx \<and> pipe_trace ctx addrs evs p" and healthy: "\<not> is_error (p_error (pcore p))"
  then obtain ctx addrs evs where "context_ok ctx" "pipe_trace ctx addrs evs p" by blast
  then obtain p' where "pipe_closeFromLoop p = Inr p'" "is_error (p_error (pcore p'))"
    using pipe_setError_inv [OF pipe_trace_inv, of ctx addrs evs p PipeClosedError] by (auto simp: pipe_closeFromLoop_def)
  then show "\<exists>p'. pipe_closeFromLoop p = Inr p' \<and> is_error (p_error (pcore p')) \<and> pipe_unenrolled p'" using healthy
    by (auto simp: pipe_closeFromLoop_def pipe_setError_def handleError_def bindR_eq_Inr pcall_def plog_def pipe_unenrolled_def)
qed

definition enrolled_ok :: "context_impl \<Rightarrow> bool" where
  "enrolled_ok c \<longleftrightarrow> distinct (map fst (c_listeners c)) \<and> distinct (map fst (c_pipes c)) \<and>
     (\<forall>x \<in> set (c_listeners c). (\<exists>ctx evs. listener_trace ctx evs (snd x)) \<and> \<not> is_error (l_error (snd x))) \<and>
     (\<forall>x \<in> set (c_pipes c). (\<exists>ctx addrs evs. context_ok ctx \<and> pipe_trace ctx addrs evs (snd x)) \<and> \<not> is_error (p_error (pcore (snd x))))"

lemma context_close_result:
  assumes ok: "enrolled_ok c" and live: "c_error c = Success"
  shows "\<exists>c' ls ps. context_closeFromLoop c = Inr c' \<and> c_error c' = ContextClosedError \<and> c_joined c' = c_joined c \<and> c_listeners c' = [] \<and> c_pipes c' = [] \<and>
    c_transports c' = c_transports c \<and> c_channels c' = c_channels c \<and>
    map fst ls = map fst (c_listeners c) \<and> map fst ps = map fst (c_pipes c) \<and>
    (\<forall>(k, l) \<in> set ls. is_error (l_error l) \<and> CListenerClosed k l \<in> set (c_log c')) \<and>
    (\<forall>(k, p) \<in> set ps. is_error (p_error (pcore p)) \<and> CPipeClosed k p \<in> set (c_log c'))"
proof -
  obtain ls where ls: "close_objects listener_closeFromLoop listener_unenrolled (c_listeners c) (c_listeners c) = Inr ([], ls)"
    "map fst ls = map fst (c_listeners c)" "\<forall>x \<in> set ls. is_error (l_error (snd x))"
    using listener_objects.close_all [of "c_listeners c"] ok unfolding enrolled_ok_def by blast
  obtain ps where ps: "close_objects pipe_closeFromLoop pipe_unenrolled (c_pipes c) (c_pipes c) = Inr ([], ps)"
    "map fst ps = map fst (c_pipes c)" "\<forall>x \<in> set ps. is_error (p_error (pcore (snd x)))"
    using pipe_objects.close_all [of "c_pipes c"] ok unfolding enrolled_ok_def by blast
  show ?thesis
    by (rule exI, rule exI [of _ ls], rule exI [of _ ps])
      (use ls ps live in \<open>force simp: context_closeFromLoop_def context_setError_def context_handleError_def clog_def Let_def\<close>)
qed

section \<open>Properties\<close>

text \<open>
  C13: the registry of a context is well formed however it was built. Transports and channels have
  distinct names, as pipes rely on; they are offered to pipes in the order of the keys of the
  priority maps, which are the negated priorities; and looking one up by name gives the same
  object for the context and for pipes.
\<close>

theorem context_registry:
  assumes "context_built c"
  shows "context_ok (pipe_context_of c) \<and>
    sorted_wrt (\<lambda>a b. sint (fst a) < sint (fst b)) (transportsByPriority c) \<and>
    sorted_wrt (\<lambda>a b. sint (fst a) < sint (fst b)) (channelsByPriority c) \<and>
    getTransport (pipe_context_of c) transport = context_getTransport transport c \<and>
    getChannel (pipe_context_of c) channel = context_getChannel channel c"
proof -
  have t: "table_ok tc_name (transportsByPriority c) (c_transports c)" and h: "table_ok cc_name (channelsByPriority c) (c_channels c)"
    using context_built_registry [OF assms] by (simp_all add: registry_ok_def)
  show ?thesis using t h table_names [OF t] table_names [OF h] table_lookup [OF t, of transport] table_lookup [OF h, of channel]
    by (simp add: context_ok_def pipe_context_of_def getTransport_def getChannel_def context_getTransport_def context_getChannel_def table_ok_def)
qed

theorem context_registry_witness: "\<exists>c. context_built c \<and> map tc_name (ctx_transports (pipe_context_of c)) = [''shm'', ''uv''] \<and> context_ok (pipe_context_of c)"
proof -
  define t where "t = \<lparr>tc_name = [], tc_domainDescriptor = ''d'', tc_canCommunicateWithRemote = (\<lambda>_. True)\<rparr>"
  let ?c = "ContextImpl 1 0 ''a''"
  obtain c1 where c1: "context_registerTransport 0 ''uv'' True t ?c = Inr c1"
    "c_transports c1 = [(''uv'', t\<lparr>tc_name := ''uv''\<rparr>)]" "transportsByPriority c1 = [(0, t\<lparr>tc_name := ''uv''\<rparr>)]"
    by (simp add: context_registerTransport_def ContextImpl_def clog_def map_emplace_def Let_def)
  obtain c2 where c2: "context_registerTransport 1 ''shm'' True t c1 = Inr c2"
    "transportsByPriority c2 = [(- 1, t\<lparr>tc_name := ''shm''\<rparr>), (0, t\<lparr>tc_name := ''uv''\<rparr>)]"
    using c1 by (simp add: context_registerTransport_def clog_def Let_def)
  have "context_built c2" using transport_registered [OF transport_registered [OF context_made c1(1)] c2(1)] .
  with context_registry [OF this] c2(2) show ?thesis by (auto simp: pipe_context_of_def)
qed

text \<open>
  C14: closing a context always succeeds. It closes every listener and every pipe that is enrolled,
  each of which then has an error and unenrolls itself, so that none is left and the context can
  be joined.
\<close>

theorem context_close_all:
  assumes "enrolled_ok c" and "c_error c = Success"
  shows "\<exists>c' ls ps. context_closeFromLoop c = Inr c' \<and> c_error c' = ContextClosedError \<and> c_listeners c' = [] \<and> c_pipes c' = [] \<and>
    map fst ls = map fst (c_listeners c) \<and> map fst ps = map fst (c_pipes c) \<and>
    (\<forall>(k, l) \<in> set ls. is_error (l_error l) \<and> CListenerClosed k l \<in> set (c_log c')) \<and>
    (\<forall>(k, p) \<in> set ps. is_error (p_error (pcore p)) \<and> CPipeClosed k p \<in> set (c_log c')) \<and> (\<exists>c''. context_join c = Inr c'')"
proof -
  obtain c' ls ps where c': "context_closeFromLoop c = Inr c'" "c_error c' = ContextClosedError" "c_listeners c' = []" "c_pipes c' = []"
    "map fst ls = map fst (c_listeners c)" "map fst ps = map fst (c_pipes c)"
    "\<forall>(k, l) \<in> set ls. is_error (l_error l) \<and> CListenerClosed k l \<in> set (c_log c')"
    "\<forall>(k, p) \<in> set ps. is_error (p_error (pcore p)) \<and> CPipeClosed k p \<in> set (c_log c')"
    using context_close_result [OF assms] by blast
  then have "\<exists>c''. context_join c = Inr c''" by (auto simp: context_join_def clog_def Let_def)
  then show ?thesis using c' by blast
qed

theorem context_close_all_witness:
  "\<exists>c c' l'. map fst (c_listeners c) = [3] \<and> map fst (c_pipes c) = [8] \<and> context_closeFromLoop c = Inr c' \<and> c_listeners c' = [] \<and> c_pipes c' = [] \<and>
     CListenerClosed 3 l' \<in> set (c_log c')"
proof -
  obtain l where l: "listener_trace listener_context [] l" "l_error l = Success" using sample_listener by blast
  have p: "pipe_trace sample_context [] [] sample_pipe" "\<not> is_error (p_error (pcore sample_pipe))"
    by (rule sample_start) code_simp
  define c where "c = (ContextImpl 1 0 ''a'')\<lparr>c_listeners := [(3, l)], c_pipes := [(8, sample_pipe)]\<rparr>"
  have ok: "enrolled_ok c" "c_error c = Success" using l p sample_context_ok by (auto simp: enrolled_ok_def c_def ContextImpl_def)
  obtain c' ls where c': "context_closeFromLoop c = Inr c'" "c_listeners c' = []" "c_pipes c' = []" "map fst ls = map fst (c_listeners c)"
    "\<forall>(k, l) \<in> set ls. is_error (l_error l) \<and> CListenerClosed k l \<in> set (c_log c')"
    using context_close_all [OF ok] by (elim exE conjE) (rule that)
  have c: "map fst (c_listeners c) = [3]" "map fst (c_pipes c) = [8]" by (simp_all add: c_def)
  then obtain l' where "ls = [(3, l')]" using c'(4) by auto
  then have "CListenerClosed 3 l' \<in> set (c_log c')" using c'(5) by simp
  then show ?thesis using c c'(1-3) by (intro exI [of _ c] exI [of _ c'] exI [of _ l'] conjI)
qed

end
