(* ===== verification/Pow2.thy ===== *)
theory Pow2
  imports TP_Prelude
begin

text \<open>
  The bit tricks of \<^verbatim>\<open>tensorpipe/common/system.h\<close> by which ring buffers get their size:
  \<^verbatim>\<open>isPow2\<close>, \<^verbatim>\<open>nextPow2\<close> and \<^verbatim>\<open>maxPow2LessEqualThan\<close>, on 64-bit words, compared with the
  arithmetic they stand for.
\<close>

unbundle bit_operations_syntax

section \<open>The functions\<close>

definition isPow2 :: "64 word \<Rightarrow> bool" where
  "isPow2 n \<longleftrightarrow> n > 0 \<and> (n - 1) AND n = 0"

definition smear :: "nat \<Rightarrow> 64 word \<Rightarrow> 64 word" where
  "smear k n = n OR drop_bit k n"

definition nextPow2 :: "64 word \<Rightarrow> 64 word" where
  "nextPow2 n = smear 32 (smear 16 (smear 8 (smear 4 (smear 2 (smear 1 (n - 1)))))) + 1"

definition maxPow2LessEqualThan :: "64 word \<Rightarrow> 64 word" where
  "maxPow2LessEqualThan n = (if isPow2 n then n else drop_bit 1 (nextPow2 n))"

section \<open>Smearing fills the bits below the highest one\<close>

lemma bit_smear: "bit (smear k n) i \<longleftrightarrow> bit n i \<or> bit n (i + k)"
  by (simp add: smear_def bit_or_iff bit_drop_bit_eq add.commute)

text \<open>A word smeared over a distance: a bit is set if one of the next bits was.\<close>

definition smeared :: "nat \<Rightarrow> 64 word \<Rightarrow> 64 word \<Rightarrow> bool" where
  "smeared d n m \<longleftrightarrow> (\<forall>i. bit m i \<longleftrightarrow> (\<exists>j<d. bit n (i + j)))"

lemma smeared_start: "smeared 1 n n"
  by (simp add: smeared_def)

lemma smeared_double:
  assumes m: "smeared d n m" and e: "e = d + d"
  shows "smeared e n (smear d m)"
proof -
  have "(\<exists>j<d. bit n (i + j)) \<or> (\<exists>j<d. bit n (i + d + j)) \<longleftrightarrow> (\<exists>j<d + d. bit n (i + j))" for i
  proof
    assume "\<exists>j<d + d. bit n (i + j)"
    then obtain j where j: "j < d + d" "bit n (i + j)" by blast
    show "(\<exists>j<d. bit n (i + j)) \<or> (\<exists>j<d. bit n (i + d + j))"
    proof (cases "j < d")
      case False
      then have "j - d < d" "bit n (i + d + (j - d))" using j by simp_all
      then show ?thesis by blast
    qed (use j in blast)
  next
    assume "(\<exists>j<d. bit n (i + j)) \<or> (\<exists>j<d. bit n (i + d + j))"
    then show "\<exists>j<d + d. bit n (i + j)"
      by (metis add.assoc nat_add_left_cancel_less trans_less_add1)
  qed
  then show ?thesis using m e by (simp add: smeared_def bit_smear)
qed

lemma smeared_all: "smeared 64 n (smear 32 (smear 16 (smear 8 (smear 4 (smear 2 (smear 1 n))))))"
  by (rule smeared_double, rule smeared_double, rule smeared_double, rule smeared_double, rule smeared_double,
      rule smeared_double, rule smeared_start) simp_all

lemma bit_odd_unat: "bit n i \<longleftrightarrow> odd (unat (n :: 64 word) div 2 ^ i)"
  using bit_unsigned_iff [of n i, where 'a = nat] by (simp add: bit_iff_odd [of "unat n"])

lemma top_bit:
  assumes "2 ^ k \<le> unat n" and "unat n < 2 ^ Suc k"
  shows "bit (n :: 64 word) k"
proof -
  have "unat n div 2 ^ k = 1" by (rule div_nat_eqI) (use assms in simp_all)
  then show ?thesis by (simp add: bit_odd_unat)
qed

lemma smeared_mask:
  assumes "smeared 64 n m" and "unat n < 2 ^ k" and "k = 0 \<or> 2 ^ (k - 1) \<le> unat n"
  shows "m = mask k"
proof (rule bit_word_eqI)
  fix i
  assume i: "i < LENGTH(64)"
  have high: "\<not> bit n j" if "k \<le> j" for j
  proof -
    have "unat n < 2 ^ j" using assms(2) that by (meson less_le_trans one_le_numeral power_increasing)
    then show ?thesis by (simp add: bit_odd_unat)
  qed
  show "bit m i \<longleftrightarrow> bit (mask k :: 64 word) i"
  proof (cases "i < k")
    case True
    then have ge: "2 ^ (k - 1) \<le> unat n" using assms(3) by auto
    then have top: "bit n (k - 1)" using assms(2) True by (cases k) (auto intro: top_bit)
    then have "k - 1 < 64" using bit_imp_le_length [of n "k - 1"] by simp
    then have "k - 1 - i < 64" "bit n (i + (k - 1 - i))" using top True by simp_all
    then have "bit m i" using assms(1) unfolding smeared_def by blast
    then show ?thesis using True i by (simp add: bit_mask_iff)
  next
    case False
    then have "\<not> bit m i" using assms(1) high by (simp add: smeared_def)
    then show ?thesis using False by (simp add: bit_mask_iff)
  qed
qed

section \<open>The arithmetic meaning\<close>

lemma width_exists:
  obtains k where "n < 2 ^ k" and "k = 0 \<or> 2 ^ (k - 1) \<le> (n :: nat)"
proof -
  define k where "k = (LEAST k. n < 2 ^ k)"
  have "n < 2 ^ k" unfolding k_def by (rule LeastI [of _ n]) (rule less_exp)
  moreover have "k = 0 \<or> 2 ^ (k - 1) \<le> n"
  proof (rule ccontr)
    assume "\<not> (k = 0 \<or> 2 ^ (k - 1) \<le> n)"
    then have ne: "k \<noteq> 0" and lt: "n < 2 ^ (k - 1)" by simp_all
    from lt have "(LEAST k. n < 2 ^ k) \<le> k - 1" by (rule Least_le [where P = "\<lambda>k. n < 2 ^ k"])
    then show False using ne unfolding k_def [symmetric] by simp
  qed
  ultimately show ?thesis by (rule that)
qed

lemma unat_exp64: "k \<le> 63 \<Longrightarrow> unat (2 ^ k :: 64 word) = 2 ^ k"
proof -
  assume "k \<le> 63"
  then have "(2 :: nat) ^ k < 2 ^ 64" by (intro power_strict_increasing) auto
  then show ?thesis using unat_word_of_nat [of "2 ^ k", where 'a = 64] by simp
qed

lemma word_of_unat: "unat n = m \<Longrightarrow> n = word_of_nat m"
  by auto

lemma unat_pred64: "0 < n \<Longrightarrow> unat (n - 1) = unat n - 1 \<and> 0 < unat (n :: 64 word)"
  by (simp add: unat_minus_one word_gt_0 unat_gt_0)

text \<open>The exponent of the power of two that \<open>nextPow2\<close> gives.\<close>

lemma nextPow2_power:
  assumes "0 < n" and "unat n \<le> 2 ^ 63"
  obtains k where "unat (nextPow2 n) = 2 ^ k" "unat n \<le> 2 ^ k" "k = 0 \<or> 2 ^ (k - 1) < unat n" "k \<le> 63"
proof -
  have n: "unat (n - 1) = unat n - 1" "0 < unat n" using unat_pred64 [OF assms(1)] by simp_all
  obtain k where k: "unat (n - 1) < 2 ^ k" "k = 0 \<or> 2 ^ (k - 1) \<le> unat (n - 1)" by (rule width_exists)
  have le: "k \<le> 63"
  proof (rule ccontr)
    assume "\<not> k \<le> 63"
    then have "(2 :: nat) ^ 63 \<le> 2 ^ (k - 1)" by (intro power_increasing) auto
    then show False using k(2) n assms(2) \<open>\<not> k \<le> 63\<close> by auto
  qed
  have "nextPow2 n = mask k + 1"
    unfolding nextPow2_def smeared_mask [OF smeared_all k] by simp
  also have "\<dots> = 2 ^ k" by (simp add: mask_eq_exp_minus_1)
  finally have "unat (nextPow2 n) = 2 ^ k" using le by (simp add: unat_exp64)
  moreover have "unat n \<le> 2 ^ k" "k = 0 \<or> 2 ^ (k - 1) < unat n" using k n by linarith+
  ultimately show ?thesis using that le by blast
qed

lemma isPow2_power: "isPow2 n \<longleftrightarrow> (\<exists>k. unat n = 2 ^ k)"
proof
  assume p: "isPow2 n"
  then have n: "unat (n - 1) = unat n - 1" "0 < unat n" using unat_pred64 by (auto simp: isPow2_def)
  obtain k where k: "unat n < 2 ^ k" "k = 0 \<or> 2 ^ (k - 1) \<le> unat n" by (rule width_exists)
  then obtain j where j: "k = Suc j" using n(2) by (cases k) auto
  have "unat n = 2 ^ j"
  proof (rule ccontr)
    assume "unat n \<noteq> 2 ^ j"
    then have "bit (n - 1) j" "bit n j" using k j n by (auto intro: top_bit)
    then have "bit ((n - 1) AND n) j" by (simp add: bit_and_iff)
    then show False using p by (simp add: isPow2_def)
  qed
  then show "\<exists>k. unat n = 2 ^ k" by blast
next
  assume "\<exists>k. unat n = 2 ^ k"
  then obtain k where k: "unat n = 2 ^ k" by blast
  then have n: "n = 2 ^ k" using word_of_unat [of n "2 ^ k"] by simp
  have "(mask k :: 64 word) AND 2 ^ k = 0" by (rule bit_word_eqI) (simp add: bit_and_iff bit_mask_iff bit_exp_iff)
  moreover have "n - 1 = mask k" by (simp add: n mask_eq_exp_minus_1)
  moreover have "0 < n" using k by (metis unat_0 power_not_zero word_gt_0 zero_neq_numeral)
  ultimately show "isPow2 n" using n by (simp add: isPow2_def)
qed

text \<open>
  C29: \<^verbatim>\<open>nextPow2\<close> is the smallest power of two that is not below its argument, for every
  argument up to 2^63, although it is computed by shifts; \<^verbatim>\<open>isPow2\<close> recognises it.
\<close>

theorem nextPow2_least:
  assumes "0 < n" and "n \<le> 2 ^ 63"
  shows "unat (nextPow2 n) = 2 ^ (LEAST k. unat n \<le> 2 ^ k) \<and> isPow2 (nextPow2 n) \<and> n \<le> nextPow2 n"
proof -
  have "unat (2 ^ 63 :: 64 word) = 2 ^ 63" by simp
  with assms(2) have "unat n \<le> 2 ^ 63" by (simp only: word_le_nat_alt)
  then obtain k where k: "unat (nextPow2 n) = 2 ^ k" "unat n \<le> 2 ^ k" "k = 0 \<or> 2 ^ (k - 1) < unat n"
    using nextPow2_power [OF assms(1)] by blast
  have "(LEAST k. unat n \<le> 2 ^ k) = k"
  proof (rule Least_equality)
    show "unat n \<le> 2 ^ k" by (fact k(2))
    fix j
    assume j: "unat n \<le> 2 ^ j"
    show "k \<le> j"
    proof (rule ccontr)
      assume "\<not> k \<le> j"
      then have "(2 :: nat) ^ j \<le> 2 ^ (k - 1)" "k \<noteq> 0" by (auto intro: power_increasing)
      then show False using k(3) j by linarith
    qed
  qed
  then show ?thesis using k isPow2_power by (auto simp: word_le_nat_alt)
qed

theorem nextPow2_least_witness: "unat (nextPow2 5) = 8 \<and> isPow2 (nextPow2 5)"
  using nextPow2_least [of 5] by (simp add: nextPow2_def smear_def)

text \<open>
  \<^verbatim>\<open>maxPow2LessEqualThan\<close> is the largest power of two that is not above its argument.
\<close>

theorem maxPow2_greatest:
  assumes "0 < n" and "n \<le> 2 ^ 63"
  shows "\<exists>k. unat (maxPow2LessEqualThan n) = 2 ^ k \<and> 2 ^ k \<le> unat n \<and> unat n < 2 ^ (k + 1)"
proof (cases "isPow2 n")
  case True
  then show ?thesis by (auto simp: maxPow2LessEqualThan_def isPow2_power)
next
  case False
  have "unat (2 ^ 63 :: 64 word) = 2 ^ 63" by simp
  with assms(2) have "unat n \<le> 2 ^ 63" by (simp only: word_le_nat_alt)
  then obtain k where k: "unat (nextPow2 n) = 2 ^ k" "unat n \<le> 2 ^ k" "k = 0 \<or> 2 ^ (k - 1) < unat n"
    using nextPow2_power [OF assms(1)] by blast
  have "unat n \<noteq> 2 ^ k" using False isPow2_power by blast
  moreover have "0 < unat n" using unat_pred64 [OF assms(1)] by simp
  ultimately obtain j where "k = Suc j" "2 ^ j < unat n" "unat n < 2 ^ Suc j" using k by (cases k) auto
  moreover from this have "unat (drop_bit 1 (nextPow2 n)) = 2 ^ j" using k(1) by (simp only: unat_drop_bit_eq) (simp add: drop_bit_eq_div)
  ultimately show ?thesis using False by (auto simp: maxPow2LessEqualThan_def intro!: exI [of _ j])
qed

theorem maxPow2_greatest_witness: "\<exists>k. unat (maxPow2LessEqualThan 5) = 2 ^ k \<and> 2 ^ k \<le> (5 :: nat) \<and> 5 < (2 :: nat) ^ (k + 1)"
  using maxPow2_greatest [of 5] by simp

end
