(* ===== verification/Ring_Buffer.thy ===== *)
theory Ring_Buffer
  imports Pow2
begin

text \<open>
  The ring buffer in shared memory (\<^verbatim>\<open>tensorpipe/common/ringbuffer.h\<close>) and the roles through
  which processes use it (\<^verbatim>\<open>tensorpipe/common/ringbuffer_role.h\<close>). Markers are 64-bit words
  that only ever grow and wrap around; the size of a transaction is an \<^verbatim>\<open>unsigned\<close>. Every
  function is one atomic step of one role.
\<close>

section \<open>The buffer\<close>

type_synonym byte = "8 word"

record ring =
  kDataPoolByteSize :: "64 word"
  kDataModMask :: "64 word"
  header_inTx :: "bool list"
  markers :: "64 word list"
  ring_data :: "byte list"

definition RingBufferHeader :: "nat \<Rightarrow> 64 word \<Rightarrow> byte list \<Rightarrow> ring result" where
  "RingBufferHeader numRoles minDataByteSize contents =
     (let len = nextPow2 minDataByteSize in
      dcheck (len \<ge> 2) (dcheck (isPow2 len) (dcheck (len \<le> 0x7FFFFFFF)
        (Inr \<lparr>kDataPoolByteSize = len, kDataModMask = len - 1, header_inTx = replicate numRoles False,
          markers = replicate numRoles 0, ring_data = contents\<rparr>))))"

definition beginTransaction :: "nat \<Rightarrow> ring \<Rightarrow> bool \<times> ring" where
  "beginTransaction roleIdx r = (header_inTx r ! roleIdx, r\<lparr>header_inTx := (header_inTx r)[roleIdx := True]\<rparr>)"

definition endTransaction :: "nat \<Rightarrow> ring \<Rightarrow> ring" where
  "endTransaction roleIdx r = r\<lparr>header_inTx := (header_inTx r)[roleIdx := False]\<rparr>"

definition readMarker :: "nat \<Rightarrow> ring \<Rightarrow> 64 word" where
  "readMarker roleIdx r = markers r ! roleIdx"

definition incMarker :: "nat \<Rightarrow> 64 word \<Rightarrow> ring \<Rightarrow> ring" where
  "incMarker roleIdx inc r = r\<lparr>markers := (markers r)[roleIdx := markers r ! roleIdx + inc]\<rparr>"

section \<open>Roles\<close>

record role =
  inTx :: bool
  txSize :: "32 word"

definition RingBufferRole :: role where
  "RingBufferRole = \<lparr>inTx = False, txSize = 0\<rparr>"

text \<open>The error numbers that are returned, negated, in place of a size.\<close>

datatype rb_errno = EBUSY | EAGAIN | EINVAL | ENODATA

type_synonym 'a rb_ret = "((rb_errno + 'a) \<times> role \<times> ring) result"

definition startTx :: "nat \<Rightarrow> role \<Rightarrow> ring \<Rightarrow> unit rb_ret" where
  "startTx roleIdx ro r =
     (if inTx ro then Inr (Inl EBUSY, ro, r)
      else let (taken, r1) = beginTransaction roleIdx r in
        if taken then Inr (Inl EAGAIN, ro, r1)
        else dcheck (txSize ro = 0) (Inr (Inr (), ro\<lparr>inTx := True\<rparr>, r1)))"

definition commitTx :: "nat \<Rightarrow> role \<Rightarrow> ring \<Rightarrow> unit rb_ret" where
  "commitTx roleIdx ro r =
     (if \<not> inTx ro then Inr (Inl EINVAL, ro, r)
      else Inr (Inr (), ro\<lparr>txSize := 0, inTx := False\<rparr>,
        endTransaction roleIdx (incMarker roleIdx (ucast (txSize ro)) r)))"

definition cancelTx :: "nat \<Rightarrow> role \<Rightarrow> ring \<Rightarrow> unit rb_ret" where
  "cancelTx roleIdx ro r =
     (if \<not> inTx ro then Inr (Inl EINVAL, ro, r)
      else Inr (Inr (), ro\<lparr>txSize := 0, inTx := False\<rparr>, endTransaction roleIdx r))"

text \<open>
  The returned array of at most two contiguous areas, as pairs of an offset into the data and
  a length.
\<close>

definition accessContiguousInTx ::
  "bool \<Rightarrow> nat \<Rightarrow> 64 word \<Rightarrow> role \<Rightarrow> ring \<Rightarrow> ((rb_errno + (64 word \<times> 64 word) list) \<times> role) result" where
  "accessContiguousInTx allowPartial roleIdx len ro r =
     (if \<not> inTx ro then Inr (Inl EINVAL, ro)
      else if len = 0 then Inr (Inr [], ro)
      else
        let numRoles = length (markers r);
            tail = readMarker roleIdx r;
            head = readMarker ((roleIdx + 1) mod numRoles) r + (if roleIdx + 1 = numRoles then kDataPoolByteSize r else 0)
        in dcheck (head - tail \<le> kDataPoolByteSize r)
          (let avail = head - tail - ucast (txSize ro) in
           if \<not> allowPartial \<and> avail < len then Inr (Inl ENODATA, ro)
           else if avail = 0 then Inr (Inr [], ro)
           else
             let len = min len avail;
                 start = (tail + ucast (txSize ro)) AND kDataModMask r;
                 stop = (start + len) AND kDataModMask r;
                 ro' = ro\<lparr>txSize := ucast (ucast (txSize ro) + len)\<rparr>;
                 wrap = (start \<ge> stop \<and> stop > 0)
             in if \<not> wrap then Inr (Inr [(start, len)], ro')
                else Inr (Inr [(start, kDataPoolByteSize r - start), (0, stop)], ro')))"

definition incMarkerInTx :: "nat \<Rightarrow> 64 word \<Rightarrow> role \<Rightarrow> ring \<Rightarrow> nat rb_ret" where
  "incMarkerInTx roleIdx len ro r =
     bindR (accessContiguousInTx False roleIdx len ro r) (\<lambda>(ret, ro').
       Inr (map_sum id length ret, ro', r))"

text \<open>\<^verbatim>\<open>memcpy\<close> out of the data and into it; an area that does not lie in the data is a fault.\<close>

definition copy_out :: "64 word \<times> 64 word \<Rightarrow> byte list \<Rightarrow> byte list result" where
  "copy_out area bytes =
     (let ptr = unat (fst area); n = unat (snd area)
      in if ptr + n \<le> length bytes then Inr (take n (drop ptr bytes)) else Inl OutOfRange)"

definition copy_in :: "64 word \<times> 64 word \<Rightarrow> byte list \<Rightarrow> byte list \<Rightarrow> byte list result" where
  "copy_in area src bytes =
     (let ptr = unat (fst area); n = unat (snd area)
      in if ptr + n \<le> length bytes \<and> n \<le> length src
         then Inr (take ptr bytes @ take n src @ drop (ptr + n) bytes) else Inl OutOfRange)"

text \<open>The result is what was copied into the caller's buffer; its length is what the code returns.\<close>

definition readInTx :: "bool \<Rightarrow> nat \<Rightarrow> 64 word \<Rightarrow> role \<Rightarrow> ring \<Rightarrow> byte list rb_ret" where
  "readInTx allowPartial roleIdx len ro r =
     bindR (accessContiguousInTx allowPartial roleIdx len ro r) (\<lambda>(ret, ro').
       case ret of
         Inl e \<Rightarrow> Inr (Inl e, ro', r)
       | Inr [] \<Rightarrow> Inr (Inr [], ro', r)
       | Inr [b0] \<Rightarrow> bindR (copy_out b0 (ring_data r)) (\<lambda>xs. Inr (Inr xs, ro', r))
       | Inr [b0, b1] \<Rightarrow>
           bindR (copy_out b0 (ring_data r)) (\<lambda>xs.
             bindR (copy_out b1 (ring_data r)) (\<lambda>ys. Inr (Inr (xs @ ys), ro', r)))
       | Inr _ \<Rightarrow> Inl AssertFailed)"

definition writeInTx :: "bool \<Rightarrow> nat \<Rightarrow> byte list \<Rightarrow> 64 word \<Rightarrow> role \<Rightarrow> ring \<Rightarrow> 64 word rb_ret" where
  "writeInTx allowPartial roleIdx src len ro r =
     bindR (accessContiguousInTx allowPartial roleIdx len ro r) (\<lambda>(ret, ro').
       case ret of
         Inl e \<Rightarrow> Inr (Inl e, ro', r)
       | Inr [] \<Rightarrow> Inr (Inr 0, ro', r)
       | Inr [b0] \<Rightarrow> bindR (copy_in b0 src (ring_data r)) (\<lambda>d. Inr (Inr (snd b0), ro', r\<lparr>ring_data := d\<rparr>))
       | Inr [b0, b1] \<Rightarrow>
           bindR (copy_in b0 src (ring_data r)) (\<lambda>d.
             bindR (copy_in b1 (drop (unat (snd b0)) src) d) (\<lambda>d'.
               Inr (Inr (snd b0 + snd b1), ro', r\<lparr>ring_data := d'\<rparr>)))
       | Inr _ \<Rightarrow> Inl AssertFailed)"

text \<open>The operations that open and close a transaction themselves.\<close>

definition role_read :: "nat \<Rightarrow> 64 word \<Rightarrow> role \<Rightarrow> ring \<Rightarrow> byte list rb_ret" where
  "role_read roleIdx len ro r =
     bindR (startTx roleIdx ro r) (\<lambda>(ret, ro1, r1).
       case ret of
         Inl e \<Rightarrow> Inr (Inl e, ro1, r1)
       | Inr _ \<Rightarrow>
           bindR (readInTx False roleIdx len ro1 r1) (\<lambda>(ret, ro2, r2).
             case ret of
               Inl e \<Rightarrow> bindR (cancelTx roleIdx ro2 r2) (\<lambda>(ret', ro3, r3). dcheck (ret' = Inr ()) (Inr (Inl e, ro3, r3)))
             | Inr xs \<Rightarrow>
                 dcheck (length xs = unat len)
                   (bindR (commitTx roleIdx ro2 r2) (\<lambda>(ret', ro3, r3). dcheck (ret' = Inr ()) (Inr (Inr xs, ro3, r3))))))"

definition role_write :: "nat \<Rightarrow> byte list \<Rightarrow> 64 word \<Rightarrow> role \<Rightarrow> ring \<Rightarrow> 64 word rb_ret" where
  "role_write roleIdx src len ro r =
     bindR (startTx roleIdx ro r) (\<lambda>(ret, ro1, r1).
       case ret of
         Inl e \<Rightarrow> Inr (Inl e, ro1, r1)
       | Inr _ \<Rightarrow>
           bindR (writeInTx False roleIdx src len ro1 r1) (\<lambda>(ret, ro2, r2).
             case ret of
               Inl e \<Rightarrow> bindR (cancelTx roleIdx ro2 r2) (\<lambda>(ret', ro3, r3). dcheck (ret' = Inr ()) (Inr (Inl e, ro3, r3)))
             | Inr n \<Rightarrow>
                 dcheck (n = len)
                   (bindR (commitTx roleIdx ro2 r2) (\<lambda>(ret', ro3, r3). dcheck (ret' = Inr ()) (Inr (Inr len, ro3, r3))))))"

end
