(* ===== verification/Ring_Regions.thy ===== *)
theory Ring_Regions
  imports Ring_Buffer
begin

text \<open>
  What a ring buffer promises. The bytes of the buffer are divided into regions, one for each
  role, in the order of the roles: role 0 owns the bytes from its marker to that of role 1, and
  so on, and the last role owns the bytes that are free. A transaction works on the front of
  the region of its role; committing it hands that front over to the previous role. The words,
  masks and markers of the code implement this; no two roles ever touch the same byte.
\<close>

section \<open>The regions of a ring\<close>

definition dist :: "ring \<Rightarrow> nat \<Rightarrow> nat" where
  "dist r i = unat (markers r ! (Suc i mod length (markers r)) +
     (if Suc i = length (markers r) then kDataPoolByteSize r else 0) - markers r ! i)"

definition dists :: "ring \<Rightarrow> nat list" where
  "dists r = map (dist r) [0..<length (markers r)]"

definition pool_ok :: "ring \<Rightarrow> bool" where
  "pool_ok r \<longleftrightarrow> (\<exists>k \<in> {1..30}. unat (kDataPoolByteSize r) = 2 ^ k) \<and> kDataModMask r = kDataPoolByteSize r - 1 \<and>
     length (ring_data r) = unat (kDataPoolByteSize r)"

definition ring_rel :: "ring \<Rightarrow> byte list list \<Rightarrow> bool" where
  "ring_rel r regs \<longleftrightarrow> pool_ok r \<and> length (header_inTx r) = length regs \<and> length (markers r) = length regs \<and>
     2 \<le> length regs \<and> map length regs = dists r \<and> concat regs = rotate (unat (markers r ! 0)) (ring_data r)"

lemma ring_relD:
  assumes "ring_rel r regs"
  shows "pool_ok r" "length (header_inTx r) = length regs" "length (markers r) = length regs" "2 \<le> length regs"
    "map length regs = dists r" "concat regs = rotate (unat (markers r ! 0)) (ring_data r)"
    "length (concat regs) = length (ring_data r)"
    "i < length regs \<Longrightarrow> length (regs ! i) = dist r i"
proof -
  show rel: "pool_ok r" "length (header_inTx r) = length regs" "length (markers r) = length regs" "2 \<le> length regs"
    "map length regs = dists r" "concat regs = rotate (unat (markers r ! 0)) (ring_data r)"
    using assms by (simp_all add: ring_rel_def)
  show "length (concat regs) = length (ring_data r)" by (simp add: rel(6))
  show "length (regs ! i) = dist r i" if "i < length regs"
    using arg_cong [OF rel(5), of "\<lambda>xs. xs ! i"] that rel(3) by (simp add: dists_def)
qed

lemma pool_okD:
  assumes "pool_ok r"
  shows "\<exists>k \<le> 30. unat (kDataPoolByteSize r) = 2 ^ k \<and> kDataModMask r = mask k" "length (ring_data r) = unat (kDataPoolByteSize r)"
    "1 < length (ring_data r)" "length (ring_data r) \<le> 2 ^ 30"
proof -
  obtain k where k: "1 \<le> k" "k \<le> 30" "unat (kDataPoolByteSize r) = 2 ^ k" "kDataModMask r = kDataPoolByteSize r - 1"
    using assms by (auto simp: pool_ok_def)
  have "kDataPoolByteSize r = 2 ^ k" using word_of_unat [OF k(3)] by simp
  then have "kDataModMask r = mask k" using k(4) by (simp add: mask_eq_exp_minus_1)
  then show "\<exists>k \<le> 30. unat (kDataPoolByteSize r) = 2 ^ k \<and> kDataModMask r = mask k" using k by blast
  show len: "length (ring_data r) = unat (kDataPoolByteSize r)" using assms by (simp add: pool_ok_def)
  show "1 < length (ring_data r)" unfolding len k(3) using k(1) by (metis one_less_numeral_iff one_less_power semiring_norm(76) not_one_le_zero neq0_conv)
  show "length (ring_data r) \<le> 2 ^ 30" unfolding len k(3) using k(2) by (intro power_increasing) auto
qed

lemma unat_and_mask:
  assumes "pool_ok r"
  shows "unat (x AND kDataModMask r) = unat x mod length (ring_data r)"
proof -
  obtain k where "length (ring_data r) = 2 ^ k" "kDataModMask r = mask k" using pool_okD(1,2) [OF assms] by auto
  then show ?thesis by (simp only: take_bit_eq_mask [symmetric] unsigned_take_bit_eq) (simp only: take_bit_eq_mod)
qed

lemma mod_pool_word:
  assumes "pool_ok r"
  shows "unat (x + of_nat n :: 64 word) mod length (ring_data r) = (unat x + n) mod length (ring_data r)"
proof -
  obtain k where k: "k \<le> 30" "length (ring_data r) = 2 ^ k" using pool_okD(1,2) [OF assms] by auto
  have d: "(2 :: nat) ^ k dvd 2 ^ 64" using k(1) by (intro le_imp_power_dvd) auto
  have "unat (x + of_nat n) = (unat x + n mod 2 ^ 64) mod 2 ^ 64"
    by (simp add: unat_word_ariths(1) unat_of_nat take_bit_eq_mod)
  then show ?thesis using d by (simp add: k(2) mod_mod_cancel mod_add_right_eq)
qed

text \<open>Where the region of a role starts.\<close>

lemma marker_offset:
  assumes "ring_rel r regs"
  shows "i < length regs \<Longrightarrow> markers r ! i = markers r ! 0 + of_nat (length (concat (take i regs)))"
proof (induction i)
  case (Suc i)
  have len: "length (regs ! i) = dist r i" using ring_relD(8) [OF assms] Suc.prems by simp
  have "Suc i < length (markers r)" using Suc.prems ring_relD(3) [OF assms] by simp
  then have "of_nat (dist r i) = markers r ! Suc i - markers r ! i" by (simp add: dist_def)
  then have "markers r ! Suc i = markers r ! i + of_nat (length (regs ! i))" by (simp add: len)
  moreover have "take (Suc i) regs = take i regs @ [regs ! i]" using Suc.prems by (simp add: take_Suc_conv_app_nth)
  ultimately show ?case using Suc by (simp add: algebra_simps)
qed simp

lemma concat_split: "i < length regs \<Longrightarrow> concat regs = concat (take i regs) @ regs ! i @ concat (drop (Suc i) regs)"
  by (metis append_assoc concat.simps(2) concat_append id_take_nth_drop)

lemma rotate_region:
  assumes i: "i < length regs" and k: "k \<le> length (regs ! i)"
  shows "rotate (length (concat (take i regs)) + k) (concat regs) =
    drop k (regs ! i) @ concat (drop (Suc i) regs) @ concat (take i regs) @ take k (regs ! i)"
proof -
  let ?o = "length (concat (take i regs))"
  have "rotate (?o + k) (concat regs) = rotate k (rotate ?o (concat (take i regs) @ (regs ! i @ concat (drop (Suc i) regs))))"
    by (subst concat_split [OF i]) (simp add: rotate_rotate add.commute)
  also have "\<dots> = rotate k ((regs ! i @ concat (drop (Suc i) regs)) @ concat (take i regs))"
    by (simp only: rotate_append)
  also have "\<dots> = rotate (length (take k (regs ! i)))
      (take k (regs ! i) @ (drop k (regs ! i) @ concat (drop (Suc i) regs) @ concat (take i regs)))"
    using k by (simp flip: append_assoc)
  also have "\<dots> = (drop k (regs ! i) @ concat (drop (Suc i) regs) @ concat (take i regs)) @ take k (regs ! i)"
    by (simp only: rotate_append)
  finally show ?thesis by simp
qed

text \<open>A position in the data, as a number of steps from the first region on.\<close>

lemma rotate_position:
  assumes rel: "ring_rel r regs" and i: "i < length regs" and len: "length xs = length (ring_data r)"
  shows "rotate (unat (markers r ! i + of_nat k) mod length (ring_data r)) xs =
    rotate (length (concat (take i regs)) + k) (rotate (unat (markers r ! 0)) xs)"
proof -
  let ?S = "length (ring_data r)" and ?o = "length (concat (take i regs))"
  have "unat (markers r ! i + of_nat k) mod ?S = (unat (markers r ! 0) + (?o + k)) mod ?S"
    using mod_pool_word [OF ring_relD(1) [OF rel], of "markers r ! 0" "?o + k"] marker_offset [OF rel i] by (simp add: algebra_simps)
  then show ?thesis by (simp add: rotate_rotate rotate_conv_mod [symmetric] add.commute len [symmetric])
qed

lemma region_front:
  assumes rel: "ring_rel r regs" and i: "i < length regs" and k: "k \<le> length (regs ! i)"
  shows "rotate (unat (markers r ! i + of_nat k) mod length (ring_data r)) (ring_data r) =
    drop k (regs ! i) @ concat (drop (Suc i) regs) @ concat (take i regs) @ take k (regs ! i)"
  unfolding rotate_position [OF rel i refl] ring_relD(6) [OF rel, symmetric] by (rule rotate_region [OF i k])

lemma rotate_cancel:
  assumes "rotate n xs = rotate n ys"
  shows "xs = ys"
proof -
  have len: "length xs = length ys" using arg_cong [OF assms, of length] by simp
  show ?thesis
  proof (cases "length xs = 0")
    case False
    let ?k = "n * (length xs - 1)"
    have k: "?k + n = n * length xs" using False by (cases "length xs") simp_all
    have "rotate ?k (rotate n xs) = rotate ?k (rotate n ys)" using assms by simp
    then have "rotate (n * length xs) xs = rotate (n * length xs) ys" unfolding rotate_rotate k .
    then show ?thesis using len by (simp add: rotate_id)
  qed (use len in simp)
qed

section \<open>Areas\<close>

text \<open>The areas that are returned for a number of bytes from a position on.\<close>

definition areas :: "nat \<Rightarrow> nat \<Rightarrow> nat \<Rightarrow> (64 word \<times> 64 word) list" where
  "areas S s m = (if m = 0 then [] else if s + m \<le> S then [(of_nat s, of_nat m)]
     else [(of_nat s, of_nat (S - s)), (0, of_nat (s + m - S))])"

lemma access_areas:
  assumes rel: "ring_rel r regs" and i: "i < length regs" and tx: "inTx ro" "unat (txSize ro) = k" "k \<le> length (regs ! i)"
  defines "avail \<equiv> length (regs ! i) - k"
  shows "accessContiguousInTx p i n ro r =
    (if \<not> p \<and> avail < unat n then Inr (Inl ENODATA, ro)
     else Inr (Inr (areas (length (ring_data r)) (unat (markers r ! i + of_nat k) mod length (ring_data r)) (min (unat n) avail)),
       ro\<lparr>txSize := of_nat (k + min (unat n) avail)\<rparr>))"
proof -
  let ?S = "length (ring_data r)" and ?N = "length (markers r)"
  define tail where "tail = markers r ! i"
  define head where "head = markers r ! (Suc i mod ?N) + (if Suc i = ?N then kDataPoolByteSize r else 0)"
  define s where "s = unat (tail + of_nat k) mod ?S"
  note pool = pool_okD [OF ring_relD(1) [OF rel]]
  have d: "unat (head - tail) = length (regs ! i)" using ring_relD(8) [OF rel i] by (simp add: dist_def head_def tail_def)
  have le: "length (regs ! i) \<le> ?S" using concat_split [OF i] ring_relD(7) [OF rel] by (metis le_add1 le_add2 le_trans length_append)
  have tx64: "ucast (txSize ro) = (of_nat k :: 64 word)" using tx(2) by (metis of_nat_unat)
  have k64: "unat (of_nat k :: 64 word) = k" by (rule unat_word_of_nat) (use tx(3) le pool(4) in simp)
  have av: "unat (head - tail - of_nat k) = avail"
    using d k64 tx(3) by (subst unat_sub) (simp_all add: word_le_nat_alt avail_def)
  have small: "avail \<le> ?S" "s < ?S" "?S \<le> 2 ^ 30" using le pool(3,4) by (auto simp: avail_def s_def intro!: mod_less_divisor)
  have start: "unat ((tail + of_nat k) AND kDataModMask r) = s"
    unfolding s_def by (rule unat_and_mask [OF ring_relD(1) [OF rel]])
  define m where "m = min (unat n) avail"
  have m: "unat (min n (head - tail - of_nat k)) = m"
    unfolding m_def av [symmetric] by (simp add: min_def word_le_nat_alt)
  have ms: "m \<le> avail" by (simp add: m_def)
  have m64: "min n (head - tail - of_nat k) = of_nat m" using word_of_unat [OF m] .
  have s64: "(tail + of_nat k) AND kDataModMask r = of_nat s" using word_of_unat [OF start] .
  have stop: "unat ((of_nat s + of_nat m) AND kDataModMask r :: 64 word) = (s + m) mod ?S"
    using unat_and_mask [OF ring_relD(1) [OF rel], of "of_nat s + of_nat m"]
      unat_word_of_nat [of "s + m", where 'a = 64] small ms by (simp flip: of_nat_add)
  have "unat (of_nat (k + m) :: 64 word) = k + m" by (rule unat_word_of_nat) (use small ms tx(3) le in simp)
  then have txn: "ucast (of_nat k + of_nat m :: 64 word) = (of_nat (k + m) :: 32 word)"
    by (metis of_nat_add of_nat_unat)
  have areas: "(let stop = (of_nat s + of_nat m) AND kDataModMask r in
      if \<not> (stop \<le> of_nat s \<and> 0 < stop) then [(of_nat s, of_nat m)]
      else [(of_nat s, kDataPoolByteSize r - of_nat s), (0, stop)]) = areas ?S s m" if "0 < m"
  proof -
    have us: "unat (of_nat s :: 64 word) = s" by (rule unat_word_of_nat) (use small in simp)
    have "unat (kDataPoolByteSize r - of_nat s) = ?S - s"
      using us small pool(2) by (subst unat_sub) (simp_all add: word_le_nat_alt)
    then have rest: "kDataPoolByteSize r - of_nat s = of_nat (?S - s)" by (rule word_of_unat)
    have "(s + m) mod ?S = (if s + m < ?S then s + m else s + m - ?S)" using small ms by (simp add: mod_if)
    then show ?thesis
      using that small ms us stop word_of_unat [OF stop] rest
      by (auto simp: areas_def Let_def word_le_nat_alt word_less_nat_alt split: if_splits)
  qed
  have same: "ro\<lparr>txSize := of_nat k\<rparr> = ro" using word_of_unat [OF tx(2)] by simp
  show ?thesis
  proof (cases "n = 0")
    case True
    then show ?thesis using tx(1) same by (simp add: accessContiguousInTx_def areas_def)
  next
    case False
    have dc: "head - tail \<le> kDataPoolByteSize r" using d le pool(2) by (simp add: word_le_nat_alt)
    have lt: "head - tail - of_nat k < n \<longleftrightarrow> avail < unat n" by (simp add: word_less_nat_alt av)
    have zero: "head - tail - of_nat k = 0 \<longleftrightarrow> avail = 0" using av by (metis unat_0 unat_0_iff)
    have pos: "0 < m \<longleftrightarrow> avail \<noteq> 0" using False by (simp add: m_def unat_gt_0)
    show ?thesis
      using False tx(1) dc lt zero pos same areas
      by (auto simp: accessContiguousInTx_def readMarker_def Let_def tail_def [symmetric] head_def [symmetric] tx64 m64 s64 txn
          s_def [symmetric] m_def [symmetric] areas_def)
  qed
qed

lemma areas_read:
  assumes "s < length bytes" and "m \<le> length bytes" and "length bytes \<le> 2 ^ 30"
  shows "areas (length bytes) s m = [] \<Longrightarrow> take m (rotate s bytes) = []"
    and "areas (length bytes) s m = [b0] \<Longrightarrow> copy_out b0 bytes = Inr (take m (rotate s bytes))"
    and "areas (length bytes) s m = [b0, b1] \<Longrightarrow>
      \<exists>xs ys. copy_out b0 bytes = Inr xs \<and> copy_out b1 bytes = Inr ys \<and> xs @ ys = take m (rotate s bytes)"
  using assms unat_word_of_nat [of "length bytes - s", where 'a = 64] unat_word_of_nat [of "s + m - length bytes", where 'a = 64]
    unat_word_of_nat [of s, where 'a = 64] unat_word_of_nat [of m, where 'a = 64]
  by (auto simp: areas_def copy_out_def rotate_drop_take Let_def add.commute [of m s] simp del: of_nat_diff of_nat_add split: if_splits)

lemma areas_write:
  assumes s: "s < length bytes" "m \<le> length bytes" "length bytes \<le> 2 ^ 30" and src: "m \<le> length src"
  shows "areas (length bytes) s m = [] \<Longrightarrow> m = 0"
    and "areas (length bytes) s m = [b0] \<Longrightarrow>
      \<exists>d. copy_in b0 src bytes = Inr d \<and> snd b0 = of_nat m \<and> length d = length bytes \<and>
        rotate s d = take m src @ drop m (rotate s bytes)"
    and "areas (length bytes) s m = [b0, b1] \<Longrightarrow>
      \<exists>d d'. copy_in b0 src bytes = Inr d \<and> copy_in b1 (drop (unat (snd b0)) src) d = Inr d' \<and> snd b0 + snd b1 = of_nat m \<and>
        length d' = length bytes \<and> rotate s d' = take m src @ drop m (rotate s bytes)"
proof -
  let ?S = "length bytes"
  note u = unat_word_of_nat [where 'a = 64]
  have us: "unat (of_nat s :: 64 word) = s" "unat (of_nat m :: 64 word) = m" "unat (of_nat (?S - s) :: 64 word) = ?S - s"
    "unat (of_nat (s + m - ?S) :: 64 word) = s + m - ?S"
    using s by - (rule u, simp)+
  show "areas ?S s m = [] \<Longrightarrow> m = 0" by (simp add: areas_def split: if_splits)
  show "\<exists>d. copy_in b0 src bytes = Inr d \<and> snd b0 = of_nat m \<and> length d = ?S \<and> rotate s d = take m src @ drop m (rotate s bytes)"
    if "areas ?S s m = [b0]"
    using that s src us by (auto simp: areas_def copy_in_def rotate_drop_take add.commute [of m s] split: if_splits)
  show "\<exists>d d'. copy_in b0 src bytes = Inr d \<and> copy_in b1 (drop (unat (snd b0)) src) d = Inr d' \<and> snd b0 + snd b1 = of_nat m \<and>
        length d' = ?S \<and> rotate s d' = take m src @ drop m (rotate s bytes)"
    if "areas ?S s m = [b0, b1]"
  proof -
    let ?e = "s + m - ?S"
    have b: "b0 = (of_nat s, of_nat (?S - s))" "b1 = (0, of_nat ?e)" "?S < s + m" using that by (auto simp: areas_def split: if_splits)
    have e: "?e \<le> s" "?e \<le> ?S" "?S - s + ?e = m" using b s by auto
    let ?d = "take s bytes @ take (?S - s) src"
    have d: "copy_in b0 src bytes = Inr ?d" "length ?d = ?S" using b s src us by (auto simp: copy_in_def Let_def)
    let ?d' = "take ?e (drop (?S - s) src) @ drop ?e ?d"
    have d': "copy_in b1 (drop (unat (snd b0)) src) ?d = Inr ?d'" "length ?d' = ?S"
      using b s src us e d(2) by (auto simp: copy_in_def Let_def)
    have "rotate s ?d' = drop s ?d' @ take s ?d'" using d'(2) s by (simp add: rotate_drop_take)
    also have "drop s ?d' = take (?S - s) src" using e s src by simp
    also have "take s ?d' = take ?e (drop (?S - s) src) @ drop ?e (take s bytes)" using e s src by simp
    also have "take (?S - s) src @ take ?e (drop (?S - s) src) @ drop ?e (take s bytes) = take m src @ drop ?e (take s bytes)"
      using e(3) by (metis append_assoc take_add)
    also have "drop ?e (take s bytes) = drop m (rotate s bytes)" using e s b by (simp add: rotate_drop_take add.commute [of m s])
    finally have "rotate s ?d' = take m src @ drop m (rotate s bytes)" .
    moreover have "snd b0 + snd b1 = of_nat m" unfolding b(1,2) snd_conv of_nat_add [symmetric] e(3) ..
    ultimately show ?thesis using d d' by blast
  qed
qed

section \<open>Reading and writing in a transaction\<close>

lemma areas_cases:
  obtains "areas S s m = []" | b0 where "areas S s m = [b0]" | b0 b1 where "areas S s m = [b0, b1]"
  unfolding areas_def by (cases "m = 0"; cases "s + m \<le> S") auto

lemma region_le: "ring_rel r regs \<Longrightarrow> i < length regs \<Longrightarrow> length (regs ! i) \<le> length (ring_data r)"
  using concat_split [of i regs] ring_relD(7) [of r regs] by (metis le_add1 le_add2 le_trans length_append)

lemma area_bounds:
  assumes rel: "ring_rel r regs" and i: "i < length regs"
  shows "x mod length (ring_data r) < length (ring_data r)" "min n (length (regs ! i) - k) \<le> length (ring_data r)"
    "length (ring_data r) \<le> 2 ^ 30"
  using pool_okD(3,4) [OF ring_relD(1) [OF rel]] region_le [OF rel i] by (auto intro!: mod_less_divisor)

lemma readInTx_regions:
  fixes n :: "64 word"
  assumes rel: "ring_rel r regs" and i: "i < length regs" and tx: "inTx ro" "unat (txSize ro) = k" "k \<le> length (regs ! i)"
  defines "avail \<equiv> length (regs ! i) - k"
  defines "m \<equiv> min (unat n) avail"
  shows "readInTx p i n ro r =
    (if \<not> p \<and> avail < unat n then Inr (Inl ENODATA, ro, r)
     else Inr (Inr (take m (drop k (regs ! i))), ro\<lparr>txSize := of_nat (k + m)\<rparr>, r))"
proof -
  let ?s = "unat (markers r ! i + of_nat k) mod length (ring_data r)"
  have s: "?s < length (ring_data r)" "m \<le> length (ring_data r)" "length (ring_data r) \<le> 2 ^ 30"
    unfolding m_def avail_def by (rule area_bounds [OF rel i])+
  have t: "take m (rotate ?s (ring_data r)) = take m (drop k (regs ! i))"
    unfolding region_front [OF rel i tx(3)] using tx(3) by (simp add: m_def avail_def)
  note access = access_areas [where p = p and n = n, OF rel i tx, folded avail_def, folded m_def]
  consider "areas (length (ring_data r)) ?s m = []" | b0 where "areas (length (ring_data r)) ?s m = [b0]"
    | b0 b1 where "areas (length (ring_data r)) ?s m = [b0, b1]"
    by (rule areas_cases)
  then show ?thesis
  proof cases
    case 1
    then show ?thesis unfolding readInTx_def access using areas_read(1) [OF s 1] by (simp add: t)
  next
    case (2 b0)
    then show ?thesis unfolding readInTx_def access using areas_read(2) [OF s 2] by (simp add: t)
  next
    case (3 b0 b1)
    then show ?thesis unfolding readInTx_def access using areas_read(3) [OF s 3] by (auto simp: t)
  qed
qed

definition overwrite :: "nat \<Rightarrow> 'a list \<Rightarrow> 'a list \<Rightarrow> 'a list" where
  "overwrite k src xs = take k xs @ src @ drop (k + length src) xs"

lemma length_overwrite [simp]: "k + length src \<le> length xs \<Longrightarrow> length (overwrite k src xs) = length xs"
  by (simp add: overwrite_def)

lemma ring_rel_write:
  assumes rel: "ring_rel r regs" and i: "i < length regs" and k: "k + length src \<le> length (regs ! i)"
    and d: "length d = length (ring_data r)"
      "rotate (unat (markers r ! i + of_nat k) mod length (ring_data r)) d =
       src @ drop (length src) (rotate (unat (markers r ! i + of_nat k) mod length (ring_data r)) (ring_data r))"
  shows "ring_rel (r\<lparr>ring_data := d\<rparr>) (regs[i := overwrite k src (regs ! i)])"
proof -
  let ?regs = "regs[i := overwrite k src (regs ! i)]" and ?o = "length (concat (take i regs))"
  have "rotate (?o + k) (rotate (unat (markers r ! 0)) d) =
      src @ drop (length src) (drop k (regs ! i) @ concat (drop (Suc i) regs) @ concat (take i regs) @ take k (regs ! i))"
    using d(2) rotate_position [OF rel i d(1)] region_front [OF rel i] k by simp
  also have "\<dots> = drop k (?regs ! i) @ concat (drop (Suc i) ?regs) @ concat (take i ?regs) @ take k (?regs ! i)"
    using i k by (simp add: overwrite_def add.commute)
  also have "\<dots> = rotate (?o + k) (concat ?regs)"
    using rotate_region [of i ?regs k] i k by simp
  finally have "concat ?regs = rotate (unat (markers r ! 0)) d" using rotate_cancel by metis
  moreover have "map length ?regs = map length regs" using k by (simp add: map_update list_update_same_conv [THEN iffD2] i)
  moreover have "dists (r\<lparr>ring_data := d\<rparr>) = dists r" by (simp add: dists_def dist_def)
  ultimately show ?thesis using rel d(1) by (simp add: ring_rel_def pool_ok_def)
qed

lemma writeInTx_regions:
  assumes rel: "ring_rel r regs" and i: "i < length regs" and tx: "inTx ro" "unat (txSize ro) = k" "k \<le> length (regs ! i)"
    and n: "unat n \<le> length src"
  defines "avail \<equiv> length (regs ! i) - k"
  defines "m \<equiv> min (unat n) avail"
  shows "\<not> p \<and> avail < unat n \<Longrightarrow> writeInTx p i src n ro r = Inr (Inl ENODATA, ro, r)"
    and "\<not> (\<not> p \<and> avail < unat n) \<Longrightarrow>
      \<exists>d. writeInTx p i src n ro r = Inr (Inr (of_nat m), ro\<lparr>txSize := of_nat (k + m)\<rparr>, r\<lparr>ring_data := d\<rparr>) \<and>
        ring_rel (r\<lparr>ring_data := d\<rparr>) (regs[i := overwrite k (take m src) (regs ! i)])"
proof -
  let ?s = "unat (markers r ! i + of_nat k) mod length (ring_data r)"
  note access = access_areas [where p = p and n = n, OF rel i tx, folded avail_def, folded m_def]
  show "writeInTx p i src n ro r = Inr (Inl ENODATA, ro, r)" if "\<not> p \<and> avail < unat n"
    unfolding writeInTx_def access using that by simp
  assume ok: "\<not> (\<not> p \<and> avail < unat n)"
  have s: "?s < length (ring_data r)" "m \<le> length (ring_data r)" "length (ring_data r) \<le> 2 ^ 30"
    unfolding m_def avail_def by (rule area_bounds [OF rel i])+
  have ms: "m \<le> length src" "k + length (take m src) \<le> length (regs ! i)" using n tx(3) by (auto simp: m_def avail_def)
  have written: "ring_rel (r\<lparr>ring_data := d\<rparr>) (regs[i := overwrite k (take m src) (regs ! i)])"
    if "length d = length (ring_data r)" "rotate ?s d = take m src @ drop m (rotate ?s (ring_data r))" for d
    by (rule ring_rel_write [OF rel i ms(2) that(1)]) (use that(2) ms(1) in \<open>simp add: min_absorb2\<close>)
  consider "areas (length (ring_data r)) ?s m = []" | b0 where "areas (length (ring_data r)) ?s m = [b0]"
    | b0 b1 where "areas (length (ring_data r)) ?s m = [b0, b1]"
    by (rule areas_cases)
  then show "\<exists>d. writeInTx p i src n ro r = Inr (Inr (of_nat m), ro\<lparr>txSize := of_nat (k + m)\<rparr>, r\<lparr>ring_data := d\<rparr>) \<and>
      ring_rel (r\<lparr>ring_data := d\<rparr>) (regs[i := overwrite k (take m src) (regs ! i)])"
  proof cases
    case 1
    then have "m = 0" by (rule areas_write(1) [OF s ms(1)])
    then show ?thesis unfolding writeInTx_def access using ok 1 written [of "ring_data r"] by (intro exI [of _ "ring_data r"]) simp
  next
    case (2 b0)
    then show ?thesis unfolding writeInTx_def access using ok areas_write(2) [OF s ms(1) 2] written by auto
  next
    case (3 b0 b1)
    then show ?thesis unfolding writeInTx_def access using ok areas_write(3) [OF s ms(1) 3] written by auto
  qed
qed

section \<open>Committing a transaction\<close>

definition previous :: "nat \<Rightarrow> nat \<Rightarrow> nat" where
  "previous n i = (if i = 0 then n - 1 else i - 1)"

definition pass_on :: "nat \<Rightarrow> nat \<Rightarrow> 'a list list \<Rightarrow> 'a list list" where
  "pass_on i k regs = (let p = previous (length regs) i
     in regs[i := drop k (regs ! i), p := regs ! p @ take k (regs ! i)])"

lemma previous_simps:
  assumes "2 \<le> n" and "i < n"
  shows "previous n i < n" "previous n i \<noteq> i" "j < n \<Longrightarrow> Suc j mod n = i \<longleftrightarrow> j = previous n i" "Suc i mod n \<noteq> i"
  using assms by (auto simp: previous_def mod_Suc)

lemma length_pass_on [simp]: "length (pass_on i k regs) = length regs"
  by (simp add: pass_on_def Let_def)

lemma pass_on_nth:
  assumes "2 \<le> length regs" and "i < length regs" and "j < length regs"
  shows "pass_on i k regs ! j = (if j = previous (length regs) i then regs ! j @ take k (regs ! i)
     else if j = i then drop k (regs ! i) else regs ! j)"
  using assms previous_simps [OF assms(1,2)] by (auto simp: pass_on_def Let_def nth_list_update)

lemma pass_on_mid: "pass_on (Suc (length pre)) k (pre @ a # g # post) = pre @ (a @ take k g) # drop k g # post"
  by (simp add: pass_on_def previous_def Let_def nth_append list_update_append)

lemma concat_pass_on:
  assumes n: "2 \<le> length regs" and i: "i < length regs" and k: "k \<le> length (regs ! i)"
  shows "concat (pass_on i k regs) = (if i = 0 then rotate k (concat regs) else concat regs)"
proof (cases i)
  case 0
  obtain g rest where "regs = g # rest" "rest \<noteq> []" using n by (cases regs; cases "tl regs") auto
  then obtain mid z where regs: "regs = g # mid @ [z]" by (cases rest rule: rev_cases) auto
  have "rotate (length (take k g)) (take k g @ (drop k g @ concat mid @ z)) = (drop k g @ concat mid @ z) @ take k g"
    by (rule rotate_append)
  moreover have "take k g @ (drop k g @ concat mid @ z) = concat regs" by (simp add: regs flip: append_assoc)
  moreover have "pass_on 0 k regs = drop k g # mid @ [z @ take k g]"
    by (simp add: pass_on_def previous_def regs Let_def nth_append list_update_append)
  ultimately show ?thesis using k 0 regs by (simp add: min_absorb2)
next
  case (Suc j)
  let ?pre = "take j regs" and ?post = "drop (Suc (Suc j)) regs"
  have regs: "regs = ?pre @ regs ! j # regs ! i # ?post"
    using i Suc by (metis Cons_nth_drop_Suc Suc_lessD append_take_drop_id)
  have "pass_on i k regs = ?pre @ (regs ! j @ take k (regs ! i)) # drop k (regs ! i) # ?post"
    using pass_on_mid [of ?pre k "regs ! j" "regs ! i" ?post] regs Suc i by simp
  then have "concat (pass_on i k regs) = concat (?pre @ regs ! j # regs ! i # ?post)" by (simp add: append_assoc [symmetric] del: append_assoc) (simp add: append_assoc)
  then show ?thesis unfolding regs [symmetric] using Suc by simp
qed

lemma ring_rel_commit:
  assumes rel: "ring_rel r regs" and i: "i < length regs" and k: "k \<le> length (regs ! i)"
  shows "ring_rel (incMarker i (of_nat k) r) (pass_on i k regs)"
proof -
  let ?r = "incMarker i (of_nat k) r" and ?N = "length regs"
  note D = ring_relD [OF rel]
  have small: "length (regs ! j) \<le> 2 ^ 30" if "j < ?N" for j
    using region_le [OF rel that] pool_okD(4) [OF D(1)] by simp
  have k64: "unat (of_nat k :: 64 word) = k" by (rule unat_word_of_nat) (use k small [OF i] in simp)
  have moved: "markers ?r ! x = markers r ! x + (if x = i then of_nat k else 0)" if "x < ?N" for x
    using that D(3) i by (simp add: incMarker_def nth_list_update)
  have frame: "length (markers ?r) = ?N" "kDataPoolByteSize ?r = kDataPoolByteSize r" using D(3) by (simp_all add: incMarker_def)
  have "dist ?r j = length (pass_on i k regs ! j)" if j: "j < ?N" for j
  proof -
    define nx where "nx = Suc j mod ?N"
    define h where "h = markers r ! nx + (if Suc j = ?N then kDataPoolByteSize r else 0)"
    have d: "unat (h - markers r ! j) = length (regs ! j)" using D(8) [OF j] D(3) by (simp add: dist_def h_def nx_def)
    note p = previous_simps [OF D(4) i]
    have nx: "nx < ?N" "nx = i \<longleftrightarrow> j = previous ?N i" using p(3) [OF j] j by (auto simp: nx_def intro!: mod_less_divisor)
    have dist: "dist ?r j = unat (h + (if j = previous ?N i then of_nat k else 0) - (markers r ! j + (if j = i then of_nat k else 0)))"
      unfolding dist_def frame nx_def [symmetric] moved [OF nx(1)] moved [OF j] nx(2) by (simp add: h_def algebra_simps)
    consider "j = previous ?N i" "j \<noteq> i" | "j = i" "j \<noteq> previous ?N i" | "j \<noteq> previous ?N i" "j \<noteq> i" using p(2) by metis
    then show ?thesis
    proof cases
      case 1
      have "unat (h - markers r ! j + of_nat k) = length (regs ! j) + k"
        using d k64 small [OF j] small [OF i] k by (subst unat_add_lem [THEN iffD1]) simp_all
      then show ?thesis unfolding dist pass_on_nth [OF D(4) i j] using 1 k by (simp add: algebra_simps)
    next
      case 2
      have "unat (h - markers r ! j - of_nat k) = length (regs ! j) - k"
        using d k64 k 2 by (subst unat_sub) (simp_all add: word_le_nat_alt)
      then show ?thesis unfolding dist pass_on_nth [OF D(4) i j] using 2 by (simp add: algebra_simps)
    next
      case 3
      then show ?thesis unfolding dist pass_on_nth [OF D(4) i j] using d by simp
    qed
  qed
  then have "map length (pass_on i k regs) = dists ?r"
    using D(3) by (intro nth_equalityI) (simp_all add: dists_def incMarker_def)
  moreover have "concat (pass_on i k regs) = rotate (unat (markers ?r ! 0)) (ring_data ?r)"
  proof (cases "i = 0")
    case True
    have "rotate (unat (markers r ! 0 + of_nat k)) (ring_data r) = rotate (unat (markers r ! 0) + k) (ring_data r)"
      using mod_pool_word [OF D(1), of "markers r ! 0" k] by (metis rotate_conv_mod)
    moreover have "markers ?r ! 0 = markers r ! 0 + of_nat k" using moved [of 0] True i by simp
    ultimately show ?thesis using concat_pass_on [OF D(4) i k] True D(6)
      by (simp add: incMarker_def rotate_rotate add.commute)
  next
    case False
    then show ?thesis using concat_pass_on [OF D(4) i k] D(6) by (simp add: incMarker_def)
  qed
  ultimately show ?thesis using rel by (simp add: ring_rel_def incMarker_def pool_ok_def)
qed

end
