(* ===== verification/Ring_System.thy ===== *)
theory Ring_System
  imports Ring_Regions
begin

text \<open>
  A ring buffer with any number of role objects, of one or several processes, that take their
  steps in any order: the specification in terms of regions, and the proof that the code
  refines it.
\<close>

section \<open>Steps of the code\<close>

datatype rb_event = StartTx | CommitTx | CancelTx | ReadInTx bool "64 word" | WriteInTx bool "byte list" "64 word" | IncMarkerInTx "64 word"

datatype rb_value = Done | Bytes "byte list" | Count nat

type_synonym rb_response = "rb_errno + rb_value"

text \<open>The role objects, each with the index of its role.\<close>

type_synonym rb_state = "ring \<times> (nat \<times> role) list"

definition finish :: "nat \<Rightarrow> nat \<Rightarrow> (nat \<times> role) list \<Rightarrow> ('a \<Rightarrow> rb_value) \<Rightarrow> 'a rb_ret \<Rightarrow> (rb_response \<times> rb_state) result" where
  "finish j i insts f m = bindR m (\<lambda>(ret, ro', r'). Inr (map_sum id f ret, (r', insts[j := (i, ro')])))"

definition rb_step :: "nat \<Rightarrow> rb_event \<Rightarrow> rb_state \<Rightarrow> (rb_response \<times> rb_state) result" where
  "rb_step j ev st =
     (let (r, insts) = st; (i, ro) = insts ! j in
      case ev of
        StartTx \<Rightarrow> finish j i insts (\<lambda>_. Done) (startTx i ro r)
      | CommitTx \<Rightarrow> finish j i insts (\<lambda>_. Done) (commitTx i ro r)
      | CancelTx \<Rightarrow> finish j i insts (\<lambda>_. Done) (cancelTx i ro r)
      | ReadInTx p n \<Rightarrow> finish j i insts Bytes (readInTx p i n ro r)
      | WriteInTx p src n \<Rightarrow> finish j i insts (\<lambda>m. Count (unat m)) (writeInTx p i src n ro r)
      | IncMarkerInTx n \<Rightarrow> finish j i insts (\<lambda>_. Done) (incMarkerInTx i n ro r))"

text \<open>The caller's buffer holds as many bytes as it says.\<close>

fun buffer_ok :: "rb_event \<Rightarrow> bool" where
  "buffer_ok (WriteInTx p src n) = (unat n \<le> length src)"
| "buffer_ok _ = True"

section \<open>Steps of the specification\<close>

record regions_spec =
  regions :: "byte list list"
  holders :: "(nat \<times> nat option) list"

definition hold :: "nat \<Rightarrow> nat option \<Rightarrow> byte list list \<Rightarrow> regions_spec \<Rightarrow> regions_spec" where
  "hold j tx regs s = s\<lparr>regions := regs, holders := (holders s)[j := (fst (holders s ! j), tx)]\<rparr>"

definition busy :: "nat \<Rightarrow> regions_spec \<Rightarrow> bool" where
  "busy i s \<longleftrightarrow> (\<exists>h \<in> set (holders s). fst h = i \<and> snd h \<noteq> None)"

definition spec_step :: "nat \<Rightarrow> rb_event \<Rightarrow> regions_spec \<Rightarrow> rb_response \<times> regions_spec" where
  "spec_step j ev s =
     (let (i, tx) = holders s ! j; g = regions s ! i in
      case tx of
        None \<Rightarrow>
          (case ev of
             StartTx \<Rightarrow> if busy i s then (Inl EAGAIN, s) else (Inr Done, hold j (Some 0) (regions s) s)
           | _ \<Rightarrow> (Inl EINVAL, s))
      | Some k \<Rightarrow>
          let avail = length g - k in
          (case ev of
             StartTx \<Rightarrow> (Inl EBUSY, s)
           | CommitTx \<Rightarrow> (Inr Done, hold j None (pass_on i k (regions s)) s)
           | CancelTx \<Rightarrow> (Inr Done, hold j None (regions s) s)
           | ReadInTx p n \<Rightarrow>
               if \<not> p \<and> avail < unat n then (Inl ENODATA, s)
               else let m = min (unat n) avail
                 in (Inr (Bytes (take m (drop k g))), hold j (Some (k + m)) (regions s) s)
           | WriteInTx p src n \<Rightarrow>
               if \<not> p \<and> avail < unat n then (Inl ENODATA, s)
               else let m = min (unat n) avail
                 in (Inr (Count m), hold j (Some (k + m)) ((regions s)[i := overwrite k (take m src) g]) s)
           | IncMarkerInTx n \<Rightarrow>
               if avail < unat n then (Inl ENODATA, s)
               else (Inr Done, hold j (Some (k + unat n)) (regions s) s)))"

section \<open>Simulation\<close>

fun inst_rel :: "byte list list \<Rightarrow> nat \<times> role \<Rightarrow> nat \<times> nat option \<Rightarrow> bool" where
  "inst_rel regs (i, ro) (i', tx) \<longleftrightarrow> i' = i \<and> i < length regs \<and>
     (case tx of None \<Rightarrow> \<not> inTx ro \<and> txSize ro = 0
      | Some k \<Rightarrow> inTx ro \<and> unat (txSize ro) = k \<and> k \<le> length (regs ! i))"

definition rb_rel :: "rb_state \<Rightarrow> regions_spec \<Rightarrow> bool" where
  "rb_rel st s \<longleftrightarrow> ring_rel (fst st) (regions s) \<and> list_all2 (inst_rel (regions s)) (snd st) (holders s) \<and>
     (\<forall>i < length (regions s). header_inTx (fst st) ! i \<longleftrightarrow> busy i s) \<and>
     (\<forall>j < length (holders s). \<forall>j' < length (holders s).
        fst (holders s ! j) = fst (holders s ! j') \<and> snd (holders s ! j) \<noteq> None \<and> snd (holders s ! j') \<noteq> None \<longrightarrow> j = j')"

lemma rb_relD:
  assumes "rb_rel (r, insts) s"
  shows "ring_rel r (regions s)" "length insts = length (holders s)"
    "j < length insts \<Longrightarrow> inst_rel (regions s) (insts ! j) (holders s ! j)"
    "i < length (regions s) \<Longrightarrow> header_inTx r ! i \<longleftrightarrow> busy i s"
    "j < length insts \<Longrightarrow> j' < length insts \<Longrightarrow> fst (holders s ! j) = fst (holders s ! j') \<Longrightarrow>
      snd (holders s ! j) \<noteq> None \<Longrightarrow> snd (holders s ! j') \<noteq> None \<Longrightarrow> j = j'"
  using assms by (auto simp: rb_rel_def list_all2_conv_all_nth)

lemma busy_nth: "busy i s \<longleftrightarrow> (\<exists>j < length (holders s). fst (holders s ! j) = i \<and> snd (holders s ! j) \<noteq> None)"
  unfolding busy_def by (metis in_set_conv_nth)

lemma busy_hold:
  assumes "j < length (holders s)"
  shows "busy i (hold j tx regs s) \<longleftrightarrow>
    (if fst (holders s ! j) = i \<and> tx \<noteq> None then True
     else \<exists>j' < length (holders s). j' \<noteq> j \<and> fst (holders s ! j') = i \<and> snd (holders s ! j') \<noteq> None)"
  using assms by (auto simp: busy_nth hold_def nth_list_update)

text \<open>A step of one role object keeps what holds of the others.\<close>

lemma rb_rel_hold:
  assumes rel: "rb_rel (r, insts) s" and j: "j < length insts" and i: "fst (insts ! j) = i"
    and ring: "ring_rel r' regs" "length regs = length (regions s)"
    and flags: "header_inTx r' = (header_inTx r)[i := tx \<noteq> None]"
    and mine: "inst_rel regs (i, ro) (i, tx)"
    and others: "\<And>x. x < length regs \<Longrightarrow> x \<noteq> i \<Longrightarrow> length (regions s ! x) \<le> length (regs ! x)"
    and own: "length (regs ! i) < length (regions s ! i) \<Longrightarrow> snd (holders s ! j) \<noteq> None"
    and free: "tx \<noteq> None \<Longrightarrow> snd (holders s ! j) \<noteq> None \<or> \<not> busy i s"
    and gone: "tx = None \<Longrightarrow> snd (holders s ! j) \<noteq> None"
  shows "rb_rel (r', insts[j := (i, ro)]) (hold j tx regs s)"
proof -
  note D = rb_relD [OF rel]
  have hj: "fst (holders s ! j) = i" "i < length (regions s)" using D(3) [OF j] i by (cases "insts ! j"; cases "holders s ! j"; simp)+
  have alone: "\<not> (fst (holders s ! x) = i \<and> snd (holders s ! x) \<noteq> None)"
    if "x < length insts" "x \<noteq> j" "snd (holders s ! j) \<noteq> None \<or> \<not> busy i s" for x
  proof
    assume h: "fst (holders s ! x) = i \<and> snd (holders s ! x) \<noteq> None"
    then have "busy i s" using that(1) D(2) busy_nth by auto
    then show False using D(5) [OF that(1) j] h hj(1) that(2,3) by metis
  qed
  have "inst_rel regs (insts[j := (i, ro)] ! x) ((holders s)[j := (i, tx)] ! x)" if x: "x < length insts" for x
  proof (cases "x = j")
    case True
    then show ?thesis using mine j D(2) by simp
  next
    case False
    obtain i' ro' t where h: "insts ! x = (i', ro')" "holders s ! x = (i', t)" "i' < length (regions s)"
      using D(3) [OF x] by (cases "insts ! x"; cases "holders s ! x") auto
    have "length (regions s ! i') \<le> length (regs ! i')" if "t \<noteq> None"
    proof (cases "i' = i")
      case True
      then show ?thesis using own alone [OF x False] h that by (cases "length (regs ! i) < length (regions s ! i)") auto
    qed (use others h(3) ring(2) in auto)
    then show ?thesis using False D(3) [OF x] h ring(2) by (auto split: option.splits)
  qed
  then have l: "list_all2 (inst_rel regs) (insts[j := (i, ro)]) ((holders s)[j := (i, tx)])"
    using D(2) by (simp add: list_all2_conv_all_nth)
  have b: "header_inTx r' ! x \<longleftrightarrow> busy x (hold j tx regs s)" if x: "x < length regs" for x
  proof (cases "x = i")
    case True
    have len: "i < length (header_inTx r)" using hj(2) ring_relD(2) [OF D(1)] by simp
    show ?thesis
    proof (cases "tx = None")
      case True
      then have "\<not> busy i (hold j tx regs s)"
        unfolding busy_hold [OF j [unfolded D(2)]] using alone gone D(2) by (simp, metis)
      then show ?thesis using flags len True \<open>x = i\<close> by simp
    next
      case False
      then have "busy i (hold j tx regs s)" using busy_hold [of j s] j D(2) hj by auto
      then show ?thesis using flags len False \<open>x = i\<close> by simp
    qed
  next
    case False
    then have "busy x (hold j tx regs s) \<longleftrightarrow> busy x s" using busy_hold [of j s x] busy_nth [of x s] j D(2) hj(1) by auto
    then show ?thesis using False flags D(4) [of x] x ring(2) by simp
  qed
  have u: "a = b" if "a < length insts" "b < length insts" "fst ((holders s)[j := (i, tx)] ! a) = fst ((holders s)[j := (i, tx)] ! b)"
    "snd ((holders s)[j := (i, tx)] ! a) \<noteq> None" "snd ((holders s)[j := (i, tx)] ! b) \<noteq> None" for a b
    using that D(2) D(5) [of a b] alone [of a] alone [of b] free j hj(1) by (auto simp: nth_list_update split: if_splits)
  show ?thesis
    using ring(1) l b u D(2) hj(1) by (auto simp: rb_rel_def hold_def)
qed

lemma sim_start:
  assumes rel: "rb_rel (r, insts) s" and j: "j < length insts"
  shows "\<exists>st'. rb_step j StartTx (r, insts) = Inr (fst (spec_step j StartTx s), st') \<and> rb_rel st' (snd (spec_step j StartTx s))"
proof -
  note D = rb_relD [OF rel]
  obtain i ro tx where h: "insts ! j = (i, ro)" "holders s ! j = (i, tx)" "i < length (regions s)"
    and I: "inst_rel (regions s) (i, ro) (i, tx)"
    using D(3) [OF j] by (cases "insts ! j"; cases "holders s ! j") auto
  have len: "i < length (header_inTx r)" using h(3) ring_relD(2) [OF D(1)] by simp
  have same: "insts[j := (i, ro)] = insts" "(header_inTx r)[i := header_inTx r ! i] = header_inTx r"
    using h(1) by (metis list_update_id, simp)
  show ?thesis
  proof (cases tx)
    case None
    then have ro: "\<not> inTx ro" "txSize ro = 0" using I by simp_all
    show ?thesis
    proof (cases "busy i s")
      case True
      then have "(header_inTx r)[i := True] = header_inTx r" using D(4) [OF h(3)] same(2) by metis
      then show ?thesis using rel True None h ro D(4) [OF h(3)] same(1)
        by (simp add: rb_step_def spec_step_def startTx_def beginTransaction_def finish_def)
    next
      case False
      let ?r = "r\<lparr>header_inTx := (header_inTx r)[i := True]\<rparr>"
      have "ring_rel ?r (regions s)" using D(1) by (simp add: ring_rel_def pool_ok_def dists_def dist_def)
      then have "rb_rel (?r, insts[j := (i, ro\<lparr>inTx := True\<rparr>)]) (hold j (Some 0) (regions s) s)"
        by (intro rb_rel_hold [OF rel j]) (use False ro h in simp_all)
      then show ?thesis using None False h ro D(4) [OF h(3)]
        by (simp add: rb_step_def spec_step_def startTx_def beginTransaction_def finish_def)
    qed
  next
    case (Some k)
    then show ?thesis using rel h I same(1) by (simp add: rb_step_def spec_step_def startTx_def finish_def)
  qed
qed

text \<open>The other steps, for a role object that is not in a transaction and for one that is.\<close>

lemma sim_idle:
  assumes rel: "rb_rel (r, insts) s" and j: "j < length insts" and idle: "snd (holders s ! j) = None" and ev: "ev \<noteq> StartTx"
  shows "rb_step j ev (r, insts) = Inr (Inl EINVAL, (r, insts)) \<and> spec_step j ev s = (Inl EINVAL, s)"
proof -
  obtain i ro where h: "insts ! j = (i, ro)" "holders s ! j = (i, None)" "\<not> inTx ro"
    using rb_relD(3) [OF rel j] idle by (cases "insts ! j"; cases "holders s ! j") auto
  have "insts[j := (i, ro)] = insts" using h(1) by (metis list_update_id)
  then show ?thesis using h ev
    by (cases ev) (simp_all add: rb_step_def spec_step_def finish_def commitTx_def cancelTx_def readInTx_def writeInTx_def
        incMarkerInTx_def accessContiguousInTx_def)
qed

lemma txSize_of_nat: "k \<le> 2 ^ 30 \<Longrightarrow> unat (of_nat k :: 32 word) = k"
  by (rule unat_word_of_nat) simp

lemma sim_active:
  assumes rel: "rb_rel (r, insts) s" and j: "j < length insts" and buf: "buffer_ok ev"
    and h: "insts ! j = (i, ro)" "holders s ! j = (i, Some k)" "i < length (regions s)"
    and tx: "inTx ro" "unat (txSize ro) = k" "k \<le> length (regions s ! i)"
  shows "\<exists>st'. rb_step j ev (r, insts) = Inr (fst (spec_step j ev s), st') \<and> rb_rel st' (snd (spec_step j ev s))"
proof -
  note D = rb_relD [OF rel]
  let ?regs = "regions s" and ?g = "regions s ! i"
  have N: "2 \<le> length ?regs" and hl: "i < length (header_inTx r)" using ring_relD(2,4) [OF D(1)] h(3) by simp_all
  have hdr: "(header_inTx r)[i := True] = header_inTx r"
  proof -
    have "busy i s" using h(2) j D(2) busy_nth by (metis fst_conv option.distinct(1) snd_conv)
    then show ?thesis using D(4) [OF h(3)] by (metis list_update_id)
  qed
  have small: "k + m \<le> 2 ^ 30" if "m \<le> length ?g - k" for m
    using that tx(3) region_le [OF D(1) h(3)] pool_okD(4) [OF ring_relD(1) [OF D(1)]] by simp
  have same: "insts[j := (i, ro)] = insts" using h(1) by (metis list_update_id)
  have keep: "rb_rel (r', insts[j := (i, ro\<lparr>txSize := of_nat (k + m)\<rparr>)]) (hold j (Some (k + m)) regs s)"
    if "ring_rel r' regs" "map length regs = map length ?regs" "header_inTx r' = header_inTx r" "m \<le> length ?g - k" for r' regs m
  proof (rule rb_rel_hold [OF rel j _ that(1)])
    have len: "length (regs ! x) = length (?regs ! x)" if "x < length ?regs" for x
      using \<open>map length regs = map length ?regs\<close> that by (metis length_map nth_map)
    then show "length (regs ! i) < length (?regs ! i) \<Longrightarrow> snd (holders s ! j) \<noteq> None"
      "\<And>x. x < length regs \<Longrightarrow> x \<noteq> i \<Longrightarrow> length (?regs ! x) \<le> length (regs ! x)"
      using h that(2) by (simp_all, metis length_map order_refl)
    show "inst_rel regs (i, ro\<lparr>txSize := of_nat (k + m)\<rparr>) (i, Some (k + m))"
      using tx that(2,4) len [OF h(3)] h(3) txSize_of_nat [OF small [OF that(4)]] by (auto dest: map_eq_imp_length_eq)
    show "header_inTx r' = (header_inTx r)[i := Some (k + m) \<noteq> None]" using hdr that(3) by simp
  qed (use h that(2) in \<open>auto dest: map_eq_imp_length_eq\<close>)
  have release: "rb_rel (endTransaction i r', insts[j := (i, ro\<lparr>txSize := 0, inTx := False\<rparr>)]) (hold j None regs s)"
    if "ring_rel r' regs" "length regs = length ?regs" "header_inTx r' = header_inTx r"
      "\<And>x. x < length regs \<Longrightarrow> x \<noteq> i \<Longrightarrow> length (?regs ! x) \<le> length (regs ! x)" for r' regs
  proof (rule rb_rel_hold [OF rel j])
    show "ring_rel (endTransaction i r') regs"
      using that(1) by (simp add: endTransaction_def ring_rel_def pool_ok_def dists_def dist_def)
  qed (use h that in \<open>simp_all add: endTransaction_def\<close>)
  show ?thesis
  proof (cases ev)
    case StartTx
    then show ?thesis using sim_start [OF rel j] by simp
  next
    case CommitTx
    have "ring_rel (incMarker i (of_nat k) r) (pass_on i k ?regs)" by (rule ring_rel_commit [OF D(1) h(3) tx(3)])
    moreover have "ucast (txSize ro) = (of_nat k :: 64 word)" using tx(2) by (metis of_nat_unat)
    moreover have "length (?regs ! x) \<le> length (pass_on i k ?regs ! x)" if "x < length ?regs" "x \<noteq> i" for x
      using that pass_on_nth [OF N h(3) that(1)] by simp
    ultimately show ?thesis using CommitTx h tx(1) release [of "incMarker i (of_nat k) r" "pass_on i k ?regs"]
      by (simp add: rb_step_def spec_step_def finish_def commitTx_def incMarker_def)
  next
    case CancelTx
    then show ?thesis using h tx(1) release [OF D(1)] by (simp add: rb_step_def spec_step_def finish_def cancelTx_def)
  next
    case (ReadInTx p n)
    then show ?thesis using h rel same readInTx_regions [OF D(1) h(3) tx, of p n] keep [OF D(1) refl refl, of "min (unat n) (length ?g - k)"]
      by (auto simp: rb_step_def spec_step_def finish_def Let_def)
  next
    case (WriteInTx p src n)
    have n: "unat n \<le> length src" using buf WriteInTx by simp
    let ?m = "min (unat n) (length ?g - k)"
    note W = writeInTx_regions [OF D(1) h(3) tx n, of p]
    show ?thesis
    proof (cases "\<not> p \<and> length ?g - k < unat n")
      case True
      then show ?thesis using W(1) WriteInTx h rel same by (simp add: rb_step_def spec_step_def finish_def)
    next
      case False
      then obtain d where d: "writeInTx p i src n ro r = Inr (Inr (of_nat ?m), ro\<lparr>txSize := of_nat (k + ?m)\<rparr>, r\<lparr>ring_data := d\<rparr>)"
        "ring_rel (r\<lparr>ring_data := d\<rparr>) (?regs[i := overwrite k (take ?m src) ?g])"
        using W(2) by blast
      have "length (overwrite k (take ?m src) ?g) = length ?g" using n tx(3) by simp
      then have "map length (?regs[i := overwrite k (take ?m src) ?g]) = map length ?regs"
        using h(3) by (simp add: map_update list_update_same_conv [THEN iffD2])
      then have "rb_rel (r\<lparr>ring_data := d\<rparr>, insts[j := (i, ro\<lparr>txSize := of_nat (k + ?m)\<rparr>)])
          (hold j (Some (k + ?m)) (?regs[i := overwrite k (take ?m src) ?g]) s)"
        by (intro keep d(2)) simp_all
      moreover have "unat (of_nat ?m :: 64 word) = ?m"
        by (rule unat_word_of_nat) (use small [of ?m] in simp)
      ultimately show ?thesis using False WriteInTx h d(1) by (simp add: rb_step_def spec_step_def finish_def Let_def)
    qed
  next
    case (IncMarkerInTx n)
    then show ?thesis using h rel same access_areas [OF D(1) h(3) tx, of False n] keep [OF D(1), of "unat n"]
      by (auto simp: rb_step_def spec_step_def finish_def incMarkerInTx_def min_def split: if_splits)
  qed
qed

lemma rb_simulates:
  assumes "rb_rel (r, insts) s" and "j < length insts" and "buffer_ok ev"
  shows "\<exists>st'. rb_step j ev (r, insts) = Inr (fst (spec_step j ev s), st') \<and> rb_rel st' (snd (spec_step j ev s))"
proof -
  obtain i ro tx where h: "insts ! j = (i, ro)" "holders s ! j = (i, tx)" "i < length (regions s)"
    and I: "inst_rel (regions s) (i, ro) (i, tx)"
    using rb_relD(3) [OF assms(1,2)] by (cases "insts ! j"; cases "holders s ! j") auto
  show ?thesis
  proof (cases tx)
    case None
    then show ?thesis
      using sim_start [OF assms(1,2)] sim_idle [OF assms(1,2), of ev] assms(1) h by (cases "ev = StartTx") auto
  next
    case (Some k)
    show ?thesis by (rule sim_active [OF assms]) (use h I Some in auto)
  qed
qed

section \<open>The initial ring\<close>

lemma ring_created:
  assumes "RingBufferHeader n minDataByteSize contents = Inr r" and "length contents = unat (kDataPoolByteSize r)" and "2 \<le> n"
  shows "ring_rel r (replicate (n - 1) [] @ [contents])"
proof -
  let ?len = "nextPow2 minDataByteSize"
  have r: "2 \<le> ?len" "isPow2 ?len" "?len \<le> 0x7FFFFFFF" and r_eq: "r = \<lparr>kDataPoolByteSize = ?len, kDataModMask = ?len - 1,
      header_inTx = replicate n False, markers = replicate n 0, ring_data = contents\<rparr>"
    using assms(1) by (auto simp: RingBufferHeader_def Let_def dcheck_eq_Inr)
  obtain k where k: "unat ?len = 2 ^ k" using r(2) isPow2_power by blast
  have "2 \<le> unat ?len" "unat ?len \<le> 0x7FFFFFFF" using r(1,3) by (simp_all add: word_le_nat_alt)
  then have "1 \<le> k" "(2 :: nat) ^ k < 2 ^ 31" unfolding k by (cases k, simp_all)
  then have "k \<in> {1..30}" using power_less_imp_less_exp [of "2 :: nat" k 31] by simp
  then have "pool_ok r" using k assms(2) by (auto simp: pool_ok_def r_eq)
  moreover have "map length (replicate (n - 1) [] @ [contents]) = dists r"
  proof (rule nth_equalityI)
    show "length (map length (replicate (n - 1) [] @ [contents])) = length (dists r)" using assms(3) by (simp add: dists_def r_eq)
    fix i
    assume "i < length (map length (replicate (n - 1) [] @ [contents]))"
    then have "i < n" using assms(3) by simp
    then show "map length (replicate (n - 1) [] @ [contents]) ! i = dists r ! i"
      using assms(2,3) by (cases "i = n - 1") (auto simp: dists_def dist_def r_eq nth_append nth_Cons')
  qed
  ultimately show ?thesis using assms(3) by (simp add: ring_rel_def r_eq concat_replicate_trivial)
qed

definition fresh_spec :: "nat \<Rightarrow> nat list \<Rightarrow> byte list \<Rightarrow> regions_spec" where
  "fresh_spec n roles contents = \<lparr>regions = replicate (n - 1) [] @ [contents], holders = map (\<lambda>i. (i, None)) roles\<rparr>"

lemma fresh_rel:
  assumes "RingBufferHeader n minDataByteSize contents = Inr r" and "length contents = unat (kDataPoolByteSize r)" and "2 \<le> n"
    and "\<forall>i \<in> set roles. i < n"
  shows "rb_rel (r, map (\<lambda>i. (i, RingBufferRole)) roles) (fresh_spec n roles contents)"
proof -
  have "header_inTx r = replicate n False" using assms(1) by (auto simp: RingBufferHeader_def Let_def dcheck_eq_Inr)
  then show ?thesis
    using ring_created [OF assms(1-3)] assms(3,4)
    by (auto simp: rb_rel_def fresh_spec_def list_all2_conv_all_nth busy_def RingBufferRole_def)
qed

section \<open>Runs\<close>

fun rb_exec :: "(nat \<times> rb_event) list \<Rightarrow> rb_state \<Rightarrow> (rb_response list \<times> rb_state) result" where
  "rb_exec [] st = Inr ([], st)"
| "rb_exec ((j, ev) # evs) st =
     bindR (rb_step j ev st) (\<lambda>(resp, st'). bindR (rb_exec evs st') (\<lambda>(resps, st''). Inr (resp # resps, st'')))"

fun spec_exec :: "(nat \<times> rb_event) list \<Rightarrow> regions_spec \<Rightarrow> rb_response list \<times> regions_spec" where
  "spec_exec [] s = ([], s)"
| "spec_exec ((j, ev) # evs) s =
     (let (resp, s') = spec_step j ev s; (resps, s'') = spec_exec evs s' in (resp # resps, s''))"

lemma rb_exec_simulates:
  "rb_rel st s \<Longrightarrow> length (snd st) = m \<Longrightarrow> \<forall>(j, ev) \<in> set evs. j < m \<and> buffer_ok ev \<Longrightarrow>
     \<exists>st'. rb_exec evs st = Inr (fst (spec_exec evs s), st') \<and> rb_rel st' (snd (spec_exec evs s))"
proof (induction evs arbitrary: st s)
  case (Cons e evs)
  obtain j ev where e: "e = (j, ev)" by fastforce
  obtain r insts where st: "st = (r, insts)" by fastforce
  obtain st1 where st1: "rb_step j ev st = Inr (fst (spec_step j ev s), st1)" "rb_rel st1 (snd (spec_step j ev s))"
    using rb_simulates [of r insts s j ev] Cons.prems e st by auto
  have "length (snd st1) = m"
    using st1(1) Cons.prems(2) st by (cases ev) (auto simp: rb_step_def finish_def bindR_eq_Inr split: prod.splits)
  from Cons.IH [OF st1(2) this] Cons.prems(3) st1(1) show ?case by (auto simp: e split: prod.splits)
qed simp

text \<open>
  C24: the ring buffer implements its regions. Whatever the role objects of whatever processes call,
  in whatever order, the code answers exactly as the specification does: data are read and
  written in the front of the role's own region, a commit hands that front to the previous
  role, and at most one object of a role is in a transaction. In particular no step fails a
  check or copies outside of the buffer, although markers wrap around and areas are cut in two.
\<close>

theorem ring_refines_regions:
  assumes "RingBufferHeader n minDataByteSize contents = Inr r" and "length contents = unat (kDataPoolByteSize r)" and "2 \<le> n"
    and "\<forall>i \<in> set roles. i < n" and "\<forall>(j, ev) \<in> set evs. j < length roles \<and> buffer_ok ev"
  shows "\<exists>st'. rb_exec evs (r, map (\<lambda>i. (i, RingBufferRole)) roles) = Inr (fst (spec_exec evs (fresh_spec n roles contents)), st')"
  using rb_exec_simulates [OF fresh_rel [OF assms(1-4)] _ assms(5)] by auto

definition sample_ring :: ring where
  "sample_ring = (case RingBufferHeader 2 3 [0, 0, 0, 0] of Inr r \<Rightarrow> r | Inl f \<Rightarrow> undefined)"

definition sample_run :: "(nat \<times> rb_event) list" where
  "sample_run = [(1, StartTx), (1, WriteInTx False [10, 20, 30] 3), (1, CommitTx), (0, StartTx), (0, ReadInTx True 2), (0, CommitTx),
     (1, StartTx), (1, WriteInTx True [40, 50, 60, 70] 4), (1, CommitTx)]"

lemma sample_ring_created: "RingBufferHeader 2 3 [0, 0, 0, 0] = Inr sample_ring" "length ([0, 0, 0, 0] :: byte list) = unat (kDataPoolByteSize sample_ring)"
  by (simp_all add: sample_ring_def RingBufferHeader_def nextPow2_def smear_def isPow2_def Let_def)

lemma sample_run_spec:
  "fst (spec_exec sample_run (fresh_spec 2 [0, 1] [0, 0, 0, 0])) =
     [Inr Done, Inr (Count 3), Inr Done, Inr Done, Inr (Bytes [10, 20]), Inr Done, Inr Done, Inr (Count 3), Inr Done]"
  by code_simp

theorem ring_refines_regions_witness:
  "\<exists>st'. rb_exec sample_run (sample_ring, [(0, RingBufferRole), (1, RingBufferRole)]) =
     Inr ([Inr Done, Inr (Count 3), Inr Done, Inr Done, Inr (Bytes [10, 20]), Inr Done, Inr Done, Inr (Count 3), Inr Done], st')"
  using ring_refines_regions [OF sample_ring_created, of "[0, 1]" sample_run] unfolding sample_run_spec
  by (simp add: sample_run_def)

end
