(* ===== verification/Ring_Fifo.thy ===== *)
theory Ring_Fifo
  imports Ring_System
begin

text \<open>
  The bytes that the last role (the producer) commits reach the first role (the consumer) in
  order, none lost and none twice, however many roles in between look at them.
\<close>

section \<open>What the transactions have moved\<close>

text \<open>For each role object the bytes of its transaction, for each role the bytes of its committed ones.\<close>

type_synonym ledger = "(nat \<Rightarrow> byte list) \<times> (nat \<Rightarrow> byte list)"

fun record_event :: "nat \<Rightarrow> nat \<Rightarrow> rb_event \<Rightarrow> rb_response \<Rightarrow> ledger \<Rightarrow> ledger" where
  "record_event j i StartTx (Inr Done) (pending, committed) = (pending(j := []), committed)"
| "record_event j i (ReadInTx p n) (Inr (Bytes xs)) (pending, committed) = (pending(j := pending j @ xs), committed)"
| "record_event j i (WriteInTx p src n) (Inr (Count m)) (pending, committed) = (pending(j := pending j @ take m src), committed)"
| "record_event j i CommitTx (Inr Done) (pending, committed) = (pending(j := []), committed(i := committed i @ pending j))"
| "record_event j i CancelTx (Inr Done) (pending, committed) = (pending(j := []), committed)"
| "record_event j i ev resp l = l"

text \<open>The first role reads, the last one writes, those in between only look or skip.\<close>

fun disciplined :: "nat \<Rightarrow> nat \<Rightarrow> rb_event \<Rightarrow> bool" where
  "disciplined n i (ReadInTx p len) \<longleftrightarrow> i \<noteq> n - 1"
| "disciplined n i (WriteInTx p src len) \<longleftrightarrow> i = n - 1"
| "disciplined n i (IncMarkerInTx len) \<longleftrightarrow> i \<noteq> 0 \<and> i \<noteq> n - 1"
| "disciplined n i _ \<longleftrightarrow> True"

inductive rb_run :: "nat \<Rightarrow> nat list \<Rightarrow> rb_state \<Rightarrow> ledger \<Rightarrow> bool" for n roles where
  rb_created: "RingBufferHeader n minDataByteSize contents = Inr r \<Longrightarrow> length contents = unat (kDataPoolByteSize r) \<Longrightarrow>
     2 \<le> n \<Longrightarrow> \<forall>i \<in> set roles. i < n \<Longrightarrow>
     rb_run n roles (r, map (\<lambda>i. (i, RingBufferRole)) roles) (\<lambda>_. [], \<lambda>_. [])"
| rb_stepped: "rb_run n roles st l \<Longrightarrow> j < length roles \<Longrightarrow> buffer_ok ev \<Longrightarrow> disciplined n (roles ! j) ev \<Longrightarrow>
     rb_step j ev st = Inr (resp, st') \<Longrightarrow> rb_run n roles st' (record_event j (roles ! j) ev resp l)"

section \<open>The invariant\<close>

definition fifo_inv :: "nat \<Rightarrow> nat list \<Rightarrow> regions_spec \<Rightarrow> ledger \<Rightarrow> bool" where
  "fifo_inv n roles s l \<longleftrightarrow> length (regions s) = n \<and> map fst (holders s) = roles \<and>
     snd l (n - 1) = snd l 0 @ concat (butlast (regions s)) \<and>
     (\<forall>j < length roles. \<forall>k. snd (holders s ! j) = Some k \<and> (roles ! j = 0 \<or> roles ! j = n - 1) \<longrightarrow>
        fst l j = take k (regions s ! (roles ! j)))"

lemma butlast_pass_on_front:
  assumes "2 \<le> length regs" and "k \<le> length (regs ! 0)"
  shows "concat (butlast regs) = take k (regs ! 0) @ concat (butlast (pass_on 0 k regs))"
proof -
  obtain g rest where "regs = g # rest" "rest \<noteq> []" using assms(1) by (cases regs; cases "tl regs") auto
  then obtain mid z where regs: "regs = g # mid @ [z]" by (cases rest rule: rev_cases) auto
  have "pass_on 0 k regs = drop k g # mid @ [z @ take k g]"
    by (simp add: pass_on_def previous_def regs Let_def nth_append list_update_append)
  then have b: "butlast (pass_on 0 k regs) = drop k g # mid" by (metis append_Cons butlast_snoc)
  have "butlast regs = g # mid" unfolding regs by (metis append_Cons butlast_snoc)
  then show ?thesis unfolding b by (simp add: regs flip: append_assoc)
qed

lemma butlast_pass_on_back:
  assumes "2 \<le> length regs"
  shows "concat (butlast (pass_on (length regs - 1) k regs)) = concat (butlast regs) @ take k (regs ! (length regs - 1))"
proof -
  obtain pre a z where regs: "regs = pre @ [a, z]"
    using assms by (metis One_nat_def Suc_le_length_iff append_butlast_last_id append_assoc append_Cons append_Nil length_0_conv
        length_butlast list.size(3) numeral_2_eq_2 diff_Suc_1 nat.distinct(1))
  show ?thesis using pass_on_mid [of pre k a z "[]"] by (simp add: regs nth_append butlast_append)
qed

lemma butlast_pass_on_mid:
  assumes "0 < i" and "i < length regs - 1" and "k \<le> length (regs ! i)"
  shows "concat (butlast (pass_on i k regs)) = concat (butlast regs)"
proof -
  let ?b = "butlast regs"
  have ne: "regs \<noteq> []" using assms(2) by auto
  have nth: "regs ! i = ?b ! i" "regs ! (i - 1) = ?b ! (i - 1)" using assms(1,2) by (simp_all add: nth_butlast)
  have "butlast (pass_on i k regs) = pass_on i k ?b"
    using assms(1,2) nth by (auto simp: pass_on_def previous_def Let_def butlast_list_update)
  then show ?thesis using concat_pass_on [of ?b i k] assms nth by simp
qed

lemma spec_step_roles: "map fst (holders (snd (spec_step j ev s))) = map fst (holders s) \<and>
  length (regions (snd (spec_step j ev s))) = length (regions s)"
proof -
  have h: "map fst (holders (hold j tx regs s)) = map fst (holders s)" "regions (hold j tx regs s) = regs" for tx regs
    by (simp_all add: hold_def map_update list_update_same_conv [THEN iffD2])
      (metis list_update_id map_update nth_map list_update_beyond linorder_not_le length_map)
  obtain i tx where "holders s ! j = (i, tx)" by fastforce
  then show ?thesis
    by (cases ev; cases tx) (simp_all add: spec_step_def h Let_def)
qed

text \<open>What a step does to the regions and to its own transaction.\<close>

lemma fifo_step:
  assumes inv: "fifo_inv n roles s (pending, committed)" and n: "2 \<le> n" and j: "j < length roles" and i: "roles ! j = i" "i < n"
    and d: "disciplined n i ev" "buffer_ok ev" and tx: "\<And>k. snd (holders s ! j) = Some k \<Longrightarrow> k \<le> length (regions s ! i)"
    and others: "\<And>x k. x < length roles \<Longrightarrow> x \<noteq> j \<Longrightarrow> snd (holders s ! x) = Some k \<Longrightarrow> k \<le> length (regions s ! (roles ! x))"
    and alone: "\<And>x. x < length roles \<Longrightarrow> x \<noteq> j \<Longrightarrow> roles ! x = i \<Longrightarrow> snd (holders s ! j) \<noteq> None \<Longrightarrow> snd (holders s ! x) = None"
  shows "fifo_inv n roles (snd (spec_step j ev s)) (record_event j i ev (fst (spec_step j ev s)) (pending, committed))"
proof -
  let ?regs = "regions s"
  have I: "length ?regs = n" "map fst (holders s) = roles" "committed (n - 1) = committed 0 @ concat (butlast ?regs)"
    and P: "\<And>x k. x < length roles \<Longrightarrow> snd (holders s ! x) = Some k \<Longrightarrow> roles ! x = 0 \<or> roles ! x = n - 1 \<Longrightarrow>
      pending x = take k (?regs ! (roles ! x))"
    using inv by (auto simp: fifo_inv_def)
  have len: "length (holders s) = length roles" using I(2) by auto
  have hj: "fst (holders s ! j) = i" using I(2) i(1) j by (metis len nth_map)
  have keep: "fifo_inv n roles (hold j t regs s) (pending(j := p), c)"
    if "length regs = n" "c (n - 1) = c 0 @ concat (butlast regs)"
      "\<And>k. t = Some k \<Longrightarrow> i = 0 \<or> i = n - 1 \<Longrightarrow> p = take k (regs ! i)"
      "\<And>x k. x < length roles \<Longrightarrow> x \<noteq> j \<Longrightarrow> snd (holders s ! x) = Some k \<Longrightarrow> roles ! x = 0 \<or> roles ! x = n - 1 \<Longrightarrow>
        take k (regs ! (roles ! x)) = take k (?regs ! (roles ! x))" for t regs p c
    using that P i(1) I(2) hj j len
    by (auto simp: fifo_inv_def hold_def nth_list_update map_update list_update_same_conv [THEN iffD2])
  show ?thesis
  proof (cases "snd (holders s ! j)")
    case None
    then have "holders s ! j = (i, None)" using hj by (metis prod.collapse)
    moreover have "fifo_inv n roles (hold j (Some 0) ?regs s) (pending(j := []), committed)" by (rule keep) (use I in simp_all)
    ultimately show ?thesis using inv by (cases ev) (simp_all add: spec_step_def)
  next
    case (Some k)
    then have h: "holders s ! j = (i, Some k)" using hj by (metis prod.collapse)
    let ?g = "?regs ! i"
    have k: "k \<le> length ?g" using tx [OF Some] .
    have mine: "i = 0 \<or> i = n - 1 \<Longrightarrow> pending j = take k ?g" using P [OF j Some] i(1) by simp
    have drop: "fifo_inv n roles (hold j None ?regs s) (pending(j := []), committed)" by (rule keep) (use I in simp_all)
    have take_more: "take k g @ take m (drop k g) = take (k + m) g" for m and g :: "byte list" by (simp add: take_add)
    show ?thesis
    proof (cases ev)
      case StartTx
      then show ?thesis using inv h by (simp add: spec_step_def)
    next
      case CommitTx
      let ?R = "pass_on i k ?regs" and ?c = "committed(i := committed i @ pending j)"
      have nth: "take k' (?R ! (roles ! x)) = take k' (?regs ! (roles ! x))"
        if "x < length roles" "x \<noteq> j" "snd (holders s ! x) = Some k'" "roles ! x = 0 \<or> roles ! x = n - 1" for x k'
      proof -
        have "roles ! x \<noteq> i" using alone [OF that(1,2)] that(3) h by auto
        moreover have "roles ! x < length ?regs" using that(4) n I(1) by auto
        ultimately show ?thesis using others [OF that(1-3)] pass_on_nth [of ?regs i "roles ! x" k] n i(2) I(1) by auto
      qed
      have "?c (n - 1) = ?c 0 @ concat (butlast ?R)"
      proof -
        consider "i = 0" | "i = n - 1" "i \<noteq> 0" | "0 < i" "i < n - 1" using i(2) by linarith
        then show ?thesis
        proof cases
          case 1
          then show ?thesis using I mine n butlast_pass_on_front [of ?regs k] k by simp
        next
          case 2
          then show ?thesis using I mine n butlast_pass_on_back [of ?regs k] by simp
        next
          case 3
          then show ?thesis using I butlast_pass_on_mid [of i ?regs k] k by simp
        qed
      qed
      then have "fifo_inv n roles (hold j None ?R s) (pending(j := []), ?c)" by (intro keep nth) (use I in simp_all)
      then show ?thesis using h CommitTx by (simp add: spec_step_def)
    next
      case CancelTx
      then show ?thesis using h drop by (simp add: spec_step_def)
    next
      case (ReadInTx p m)
      let ?m = "min (unat m) (length ?g - k)"
      have "i \<noteq> n - 1" using d ReadInTx by simp
      then have "fifo_inv n roles (hold j (Some (k + ?m)) ?regs s) (pending(j := pending j @ take ?m (drop k ?g)), committed)"
        by (intro keep) (use I mine take_more in auto)
      then show ?thesis using h inv ReadInTx by (simp add: spec_step_def Let_def)
    next
      case (WriteInTx p src m)
      let ?m = "min (unat m) (length ?g - k)"
      let ?R = "?regs[i := overwrite k (take ?m src) ?g]"
      have last: "i = n - 1" using d WriteInTx by simp
      then have b: "butlast ?R = butlast ?regs" using I(1) by (simp add: butlast_list_update)
      have m: "?m \<le> length src" using d(2) WriteInTx by simp
      have t: "take k ?g @ take ?m src = take (k + ?m) (overwrite k (take ?m src) ?g)"
        using k m by (simp add: overwrite_def)
      have "fifo_inv n roles (hold j (Some (k + ?m)) ?R s) (pending(j := pending j @ take ?m src), committed)"
      proof (rule keep)
        show "pending j @ take ?m src = take k' (?R ! i)" if "Some (k + ?m) = Some k'" for k'
        proof -
          have "?R ! i = overwrite k (take ?m src) ?g" using i(2) I(1) by simp
          then show ?thesis using that mine last t by (simp only: option.inject) simp
        qed
        show "take k' (?R ! (roles ! x)) = take k' (?regs ! (roles ! x))"
          if "x < length roles" "x \<noteq> j" "snd (holders s ! x) = Some k'" for x k'
          using alone [OF that(1,2)] that(3) h by (cases "roles ! x = i") simp_all
      qed (use I b in simp_all)
      then show ?thesis using h inv WriteInTx by (simp add: spec_step_def Let_def)
    next
      case (IncMarkerInTx m)
      then have "i \<noteq> 0" "i \<noteq> n - 1" using d by simp_all
      then have "fifo_inv n roles (hold j (Some (k + unat m)) ?regs s) (pending(j := pending j), committed)"
        by (intro keep) (use I in auto)
      then show ?thesis using h inv IncMarkerInTx by (simp add: spec_step_def)
    qed
  qed
qed

lemma fifo_run:
  assumes "rb_run n roles st l"
  shows "2 \<le> n \<and> (\<forall>i \<in> set roles. i < n) \<and> (\<exists>s. rb_rel st s \<and> fifo_inv n roles s l)"
  using assms
proof (induction rule: rb_run.induct)
  case (rb_created minDataByteSize contents r)
  let ?s = "fresh_spec n roles contents"
  have "rb_rel (r, map (\<lambda>i. (i, RingBufferRole)) roles) ?s" by (rule fresh_rel) (use rb_created in simp_all)
  moreover have "fifo_inv n roles ?s (\<lambda>_. [], \<lambda>_. [])"
    using rb_created(3) by (auto simp: fifo_inv_def fresh_spec_def comp_def butlast_append)
  ultimately show ?case using rb_created(3,4) by blast
next
  case (rb_stepped st l j ev resp st')
  then obtain s where s: "rb_rel st s" "fifo_inv n roles s l" and n: "2 \<le> n" "\<forall>i \<in> set roles. i < n" by blast
  obtain r insts where st: "st = (r, insts)" by fastforce
  obtain pending committed where l: "l = (pending, committed)" by fastforce
  note D = rb_relD [OF s(1) [unfolded st]]
  have len: "length insts = length roles" "length (regions s) = n" "map fst (holders s) = roles"
    using s(2) D(2) by (auto simp: fifo_inv_def)
  have fst: "fst (holders s ! x) = roles ! x" if "x < length roles" for x using len that D(2) by (metis nth_map)
  have small: "k \<le> length (regions s ! (roles ! x))" if "x < length roles" "snd (holders s ! x) = Some k" for x k
    using D(3) [of x] fst [OF that(1)] that len(1) by (cases "insts ! x"; cases "holders s ! x") auto
  obtain st'' where "rb_step j ev st = Inr (fst (spec_step j ev s), st'')" "rb_rel st'' (snd (spec_step j ev s))"
    using rb_simulates [OF s(1) [unfolded st], of j ev] rb_stepped.hyps(2,3) len(1) st by auto
  then have rel: "resp = fst (spec_step j ev s)" "rb_rel st' (snd (spec_step j ev s))" using rb_stepped.hyps(5) by auto
  have "fifo_inv n roles (snd (spec_step j ev s)) (record_event j (roles ! j) ev (fst (spec_step j ev s)) (pending, committed))"
  proof (rule fifo_step [OF s(2) [unfolded l] n(1) rb_stepped.hyps(2) refl])
    show "snd (holders s ! x) = None"
      if "x < length roles" "x \<noteq> j" "roles ! x = roles ! j" "snd (holders s ! j) \<noteq> None" for x
      using D(5) [of x j] that fst rb_stepped.hyps(2) len(1) by metis
  qed (use n rb_stepped.hyps small in auto)
  then show ?case using rel l n by auto
qed

text \<open>
  C25: a ring buffer is a queue. In every run, from its creation on and whatever the interleaving of
  the role objects, what the last role has committed is what the first role has committed to
  have read, followed by the bytes that are still in the regions of the roles before the last.
\<close>

theorem ring_fifo:
  assumes "rb_run n roles (r, insts) (pending, committed)"
  shows "\<exists>regs. ring_rel r regs \<and> committed (n - 1) = committed 0 @ concat (butlast regs)"
  using fifo_run [OF assms] by (auto simp: rb_rel_def fifo_inv_def)

fun ledger_of :: "nat list \<Rightarrow> (nat \<times> rb_event) list \<Rightarrow> rb_response list \<Rightarrow> ledger \<Rightarrow> ledger" where
  "ledger_of roles ((j, ev) # evs) (resp # resps) l = ledger_of roles evs resps (record_event j (roles ! j) ev resp l)"
| "ledger_of roles evs resps l = l"

lemma rb_run_exec:
  "rb_run n roles st l \<Longrightarrow> \<forall>(j, ev) \<in> set evs. j < length roles \<and> buffer_ok ev \<and> disciplined n (roles ! j) ev \<Longrightarrow>
     rb_exec evs st = Inr (resps, st') \<Longrightarrow> rb_run n roles st' (ledger_of roles evs resps l)"
proof (induction evs arbitrary: st l resps)
  case (Cons e evs)
  obtain j ev where e: "e = (j, ev)" by fastforce
  from Cons.prems(3) obtain resp st1 resps1 where step: "rb_step j ev st = Inr (resp, st1)"
    and rest: "rb_exec evs st1 = Inr (resps1, st')" and resps: "resps = resp # resps1"
    by (auto simp: e bindR_eq_Inr)
  have "rb_run n roles st1 (record_event j (roles ! j) ev resp l)"
    by (rule rb_stepped [OF Cons.prems(1) _ _ _ step]) (use Cons.prems(2) e in auto)
  from Cons.IH [OF this _ rest] Cons.prems(2) show ?case by (auto simp: e resps)
qed simp

theorem ring_fifo_witness:
  "\<exists>resps r insts regs. rb_exec sample_run (sample_ring, [(0, RingBufferRole), (1, RingBufferRole)]) = Inr (resps, (r, insts)) \<and>
    ring_rel r regs \<and> [10, 20, 30, 40, 50, 60] = [10, 20] @ concat (butlast regs)"
proof -
  have "rb_run 2 [0, 1] (sample_ring, map (\<lambda>i. (i, RingBufferRole)) [0, 1]) (\<lambda>_. [], \<lambda>_. [])"
    by (rule rb_created [OF sample_ring_created]) simp_all
  note start = this
  obtain st' where run: "rb_exec sample_run (sample_ring, map (\<lambda>i. (i, RingBufferRole)) [0, 1]) =
      Inr (fst (spec_exec sample_run (fresh_spec 2 [0, 1] [0, 0, 0, 0])), st')"
    using rb_exec_simulates [OF fresh_rel [OF sample_ring_created, of "[0, 1]"], of 2 sample_run] by (auto simp: sample_run_def)
  obtain r insts where st': "st' = (r, insts)" by fastforce
  define resps :: "rb_response list" where "resps = fst (spec_exec sample_run (fresh_spec 2 [0, 1] [0, 0, 0, 0]))"
  obtain pending committed where l: "ledger_of [0, 1] sample_run resps (\<lambda>_. [], \<lambda>_. []) = (pending, committed)" by fastforce
  have "rb_run 2 [0, 1] (r, insts) (pending, committed)"
    unfolding l [symmetric] st' [symmetric] resps_def
    by (rule rb_run_exec [OF start _ run]) (simp add: sample_run_def)
  from ring_fifo [OF this] obtain regs where "ring_rel r regs" "committed 1 = committed 0 @ concat (butlast regs)" by auto
  moreover have "committed 1 = [10, 20, 30, 40, 50, 60]" "committed 0 = [10, 20]"
    using l [unfolded resps_def sample_run_spec] by (auto simp: sample_run_def)
  ultimately show ?thesis using run st' by auto
qed

end
