(* ===== verification/Nop.thy ===== *)
theory Nop
  imports Ring_Buffer
begin

text \<open>
  The reader and the writer that serialization uses (\<^verbatim>\<open>tensorpipe/common/nop.h\<close>): they work on one
  or two areas of memory and spill over from the first into the second. The (de)serializers of
  libnop are arbitrary programs over their operations.
\<close>

section \<open>NopReader\<close>

record nop_reader =
  rptr1 :: "64 word"
  rlen1 :: "64 word"
  rptr2 :: "64 word"
  rlen2 :: "64 word"

definition NopReader :: "64 word \<times> 64 word \<Rightarrow> 64 word \<times> 64 word \<Rightarrow> nop_reader" where
  "NopReader b1 b2 = \<lparr>rptr1 = fst b1, rlen1 = snd b1, rptr2 = fst b2, rlen2 = snd b2\<rparr>"

definition reader_spill :: "nop_reader \<Rightarrow> nop_reader" where
  "reader_spill rd = \<lparr>rptr1 = rptr2 rd, rlen1 = rlen2 rd, rptr2 = 0, rlen2 = 0\<rparr>"

definition reader_Ensure :: "64 word \<Rightarrow> nop_reader \<Rightarrow> bool" where
  "reader_Ensure len rd \<longleftrightarrow> len \<le> rlen1 rd + rlen2 rd"

definition reader_advance :: "64 word \<Rightarrow> nop_reader \<Rightarrow> nop_reader" where
  "reader_advance len rd = rd\<lparr>rptr1 := rptr1 rd + len, rlen1 := rlen1 rd - len\<rparr>"

definition reader_ReadByte :: "byte list \<Rightarrow> nop_reader \<Rightarrow> (byte \<times> nop_reader) result" where
  "reader_ReadByte mem rd =
     (let rd' = (if rlen1 rd = 0 then reader_spill rd else rd) in
      if unat (rptr1 rd') < length mem then Inr (mem ! unat (rptr1 rd'), reader_advance 1 rd') else Inl OutOfRange)"

definition reader_Read :: "64 word \<Rightarrow> byte list \<Rightarrow> nop_reader \<Rightarrow> (byte list \<times> nop_reader) result" where
  "reader_Read len mem rd =
     (if rlen1 rd < len
      then bindR (copy_out (rptr1 rd, rlen1 rd) mem) (\<lambda>xs.
             let len' = len - rlen1 rd; rd' = reader_spill rd in
             bindR (copy_out (rptr1 rd', len') mem) (\<lambda>ys. Inr (xs @ ys, reader_advance len' rd')))
      else bindR (copy_out (rptr1 rd, len) mem) (\<lambda>xs. Inr (xs, reader_advance len rd)))"

definition reader_Skip :: "64 word \<Rightarrow> nop_reader \<Rightarrow> nop_reader" where
  "reader_Skip paddingBytes rd =
     (if rlen1 rd < paddingBytes then reader_advance (paddingBytes - rlen1 rd) (reader_spill rd)
      else reader_advance paddingBytes rd)"

section \<open>NopWriter\<close>

record nop_writer =
  wptr1 :: "64 word"
  wlen1 :: "64 word"
  wptr2 :: "64 word"
  wlen2 :: "64 word"

definition NopWriter :: "64 word \<times> 64 word \<Rightarrow> 64 word \<times> 64 word \<Rightarrow> nop_writer" where
  "NopWriter b1 b2 = \<lparr>wptr1 = fst b1, wlen1 = snd b1, wptr2 = fst b2, wlen2 = snd b2\<rparr>"

definition writer_spill :: "nop_writer \<Rightarrow> nop_writer" where
  "writer_spill wr = \<lparr>wptr1 = wptr2 wr, wlen1 = wlen2 wr, wptr2 = 0, wlen2 = 0\<rparr>"

definition writer_Prepare :: "64 word \<Rightarrow> nop_writer \<Rightarrow> bool" where
  "writer_Prepare len wr \<longleftrightarrow> len \<le> wlen1 wr + wlen2 wr"

definition writer_advance :: "64 word \<Rightarrow> nop_writer \<Rightarrow> nop_writer" where
  "writer_advance len wr = wr\<lparr>wptr1 := wptr1 wr + len, wlen1 := wlen1 wr - len\<rparr>"

definition writer_WriteByte :: "byte \<Rightarrow> byte list \<Rightarrow> nop_writer \<Rightarrow> (byte list \<times> nop_writer) result" where
  "writer_WriteByte b mem wr =
     (let wr' = (if wlen1 wr = 0 then writer_spill wr else wr) in
      if unat (wptr1 wr') < length mem then Inr (mem[unat (wptr1 wr') := b], writer_advance 1 wr') else Inl OutOfRange)"

definition writer_Write :: "byte list \<Rightarrow> byte list \<Rightarrow> nop_writer \<Rightarrow> (byte list \<times> nop_writer) result" where
  "writer_Write src mem wr =
     (let len = of_nat (length src) in
      if wlen1 wr < len
      then bindR (copy_in (wptr1 wr, wlen1 wr) src mem) (\<lambda>mem1.
             let len' = len - wlen1 wr; wr' = writer_spill wr in
             bindR (copy_in (wptr1 wr', len') (drop (unat (wlen1 wr)) src) mem1) (\<lambda>mem2.
               Inr (mem2, writer_advance len' wr')))
      else bindR (copy_in (wptr1 wr, len) src mem) (\<lambda>mem1. Inr (mem1, writer_advance len wr)))"

definition mem_set :: "64 word \<Rightarrow> byte \<Rightarrow> 64 word \<Rightarrow> byte list \<Rightarrow> byte list result" where
  "mem_set ptr b len mem = copy_in (ptr, len) (replicate (unat len) b) mem"

definition writer_Skip :: "64 word \<Rightarrow> byte \<Rightarrow> byte list \<Rightarrow> nop_writer \<Rightarrow> (byte list \<times> nop_writer) result" where
  "writer_Skip paddingBytes paddingValue mem wr =
     (if wlen1 wr < paddingBytes
      then bindR (mem_set (wptr1 wr) paddingValue paddingBytes mem) (\<lambda>mem1.
             let len' = paddingBytes - wlen1 wr; wr' = writer_spill wr in
             bindR (mem_set (wptr1 wr') paddingValue len' mem1) (\<lambda>mem2. Inr (mem2, writer_advance len' wr')))
      else bindR (mem_set (wptr1 wr) paddingValue paddingBytes mem) (\<lambda>mem1. Inr (mem1, writer_advance paddingBytes wr)))"

section \<open>Reading is reading from one list\<close>

definition area :: "byte list \<Rightarrow> 64 word \<Rightarrow> 64 word \<Rightarrow> byte list" where
  "area mem ptr len = take (unat len) (drop (unat ptr) mem)"

lemma length_area [simp]: "unat ptr + unat len \<le> length mem \<Longrightarrow> length (area mem ptr len) = unat len"
  by (simp add: area_def)

lemma copy_out_area: "copy_out (ptr, len) mem = (if unat ptr + unat len \<le> length mem then Inr (area mem ptr len) else Inl OutOfRange)"
  by (simp add: copy_out_def area_def Let_def)

lemma area_split:
  assumes "k \<le> len" and "unat ptr + unat len \<le> length mem" and "length mem < 2 ^ 62"
  shows "area mem ptr len = area mem ptr k @ area mem (ptr + k) (len - k)"
    and "unat (ptr + k) + unat (len - k) = unat ptr + unat len"
proof -
  have le: "unat k \<le> unat len" using assms(1) by (simp add: word_le_nat_alt)
  have p: "unat (ptr + k) = unat ptr + unat k" using assms le by (subst unat_add_lem [THEN iffD1]) simp_all
  have l: "unat (len - k) = unat len - unat k" using assms(1) by (rule unat_sub)
  show "unat (ptr + k) + unat (len - k) = unat ptr + unat len" using p l le by simp
  have "take (unat len) (drop (unat ptr) mem) = take (unat k + (unat len - unat k)) (drop (unat ptr) mem)" using le by simp
  then show "area mem ptr len = area mem ptr k @ area mem (ptr + k) (len - k)"
    unfolding area_def p l take_add by (simp add: add.commute)
qed

definition reader_view :: "byte list \<Rightarrow> nop_reader \<Rightarrow> byte list" where
  "reader_view mem rd = area mem (rptr1 rd) (rlen1 rd) @ area mem (rptr2 rd) (rlen2 rd)"

definition reader_ok :: "byte list \<Rightarrow> nop_reader \<Rightarrow> bool" where
  "reader_ok mem rd \<longleftrightarrow> unat (rptr1 rd) + unat (rlen1 rd) \<le> length mem \<and> unat (rptr2 rd) + unat (rlen2 rd) \<le> length mem \<and>
     length mem < 2 ^ 62"

lemma reader_view_length: "reader_ok mem rd \<Longrightarrow> length (reader_view mem rd) = unat (rlen1 rd) + unat (rlen2 rd)"
  by (simp add: reader_ok_def reader_view_def)

lemma reader_spill_view: "reader_ok mem rd \<Longrightarrow> reader_ok mem (reader_spill rd) \<and> reader_view mem (reader_spill rd) = drop (unat (rlen1 rd)) (reader_view mem rd)"
  by (simp add: reader_ok_def reader_view_def reader_spill_def area_def [of mem 0 0])

lemma reader_advance_view:
  assumes "reader_ok mem rd" and "len \<le> rlen1 rd"
  shows "reader_ok mem (reader_advance len rd) \<and> reader_view mem (reader_advance len rd) = drop (unat len) (reader_view mem rd)"
proof -
  have ok: "unat (rptr1 rd) + unat (rlen1 rd) \<le> length mem" "length mem < 2 ^ 62" using assms(1) by (simp_all add: reader_ok_def)
  have "unat len \<le> unat (rlen1 rd)" using assms(2) by (simp add: word_le_nat_alt)
  then have "length (area mem (rptr1 rd) len) = unat len" using ok by simp
  then show ?thesis
    using assms area_split [OF assms(2) ok] by (simp add: reader_ok_def reader_view_def reader_advance_def)
qed

lemma reader_Ensure_view:
  assumes "reader_ok mem rd"
  shows "reader_Ensure len rd \<longleftrightarrow> unat len \<le> length (reader_view mem rd)"
proof -
  have "unat (rlen1 rd + rlen2 rd) = unat (rlen1 rd) + unat (rlen2 rd)"
    using assms by (subst unat_add_lem [THEN iffD1]) (simp_all add: reader_ok_def)
  then show ?thesis using reader_view_length [OF assms] by (simp add: reader_Ensure_def word_le_nat_alt)
qed

lemma reader_Read_view:
  assumes ok: "reader_ok mem rd" and len: "unat len \<le> length (reader_view mem rd)"
  shows "\<exists>rd'. reader_Read len mem rd = Inr (take (unat len) (reader_view mem rd), rd') \<and> reader_ok mem rd' \<and>
    reader_view mem rd' = drop (unat len) (reader_view mem rd)"
proof (cases "rlen1 rd < len")
  case True
  let ?len = "len - rlen1 rd" and ?sp = "reader_spill rd"
  have sub: "unat ?len = unat len - unat (rlen1 rd)" "unat (rlen1 rd) \<le> unat len"
    using True by (simp_all add: unat_sub word_le_nat_alt word_less_nat_alt less_imp_le)
  have le2: "unat ?len \<le> unat (rlen2 rd)" using len sub reader_view_length [OF ok] by simp
  then have adv: "reader_ok mem (reader_advance ?len ?sp)" "reader_view mem (reader_advance ?len ?sp) = drop (unat len) (reader_view mem rd)"
    using reader_advance_view [of mem ?sp ?len] reader_spill_view [OF ok] sub by (simp_all add: reader_spill_def word_le_nat_alt)
  have "area mem (rptr2 rd) (rlen2 rd) = area mem (rptr2 rd) ?len @ area mem (rptr2 rd + ?len) (rlen2 rd - ?len)"
    using area_split(1) [of ?len "rlen2 rd" "rptr2 rd" mem] le2 ok by (simp add: reader_ok_def word_le_nat_alt)
  moreover have "length (area mem (rptr2 rd) ?len) = unat ?len"
    by (rule length_area) (use le2 ok in \<open>simp add: reader_ok_def\<close>)
  ultimately have "take (unat len) (reader_view mem rd) = area mem (rptr1 rd) (rlen1 rd) @ area mem (rptr2 rd) ?len"
    using ok sub le2 by (simp add: reader_view_def reader_ok_def)
  then show ?thesis
    using True ok adv le2 by (simp add: reader_Read_def copy_out_area reader_ok_def reader_spill_def Let_def)
next
  case False
  then have le: "len \<le> rlen1 rd" "unat len \<le> unat (rlen1 rd)" by (simp_all add: word_le_nat_alt not_less)
  then have "take (unat len) (reader_view mem rd) = area mem (rptr1 rd) len"
    using ok area_split(1) [OF le(1), of "rptr1 rd" mem] by (simp add: reader_view_def reader_ok_def)
  then show ?thesis
    using False ok le reader_advance_view [OF ok le(1)] by (simp add: reader_Read_def copy_out_area reader_ok_def)
qed

lemma reader_Skip_view:
  assumes ok: "reader_ok mem rd" and len: "unat len \<le> length (reader_view mem rd)"
  shows "reader_ok mem (reader_Skip len rd) \<and> reader_view mem (reader_Skip len rd) = drop (unat len) (reader_view mem rd)"
proof (cases "rlen1 rd < len")
  case True
  have sub: "unat (len - rlen1 rd) = unat len - unat (rlen1 rd)" "unat (rlen1 rd) \<le> unat len"
    using True by (simp_all add: unat_sub word_le_nat_alt word_less_nat_alt less_imp_le)
  have "unat (len - rlen1 rd) \<le> unat (rlen2 rd)" using len sub reader_view_length [OF ok] by simp
  then show ?thesis
    using True sub reader_advance_view [of mem "reader_spill rd" "len - rlen1 rd"] reader_spill_view [OF ok]
    by (simp add: reader_Skip_def reader_spill_def word_le_nat_alt)
next
  case False
  then have "len \<le> rlen1 rd" by (simp add: not_less)
  then show ?thesis using reader_advance_view [OF ok, of len] False unfolding reader_Skip_def by (simp only: if_False)
qed

text \<open>A byte is read as a range of length one is.\<close>

lemma reader_ReadByte_Read:
  assumes "reader_ok mem rd" and "reader_view mem rd \<noteq> []"
  shows "bindR (reader_ReadByte mem rd) (\<lambda>(b, rd'). Inr ([b], rd')) = reader_Read 1 mem rd"
  using assms
  by (auto simp: reader_ReadByte_def reader_Read_def reader_view_def reader_ok_def reader_spill_def copy_out_def Let_def
      word_less_nat_alt unat_eq_0 take_Suc_conv_app_nth split: if_splits)

section \<open>Writing is overwriting a list of positions\<close>

definition put :: "nat list \<Rightarrow> byte list \<Rightarrow> byte list \<Rightarrow> byte list" where
  "put ps bs mem = fold (\<lambda>(p, b) m. m[p := b]) (zip ps bs) mem"

lemma put_simps [simp]:
  "put [] bs mem = mem" "put ps [] mem = mem" "put (p # ps) (b # bs) mem = put ps bs (mem[p := b])"
  by (simp_all add: put_def)

lemma length_put [simp]: "length (put ps bs mem) = length mem"
  by (induction ps bs arbitrary: mem rule: list_induct2') simp_all

lemma put_append: "length ps = length bs \<Longrightarrow> put (ps @ ps') (bs @ bs') mem = put ps' bs' (put ps bs mem)"
  by (simp add: put_def)

lemma put_range: "ptr + length bs \<le> length mem \<Longrightarrow> put [ptr..<ptr + length bs] bs mem = take ptr mem @ bs @ drop (ptr + length bs) mem"
proof (induction bs arbitrary: ptr mem)
  case (Cons b bs)
  have "[ptr..<ptr + length (b # bs)] = ptr # [Suc ptr..<Suc ptr + length bs]" by (subst upt_conv_Cons) simp_all
  moreover have "take (Suc ptr) (mem[ptr := b]) = take ptr mem @ [b]" using Cons.prems by (simp add: take_Suc_conv_app_nth)
  ultimately show ?case using Cons.IH [of "Suc ptr" "mem[ptr := b]"] Cons.prems by simp
qed simp

lemma copy_in_put:
  assumes "unat ptr + unat len \<le> length mem" and "unat len \<le> length src"
  shows "copy_in (ptr, len) src mem = Inr (put [unat ptr..<unat ptr + unat len] (take (unat len) src) mem)"
  using put_range [of "unat ptr" "take (unat len) src" mem] assms by (simp add: copy_in_def min_absorb2 Let_def)

definition writer_places :: "nop_writer \<Rightarrow> nat list" where
  "writer_places wr = [unat (wptr1 wr)..<unat (wptr1 wr) + unat (wlen1 wr)] @ [unat (wptr2 wr)..<unat (wptr2 wr) + unat (wlen2 wr)]"

definition writer_ok :: "nat \<Rightarrow> nop_writer \<Rightarrow> bool" where
  "writer_ok n wr \<longleftrightarrow> unat (wptr1 wr) + unat (wlen1 wr) \<le> n \<and> unat (wptr2 wr) + unat (wlen2 wr) \<le> n \<and> n < 2 ^ 62"

lemma length_writer_places: "length (writer_places wr) = unat (wlen1 wr) + unat (wlen2 wr)"
  by (simp add: writer_places_def)

lemma writer_spill_places:
  "writer_ok n wr \<Longrightarrow> writer_ok n (writer_spill wr) \<and> writer_places (writer_spill wr) = drop (unat (wlen1 wr)) (writer_places wr)"
  by (simp add: writer_ok_def writer_places_def writer_spill_def)

lemma writer_advance_places:
  assumes "writer_ok n wr" and "len \<le> wlen1 wr"
  shows "writer_ok n (writer_advance len wr) \<and> writer_places (writer_advance len wr) = drop (unat len) (writer_places wr)"
proof -
  have le: "unat len \<le> unat (wlen1 wr)" using assms(2) by (simp add: word_le_nat_alt)
  have p: "unat (wptr1 wr + len) = unat (wptr1 wr) + unat len"
    using assms(1) le by (subst unat_add_lem [THEN iffD1]) (simp_all add: writer_ok_def)
  have l: "unat (wlen1 wr - len) = unat (wlen1 wr) - unat len" using assms(2) by (rule unat_sub)
  show ?thesis using assms(1) le by (simp add: writer_ok_def writer_places_def writer_advance_def p l)
qed

lemma writer_Write_places:
  assumes ok: "writer_ok (length mem) wr" and len: "length src \<le> length (writer_places wr)"
  shows "\<exists>wr'. writer_Write src mem wr = Inr (put (writer_places wr) src mem, wr') \<and> writer_ok (length mem) wr' \<and>
    writer_places wr' = drop (length src) (writer_places wr)"
proof -
  let ?len = "of_nat (length src) :: 64 word" and ?l1 = "unat (wlen1 wr)" and ?p1 = "unat (wptr1 wr)" and ?p2 = "unat (wptr2 wr)"
  have small: "length src < 2 ^ 64" using ok len by (simp add: writer_ok_def length_writer_places)
  then have u: "unat ?len = length src" using unat_word_of_nat [of "length src", where 'a = 64] by simp
  show ?thesis
  proof (cases "wlen1 wr < ?len")
    case True
    let ?len' = "?len - wlen1 wr"
    have sub: "unat ?len' = length src - ?l1" "?l1 < length src"
      using True u by (simp_all add: unat_sub word_le_nat_alt word_less_nat_alt less_imp_le)
    have le2: "unat ?len' \<le> unat (wlen2 wr)" using len sub by (simp add: length_writer_places)
    have adv: "writer_ok (length mem) (writer_advance ?len' (writer_spill wr))"
      "writer_places (writer_advance ?len' (writer_spill wr)) = drop (length src) (writer_places wr)"
      using writer_advance_places [of "length mem" "writer_spill wr" ?len'] writer_spill_places [OF ok] sub le2
      by (simp_all add: writer_spill_def word_le_nat_alt)
    let ?m1 = "put [?p1..<?p1 + ?l1] (take ?l1 src) mem"
    have c1: "copy_in (wptr1 wr, wlen1 wr) src mem = Inr ?m1"
      by (rule copy_in_put) (use ok sub in \<open>simp_all add: writer_ok_def\<close>)
    have c2: "copy_in (wptr2 wr, ?len') (drop ?l1 src) ?m1 = Inr (put [?p2..<?p2 + unat ?len'] (drop ?l1 src) ?m1)"
    proof -
      have "copy_in (wptr2 wr, ?len') (drop ?l1 src) ?m1 = Inr (put [?p2..<?p2 + unat ?len'] (take (unat ?len') (drop ?l1 src)) ?m1)"
      proof (rule copy_in_put)
        show "unat (wptr2 wr) + unat ?len' \<le> length ?m1" using ok le2 unfolding writer_ok_def length_put by linarith
      qed (use sub in simp)
      then show ?thesis by (simp add: sub(1))
    qed
    have "[?p2..<?p2 + unat (wlen2 wr)] = [?p2..<?p2 + unat ?len'] @ [?p2 + unat ?len'..<?p2 + unat (wlen2 wr)]"
      using le2 upt_add_eq_append [of ?p2 "?p2 + unat ?len'" "unat (wlen2 wr) - unat ?len'"] by simp
    then have "put (writer_places wr) src mem = put [?p2..<?p2 + unat ?len'] (drop ?l1 src) ?m1"
      using put_append [of "[?p1..<?p1 + ?l1]" "take ?l1 src" "[?p2..<?p2 + unat (wlen2 wr)]" "drop ?l1 src" mem]
        put_append [of "[?p2..<?p2 + unat ?len']" "drop ?l1 src" _ "[]" ?m1] sub
      by (simp add: writer_places_def min_absorb2)
    then show ?thesis using True c1 c2 adv by (simp add: writer_Write_def Let_def writer_spill_def)
  next
    case False
    then have le: "?len \<le> wlen1 wr" "length src \<le> ?l1" using u by (simp_all add: word_le_nat_alt not_less)
    have "[?p1..<?p1 + ?l1] = [?p1..<?p1 + length src] @ [?p1 + length src..<?p1 + ?l1]"
      using le(2) upt_add_eq_append [of ?p1 "?p1 + length src" "?l1 - length src"] by simp
    then have "put (writer_places wr) src mem = put [?p1..<?p1 + length src] src mem"
      using put_append [of "[?p1..<?p1 + length src]" src _ "[]" mem] by (simp add: writer_places_def)
    moreover have "copy_in (wptr1 wr, ?len) src mem = Inr (put [?p1..<?p1 + length src] src mem)"
      using copy_in_put [of "wptr1 wr" ?len mem src] ok le u by (simp add: writer_ok_def)
    ultimately show ?thesis
      using False writer_advance_places [OF ok le(1)] u by (simp add: writer_Write_def)
  qed
qed

section \<open>Serializers\<close>

text \<open>
  A deserializer, as a program over the operations of the reader, and a serializer, as a
  program over those of the writer. A program may ask before it reads or writes.
\<close>

datatype 'a reader_prog =
    RFinish 'a
  | REnsure "64 word" "bool \<Rightarrow> 'a reader_prog"
  | RByte "byte \<Rightarrow> 'a reader_prog"
  | RRead "64 word" "byte list \<Rightarrow> 'a reader_prog"
  | RSkip "64 word" "'a reader_prog"

datatype 'a writer_prog =
    WFinish 'a
  | WPrepare "64 word" "bool \<Rightarrow> 'a writer_prog"
  | WBytes "byte list" "'a writer_prog"

primrec run_reader :: "'a reader_prog \<Rightarrow> byte list \<Rightarrow> nop_reader \<Rightarrow> 'a result" where
  "run_reader (RFinish x) mem rd = Inr x"
| "run_reader (REnsure len f) mem rd = run_reader (f (reader_Ensure len rd)) mem rd"
| "run_reader (RByte f) mem rd = (case reader_ReadByte mem rd of Inl e \<Rightarrow> Inl e | Inr (b, rd') \<Rightarrow> run_reader (f b) mem rd')"
| "run_reader (RRead len f) mem rd = (case reader_Read len mem rd of Inl e \<Rightarrow> Inl e | Inr (xs, rd') \<Rightarrow> run_reader (f xs) mem rd')"
| "run_reader (RSkip len p) mem rd = run_reader p mem (reader_Skip len rd)"

primrec run_writer :: "'a writer_prog \<Rightarrow> byte list \<Rightarrow> nop_writer \<Rightarrow> ('a \<times> byte list) result" where
  "run_writer (WFinish x) mem wr = Inr (x, mem)"
| "run_writer (WPrepare len f) mem wr = run_writer (f (writer_Prepare len wr)) mem wr"
| "run_writer (WBytes bs p) mem wr = (case writer_Write bs mem wr of Inl e \<Rightarrow> Inl e | Inr (mem', wr') \<Rightarrow> run_writer p mem' wr')"

text \<open>The same programs on a plain list of bytes; it is a fault to go beyond its end.\<close>

primrec parse :: "'a reader_prog \<Rightarrow> byte list \<Rightarrow> 'a result" where
  "parse (RFinish x) xs = Inr x"
| "parse (REnsure len f) xs = parse (f (unat len \<le> length xs)) xs"
| "parse (RByte f) xs = (case xs of [] \<Rightarrow> Inl OutOfRange | b # ys \<Rightarrow> parse (f b) ys)"
| "parse (RRead len f) xs =
     (if unat len \<le> length xs then parse (f (take (unat len) xs)) (drop (unat len) xs) else Inl OutOfRange)"
| "parse (RSkip len p) xs = (if unat len \<le> length xs then parse p (drop (unat len) xs) else Inl OutOfRange)"

primrec emit :: "'a writer_prog \<Rightarrow> nat \<Rightarrow> ('a \<times> byte list) result" where
  "emit (WFinish x) room = Inr (x, [])"
| "emit (WPrepare len f) room = emit (f (unat len \<le> room)) room"
| "emit (WBytes bs p) room =
     (if length bs \<le> room then bindR (emit p (room - length bs)) (\<lambda>(x, cs). Inr (x, bs @ cs)) else Inl OutOfRange)"

lemma run_reader_parse:
  assumes "reader_ok mem rd" and "parse p (reader_view mem rd) = Inr x"
  shows "run_reader p mem rd = Inr x"
  using assms
proof (induction p arbitrary: rd)
  case (REnsure len f)
  then show ?case using reader_Ensure_view [OF REnsure.prems(1)] by simp
next
  case (RByte f)
  then obtain b ys where v: "reader_view mem rd = b # ys" by (auto split: list.splits)
  obtain rd' where rd': "reader_Read 1 mem rd = Inr ([b], rd')" "reader_ok mem rd'" "reader_view mem rd' = ys"
    using reader_Read_view [OF RByte.prems(1), of 1] v by auto
  have "bindR (reader_ReadByte mem rd) (\<lambda>(b, rd'). Inr ([b], rd')) = Inr ([b], rd')"
    using reader_ReadByte_Read [OF RByte.prems(1)] v rd'(1) by simp
  then have "reader_ReadByte mem rd = Inr (b, rd')" by (auto simp: bindR_eq_Inr)
  then show ?case using RByte.IH [OF rangeI rd'(2)] RByte.prems(2) rd'(3) v by simp
next
  case (RRead len f)
  then have len: "unat len \<le> length (reader_view mem rd)" by (auto split: if_splits)
  from reader_Read_view [OF RRead.prems(1) this] RRead show ?case by (auto split: if_splits)
next
  case (RSkip len p)
  then have len: "unat len \<le> length (reader_view mem rd)" by (auto split: if_splits)
  from reader_Skip_view [OF RSkip.prems(1) this] RSkip show ?case by (auto split: if_splits)
qed simp

text \<open>
  C26: a reader over two areas is a reader of their concatenation. Whatever the deserializer does,
  as long as it does not read beyond the end of the data, it gets the same bytes and gives the
  same result wherever the boundary between the areas lies.
\<close>

theorem nop_reader_contiguous:
  assumes "reader_ok mem rd" and "parse p (reader_view mem rd) = Inr x"
  shows "run_reader p mem rd = Inr x"
  using assms by (rule run_reader_parse)

theorem nop_reader_contiguous_witness:
  "run_reader (RByte (\<lambda>a. RRead 2 (\<lambda>xs. RFinish (a # xs)))) [30, 99, 10, 20] (NopReader (2, 2) (0, 1)) = Inr [10, 20, 30]"
  by (rule nop_reader_contiguous) (simp_all add: NopReader_def reader_ok_def reader_view_def area_def)

lemma writer_Prepare_room:
  assumes "writer_ok n wr"
  shows "writer_Prepare len wr \<longleftrightarrow> unat len \<le> length (writer_places wr)"
proof -
  have "unat (wlen1 wr + wlen2 wr) = unat (wlen1 wr) + unat (wlen2 wr)"
    using assms by (subst unat_add_lem [THEN iffD1]) (simp_all add: writer_ok_def)
  then show ?thesis by (simp add: writer_Prepare_def word_le_nat_alt length_writer_places)
qed

lemma put_twice:
  assumes "length bs \<le> length ps"
  shows "put (drop (length bs) ps) cs (put ps bs mem) = put ps (bs @ cs) mem"
proof -
  have ps: "ps = take (length bs) ps @ drop (length bs) ps" by simp
  have "put ps bs mem = put (take (length bs) ps) bs mem"
    using put_append [of "take (length bs) ps" bs "drop (length bs) ps" "[]" mem] assms by (simp add: min_absorb2)
  then show ?thesis
    using put_append [of "take (length bs) ps" bs "drop (length bs) ps" cs mem] assms by (simp add: min_absorb2)
qed

lemma run_writer_emit:
  assumes "writer_ok (length mem) wr" and "emit p (length (writer_places wr)) = Inr (x, bs)"
  shows "run_writer p mem wr = Inr (x, put (writer_places wr) bs mem)"
  using assms
proof (induction p arbitrary: wr mem bs)
  case (WPrepare len f)
  then show ?case using writer_Prepare_room [OF WPrepare.prems(1)] by simp
next
  case (WBytes cs p)
  then obtain ds where e: "length cs \<le> length (writer_places wr)" "emit p (length (writer_places wr) - length cs) = Inr (x, ds)" "bs = cs @ ds"
    by (auto simp: bindR_eq_Inr split: if_splits)
  from writer_Write_places [OF WBytes.prems(1) e(1)] obtain wr' where
    w: "writer_Write cs mem wr = Inr (put (writer_places wr) cs mem, wr')" "writer_ok (length mem) wr'"
      "writer_places wr' = drop (length cs) (writer_places wr)" by blast
  then show ?case using WBytes.IH [of "put (writer_places wr) cs mem" wr' ds] e put_twice [OF e(1)] by simp
qed simp



text \<open>
  C28: \<^verbatim>\<open>NopWriter::Skip\<close> writes out of bounds. When the padding does not fit the first area, which
  ends where the ring buffer ends, the whole padding, and not the part that fits, is set from the
  first area on, even if the two areas together have room for it.
\<close>

theorem nop_writer_skip_overflows:
  assumes "unat (wptr1 wr) + unat (wlen1 wr) = length mem" and "wlen1 wr < paddingBytes"
  shows "writer_Skip paddingBytes paddingValue mem wr = Inl OutOfRange"
  using assms by (simp add: writer_Skip_def mem_set_def copy_in_def word_less_nat_alt Let_def)

theorem nop_writer_skip_overflows_witness:
  "writer_Prepare 3 (NopWriter (2, 2) (0, 2)) \<and> writer_Skip 3 0 [1, 2, 3, 4] (NopWriter (2, 2) (0, 2)) = Inl OutOfRange"
  using nop_writer_skip_overflows [of "NopWriter (2, 2) (0, 2)" "[1, 2, 3, 4]" 3 0] by (simp add: NopWriter_def writer_Prepare_def)

end
