(* ===== verification/Ring_Messages.thy ===== *)
theory Ring_Messages
  imports Ring_Fifo Nop
begin

text \<open>
  Messages over a ring buffer (\<^verbatim>\<open>tensorpipe/common/ringbuffer_read_write_ops.h\<close>): each is preceded by
  its length, may be written and read in several pieces, and comes from or goes to a buffer of
  the user, a buffer that is allocated on the way, or an object that is (de)serialized.
\<close>

section \<open>Operations\<close>

text \<open>An error number that is not expected is thrown.\<close>

fun errno_code :: "rb_errno \<Rightarrow> int" where
  "errno_code EBUSY = 16" | "errno_code EAGAIN = 11" | "errno_code EINVAL = 22" | "errno_code ENODATA = 61"

text \<open>A 32-bit integer in memory.\<close>

definition bytes_of_length :: "32 word \<Rightarrow> byte list" where
  "bytes_of_length w = map (\<lambda>k. ucast (drop_bit (8 * k) w)) [0..<4]"

definition length_of_bytes :: "byte list \<Rightarrow> 32 word" where
  "length_of_bytes bs = ucast (bs ! 0) OR push_bit 8 (ucast (bs ! 1)) OR push_bit 16 (ucast (bs ! 2)) OR push_bit 24 (ucast (bs ! 3))"

datatype nop_status = NopNone | NopLimitReached | NopOtherError

datatype rb_read_mode = READ_LENGTH | READ_PAYLOAD

datatype rb_write_mode = WRITE_LENGTH | WRITE_PAYLOAD

text \<open>What is in the destination from its beginning to \<^verbatim>\<open>bytesRead_\<close> is \<open>rd_buf\<close>; for an object, the bytes it was read from.\<close>

record rd_op =
  rd_mode :: rb_read_mode
  rd_len :: "64 word"
  rd_bytesRead :: "64 word"
  rd_ptrProvided :: bool
  rd_nop :: "nop_status reader_prog option"
  rd_buf :: "byte list"
  rd_fn :: nat

record wr_op =
  wr_mode :: rb_write_mode
  wr_src :: "byte list"
  wr_nop :: "nop_status writer_prog option"
  wr_len :: "64 word"
  wr_bytesWritten :: "64 word"
  wr_fn :: nat

definition RingbufferReadOperation_ptr :: "64 word \<Rightarrow> nat \<Rightarrow> rd_op" where
  "RingbufferReadOperation_ptr len fn = \<lparr>rd_mode = READ_LENGTH, rd_len = len, rd_bytesRead = 0, rd_ptrProvided = True,
     rd_nop = None, rd_buf = [], rd_fn = fn\<rparr>"

definition RingbufferReadOperation_alloc :: "nat \<Rightarrow> rd_op" where
  "RingbufferReadOperation_alloc fn = \<lparr>rd_mode = READ_LENGTH, rd_len = 0, rd_bytesRead = 0, rd_ptrProvided = False,
     rd_nop = None, rd_buf = [], rd_fn = fn\<rparr>"

definition RingbufferReadOperation_nop :: "nop_status reader_prog \<Rightarrow> nat \<Rightarrow> rd_op" where
  "RingbufferReadOperation_nop p fn = \<lparr>rd_mode = READ_LENGTH, rd_len = 0, rd_bytesRead = 0, rd_ptrProvided = False,
     rd_nop = Some p, rd_buf = [], rd_fn = fn\<rparr>"

definition RingbufferWriteOperation_ptr :: "byte list \<Rightarrow> 64 word \<Rightarrow> nat \<Rightarrow> wr_op" where
  "RingbufferWriteOperation_ptr src len fn = \<lparr>wr_mode = WRITE_LENGTH, wr_src = src, wr_nop = None, wr_len = len,
     wr_bytesWritten = 0, wr_fn = fn\<rparr>"

definition RingbufferWriteOperation_nop :: "nop_status writer_prog \<Rightarrow> 64 word \<Rightarrow> nat \<Rightarrow> wr_op" where
  "RingbufferWriteOperation_nop p len fn = \<lparr>wr_mode = WRITE_LENGTH, wr_src = [], wr_nop = Some p, wr_len = len,
     wr_bytesWritten = 0, wr_fn = fn\<rparr>"

definition rd_completed :: "rd_op \<Rightarrow> bool" where
  "rd_completed op \<longleftrightarrow> rd_mode op = READ_PAYLOAD \<and> rd_bytesRead op = rd_len op"

definition wr_completed :: "wr_op \<Rightarrow> bool" where
  "wr_completed op \<longleftrightarrow> wr_mode op = WRITE_PAYLOAD \<and> wr_bytesWritten op = wr_len op"

text \<open>The calls of \<^verbatim>\<open>fn_\<close>, with what the destination holds.\<close>

datatype rb_call = ReadCall nat tp_error "byte list" | WriteCall nat tp_error

definition rd_handleError :: "tp_error \<Rightarrow> rd_op \<Rightarrow> rb_call" where
  "rd_handleError e op = ReadCall (rd_fn op) e []"

definition wr_handleError :: "tp_error \<Rightarrow> wr_op \<Rightarrow> rb_call" where
  "wr_handleError e op = WriteCall (wr_fn op) e"

section \<open>Reading\<close>

definition two_areas :: "(64 word \<times> 64 word) list \<Rightarrow> (64 word \<times> 64 word) \<times> (64 word \<times> 64 word)" where
  "two_areas bs = ((case bs of [] \<Rightarrow> (0, 0) | b # _ \<Rightarrow> b), (case bs of _ # b # _ \<Rightarrow> b | _ \<Rightarrow> (0, 0)))"

definition readNopObject :: "nat \<Rightarrow> nop_status reader_prog \<Rightarrow> 64 word \<Rightarrow> role \<Rightarrow> ring \<Rightarrow> byte list rb_ret" where
  "readNopObject i p len ro r =
     throw_assert_if (len > kDataPoolByteSize r)
       (bindR (accessContiguousInTx False i len ro r) (\<lambda>(ret, ro').
          case ret of
            Inl e \<Rightarrow> Inr (Inl e, ro', r)
          | Inr buffers \<Rightarrow>
              let rd = NopReader (fst (two_areas buffers)) (snd (two_areas buffers)) in
              bindR (run_reader p (ring_data r) rd) (\<lambda>status.
                if status = NopLimitReached then Inr (Inl ENODATA, ro', r)
                else if status = NopOtherError then Inr (Inl EINVAL, ro', r)
                else Inr (Inr (reader_view (ring_data r) rd), ro', r))))"

definition rd_length_phase :: "nat \<Rightarrow> rd_op \<Rightarrow> role \<Rightarrow> ring \<Rightarrow> (64 word \<times> rd_op \<times> role \<times> ring) result" where
  "rd_length_phase i op ro r =
     (if rd_mode op = READ_LENGTH
      then bindR (readInTx False i 4 ro r) (\<lambda>(ret, ro', r').
             case ret of
               Inr bs \<Rightarrow>
                 let length = ucast (length_of_bytes bs);
                     op' = op\<lparr>rd_mode := READ_PAYLOAD\<rparr>;
                     n = of_nat (List.length bs)
                 in if rd_nop op \<noteq> None then Inr (n, op'\<lparr>rd_len := length\<rparr>, ro', r')
                    else if rd_ptrProvided op then dcheck (length = rd_len op) (Inr (n, op', ro', r'))
                    else Inr (n, op'\<lparr>rd_len := length, rd_buf := []\<rparr>, ro', r')
             | Inl e \<Rightarrow> if e \<noteq> ENODATA then Inl (SystemFault (errno_code e)) else Inr (0, op, ro', r'))
      else Inr (0, op, ro, r))"

definition rd_payload_phase :: "nat \<Rightarrow> rd_op \<Rightarrow> role \<Rightarrow> ring \<Rightarrow> (64 word \<times> rd_op \<times> role \<times> ring) result" where
  "rd_payload_phase i op ro r =
     (if rd_mode op = READ_PAYLOAD
      then bindR (case rd_nop op of
                    Some p \<Rightarrow> readNopObject i p (rd_len op) ro r
                  | None \<Rightarrow> readInTx True i (rd_len op - rd_bytesRead op) ro r) (\<lambda>(ret, ro', r').
             case ret of
               Inr bs \<Rightarrow>
                 let n = of_nat (length bs)
                 in Inr (n, op\<lparr>rd_bytesRead := rd_bytesRead op + n, rd_buf := rd_buf op @ bs\<rparr>, ro', r')
             | Inl e \<Rightarrow> if e \<noteq> ENODATA then Inl (SystemFault (errno_code e)) else Inr (0, op, ro', r'))
      else Inr (0, op, ro, r))"

definition handleRead :: "nat \<Rightarrow> rd_op \<Rightarrow> role \<Rightarrow> ring \<Rightarrow> (64 word \<times> rd_op \<times> role \<times> ring \<times> rb_call list) result" where
  "handleRead i op ro r =
     bindR (startTx i ro r) (\<lambda>(ret, ro1, r1).
       case ret of
         Inl e \<Rightarrow> Inl (SystemFault (errno_code e))
       | Inr _ \<Rightarrow>
           bindR (rd_length_phase i op ro1 r1) (\<lambda>(n1, op2, ro2, r2).
           bindR (rd_payload_phase i op2 ro2 r2) (\<lambda>(n2, op3, ro3, r3).
           bindR (commitTx i ro3 r3) (\<lambda>(ret, ro4, r4).
             case ret of
               Inl e \<Rightarrow> Inl (SystemFault (errno_code e))
             | Inr _ \<Rightarrow>
                 Inr (n1 + n2, op3, ro4, r4, if rd_completed op3 then [ReadCall (rd_fn op3) Success (rd_buf op3)] else [])))))"

section \<open>Writing\<close>

definition writeNopObject :: "nat \<Rightarrow> nop_status writer_prog \<Rightarrow> 64 word \<Rightarrow> role \<Rightarrow> ring \<Rightarrow> 64 word rb_ret" where
  "writeNopObject i p len ro r =
     throw_assert_if (len > kDataPoolByteSize r)
       (bindR (accessContiguousInTx False i len ro r) (\<lambda>(ret, ro').
          case ret of
            Inl e \<Rightarrow> Inr (Inl e, ro', r)
          | Inr buffers \<Rightarrow>
              bindR (run_writer p (ring_data r) (NopWriter (fst (two_areas buffers)) (snd (two_areas buffers)))) (\<lambda>(status, d).
                let r' = r\<lparr>ring_data := d\<rparr> in
                if status = NopLimitReached then Inr (Inl ENODATA, ro', r')
                else if status = NopOtherError then Inr (Inl EINVAL, ro', r')
                else Inr (Inr len, ro', r'))))"

definition wr_length_phase :: "nat \<Rightarrow> wr_op \<Rightarrow> role \<Rightarrow> ring \<Rightarrow> (64 word \<times> wr_op \<times> role \<times> ring) result" where
  "wr_length_phase i op ro r =
     (if wr_mode op = WRITE_LENGTH
      then bindR (writeInTx False i (bytes_of_length (ucast (wr_len op))) 4 ro r) (\<lambda>(ret, ro', r').
             case ret of
               Inr n \<Rightarrow> Inr (n, op\<lparr>wr_mode := WRITE_PAYLOAD\<rparr>, ro', r')
             | Inl e \<Rightarrow> if e \<noteq> ENODATA then Inl (SystemFault (errno_code e)) else Inr (0, op, ro', r'))
      else Inr (0, op, ro, r))"

definition wr_payload_phase :: "nat \<Rightarrow> wr_op \<Rightarrow> role \<Rightarrow> ring \<Rightarrow> (64 word \<times> wr_op \<times> role \<times> ring) result" where
  "wr_payload_phase i op ro r =
     (if wr_mode op = WRITE_PAYLOAD
      then bindR (case wr_nop op of
                    Some p \<Rightarrow> writeNopObject i p (wr_len op) ro r
                  | None \<Rightarrow> writeInTx True i (drop (unat (wr_bytesWritten op)) (wr_src op)) (wr_len op - wr_bytesWritten op) ro r)
             (\<lambda>(ret, ro', r').
               case ret of
                 Inr n \<Rightarrow> Inr (n, op\<lparr>wr_bytesWritten := wr_bytesWritten op + n\<rparr>, ro', r')
               | Inl e \<Rightarrow> if e \<noteq> ENODATA then Inl (SystemFault (errno_code e)) else Inr (0, op, ro', r'))
      else Inr (0, op, ro, r))"

definition handleWrite :: "nat \<Rightarrow> wr_op \<Rightarrow> role \<Rightarrow> ring \<Rightarrow> (64 word \<times> wr_op \<times> role \<times> ring \<times> rb_call list) result" where
  "handleWrite i op ro r =
     bindR (startTx i ro r) (\<lambda>(ret, ro1, r1).
       case ret of
         Inl e \<Rightarrow> Inl (SystemFault (errno_code e))
       | Inr _ \<Rightarrow>
           bindR (wr_length_phase i op ro1 r1) (\<lambda>(n1, op2, ro2, r2).
           bindR (wr_payload_phase i op2 ro2 r2) (\<lambda>(n2, op3, ro3, r3).
           bindR (commitTx i ro3 r3) (\<lambda>(ret, ro4, r4).
             case ret of
               Inl e \<Rightarrow> Inl (SystemFault (errno_code e))
             | Inr _ \<Rightarrow>
                 Inr (n1 + n2, op3, ro4, r4, if wr_completed op3 then [WriteCall (wr_fn op3) Success] else [])))))"

section \<open>The length on the wire\<close>

lemma length_of_bytes_of_length: "length_of_bytes (bytes_of_length w) = w"
proof (rule bit_word_eqI)
  fix i
  assume "i < LENGTH(32)"
  then have i: "i < 32" by simp
  have eq: "length_of_bytes (bytes_of_length w) =
      ucast (ucast w :: byte) OR push_bit 8 (ucast (ucast (drop_bit 8 w) :: byte)) OR
      push_bit 16 (ucast (ucast (drop_bit 16 w) :: byte)) OR push_bit 24 (ucast (ucast (drop_bit 24 w) :: byte))"
    by (simp add: length_of_bytes_def bytes_of_length_def upt_rec)
  have "bit (length_of_bytes (bytes_of_length w)) i \<longleftrightarrow>
      (i < 8 \<and> bit w i) \<or> (8 \<le> i \<and> i < 16 \<and> bit w i) \<or> (16 \<le> i \<and> i < 24 \<and> bit w i) \<or> (24 \<le> i \<and> bit w i)"
    unfolding eq using i by (auto simp: bit_or_iff bit_push_bit_iff bit_unsigned_iff bit_drop_bit_eq)
  then show "bit (length_of_bytes (bytes_of_length w)) i = bit w i" by auto
qed

lemma length_bytes_of_length [simp]: "length (bytes_of_length w) = 4"
  by (simp add: bytes_of_length_def)

end
