(* ===== verification/Connection_Boilerplate.thy ===== *)
theory Connection_Boilerplate
  imports Ring_Messages
begin

text \<open>
  The class template \<^verbatim>\<open>ConnectionImplBoilerplate\<close> of
  \<^verbatim>\<open>tensorpipe/transport/connection_impl_boilerplate.h\<close>, from which every connection derives. The
  virtual methods of the subclass are arguments. All functions run as tasks of the context's
  loop. Calls that leave the connection are recorded, in order, in its log; what the connection
  shares with others (memory) is passed along as \<open>m\<close>.
\<close>

section \<open>State\<close>

datatype 'x conn_effect = Callback rb_call | Effect 'x

record 'x conn_core =
  conn_id :: string
  conn_error :: tp_error
  nextBufferBeingRead :: "64 word"
  nextBufferBeingWritten :: "64 word"
  conn_log :: "'x conn_effect list"

type_synonym ('x, 'z, 'm) conn_ret = "(('x, 'z) conn_core_scheme \<times> 'm) result"

definition conn_logs :: "'x conn_effect list \<Rightarrow> ('x, 'z) conn_core_scheme \<Rightarrow> ('x, 'z) conn_core_scheme" where
  "conn_logs es c = c\<lparr>conn_log := conn_log c @ es\<rparr>"

section \<open>Operations\<close>

definition conn_initFromLoop ::
  "bool \<Rightarrow> (('x, 'z) conn_core_scheme \<Rightarrow> 'm \<Rightarrow> ('x, 'z, 'm) conn_ret) \<Rightarrow> ('x, 'z) conn_core_scheme \<Rightarrow> 'm \<Rightarrow> ('x, 'z, 'm) conn_ret" where
  "conn_initFromLoop context_closed initImpl c m =
     (if context_closed then Inr (c\<lparr>conn_error := ConnectionClosedError\<rparr>, m) else initImpl c m)"

text \<open>
  The three kinds of read and the two kinds of write differ in what they hand to the subclass,
  \<open>impl\<close>; with an error the callback is called at once.
\<close>

definition conn_readFromLoop ::
  "(('x, 'z) conn_core_scheme \<Rightarrow> 'm \<Rightarrow> ('x, 'z, 'm) conn_ret) \<Rightarrow> nat \<Rightarrow> ('x, 'z) conn_core_scheme \<Rightarrow> 'm \<Rightarrow> ('x, 'z, 'm) conn_ret" where
  "conn_readFromLoop impl fn c m =
     (let c1 = c\<lparr>nextBufferBeingRead := nextBufferBeingRead c + 1\<rparr>
      in if is_error (conn_error c1) then Inr (conn_logs [Callback (ReadCall fn (conn_error c1) [])] c1, m) else impl c1 m)"

definition conn_writeFromLoop ::
  "(('x, 'z) conn_core_scheme \<Rightarrow> 'm \<Rightarrow> ('x, 'z, 'm) conn_ret) \<Rightarrow> nat \<Rightarrow> ('x, 'z) conn_core_scheme \<Rightarrow> 'm \<Rightarrow> ('x, 'z, 'm) conn_ret" where
  "conn_writeFromLoop impl fn c m =
     (let c1 = c\<lparr>nextBufferBeingWritten := nextBufferBeingWritten c + 1\<rparr>
      in if is_error (conn_error c1) then Inr (conn_logs [Callback (WriteCall fn (conn_error c1))] c1, m) else impl c1 m)"

definition conn_readFromLoop_alloc ::
  "(nat \<Rightarrow> ('x, 'z) conn_core_scheme \<Rightarrow> 'm \<Rightarrow> ('x, 'z, 'm) conn_ret) \<Rightarrow> nat \<Rightarrow> ('x, 'z) conn_core_scheme \<Rightarrow> 'm \<Rightarrow> ('x, 'z, 'm) conn_ret" where
  "conn_readFromLoop_alloc readImpl fn = conn_readFromLoop (readImpl fn) fn"

definition conn_readFromLoop_nop ::
  "('p \<Rightarrow> nat \<Rightarrow> ('x, 'z) conn_core_scheme \<Rightarrow> 'm \<Rightarrow> ('x, 'z, 'm) conn_ret) \<Rightarrow> 'p \<Rightarrow> nat \<Rightarrow> ('x, 'z) conn_core_scheme \<Rightarrow> 'm \<Rightarrow> ('x, 'z, 'm) conn_ret" where
  "conn_readFromLoop_nop readImpl object fn = conn_readFromLoop (readImpl object fn) fn"

definition conn_readFromLoop_ptr ::
  "(64 word \<Rightarrow> nat \<Rightarrow> ('x, 'z) conn_core_scheme \<Rightarrow> 'm \<Rightarrow> ('x, 'z, 'm) conn_ret) \<Rightarrow> 64 word \<Rightarrow> nat \<Rightarrow> ('x, 'z) conn_core_scheme \<Rightarrow> 'm \<Rightarrow> ('x, 'z, 'm) conn_ret" where
  "conn_readFromLoop_ptr readImpl len fn = conn_readFromLoop (readImpl len fn) fn"

definition conn_writeFromLoop_ptr ::
  "(byte list \<Rightarrow> 64 word \<Rightarrow> nat \<Rightarrow> ('x, 'z) conn_core_scheme \<Rightarrow> 'm \<Rightarrow> ('x, 'z, 'm) conn_ret)
    \<Rightarrow> byte list \<Rightarrow> 64 word \<Rightarrow> nat \<Rightarrow> ('x, 'z) conn_core_scheme \<Rightarrow> 'm \<Rightarrow> ('x, 'z, 'm) conn_ret" where
  "conn_writeFromLoop_ptr writeImpl src len fn = conn_writeFromLoop (writeImpl src len fn) fn"

definition conn_writeFromLoop_nop ::
  "('p \<Rightarrow> 64 word \<Rightarrow> nat \<Rightarrow> ('x, 'z) conn_core_scheme \<Rightarrow> 'm \<Rightarrow> ('x, 'z, 'm) conn_ret)
    \<Rightarrow> 'p \<Rightarrow> 64 word \<Rightarrow> nat \<Rightarrow> ('x, 'z) conn_core_scheme \<Rightarrow> 'm \<Rightarrow> ('x, 'z, 'm) conn_ret" where
  "conn_writeFromLoop_nop writeImpl object len fn = conn_writeFromLoop (writeImpl object len fn) fn"

definition conn_setIdFromLoop :: "string \<Rightarrow> ('x, 'z) conn_core_scheme \<Rightarrow> ('x, 'z) conn_core_scheme" where
  "conn_setIdFromLoop i c = c\<lparr>conn_id := i\<rparr>"

text \<open>Handling an error may have a result of its own; \<open>ret\<close> is the one of doing nothing.\<close>

definition conn_setError ::
  "(('x, 'z) conn_core_scheme \<Rightarrow> 'r) \<Rightarrow> (('x, 'z) conn_core_scheme \<Rightarrow> 'r) \<Rightarrow> tp_error \<Rightarrow> ('x, 'z) conn_core_scheme \<Rightarrow> 'r" where
  "conn_setError ret handleErrorImpl e c =
     (if is_error (conn_error c) \<or> \<not> is_error e then ret c else handleErrorImpl (c\<lparr>conn_error := e\<rparr>))"

definition conn_closeFromLoop ::
  "(('x, 'z) conn_core_scheme \<Rightarrow> 'r) \<Rightarrow> (('x, 'z) conn_core_scheme \<Rightarrow> 'r) \<Rightarrow> ('x, 'z) conn_core_scheme \<Rightarrow> 'r" where
  "conn_closeFromLoop ret handleErrorImpl c = conn_setError ret handleErrorImpl ConnectionClosedError c"

section \<open>Objects over buffers\<close>

text \<open>
  By default an object is read by reading a buffer and deserializing it in the callback, and
  written by serializing it into a buffer first.
\<close>

datatype read_fn = UserFn nat | NopFn "nop_status reader_prog" nat

fun read_fn_id :: "read_fn \<Rightarrow> nat" where
  "read_fn_id (UserFn n) = n" | "read_fn_id (NopFn p n) = n"

fun call_read_fn :: "read_fn \<Rightarrow> tp_error \<Rightarrow> byte list \<Rightarrow> rb_call result" where
  "call_read_fn (UserFn n) e bs = Inr (ReadCall n e bs)"
| "call_read_fn (NopFn p n) e bs =
     (if is_error e then Inr (ReadCall n e [])
      else bindR (run_reader p bs (NopReader (0, of_nat (length bs)) (0, 0))) (\<lambda>status.
             throw_assert_if (status \<noteq> NopNone) (Inr (ReadCall n e bs))))"

definition serialize_nop :: "nop_status writer_prog \<Rightarrow> 64 word \<Rightarrow> byte list \<Rightarrow> byte list result" where
  "serialize_nop p len uninitialized =
     bindR (run_writer p uninitialized (NopWriter (0, len) (0, 0))) (\<lambda>(status, buf).
       throw_assert_if (status \<noteq> NopNone) (Inr buf))"

definition conn_writeImplFromLoop_nop ::
  "(byte list \<Rightarrow> 64 word \<Rightarrow> nat \<Rightarrow> ('x, 'z) conn_core_scheme \<Rightarrow> 'm \<Rightarrow> ('x, 'z, 'm) conn_ret)
    \<Rightarrow> nop_status writer_prog \<Rightarrow> 64 word \<Rightarrow> byte list \<Rightarrow> nat \<Rightarrow> ('x, 'z) conn_core_scheme \<Rightarrow> 'm \<Rightarrow> ('x, 'z, 'm) conn_ret" where
  "conn_writeImplFromLoop_nop writeImpl p len uninitialized fn c m =
     bindR (serialize_nop p len uninitialized) (\<lambda>buf. writeImpl buf len fn c m)"

section \<open>Accounting for callbacks\<close>

text \<open>The callbacks of the user, \<open>Inl\<close> for reads and \<open>Inr\<close> for writes.\<close>

fun call_id :: "rb_call \<Rightarrow> nat + nat" where
  "call_id (ReadCall fn e bs) = Inl fn"
| "call_id (WriteCall fn e) = Inr fn"

fun effect_calls :: "'x conn_effect list \<Rightarrow> rb_call list" where
  "effect_calls [] = []"
| "effect_calls (Callback cl # es) = cl # effect_calls es"
| "effect_calls (Effect x # es) = effect_calls es"

definition conn_calls :: "('x, 'z) conn_core_scheme \<Rightarrow> rb_call list" where
  "conn_calls c = effect_calls (conn_log c)"

lemma effect_calls_append [simp]: "effect_calls (es @ es') = effect_calls es @ effect_calls es'"
  by (induction es rule: effect_calls.induct) simp_all

lemma effect_calls_map [simp]: "effect_calls (map (\<lambda>x. Callback (g x)) ys) = map g ys"
  by (induction ys) simp_all

lemma conn_calls_simps [simp]:
  "conn_calls (conn_logs es c) = conn_calls c @ effect_calls es"
  "conn_calls (c\<lparr>conn_error := e\<rparr>) = conn_calls c"
  "conn_calls (c\<lparr>conn_id := i\<rparr>) = conn_calls c"
  "conn_calls (c\<lparr>nextBufferBeingRead := n\<rparr>) = conn_calls c"
  "conn_calls (c\<lparr>nextBufferBeingWritten := n\<rparr>) = conn_calls c"
  by (simp_all add: conn_calls_def conn_logs_def)

lemma conn_logs_simps [simp]:
  "conn_error (conn_logs es c) = conn_error c"
  "nextBufferBeingRead (conn_logs es c) = nextBufferBeingRead c"
  "nextBufferBeingWritten (conn_logs es c) = nextBufferBeingWritten c"
  "conn_core.more (conn_logs es c) = conn_core.more c"
  by (simp_all add: conn_logs_def)

end
