(* ===== verification/Ring_Transfer.thy ===== *)
theory Ring_Transfer
  imports Ring_Messages
begin

text \<open>
  What one call of \<^verbatim>\<open>handleWrite\<close> or \<^verbatim>\<open>handleRead\<close> moves between an operation and the region of its
  role in the ring buffer.
\<close>

section \<open>Objects in the areas of a ring\<close>

lemma two_areas_simps [simp]:
  "two_areas [] = ((0, 0), (0, 0))" "two_areas [b] = (b, (0, 0))" "two_areas (b # c # bs) = (b, c)"
  by (simp_all add: two_areas_def)

lemma nop_reader_areas:
  assumes s: "s < length bytes" "m \<le> length bytes" "length bytes \<le> 2 ^ 30"
  defines "rd \<equiv> NopReader (fst (two_areas (areas (length bytes) s m))) (snd (two_areas (areas (length bytes) s m)))"
  shows "reader_ok bytes rd" "reader_view bytes rd = take m (rotate s bytes)"
proof -
  have "reader_ok bytes rd \<and> reader_view bytes rd = take m (rotate s bytes)"
  proof (rule areas_cases [of "length bytes" s m])
    assume a: "areas (length bytes) s m = []"
    show ?thesis using areas_read(1) [OF s a] s(3) by (simp add: rd_def a NopReader_def reader_ok_def reader_view_def area_def)
  next
    fix b0
    assume a: "areas (length bytes) s m = [b0]"
    show ?thesis using areas_read(2) [OF s a] s(3)
      by (cases b0) (auto simp: rd_def a NopReader_def reader_ok_def reader_view_def area_def [of _ 0 0] copy_out_area split: if_splits)
  next
    fix b0 b1
    assume a: "areas (length bytes) s m = [b0, b1]"
    show ?thesis using areas_read(3) [OF s a] s(3)
      by (cases b0; cases b1) (auto simp: rd_def a NopReader_def reader_ok_def reader_view_def copy_out_area split: if_splits)
  qed
  then show "reader_ok bytes rd" "reader_view bytes rd = take m (rotate s bytes)" by simp_all
qed

lemma areas_sum:
  fixes bytes :: "byte list"
  assumes "s < length bytes" "m \<le> length bytes" "length bytes \<le> 2 ^ 30"
  shows "unat (snd (fst (two_areas (areas (length bytes) s m)))) + unat (snd (snd (two_areas (areas (length bytes) s m)))) = m"
  using reader_view_length [OF nop_reader_areas(1) [OF assms]] nop_reader_areas(2) [OF assms] assms(2) by (simp add: NopReader_def)

lemma nop_writer_areas:
  assumes s: "s < length bytes" "m \<le> length bytes" "length bytes \<le> 2 ^ 30" and src: "length src = m"
  defines "wr \<equiv> NopWriter (fst (two_areas (areas (length bytes) s m))) (snd (two_areas (areas (length bytes) s m)))"
  shows "writer_ok (length bytes) wr" "length (writer_places wr) = m"
    "rotate s (put (writer_places wr) src bytes) = src @ drop m (rotate s bytes)"
proof -
  let ?a = "areas (length bytes) s m"
  have small: "length src < 2 ^ 64" using s src by simp
  then have u: "unat (of_nat m :: 64 word) = m" using unat_word_of_nat [of m, where 'a = 64] src by simp
  show ok: "writer_ok (length bytes) wr"
    using nop_reader_areas(1) [OF s] by (simp add: wr_def NopWriter_def NopReader_def writer_ok_def reader_ok_def)
  show len: "length (writer_places wr) = m"
    using areas_sum [OF s] by (simp add: wr_def NopWriter_def length_writer_places)
  obtain wr' where w: "writer_Write src bytes wr = Inr (put (writer_places wr) src bytes, wr')"
    using writer_Write_places [OF ok, of src] len src by auto
  show "rotate s (put (writer_places wr) src bytes) = src @ drop m (rotate s bytes)"
  proof (rule areas_cases [of "length bytes" s m])
    assume "?a = []"
    then show ?thesis using areas_write(1) [OF s, of src] src by simp
  next
    fix b0
    assume a: "?a = [b0]"
    then have "unat (snd b0) = m" using areas_sum [OF s] by simp
    then have "snd b0 = of_nat m" by (rule word_of_unat)
    then have "copy_in b0 src bytes = Inr (put (writer_places wr) src bytes)"
      using w src by (cases b0) (auto simp: writer_Write_def wr_def a NopWriter_def Let_def bindR_eq_Inr)
    then show ?thesis using areas_write(2) [OF s _ a, of src] src by simp
  next
    fix b0 b1
    assume a: "?a = [b0, b1]"
    then have sum: "unat (snd b0) + unat (snd b1) = m" using areas_sum [OF s] by simp
    have pos: "0 < unat (snd b1)" using a s u unat_word_of_nat [of "s + m - length bytes", where 'a = 64]
      by (auto simp: areas_def simp del: of_nat_diff of_nat_add split: if_splits)
    have b1: "of_nat m - snd b0 = snd b1" using sum by (metis add_diff_cancel_left' of_nat_add of_nat_unat ucast_id)
    have "bindR (copy_in b0 src bytes) (\<lambda>d. copy_in b1 (drop (unat (snd b0)) src) d) = Inr (put (writer_places wr) src bytes)"
      using w src u b1 sum pos
      by (cases b0; cases b1) (auto simp: writer_Write_def wr_def a NopWriter_def writer_spill_def Let_def bindR_eq_Inr word_less_nat_alt)
    then show ?thesis using areas_write(3) [OF s _ a, of src] src by (auto simp: bindR_eq_Inr)
  qed
qed

section \<open>Steps in a transaction\<close>

definition in_tx :: "nat \<Rightarrow> role \<Rightarrow> ring \<Rightarrow> byte list list \<Rightarrow> nat \<Rightarrow> bool" where
  "in_tx i ro r regs k \<longleftrightarrow> ring_rel r regs \<and> i < length regs \<and> inTx ro \<and> unat (txSize ro) = k \<and> k \<le> length (regs ! i)"

lemma in_txD:
  assumes "in_tx i ro r regs k"
  shows "ring_rel r regs" "i < length regs" "inTx ro" "unat (txSize ro) = k" "k \<le> length (regs ! i)" "length (regs ! i) \<le> 2 ^ 30"
proof -
  show D: "ring_rel r regs" "i < length regs" "inTx ro" "unat (txSize ro) = k" "k \<le> length (regs ! i)"
    using assms by (simp_all add: in_tx_def)
  show "length (regs ! i) \<le> 2 ^ 30" using region_le [OF D(1,2)] pool_okD(4) [OF ring_relD(1) [OF D(1)]] by simp
qed

lemma in_tx_grow:
  assumes "in_tx i ro r regs k" and "ring_rel r' (regs[i := g])" and "length g = length (regs ! i)" and "k + m \<le> length (regs ! i)"
  shows "in_tx i (ro\<lparr>txSize := of_nat (k + m)\<rparr>) r' (regs[i := g]) (k + m)"
  using assms in_txD(2,3,6) [OF assms(1)] txSize_of_nat [of "k + m"] by (simp add: in_tx_def)

lemma overwrite_overwrite:
  "k + length a \<le> length g \<Longrightarrow> overwrite (k + length a) b (overwrite k a g) = overwrite k (a @ b) g"
  by (simp add: overwrite_def add.commute add.left_commute)

lemma in_tx_write:
  assumes tx: "in_tx i ro r regs k" and n: "unat n \<le> length src"
  defines "m \<equiv> min (unat n) (length (regs ! i) - k)"
  shows "\<not> p \<Longrightarrow> length (regs ! i) - k < unat n \<Longrightarrow> writeInTx p i src n ro r = Inr (Inl ENODATA, ro, r)"
    and "p \<or> unat n \<le> length (regs ! i) - k \<Longrightarrow>
      \<exists>ro' r'. writeInTx p i src n ro r = Inr (Inr (of_nat m), ro', r') \<and> header_inTx r' = header_inTx r \<and>
        in_tx i ro' r' (regs[i := overwrite k (take m src) (regs ! i)]) (k + m)"
proof -
  note D = in_txD [OF tx]
  note W = writeInTx_regions [OF D(1-5) n, of p, folded m_def]
  show "writeInTx p i src n ro r = Inr (Inl ENODATA, ro, r)" if "\<not> p" "length (regs ! i) - k < unat n" using W(1) that by simp
  have m: "m \<le> length src" "k + m \<le> length (regs ! i)" using n D(5) by (auto simp: m_def)
  show "\<exists>ro' r'. writeInTx p i src n ro r = Inr (Inr (of_nat m), ro', r') \<and> header_inTx r' = header_inTx r \<and>
        in_tx i ro' r' (regs[i := overwrite k (take m src) (regs ! i)]) (k + m)" if ok: "p \<or> unat n \<le> length (regs ! i) - k"
  proof -
    obtain d where d: "writeInTx p i src n ro r = Inr (Inr (of_nat m), ro\<lparr>txSize := of_nat (k + m)\<rparr>, r\<lparr>ring_data := d\<rparr>)"
      "ring_rel (r\<lparr>ring_data := d\<rparr>) (regs[i := overwrite k (take m src) (regs ! i)])"
      using W(2) ok by auto
    moreover have "length (overwrite k (take m src) (regs ! i)) = length (regs ! i)" using m by simp
    ultimately show ?thesis using in_tx_grow [OF tx d(2) _ m(2)] by auto
  qed
qed

lemma in_tx_nop_write:
  assumes tx: "in_tx i ro r regs k" and len: "unat len \<le> length (ring_data r)"
    and p: "emit p (unat len) = Inr (NopNone, bs)" "length bs = unat len"
  shows "length (regs ! i) - k < unat len \<Longrightarrow> writeNopObject i p len ro r = Inr (Inl ENODATA, ro, r)"
    and "unat len \<le> length (regs ! i) - k \<Longrightarrow>
      \<exists>ro' r'. writeNopObject i p len ro r = Inr (Inr len, ro', r') \<and> header_inTx r' = header_inTx r \<and>
        in_tx i ro' r' (regs[i := overwrite k bs (regs ! i)]) (k + unat len)"
proof -
  note D = in_txD [OF tx] and pool = pool_okD [OF ring_relD(1) [OF in_txD(1) [OF tx]]]
  note A = access_areas [where p = False and n = len, OF D(1-5)]
  have size: "\<not> kDataPoolByteSize r < len" using len pool(2) by (simp add: word_less_nat_alt not_less)
  show "writeNopObject i p len ro r = Inr (Inl ENODATA, ro, r)" if "length (regs ! i) - k < unat len"
    using that size A by (simp add: writeNopObject_def)
  assume fits: "unat len \<le> length (regs ! i) - k"
  define s where "s = unat (markers r ! i + of_nat k) mod length (ring_data r)"
  have s: "s < length (ring_data r)" "length (ring_data r) \<le> 2 ^ 30" using pool(3,4) by (auto simp: s_def intro!: mod_less_divisor)
  note W = nop_writer_areas [OF s(1) len s(2) p(2)]
  let ?wr = "NopWriter (fst (two_areas (areas (length (ring_data r)) s (unat len)))) (snd (two_areas (areas (length (ring_data r)) s (unat len))))"
  let ?d = "put (writer_places ?wr) bs (ring_data r)"
  have run: "run_writer p (ring_data r) ?wr = Inr (NopNone, ?d)"
    by (rule run_writer_emit [OF W(1)]) (simp add: W(2) p(1))
  have rel: "ring_rel (r\<lparr>ring_data := ?d\<rparr>) (regs[i := overwrite k bs (regs ! i)])"
    by (rule ring_rel_write [OF D(1,2)]) (use fits p(2) D(5) W(3) in \<open>simp_all add: s_def\<close>)
  have "min (unat len) (length (regs ! i) - k) = unat len" using fits by simp
  then have "writeNopObject i p len ro r = Inr (Inr len, ro\<lparr>txSize := of_nat (k + unat len)\<rparr>, r\<lparr>ring_data := ?d\<rparr>)"
    using size A run fits by (simp add: writeNopObject_def s_def [symmetric] del: of_nat_add)
  moreover have "in_tx i (ro\<lparr>txSize := of_nat (k + unat len)\<rparr>) (r\<lparr>ring_data := ?d\<rparr>) (regs[i := overwrite k bs (regs ! i)]) (k + unat len)"
    by (rule in_tx_grow [OF tx rel]) (use fits p(2) D(5) in simp_all)
  ultimately show "\<exists>ro' r'. writeNopObject i p len ro r = Inr (Inr len, ro', r') \<and> header_inTx r' = header_inTx r \<and>
        in_tx i ro' r' (regs[i := overwrite k bs (regs ! i)]) (k + unat len)" by auto
qed

lemma in_tx_read:
  assumes tx: "in_tx i ro r regs k"
  defines "g \<equiv> drop k (regs ! i)"
  shows "\<not> p \<Longrightarrow> length g < unat n \<Longrightarrow> readInTx p i n ro r = Inr (Inl ENODATA, ro, r)"
    and "p \<or> unat n \<le> length g \<Longrightarrow>
      \<exists>ro'. readInTx p i n ro r = Inr (Inr (take (unat n) g), ro', r) \<and> in_tx i ro' r regs (k + length (take (unat n) g))"
proof -
  note D = in_txD [OF tx]
  note R = readInTx_regions [OF D(1-5), of p n]
  show "readInTx p i n ro r = Inr (Inl ENODATA, ro, r)" if "\<not> p" "length g < unat n" using R that by (simp add: g_def)
  let ?m = "min (unat n) (length (regs ! i) - k)"
  have "take ?m g = take (unat n) g" "length (take (unat n) g) = ?m" by (simp_all add: g_def min_def)
  moreover have "in_tx i (ro\<lparr>txSize := of_nat (k + ?m)\<rparr>) r regs (k + ?m)"
    using in_tx_grow [OF tx, of r "regs ! i" ?m] D(1,5) by simp
  ultimately show "\<exists>ro'. readInTx p i n ro r = Inr (Inr (take (unat n) g), ro', r) \<and> in_tx i ro' r regs (k + length (take (unat n) g))"
    if "p \<or> unat n \<le> length g"
    using that R by (auto simp: g_def)
qed

lemma in_tx_nop_read:
  assumes tx: "in_tx i ro r regs k" and len: "unat len \<le> length (ring_data r)"
  defines "g \<equiv> drop k (regs ! i)"
  shows "length g < unat len \<Longrightarrow> readNopObject i p len ro r = Inr (Inl ENODATA, ro, r)"
    and "unat len \<le> length g \<Longrightarrow> parse p (take (unat len) g) = Inr NopNone \<Longrightarrow>
      \<exists>ro'. readNopObject i p len ro r = Inr (Inr (take (unat len) g), ro', r) \<and> in_tx i ro' r regs (k + unat len)"
proof -
  note D = in_txD [OF tx] and pool = pool_okD [OF ring_relD(1) [OF in_txD(1) [OF tx]]]
  note A = access_areas [where p = False and n = len, OF D(1-5)]
  have size: "\<not> kDataPoolByteSize r < len" using len pool(2) by (simp add: word_less_nat_alt not_less)
  show "readNopObject i p len ro r = Inr (Inl ENODATA, ro, r)" if "length g < unat len"
    using that size A by (simp add: readNopObject_def g_def)
  assume fits: "unat len \<le> length g" and ok: "parse p (take (unat len) g) = Inr NopNone"
  define s where "s = unat (markers r ! i + of_nat k) mod length (ring_data r)"
  have s: "s < length (ring_data r)" "length (ring_data r) \<le> 2 ^ 30" using pool(3,4) by (auto simp: s_def intro!: mod_less_divisor)
  note R = nop_reader_areas [OF s(1) len s(2)]
  let ?rd = "NopReader (fst (two_areas (areas (length (ring_data r)) s (unat len)))) (snd (two_areas (areas (length (ring_data r)) s (unat len))))"
  have view: "reader_view (ring_data r) ?rd = take (unat len) g"
    unfolding R(2) using region_front [OF D(1,2,5)] fits by (simp add: s_def g_def)
  have run: "run_reader p (ring_data r) ?rd = Inr NopNone"
    by (rule run_reader_parse [OF R(1)]) (simp add: view ok)
  have "min (unat len) (length (regs ! i) - k) = unat len" using fits by (simp add: g_def)
  then have "readNopObject i p len ro r = Inr (Inr (take (unat len) g), ro\<lparr>txSize := of_nat (k + unat len)\<rparr>, r)"
    using size A run fits view by (simp add: readNopObject_def s_def [symmetric] g_def del: of_nat_add)
  moreover have "in_tx i (ro\<lparr>txSize := of_nat (k + unat len)\<rparr>) r regs (k + unat len)"
    using in_tx_grow [OF tx, of r "regs ! i" "unat len"] D(1,5) fits by (simp add: g_def)
  ultimately show "\<exists>ro'. readNopObject i p len ro r = Inr (Inr (take (unat len) g), ro', r) \<and> in_tx i ro' r regs (k + unat len)" by auto
qed

lemma ring_rel_flags: "ring_rel (r\<lparr>header_inTx := fs\<rparr>) regs \<longleftrightarrow> ring_rel r regs \<and> length fs = length regs" if "length (header_inTx r) = length regs"
  using that by (auto simp: ring_rel_def pool_ok_def dists_def dist_def)

lemma begin_tx:
  assumes "ring_rel r regs" and "i < length regs" and "\<not> header_inTx r ! i"
  shows "\<exists>ro r'. startTx i RingBufferRole r = Inr (Inr (), ro, r') \<and> in_tx i ro r' regs 0 \<and> header_inTx r' = (header_inTx r)[i := True]"
  using assms ring_relD(2) [OF assms(1)]
  by (auto simp: startTx_def RingBufferRole_def beginTransaction_def in_tx_def ring_rel_flags)

lemma commit_tx:
  assumes "in_tx i ro r regs k"
  shows "\<exists>r'. commitTx i ro r = Inr (Inr (), RingBufferRole, r') \<and> ring_rel r' (pass_on i k regs) \<and>
    header_inTx r' = (header_inTx r)[i := False]"
proof -
  note D = in_txD [OF assms]
  have "ucast (txSize ro) = (of_nat k :: 64 word)" using D(4) by (metis of_nat_unat)
  moreover have "ring_rel (incMarker i (of_nat k) r) (pass_on i k regs)" by (rule ring_rel_commit [OF D(1,2,5)])
  moreover have "length (header_inTx (incMarker i (of_nat k) r)) = length regs" using ring_relD(2) [OF D(1)] by (simp add: incMarker_def)
  ultimately show ?thesis
    using D(3) by (auto simp: commitTx_def endTransaction_def RingBufferRole_def ring_rel_flags incMarker_def)
qed

section \<open>Writing a message\<close>

text \<open>The bytes of a message, and what of it an operation has still to put into the ring.\<close>

definition wr_payload :: "wr_op \<Rightarrow> byte list" where
  "wr_payload op = (case wr_nop op of None \<Rightarrow> take (unat (wr_len op)) (wr_src op)
     | Some p \<Rightarrow> (case emit p (unat (wr_len op)) of Inl f \<Rightarrow> [] | Inr (st, bs) \<Rightarrow> bs))"

definition wr_remaining :: "wr_op \<Rightarrow> byte list" where
  "wr_remaining op = (if wr_mode op = WRITE_LENGTH then bytes_of_length (ucast (wr_len op)) else []) @
     drop (unat (wr_bytesWritten op)) (wr_payload op)"

definition wr_ok :: "nat \<Rightarrow> wr_op \<Rightarrow> bool" where
  "wr_ok S op \<longleftrightarrow> unat (wr_bytesWritten op) \<le> unat (wr_len op) \<and> (wr_mode op = WRITE_LENGTH \<longrightarrow> wr_bytesWritten op = 0) \<and>
     (case wr_nop op of None \<Rightarrow> unat (wr_len op) \<le> length (wr_src op)
      | Some p \<Rightarrow> unat (wr_len op) \<le> S \<and> (wr_bytesWritten op = 0 \<or> wr_bytesWritten op = wr_len op) \<and>
          (\<exists>bs. emit p (unat (wr_len op)) = Inr (NopNone, bs) \<and> length bs = unat (wr_len op)))"

lemma length_wr_payload: "wr_ok S op \<Longrightarrow> length (wr_payload op) = unat (wr_len op)"
  by (auto simp: wr_ok_def wr_payload_def split: option.splits)

lemma wr_completed_remaining: "wr_ok S op \<Longrightarrow> wr_completed op \<longleftrightarrow> wr_mode op = WRITE_PAYLOAD \<and> wr_remaining op = []"
  using length_wr_payload [of S op]
  by (auto simp: wr_completed_def wr_remaining_def wr_ok_def word_eq_iff_unsigned intro: unsigned_word_eqI)

text \<open>How much room an operation needs to make progress.\<close>

definition wr_needs :: "wr_op \<Rightarrow> nat" where
  "wr_needs op = (if wr_mode op = WRITE_LENGTH then 4 else if wr_nop op = None then 1 else unat (wr_len op))"

text \<open>The operation is over or cannot go on with this much room.\<close>

definition wr_stalled :: "nat \<Rightarrow> wr_op \<Rightarrow> bool" where
  "wr_stalled room op \<longleftrightarrow> wr_completed op \<or> room < wr_needs op"

definition same_message :: "wr_op \<Rightarrow> wr_op \<Rightarrow> bool" where
  "same_message op op' \<longleftrightarrow> wr_src op' = wr_src op \<and> wr_nop op' = wr_nop op \<and> wr_len op' = wr_len op \<and> wr_fn op' = wr_fn op"

lemma same_message_payload: "same_message op op' \<Longrightarrow> wr_payload op' = wr_payload op"
  unfolding same_message_def wr_payload_def by (elim conjE) (simp only:)

text \<open>The effect of a phase: some bytes move from the operation to the region.\<close>

definition moved :: "nat \<Rightarrow> nat \<Rightarrow> wr_op \<Rightarrow> ring \<Rightarrow> byte list list \<Rightarrow> nat \<Rightarrow> byte list \<Rightarrow> (64 word \<times> wr_op \<times> role \<times> ring) result \<Rightarrow> bool" where
  "moved S i op r regs k out res \<longleftrightarrow> (\<exists>op' ro' r'. res = Inr (of_nat (length out), op', ro', r') \<and>
     k + length out \<le> length (regs ! i) \<and>
     in_tx i ro' r' (regs[i := overwrite k out (regs ! i)]) (k + length out) \<and> header_inTx r' = header_inTx r \<and>
     wr_remaining op = out @ wr_remaining op' \<and> wr_ok S op' \<and> same_message op op')"

lemma overwrite_Nil [simp]: "overwrite k [] g = g"
  by (simp add: overwrite_def)

lemma moved_nothing:
  assumes "in_tx i ro r regs k" and "wr_ok S op"
  shows "moved S i op r regs k [] (Inr (0, op, ro, r))"
  using assms in_txD(5) [OF assms(1)] by (simp add: moved_def same_message_def)

lemma wr_length_phase_moved:
  assumes tx: "in_tx i ro r regs k" and ok: "wr_ok S op" and mode: "wr_mode op = WRITE_LENGTH"
  shows "length (regs ! i) - k < 4 \<Longrightarrow> wr_length_phase i op ro r = Inr (0, op, ro, r)"
    and "4 \<le> length (regs ! i) - k \<Longrightarrow>
      moved S i op r regs k (bytes_of_length (ucast (wr_len op))) (wr_length_phase i op ro r) \<and>
      (\<exists>n ro' r'. wr_length_phase i op ro r = Inr (n, op\<lparr>wr_mode := WRITE_PAYLOAD\<rparr>, ro', r'))"
proof -
  let ?h = "bytes_of_length (ucast (wr_len op))" and ?op = "op\<lparr>wr_mode := WRITE_PAYLOAD\<rparr>"
  note W = in_tx_write [where p = False and n = 4 and src = ?h, OF tx]
  show "wr_length_phase i op ro r = Inr (0, op, ro, r)" if "length (regs ! i) - k < 4"
    using W(1) mode that by (simp add: wr_length_phase_def)
  assume room: "4 \<le> length (regs ! i) - k"
  then obtain ro' r' where w: "writeInTx False i ?h 4 ro r = Inr (Inr 4, ro', r')" "header_inTx r' = header_inTx r"
    "in_tx i ro' r' (regs[i := overwrite k ?h (regs ! i)]) (k + 4)"
    using W(2) by auto
  have "wr_payload ?op = wr_payload op" by (rule same_message_payload) (simp add: same_message_def)
  then have "wr_remaining op = ?h @ wr_remaining ?op" using mode by (simp add: wr_remaining_def)
  moreover have "wr_ok S ?op" using ok by (simp add: wr_ok_def split: option.splits)
  ultimately show "moved S i op r regs k ?h (wr_length_phase i op ro r) \<and>
      (\<exists>n ro' r'. wr_length_phase i op ro r = Inr (n, ?op, ro', r'))"
    using w mode room in_txD(5) [OF tx] by (simp add: moved_def wr_length_phase_def same_message_def)
qed

lemma moved_payload:
  assumes tx: "in_tx i ro' r' (regs[i := overwrite k out (regs ! i)]) (k + length out)" "header_inTx r' = header_inTx r"
    and ok: "wr_ok S op" and mode: "wr_mode op = WRITE_PAYLOAD" and fits: "k + length out \<le> length (regs ! i)"
    and out: "drop (unat (wr_bytesWritten op)) (wr_payload op) = out @ rest" and nop: "wr_nop op \<noteq> None \<longrightarrow> rest = []"
  shows "moved S i op r regs k out (Inr (of_nat (length out), op\<lparr>wr_bytesWritten := wr_bytesWritten op + of_nat (length out)\<rparr>, ro', r'))"
proof -
  let ?op = "op\<lparr>wr_bytesWritten := wr_bytesWritten op + of_nat (length out)\<rparr>" and ?b = "unat (wr_bytesWritten op)"
  have same: "same_message op ?op" by (simp add: same_message_def)
  have len: "?b + length out + length rest = unat (wr_len op)"
  proof -
    have "?b \<le> unat (wr_len op)" using ok by (simp add: wr_ok_def)
    moreover have "unat (wr_len op) - ?b = length out + length rest"
      using arg_cong [OF out, of length] length_wr_payload [OF ok] by simp
    ultimately show ?thesis by linarith
  qed
  have b: "unat (wr_bytesWritten op + of_nat (length out)) = ?b + length out"
  proof -
    have "unat (wr_len op) < 2 ^ LENGTH(64)" by (rule unsigned_less)
    then have lt: "?b + length out < 2 ^ 64" using len by simp
    then have "unat (of_nat (length out) :: 64 word) = length out" using unat_word_of_nat [of "length out", where 'a = 64] by simp
    then show ?thesis using lt by (subst unat_add_lem [THEN iffD1]) simp_all
  qed
  have full: "wr_bytesWritten op + of_nat (length out) = wr_len op" if "rest = []"
    using that len b word_of_unat [of "wr_len op"] word_of_unat [OF b] by simp
  have "drop (?b + length out) (wr_payload op) = drop (length out) (drop ?b (wr_payload op))" by (simp add: add.commute)
  then have "wr_remaining ?op = rest" using out mode by (simp add: wr_remaining_def same_message_payload [OF same] b)
  then have "wr_remaining op = out @ wr_remaining ?op" using out mode by (simp add: wr_remaining_def)
  moreover have "wr_ok S ?op" using ok b len mode nop full by (auto simp: wr_ok_def split: option.splits)
  ultimately show ?thesis using tx fits same by (auto simp: moved_def)
qed

lemma wr_payload_phase_moved:
  assumes tx: "in_tx i ro r regs k" and ok: "wr_ok (length (ring_data r)) op" and mode: "wr_mode op = WRITE_PAYLOAD"
    and live: "wr_nop op \<noteq> None \<longrightarrow> wr_bytesWritten op = 0"
  shows "\<exists>out n op' ro' r'. wr_payload_phase i op ro r = Inr (n, op', ro', r') \<and>
    moved (length (ring_data r)) i op r regs k out (Inr (n, op', ro', r')) \<and> wr_stalled (length (regs ! i) - (k + length out)) op'"
proof (cases "wr_nop op")
  case None
  let ?b = "unat (wr_bytesWritten op)" and ?n = "wr_len op - wr_bytesWritten op" and ?src = "drop (unat (wr_bytesWritten op)) (wr_src op)"
  have b: "?b \<le> unat (wr_len op)" "unat (wr_len op) \<le> length (wr_src op)" using ok None by (simp_all add: wr_ok_def)
  have n: "unat ?n = unat (wr_len op) - ?b" using b(1) by (intro unat_sub) (simp add: word_le_nat_alt)
  let ?m = "min (unat ?n) (length (regs ! i) - k)"
  have src: "unat ?n \<le> length ?src" using n b by simp
  obtain ro' r' where w: "writeInTx True i ?src ?n ro r = Inr (Inr (of_nat ?m), ro', r')" "header_inTx r' = header_inTx r"
    "in_tx i ro' r' (regs[i := overwrite k (take ?m ?src) (regs ! i)]) (k + ?m)"
    using in_tx_write(2) [OF tx src, of True] by auto
  have lm: "length (take ?m ?src) = ?m" using src by simp
  have pay: "drop ?b (wr_payload op) = take (unat ?n) ?src" using None b n by (simp add: wr_payload_def drop_take)
  then have out: "drop ?b (wr_payload op) = take ?m ?src @ drop ?m (take (unat ?n) ?src)"
    using append_take_drop_id [of ?m "take (unat ?n) ?src"] take_take [of ?m "unat ?n" ?src] by (simp only: min.cobounded1 min_absorb1)
  let ?op = "op\<lparr>wr_bytesWritten := wr_bytesWritten op + of_nat ?m\<rparr>"
  have ph: "wr_payload_phase i op ro r = Inr (of_nat ?m, ?op, ro', r')" using w(1) None mode by (simp add: wr_payload_phase_def)
  have "moved (length (ring_data r)) i op r regs k (take ?m ?src) (Inr (of_nat ?m, ?op, ro', r'))"
    using moved_payload [of i ro' r' regs k "take ?m ?src" r "length (ring_data r)" op, OF _ w(2) ok mode _ out] w(3) None lm
      in_txD(5) [OF tx] by simp
  moreover have "wr_completed ?op" if "?m = unat ?n"
    unfolding that using mode by (simp add: wr_completed_def)
  then have "wr_stalled (length (regs ! i) - (k + length (take ?m ?src))) ?op"
    using lm None mode by (cases "unat ?n \<le> length (regs ! i) - k") (auto simp: wr_stalled_def wr_needs_def)
  ultimately show ?thesis using ph by blast
next
  case (Some p)
  then obtain bs where p: "emit p (unat (wr_len op)) = Inr (NopNone, bs)" "length bs = unat (wr_len op)"
    and S: "unat (wr_len op) \<le> length (ring_data r)" and b: "wr_bytesWritten op = 0"
    using ok live by (auto simp: wr_ok_def)
  note N = in_tx_nop_write [OF tx S p]
  have pay: "drop (unat (wr_bytesWritten op)) (wr_payload op) = bs @ []" using Some p b by (simp add: wr_payload_def)
  show ?thesis
  proof (cases "length (regs ! i) - k < unat (wr_len op)")
    case True
    then have "wr_payload_phase i op ro r = Inr (0, op, ro, r)" using N(1) Some mode by (simp add: wr_payload_phase_def)
    then show ?thesis using moved_nothing [OF tx ok] True Some mode by (intro exI [of _ "[]"]) (simp add: wr_needs_def wr_stalled_def)
  next
    case False
    then obtain ro' r' where w: "writeNopObject i p (wr_len op) ro r = Inr (Inr (wr_len op), ro', r')" "header_inTx r' = header_inTx r"
      "in_tx i ro' r' (regs[i := overwrite k bs (regs ! i)]) (k + unat (wr_len op))" using N(2) by auto
    have "wr_len op = of_nat (length bs)" using p(2) by (intro word_of_unat) simp
    then have "moved (length (ring_data r)) i op r regs k bs (wr_payload_phase i op ro r)"
      using moved_payload [of i ro' r' regs k bs r "length (ring_data r)" op "[]", OF _ w(2) ok mode _ pay] w(1,3) p(2) Some mode False
        in_txD(5) [OF tx] by (simp add: wr_payload_phase_def)
    moreover have "wr_payload_phase i op ro r = Inr (wr_len op, op\<lparr>wr_bytesWritten := wr_len op\<rparr>, ro', r')"
      using w(1) Some mode b by (simp add: wr_payload_phase_def)
    moreover have "wr_stalled room (op\<lparr>wr_bytesWritten := wr_len op\<rparr>)" for room
      using mode by (simp add: wr_stalled_def wr_completed_def)
    ultimately show ?thesis by metis
  qed
qed

lemma moved_trans:
  assumes first: "moved S i op r regs k out res" and res: "res = Inr (n, op', ro', r')"
    and second: "moved S i op' r' (regs[i := overwrite k out (regs ! i)]) (k + length out) out' res'"
    and i: "i < length regs" and res': "res' = Inr (n', op'', ro'', r'')"
  shows "moved S i op r regs k (out @ out') (Inr (n + n', op'', ro'', r''))"
  using assms by (auto simp: moved_def same_message_def overwrite_overwrite add.assoc)

lemma ring_size:
  assumes "ring_rel r regs" and "ring_rel r' regs'" and "map length regs' = map length regs"
  shows "length (ring_data r') = length (ring_data r)"
  using ring_relD(7) [OF assms(1)] ring_relD(7) [OF assms(2)] assms(3) by (simp add: length_concat)

text \<open>Both phases, one after the other.\<close>

lemma wr_phases:
  assumes tx: "in_tx i ro r regs 0" and ok: "wr_ok (length (ring_data r)) op" and live: "\<not> wr_completed op"
  shows "\<exists>out n1 op2 ro2 r2 n2 op3 ro3 r3. wr_length_phase i op ro r = Inr (n1, op2, ro2, r2) \<and>
    wr_payload_phase i op2 ro2 r2 = Inr (n2, op3, ro3, r3) \<and>
    moved (length (ring_data r)) i op r regs 0 out (Inr (n1 + n2, op3, ro3, r3)) \<and>
    wr_stalled (length (regs ! i) - length out) op3"
proof -
  let ?S = "length (ring_data r)"
  have fresh: "wr_nop op \<noteq> None \<longrightarrow> wr_bytesWritten op = 0"
    using ok live by (cases "wr_mode op") (auto simp: wr_ok_def wr_completed_def split: option.splits)
  show ?thesis
  proof (cases "wr_mode op")
    case WRITE_PAYLOAD
    then have l: "wr_length_phase i op ro r = Inr (0, op, ro, r)" by (simp add: wr_length_phase_def)
    obtain out n2 op3 ro3 r3 where "wr_payload_phase i op ro r = Inr (n2, op3, ro3, r3)"
      "moved ?S i op r regs 0 out (Inr (n2, op3, ro3, r3))" "wr_stalled (length (regs ! i) - length out) op3"
      using wr_payload_phase_moved [OF tx ok WRITE_PAYLOAD fresh] by auto
    then show ?thesis using l by (intro exI [of _ out]) auto
  next
    case WRITE_LENGTH
    note L = wr_length_phase_moved [OF tx ok WRITE_LENGTH]
    show ?thesis
    proof (cases "length (regs ! i) - 0 < 4")
      case True
      then have l: "wr_length_phase i op ro r = Inr (0, op, ro, r)" by (rule L(1))
      have p: "wr_payload_phase i op ro r = Inr (0, op, ro, r)" using WRITE_LENGTH by (simp add: wr_payload_phase_def)
      show ?thesis
        using l p moved_nothing [OF tx ok] True WRITE_LENGTH by (intro exI [of _ "[]"]) (auto simp: wr_needs_def wr_stalled_def)
    next
      case False
      let ?h = "bytes_of_length (ucast (wr_len op))" and ?op = "op\<lparr>wr_mode := WRITE_PAYLOAD\<rparr>"
      let ?regs = "regs[i := overwrite 0 ?h (regs ! i)]"
      obtain n1 ro2 r2 where l: "wr_length_phase i op ro r = Inr (n1, ?op, ro2, r2)"
        and m1: "moved ?S i op r regs 0 ?h (wr_length_phase i op ro r)" using L(2) False by auto
      then have tx2: "in_tx i ro2 r2 ?regs 4" and ok2: "wr_ok ?S ?op" and fits: "4 \<le> length (regs ! i)" by (auto simp: moved_def)
      have "map length ?regs = map length regs" using fits in_txD(2) [OF tx] by (simp add: map_update list_update_same_conv [THEN iffD2])
      then have S: "length (ring_data r2) = ?S" by (rule ring_size [OF in_txD(1) [OF tx] in_txD(1) [OF tx2]])
      have len: "length (?regs ! i) = length (regs ! i)" using fits in_txD(2) [OF tx] by simp
      obtain out n2 op3 ro3 r3 where p: "wr_payload_phase i ?op ro2 r2 = Inr (n2, op3, ro3, r3)"
        and out: "moved ?S i ?op r2 ?regs 4 out (Inr (n2, op3, ro3, r3))" and st: "wr_stalled (length (?regs ! i) - (4 + length out)) op3"
        using wr_payload_phase_moved [OF tx2, of ?op] ok2 fresh S by auto
      have "moved ?S i op r regs 0 (?h @ out) (Inr (n1 + n2, op3, ro3, r3))"
        by (rule moved_trans [OF m1 l _ in_txD(2) [OF tx] refl]) (use out in simp)
      then show ?thesis using l p st len by (intro exI [of _ "?h @ out"]) auto
    qed
  qed
qed

text \<open>
  One call of \<^verbatim>\<open>handleWrite\<close>: it moves the next bytes of the message to the previous role, until
  the message is complete or there is no room to go on.
\<close>

lemma handleWrite_moves:
  assumes rel: "ring_rel r regs" and i: "i < length regs" and flag: "\<not> header_inTx r ! i"
    and ok: "wr_ok (length (ring_data r)) op" and live: "\<not> wr_completed op"
  shows "\<exists>out op' r'. handleWrite i op RingBufferRole r = Inr (of_nat (length out), op', RingBufferRole, r',
      if wr_completed op' then [WriteCall (wr_fn op) Success] else []) \<and>
    length out \<le> length (regs ! i) \<and> ring_rel r' (pass_on i (length out) (regs[i := overwrite 0 out (regs ! i)])) \<and>
    header_inTx r' = header_inTx r \<and> wr_remaining op = out @ wr_remaining op' \<and> wr_ok (length (ring_data r)) op' \<and>
    same_message op op' \<and> wr_stalled (length (regs ! i) - length out) op'"
proof -
  let ?S = "length (ring_data r)"
  obtain ro1 r1 where t1: "startTx i RingBufferRole r = Inr (Inr (), ro1, r1)" "in_tx i ro1 r1 regs 0"
    "header_inTx r1 = (header_inTx r)[i := True]"
    using begin_tx [OF rel i flag] by blast
  have S: "length (ring_data r1) = ?S" by (rule ring_size [OF rel in_txD(1) [OF t1(2)] refl])
  obtain out n1 op2 ro2 r2 n2 op3 ro3 r3 where phases: "wr_length_phase i op ro1 r1 = Inr (n1, op2, ro2, r2)"
      "wr_payload_phase i op2 ro2 r2 = Inr (n2, op3, ro3, r3)"
    and mv: "moved ?S i op r1 regs 0 out (Inr (n1 + n2, op3, ro3, r3))"
    and stalled: "wr_stalled (length (regs ! i) - length out) op3"
    using wr_phases [OF t1(2), unfolded S, OF ok live] by blast
  from mv have m: "n1 + n2 = of_nat (length out)" "length out \<le> length (regs ! i)" "in_tx i ro3 r3 (regs[i := overwrite 0 out (regs ! i)]) (length out)"
    "header_inTx r3 = header_inTx r1" "wr_remaining op = out @ wr_remaining op3" "wr_ok ?S op3" "same_message op op3"
    by (auto simp: moved_def)
  obtain r4 where c: "commitTx i ro3 r3 = Inr (Inr (), RingBufferRole, r4)"
    "ring_rel r4 (pass_on i (length out) (regs[i := overwrite 0 out (regs ! i)]))" "header_inTx r4 = (header_inTx r3)[i := False]"
    using commit_tx [OF m(3)] by blast
  have "header_inTx r4 = header_inTx r"
    using c(3) m(4) t1(3) flag by (metis list_update_id list_update_overwrite)
  moreover have "wr_fn op3 = wr_fn op" using m(7) by (simp add: same_message_def)
  ultimately show ?thesis using t1(1) phases c m stalled by (auto simp: handleWrite_def)
qed

end
