(* ===== verification/Ring_Delivery.thy ===== *)
theory Ring_Delivery
  imports Ring_Transfer
begin

text \<open>
  The reading side of messages over a ring buffer, and the theorem about both sides: the
  messages arrive complete, in order and unchanged.
\<close>

section \<open>Reading a message\<close>

definition frame :: "byte list \<Rightarrow> byte list" where
  "frame m = bytes_of_length (of_nat (length m)) @ m"

text \<open>The operation is the one that reads a message, and it has come so far.\<close>

definition rd_expects :: "nat \<Rightarrow> rd_op \<Rightarrow> byte list \<Rightarrow> bool" where
  "rd_expects S op m \<longleftrightarrow> length m < 2 ^ 32 \<and>
     (case rd_nop op of None \<Rightarrow> True | Some p \<Rightarrow> length m \<le> S \<and> parse p m = Inr NopNone) \<and>
     (if rd_mode op = READ_LENGTH
      then rd_bytesRead op = 0 \<and> rd_buf op = [] \<and> (rd_nop op = None \<and> rd_ptrProvided op \<longrightarrow> unat (rd_len op) = length m)
      else unat (rd_len op) = length m \<and> unat (rd_bytesRead op) \<le> length m \<and> rd_buf op = take (unat (rd_bytesRead op)) m \<and>
        (rd_nop op \<noteq> None \<longrightarrow> rd_bytesRead op = 0 \<or> rd_bytesRead op = rd_len op))"

definition rd_remaining :: "rd_op \<Rightarrow> byte list \<Rightarrow> byte list" where
  "rd_remaining op m = (if rd_mode op = READ_LENGTH then frame m else drop (unat (rd_bytesRead op)) m)"

definition rd_needs :: "rd_op \<Rightarrow> byte list \<Rightarrow> nat" where
  "rd_needs op m = (if rd_mode op = READ_LENGTH then 4 else if rd_nop op = None then 1 else length m)"

definition rd_stalled :: "nat \<Rightarrow> rd_op \<Rightarrow> byte list \<Rightarrow> bool" where
  "rd_stalled available op m \<longleftrightarrow> rd_completed op \<or> available < rd_needs op m"

lemma rd_completed_remaining:
  assumes "rd_expects S op m"
  shows "rd_completed op \<longleftrightarrow> rd_mode op = READ_PAYLOAD \<and> rd_remaining op m = []"
    and "rd_completed op \<Longrightarrow> rd_buf op = m"
proof -
  have "rd_bytesRead op = rd_len op \<longleftrightarrow> unat (rd_bytesRead op) = unat (rd_len op)" by (metis word_of_unat)
  then show "rd_completed op \<longleftrightarrow> rd_mode op = READ_PAYLOAD \<and> rd_remaining op m = []" "rd_completed op \<Longrightarrow> rd_buf op = m"
    using assms by (auto simp: rd_completed_def rd_remaining_def rd_expects_def split: if_splits)
qed

definition rd_same :: "rd_op \<Rightarrow> rd_op \<Rightarrow> bool" where
  "rd_same op op' \<longleftrightarrow> rd_nop op' = rd_nop op \<and> rd_fn op' = rd_fn op"

definition taken :: "nat \<Rightarrow> nat \<Rightarrow> rd_op \<Rightarrow> byte list \<Rightarrow> ring \<Rightarrow> byte list list \<Rightarrow> nat \<Rightarrow> byte list \<Rightarrow> (64 word \<times> rd_op \<times> role \<times> ring) result \<Rightarrow> bool" where
  "taken S i op m r regs k inp res \<longleftrightarrow> (\<exists>op' ro'. res = Inr (of_nat (length inp), op', ro', r) \<and>
     (\<exists>g. drop k (regs ! i) = inp @ g) \<and> in_tx i ro' r regs (k + length inp) \<and>
     rd_remaining op m = inp @ rd_remaining op' m \<and> rd_expects S op' m \<and> rd_same op op')"

lemma taken_nothing:
  assumes "in_tx i ro r regs k" and "rd_expects S op m"
  shows "taken S i op m r regs k [] (Inr (0, op, ro, r))"
  using assms by (simp add: taken_def rd_same_def)

lemma prefix_of_stream:
  assumes "g @ t = xs @ u" and "n \<le> length g" and "n \<le> length xs"
  shows "take n g = take n xs"
  using arg_cong [OF assms(1), of "take n"] assms(2,3) by simp

lemma rd_length_phase_taken:
  assumes tx: "in_tx i ro r regs k" and ok: "rd_expects S op m" and mode: "rd_mode op = READ_LENGTH"
    and stream: "drop k (regs ! i) @ t = rd_remaining op m @ u"
  shows "length (drop k (regs ! i)) < 4 \<Longrightarrow> rd_length_phase i op ro r = Inr (0, op, ro, r)"
    and "4 \<le> length (drop k (regs ! i)) \<Longrightarrow>
      taken S i op m r regs k (bytes_of_length (of_nat (length m))) (rd_length_phase i op ro r) \<and>
      (\<exists>n op' ro'. rd_length_phase i op ro r = Inr (n, op', ro', r) \<and> rd_mode op' = READ_PAYLOAD \<and> rd_bytesRead op' = 0)"
proof -
  let ?g = "drop k (regs ! i)" and ?h = "bytes_of_length (of_nat (length m))"
  note R = in_tx_read [where p = False and n = 4, OF tx]
  show "rd_length_phase i op ro r = Inr (0, op, ro, r)" if "length ?g < 4"
    using R(1) that mode by (simp add: rd_length_phase_def)
  assume room: "4 \<le> length ?g"
  have "take 4 ?g = take 4 (rd_remaining op m)"
    by (rule prefix_of_stream [OF stream room]) (simp add: rd_remaining_def mode frame_def)
  then have h: "take 4 ?g = ?h" using mode by (simp add: rd_remaining_def frame_def)
  then obtain ro' where r: "readInTx False i 4 ro r = Inr (Inr ?h, ro', r)" "in_tx i ro' r regs (k + 4)"
    using R(2) room by auto
  have len: "length m < 2 ^ 32" using ok by (simp add: rd_expects_def)
  have "unat (of_nat (length m) :: 32 word) = length m" using len by (intro unat_word_of_nat) simp
  then have l64: "ucast (of_nat (length m) :: 32 word) = (of_nat (length m) :: 64 word)" by (metis of_nat_unat)
  have ul: "unat (of_nat (length m) :: 64 word) = length m" using len by (intro unat_word_of_nat) simp
  define op' where "op' = (if rd_nop op \<noteq> None then op\<lparr>rd_mode := READ_PAYLOAD, rd_len := of_nat (length m)\<rparr>
    else if rd_ptrProvided op then op\<lparr>rd_mode := READ_PAYLOAD\<rparr>
    else op\<lparr>rd_mode := READ_PAYLOAD, rd_len := of_nat (length m), rd_buf := []\<rparr>)"
  have "rd_nop op = None \<and> rd_ptrProvided op \<longrightarrow> rd_len op = of_nat (length m)"
    using ok mode word_of_unat [of "rd_len op" "length m"] by (auto simp: rd_expects_def)
  then have eq: "rd_length_phase i op ro r = Inr (4, op', ro', r)"
    using r(1) mode by (auto simp: rd_length_phase_def length_of_bytes_of_length l64 op'_def Let_def)
  have exp: "rd_expects S op' m" and mode': "rd_mode op' = READ_PAYLOAD" "rd_bytesRead op' = 0"
    using ok mode ul by (auto simp: rd_expects_def op'_def split: option.splits)
  have "rd_remaining op m = ?h @ rd_remaining op' m" using mode mode' by (simp add: rd_remaining_def frame_def)
  moreover have "rd_same op op'" by (simp add: rd_same_def op'_def)
  moreover have "\<exists>g. ?g = ?h @ g" using h by (metis append_take_drop_id)
  ultimately show "taken S i op m r regs k ?h (rd_length_phase i op ro r) \<and>
      (\<exists>n op' ro'. rd_length_phase i op ro r = Inr (n, op', ro', r) \<and> rd_mode op' = READ_PAYLOAD \<and> rd_bytesRead op' = 0)"
    using eq r(2) exp mode' by (auto simp: taken_def)
qed

lemma taken_payload:
  assumes tx: "in_tx i ro' r regs (k + length inp)" and ok: "rd_expects S op m" and mode: "rd_mode op = READ_PAYLOAD"
    and g: "drop k (regs ! i) = inp @ g" and inp: "drop (unat (rd_bytesRead op)) m = inp @ rest" and nop: "rd_nop op \<noteq> None \<longrightarrow> rest = []"
  shows "taken S i op m r regs k inp (Inr (of_nat (length inp),
    op\<lparr>rd_bytesRead := rd_bytesRead op + of_nat (length inp), rd_buf := rd_buf op @ inp\<rparr>, ro', r))"
proof -
  let ?op = "op\<lparr>rd_bytesRead := rd_bytesRead op + of_nat (length inp), rd_buf := rd_buf op @ inp\<rparr>" and ?b = "unat (rd_bytesRead op)"
  have E: "unat (rd_len op) = length m" "?b \<le> length m" "rd_buf op = take ?b m" "length m < 2 ^ 32"
    using ok mode by (simp_all add: rd_expects_def)
  have len: "?b + length inp + length rest = length m" using arg_cong [OF inp, of length] E(2) by simp
  have b: "unat (rd_bytesRead op + of_nat (length inp)) = ?b + length inp"
  proof -
    have lt: "?b + length inp < 2 ^ 64" using len E(4) by simp
    then have "unat (of_nat (length inp) :: 64 word) = length inp" using unat_word_of_nat [of "length inp", where 'a = 64] by simp
    then show ?thesis using lt by (subst unat_add_lem [THEN iffD1]) simp_all
  qed
  have full: "rd_bytesRead op + of_nat (length inp) = rd_len op" if "rest = []"
    using that len b E(1) word_of_unat [of "rd_len op"] word_of_unat [OF b] by simp
  have "drop (?b + length inp) m = drop (length inp) (drop ?b m)" by (simp add: add.commute)
  then have rem: "rd_remaining ?op m = rest" using inp mode by (simp add: rd_remaining_def b)
  have "take (?b + length inp) m = take ?b m @ inp" using inp by (simp add: take_add)
  then have "rd_expects S ?op m" using ok mode b len nop full E(3) by (auto simp: rd_expects_def split: option.splits)
  moreover have "rd_remaining op m = inp @ rd_remaining ?op m" using rem inp mode by (simp add: rd_remaining_def)
  ultimately show ?thesis using tx g by (auto simp: taken_def rd_same_def)
qed

lemma rd_payload_phase_taken:
  assumes tx: "in_tx i ro r regs k" and ok: "rd_expects (length (ring_data r)) op m" and mode: "rd_mode op = READ_PAYLOAD"
    and live: "rd_nop op \<noteq> None \<longrightarrow> rd_bytesRead op = 0" and stream: "drop k (regs ! i) @ t = rd_remaining op m @ u"
  shows "\<exists>inp n op' ro'. rd_payload_phase i op ro r = Inr (n, op', ro', r) \<and>
    taken (length (ring_data r)) i op m r regs k inp (Inr (n, op', ro', r)) \<and> rd_stalled (length (regs ! i) - (k + length inp)) op' m"
proof -
  let ?g = "drop k (regs ! i)" and ?b = "unat (rd_bytesRead op)" and ?n = "rd_len op - rd_bytesRead op"
  have E: "unat (rd_len op) = length m" "?b \<le> length m" using ok mode by (simp_all add: rd_expects_def)
  have n: "unat ?n = length m - ?b" using E by (subst unat_sub) (simp_all add: word_le_nat_alt)
  have rem: "rd_remaining op m = drop ?b m" using mode by (simp add: rd_remaining_def)
  show ?thesis
  proof (cases "rd_nop op")
    case None
    let ?inp = "take (unat ?n) ?g"
    obtain ro' where r: "readInTx True i ?n ro r = Inr (Inr ?inp, ro', r)" "in_tx i ro' r regs (k + length ?inp)"
      using in_tx_read(2) [OF tx, of True ?n] by auto
    have A: "take (length ?inp) ?g = ?inp" by (simp add: min_def)
    have B: "take (length ?inp) ?g = take (length ?inp) (drop ?b m)"
      by (rule prefix_of_stream [OF stream [unfolded rem]]) (simp_all add: n)
    have pre: "?inp = take (length ?inp) (drop ?b m)" by (rule trans [OF A [symmetric] B])
    have split: "drop ?b m = ?inp @ drop (length ?inp) (drop ?b m)"
      using append_take_drop_id [of "length ?inp" "drop ?b m"] unfolding pre [symmetric] by simp
    let ?op = "op\<lparr>rd_bytesRead := rd_bytesRead op + of_nat (length ?inp), rd_buf := rd_buf op @ ?inp\<rparr>"
    have ph: "rd_payload_phase i op ro r = Inr (of_nat (length ?inp), ?op, ro', r)"
      using r(1) None mode by (simp only: rd_payload_phase_def) (simp add: Let_def)
    have "taken (length (ring_data r)) i op m r regs k ?inp (Inr (of_nat (length ?inp), ?op, ro', r))"
      using taken_payload [OF r(2) ok mode append_take_drop_id [symmetric] split] None by simp
    moreover have "rd_completed ?op" if "length ?inp = unat ?n"
      unfolding that using mode by (simp add: rd_completed_def)
    then have "rd_stalled (length (regs ! i) - (k + length ?inp)) ?op m"
      using None mode by (cases "unat ?n \<le> length (regs ! i) - k") (auto simp: rd_stalled_def rd_needs_def)
    ultimately show ?thesis using ph by blast
  next
    case (Some p)
    then have p: "parse p m = Inr NopNone" "length m \<le> length (ring_data r)" and b: "rd_bytesRead op = 0"
      using ok live by (auto simp: rd_expects_def)
    have S: "unat (rd_len op) \<le> length (ring_data r)" using p(2) E by simp
    note N = in_tx_nop_read [OF tx S]
    show ?thesis
    proof (cases "length ?g < length m")
      case True
      then have "rd_payload_phase i op ro r = Inr (0, op, ro, r)" using N(1) Some mode E by (simp add: rd_payload_phase_def)
      then show ?thesis using taken_nothing [OF tx ok] True Some mode by (intro exI [of _ "[]"]) (simp add: rd_needs_def rd_stalled_def)
    next
      case False
      have m: "take (length m) ?g = m" using prefix_of_stream [OF stream [unfolded rem], of "length m"] False b by simp
      then obtain ro' where r: "readNopObject i p (rd_len op) ro r = Inr (Inr m, ro', r)" "in_tx i ro' r regs (k + length m)"
        using N(2) [of p] p(1) False E by auto
      have "taken (length (ring_data r)) i op m r regs k m (rd_payload_phase i op ro r)"
        using taken_payload [OF r(2) ok mode, of "drop (length m) ?g" "[]"] r(1) Some mode b m append_take_drop_id [of "length m" ?g]
        by (simp add: rd_payload_phase_def Let_def)
      moreover have "rd_payload_phase i op ro r = Inr (of_nat (length m), op\<lparr>rd_bytesRead := of_nat (length m), rd_buf := rd_buf op @ m\<rparr>, ro', r)"
        using r(1) Some mode b by (simp add: rd_payload_phase_def Let_def)
      moreover have "rd_stalled avail (op\<lparr>rd_bytesRead := of_nat (length m), rd_buf := rd_buf op @ m\<rparr>) m" for avail
        using mode E(1) by (simp add: rd_stalled_def rd_completed_def flip: E(1))
      ultimately show ?thesis by metis
    qed
  qed
qed

lemma taken_trans:
  assumes first: "taken S i op m r regs k inp res" and res: "res = Inr (n, op', ro', r)"
    and second: "taken S i op' m r regs (k + length inp) inp' res'" and res': "res' = Inr (n', op'', ro'', r)"
  shows "taken S i op m r regs k (inp @ inp') (Inr (n + n', op'', ro'', r))"
proof -
  obtain g where g: "drop k (regs ! i) = inp @ g" using first by (auto simp: taken_def)
  obtain g' where "drop (k + length inp) (regs ! i) = inp' @ g'" using second by (auto simp: taken_def)
  then have "g = inp' @ g'" using arg_cong [OF g, of "drop (length inp)"] by (simp add: add.commute)
  then show ?thesis using assms g by (auto simp: taken_def rd_same_def add.assoc)
qed

lemma rd_phases:
  assumes tx: "in_tx i ro r regs 0" and ok: "rd_expects (length (ring_data r)) op m" and live: "\<not> rd_completed op"
    and stream: "regs ! i @ t = rd_remaining op m @ u"
  shows "\<exists>inp n1 op2 ro2 n2 op3 ro3. rd_length_phase i op ro r = Inr (n1, op2, ro2, r) \<and>
    rd_payload_phase i op2 ro2 r = Inr (n2, op3, ro3, r) \<and>
    taken (length (ring_data r)) i op m r regs 0 inp (Inr (n1 + n2, op3, ro3, r)) \<and>
    rd_stalled (length (regs ! i) - length inp) op3 m"
proof -
  let ?S = "length (ring_data r)"
  have stream0: "drop 0 (regs ! i) @ t = rd_remaining op m @ u" using stream by simp
  show ?thesis
  proof (cases "rd_mode op")
    case READ_PAYLOAD
    have fresh: "rd_nop op \<noteq> None \<longrightarrow> rd_bytesRead op = 0"
      using ok live READ_PAYLOAD by (auto simp: rd_expects_def rd_completed_def split: option.splits)
    have l: "rd_length_phase i op ro r = Inr (0, op, ro, r)" using READ_PAYLOAD by (simp add: rd_length_phase_def)
    obtain inp n2 op3 ro3 where "rd_payload_phase i op ro r = Inr (n2, op3, ro3, r)"
      "taken ?S i op m r regs 0 inp (Inr (n2, op3, ro3, r))" "rd_stalled (length (regs ! i) - length inp) op3 m"
      using rd_payload_phase_taken [OF tx ok READ_PAYLOAD fresh stream0] by auto
    then show ?thesis using l by (intro exI [of _ inp]) auto
  next
    case READ_LENGTH
    note L = rd_length_phase_taken [OF tx ok READ_LENGTH stream0]
    show ?thesis
    proof (cases "length (drop 0 (regs ! i)) < 4")
      case True
      then have l: "rd_length_phase i op ro r = Inr (0, op, ro, r)" by (rule L(1))
      have p: "rd_payload_phase i op ro r = Inr (0, op, ro, r)" using READ_LENGTH by (simp add: rd_payload_phase_def)
      show ?thesis
        using l p taken_nothing [OF tx ok] True READ_LENGTH by (intro exI [of _ "[]"]) (auto simp: rd_needs_def rd_stalled_def)
    next
      case False
      let ?h = "bytes_of_length (of_nat (length m))"
      obtain n1 op2 ro2 where l: "rd_length_phase i op ro r = Inr (n1, op2, ro2, r)" and m2: "rd_mode op2 = READ_PAYLOAD" "rd_bytesRead op2 = 0"
        and t1: "taken ?S i op m r regs 0 ?h (rd_length_phase i op ro r)" using L(2) False by auto
      then obtain g where tx2: "in_tx i ro2 r regs 4" and ok2: "rd_expects ?S op2 m" and g: "regs ! i = ?h @ g"
        and rem: "rd_remaining op m = ?h @ rd_remaining op2 m" by (auto simp: taken_def)
      have "drop 4 (regs ! i) @ t = rd_remaining op2 m @ u" using stream rem g by simp
      then obtain inp n2 op3 ro3 where p: "rd_payload_phase i op2 ro2 r = Inr (n2, op3, ro3, r)"
        and inp: "taken ?S i op2 m r regs 4 inp (Inr (n2, op3, ro3, r))" and st: "rd_stalled (length (regs ! i) - (4 + length inp)) op3 m"
        using rd_payload_phase_taken [OF tx2 ok2 m2(1)] m2(2) by blast
      have "taken ?S i op m r regs 0 (?h @ inp) (Inr (n1 + n2, op3, ro3, r))"
        by (rule taken_trans [OF t1 l _ refl]) (use inp in simp)
      then show ?thesis using l p st by (intro exI [of _ "?h @ inp"]) auto
    qed
  qed
qed

text \<open>One call of \<^verbatim>\<open>handleRead\<close>.\<close>

lemma handleRead_moves:
  assumes rel: "ring_rel r regs" and i: "i < length regs" and flag: "\<not> header_inTx r ! i"
    and ok: "rd_expects (length (ring_data r)) op m" and live: "\<not> rd_completed op" and stream: "regs ! i @ t = rd_remaining op m @ u"
  shows "\<exists>inp g op' r'. handleRead i op RingBufferRole r = Inr (of_nat (length inp), op', RingBufferRole, r',
      if rd_completed op' then [ReadCall (rd_fn op) Success m] else []) \<and>
    regs ! i = inp @ g \<and> ring_rel r' (pass_on i (length inp) regs) \<and> header_inTx r' = header_inTx r \<and>
    rd_remaining op m = inp @ rd_remaining op' m \<and> rd_expects (length (ring_data r)) op' m \<and> rd_same op op' \<and>
    rd_stalled (length (regs ! i) - length inp) op' m"
proof -
  let ?S = "length (ring_data r)"
  obtain ro1 r1 where t1: "startTx i RingBufferRole r = Inr (Inr (), ro1, r1)" "in_tx i ro1 r1 regs 0"
    "header_inTx r1 = (header_inTx r)[i := True]"
    using begin_tx [OF rel i flag] by blast
  have S: "length (ring_data r1) = ?S" by (rule ring_size [OF rel in_txD(1) [OF t1(2)] refl])
  obtain inp n1 op2 ro2 n2 op3 ro3 where phases: "rd_length_phase i op ro1 r1 = Inr (n1, op2, ro2, r1)"
      "rd_payload_phase i op2 ro2 r1 = Inr (n2, op3, ro3, r1)"
    and tk: "taken ?S i op m r1 regs 0 inp (Inr (n1 + n2, op3, ro3, r1))"
    and stalled: "rd_stalled (length (regs ! i) - length inp) op3 m"
    using rd_phases [OF t1(2), unfolded S, OF ok live stream] by blast
  from tk obtain g where m: "n1 + n2 = of_nat (length inp)" "in_tx i ro3 r1 regs (length inp)" "regs ! i = inp @ g"
    "rd_remaining op m = inp @ rd_remaining op3 m" "rd_expects ?S op3 m" "rd_same op op3"
    by (auto simp: taken_def)
  obtain r4 where c: "commitTx i ro3 r1 = Inr (Inr (), RingBufferRole, r4)"
    "ring_rel r4 (pass_on i (length inp) regs)" "header_inTx r4 = (header_inTx r1)[i := False]"
    using commit_tx [OF m(2)] by blast
  have "header_inTx r4 = header_inTx r" using c(3) t1(3) flag by (metis list_update_id list_update_overwrite)
  moreover have "rd_fn op3 = rd_fn op" using m(6) by (simp add: rd_same_def)
  ultimately show ?thesis using t1(1) phases c m stalled rd_completed_remaining(2) [OF m(5)]
    by (auto simp: handleRead_def intro!: exI [of _ inp])
qed

end
