(* ===== verification/Ring_Link.thy ===== *)
theory Ring_Link
  imports Ring_Delivery
begin

text \<open>
  A one-way link: the queue of write operations of one end, the ring buffer in shared memory, and
  the queue of read operations of the other end, with the loops of
  \<^verbatim>\<open>tensorpipe/transport/shm/connection_impl.cc\<close> that serve the queues. The ends take turns in
  any order.
\<close>

section \<open>Serving the queues\<close>

text \<open>
  The role object lives as long as the loop; its destructor checks that it is not in a
  transaction. The result has the callbacks that were called and the triggers of the peer, in
  order, the operations that are left, and the ring.
\<close>

datatype rb_effect = Called rb_call | TriggerPeer

fun process_reads :: "nat \<Rightarrow> rd_op list \<Rightarrow> role \<Rightarrow> ring \<Rightarrow> (rb_effect list \<times> rd_op list \<times> ring) result" where
  "process_reads i [] ro r = throw_assert_if (inTx ro) (Inr ([], [], r))"
| "process_reads i (op # ops) ro r =
     bindR (handleRead i op ro r) (\<lambda>(n, op', ro', r', calls).
       let effs = map Called calls @ (if n > 0 then [TriggerPeer] else []) in
       if rd_completed op'
       then bindR (process_reads i ops ro' r') (\<lambda>(effs', ops', r''). Inr (effs @ effs', ops', r''))
       else throw_assert_if (inTx ro') (Inr (effs, op' # ops, r')))"

fun process_writes :: "nat \<Rightarrow> wr_op list \<Rightarrow> role \<Rightarrow> ring \<Rightarrow> (rb_effect list \<times> wr_op list \<times> ring) result" where
  "process_writes i [] ro r = throw_assert_if (inTx ro) (Inr ([], [], r))"
| "process_writes i (op # ops) ro r =
     bindR (handleWrite i op ro r) (\<lambda>(n, op', ro', r', calls).
       let effs = map Called calls @ (if n > 0 then [TriggerPeer] else []) in
       if wr_completed op'
       then bindR (process_writes i ops ro' r') (\<lambda>(effs', ops', r''). Inr (effs @ effs', ops', r''))
       else throw_assert_if (inTx ro') (Inr (effs, op' # ops, r')))"

fun calls_of :: "rb_effect list \<Rightarrow> rb_call list" where
  "calls_of [] = []"
| "calls_of (Called c # effs) = c # calls_of effs"
| "calls_of (TriggerPeer # effs) = calls_of effs"

lemma calls_of_append [simp]: "calls_of (effs @ effs') = calls_of effs @ calls_of effs'"
  by (induction effs rule: calls_of.induct) simp_all

lemma calls_of_Called [simp]: "calls_of (map Called cs) = cs"
  by (induction cs) simp_all

section \<open>One end of the link\<close>

abbreviation link_rel :: "ring \<Rightarrow> byte list \<Rightarrow> byte list \<Rightarrow> bool" where
  "link_rel r q f \<equiv> ring_rel r [q, f] \<and> header_inTx r = [False, False]"

lemma pass_on_two:
  "pass_on 0 k [q, f] = [drop k q, f @ take k q]" "pass_on 1 k [q, f] = [q @ take k f, drop k f]"
  "pass_on (Suc 0) k [q, f] = [q @ take k f, drop k f]"
  by (simp_all add: pass_on_def previous_def)

lemma of_nat_pos: "length xs \<le> 2 ^ 30 \<Longrightarrow> 0 < (of_nat (length xs) :: 64 word) \<longleftrightarrow> xs \<noteq> []"
  using unat_word_of_nat [of "length xs", where 'a = 64] by (auto simp: word_less_nat_alt)

lemma link_small:
  assumes "link_rel r q f"
  shows "length q \<le> 2 ^ 30 \<and> length f \<le> 2 ^ 30 \<and> length q + length f = length (ring_data r)"
proof -
  have rel: "ring_rel r [q, f]" using assms by (rule conjunct1)
  show ?thesis using pool_okD(4) [OF ring_relD(1) [OF rel]] ring_relD(7) [OF rel] by simp
qed

text \<open>Only the first operation of a queue has begun.\<close>

definition wq_ok :: "nat \<Rightarrow> wr_op list \<Rightarrow> bool" where
  "wq_ok S ws \<longleftrightarrow> (\<forall>w \<in> set ws. wr_ok S w \<and> \<not> wr_completed w) \<and> (\<forall>w \<in> set (tl ws). wr_mode w = WRITE_LENGTH)"

definition wq_stalled :: "nat \<Rightarrow> wr_op list \<Rightarrow> bool" where
  "wq_stalled room ws \<longleftrightarrow> ws = [] \<or> room < wr_needs (hd ws)"

lemma wq_ok_Cons: "wq_ok S (w # ws) \<longleftrightarrow> wr_ok S w \<and> \<not> wr_completed w \<and> wq_ok S ws \<and> (\<forall>w \<in> set ws. wr_mode w = WRITE_LENGTH)"
  by (cases ws) (auto simp: wq_ok_def)

lemma wr_remaining_nonempty: "wr_ok S w \<Longrightarrow> \<not> wr_completed w \<Longrightarrow> wr_remaining w \<noteq> []"
  using wr_completed_remaining [of S w] by (cases "wr_mode w") (auto simp: wr_remaining_def bytes_of_length_def)

lemma process_writes_moves:
  assumes "link_rel r q f" and "S = length (ring_data r)" and "wq_ok S ws"
  shows "\<exists>n effs out ws' r' f'. process_writes 1 ws RingBufferRole r = Inr (effs, ws', r') \<and>
    calls_of effs = map (\<lambda>w. WriteCall (wr_fn w) Success) (take n ws) \<and> n + length ws' = length ws \<and> link_rel r' (q @ out) f' \<and> S = length (ring_data r') \<and> wq_ok S ws' \<and>
    concat (map wr_remaining ws) = out @ concat (map wr_remaining ws') \<and> list_all2 same_message (drop n ws) ws' \<and>
    (TriggerPeer \<in> set effs \<longleftrightarrow> out \<noteq> []) \<and> wq_stalled (length f') ws'"
  using assms
proof (induction ws arbitrary: q f r)
  case Nil
  then show ?case by (intro exI [of _ 0] exI [of _ "[]"] exI [of _ "[]"] exI [of _ "[]"] exI [of _ r] exI [of _ f]) (auto simp: RingBufferRole_def wq_ok_def wq_stalled_def)
next
  case (Cons w ws)
  note rel = Cons.prems(1) and S = Cons.prems(2)
  have w: "wr_ok S w" "\<not> wr_completed w" "wq_ok S ws" using Cons.prems(3) by (simp_all add: wq_ok_Cons)
  obtain out w' r' where h: "handleWrite 1 w RingBufferRole r = Inr (of_nat (length out), w', RingBufferRole, r',
      if wr_completed w' then [WriteCall (wr_fn w) Success] else [])"
    and le: "length out \<le> length f" and rel': "ring_rel r' (pass_on 1 (length out) [q, overwrite 0 out f])"
    and hdr: "header_inTx r' = header_inTx r" and rem: "wr_remaining w = out @ wr_remaining w'" and w': "wr_ok S w'"
    and same: "same_message w w'" and stalled: "wr_stalled (length f - length out) w'"
    using handleWrite_moves [of r "[q, f]" 1 w] rel S w by auto
  let ?f = "drop (length out) (overwrite 0 out f)"
  have rel1: "link_rel r' (q @ out) ?f"
    using rel' rel hdr le by (simp add: pass_on_two overwrite_def)
  have S': "S = length (ring_data r')"
    using link_small [OF rel] link_small [OF rel1] S le by simp
  have t: "0 < (of_nat (length out) :: 64 word) \<longleftrightarrow> out \<noteq> []" using of_nat_pos [of out] le link_small [OF rel] by simp
  show ?case
  proof (cases "wr_completed w'")
    case True
    obtain n effs out' ws' r'' f' where IH: "process_writes 1 ws RingBufferRole r' = Inr (effs, ws', r'')"
      "calls_of effs = map (\<lambda>w. WriteCall (wr_fn w) Success) (take n ws)" "n + length ws' = length ws" "link_rel r'' ((q @ out) @ out') f'" "S = length (ring_data r'')" "wq_ok S ws'"
      "concat (map wr_remaining ws) = out' @ concat (map wr_remaining ws')" "list_all2 same_message (drop n ws) ws'" "TriggerPeer \<in> set effs \<longleftrightarrow> out' \<noteq> []"
      "wq_stalled (length f') ws'"
      using Cons.IH [OF rel1 S' w(3)] by blast
    have empty: "wr_remaining w' = []" using wr_completed_remaining [OF w'] True by simp
    have ne: "out \<noteq> []" using wr_remaining_nonempty [OF w(1,2)] rem empty by simp
    show ?thesis
      by (rule exI [of _ "Suc n"], rule exI [of _ "[Called (WriteCall (wr_fn w) Success), TriggerPeer] @ effs"], rule exI [of _ "out @ out'"], rule exI [of _ ws'], rule exI [of _ r''], rule exI [of _ f'])
        (use h True IH t ne rem empty in simp)
  next
    case False
    have "wq_ok S (w' # ws)" using Cons.prems(3) w' False by (simp add: wq_ok_Cons)
    moreover have "length ?f = length f - length out" using le by simp
    then have "wq_stalled (length ?f) (w' # ws)" using stalled False by (simp only: wr_stalled_def wq_stalled_def) simp
    ultimately show ?thesis
      by (intro exI [of _ 0] exI [of _ "if out = [] then [] else [TriggerPeer]"] exI [of _ out] exI [of _ "w' # ws"] exI [of _ r'] exI [of _ ?f])
        (use h False rel1 S' t rem same in \<open>auto simp: RingBufferRole_def list_all2_same same_message_def\<close>)
  qed
qed

section \<open>The other end\<close>

abbreviation frames :: "byte list list \<Rightarrow> byte list" where
  "frames ms \<equiv> concat (map frame ms)"

text \<open>What the reader is going to read, if the messages are those that the operations wait for and what comes next.\<close>

fun rd_ahead :: "rd_op list \<Rightarrow> byte list list \<Rightarrow> byte list" where
  "rd_ahead (op # ops) (m # ms) = rd_remaining op m @ frames ms"
| "rd_ahead ops ms = frames ms"

definition rq_ok :: "nat \<Rightarrow> rd_op list \<Rightarrow> byte list list \<Rightarrow> bool" where
  "rq_ok S ops ms \<longleftrightarrow> length ops \<le> length ms \<and> list_all2 (rd_expects S) ops (take (length ops) ms) \<and>
     (\<forall>op \<in> set ops. \<not> rd_completed op) \<and> (\<forall>op \<in> set (tl ops). rd_mode op = READ_LENGTH)"

definition rq_stalled :: "nat \<Rightarrow> rd_op list \<Rightarrow> byte list list \<Rightarrow> bool" where
  "rq_stalled available ops ms \<longleftrightarrow> ops = [] \<or> available < rd_needs (hd ops) (hd ms)"

lemma rq_ok_Cons: "rq_ok S (op # ops) (m # ms) \<longleftrightarrow>
    rd_expects S op m \<and> \<not> rd_completed op \<and> rq_ok S ops ms \<and> (\<forall>op \<in> set ops. rd_mode op = READ_LENGTH)"
  by (cases ops) (auto simp: rq_ok_def)

lemma rd_remaining_nonempty: "rd_expects S op m \<Longrightarrow> \<not> rd_completed op \<Longrightarrow> rd_remaining op m \<noteq> []"
  using rd_completed_remaining(1) [of S op m] by (cases "rd_mode op") (auto simp: rd_remaining_def frame_def bytes_of_length_def)

lemma rd_ahead_fresh: "length ops \<le> length ms \<Longrightarrow> \<forall>op \<in> set ops. rd_mode op = READ_LENGTH \<Longrightarrow> rd_ahead ops ms = frames ms"
  by (cases "(ops, ms)" rule: rd_ahead.cases) (simp_all add: rd_remaining_def)

abbreviation read_calls :: "rd_op list \<Rightarrow> byte list list \<Rightarrow> rb_call list" where
  "read_calls ops ms \<equiv> map (\<lambda>(op, m). ReadCall (rd_fn op) Success m) (zip ops ms)"

lemma process_reads_moves:
  assumes "link_rel r q f" and "S = length (ring_data r)" and "rq_ok S ops ms" and "q @ t = rd_ahead ops ms"
  shows "\<exists>n effs inp g ops' r'. process_reads 0 ops RingBufferRole r = Inr (effs, ops', r') \<and>
    calls_of effs = read_calls (take n ops) ms \<and> n + length ops' = length ops \<and> q = inp @ g \<and> link_rel r' g (f @ inp) \<and> S = length (ring_data r') \<and> rq_ok S ops' (drop n ms) \<and>
    rd_ahead ops ms = inp @ rd_ahead ops' (drop n ms) \<and> list_all2 rd_same (drop n ops) ops' \<and>
    (TriggerPeer \<in> set effs \<longleftrightarrow> inp \<noteq> []) \<and> rq_stalled (length g) ops' (drop n ms)"
  using assms
proof (induction ops arbitrary: q f r ms)
  case Nil
  then show ?case by (intro exI [of _ 0] exI [of _ "[]"] exI [of _ "[]"] exI [of _ q] exI [of _ "[]"] exI [of _ r]) (auto simp: RingBufferRole_def rq_ok_def rq_stalled_def)
next
  case (Cons op ops)
  note rel = Cons.prems(1) and S = Cons.prems(2)
  obtain m ms' where ms: "ms = m # ms'" using Cons.prems(3) by (cases ms) (auto simp: rq_ok_def)
  have op: "rd_expects S op m" "\<not> rd_completed op" "rq_ok S ops ms'" "\<forall>op \<in> set ops. rd_mode op = READ_LENGTH"
    using Cons.prems(3) by (simp_all add: ms rq_ok_Cons)
  obtain inp g op' r' where h: "handleRead 0 op RingBufferRole r = Inr (of_nat (length inp), op', RingBufferRole, r',
      if rd_completed op' then [ReadCall (rd_fn op) Success m] else [])"
    and q: "q = inp @ g" and rel': "ring_rel r' (pass_on 0 (length inp) [q, f])"
    and hdr: "header_inTx r' = header_inTx r" and rem: "rd_remaining op m = inp @ rd_remaining op' m" and op': "rd_expects S op' m"
    and same: "rd_same op op'" and stalled: "rd_stalled (length q - length inp) op' m"
    using handleRead_moves [of r "[q, f]" 0 op m t "frames ms'"] rel S op Cons.prems(4) by (auto simp: ms)
  have rel1: "link_rel r' g (f @ inp)" using rel' rel hdr by (simp add: pass_on_two q)
  have S': "S = length (ring_data r')" using link_small [OF rel] link_small [OF rel1] S by (simp add: q)
  have tr: "0 < (of_nat (length inp) :: 64 word) \<longleftrightarrow> inp \<noteq> []" using of_nat_pos [of inp] link_small [OF rel] by (simp add: q)
  have ahead: "rd_ahead (op # ops) ms = inp @ rd_remaining op' m @ frames ms'" using rem by (simp add: ms)
  show ?case
  proof (cases "rd_completed op'")
    case True
    have empty: "rd_remaining op' m = []" using rd_completed_remaining(1) [OF op'] True by simp
    have ne: "inp \<noteq> []" using rd_remaining_nonempty [OF op(1,2)] rem empty by simp
    have fresh: "rd_ahead ops ms' = frames ms'" using op(3,4) by (intro rd_ahead_fresh) (simp_all add: rq_ok_def)
    have "g @ t = rd_ahead ops ms'" using Cons.prems(4) ahead empty fresh by (simp add: q)
    from Cons.IH [OF rel1 S' op(3) this] obtain n effs inp' g' ops' r'' where
      IH: "process_reads 0 ops RingBufferRole r' = Inr (effs, ops', r'')" "calls_of effs = read_calls (take n ops) ms'"
        "n + length ops' = length ops" "g = inp' @ g'" "link_rel r'' g' ((f @ inp) @ inp')" "S = length (ring_data r'')"
        "rq_ok S ops' (drop n ms')" "rd_ahead ops ms' = inp' @ rd_ahead ops' (drop n ms')" "list_all2 rd_same (drop n ops) ops'"
        "TriggerPeer \<in> set effs \<longleftrightarrow> inp' \<noteq> []" "rq_stalled (length g') ops' (drop n ms')"
      by blast
    have "rd_ahead (op # ops) ms = (inp @ inp') @ rd_ahead ops' (drop n ms')" using ahead empty fresh IH(8) by simp
    then show ?thesis
      by (intro exI [of _ "Suc n"] exI [of _ "[Called (ReadCall (rd_fn op) Success m), TriggerPeer] @ effs"] exI [of _ "inp @ inp'"] exI [of _ g'] exI [of _ ops'] exI [of _ r''])
        (use h True IH(1-7,9-) tr ne q ms in simp)
  next
    case False
    have "rq_ok S (op' # ops) ms" using Cons.prems(3) op' False by (simp add: ms rq_ok_Cons)
    moreover have "rq_stalled (length g) (op' # ops) ms" using stalled False by (simp add: q ms rd_stalled_def rq_stalled_def)
    moreover have "rd_ahead (op # ops) ms = inp @ rd_ahead (op' # ops) ms" using ahead by (simp add: ms)
    ultimately show ?thesis
      by (intro exI [of _ 0] exI [of _ "if inp = [] then [] else [TriggerPeer]"] exI [of _ inp] exI [of _ g] exI [of _ "op' # ops"] exI [of _ r'])
        (use h False rel1 S' tr q same in \<open>auto simp: RingBufferRole_def list_all2_same rd_same_def\<close>)
  qed
qed

end
