(* ===== verification/Ring_Progress.thy ===== *)
theory Ring_Progress
  imports Ring_Link
begin

text \<open>
  What holds of a one-way link between any two steps of its ends: the bytes that are on their way
  are the messages that were written and not yet read; and, as each end is triggered when the
  other has moved something, the two ends do not wait for each other forever.
\<close>

section \<open>The ends of a link\<close>

text \<open>
  A list of messages is sent over the link: \<open>fns\<close> are the callbacks of the writes (or reads) that
  were asked for so far, for the first messages of the list, \<open>ops\<close> are the operations in the queue
  and \<open>calls\<close> the callbacks that were called.
\<close>

definition writer_side :: "nat \<Rightarrow> byte list list \<Rightarrow> nat list \<Rightarrow> wr_op list \<Rightarrow> rb_call list \<Rightarrow> bool" where
  "writer_side S ms fns ops calls \<longleftrightarrow> length fns \<le> length ms \<and> length ops \<le> length fns \<and> wq_ok S ops \<and>
     (let n = length fns - length ops in
        map wr_payload ops = drop n (take (length fns) ms) \<and> map wr_fn ops = drop n fns \<and>
        calls = map (\<lambda>fn. WriteCall fn Success) (take n fns))"

definition reader_side :: "nat \<Rightarrow> byte list list \<Rightarrow> nat list \<Rightarrow> rd_op list \<Rightarrow> rb_call list \<Rightarrow> bool" where
  "reader_side S ms fns ops calls \<longleftrightarrow> length fns \<le> length ms \<and> length ops \<le> length fns \<and>
     (let n = length fns - length ops in
        rq_ok S ops (drop n ms) \<and> map rd_fn ops = drop n fns \<and>
        calls = map (\<lambda>(fn, m). ReadCall fn Success m) (zip (take n fns) (take n ms)))"

definition in_flight :: "byte list list \<Rightarrow> nat list \<Rightarrow> wr_op list \<Rightarrow> nat list \<Rightarrow> rd_op list \<Rightarrow> byte list \<Rightarrow> bool" where
  "in_flight ms wfns ws rfns rs q \<longleftrightarrow>
     q @ concat (map wr_remaining ws) @ frames (drop (length wfns) ms) = rd_ahead rs (drop (length rfns - length rs) ms)"

section \<open>Asking for a write or a read\<close>

definition wr_fresh :: "nat \<Rightarrow> byte list \<Rightarrow> wr_op \<Rightarrow> bool" where
  "wr_fresh S m w \<longleftrightarrow> wr_ok S w \<and> wr_mode w = WRITE_LENGTH \<and> wr_payload w = m"

definition rd_fresh :: "nat \<Rightarrow> byte list \<Rightarrow> rd_op \<Rightarrow> bool" where
  "rd_fresh S m op \<longleftrightarrow> rd_expects S op m \<and> rd_mode op = READ_LENGTH"

lemma wr_fresh_remaining: "wr_fresh S m w \<Longrightarrow> wr_remaining w = frame m"
  using length_wr_payload [of S w] word_of_unat [of "wr_len w"]
  by (auto simp: wr_fresh_def wr_remaining_def wr_ok_def frame_def unsigned_of_nat)

lemma wq_ok_append: "wq_ok S ws \<Longrightarrow> wr_ok S w \<Longrightarrow> wr_mode w = WRITE_LENGTH \<Longrightarrow> wq_ok S (ws @ [w])"
  by (cases ws) (auto simp: wq_ok_def wr_completed_def)

lemma rq_ok_append:
  assumes "rq_ok S rs ms" and "length rs < length ms" and "rd_fresh S (ms ! length rs) op"
  shows "rq_ok S (rs @ [op]) ms"
proof -
  have "take (length (rs @ [op])) ms = take (length rs) ms @ [ms ! length rs]"
    using assms(2) by (simp add: take_Suc_conv_app_nth)
  then have "list_all2 (rd_expects S) (rs @ [op]) (take (length (rs @ [op])) ms)"
    using assms by (simp add: list_all2_appendI rq_ok_def rd_fresh_def)
  then show ?thesis using assms by (cases rs) (auto simp: rq_ok_def rd_fresh_def rd_completed_def Suc_le_eq)
qed

lemma writer_asks:
  assumes "writer_side S ms fns ops calls" and "length fns < length ms" and "wr_fresh S (ms ! length fns) w"
  shows "writer_side S ms (fns @ [wr_fn w]) (ops @ [w]) calls"
  using assms by (auto simp: writer_side_def Let_def wq_ok_append wr_fresh_def take_Suc_conv_app_nth)

lemma reader_asks:
  assumes "reader_side S ms fns ops calls" and "length fns < length ms" and "rd_fresh S (ms ! length fns) op"
  shows "reader_side S ms (fns @ [rd_fn op]) (ops @ [op]) calls"
  using assms rq_ok_append [of S ops "drop (length fns - length ops) ms" op]
  by (auto simp: reader_side_def Let_def)

lemma in_flight_write:
  assumes "in_flight ms wfns ws rfns rs q" and "length wfns < length ms" and "wr_fresh S (ms ! length wfns) w"
  shows "in_flight ms (wfns @ [fn]) (ws @ [w]) rfns rs q"
proof -
  have "frames (drop (length wfns) ms) = wr_remaining w @ frames (drop (Suc (length wfns)) ms)"
    unfolding wr_fresh_remaining [OF assms(3)] Cons_nth_drop_Suc [OF assms(2), symmetric] by simp
  then show ?thesis using assms(1) by (simp add: in_flight_def)
qed

lemma in_flight_read:
  assumes "in_flight ms wfns ws rfns rs q" and "length rfns < length ms" and "length rs \<le> length rfns"
    and "rd_mode op = READ_LENGTH"
  shows "in_flight ms wfns ws (rfns @ [fn]) (rs @ [op]) q"
proof -
  have "rd_ahead (rs @ [op]) (drop (length rfns - length rs) ms) = rd_ahead rs (drop (length rfns - length rs) ms)"
  proof (cases rs)
    case Nil
    then show ?thesis using assms(2,4) by (cases "drop (length rfns) ms") (simp_all add: rd_remaining_def)
  next
    case (Cons op' rs')
    then show ?thesis by (cases "drop (length rfns - length rs) ms") simp_all
  qed
  then show ?thesis using assms(1,3) by (simp add: in_flight_def Suc_diff_le)
qed


section \<open>Serving the queues\<close>

lemma list_all2_same_message:
  assumes "list_all2 same_message ops ops'"
  shows "map wr_payload ops' = map wr_payload ops" "map wr_fn ops' = map wr_fn ops"
  using assms by (induction rule: list_all2_induct) (simp_all add: same_message_payload, simp add: same_message_def)

lemma list_all2_rd_same: "list_all2 rd_same ops ops' \<Longrightarrow> map rd_fn ops' = map rd_fn ops"
  by (induction rule: list_all2_induct) (simp_all add: rd_same_def)

lemma take_minus_append: "n \<le> k \<Longrightarrow> take k xs = take (k - n) xs @ take n (drop (k - n) xs)"
  by (simp add: flip: take_add)

text \<open>How many bytes each end has left to move.\<close>

definition wq_left :: "wr_op list \<Rightarrow> nat" where
  "wq_left ws = length (concat (map wr_remaining ws))"

definition rq_left :: "byte list list \<Rightarrow> nat list \<Rightarrow> rd_op list \<Rightarrow> nat" where
  "rq_left ms fns rs = length (rd_ahead rs (drop (length fns - length rs) ms))"

lemma writer_serves:
  assumes rel: "link_rel r q f" and S: "length (ring_data r) = S" and side: "writer_side S ms wfns ws calls"
    and flight: "in_flight ms wfns ws rfns rs q"
  shows "\<exists>effs ws' r' q' f'. process_writes 1 ws RingBufferRole r = Inr (effs, ws', r') \<and> link_rel r' q' f' \<and> length (ring_data r') = S \<and>
    writer_side S ms wfns ws' (calls @ calls_of effs) \<and> in_flight ms wfns ws' rfns rs q' \<and> wq_stalled (length f') ws' \<and>
    (if TriggerPeer \<in> set effs then wq_left ws' < wq_left ws else wq_left ws' = wq_left ws \<and> q' = q)"
proof -
  let ?n = "length wfns - length ws"
  have W: "length wfns \<le> length ms" "length ws \<le> length wfns" "wq_ok S ws" "map wr_payload ws = drop ?n (take (length wfns) ms)"
    "map wr_fn ws = drop ?n wfns" "calls = map (\<lambda>fn. WriteCall fn Success) (take ?n wfns)"
    using side by (simp_all add: writer_side_def Let_def)
  obtain k effs out ws' r' f' where P: "process_writes 1 ws RingBufferRole r = Inr (effs, ws', r')"
    "calls_of effs = map (\<lambda>w. WriteCall (wr_fn w) Success) (take k ws)" "k + length ws' = length ws" "link_rel r' (q @ out) f'"
    "S = length (ring_data r')" "wq_ok S ws'" "concat (map wr_remaining ws) = out @ concat (map wr_remaining ws')"
    "list_all2 same_message (drop k ws) ws'" "TriggerPeer \<in> set effs \<longleftrightarrow> out \<noteq> []" "wq_stalled (length f') ws'"
    using process_writes_moves [OF rel S [symmetric] W(3)] by blast
  have n: "length wfns - length ws' = ?n + k" using P(3) W(2) by simp
  have new: "map wr_payload ws' = drop (?n + k) (take (length wfns) ms)" "map wr_fn ws' = drop (?n + k) wfns"
    using list_all2_same_message [OF P(8)] W(4,5) drop_map [of k wr_payload ws] drop_map [of k wr_fn ws] by (simp_all add: add.commute)
  have "map wr_fn (take k ws) = take k (drop ?n wfns)" using W(5) take_map [of k wr_fn ws] by simp
  then have "map (\<lambda>w. WriteCall (wr_fn w) Success) (take k ws) = map (\<lambda>fn. WriteCall fn Success) (take k (drop ?n wfns))"
    by (metis (mono_tags, lifting) comp_apply map_eq_conv map_map)
  then have "calls @ calls_of effs = map (\<lambda>fn. WriteCall fn Success) (take (?n + k) wfns)"
    by (simp add: W(6) P(2) take_add)
  then have "writer_side S ms wfns ws' (calls @ calls_of effs)" using W(1,2) P(3,6) new by (simp add: writer_side_def n Let_def)
  moreover have "in_flight ms wfns ws' rfns rs (q @ out)" using flight P(7) by (simp add: in_flight_def)
  moreover have "if TriggerPeer \<in> set effs then wq_left ws' < wq_left ws else wq_left ws' = wq_left ws \<and> q @ out = q"
    using P(7,9) by (simp add: wq_left_def)
  ultimately show ?thesis using P(1,4,5,10) by blast
qed

lemma zip_take_length: "zip xs (take (length xs) ys) = zip xs ys"
proof (induction xs arbitrary: ys)
  case (Cons x xs)
  then show ?case by (cases ys) simp_all
qed simp

lemma read_calls_fns:
  assumes "map rd_fn ops = fns"
  shows "read_calls ops ms = map (\<lambda>(fn, m). ReadCall fn Success m) (zip fns (take (length ops) ms))"
proof -
  have "read_calls ops ms = map (\<lambda>(fn, m). ReadCall fn Success m) (zip (map rd_fn ops) ms)"
    by (simp add: zip_map1 case_prod_beta comp_def)
  then show ?thesis using assms zip_take_length [of fns ms] by (metis length_map)
qed

lemma reader_serves:
  assumes rel: "link_rel r q f" and S: "length (ring_data r) = S" and side: "reader_side S ms rfns rs calls"
    and flight: "in_flight ms wfns ws rfns rs q"
  shows "\<exists>effs rs' r' q' f'. process_reads 0 rs RingBufferRole r = Inr (effs, rs', r') \<and> link_rel r' q' f' \<and> length (ring_data r') = S \<and>
    reader_side S ms rfns rs' (calls @ calls_of effs) \<and> in_flight ms wfns ws rfns rs' q' \<and>
    rq_stalled (length q') rs' (drop (length rfns - length rs') ms) \<and>
    (if TriggerPeer \<in> set effs then rq_left ms rfns rs' < rq_left ms rfns rs else rq_left ms rfns rs' = rq_left ms rfns rs \<and> f' = f)"
proof -
  let ?n = "length rfns - length rs"
  have R: "length rfns \<le> length ms" "length rs \<le> length rfns" "rq_ok S rs (drop ?n ms)" "map rd_fn rs = drop ?n rfns"
    "calls = map (\<lambda>(fn, m). ReadCall fn Success m) (zip (take ?n rfns) (take ?n ms))"
    using side by (simp_all add: reader_side_def Let_def)
  obtain k effs inp g rs' r' where P: "process_reads 0 rs RingBufferRole r = Inr (effs, rs', r')"
    "calls_of effs = read_calls (take k rs) (drop ?n ms)" "k + length rs' = length rs" "q = inp @ g" "link_rel r' g (f @ inp)"
    "S = length (ring_data r')" "rq_ok S rs' (drop k (drop ?n ms))"
    "rd_ahead rs (drop ?n ms) = inp @ rd_ahead rs' (drop k (drop ?n ms))" "list_all2 rd_same (drop k rs) rs'"
    "TriggerPeer \<in> set effs \<longleftrightarrow> inp \<noteq> []" "rq_stalled (length g) rs' (drop k (drop ?n ms))"
    using process_reads_moves [OF rel S [symmetric] R(3) flight [unfolded in_flight_def]] by blast
  have n: "length rfns - length rs' = ?n + k" "drop k (drop ?n ms) = drop (?n + k) ms" using P(3) R(2) by (simp_all add: add.commute)
  have fns: "map rd_fn rs' = drop (?n + k) rfns" "map rd_fn (take k rs) = take k (drop ?n rfns)"
    using list_all2_rd_same [OF P(9)] R(4) drop_map [of k rd_fn rs] take_map [of k rd_fn rs] by (simp_all add: add.commute)
  have k: "min (length rs) k = k" using P(3) by simp
  have "calls_of effs = map (\<lambda>(fn, m). ReadCall fn Success m) (zip (take k (drop ?n rfns)) (take k (drop ?n ms)))"
    using read_calls_fns [OF fns(2)] P(2) k by simp
  moreover have "zip (take (?n + k) rfns) (take (?n + k) ms) =
      zip (take ?n rfns) (take ?n ms) @ zip (take k (drop ?n rfns)) (take k (drop ?n ms))"
    unfolding take_add by (rule zip_append) (use R(1,2) in simp)
  ultimately have "calls @ calls_of effs = map (\<lambda>(fn, m). ReadCall fn Success m) (zip (take (?n + k) rfns) (take (?n + k) ms))"
    by (simp only: R(5) map_append)
  then have "reader_side S ms rfns rs' (calls @ calls_of effs)" using R(1,2) P(3,7) fns n by (simp add: reader_side_def Let_def)
  moreover have "in_flight ms wfns ws rfns rs' g" using flight P(4,8) n by (simp add: in_flight_def)
  moreover have "rq_stalled (length g) rs' (drop (length rfns - length rs') ms)" using P(11) n by simp
  moreover have "if TriggerPeer \<in> set effs then rq_left ms rfns rs' < rq_left ms rfns rs else rq_left ms rfns rs' = rq_left ms rfns rs \<and> f @ inp = f"
    using P(8,10) n by (simp add: rq_left_def)
  ultimately show ?thesis using P(1,5) P(6) [symmetric] by blast
qed

section \<open>No deadlock\<close>

lemma frames_drop: "i < length ms \<Longrightarrow> length (frames (drop i ms)) = 4 + length (ms ! i) + length (frames (drop (Suc i) ms))"
  unfolding Cons_nth_drop_Suc [symmetric] by (simp add: frame_def)

lemma frames_antimono: "i \<le> j \<Longrightarrow> length (frames (drop j ms)) \<le> length (frames (drop i ms))"
proof (induction j)
  case (Suc j)
  show ?case
  proof (cases "i = Suc j")
    case False
    then have IH: "length (frames (drop j ms)) \<le> length (frames (drop i ms))" using Suc by simp
    show ?thesis
    proof (cases "j < length ms")
      case True
      then show ?thesis using IH frames_drop [OF True] by simp
    qed simp
  qed simp
qed simp

text \<open>How much the operations at the front of the queues have left, and what they need to go on.\<close>

lemma wr_front:
  assumes "wr_ok S w" and "\<not> wr_completed w" and "length (wr_payload w) < 2 ^ 32"
  obtains (header) "wr_needs w = 4" "length (wr_remaining w) = 4 + length (wr_payload w)"
  | (bytes) "wr_needs w = 1"
  | (object) "wr_needs w = length (wr_payload w)" "length (wr_remaining w) = length (wr_payload w)" "length (wr_payload w) \<le> S"
proof (cases "wr_mode w")
  case WRITE_LENGTH
  then show ?thesis using assms by (intro header) (auto simp: wr_needs_def wr_remaining_def wr_ok_def)
next
  case WRITE_PAYLOAD
  show ?thesis
  proof (cases "wr_nop w")
    case None
    then show ?thesis using WRITE_PAYLOAD by (intro bytes) (simp add: wr_needs_def)
  next
    case (Some p)
    then have "wr_bytesWritten w = 0" using assms WRITE_PAYLOAD by (auto simp: wr_ok_def wr_completed_def)
    then show ?thesis using Some WRITE_PAYLOAD assms(1) length_wr_payload [OF assms(1)]
      by (intro object) (auto simp: wr_needs_def wr_remaining_def wr_ok_def)
  qed
qed

lemma rd_front:
  assumes "rd_expects S op m" and "\<not> rd_completed op"
  obtains (header) "rd_needs op m = 4" "length (rd_remaining op m) = 4 + length m"
  | (bytes) "rd_needs op m = 1" "0 < length (rd_remaining op m)"
  | (object) "rd_needs op m = length m" "length (rd_remaining op m) = length m" "length m \<le> S"
proof (cases "rd_mode op")
  case READ_LENGTH
  then show ?thesis by (intro header) (simp_all add: rd_needs_def rd_remaining_def frame_def)
next
  case READ_PAYLOAD
  show ?thesis
  proof (cases "rd_nop op")
    case None
    then show ?thesis using READ_PAYLOAD rd_remaining_nonempty [OF assms] by (intro bytes) (simp_all add: rd_needs_def)
  next
    case (Some p)
    then have "rd_bytesRead op = 0" using assms READ_PAYLOAD by (auto simp: rd_expects_def rd_completed_def)
    then show ?thesis using Some READ_PAYLOAD assms(1)
      by (intro object) (auto simp: rd_needs_def rd_remaining_def rd_expects_def)
  qed
qed

lemma writer_front:
  assumes "writer_side S ms fns (w # ws) calls" and "\<forall>m \<in> set ms. length m < 2 ^ 32"
  defines "c \<equiv> length fns - length (w # ws)"
  shows "c < length ms" "wr_ok S w" "\<not> wr_completed w" "wr_payload w = ms ! c" "length (wr_payload w) < 2 ^ 32"
    "concat (map wr_remaining ws) @ frames (drop (length fns) ms) = frames (drop (Suc c) ms)"
proof -
  have W: "length fns \<le> length ms" "length (w # ws) \<le> length fns" "wq_ok S (w # ws)"
    "map wr_payload (w # ws) = drop c (take (length fns) ms)"
    using assms(1) by (simp_all add: writer_side_def Let_def c_def)
  show c: "c < length ms" and w: "wr_ok S w" "\<not> wr_completed w" using W(1-3) by (simp_all add: c_def wq_ok_Cons)
  have cf: "c < length fns" using W(2) by (simp add: c_def)
  then have hd: "drop c (take (length fns) ms) = ms ! c # drop (Suc c) (take (length fns) ms)"
    using W(1) by (subst Cons_nth_drop_Suc [symmetric]) simp_all
  then show p: "wr_payload w = ms ! c" using W(4) by simp
  show "length (wr_payload w) < 2 ^ 32" using assms(2) c by (simp add: p)
  have "wr_remaining v = frame (wr_payload v)" if "v \<in> set ws" for v
    using W(3) that by (intro wr_fresh_remaining [of S]) (auto simp: wr_fresh_def wq_ok_def)
  then have "map wr_remaining ws = map frame (map wr_payload ws)" by simp
  also have "map wr_payload ws = drop (Suc c) (take (length fns) ms)" using W(4) hd by simp
  finally have "concat (map wr_remaining ws) @ frames (drop (length fns) ms) =
      frames (drop (Suc c) (take (length fns) ms) @ drop (length fns) ms)" by simp
  also have "drop (Suc c) (take (length fns) ms) @ drop (length fns) ms = drop (Suc c) ms"
    using cf W(1) append_take_drop_id [of "length fns" ms] by (metis Suc_leI drop_append drop_drop drop_take length_take min.absorb2 diff_is_0_eq drop0)
  finally show "concat (map wr_remaining ws) @ frames (drop (length fns) ms) = frames (drop (Suc c) ms)" .
qed

lemma reader_front:
  assumes "reader_side S ms fns (op # ops) calls"
  defines "d \<equiv> length fns - length (op # ops)"
  shows "d < length ms" "rd_expects S op (ms ! d)" "\<not> rd_completed op"
    "rd_ahead (op # ops) (drop d ms) = rd_remaining op (ms ! d) @ frames (drop (Suc d) ms)"
proof -
  have R: "length fns \<le> length ms" "length (op # ops) \<le> length fns" "rq_ok S (op # ops) (drop d ms)"
    using assms(1) by (simp_all add: reader_side_def Let_def d_def)
  show d: "d < length ms" using R(1,2) by (simp add: d_def)
  have hd: "drop d ms = ms ! d # drop (Suc d) ms" using d by (simp add: Cons_nth_drop_Suc)
  show "rd_expects S op (ms ! d)" "\<not> rd_completed op" using R(3) unfolding hd by (simp_all add: rq_ok_Cons)
  show "rd_ahead (op # ops) (drop d ms) = rd_remaining op (ms ! d) @ frames (drop (Suc d) ms)" unfolding hd by simp
qed

lemma stall_impossible:
  fixes f q S wn rn wr rr c d Fc Fd Fc' Fd' :: nat
  assumes "f < wn" and "q < rn" and "q + f = S" and "8 \<le> S" and "q + wr + Fc' = rr + Fd'" and "Fc = 4 + c + Fc'" and "Fd = 4 + d + Fd'"
    and "Fc \<le> Fd' \<or> Fd \<le> Fc' \<or> c = d \<and> Fc' = Fd'"
    and "wn = 4 \<and> wr = 4 + c \<or> wn = 1 \<or> wn = c \<and> wr = c \<and> c \<le> S"
    and "rn = 4 \<and> rr = 4 + d \<or> rn = 1 \<or> rn = d \<and> rr = d \<and> d \<le> S"
  shows False
  using assms by (elim disjE conjE) linarith+

text \<open>When neither end can go on, there is nothing to read for the reader: all is read that was written.\<close>

lemma link_progress:
  assumes rel: "link_rel r q f" and S: "length (ring_data r) = S" "8 \<le> S" and small: "\<forall>m \<in> set ms. length m < 2 ^ 32"
    and W: "writer_side S ms wfns ws wcalls" and R: "reader_side S ms rfns rs rcalls" and flight: "in_flight ms wfns ws rfns rs q"
    and stalled: "wq_stalled (length f) ws" "rq_stalled (length q) rs (drop (length rfns - length rs) ms)"
  shows "rs = [] \<or> ws = [] \<and> length rfns - length rs = length wfns"
proof (cases rs)
  case (Cons op ops)
  define d where "d = length rfns - length rs"
  note rf = reader_front [OF R [unfolded Cons], folded Cons, folded d_def]
  let ?F = "\<lambda>i. length (frames (drop i ms))"
  have avail: "length q < rd_needs op (ms ! d)"
    using stalled(2) [folded d_def] rf(1) by (simp add: rq_stalled_def Cons hd_drop_conv_nth)
  have room: "length q + length f = S" using link_small [OF rel] S(1) by simp
  have eq: "length q + length (concat (map wr_remaining ws)) + ?F (length wfns) = length (rd_remaining op (ms ! d)) + ?F (Suc d)"
    using arg_cong [OF flight [unfolded in_flight_def, folded d_def], of length] rf(4) by (simp add: Cons)
  note Fd = frames_drop [OF rf(1)]
  have le: "length (rd_remaining op (ms ! d)) \<le> 4 + length (ms ! d)" by (auto simp: rd_remaining_def frame_def)
  have needs: "rd_needs op (ms ! d) \<le> length (rd_remaining op (ms ! d))"
    by (rule rd_front [OF rf(2,3)]) (simp_all add: Suc_le_eq)
  show ?thesis
  proof (cases ws)
    case Nil
    have "d = length wfns"
    proof (rule linorder_cases [of d "length wfns"])
      assume "d < length wfns"
      then have "?F (length wfns) \<le> ?F (Suc d)" by (intro frames_antimono) simp
      then show ?thesis using eq avail needs Nil by simp
    next
      assume lt: "length wfns < d"
      then have "?F d \<le> ?F (Suc (length wfns))" by (intro frames_antimono) simp
      moreover have "?F (length wfns) \<ge> 4 + ?F (Suc (length wfns))" using frames_drop [of "length wfns" ms] lt rf(1) by simp
      ultimately show ?thesis using eq le Fd Nil by simp
    qed simp
    then show ?thesis using Nil by (simp add: d_def)
  next
    case (Cons w ws')
    define c where "c = length wfns - length ws"
    note wf = writer_front [OF W [unfolded Cons] small, folded Cons, folded c_def]
    note Fc = frames_drop [OF wf(1)]
    have full: "length f < wr_needs w" using stalled(1) by (simp add: wq_stalled_def Cons)
    have eq': "length q + length (wr_remaining w) + ?F (Suc c) = length (rd_remaining op (ms ! d)) + ?F (Suc d)"
      using eq arg_cong [OF wf(6), of length] by (simp add: Cons)
    have order: "?F c \<le> ?F (Suc d) \<or> ?F d \<le> ?F (Suc c) \<or> length (ms ! c) = length (ms ! d) \<and> ?F (Suc c) = ?F (Suc d)"
      using frames_antimono [of "Suc d" c ms] frames_antimono [of "Suc c" d ms] by (cases c d rule: linorder_cases) simp_all
    have writer: "wr_needs w = 4 \<and> length (wr_remaining w) = 4 + length (ms ! c) \<or> wr_needs w = 1 \<or>
        wr_needs w = length (ms ! c) \<and> length (wr_remaining w) = length (ms ! c) \<and> length (ms ! c) \<le> S"
      by (rule wr_front [OF wf(2,3,5)]) (simp_all add: wf(4))
    have reader: "rd_needs op (ms ! d) = 4 \<and> length (rd_remaining op (ms ! d)) = 4 + length (ms ! d) \<or> rd_needs op (ms ! d) = 1 \<or>
        rd_needs op (ms ! d) = length (ms ! d) \<and> length (rd_remaining op (ms ! d)) = length (ms ! d) \<and> length (ms ! d) \<le> S"
      by (rule rd_front [OF rf(2,3)]) simp_all
    have False by (rule stall_impossible [OF full avail room S(2) eq' Fc Fd order writer reader])
    then show ?thesis ..
  qed
qed simp

end
