(* ===== verification/Shm_Connection.thy ===== *)
theory Shm_Connection
  imports Connection_Boilerplate Ring_Progress
begin

text \<open>
  The connection over shared memory of \<^verbatim>\<open>tensorpipe/transport/shm/connection_impl.cc\<close>. Ring buffers
  live in segments of shared memory: a connection creates the one of its inbox and, once it has
  received its descriptors over a UNIX socket, uses the inbox of its peer as its outbox. What
  system calls return is an argument.
\<close>

section \<open>State\<close>

datatype shm_state = INITIALIZING | SEND_FDS | RECV_FDS | ESTABLISHED

fun shm_state_code :: "shm_state \<Rightarrow> nat" where
  "shm_state_code INITIALIZING = 1" | "shm_state_code SEND_FDS = 2" | "shm_state_code RECV_FDS = 3" | "shm_state_code ESTABLISHED = 4"

type_synonym token = "32 word"
type_synonym segment = nat
type_synonym shm_mem = "segment \<Rightarrow> ring option"

text \<open>What is sent over the socket: two tokens, the descriptors of the reactor, and those of the inbox.\<close>

record shm_fds =
  fds_inbox_token :: token
  fds_outbox_token :: token
  fds_reactor :: nat
  fds_inbox :: segment

datatype shm_effect =
    EnrollConnection
  | UnenrollConnection
  | AddReaction token
  | RemoveReaction token
  | RegisterDescriptor "32 word"
  | UnregisterDescriptor
  | SendFds shm_fds
  | RunTrigger nat token

record shm_conn = "shm_effect conn_core" +
  shm_state :: shm_state
  shm_socket :: bool
  shm_sockaddr :: "string option"
  inboxRb :: "segment option"
  inboxReactorToken :: "token option"
  outboxRb :: "segment option"
  outboxReactorToken :: "token option"
  peerReactorTrigger :: "nat option"
  peerInboxReactorToken :: "token option"
  peerOutboxReactorToken :: "token option"
  readOperations :: "rd_op list"
  writeOperations :: "wr_op list"

type_synonym shm_ret = "(shm_conn \<times> shm_mem) result"

definition kBufferSize :: "64 word" where
  "kBufferSize = 2 * 1024 * 1024"

definition kNumRingbufferRoles :: nat where
  "kNumRingbufferRoles = 2"

definition EPOLLIN :: "32 word" where "EPOLLIN = 0x001"
definition EPOLLOUT :: "32 word" where "EPOLLOUT = 0x004"
definition EPOLLERR :: "32 word" where "EPOLLERR = 0x008"
definition EPOLLHUP :: "32 word" where "EPOLLHUP = 0x010"

text \<open>The two constructors: with the socket of a listener, or with an address to connect to.\<close>

definition shm_new :: "string \<Rightarrow> shm_conn" where
  "shm_new i = \<lparr>conn_id = i, conn_error = Success, nextBufferBeingRead = 0, nextBufferBeingWritten = 0, conn_log = [],
     shm_state = INITIALIZING, shm_socket = False, shm_sockaddr = None, inboxRb = None, inboxReactorToken = None, outboxRb = None,
     outboxReactorToken = None, peerReactorTrigger = None, peerInboxReactorToken = None, peerOutboxReactorToken = None,
     readOperations = [], writeOperations = []\<rparr>"

definition ConnectionImpl_socket :: "string \<Rightarrow> shm_conn" where
  "ConnectionImpl_socket i = (shm_new i)\<lparr>shm_socket := True\<rparr>"

definition ConnectionImpl_addr :: "string \<Rightarrow> string \<Rightarrow> shm_conn" where
  "ConnectionImpl_addr i a = (shm_new i)\<lparr>shm_sockaddr := Some a\<rparr>"

section \<open>Errors\<close>

definition shm_handleErrorImpl :: "shm_conn \<Rightarrow> shm_conn" where
  "shm_handleErrorImpl c =
     (let c1 = (conn_logs (map (\<lambda>op. Callback (rd_handleError (conn_error c) op)) (readOperations c)) c)\<lparr>readOperations := []\<rparr>;
          c2 = (conn_logs (map (\<lambda>op. Callback (wr_handleError (conn_error c1) op)) (writeOperations c1)) c1)\<lparr>writeOperations := []\<rparr>;
          c3 = (case inboxReactorToken c2 of None \<Rightarrow> c2
                | Some t \<Rightarrow> (conn_logs [Effect (RemoveReaction t)] c2)\<lparr>inboxReactorToken := None\<rparr>);
          c4 = (case outboxReactorToken c3 of None \<Rightarrow> c3
                | Some t \<Rightarrow> (conn_logs [Effect (RemoveReaction t)] c3)\<lparr>outboxReactorToken := None\<rparr>);
          c5 = (if shm_socket c4
                then (if shm_state_code (shm_state c4) > shm_state_code INITIALIZING
                      then conn_logs [Effect UnregisterDescriptor] c4 else c4)\<lparr>shm_socket := False\<rparr>
                else c4)
      in conn_logs [Effect UnenrollConnection] c5)"

definition shm_setError :: "tp_error \<Rightarrow> shm_conn \<Rightarrow> shm_conn" where
  "shm_setError = conn_setError id shm_handleErrorImpl"

section \<open>Serving the queues\<close>

definition mapped_ring :: "segment option \<Rightarrow> shm_mem \<Rightarrow> (segment \<Rightarrow> ring \<Rightarrow> 'a result) \<Rightarrow> 'a result" where
  "mapped_ring seg mem k =
     (case seg of None \<Rightarrow> Inl NullDereference | Some s \<Rightarrow> (case mem s of None \<Rightarrow> Inl NullDereference | Some r \<Rightarrow> k s r))"

text \<open>The trigger and the token of the peer are optional members; without them a trigger is a fault.\<close>

definition shm_effects :: "nat option \<Rightarrow> token option \<Rightarrow> rb_effect list \<Rightarrow> shm_effect conn_effect list result" where
  "shm_effects trigger tok effs =
     (if TriggerPeer \<in> set effs \<and> (trigger = None \<or> tok = None) then Inl NullDereference
      else Inr (map (\<lambda>e. case e of Called cl \<Rightarrow> Callback cl | TriggerPeer \<Rightarrow> Effect (RunTrigger (the trigger) (the tok))) effs))"

definition processReadOperationsFromLoop :: "shm_conn \<Rightarrow> shm_mem \<Rightarrow> shm_ret" where
  "processReadOperationsFromLoop c mem =
     (if shm_state c \<noteq> ESTABLISHED then Inr (c, mem)
      else mapped_ring (inboxRb c) mem (\<lambda>s r.
        bindR (process_reads 0 (readOperations c) RingBufferRole r) (\<lambda>(effs, ops, r').
        bindR (shm_effects (peerReactorTrigger c) (peerOutboxReactorToken c) effs) (\<lambda>es.
          Inr ((conn_logs es c)\<lparr>readOperations := ops\<rparr>, mem(s \<mapsto> r'))))))"

definition processWriteOperationsFromLoop :: "shm_conn \<Rightarrow> shm_mem \<Rightarrow> shm_ret" where
  "processWriteOperationsFromLoop c mem =
     (if shm_state c \<noteq> ESTABLISHED then Inr (c, mem)
      else mapped_ring (outboxRb c) mem (\<lambda>s r.
        bindR (process_writes 1 (writeOperations c) RingBufferRole r) (\<lambda>(effs, ops, r').
        bindR (shm_effects (peerReactorTrigger c) (peerInboxReactorToken c) effs) (\<lambda>es.
          Inr ((conn_logs es c)\<lparr>writeOperations := ops\<rparr>, mem(s \<mapsto> r'))))))"

section \<open>Reads and writes\<close>

definition shm_readImplFromLoop :: "rd_op \<Rightarrow> shm_conn \<Rightarrow> shm_mem \<Rightarrow> shm_ret" where
  "shm_readImplFromLoop op c mem = processReadOperationsFromLoop (c\<lparr>readOperations := readOperations c @ [op]\<rparr>) mem"

definition shm_read_alloc :: "nat \<Rightarrow> shm_conn \<Rightarrow> shm_mem \<Rightarrow> shm_ret" where
  "shm_read_alloc fn = shm_readImplFromLoop (RingbufferReadOperation_alloc fn)"

definition shm_read_nop :: "nop_status reader_prog \<Rightarrow> nat \<Rightarrow> shm_conn \<Rightarrow> shm_mem \<Rightarrow> shm_ret" where
  "shm_read_nop p fn = shm_readImplFromLoop (RingbufferReadOperation_nop p fn)"

definition shm_read_ptr :: "64 word \<Rightarrow> nat \<Rightarrow> shm_conn \<Rightarrow> shm_mem \<Rightarrow> shm_ret" where
  "shm_read_ptr len fn = shm_readImplFromLoop (RingbufferReadOperation_ptr len fn)"

definition shm_writeImplFromLoop :: "wr_op \<Rightarrow> shm_conn \<Rightarrow> shm_mem \<Rightarrow> shm_ret" where
  "shm_writeImplFromLoop op c mem = processWriteOperationsFromLoop (c\<lparr>writeOperations := writeOperations c @ [op]\<rparr>) mem"

definition shm_write_ptr :: "byte list \<Rightarrow> 64 word \<Rightarrow> nat \<Rightarrow> shm_conn \<Rightarrow> shm_mem \<Rightarrow> shm_ret" where
  "shm_write_ptr src len fn = shm_writeImplFromLoop (RingbufferWriteOperation_ptr src len fn)"

definition shm_write_nop :: "nop_status writer_prog \<Rightarrow> 64 word \<Rightarrow> nat \<Rightarrow> shm_conn \<Rightarrow> shm_mem \<Rightarrow> shm_ret" where
  "shm_write_nop p len fn = shm_writeImplFromLoop (RingbufferWriteOperation_nop p len fn)"

section \<open>Initialization\<close>

text \<open>What the system calls return: errors, the segment with its contents, and the tokens of the reactor.\<close>

record shm_init_io =
  io_create :: tp_error
  io_connect :: tp_error
  io_block :: tp_error
  io_ring :: tp_error
  io_segment :: segment
  io_contents :: "byte list"
  io_inbox_token :: token
  io_outbox_token :: token

definition shm_openSocket :: "shm_init_io \<Rightarrow> shm_conn \<Rightarrow> shm_conn" where
  "shm_openSocket io c =
     (if shm_socket c then c
      else if is_error (io_create io) then shm_setError (io_create io) c
      else let c' = c\<lparr>shm_socket := True\<rparr>
           in if is_error (io_connect io) then shm_setError (io_connect io) c' else c')"

definition shm_initImplFromLoop :: "shm_init_io \<Rightarrow> shm_conn \<Rightarrow> shm_mem \<Rightarrow> shm_ret" where
  "shm_initImplFromLoop io c0 mem =
     (let c1 = conn_logs [Effect EnrollConnection] c0 in
      dcheck (shm_socket c1 \<noteq> (shm_sockaddr c1 \<noteq> None))
        (let c2 = shm_openSocket io c1 in
         if is_error (conn_error c2) then Inr (c2, mem)
         else if is_error (io_block io) then Inr (shm_setError (io_block io) c2, mem)
         else throw_assert_if (is_error (io_ring io))
           (bindR (RingBufferHeader kNumRingbufferRoles kBufferSize (io_contents io)) (\<lambda>r.
              Inr ((conn_logs [Effect (AddReaction (io_inbox_token io)), Effect (AddReaction (io_outbox_token io)),
                      Effect (RegisterDescriptor EPOLLOUT)] c2)
                   \<lparr>inboxRb := Some (io_segment io), inboxReactorToken := Some (io_inbox_token io),
                    outboxReactorToken := Some (io_outbox_token io), shm_state := SEND_FDS\<rparr>,
                   mem(io_segment io \<mapsto> r))))))"

section \<open>Events on the socket\<close>

text \<open>The error of sending, and the descriptors of the reactor of the own context.\<close>

definition handleEventOutFromLoop :: "nat \<Rightarrow> tp_error \<Rightarrow> shm_conn \<Rightarrow> shm_conn result" where
  "handleEventOutFromLoop reactor err c =
     (if shm_state c = SEND_FDS
      then case (inboxReactorToken c, outboxReactorToken c, inboxRb c) of
             (Some ti, Some to, Some s) \<Rightarrow>
               (if is_error err then Inr (shm_setError err c)
                else Inr ((conn_logs [Effect (SendFds \<lparr>fds_inbox_token = ti, fds_outbox_token = to, fds_reactor = reactor, fds_inbox = s\<rparr>),
                             Effect (RegisterDescriptor EPOLLIN)] c)\<lparr>shm_state := RECV_FDS\<rparr>))
           | _ \<Rightarrow> Inl NullDereference
      else Inl AssertFailed)"

definition handleEventInFromLoop :: "tp_error + shm_fds \<Rightarrow> shm_conn \<Rightarrow> shm_mem \<Rightarrow> shm_ret" where
  "handleEventInFromLoop received c mem =
     (if shm_state c = RECV_FDS
      then case received of
             Inl err \<Rightarrow> Inr (shm_setError err c, mem)
           | Inr fds \<Rightarrow>
               throw_assert_if (mem (fds_inbox fds) = None)
                 (let c1 = c\<lparr>outboxRb := Some (fds_inbox fds), peerReactorTrigger := Some (fds_reactor fds),
                             peerInboxReactorToken := Some (fds_inbox_token fds), peerOutboxReactorToken := Some (fds_outbox_token fds),
                             shm_state := ESTABLISHED\<rparr>
                  in bindR (processWriteOperationsFromLoop c1 mem) (\<lambda>(c2, mem2). processReadOperationsFromLoop c2 mem2))
      else if shm_state c = ESTABLISHED then Inr (shm_setError EOFError c, mem)
      else Inl AssertFailed)"

definition handleEventsFromLoop :: "32 word \<Rightarrow> nat \<Rightarrow> tp_error \<Rightarrow> tp_error + shm_fds \<Rightarrow> shm_conn \<Rightarrow> shm_mem \<Rightarrow> shm_ret" where
  "handleEventsFromLoop events reactor err received c mem =
     (if and events EPOLLERR \<noteq> 0 then Inr (shm_setError (OtherError ''SystemError'') c, mem)
      else if and events EPOLLIN \<noteq> 0 then handleEventInFromLoop received c mem
      else if and events EPOLLOUT \<noteq> 0 then bindR (handleEventOutFromLoop reactor err c) (\<lambda>c'. Inr (c', mem))
      else if and events EPOLLHUP \<noteq> 0 then Inr (shm_setError EOFError c, mem)
      else Inr (c, mem))"

end
