(* ===== verification/Shm_System.thy ===== *)
theory Shm_System
  imports Shm_Connection
begin

text \<open>
  Two connections over shared memory at work: each runs in the loop of its own context, whose
  reactor takes tokens from a queue and calls the reaction that was added under the token. The
  tasks of the two loops may come in any order.
\<close>

section \<open>The system\<close>

text \<open>The queue of the reactor of each side, and the descriptors that are on their way to each side.\<close>

record shm_sys =
  sys_conn :: "bool \<Rightarrow> shm_conn"
  sys_mem :: shm_mem
  sys_tokens :: "bool \<Rightarrow> token list"
  sys_mail :: "bool \<Rightarrow> shm_fds option"

definition reactor_of :: "bool \<Rightarrow> nat" where
  "reactor_of b = (if b then 1 else 0)"

fun tokens_for :: "nat \<Rightarrow> shm_effect conn_effect list \<Rightarrow> token list" where
  "tokens_for n [] = []"
| "tokens_for n (Effect (RunTrigger n' t) # es) = (if n' = n then t # tokens_for n es else tokens_for n es)"
| "tokens_for n (_ # es) = tokens_for n es"

fun fds_sent :: "shm_effect conn_effect list \<Rightarrow> shm_fds option \<Rightarrow> shm_fds option" where
  "fds_sent [] f = f"
| "fds_sent (Effect (SendFds f') # es) f = fds_sent es (Some f')"
| "fds_sent (_ # es) f = fds_sent es f"

text \<open>After a task of one side: its effects reach the other.\<close>

definition sys_update :: "bool \<Rightarrow> shm_conn \<times> shm_mem \<Rightarrow> shm_sys \<Rightarrow> shm_sys" where
  "sys_update b res s =
     (let es = drop (length (conn_log (sys_conn s b))) (conn_log (fst res))
      in s\<lparr>sys_conn := (sys_conn s)(b := fst res), sys_mem := snd res,
           sys_tokens := (\<lambda>d. sys_tokens s d @ tokens_for (reactor_of d) es),
           sys_mail := (sys_mail s)(\<not> b := fds_sent es (sys_mail s (\<not> b)))\<rparr>)"

datatype shm_event = Init | Read rd_op | Write wr_op | Writable | Readable | React

definition react :: "token \<Rightarrow> shm_conn \<Rightarrow> shm_mem \<Rightarrow> shm_ret" where
  "react t c mem =
     (if inboxReactorToken c = Some t then processReadOperationsFromLoop c mem
      else if outboxReactorToken c = Some t then processWriteOperationsFromLoop c mem
      else Inr (c, mem))"

fun shm_task :: "(bool \<Rightarrow> shm_init_io) \<Rightarrow> shm_event \<Rightarrow> bool \<Rightarrow> shm_sys \<Rightarrow> shm_ret" where
  "shm_task io Init b s = conn_initFromLoop False (shm_initImplFromLoop (io b)) (sys_conn s b) (sys_mem s)"
| "shm_task io (Read op) b s = conn_readFromLoop (shm_readImplFromLoop op) (rd_fn op) (sys_conn s b) (sys_mem s)"
| "shm_task io (Write op) b s = conn_writeFromLoop (shm_writeImplFromLoop op) (wr_fn op) (sys_conn s b) (sys_mem s)"
| "shm_task io Writable b s = handleEventsFromLoop EPOLLOUT (reactor_of b) Success (Inl EOFError) (sys_conn s b) (sys_mem s)"
| "shm_task io Readable b s = handleEventsFromLoop EPOLLIN (reactor_of b) Success
     (case sys_mail s b of None \<Rightarrow> Inl EOFError | Some f \<Rightarrow> Inr f) (sys_conn s b) (sys_mem s)"
| "shm_task io React b s = (case sys_tokens s b of [] \<Rightarrow> Inr (sys_conn s b, sys_mem s) | t # ts \<Rightarrow> react t (sys_conn s b) (sys_mem s))"

text \<open>A read or write of each kind is such a request.\<close>

lemma shm_task_requests:
  "conn_readFromLoop_alloc shm_read_alloc fn (sys_conn s b) (sys_mem s) = shm_task io (Read (RingbufferReadOperation_alloc fn)) b s"
  "conn_readFromLoop_nop shm_read_nop p fn (sys_conn s b) (sys_mem s) = shm_task io (Read (RingbufferReadOperation_nop p fn)) b s"
  "conn_readFromLoop_ptr shm_read_ptr len fn (sys_conn s b) (sys_mem s) = shm_task io (Read (RingbufferReadOperation_ptr len fn)) b s"
  "conn_writeFromLoop_ptr shm_write_ptr src len fn (sys_conn s b) (sys_mem s) = shm_task io (Write (RingbufferWriteOperation_ptr src len fn)) b s"
  "conn_writeFromLoop_nop shm_write_nop w len fn (sys_conn s b) (sys_mem s) = shm_task io (Write (RingbufferWriteOperation_nop w len fn)) b s"
  by (simp_all add: conn_readFromLoop_alloc_def conn_readFromLoop_nop_def conn_readFromLoop_ptr_def conn_writeFromLoop_ptr_def
      conn_writeFromLoop_nop_def shm_read_alloc_def shm_read_nop_def shm_read_ptr_def shm_write_ptr_def shm_write_nop_def
      RingbufferReadOperation_alloc_def RingbufferReadOperation_nop_def RingbufferReadOperation_ptr_def
      RingbufferWriteOperation_ptr_def RingbufferWriteOperation_nop_def)

fun shm_taken :: "shm_event \<Rightarrow> bool \<Rightarrow> shm_sys \<Rightarrow> shm_sys" where
  "shm_taken React b s = s\<lparr>sys_tokens := (sys_tokens s)(b := tl (sys_tokens s b))\<rparr>"
| "shm_taken Readable b s = s\<lparr>sys_mail := (sys_mail s)(b := None)\<rparr>"
| "shm_taken ev b s = s"

definition shm_step :: "(bool \<Rightarrow> shm_init_io) \<Rightarrow> shm_event \<Rightarrow> bool \<Rightarrow> shm_sys \<Rightarrow> shm_sys result" where
  "shm_step io ev b s = bindR (shm_task io ev b s) (\<lambda>res. Inr (sys_update b res (shm_taken ev b s)))"

section \<open>Runs\<close>

text \<open>
  The messages that each side is to receive. A side may ask for the next read or write at any
  time after its initialization; the socket is reported writable or readable in the states in
  which the connection waits for that. \<open>rfs\<close> and \<open>wfs\<close> are the callbacks each side was given so far.
\<close>

abbreviation pool :: nat where
  "pool \<equiv> 2097152"

fun shm_enabled :: "(bool \<Rightarrow> byte list list) \<Rightarrow> shm_event \<Rightarrow> bool \<Rightarrow> shm_sys \<Rightarrow> (bool \<Rightarrow> nat list) \<Rightarrow> (bool \<Rightarrow> nat list) \<Rightarrow> bool" where
  "shm_enabled ms Init b s rfs wfs \<longleftrightarrow> shm_state (sys_conn s b) = INITIALIZING"
| "shm_enabled ms (Read op) b s rfs wfs \<longleftrightarrow> shm_state (sys_conn s b) \<noteq> INITIALIZING \<and>
     length (rfs b) < length (ms b) \<and> rd_fresh pool (ms b ! length (rfs b)) op"
| "shm_enabled ms (Write op) b s rfs wfs \<longleftrightarrow> shm_state (sys_conn s b) \<noteq> INITIALIZING \<and>
     length (wfs b) < length (ms (\<not> b)) \<and> wr_fresh pool (ms (\<not> b) ! length (wfs b)) op"
| "shm_enabled ms Writable b s rfs wfs \<longleftrightarrow> shm_state (sys_conn s b) = SEND_FDS"
| "shm_enabled ms Readable b s rfs wfs \<longleftrightarrow> shm_state (sys_conn s b) = RECV_FDS \<and> sys_mail s b \<noteq> None"
| "shm_enabled ms React b s rfs wfs \<longleftrightarrow> sys_tokens s b \<noteq> []"

fun note_read :: "shm_event \<Rightarrow> bool \<Rightarrow> (bool \<Rightarrow> nat list) \<Rightarrow> bool \<Rightarrow> nat list" where
  "note_read (Read op) b rfs = rfs(b := rfs b @ [rd_fn op])"
| "note_read ev b rfs = rfs"

fun note_write :: "shm_event \<Rightarrow> bool \<Rightarrow> (bool \<Rightarrow> nat list) \<Rightarrow> bool \<Rightarrow> nat list" where
  "note_write (Write op) b wfs = wfs(b := wfs b @ [wr_fn op])"
| "note_write ev b wfs = wfs"

definition io_ok :: "(bool \<Rightarrow> shm_init_io) \<Rightarrow> bool" where
  "io_ok io \<longleftrightarrow> (\<forall>b. io_create (io b) = Success \<and> io_connect (io b) = Success \<and> io_block (io b) = Success \<and> io_ring (io b) = Success \<and>
     length (io_contents (io b)) = pool \<and> io_inbox_token (io b) \<noteq> io_outbox_token (io b)) \<and> io_segment (io False) \<noteq> io_segment (io True)"

definition shm_start :: "(bool \<Rightarrow> shm_conn) \<Rightarrow> shm_sys" where
  "shm_start cs = \<lparr>sys_conn = cs, sys_mem = (\<lambda>_. None), sys_tokens = (\<lambda>_. []), sys_mail = (\<lambda>_. None)\<rparr>"

inductive shm_run :: "(bool \<Rightarrow> byte list list) \<Rightarrow> (bool \<Rightarrow> shm_init_io) \<Rightarrow> shm_sys \<Rightarrow> (bool \<Rightarrow> nat list) \<Rightarrow> (bool \<Rightarrow> nat list) \<Rightarrow> bool"
  for ms io where
  shm_begin: "io_ok io \<Longrightarrow> \<forall>b. \<forall>m \<in> set (ms b). length m < 2 ^ 32 \<Longrightarrow> (\<And>b. \<exists>i a. cs b = ConnectionImpl_socket i \<or> cs b = ConnectionImpl_addr i a) \<Longrightarrow>
    shm_run ms io (shm_start cs) (\<lambda>_. []) (\<lambda>_. [])"
| shm_stepped: "shm_run ms io s rfs wfs \<Longrightarrow> shm_enabled ms ev b s rfs wfs \<Longrightarrow> shm_step io ev b s = Inr s' \<Longrightarrow>
    shm_run ms io s' (note_read ev b rfs) (note_write ev b wfs)"

section \<open>The invariant\<close>

fun is_read_call :: "rb_call \<Rightarrow> bool" where
  "is_read_call (ReadCall fn e bs) = True" | "is_read_call (WriteCall fn e) = False"

abbreviation calls_read :: "shm_conn \<Rightarrow> rb_call list" where
  "calls_read c \<equiv> filter is_read_call (conn_calls c)"

abbreviation calls_written :: "shm_conn \<Rightarrow> rb_call list" where
  "calls_written c \<equiv> filter (\<lambda>cl. \<not> is_read_call cl) (conn_calls c)"

text \<open>
  One direction, from the connection \<open>W\<close> to the connection \<open>R\<close>, over the inbox of the latter. An end
  of an established connection has nothing to do, or will be triggered (its token is in the
  queue of its reactor), unless \<open>ww\<close> or \<open>rw\<close>: then it is about to serve its queue.
\<close>

definition link_open ::
  "byte list list \<Rightarrow> nat list \<Rightarrow> wr_op list \<Rightarrow> bool \<Rightarrow> nat list \<Rightarrow> rd_op list \<Rightarrow> bool \<Rightarrow> ring \<Rightarrow> bool" where
  "link_open ms wfs ws wstall rfs rs rstall r \<longleftrightarrow> (\<exists>q f. link_rel r q f \<and> length (ring_data r) = pool \<and> in_flight ms wfs ws rfs rs q \<and>
     (wstall \<longrightarrow> wq_stalled (length f) ws) \<and> (rstall \<longrightarrow> rq_stalled (length q) rs (drop (length rfs - length rs) ms)))"

definition link_at ::
  "byte list list \<Rightarrow> nat list \<Rightarrow> shm_conn \<Rightarrow> bool \<Rightarrow> nat list \<Rightarrow> shm_conn \<Rightarrow> bool \<Rightarrow> ring option \<Rightarrow> bool" where
  "link_at ms wfs W ww rfs R rw ring \<longleftrightarrow>
     writer_side pool ms wfs (writeOperations W) (calls_written W) \<and> reader_side pool ms rfs (readOperations R) (calls_read R) \<and>
     (if shm_state R = INITIALIZING
      then shm_state W \<noteq> ESTABLISHED \<and> in_flight ms wfs (writeOperations W) rfs (readOperations R) []
      else \<exists>r. ring = Some r \<and> link_open ms wfs (writeOperations W) (shm_state W = ESTABLISHED \<and> \<not> ww)
             rfs (readOperations R) (shm_state R = ESTABLISHED \<and> \<not> rw) r)"

definition writer_awake :: "(bool \<Rightarrow> shm_init_io) \<Rightarrow> shm_sys \<Rightarrow> bool \<Rightarrow> bool" where
  "writer_awake io s b \<longleftrightarrow> io_outbox_token (io b) \<in> set (sys_tokens s b)"

definition reader_awake :: "(bool \<Rightarrow> shm_init_io) \<Rightarrow> shm_sys \<Rightarrow> bool \<Rightarrow> bool" where
  "reader_awake io s b \<longleftrightarrow> io_inbox_token (io b) \<in> set (sys_tokens s b)"

text \<open>The members of a connection in each of its states.\<close>

definition conn_at :: "shm_init_io \<Rightarrow> shm_init_io \<Rightarrow> nat \<Rightarrow> shm_conn \<Rightarrow> bool" where
  "conn_at own peer reactor c \<longleftrightarrow> conn_error c = Success \<and>
     (if shm_state c = INITIALIZING then readOperations c = [] \<and> writeOperations c = [] \<and> shm_socket c \<noteq> (shm_sockaddr c \<noteq> None)
      else inboxRb c = Some (io_segment own) \<and> inboxReactorToken c = Some (io_inbox_token own) \<and>
        outboxReactorToken c = Some (io_outbox_token own)) \<and>
     (shm_state c = ESTABLISHED \<longrightarrow> outboxRb c = Some (io_segment peer) \<and> peerReactorTrigger c = Some reactor \<and>
        peerInboxReactorToken c = Some (io_inbox_token peer) \<and> peerOutboxReactorToken c = Some (io_outbox_token peer))"

definition fds_of :: "shm_init_io \<Rightarrow> nat \<Rightarrow> shm_fds" where
  "fds_of io n = \<lparr>fds_inbox_token = io_inbox_token io, fds_outbox_token = io_outbox_token io, fds_reactor = n, fds_inbox = io_segment io\<rparr>"

definition sys_inv :: "(bool \<Rightarrow> byte list list) \<Rightarrow> (bool \<Rightarrow> shm_init_io) \<Rightarrow> shm_sys \<Rightarrow> (bool \<Rightarrow> nat list) \<Rightarrow> (bool \<Rightarrow> nat list) \<Rightarrow> bool" where
  "sys_inv ms io s rfs wfs \<longleftrightarrow>
     (\<forall>b. conn_at (io b) (io (\<not> b)) (reactor_of (\<not> b)) (sys_conn s b)) \<and>
     (\<forall>b f. sys_mail s b = Some f \<longrightarrow> f = fds_of (io (\<not> b)) (reactor_of (\<not> b)) \<and> shm_state (sys_conn s (\<not> b)) \<noteq> INITIALIZING) \<and>
     (\<forall>b. link_at (ms b) (wfs (\<not> b)) (sys_conn s (\<not> b)) (writer_awake io s (\<not> b)) (rfs b) (sys_conn s b) (reader_awake io s b)
        (sys_mem s (io_segment (io b))))"

lemma conn_fields [simp]:
  "conn_calls (c\<lparr>readOperations := rs\<rparr>) = conn_calls c" "conn_calls (c\<lparr>writeOperations := ws\<rparr>) = conn_calls c"
  "conn_calls (c\<lparr>shm_state := st\<rparr>) = conn_calls c"
  by (simp_all add: conn_calls_def)

lemma conn_logs_fields [simp]:
  "shm_state (conn_logs es c) = shm_state c" "readOperations (conn_logs es c) = readOperations c"
  "writeOperations (conn_logs es c) = writeOperations c" "inboxRb (conn_logs es c) = inboxRb c" "outboxRb (conn_logs es c) = outboxRb c"
  "inboxReactorToken (conn_logs es c) = inboxReactorToken c" "outboxReactorToken (conn_logs es c) = outboxReactorToken c"
  "peerReactorTrigger (conn_logs es c) = peerReactorTrigger c" "peerInboxReactorToken (conn_logs es c) = peerInboxReactorToken c"
  "peerOutboxReactorToken (conn_logs es c) = peerOutboxReactorToken c" "shm_socket (conn_logs es c) = shm_socket c"
  "shm_sockaddr (conn_logs es c) = shm_sockaddr c" "conn_log (conn_logs es c) = conn_log c @ es"
  by (simp_all add: conn_logs_def)

end
