(* ===== verification/Shm_Delivery.thy ===== *)
theory Shm_Delivery
  imports Shm_System
begin

text \<open>
  Between two connections over shared memory, in whatever order their loops run, no step faults,
  every message arrives complete, in order and once, and when no reaction is outstanding all
  messages that were written and asked for have arrived.
\<close>

section \<open>Effects of serving a queue\<close>

lemma shm_effects_calls:
  assumes "shm_effects trigger tok effs = Inr es"
  shows "effect_calls es = calls_of effs" "fds_sent es f = f"
    "set (tokens_for n es) = (if TriggerPeer \<in> set effs \<and> trigger = Some n then {the tok} else {})"
proof -
  have es: "es = map (\<lambda>e. case e of Called cl \<Rightarrow> Callback cl | TriggerPeer \<Rightarrow> Effect (RunTrigger (the trigger) (the tok))) effs"
    and some: "TriggerPeer \<in> set effs \<Longrightarrow> trigger \<noteq> None"
    using assms by (auto simp: shm_effects_def split: if_splits)
  show "effect_calls es = calls_of effs" unfolding es by (induction effs rule: calls_of.induct) simp_all
  show "fds_sent es f = f" unfolding es by (induction effs rule: calls_of.induct) simp_all
  have "set (tokens_for n es) = (if TriggerPeer \<in> set effs \<and> the trigger = n then {the tok} else {})"
    unfolding es by (induction effs rule: calls_of.induct) (auto split: if_splits)
  then show "set (tokens_for n es) = (if TriggerPeer \<in> set effs \<and> trigger = Some n then {the tok} else {})"
    using some by auto
qed

lemma shm_effects_total: "\<exists>es. shm_effects (Some n) (Some t) effs = Inr es"
  by (simp add: shm_effects_def)

lemma tokens_for_append [simp]: "tokens_for n (es @ es') = tokens_for n es @ tokens_for n es'"
  by (induction n es rule: tokens_for.induct) auto

lemma fds_sent_append [simp]: "fds_sent (es @ es') f = fds_sent es' (fds_sent es f)"
  by (induction es f rule: fds_sent.induct) auto



section \<open>Serving the queues of a connection\<close>

lemma link_open_mono:
  "link_open ms wfs ws x rfs rs y r \<Longrightarrow> (x' \<Longrightarrow> x) \<Longrightarrow> (y' \<Longrightarrow> y) \<Longrightarrow> link_open ms wfs ws x' rfs rs y' r"
  unfolding link_open_def by blast

lemma link_at_mono:
  assumes "link_at ms wfs W ww rfs R rw ring" and "ww \<Longrightarrow> ww'" and "rw \<Longrightarrow> rw'"
  shows "link_at ms wfs W ww' rfs R rw' ring"
  using assms unfolding link_at_def by (auto elim!: link_open_mono)

lemma link_at_cong:
  assumes "link_at ms wfs W ww rfs R rw ring"
    and "writeOperations W' = writeOperations W" "calls_written W' = calls_written W" "shm_state W' = shm_state W"
    and "readOperations R' = readOperations R" "calls_read R' = calls_read R" "shm_state R' = shm_state R"
  shows "link_at ms wfs W' ww rfs R' rw ring"
  using assms(1) unfolding link_at_def assms(2-) .

lemma link_at_closed:
  "shm_state W \<noteq> ESTABLISHED \<Longrightarrow> link_at ms wfs W ww rfs R rw ring \<longleftrightarrow> link_at ms wfs W ww' rfs R rw ring"
  "shm_state R \<noteq> ESTABLISHED \<Longrightarrow> link_at ms wfs W ww rfs R rw ring \<longleftrightarrow> link_at ms wfs W ww rfs R rw' ring"
  unfolding link_at_def by simp_all

lemma link_at_waiting:
  assumes "link_at ms wfs W ww rfs R rw ring" and "shm_state W \<noteq> ESTABLISHED" "shm_state W' \<noteq> ESTABLISHED"
    and "writeOperations W' = writeOperations W" "conn_calls W' = conn_calls W"
  shows "link_at ms wfs W' ww' rfs R rw ring"
  using assms unfolding link_at_def by (simp cong: if_cong)

lemma link_at_receiving:
  assumes "link_at ms wfs W ww rfs R rw ring" and "shm_state R \<in> {SEND_FDS, RECV_FDS}" and "shm_state R' \<in> {SEND_FDS, RECV_FDS}"
    and "readOperations R' = readOperations R" "conn_calls R' = conn_calls R"
  shows "link_at ms wfs W ww rfs R' rw' ring"
  using assms unfolding link_at_def by (auto cong: if_cong)

lemma handleWrite_calls: "handleWrite i w ro r = Inr (n, w', ro', r', calls) \<Longrightarrow> filter is_read_call calls = []"
  by (auto simp: handleWrite_def bindR_eq_Inr not_Inl_unit split: sum.split_asm if_split_asm)

lemma handleRead_calls: "handleRead i op ro r = Inr (n, op', ro', r', calls) \<Longrightarrow> filter (\<lambda>cl. \<not> is_read_call cl) calls = []"
  by (auto simp: handleRead_def bindR_eq_Inr not_Inl_unit split: sum.split_asm if_split_asm)

lemma process_writes_calls:
  assumes "process_writes i ws ro r = Inr (effs, ws', r')"
  shows "filter is_read_call (calls_of effs) = []"
  using assms
proof (induction ws arbitrary: ro r effs r')
  case (Cons w ws)
  then show ?case
    by (fastforce simp: bindR_eq_Inr throw_assert_if_eq_Inr Let_def split: if_splits dest: handleWrite_calls)
qed (simp add: throw_assert_if_eq_Inr)

lemma process_reads_calls:
  assumes "process_reads i rs ro r = Inr (effs, rs', r')"
  shows "filter (\<lambda>cl. \<not> is_read_call cl) (calls_of effs) = []"
  using assms
proof (induction rs arbitrary: ro r effs r')
  case (Cons op rs)
  then show ?case
    by (fastforce simp: bindR_eq_Inr throw_assert_if_eq_Inr Let_def split: if_splits dest: handleRead_calls)
qed (simp add: throw_assert_if_eq_Inr)

lemma filter_all: "filter P xs = [] \<Longrightarrow> filter (\<lambda>x. \<not> P x) xs = xs"
  by (simp add: filter_empty_conv filter_id_conv)

text \<open>
  The view of one side: its connection \<open>c\<close>, the one of the peer, \<open>d\<close>, and the two directions, the
  first into its inbox.
\<close>

definition side_at where
  "side_at ms io wfs rfs b c d mem wwb rwb wwo rwo \<longleftrightarrow> conn_at (io b) (io (\<not> b)) (reactor_of (\<not> b)) c \<and>
     link_at (ms b) (wfs (\<not> b)) d wwo (rfs b) c rwb (mem (io_segment (io b))) \<and>
     link_at (ms (\<not> b)) (wfs b) c wwb (rfs (\<not> b)) d rwo (mem (io_segment (io (\<not> b))))"

lemma segments_differ: "io_ok io \<Longrightarrow> io_segment (io (\<not> b)) \<noteq> io_segment (io b)"
  by (cases b) (auto simp: io_ok_def)

lemma serve_writes:
  assumes ok: "io_ok io" and at: "side_at ms io wfs rfs b c d mem True rwb wwo rwo"
  shows "\<exists>es c' mem'. processWriteOperationsFromLoop c mem = Inr (c', mem') \<and> conn_log c' = conn_log c @ es \<and>
    shm_state c' = shm_state c \<and> tokens_for (reactor_of b) es = [] \<and> (\<forall>f. fds_sent es f = f) \<and> readOperations c' = readOperations c \<and>
    (if tokens_for (reactor_of (\<not> b)) es = [] then wq_left (writeOperations c') = wq_left (writeOperations c)
     else wq_left (writeOperations c') < wq_left (writeOperations c)) \<and>
    side_at ms io wfs rfs b c' d mem' False rwb wwo (rwo \<or> io_inbox_token (io (\<not> b)) \<in> set (tokens_for (reactor_of (\<not> b)) es))"
proof (cases "shm_state c = ESTABLISHED")
  case False
  then have "link_at (ms (\<not> b)) (wfs b) c False (rfs (\<not> b)) d rwo (mem (io_segment (io (\<not> b))))"
    using at link_at_closed(1) [OF False] unfolding side_at_def by blast
  then show ?thesis using at False
    by (intro exI [of _ "[]"] exI [of _ c] exI [of _ mem]) (simp add: processWriteOperationsFromLoop_def side_at_def)
next
  case True
  let ?seg = "io_segment (io (\<not> b))" and ?wfs = "wfs b" and ?rfs = "rfs (\<not> b)" and ?ms = "ms (\<not> b)"
  have c: "outboxRb c = Some ?seg" "peerReactorTrigger c = Some (reactor_of (\<not> b))" "peerInboxReactorToken c = Some (io_inbox_token (io (\<not> b)))"
    and B: "link_at ?ms ?wfs c True ?rfs d rwo (mem ?seg)" and A: "link_at (ms b) (wfs (\<not> b)) d wwo (rfs b) c rwb (mem (io_segment (io b)))"
    using at True by (simp_all add: side_at_def conn_at_def)
  from B obtain r q f where r: "mem ?seg = Some r" "link_rel r q f" "length (ring_data r) = pool"
    and W: "writer_side pool ?ms ?wfs (writeOperations c) (calls_written c)" and R: "reader_side pool ?ms ?rfs (readOperations d) (calls_read d)"
    and fl: "in_flight ?ms ?wfs (writeOperations c) ?rfs (readOperations d) q" and d: "shm_state d \<noteq> INITIALIZING"
    and rs: "shm_state d = ESTABLISHED \<and> \<not> rwo \<longrightarrow> rq_stalled (length q) (readOperations d) (drop (length ?rfs - length (readOperations d)) ?ms)"
    using True by (auto simp: link_at_def link_open_def split: if_splits)
  obtain effs ops r' q' f' where P: "process_writes 1 (writeOperations c) RingBufferRole r = Inr (effs, ops, r')" "link_rel r' q' f'"
    "length (ring_data r') = pool" "writer_side pool ?ms ?wfs ops (calls_written c @ calls_of effs)"
    "in_flight ?ms ?wfs ops ?rfs (readOperations d) q'" "wq_stalled (length f') ops"
    "if TriggerPeer \<in> set effs then wq_left ops < wq_left (writeOperations c) else wq_left ops = wq_left (writeOperations c) \<and> q' = q"
    using writer_serves [OF r(2,3) W fl] by blast
  obtain es where es: "shm_effects (Some (reactor_of (\<not> b))) (Some (io_inbox_token (io (\<not> b)))) effs = Inr es"
    using shm_effects_total by blast
  note E = shm_effects_calls [OF es]
  let ?c = "(conn_logs es c)\<lparr>writeOperations := ops\<rparr>" and ?mem = "mem(?seg \<mapsto> r')"
  have run: "processWriteOperationsFromLoop c mem = Inr (?c, ?mem)"
    using True c r(1) P(1) es by (simp add: processWriteOperationsFromLoop_def mapped_ring_def)
  have calls: "calls_written ?c = calls_written c @ calls_of effs" "calls_read ?c = calls_read c"
    using process_writes_calls [OF P(1)] by (simp_all add: E(1) filter_all)
  let ?rw = "rwo \<or> io_inbox_token (io (\<not> b)) \<in> set (tokens_for (reactor_of (\<not> b)) es)"
  have "rq_stalled (length q') (readOperations d) (drop (length ?rfs - length (readOperations d)) ?ms)" if "shm_state d = ESTABLISHED" "\<not> ?rw"
    using that rs P(7) by (auto simp: E(3) split: if_splits)
  then have "link_open ?ms ?wfs ops True ?rfs (readOperations d) (shm_state d = ESTABLISHED \<and> \<not> ?rw) r'"
    using P(2,3,5,6) unfolding link_open_def by blast
  then have "link_at ?ms ?wfs ?c False ?rfs d ?rw (?mem ?seg)"
    using P(4) R d True calls by (simp add: link_at_def)
  moreover have "link_at (ms b) (wfs (\<not> b)) d wwo (rfs b) ?c rwb (?mem (io_segment (io b)))"
    using link_at_cong [OF A refl refl refl, of ?c] calls segments_differ [OF ok, of b] by simp
  moreover have "conn_at (io b) (io (\<not> b)) (reactor_of (\<not> b)) ?c" using at True by (simp add: side_at_def conn_at_def)
  moreover have "tokens_for (reactor_of b) es = []" using E(3) [of "reactor_of b"] by (simp add: reactor_of_def split: if_splits)
  moreover have "tokens_for (reactor_of (\<not> b)) es = [] \<longleftrightarrow> TriggerPeer \<notin> set effs" using E(3) [of "reactor_of (\<not> b)"] by (auto split: if_splits)
  ultimately show ?thesis using run E(2) P(7) unfolding side_at_def
    by (intro exI [of _ es] exI [of _ ?c] exI [of _ ?mem]) simp
qed

lemma serve_reads:
  assumes ok: "io_ok io" and at: "side_at ms io wfs rfs b c d mem wwb True wwo rwo"
  shows "\<exists>es c' mem'. processReadOperationsFromLoop c mem = Inr (c', mem') \<and> conn_log c' = conn_log c @ es \<and>
    shm_state c' = shm_state c \<and> tokens_for (reactor_of b) es = [] \<and> (\<forall>f. fds_sent es f = f) \<and> writeOperations c' = writeOperations c \<and>
    (if tokens_for (reactor_of (\<not> b)) es = [] then rq_left (ms b) (rfs b) (readOperations c') = rq_left (ms b) (rfs b) (readOperations c)
     else rq_left (ms b) (rfs b) (readOperations c') < rq_left (ms b) (rfs b) (readOperations c)) \<and>
    side_at ms io wfs rfs b c' d mem' wwb False (wwo \<or> io_outbox_token (io (\<not> b)) \<in> set (tokens_for (reactor_of (\<not> b)) es)) rwo"
proof (cases "shm_state c = ESTABLISHED")
  case False
  then have "link_at (ms b) (wfs (\<not> b)) d wwo (rfs b) c False (mem (io_segment (io b)))"
    using at link_at_closed(2) [OF False] unfolding side_at_def by blast
  then show ?thesis using at False
    by (intro exI [of _ "[]"] exI [of _ c] exI [of _ mem]) (simp add: processReadOperationsFromLoop_def side_at_def)
next
  case True
  let ?seg = "io_segment (io b)" and ?wfs = "wfs (\<not> b)" and ?rfs = "rfs b" and ?ms = "ms b"
  have c: "inboxRb c = Some ?seg" "peerReactorTrigger c = Some (reactor_of (\<not> b))" "peerOutboxReactorToken c = Some (io_outbox_token (io (\<not> b)))"
    and A: "link_at ?ms ?wfs d wwo ?rfs c True (mem ?seg)"
    and B: "link_at (ms (\<not> b)) (wfs b) c wwb (rfs (\<not> b)) d rwo (mem (io_segment (io (\<not> b))))"
    using at True by (simp_all add: side_at_def conn_at_def)
  from A obtain r q f where r: "mem ?seg = Some r" "link_rel r q f" "length (ring_data r) = pool"
    and W: "writer_side pool ?ms ?wfs (writeOperations d) (calls_written d)" and R: "reader_side pool ?ms ?rfs (readOperations c) (calls_read c)"
    and fl: "in_flight ?ms ?wfs (writeOperations d) ?rfs (readOperations c) q"
    and ws: "shm_state d = ESTABLISHED \<and> \<not> wwo \<longrightarrow> wq_stalled (length f) (writeOperations d)"
    using True by (auto simp: link_at_def link_open_def split: if_splits)
  obtain effs ops r' q' f' where P: "process_reads 0 (readOperations c) RingBufferRole r = Inr (effs, ops, r')" "link_rel r' q' f'"
    "length (ring_data r') = pool" "reader_side pool ?ms ?rfs ops (calls_read c @ calls_of effs)"
    "in_flight ?ms ?wfs (writeOperations d) ?rfs ops q'" "rq_stalled (length q') ops (drop (length ?rfs - length ops) ?ms)"
    "if TriggerPeer \<in> set effs then rq_left ?ms ?rfs ops < rq_left ?ms ?rfs (readOperations c)
      else rq_left ?ms ?rfs ops = rq_left ?ms ?rfs (readOperations c) \<and> f' = f"
    using reader_serves [OF r(2,3) R fl] by blast
  obtain es where es: "shm_effects (Some (reactor_of (\<not> b))) (Some (io_outbox_token (io (\<not> b)))) effs = Inr es"
    using shm_effects_total by blast
  note E = shm_effects_calls [OF es]
  let ?c = "(conn_logs es c)\<lparr>readOperations := ops\<rparr>" and ?mem = "mem(?seg \<mapsto> r')"
  have run: "processReadOperationsFromLoop c mem = Inr (?c, ?mem)"
    using True c r(1) P(1) es by (simp add: processReadOperationsFromLoop_def mapped_ring_def)
  have calls: "calls_read ?c = calls_read c @ calls_of effs" "calls_written ?c = calls_written c"
    using process_reads_calls [OF P(1)] filter_all [of "\<lambda>cl. \<not> is_read_call cl" "calls_of effs"] by (simp_all add: E(1))
  let ?ww = "wwo \<or> io_outbox_token (io (\<not> b)) \<in> set (tokens_for (reactor_of (\<not> b)) es)"
  have "wq_stalled (length f') (writeOperations d)" if "shm_state d = ESTABLISHED" "\<not> ?ww"
    using that ws P(7) by (auto simp: E(3) split: if_splits)
  then have "link_open ?ms ?wfs (writeOperations d) (shm_state d = ESTABLISHED \<and> \<not> ?ww) ?rfs ops True r'"
    using P(2,3,5,6) unfolding link_open_def by blast
  then have "link_at ?ms ?wfs d ?ww ?rfs ?c False (?mem ?seg)"
    using P(4) W True calls by (simp add: link_at_def)
  moreover have "link_at (ms (\<not> b)) (wfs b) ?c wwb (rfs (\<not> b)) d rwo (?mem (io_segment (io (\<not> b))))"
    using link_at_cong [OF B, of ?c d] calls segments_differ [OF ok, of b] by simp
  moreover have "conn_at (io b) (io (\<not> b)) (reactor_of (\<not> b)) ?c" using at True by (simp add: side_at_def conn_at_def)
  moreover have "tokens_for (reactor_of b) es = []" using E(3) [of "reactor_of b"] by (simp add: reactor_of_def split: if_splits)
  moreover have "tokens_for (reactor_of (\<not> b)) es = [] \<longleftrightarrow> TriggerPeer \<notin> set effs" using E(3) [of "reactor_of (\<not> b)"] by (auto split: if_splits)
  ultimately show ?thesis using run E(2) P(7) unfolding side_at_def
    by (intro exI [of _ es] exI [of _ ?c] exI [of _ ?mem]) simp
qed

section \<open>One step\<close>

definition mail_ok :: "(bool \<Rightarrow> shm_init_io) \<Rightarrow> shm_sys \<Rightarrow> bool \<Rightarrow> bool" where
  "mail_ok io s b \<longleftrightarrow> (\<forall>f. sys_mail s b = Some f \<longrightarrow> f = fds_of (io (\<not> b)) (reactor_of (\<not> b)) \<and> shm_state (sys_conn s (\<not> b)) \<noteq> INITIALIZING)"

lemma all_sides: "(\<forall>x. P x) \<longleftrightarrow> P b \<and> P (\<not> b)"
  by (cases b) (simp_all add: all_bool_eq conj_commute)

lemma sys_inv_side:
  "sys_inv ms io s rfs wfs \<longleftrightarrow>
     side_at ms io wfs rfs b (sys_conn s b) (sys_conn s (\<not> b)) (sys_mem s) (writer_awake io s b) (reader_awake io s b)
       (writer_awake io s (\<not> b)) (reader_awake io s (\<not> b)) \<and>
     conn_at (io (\<not> b)) (io b) (reactor_of b) (sys_conn s (\<not> b)) \<and> mail_ok io s b \<and> mail_ok io s (\<not> b)"
  unfolding sys_inv_def side_at_def mail_ok_def all_sides [where b = b] by auto

lemma side_at_mono:
  assumes "side_at ms io wfs rfs b c d mem wwb rwb wwo rwo" and "wwb \<Longrightarrow> wwb'" and "rwb \<Longrightarrow> rwb'" and "wwo \<Longrightarrow> wwo'" and "rwo \<Longrightarrow> rwo'"
  shows "side_at ms io wfs rfs b c d mem wwb' rwb' wwo' rwo'"
  using assms unfolding side_at_def by (blast intro: link_at_mono)

lemma taken_simps [simp]:
  "sys_conn (shm_taken ev b s) = sys_conn s" "sys_mem (shm_taken ev b s) = sys_mem s"
  "sys_mail (shm_taken ev b s) (\<not> b) = sys_mail s (\<not> b)" "sys_tokens (shm_taken ev b s) (\<not> b) = sys_tokens s (\<not> b)"
  by (cases ev; simp)+

lemma taken_mail: "sys_mail (shm_taken ev b s) b = Some f \<Longrightarrow> sys_mail s b = Some f"
  by (cases ev) (simp_all split: if_splits)

lemma update_simps:
  assumes "conn_log c' = conn_log (sys_conn s b) @ es"
  shows "sys_conn (sys_update b (c', mem') s) = (sys_conn s)(b := c')" "sys_mem (sys_update b (c', mem') s) = mem'"
    "sys_tokens (sys_update b (c', mem') s) x = sys_tokens s x @ tokens_for (reactor_of x) es"
    "sys_mail (sys_update b (c', mem') s) (\<not> b) = fds_sent es (sys_mail s (\<not> b))" "sys_mail (sys_update b (c', mem') s) b = sys_mail s b"
  using assms by (simp_all add: sys_update_def Let_def)

lemma step_inv:
  assumes inv: "sys_inv ms io s rfs wfs" and log: "conn_log c' = conn_log (sys_conn s b) @ es"
    and side: "side_at ms io wfs' rfs' b c' (sys_conn s (\<not> b)) mem' wwb rwb wwo rwo"
    and own: "wwb \<Longrightarrow> writer_awake io (shm_taken ev b s) b" "rwb \<Longrightarrow> reader_awake io (shm_taken ev b s) b"
    and other: "wwo \<Longrightarrow> writer_awake io s (\<not> b) \<or> io_outbox_token (io (\<not> b)) \<in> set (tokens_for (reactor_of (\<not> b)) es)"
      "rwo \<Longrightarrow> reader_awake io s (\<not> b) \<or> io_inbox_token (io (\<not> b)) \<in> set (tokens_for (reactor_of (\<not> b)) es)"
    and mail: "\<And>f. fds_sent es (sys_mail s (\<not> b)) = Some f \<Longrightarrow> f = fds_of (io b) (reactor_of b) \<and> shm_state c' \<noteq> INITIALIZING"
  shows "sys_inv ms io (sys_update b (c', mem') (shm_taken ev b s)) rfs' wfs'"
proof -
  let ?s = "sys_update b (c', mem') (shm_taken ev b s)"
  have inv': "conn_at (io (\<not> b)) (io b) (reactor_of b) (sys_conn s (\<not> b))" "mail_ok io s b" using inv sys_inv_side [of ms io s rfs wfs b] by blast+
  note U = update_simps [of c' "shm_taken ev b s" b es mem', simplified taken_simps, OF log]
  have "side_at ms io wfs' rfs' b (sys_conn ?s b) (sys_conn ?s (\<not> b)) (sys_mem ?s) (writer_awake io ?s b) (reader_awake io ?s b)
       (writer_awake io ?s (\<not> b)) (reader_awake io ?s (\<not> b))"
    using side_at_mono [OF side] own other by (simp add: U writer_awake_def reader_awake_def)
  moreover have "mail_ok io ?s b" using inv'(2) taken_mail [of ev b s] by (auto simp: mail_ok_def U)
  moreover have "mail_ok io ?s (\<not> b)" using mail by (auto simp: mail_ok_def U)
  ultimately show ?thesis using inv'(1) sys_inv_side [of ms io ?s rfs' wfs' b] by (simp add: U)
qed

definition step_good where
  "step_good ms io ev b s rfs wfs \<longleftrightarrow>
     (\<exists>s'. shm_step io ev b s = Inr s' \<and> sys_inv ms io s' (note_read ev b rfs) (note_write ev b wfs))"

lemma step_goodI:
  assumes "shm_task io ev b s = Inr (c', mem')" and "sys_inv ms io (sys_update b (c', mem') (shm_taken ev b s)) (note_read ev b rfs) (note_write ev b wfs)"
  shows "step_good ms io ev b s rfs wfs"
  using assms by (simp add: step_good_def shm_step_def)

lemma inbox_created:
  assumes "length contents = pool"
  shows "\<exists>r. RingBufferHeader kNumRingbufferRoles kBufferSize contents = Inr r \<and> link_rel r [] contents \<and> length (ring_data r) = pool"
proof -
  have p: "nextPow2 kBufferSize = kBufferSize"
    by (simp add: nextPow2_def kBufferSize_def smear_def)
  obtain r where r: "RingBufferHeader kNumRingbufferRoles kBufferSize contents = Inr r"
    and f: "kDataPoolByteSize r = kBufferSize" "header_inTx r = [False, False]" "ring_data r = contents"
    by (auto simp: RingBufferHeader_def p kNumRingbufferRoles_def numeral_2_eq_2) (simp_all add: kBufferSize_def isPow2_def dcheck_def)
  have "length contents = unat (kDataPoolByteSize r)" using assms by (simp add: f kBufferSize_def)
  from ring_created [OF r this] have "ring_rel r [[], contents]" by (simp add: kNumRingbufferRoles_def)
  then show ?thesis using r f assms by simp
qed

lemma step_Init:
  assumes ok: "io_ok io" and inv: "sys_inv ms io s rfs wfs" and en: "shm_state (sys_conn s b) = INITIALIZING"
  shows "step_good ms io Init b s rfs wfs"
proof -
  let ?c = "sys_conn s b" and ?d = "sys_conn s (\<not> b)" and ?seg = "io_segment (io b)"
  obtain r where r: "RingBufferHeader kNumRingbufferRoles kBufferSize (io_contents (io b)) = Inr r" "link_rel r [] (io_contents (io b))"
    "length (ring_data r) = pool" using inbox_created [of "io_contents (io b)"] ok by (auto simp: io_ok_def)
  have side: "side_at ms io wfs rfs b ?c ?d (sys_mem s) (writer_awake io s b) (reader_awake io s b)
       (writer_awake io s (\<not> b)) (reader_awake io s (\<not> b))" and mail: "mail_ok io s (\<not> b)"
    using inv sys_inv_side [of ms io s rfs wfs b] by blast+
  have c: "conn_error ?c = Success" "shm_socket ?c \<noteq> (shm_sockaddr ?c \<noteq> None)" using side en by (simp_all add: side_at_def conn_at_def)
  define es where "es = [Effect EnrollConnection, Effect (AddReaction (io_inbox_token (io b))), Effect (AddReaction (io_outbox_token (io b))),
    Effect (RegisterDescriptor EPOLLOUT)]"
  define c' where "c' = (conn_logs es (?c\<lparr>shm_socket := True\<rparr>))\<lparr>inboxRb := Some ?seg, inboxReactorToken := Some (io_inbox_token (io b)),
    outboxReactorToken := Some (io_outbox_token (io b)), shm_state := SEND_FDS\<rparr>"
  have io: "io_create (io b) = Success" "io_connect (io b) = Success" "io_block (io b) = Success" "io_ring (io b) = Success"
    using ok by (simp_all add: io_ok_def)
  have "shm_openSocket (io b) (conn_logs [Effect EnrollConnection] ?c) = (conn_logs [Effect EnrollConnection] ?c)\<lparr>shm_socket := True\<rparr>"
    by (cases "shm_socket ?c") (simp_all add: shm_openSocket_def io)
  then have task: "shm_task io Init b s = Inr (c', (sys_mem s)(?seg \<mapsto> r))"
    using r(1) c by (simp add: conn_initFromLoop_def shm_initImplFromLoop_def io c'_def es_def conn_logs_def)
  have A: "link_at (ms b) (wfs (\<not> b)) ?d (writer_awake io s (\<not> b)) (rfs b) c' False (Some r)"
    using side en r by (auto simp: side_at_def link_at_def link_open_def c'_def es_def conn_calls_def)
  have B: "link_at (ms (\<not> b)) (wfs b) c' False (rfs (\<not> b)) ?d (reader_awake io s (\<not> b)) (sys_mem s (io_segment (io (\<not> b))))"
    by (rule link_at_waiting [of _ _ ?c "writer_awake io s b"]) (use side en in \<open>simp_all add: side_at_def c'_def es_def conn_calls_def\<close>)
  have "side_at ms io wfs rfs b c' ?d ((sys_mem s)(?seg \<mapsto> r)) False False (writer_awake io s (\<not> b)) (reader_awake io s (\<not> b))"
    using A B segments_differ [OF ok, of b] c(1) by (simp add: side_at_def conn_at_def c'_def)
  then have "sys_inv ms io (sys_update b (c', (sys_mem s)(?seg \<mapsto> r)) (shm_taken Init b s)) rfs wfs"
    by (rule step_inv [OF inv, where es = es, rotated]) (use mail in \<open>simp_all add: mail_ok_def c'_def es_def\<close>)
  then show ?thesis using task by (intro step_goodI) simp_all
qed

lemma step_Writable:
  assumes ok: "io_ok io" and inv: "sys_inv ms io s rfs wfs" and en: "shm_state (sys_conn s b) = SEND_FDS"
  shows "step_good ms io Writable b s rfs wfs"
proof -
  let ?c = "sys_conn s b" and ?d = "sys_conn s (\<not> b)"
  have side: "side_at ms io wfs rfs b ?c ?d (sys_mem s) (writer_awake io s b) (reader_awake io s b)
       (writer_awake io s (\<not> b)) (reader_awake io s (\<not> b))"
    using inv sys_inv_side [of ms io s rfs wfs b] by blast
  define es where "es = [Effect (SendFds (fds_of (io b) (reactor_of b))), Effect (RegisterDescriptor EPOLLIN)]"
  define c' where "c' = (conn_logs es ?c)\<lparr>shm_state := RECV_FDS\<rparr>"
  have c: "inboxRb ?c = Some (io_segment (io b))" "inboxReactorToken ?c = Some (io_inbox_token (io b))"
    "outboxReactorToken ?c = Some (io_outbox_token (io b))" "conn_error ?c = Success"
    using side en by (simp_all add: side_at_def conn_at_def)
  have task: "shm_task io Writable b s = Inr (c', sys_mem s)"
    using en c by (simp add: handleEventsFromLoop_def handleEventOutFromLoop_def EPOLLIN_def EPOLLOUT_def EPOLLERR_def c'_def es_def fds_of_def)
  have "side_at ms io wfs rfs b c' ?d (sys_mem s) False False (writer_awake io s (\<not> b)) (reader_awake io s (\<not> b))"
    unfolding side_at_def
  proof (intro conjI)
    show "conn_at (io b) (io (\<not> b)) (reactor_of (\<not> b)) c'" using c by (simp add: conn_at_def c'_def)
    show "link_at (ms b) (wfs (\<not> b)) ?d (writer_awake io s (\<not> b)) (rfs b) c' False (sys_mem s (io_segment (io b)))"
      by (rule link_at_receiving [of _ _ _ _ _ ?c "reader_awake io s b"]) (use side en in \<open>simp_all add: side_at_def c'_def es_def\<close>)
    show "link_at (ms (\<not> b)) (wfs b) c' False (rfs (\<not> b)) ?d (reader_awake io s (\<not> b)) (sys_mem s (io_segment (io (\<not> b))))"
      by (rule link_at_waiting [of _ _ ?c "writer_awake io s b"]) (use side en in \<open>simp_all add: side_at_def c'_def es_def\<close>)
  qed
  then have "sys_inv ms io (sys_update b (c', sys_mem s) (shm_taken Writable b s)) rfs wfs"
    by (rule step_inv [OF inv, where es = es, rotated]) (simp_all add: c'_def es_def)
  then show ?thesis using task by (intro step_goodI) simp_all
qed

lemma step_Read:
  assumes ok: "io_ok io" and inv: "sys_inv ms io s rfs wfs" and en: "shm_enabled ms (Read op) b s rfs wfs"
  shows "step_good ms io (Read op) b s rfs wfs"
proof -
  let ?c = "sys_conn s b" and ?d = "sys_conn s (\<not> b)" and ?rfs = "rfs(b := rfs b @ [rd_fn op])"
  have side: "side_at ms io wfs rfs b ?c ?d (sys_mem s) (writer_awake io s b) (reader_awake io s b)
       (writer_awake io s (\<not> b)) (reader_awake io s (\<not> b))" and mail: "mail_ok io s (\<not> b)"
    using inv sys_inv_side [of ms io s rfs wfs b] by blast+
  let ?c1 = "?c\<lparr>nextBufferBeingRead := nextBufferBeingRead ?c + 1, readOperations := readOperations ?c @ [op]\<rparr>"
  from side have R: "reader_side pool (ms b) (rfs b) (readOperations ?c) (calls_read ?c)" and W: "writer_side pool (ms b) (wfs (\<not> b)) (writeOperations ?d) (calls_written ?d)"
    by (simp_all add: side_at_def link_at_def)
  have le: "length (readOperations ?c) \<le> length (rfs b)" using R by (simp add: reader_side_def)
  have op_open: "link_open (ms b) (wfs (\<not> b)) (writeOperations ?d) x (rfs b @ [rd_fn op]) (readOperations ?c @ [op]) False r"
    if "link_open (ms b) (wfs (\<not> b)) (writeOperations ?d) x (rfs b) (readOperations ?c) y r" for x y r
    using that in_flight_read [of "ms b" "wfs (\<not> b)" "writeOperations ?d" "rfs b" "readOperations ?c" _ op "rd_fn op"] en le
    unfolding link_open_def by (auto simp: rd_fresh_def)
  have A: "link_at (ms b) (wfs (\<not> b)) ?d (writer_awake io s (\<not> b)) (rfs b @ [rd_fn op]) ?c1 True (sys_mem s (io_segment (io b)))"
    using side en W reader_asks [OF R, of op] by (auto simp: side_at_def link_at_def intro: op_open)
  have B: "link_at (ms (\<not> b)) (wfs b) ?c1 (writer_awake io s b) (rfs (\<not> b)) ?d (reader_awake io s (\<not> b)) (sys_mem s (io_segment (io (\<not> b))))"
    by (rule link_at_cong [of _ _ ?c]) (use side in \<open>simp_all add: side_at_def\<close>)
  have "side_at ms io wfs ?rfs b ?c1 ?d (sys_mem s) (writer_awake io s b) True (writer_awake io s (\<not> b)) (reader_awake io s (\<not> b))"
    using A B side en by (simp add: side_at_def conn_at_def)
  from serve_reads [OF ok this] obtain es c' mem' where P: "processReadOperationsFromLoop ?c1 (sys_mem s) = Inr (c', mem')"
    "conn_log c' = conn_log ?c @ es" "shm_state c' = shm_state ?c" "tokens_for (reactor_of b) es = []" "\<forall>f. fds_sent es f = f"
    and side': "side_at ms io wfs ?rfs b c' ?d mem' (writer_awake io s b) False
      (writer_awake io s (\<not> b) \<or> io_outbox_token (io (\<not> b)) \<in> set (tokens_for (reactor_of (\<not> b)) es)) (reader_awake io s (\<not> b))"
    by auto
  have "conn_error ?c = Success" using side by (simp add: side_at_def conn_at_def)
  then have task: "shm_task io (Read op) b s = Inr (c', mem')"
    using P(1) by (simp add: conn_readFromLoop_def shm_readImplFromLoop_def Let_def)
  have "sys_inv ms io (sys_update b (c', mem') (shm_taken (Read op) b s)) ?rfs wfs"
    by (rule step_inv [OF inv P(2) side']) (use mail P(3,5) en in \<open>auto simp: mail_ok_def\<close>)
  then show ?thesis using task by (intro step_goodI) simp_all
qed

lemma step_Write:
  assumes ok: "io_ok io" and inv: "sys_inv ms io s rfs wfs" and en: "shm_enabled ms (Write op) b s rfs wfs"
  shows "step_good ms io (Write op) b s rfs wfs"
proof -
  let ?c = "sys_conn s b" and ?d = "sys_conn s (\<not> b)" and ?wfs = "wfs(b := wfs b @ [wr_fn op])" and ?ms = "ms (\<not> b)"
  have side: "side_at ms io wfs rfs b ?c ?d (sys_mem s) (writer_awake io s b) (reader_awake io s b)
       (writer_awake io s (\<not> b)) (reader_awake io s (\<not> b))" and mail: "mail_ok io s (\<not> b)"
    using inv sys_inv_side [of ms io s rfs wfs b] by blast+
  let ?c1 = "?c\<lparr>nextBufferBeingWritten := nextBufferBeingWritten ?c + 1, writeOperations := writeOperations ?c @ [op]\<rparr>"
  from side have R: "reader_side pool ?ms (rfs (\<not> b)) (readOperations ?d) (calls_read ?d)" and W: "writer_side pool ?ms (wfs b) (writeOperations ?c) (calls_written ?c)"
    by (simp_all add: side_at_def link_at_def)
  have flight: "in_flight ?ms (wfs b @ [wr_fn op]) (writeOperations ?c @ [op]) (rfs (\<not> b)) (readOperations ?d) q"
    if "in_flight ?ms (wfs b) (writeOperations ?c) (rfs (\<not> b)) (readOperations ?d) q" for q
    using in_flight_write [OF that, of pool op "wr_fn op"] en by simp
  have op_open: "link_open ?ms (wfs b @ [wr_fn op]) (writeOperations ?c @ [op]) False (rfs (\<not> b)) (readOperations ?d) y r"
    if "link_open ?ms (wfs b) (writeOperations ?c) x (rfs (\<not> b)) (readOperations ?d) y r" for x y r
    using that flight unfolding link_open_def by blast
  have B: "link_at ?ms (wfs b @ [wr_fn op]) ?c1 True (rfs (\<not> b)) ?d (reader_awake io s (\<not> b)) (sys_mem s (io_segment (io (\<not> b))))"
    using side en R writer_asks [OF W, of op] by (auto simp: side_at_def link_at_def intro: op_open flight split: if_splits)
  have A: "link_at (ms b) (wfs (\<not> b)) ?d (writer_awake io s (\<not> b)) (rfs b) ?c1 (reader_awake io s b) (sys_mem s (io_segment (io b)))"
    by (rule link_at_cong [of _ _ ?d _ _ ?c]) (use side in \<open>simp_all add: side_at_def\<close>)
  have "side_at ms io ?wfs rfs b ?c1 ?d (sys_mem s) True (reader_awake io s b) (writer_awake io s (\<not> b)) (reader_awake io s (\<not> b))"
    using A B side en by (simp add: side_at_def conn_at_def)
  from serve_writes [OF ok this] obtain es c' mem' where P: "processWriteOperationsFromLoop ?c1 (sys_mem s) = Inr (c', mem')"
    "conn_log c' = conn_log ?c @ es" "shm_state c' = shm_state ?c" "tokens_for (reactor_of b) es = []" "\<forall>f. fds_sent es f = f"
    and side': "side_at ms io ?wfs rfs b c' ?d mem' False (reader_awake io s b) (writer_awake io s (\<not> b))
      (reader_awake io s (\<not> b) \<or> io_inbox_token (io (\<not> b)) \<in> set (tokens_for (reactor_of (\<not> b)) es))"
    by auto
  have "conn_error ?c = Success" using side by (simp add: side_at_def conn_at_def)
  then have task: "shm_task io (Write op) b s = Inr (c', mem')"
    using P(1) by (simp add: conn_writeFromLoop_def shm_writeImplFromLoop_def Let_def)
  have "sys_inv ms io (sys_update b (c', mem') (shm_taken (Write op) b s)) rfs ?wfs"
    by (rule step_inv [OF inv P(2) side']) (use mail P(3,5) en in \<open>auto simp: mail_ok_def\<close>)
  then show ?thesis using task by (intro step_goodI) simp_all
qed

lemma step_Readable:
  assumes ok: "io_ok io" and inv: "sys_inv ms io s rfs wfs" and en: "shm_enabled ms Readable b s rfs wfs"
  shows "step_good ms io Readable b s rfs wfs"
proof -
  let ?c = "sys_conn s b" and ?d = "sys_conn s (\<not> b)"
  let ?wo = "writer_awake io s (\<not> b)" and ?ro = "reader_awake io s (\<not> b)"
  have side: "side_at ms io wfs rfs b ?c ?d (sys_mem s) (writer_awake io s b) (reader_awake io s b) ?wo ?ro"
    and mail: "mail_ok io s b" "mail_ok io s (\<not> b)"
    using inv sys_inv_side [of ms io s rfs wfs b] by blast+
  have fds: "sys_mail s b = Some (fds_of (io (\<not> b)) (reactor_of (\<not> b)))" and d: "shm_state ?d \<noteq> INITIALIZING"
    using en mail(1) by (auto simp: mail_ok_def)
  let ?c1 = "?c\<lparr>outboxRb := Some (io_segment (io (\<not> b))), peerReactorTrigger := Some (reactor_of (\<not> b)),
    peerInboxReactorToken := Some (io_inbox_token (io (\<not> b))), peerOutboxReactorToken := Some (io_outbox_token (io (\<not> b))),
    shm_state := ESTABLISHED\<rparr>"
  have c: "shm_state ?c = RECV_FDS" using en by simp
  have calls: "conn_calls ?c1 = conn_calls ?c" by (simp add: conn_calls_def)
  have A: "link_at (ms b) (wfs (\<not> b)) ?d ?wo (rfs b) ?c1 True (sys_mem s (io_segment (io b)))"
    using side c calls by (simp add: side_at_def link_at_def)
  have B: "link_at (ms (\<not> b)) (wfs b) ?c1 True (rfs (\<not> b)) ?d ?ro (sys_mem s (io_segment (io (\<not> b))))"
    using side c d calls by (simp add: side_at_def link_at_def)
  then obtain y where y: "sys_mem s (io_segment (io (\<not> b))) = Some y" using d by (auto simp: link_at_def)
  have "side_at ms io wfs rfs b ?c1 ?d (sys_mem s) True True ?wo ?ro"
    using A B side c by (simp add: side_at_def conn_at_def)
  from serve_writes [OF ok this] obtain es c2 mem2 where P: "processWriteOperationsFromLoop ?c1 (sys_mem s) = Inr (c2, mem2)"
    "conn_log c2 = conn_log ?c @ es" "shm_state c2 = ESTABLISHED" "\<forall>f. fds_sent es f = f"
    and side2: "side_at ms io wfs rfs b c2 ?d mem2 False True ?wo (?ro \<or> io_inbox_token (io (\<not> b)) \<in> set (tokens_for (reactor_of (\<not> b)) es))"
    by auto
  from serve_reads [OF ok side2] obtain es' c3 mem3 where Q: "processReadOperationsFromLoop c2 mem2 = Inr (c3, mem3)"
    "conn_log c3 = conn_log c2 @ es'" "shm_state c3 = shm_state c2" "\<forall>f. fds_sent es' f = f"
    and side3: "side_at ms io wfs rfs b c3 ?d mem3 False False (?wo \<or> io_outbox_token (io (\<not> b)) \<in> set (tokens_for (reactor_of (\<not> b)) es'))
      (?ro \<or> io_inbox_token (io (\<not> b)) \<in> set (tokens_for (reactor_of (\<not> b)) es))"
    by blast
  have task: "shm_task io Readable b s = Inr (c3, mem3)"
    using y c fds P(1) Q(1) by (simp add: handleEventsFromLoop_def handleEventInFromLoop_def EPOLLIN_def EPOLLERR_def fds_of_def)
  have log: "conn_log c3 = conn_log ?c @ (es @ es')" using P(2) Q(2) by simp
  have "sys_inv ms io (sys_update b (c3, mem3) (shm_taken Readable b s)) rfs wfs"
    by (rule step_inv [OF inv log side3]) (use mail(2) P(3,4) Q(3,4) c in \<open>auto simp: mail_ok_def\<close>)
  then show ?thesis using task by (intro step_goodI) simp_all
qed

text \<open>
  A reaction moves bytes, or there is one token less: the bytes that one side has left to write
  and to read, and those of both sides.
\<close>

definition side_left :: "(bool \<Rightarrow> byte list list) \<Rightarrow> (bool \<Rightarrow> nat list) \<Rightarrow> bool \<Rightarrow> shm_conn \<Rightarrow> nat" where
  "side_left ms rfs b c = wq_left (writeOperations c) + rq_left (ms b) (rfs b) (readOperations c)"

definition bytes_left :: "(bool \<Rightarrow> byte list list) \<Rightarrow> (bool \<Rightarrow> nat list) \<Rightarrow> shm_sys \<Rightarrow> nat" where
  "bytes_left ms rfs s = side_left ms rfs False (sys_conn s False) + side_left ms rfs True (sys_conn s True)"

definition tokens_left :: "shm_sys \<Rightarrow> nat" where
  "tokens_left s = length (sys_tokens s False) + length (sys_tokens s True)"

lemma both_sides:
  "bytes_left ms rfs s = side_left ms rfs b (sys_conn s b) + side_left ms rfs (\<not> b) (sys_conn s (\<not> b))"
  "tokens_left s = length (sys_tokens s b) + length (sys_tokens s (\<not> b))"
  by (cases b; simp add: bytes_left_def tokens_left_def)+

lemma react_step:
  assumes ok: "io_ok io" and inv: "sys_inv ms io s rfs wfs" and en: "sys_tokens s b = t # ts"
  shows "\<exists>s'. shm_step io React b s = Inr s' \<and> sys_inv ms io s' rfs wfs \<and>
    (bytes_left ms rfs s' < bytes_left ms rfs s \<or> bytes_left ms rfs s' = bytes_left ms rfs s \<and> tokens_left s' < tokens_left s)"
proof -
  let ?c = "sys_conn s b" and ?d = "sys_conn s (\<not> b)"
  let ?wo = "writer_awake io s (\<not> b)" and ?ro = "reader_awake io s (\<not> b)" and ?ti = "io_inbox_token (io b)" and ?to = "io_outbox_token (io b)"
  have side: "side_at ms io wfs rfs b ?c ?d (sys_mem s) (?to \<in> set (t # ts)) (?ti \<in> set (t # ts)) ?wo ?ro"
    and mail: "mail_ok io s b" "mail_ok io s (\<not> b)"
    using inv sys_inv_side [of ms io s rfs wfs b] en by (simp_all add: writer_awake_def [of io s b] reader_awake_def [of io s b])
  have taken: "writer_awake io (shm_taken React b s) b \<longleftrightarrow> ?to \<in> set ts" "reader_awake io (shm_taken React b s) b \<longleftrightarrow> ?ti \<in> set ts"
    using en by (simp_all add: writer_awake_def reader_awake_def)
  have diff: "?ti \<noteq> ?to" using ok by (simp add: io_ok_def)
  have mail': "f = fds_of (io b) (reactor_of b) \<and> shm_state ?c \<noteq> INITIALIZING" if "sys_mail s (\<not> b) = Some f" for f
    using mail(2) that by (simp add: mail_ok_def)
  consider (inbox) "inboxReactorToken ?c = Some t" | (outbox) "inboxReactorToken ?c \<noteq> Some t" "outboxReactorToken ?c = Some t"
    | (none) "inboxReactorToken ?c \<noteq> Some t" "outboxReactorToken ?c \<noteq> Some t" by blast
  then have "\<exists>es c' mem' wwo rwo. react t ?c (sys_mem s) = Inr (c', mem') \<and> conn_log c' = conn_log ?c @ es \<and> shm_state c' = shm_state ?c \<and>
    (\<forall>f. fds_sent es f = f) \<and> tokens_for (reactor_of b) es = [] \<and>
    (if tokens_for (reactor_of (\<not> b)) es = [] then side_left ms rfs b c' = side_left ms rfs b ?c else side_left ms rfs b c' < side_left ms rfs b ?c) \<and>
    side_at ms io wfs rfs b c' ?d mem' (?to \<in> set ts) (?ti \<in> set ts) wwo rwo \<and>
    (wwo \<longrightarrow> ?wo \<or> io_outbox_token (io (\<not> b)) \<in> set (tokens_for (reactor_of (\<not> b)) es)) \<and>
    (rwo \<longrightarrow> ?ro \<or> io_inbox_token (io (\<not> b)) \<in> set (tokens_for (reactor_of (\<not> b)) es))"
  proof cases
    case inbox
    have t: "shm_state ?c \<noteq> INITIALIZING \<Longrightarrow> t = ?ti" using side inbox by (simp add: side_at_def conn_at_def)
    have "side_at ms io wfs rfs b ?c ?d (sys_mem s) (?to \<in> set ts) True ?wo ?ro"
    proof (cases "shm_state ?c = ESTABLISHED")
      case True
      then have "t = ?ti" using t by simp
      then show ?thesis using diff by (intro side_at_mono [OF side]) auto
    next
      case False
      then show ?thesis using side link_at_closed [OF False] unfolding side_at_def by blast
    qed
    from serve_reads [OF ok this] obtain es c' mem' where P: "processReadOperationsFromLoop ?c (sys_mem s) = Inr (c', mem')"
      "conn_log c' = conn_log ?c @ es" "shm_state c' = shm_state ?c" "\<forall>f. fds_sent es f = f"
      "tokens_for (reactor_of b) es = []"
      and raw: "writeOperations c' = writeOperations ?c"
        "if tokens_for (reactor_of (\<not> b)) es = [] then rq_left (ms b) (rfs b) (readOperations c') = rq_left (ms b) (rfs b) (readOperations ?c)
          else rq_left (ms b) (rfs b) (readOperations c') < rq_left (ms b) (rfs b) (readOperations ?c)"
      and side': "side_at ms io wfs rfs b c' ?d mem' (?to \<in> set ts) False
        (?wo \<or> io_outbox_token (io (\<not> b)) \<in> set (tokens_for (reactor_of (\<not> b)) es)) ?ro"
      by blast
    have left: "if tokens_for (reactor_of (\<not> b)) es = [] then side_left ms rfs b c' = side_left ms rfs b ?c else side_left ms rfs b c' < side_left ms rfs b ?c"
      using raw by (simp add: side_left_def split: if_splits)
    show ?thesis
      by (intro exI [of _ es] exI [of _ c'] exI [of _ mem']
          exI [of _ "?wo \<or> io_outbox_token (io (\<not> b)) \<in> set (tokens_for (reactor_of (\<not> b)) es)"] exI [of _ ?ro] conjI, simp add: react_def inbox P(1), rule P, rule P, rule P, rule P, rule left,
          rule side_at_mono [OF side']) auto
  next
    case outbox
    have t: "shm_state ?c \<noteq> INITIALIZING \<Longrightarrow> t = ?to" using side outbox by (simp add: side_at_def conn_at_def)
    have "side_at ms io wfs rfs b ?c ?d (sys_mem s) True (?ti \<in> set ts) ?wo ?ro"
    proof (cases "shm_state ?c = ESTABLISHED")
      case True
      then have "t = ?to" using t by simp
      then show ?thesis using diff by (intro side_at_mono [OF side]) auto
    next
      case False
      then show ?thesis using side link_at_closed [OF False] unfolding side_at_def by blast
    qed
    from serve_writes [OF ok this] obtain es c' mem' where P: "processWriteOperationsFromLoop ?c (sys_mem s) = Inr (c', mem')"
      "conn_log c' = conn_log ?c @ es" "shm_state c' = shm_state ?c" "\<forall>f. fds_sent es f = f"
      "tokens_for (reactor_of b) es = []"
      and raw: "readOperations c' = readOperations ?c"
        "if tokens_for (reactor_of (\<not> b)) es = [] then wq_left (writeOperations c') = wq_left (writeOperations ?c)
          else wq_left (writeOperations c') < wq_left (writeOperations ?c)"
      and side': "side_at ms io wfs rfs b c' ?d mem' False (?ti \<in> set ts) ?wo
        (?ro \<or> io_inbox_token (io (\<not> b)) \<in> set (tokens_for (reactor_of (\<not> b)) es))"
      by blast
    have left: "if tokens_for (reactor_of (\<not> b)) es = [] then side_left ms rfs b c' = side_left ms rfs b ?c else side_left ms rfs b c' < side_left ms rfs b ?c"
      using raw by (simp add: side_left_def split: if_splits)
    show ?thesis
      by (intro exI [of _ es] exI [of _ c'] exI [of _ mem'] exI [of _ ?wo]
          exI [of _ "?ro \<or> io_inbox_token (io (\<not> b)) \<in> set (tokens_for (reactor_of (\<not> b)) es)"] conjI, simp add: react_def outbox P(1), rule P, rule P, rule P, rule P, rule left,
          rule side_at_mono [OF side']) auto
  next
    case none
    have "side_at ms io wfs rfs b ?c ?d (sys_mem s) (?to \<in> set ts) (?ti \<in> set ts) ?wo ?ro"
    proof (cases "shm_state ?c = ESTABLISHED")
      case True
      then have "t \<noteq> ?ti" "t \<noteq> ?to" using side none by (auto simp: side_at_def conn_at_def)
      then show ?thesis by (intro side_at_mono [OF side]) auto
    next
      case False
      then show ?thesis using side link_at_closed [OF False] unfolding side_at_def by blast
    qed
    then show ?thesis using none unfolding react_def
      by (intro exI [of _ "[]"] exI [of _ ?c] exI [of _ "sys_mem s"] exI [of _ ?wo] exI [of _ ?ro]) simp
  qed
  then obtain es c' mem' wwo rwo where P: "react t ?c (sys_mem s) = Inr (c', mem')" "conn_log c' = conn_log ?c @ es" "shm_state c' = shm_state ?c"
    "\<forall>f. fds_sent es f = f" "tokens_for (reactor_of b) es = []"
    and left: "if tokens_for (reactor_of (\<not> b)) es = [] then side_left ms rfs b c' = side_left ms rfs b ?c else side_left ms rfs b c' < side_left ms rfs b ?c"
    and side': "side_at ms io wfs rfs b c' ?d mem' (?to \<in> set ts) (?ti \<in> set ts) wwo rwo"
    and other: "wwo \<Longrightarrow> ?wo \<or> io_outbox_token (io (\<not> b)) \<in> set (tokens_for (reactor_of (\<not> b)) es)"
      "rwo \<Longrightarrow> ?ro \<or> io_inbox_token (io (\<not> b)) \<in> set (tokens_for (reactor_of (\<not> b)) es)"
    by blast
  let ?s = "sys_update b (c', mem') (shm_taken React b s)"
  have "sys_inv ms io ?s rfs wfs"
    by (rule step_inv [OF inv P(2) side']) (use mail' taken other P(3,4) in auto)
  moreover have "shm_step io React b s = Inr ?s" using P(1) en by (simp add: shm_step_def)
  moreover note U = update_simps [of c' "shm_taken React b s" b es mem', simplified taken_simps, OF P(2)]
  have tok: "sys_tokens ?s b = ts" "sys_tokens ?s (\<not> b) = sys_tokens s (\<not> b) @ tokens_for (reactor_of (\<not> b)) es"
    and conns: "sys_conn ?s b = c'" "sys_conn ?s (\<not> b) = ?d"
    unfolding U using en P(5) by simp_all
  have "bytes_left ms rfs ?s < bytes_left ms rfs s \<or> bytes_left ms rfs ?s = bytes_left ms rfs s \<and> tokens_left ?s < tokens_left s"
    unfolding both_sides [where b = b] tok conns en using left by (simp split: if_splits)
  ultimately show ?thesis by blast
qed

lemma step_React: "io_ok io \<Longrightarrow> sys_inv ms io s rfs wfs \<Longrightarrow> sys_tokens s b = t # ts \<Longrightarrow> step_good ms io React b s rfs wfs"
  using react_step by (fastforce simp: step_good_def)

section \<open>Runs\<close>

lemma enabled_step_good:
  assumes "io_ok io" and "sys_inv ms io s rfs wfs" and "shm_enabled ms ev b s rfs wfs"
  shows "step_good ms io ev b s rfs wfs"
proof (cases ev)
  case React
  then show ?thesis using assms by (cases "sys_tokens s b") (auto intro: step_React)
qed (use assms step_Init step_Read step_Write step_Writable step_Readable in auto)

lemma sys_inv_start:
  assumes "io_ok io" and "\<And>b. \<exists>i a. cs b = ConnectionImpl_socket i \<or> cs b = ConnectionImpl_addr i a"
  shows "sys_inv ms io (shm_start cs) (\<lambda>_. []) (\<lambda>_. [])"
proof -
  have c: "shm_state (cs b) = INITIALIZING" "readOperations (cs b) = []" "writeOperations (cs b) = []" "conn_calls (cs b) = []"
    "conn_error (cs b) = Success" "shm_socket (cs b) \<noteq> (shm_sockaddr (cs b) \<noteq> None)" for b
    using assms(2) [of b] by (auto simp: ConnectionImpl_socket_def ConnectionImpl_addr_def shm_new_def conn_calls_def)
  show ?thesis
    unfolding sys_inv_def link_at_def conn_at_def shm_start_def
    using c(6) by (simp add: c(1-5) writer_side_def reader_side_def wq_ok_def rq_ok_def in_flight_def)
qed

lemma run_inv:
  assumes "shm_run ms io s rfs wfs"
  shows "io_ok io \<and> (\<forall>b. \<forall>m \<in> set (ms b). length m < 2 ^ 32) \<and> sys_inv ms io s rfs wfs"
  using assms
proof induction
  case (shm_begin cs)
  then show ?case using sys_inv_start [of io cs ms] by blast
next
  case (shm_stepped s rfs wfs ev b s')
  then have "step_good ms io ev b s rfs wfs" by (intro enabled_step_good) simp_all
  then show ?case using shm_stepped by (simp add: step_good_def)
qed

end
