(* ===== verification/Shm_Properties.thy ===== *)
theory Shm_Properties
  imports Shm_Delivery
begin

text \<open>The properties of two connections over shared memory.\<close>

section \<open>Delivery\<close>

lemma read_before_write:
  assumes R: "reader_side S ms rfns rs calls" and W: "writer_side S ms wfns ws wcalls" and flight: "in_flight ms wfns ws rfns rs q"
  shows "length rfns - length rs \<le> length wfns"
proof (rule ccontr)
  let ?d = "length rfns - length rs" and ?F = "\<lambda>i. length (frames (drop i ms))"
  assume "\<not> ?d \<le> length wfns"
  then have lt: "length wfns < ?d" by simp
  have "?d \<le> length ms" using R by (auto simp: reader_side_def)
  moreover have "length (rd_ahead rs (drop ?d ms)) \<le> ?F ?d"
    by (cases "(rs, drop ?d ms)" rule: rd_ahead.cases) (auto simp: rd_remaining_def frame_def)
  moreover have "?F (length wfns) \<le> length (rd_ahead rs (drop ?d ms))" using arg_cong [OF flight [unfolded in_flight_def], of length] by simp
  moreover have "?F ?d \<le> ?F (Suc (length wfns))" using lt by (intro frames_antimono) simp
  ultimately show False using frames_drop [of "length wfns" ms] lt by simp
qed

text \<open>What a connection has delivered, and what it has still to do, in any state of a run.\<close>

lemma run_link:
  assumes "shm_run ms io s rfs wfs"
  shows "\<exists>q. in_flight (ms b) (wfs (\<not> b)) (writeOperations (sys_conn s (\<not> b))) (rfs b) (readOperations (sys_conn s b)) q"
    and "reader_side pool (ms b) (rfs b) (readOperations (sys_conn s b)) (calls_read (sys_conn s b))"
    and "writer_side pool (ms b) (wfs (\<not> b)) (writeOperations (sys_conn s (\<not> b))) (calls_written (sys_conn s (\<not> b)))"
proof -
  have "link_at (ms b) (wfs (\<not> b)) (sys_conn s (\<not> b)) (writer_awake io s (\<not> b)) (rfs b) (sys_conn s b) (reader_awake io s b)
      (sys_mem s (io_segment (io b)))" using run_inv [OF assms] by (simp add: sys_inv_def)
  then show "\<exists>q. in_flight (ms b) (wfs (\<not> b)) (writeOperations (sys_conn s (\<not> b))) (rfs b) (readOperations (sys_conn s b)) q"
    "reader_side pool (ms b) (rfs b) (readOperations (sys_conn s b)) (calls_read (sys_conn s b))"
    "writer_side pool (ms b) (wfs (\<not> b)) (writeOperations (sys_conn s (\<not> b))) (calls_written (sys_conn s (\<not> b)))"
    unfolding link_at_def link_open_def by (auto split: if_splits)
qed

lemma zip_take_take: "zip (take n xs) (take n ys) = zip (take n xs) ys"
  by (metis take_zip zip_take_length length_take min.commute take_take zip_take_length)

lemma delivered_prefix:
  assumes "shm_run ms io s rfs wfs"
  shows "\<exists>n. n \<le> length (rfs b) \<and> n \<le> length (wfs (\<not> b)) \<and>
    calls_read (sys_conn s b) = map (\<lambda>(fn, m). ReadCall fn Success m) (zip (take n (rfs b)) (ms b))"
  using run_link(2) [OF assms, of b] run_link(1) [OF assms, of b] read_before_write [OF run_link(2) [OF assms] run_link(3) [OF assms], of b]
  by (intro exI [of _ "length (rfs b) - length (readOperations (sys_conn s b))"]) (auto simp: reader_side_def Let_def zip_take_take)

lemma quiescent_delivered:
  assumes run: "shm_run ms io s rfs wfs" and quiet: "sys_tokens s b = []" "sys_tokens s (\<not> b) = []"
    and est: "shm_state (sys_conn s b) = ESTABLISHED" "shm_state (sys_conn s (\<not> b)) = ESTABLISHED"
  shows "calls_read (sys_conn s b) = map (\<lambda>(fn, m). ReadCall fn Success m) (zip (take (length (wfs (\<not> b))) (rfs b)) (ms b))"
proof -
  let ?c = "sys_conn s b" and ?d = "sys_conn s (\<not> b)"
  note inv = run_inv [OF run]
  have L: "link_at (ms b) (wfs (\<not> b)) ?d False (rfs b) ?c False (sys_mem s (io_segment (io b)))"
    using inv quiet by (simp add: sys_inv_def writer_awake_def reader_awake_def all_sides [where b = b])
  then obtain r q f where r: "link_rel r q f" "length (ring_data r) = pool" and fl: "in_flight (ms b) (wfs (\<not> b)) (writeOperations ?d) (rfs b) (readOperations ?c) q"
    and st: "wq_stalled (length f) (writeOperations ?d)" "rq_stalled (length q) (readOperations ?c) (drop (length (rfs b) - length (readOperations ?c)) (ms b))"
    using est by (auto simp: link_at_def link_open_def)
  note R = run_link(2) [OF run, of b] and W = run_link(3) [OF run, of b]
  let ?n = "length (rfs b) - length (readOperations ?c)"
  have "readOperations ?c = [] \<or> writeOperations ?d = [] \<and> ?n = length (wfs (\<not> b))"
    by (rule link_progress [OF r _ _ W R fl st]) (use inv in simp_all)
  moreover have "?n \<le> length (wfs (\<not> b))" by (rule read_before_write [OF R W fl])
  ultimately have "take ?n (rfs b) = take (length (wfs (\<not> b))) (rfs b)" by auto
  then show ?thesis using R by (simp add: reader_side_def Let_def zip_take_take)
qed

section \<open>Reactions\<close>

definition reaction :: "(bool \<Rightarrow> shm_init_io) \<Rightarrow> shm_sys \<Rightarrow> shm_sys \<Rightarrow> bool" where
  "reaction io s s' \<longleftrightarrow> (\<exists>b. sys_tokens s b \<noteq> [] \<and> shm_step io React b s = Inr s')"

lemma reaction_run:
  assumes "shm_run ms io s rfs wfs" and "reaction io s s'"
  shows "shm_run ms io s' rfs wfs" and "(s', s) \<in> measures [bytes_left ms rfs, tokens_left]"
proof -
  obtain b where b: "sys_tokens s b \<noteq> []" "shm_step io React b s = Inr s'" using assms(2) by (auto simp: reaction_def)
  show "shm_run ms io s' rfs wfs" using shm_stepped [OF assms(1), of React b s'] b by simp
  obtain t ts where "sys_tokens s b = t # ts" using b(1) by (cases "sys_tokens s b") auto
  then show "(s', s) \<in> measures [bytes_left ms rfs, tokens_left]"
    using react_step [of io ms s rfs wfs b t ts] run_inv [OF assms(1)] b(2) by auto
qed

lemma process_state:
  "processReadOperationsFromLoop c mem = Inr (c', mem') \<Longrightarrow> shm_state c' = shm_state c"
  "processWriteOperationsFromLoop c mem = Inr (c', mem') \<Longrightarrow> shm_state c' = shm_state c"
  by (auto simp: processReadOperationsFromLoop_def processWriteOperationsFromLoop_def mapped_ring_def bindR_eq_Inr
      split: if_split_asm option.split_asm)

lemma react_state: "react t c mem = Inr (c', mem') \<Longrightarrow> shm_state c' = shm_state c"
  by (auto simp: react_def dest: process_state split: if_split_asm)

lemma reaction_states:
  assumes "reaction io s s'"
  shows "shm_state (sys_conn s' b) = shm_state (sys_conn s b)"
proof -
  obtain d where d: "sys_tokens s d \<noteq> []" "shm_step io React d s = Inr s'" using assms by (auto simp: reaction_def)
  then obtain t ts c' mem' where "react t (sys_conn s d) (sys_mem s) = Inr (c', mem')" "s' = sys_update d (c', mem') (shm_taken React d s)"
    by (cases "sys_tokens s d") (auto simp: shm_step_def bindR_eq_Inr)
  then show ?thesis using react_state [of t "sys_conn s d" "sys_mem s" c' mem'] by (simp add: sys_update_def Let_def)
qed

lemma reactions_quiesce:
  assumes "shm_run ms io s rfs wfs"
  shows "\<exists>s'. (reaction io)\<^sup>*\<^sup>* s s' \<and> (\<forall>b. sys_tokens s' b = [])"
  using assms
proof (induction s rule: wf_induct_rule [OF wf_measures [of "[bytes_left ms rfs, tokens_left]"]])
  case (1 s)
  show ?case
  proof (cases "\<exists>b. sys_tokens s b \<noteq> []")
    case True
    then obtain b where b: "sys_tokens s b \<noteq> []" by blast
    then obtain s1 where s1: "shm_step io React b s = Inr s1"
      using enabled_step_good [of io ms s rfs wfs React b] run_inv [OF 1(2)] by (auto simp: step_good_def)
    then have re: "reaction io s s1" using b by (auto simp: reaction_def)
    obtain s' where "(reaction io)\<^sup>*\<^sup>* s1 s'" "\<forall>b. sys_tokens s' b = []"
      using 1(1) [OF reaction_run(2) [OF 1(2) re] reaction_run(1) [OF 1(2) re]] by blast
    then show ?thesis using converse_rtranclp_into_rtranclp [of "reaction io", OF re] by blast
  qed auto
qed

lemma reactions_run:
  assumes "(reaction io)\<^sup>*\<^sup>* s s'" and "shm_run ms io s rfs wfs"
  shows "shm_run ms io s' rfs wfs \<and> shm_state (sys_conn s' b) = shm_state (sys_conn s b)"
  using assms by induction (auto dest: reaction_run(1) simp: reaction_states)

lemma reactions_finite:
  assumes "shm_run ms io (f 0) rfs wfs"
  shows "\<not> (\<forall>i. reaction io (f i) (f (Suc i)))"
proof
  assume chain: "\<forall>i. reaction io (f i) (f (Suc i))"
  have run: "shm_run ms io (f i) rfs wfs" for i
    by (induction i) (use assms chain reaction_run(1) in blast)+
  have "(f (Suc i), f i) \<in> measures [bytes_left ms rfs, tokens_left]" for i
    using reaction_run(2) [OF run] chain by blast
  then show False using wf_measures [of "[bytes_left ms rfs, tokens_left]"] unfolding wf_iff_no_infinite_down_chain by blast
qed

section \<open>A run\<close>

text \<open>Both sides initialize, send their descriptors and receive those of the peer.\<close>

lemma Init_state:
  assumes "io_ok io" and "shm_step io Init b s = Inr s'" and "conn_error (sys_conn s b) = Success"
  shows "shm_state (sys_conn s' b) = SEND_FDS" "sys_conn s' (\<not> b) = sys_conn s (\<not> b)" "sys_tokens s' d = sys_tokens s d"
proof -
  have io: "io_create (io b) = Success" "io_connect (io b) = Success" "io_block (io b) = Success" "io_ring (io b) = Success"
    using assms(1) by (simp_all add: io_ok_def)
  then show "shm_state (sys_conn s' b) = SEND_FDS" "sys_conn s' (\<not> b) = sys_conn s (\<not> b)" "sys_tokens s' d = sys_tokens s d"
    using assms(2,3) by (auto simp: shm_step_def bindR_eq_Inr conn_initFromLoop_def shm_initImplFromLoop_def shm_openSocket_def Let_def
        dcheck_eq_Inr sys_update_def conn_logs_def split: if_split_asm)
qed

lemma Writable_state:
  assumes "shm_step io Writable b s = Inr s'" and "shm_state (sys_conn s b) = SEND_FDS"
  shows "shm_state (sys_conn s' b) = RECV_FDS" "sys_conn s' (\<not> b) = sys_conn s (\<not> b)" "sys_tokens s' d = sys_tokens s d"
    "sys_mail s' (\<not> b) \<noteq> None" "sys_mail s' b = sys_mail s b"
  using assms by (auto simp: shm_step_def bindR_eq_Inr handleEventsFromLoop_def handleEventOutFromLoop_def EPOLLIN_def EPOLLOUT_def EPOLLERR_def
      sys_update_def Let_def conn_logs_def split: option.split_asm)

lemma Readable_state:
  assumes "shm_step io Readable b s = Inr s'" and "shm_state (sys_conn s b) = RECV_FDS" "sys_mail s b \<noteq> None"
  shows "shm_state (sys_conn s' b) = ESTABLISHED" "sys_conn s' (\<not> b) = sys_conn s (\<not> b)" "sys_mail s (\<not> b) \<noteq> None \<Longrightarrow> sys_mail s' (\<not> b) \<noteq> None"
proof -
  obtain c' mem' where t: "shm_task io Readable b s = Inr (c', mem')" and s': "s' = sys_update b (c', mem') (shm_taken Readable b s)"
    using assms(1) by (auto simp: shm_step_def bindR_eq_Inr)
  have "shm_state c' = ESTABLISHED"
    using t assms(2,3) by (auto simp: handleEventsFromLoop_def handleEventInFromLoop_def EPOLLIN_def EPOLLERR_def bindR_eq_Inr throw_assert_if_eq_Inr
        dest!: process_state)
  moreover have "fds_sent es (Some f) \<noteq> None" for es f
    by (induction es "Some f" arbitrary: f rule: fds_sent.induct) auto
  ultimately show "shm_state (sys_conn s' b) = ESTABLISHED" "sys_conn s' (\<not> b) = sys_conn s (\<not> b)"
    "sys_mail s (\<not> b) \<noteq> None \<Longrightarrow> sys_mail s' (\<not> b) \<noteq> None"
    by (auto simp: s' sys_update_def Let_def)
qed

lemma next_step:
  assumes "shm_run ms io s rfs wfs" and "shm_enabled ms ev b s rfs wfs"
  obtains s' where "shm_step io ev b s = Inr s'" "shm_run ms io s' (note_read ev b rfs) (note_write ev b wfs)"
  using enabled_step_good [of io ms s rfs wfs ev b] run_inv [OF assms(1)] assms(2) shm_stepped [OF assms] by (auto simp: step_good_def)

lemma established_run:
  assumes "io_ok io" and "\<forall>b. \<forall>m \<in> set (ms b). length m < 2 ^ 32"
  shows "\<exists>s. shm_run ms io s (\<lambda>_. []) (\<lambda>_. []) \<and> (\<forall>b. shm_state (sys_conn s b) = ESTABLISHED)"
proof -
  let ?cs = "\<lambda>b. if b then ConnectionImpl_socket ''server'' else ConnectionImpl_addr ''client'' ''address''"
  have run0: "shm_run ms io (shm_start ?cs) (\<lambda>_. []) (\<lambda>_. [])"
    by (rule shm_begin [OF assms]) auto
  have c0: "shm_state (sys_conn (shm_start ?cs) b) = INITIALIZING" "conn_error (sys_conn (shm_start ?cs) b) = Success" for b
    by (simp_all add: shm_start_def ConnectionImpl_socket_def ConnectionImpl_addr_def shm_new_def)
  obtain s1 where s1: "shm_step io Init False (shm_start ?cs) = Inr s1" "shm_run ms io s1 (\<lambda>_. []) (\<lambda>_. [])"
    using next_step [OF run0, of Init False] c0 by auto
  note i1 = Init_state [OF assms(1) s1(1) c0(2), simplified]
  obtain s2 where s2: "shm_step io Init True s1 = Inr s2" "shm_run ms io s2 (\<lambda>_. []) (\<lambda>_. [])"
    using next_step [OF s1(2), of Init True] i1(2) c0 by auto
  note i2 = Init_state [OF assms(1) s2(1), simplified i1(2), OF c0(2), simplified]
  obtain s3 where s3: "shm_step io Writable False s2 = Inr s3" "shm_run ms io s3 (\<lambda>_. []) (\<lambda>_. [])"
    using next_step [OF s2(2), of Writable False] i2(2) i1(1) by auto
  note i3 = Writable_state [OF s3(1), simplified i2(2), OF i1(1), simplified]
  obtain s4 where s4: "shm_step io Writable True s3 = Inr s4" "shm_run ms io s4 (\<lambda>_. []) (\<lambda>_. [])"
    using next_step [OF s3(2), of Writable True] i3(2) i2(1) by auto
  note i4 = Writable_state [OF s4(1), simplified i3(2), OF i2(1), simplified]
  have r: "shm_state (sys_conn s4 False) = RECV_FDS" "sys_mail s4 False \<noteq> None" using i4(2,4) i3(1) by simp_all
  obtain s5 where s5: "shm_step io Readable False s4 = Inr s5" "shm_run ms io s5 (\<lambda>_. []) (\<lambda>_. [])"
    using next_step [OF s4(2), of Readable False] r by auto
  note i5 = Readable_state [OF s5(1) r, simplified]
  have r': "shm_state (sys_conn s5 True) = RECV_FDS" "sys_mail s5 True \<noteq> None" using i5(2,3) i4(1,5) i3(4) by auto
  obtain s6 where s6: "shm_step io Readable True s5 = Inr s6" "shm_run ms io s6 (\<lambda>_. []) (\<lambda>_. [])"
    using next_step [OF s5(2), of Readable True] r' by auto
  note i6 = Readable_state [OF s6(1) r', simplified]
  show ?thesis using s6(2) i6(1,2) i5(1) by (intro exI [of _ s6]) (simp add: all_bool_eq)
qed

lemma request_states:
  assumes "shm_step io ev b s = Inr s'" and "ev = Read op \<or> ev = Write op'"
  shows "shm_state (sys_conn s' d) = shm_state (sys_conn s d)"
  using assms
  by (auto simp: shm_step_def bindR_eq_Inr sys_update_def Let_def conn_readFromLoop_def conn_writeFromLoop_def shm_readImplFromLoop_def
      shm_writeImplFromLoop_def dest!: process_state split: if_split_asm)

definition sample_io :: "bool \<Rightarrow> shm_init_io" where
  "sample_io b = \<lparr>io_create = Success, io_connect = Success, io_block = Success, io_ring = Success, io_segment = (if b then 1 else 0),
     io_contents = replicate pool 0, io_inbox_token = 0, io_outbox_token = 1\<rparr>"

definition sample_messages :: "bool \<Rightarrow> byte list list" where
  "sample_messages b = (if b then [[10, 20, 30]] else [])"

definition sample_write :: wr_op where
  "sample_write = RingbufferWriteOperation_ptr [10, 20, 30] 3 5"

definition sample_read :: rd_op where
  "sample_read = RingbufferReadOperation_alloc 7"

lemma sample_ok: "io_ok sample_io" "\<forall>b. \<forall>m \<in> set (sample_messages b). length m < 2 ^ 32"
  by (simp_all add: io_ok_def sample_io_def sample_messages_def)

lemma sample_fresh: "wr_fresh pool [10, 20, 30] sample_write" "rd_fresh pool [10, 20, 30] sample_read"
  by (simp_all add: wr_fresh_def rd_fresh_def sample_write_def sample_read_def RingbufferWriteOperation_ptr_def RingbufferReadOperation_alloc_def
      wr_ok_def wr_payload_def rd_expects_def)

lemma sample_notes:
  "note_write (Write sample_write) False (\<lambda>_. []) = (\<lambda>b. if b then [] else [5])" "note_read (Write sample_write) d rfs = rfs"
  "note_read (Read sample_read) True (\<lambda>_. []) = (\<lambda>b. if b then [7] else [])" "note_write (Read sample_read) d wfs = wfs"
  by (auto simp: fun_eq_iff sample_write_def RingbufferWriteOperation_ptr_def sample_read_def RingbufferReadOperation_alloc_def)

text \<open>A message is written and a read is asked for, in an established connection.\<close>

lemma sample_run_requests:
  "\<exists>s. shm_run sample_messages sample_io s (\<lambda>b. if b then [7] else []) (\<lambda>b. if b then [] else [5]) \<and>
     (\<forall>b. shm_state (sys_conn s b) = ESTABLISHED)"
proof -
  obtain s0 where s0: "shm_run sample_messages sample_io s0 (\<lambda>_. []) (\<lambda>_. [])" "\<And>b. shm_state (sys_conn s0 b) = ESTABLISHED"
    using established_run [OF sample_ok] by blast
  have "shm_enabled sample_messages (Write sample_write) False s0 (\<lambda>_. []) (\<lambda>_. [])"
    using s0(2) sample_fresh by (simp add: sample_messages_def)
  from next_step [OF s0(1) this, unfolded sample_notes] obtain s1 where s1: "shm_step sample_io (Write sample_write) False s0 = Inr s1"
    "shm_run sample_messages sample_io s1 (\<lambda>_. []) (\<lambda>b. if b then [] else [5])" by blast
  have st: "shm_state (sys_conn s1 b) = ESTABLISHED" for b using request_states [OF s1(1)] s0(2) by simp
  have "shm_enabled sample_messages (Read sample_read) True s1 (\<lambda>_. []) (\<lambda>b. if b then [] else [5])"
    using st sample_fresh by (simp add: sample_messages_def)
  from next_step [OF s1(2) this, unfolded sample_notes] obtain s2 where s2: "shm_step sample_io (Read sample_read) True s1 = Inr s2"
    "shm_run sample_messages sample_io s2 (\<lambda>b. if b then [7] else []) (\<lambda>b. if b then [] else [5])" by blast
  then show ?thesis using request_states [OF s2(1)] st by auto
qed

lemma sample_run_quiet:
  "\<exists>s. shm_run sample_messages sample_io s (\<lambda>b. if b then [7] else []) (\<lambda>b. if b then [] else [5]) \<and>
     (\<forall>b. shm_state (sys_conn s b) = ESTABLISHED \<and> sys_tokens s b = [])"
  using sample_run_requests reactions_quiesce reactions_run by metis

section \<open>Properties\<close>

text \<open>
  C16: messages over shared memory arrive. Whatever the two loops have done, and whatever kinds of
  source and destination the messages have, a side has called the callbacks of its first reads,
  in order, each once and with the message that the peer wrote, and of no more reads than the peer
  has asked for writes.
\<close>

theorem shm_delivers_in_order:
  assumes "shm_run ms io s rfs wfs"
  shows "\<exists>n. n \<le> length (rfs b) \<and> n \<le> length (wfs (\<not> b)) \<and>
    filter is_read_call (conn_calls (sys_conn s b)) = map (\<lambda>(fn, m). ReadCall fn Success m) (zip (take n (rfs b)) (ms b))"
  by (rule delivered_prefix [OF assms])

theorem shm_delivers_in_order_witness:
  "\<exists>(s :: shm_sys) n. n \<le> 1 \<and> filter is_read_call (conn_calls (sys_conn s True)) = map (\<lambda>(fn, m). ReadCall fn Success m) (zip (take n [7]) [[10, 20, 30]])"
proof -
  obtain s where "shm_run sample_messages sample_io s (\<lambda>b. if b then [7] else []) (\<lambda>b. if b then [] else [5])"
    using sample_run_requests by blast
  from shm_delivers_in_order [OF this, of True] show ?thesis by (auto simp: sample_messages_def)
qed



text \<open>
  C15: nobody waits forever. When two connections are established and no reaction is outstanding, a
  side has read every message that it asked for and that its peer has asked to write, although
  each end only moves what fits the ring buffer and then waits to be triggered.
\<close>

theorem shm_all_delivered:
  assumes "shm_run ms io s rfs wfs" and "sys_tokens s b = []" and "sys_tokens s (\<not> b) = []"
    and "shm_state (sys_conn s b) = ESTABLISHED" and "shm_state (sys_conn s (\<not> b)) = ESTABLISHED"
  shows "filter is_read_call (conn_calls (sys_conn s b)) =
    map (\<lambda>(fn, m). ReadCall fn Success m) (zip (take (length (wfs (\<not> b))) (rfs b)) (ms b))"
  by (rule quiescent_delivered [OF assms])

theorem shm_all_delivered_witness: "\<exists>s :: shm_sys. filter is_read_call (conn_calls (sys_conn s True)) = [ReadCall 7 Success [10, 20, 30]]"
proof -
  obtain s where s: "shm_run sample_messages sample_io s (\<lambda>b. if b then [7] else []) (\<lambda>b. if b then [] else [5])"
    "\<And>b. shm_state (sys_conn s b) = ESTABLISHED" "\<And>b. sys_tokens s b = []" using sample_run_quiet by blast
  from shm_all_delivered [OF s(1) s(3) s(3) s(2) s(2), of True] show ?thesis by (auto simp: sample_messages_def)
qed

text \<open>
  C18: the reactions to one another of two connections end. There is no infinite sequence of them,
  and some sequence, possibly empty, leads to a state in which none is outstanding.
\<close>

theorem shm_reactions_end:
  assumes "shm_run ms io s rfs wfs"
  shows "\<not> (\<exists>f. f 0 = s \<and> (\<forall>i. reaction io (f i) (f (Suc i)))) \<and> (\<exists>s'. (reaction io)\<^sup>*\<^sup>* s s' \<and> (\<forall>b. sys_tokens s' b = []))"
  using reactions_quiesce [OF assms] reactions_finite assms by blast

theorem shm_reactions_end_witness:
  "\<exists>s s'. shm_run sample_messages sample_io s (\<lambda>b. if b then [7] else []) (\<lambda>b. if b then [] else [5]) \<and>
     (reaction sample_io)\<^sup>*\<^sup>* s s' \<and> (\<forall>b. sys_tokens s' b = [])"
  using sample_run_requests shm_reactions_end by meson

end
