(* ===== verification/Shm_Callbacks.thy ===== *)
theory Shm_Callbacks
  imports Shm_System
begin

text \<open>
  The callbacks of one connection over shared memory, whatever its peer, the system calls and the
  contents of the ring buffers do to it: each is called once, at the latest when the connection
  fails or is closed.
\<close>

section \<open>A connection and its environment\<close>

datatype conn_event =
    DoRead rd_op
  | DoWrite wr_op
  | DoEvents "32 word" nat tp_error "tp_error + shm_fds"
  | DoReact token
  | DoSetId string
  | DoClose

fun conn_task :: "conn_event \<Rightarrow> shm_conn \<Rightarrow> shm_mem \<Rightarrow> shm_ret" where
  "conn_task (DoRead op) c mem = conn_readFromLoop (shm_readImplFromLoop op) (rd_fn op) c mem"
| "conn_task (DoWrite op) c mem = conn_writeFromLoop (shm_writeImplFromLoop op) (wr_fn op) c mem"
| "conn_task (DoEvents events reactor err received) c mem = handleEventsFromLoop events reactor err received c mem"
| "conn_task (DoReact t) c mem = react t c mem"
| "conn_task (DoSetId i) c mem = Inr (conn_setIdFromLoop i c, mem)"
| "conn_task DoClose c mem = Inr (conn_closeFromLoop id shm_handleErrorImpl c, mem)"

fun asked :: "conn_event \<Rightarrow> (nat + nat) multiset" where
  "asked (DoRead op) = {#Inl (rd_fn op)#}"
| "asked (DoWrite op) = {#Inr (wr_fn op)#}"
| "asked ev = {#}"

text \<open>A connection is initialized first. The memory is what the peer has made of it.\<close>

inductive conn_run :: "shm_conn \<Rightarrow> (nat + nat) multiset \<Rightarrow> bool" where
  conn_made: "c = ConnectionImpl_socket i \<or> c = ConnectionImpl_addr i a \<Longrightarrow>
    conn_initFromLoop closed (shm_initImplFromLoop io) c mem = Inr (c', mem') \<Longrightarrow> conn_run c' {#}"
| conn_stepped: "conn_run c given \<Longrightarrow> conn_task ev c mem = Inr (c', mem') \<Longrightarrow> conn_run c' (given + asked ev)"

section \<open>Accounting\<close>

definition pending_calls :: "shm_conn \<Rightarrow> (nat + nat) multiset" where
  "pending_calls c = mset (map (\<lambda>op. Inl (rd_fn op)) (readOperations c)) + mset (map (\<lambda>op. Inr (wr_fn op)) (writeOperations c))"

definition made_calls :: "shm_conn \<Rightarrow> (nat + nat) multiset" where
  "made_calls c = mset (map call_id (conn_calls c))"

definition account :: "shm_conn \<Rightarrow> (nat + nat) multiset" where
  "account c = made_calls c + pending_calls c"

definition failed_empty :: "shm_conn \<Rightarrow> bool" where
  "failed_empty c \<longleftrightarrow> (is_error (conn_error c) \<longrightarrow> readOperations c = [] \<and> writeOperations c = [])"

lemma handleRead_fn:
  assumes "handleRead i op ro r = Inr (n, op', ro', r', calls)"
  shows "rd_fn op' = rd_fn op" "map call_id calls = (if rd_completed op' then [Inl (rd_fn op)] else [])"
proof -
  obtain n1 op2 ro1 r1 ro2 r2 n2 ro3 r3 where l: "rd_length_phase i op ro1 r1 = Inr (n1, op2, ro2, r2)"
    and p: "rd_payload_phase i op2 ro2 r2 = Inr (n2, op', ro3, r3)"
    and c: "calls = (if rd_completed op' then [ReadCall (rd_fn op') Success (rd_buf op')] else [])"
    using assms by (auto simp: handleRead_def bindR_eq_Inr not_Inl_unit split: sum.split_asm)
  have "rd_fn op2 = rd_fn op"
    using l by (cases "readInTx False i 4 ro1 r1")
      (auto simp: rd_length_phase_def dcheck_eq_Inr Let_def split: if_split_asm sum.split_asm prod.split_asm)
  moreover have "rd_fn op' = rd_fn op2"
    using p by (cases "case rd_nop op2 of Some p \<Rightarrow> readNopObject i p (rd_len op2) ro2 r2 | None \<Rightarrow> readInTx True i (rd_len op2 - rd_bytesRead op2) ro2 r2")
      (auto simp: rd_payload_phase_def Let_def simp del: option.case split: if_split_asm sum.split_asm prod.split_asm)
  ultimately show "rd_fn op' = rd_fn op" by simp
  then show "map call_id calls = (if rd_completed op' then [Inl (rd_fn op)] else [])" using c by simp
qed

lemma handleWrite_fn:
  assumes "handleWrite i op ro r = Inr (n, op', ro', r', calls)"
  shows "wr_fn op' = wr_fn op" "map call_id calls = (if wr_completed op' then [Inr (wr_fn op)] else [])"
proof -
  obtain n1 op2 ro1 r1 ro2 r2 n2 ro3 r3 where l: "wr_length_phase i op ro1 r1 = Inr (n1, op2, ro2, r2)"
    and p: "wr_payload_phase i op2 ro2 r2 = Inr (n2, op', ro3, r3)"
    and c: "calls = (if wr_completed op' then [WriteCall (wr_fn op') Success] else [])"
    using assms by (auto simp: handleWrite_def bindR_eq_Inr not_Inl_unit split: sum.split_asm)
  have "wr_fn op2 = wr_fn op"
    using l by (cases "writeInTx False i (bytes_of_length (ucast (wr_len op))) 4 ro1 r1")
      (auto simp: wr_length_phase_def split: if_split_asm sum.split_asm prod.split_asm)
  moreover have "wr_fn op' = wr_fn op2"
    using p by (cases "case wr_nop op2 of Some p \<Rightarrow> writeNopObject i p (wr_len op2) ro2 r2
        | None \<Rightarrow> writeInTx True i (drop (unat (wr_bytesWritten op2)) (wr_src op2)) (wr_len op2 - wr_bytesWritten op2) ro2 r2")
      (auto simp: wr_payload_phase_def Let_def simp del: option.case split: if_split_asm sum.split_asm prod.split_asm)
  ultimately show "wr_fn op' = wr_fn op" by simp
  then show "map call_id calls = (if wr_completed op' then [Inr (wr_fn op)] else [])" using c by simp
qed

lemma process_reads_account:
  assumes "process_reads i ops ro r = Inr (effs, ops', r')"
  shows "map call_id (calls_of effs) @ map (\<lambda>op. Inl (rd_fn op)) ops' = map (\<lambda>op. Inl (rd_fn op)) ops"
  using assms
proof (induction ops arbitrary: ro r effs)
  case (Cons op ops)
  then obtain n op1 ro1 r1 calls where h: "handleRead i op ro r = Inr (n, op1, ro1, r1, calls)" by (auto simp: bindR_eq_Inr)
  note fn = handleRead_fn [OF h]
  show ?case
  proof (cases "rd_completed op1")
    case True
    then obtain effs' where "process_reads i ops ro1 r1 = Inr (effs', ops', r')"
      "effs = map Called calls @ (if n > 0 then [TriggerPeer] else []) @ effs'"
      using Cons.prems h by (auto simp: bindR_eq_Inr Let_def)
    then show ?thesis using Cons.IH fn True by auto
  next
    case False
    then show ?thesis using Cons.prems h fn by (auto simp: Let_def throw_assert_if_eq_Inr)
  qed
qed (simp add: throw_assert_if_eq_Inr)

lemma process_writes_account:
  assumes "process_writes i ops ro r = Inr (effs, ops', r')"
  shows "map call_id (calls_of effs) @ map (\<lambda>op. Inr (wr_fn op)) ops' = map (\<lambda>op. Inr (wr_fn op)) ops"
  using assms
proof (induction ops arbitrary: ro r effs)
  case (Cons op ops)
  then obtain n op1 ro1 r1 calls where h: "handleWrite i op ro r = Inr (n, op1, ro1, r1, calls)" by (auto simp: bindR_eq_Inr)
  note fn = handleWrite_fn [OF h]
  show ?case
  proof (cases "wr_completed op1")
    case True
    then obtain effs' where "process_writes i ops ro1 r1 = Inr (effs', ops', r')"
      "effs = map Called calls @ (if n > 0 then [TriggerPeer] else []) @ effs'"
      using Cons.prems h by (auto simp: bindR_eq_Inr Let_def)
    then show ?thesis using Cons.IH fn True by auto
  next
    case False
    then show ?thesis using Cons.prems h fn by (auto simp: Let_def throw_assert_if_eq_Inr)
  qed
qed (simp add: throw_assert_if_eq_Inr)

lemma account_simps [simp]:
  "account (conn_logs es c) = account c + mset (map call_id (effect_calls es))"
  "account (c\<lparr>nextBufferBeingRead := n\<rparr>) = account c" "account (c\<lparr>nextBufferBeingWritten := n\<rparr>) = account c"
  "account (c\<lparr>conn_error := e\<rparr>) = account c" "account (c\<lparr>conn_id := x\<rparr>) = account c" "account (c\<lparr>shm_state := st\<rparr>) = account c"
  "account (c\<lparr>shm_socket := so\<rparr>) = account c" "account (c\<lparr>inboxRb := ib\<rparr>) = account c" "account (c\<lparr>outboxRb := ob\<rparr>) = account c"
  "account (c\<lparr>inboxReactorToken := it\<rparr>) = account c" "account (c\<lparr>outboxReactorToken := ot\<rparr>) = account c"
  "account (c\<lparr>peerReactorTrigger := pt\<rparr>) = account c" "account (c\<lparr>peerInboxReactorToken := pi\<rparr>) = account c"
  "account (c\<lparr>peerOutboxReactorToken := po\<rparr>) = account c"
  "account (c\<lparr>nextBufferBeingRead := n, readOperations := readOperations c @ [rop]\<rparr>) = add_mset (Inl (rd_fn rop)) (account c)"
  "account (c\<lparr>nextBufferBeingWritten := n, writeOperations := writeOperations c @ [wop]\<rparr>) = add_mset (Inr (wr_fn wop)) (account c)"
  by (simp_all add: account_def made_calls_def pending_calls_def conn_calls_def conn_logs_def)

lemma shm_effects_ids: "shm_effects trigger tok effs = Inr es \<Longrightarrow> effect_calls es = calls_of effs"
  by (induction effs arbitrary: es rule: calls_of.induct) (fastforce simp: shm_effects_def split: if_split_asm)+

lemma process_account:
  "processReadOperationsFromLoop c mem = Inr (c', mem') \<Longrightarrow> account c' = account c \<and> conn_error c' = conn_error c \<and> (failed_empty c \<longrightarrow> failed_empty c')"
  "processWriteOperationsFromLoop c mem = Inr (c', mem') \<Longrightarrow> account c' = account c \<and> conn_error c' = conn_error c \<and> (failed_empty c \<longrightarrow> failed_empty c')"
proof -
  show "account c' = account c \<and> conn_error c' = conn_error c \<and> (failed_empty c \<longrightarrow> failed_empty c')"
    if run: "processReadOperationsFromLoop c mem = Inr (c', mem')"
  proof (cases "shm_state c = ESTABLISHED")
    case True
    then obtain r effs ops r' es where p: "process_reads 0 (readOperations c) RingBufferRole r = Inr (effs, ops, r')"
      and e: "shm_effects (peerReactorTrigger c) (peerOutboxReactorToken c) effs = Inr es" and c': "c' = (conn_logs es c)\<lparr>readOperations := ops\<rparr>"
      using run by (auto simp: processReadOperationsFromLoop_def mapped_ring_def bindR_eq_Inr split: option.split_asm)
    have "mset (map call_id (calls_of effs)) + mset (map (\<lambda>op. Inl (rd_fn op)) ops) = mset (map (\<lambda>op. Inl (rd_fn op)) (readOperations c))"
      using process_reads_account [OF p] by (metis mset_append)
    then have "account c' = account c"
      by (simp add: c' account_def made_calls_def pending_calls_def shm_effects_ids [OF e] conn_calls_def conn_logs_def ac_simps)
    moreover have "ops = []" if "readOperations c = []" using process_reads_account [OF p] that by simp
    ultimately show ?thesis by (auto simp: c' failed_empty_def)
  qed (use run in \<open>simp add: processReadOperationsFromLoop_def\<close>)
  show "account c' = account c \<and> conn_error c' = conn_error c \<and> (failed_empty c \<longrightarrow> failed_empty c')"
    if run: "processWriteOperationsFromLoop c mem = Inr (c', mem')"
  proof (cases "shm_state c = ESTABLISHED")
    case True
    then obtain r effs ops r' es where p: "process_writes 1 (writeOperations c) RingBufferRole r = Inr (effs, ops, r')"
      and e: "shm_effects (peerReactorTrigger c) (peerInboxReactorToken c) effs = Inr es" and c': "c' = (conn_logs es c)\<lparr>writeOperations := ops\<rparr>"
      using run by (auto simp: processWriteOperationsFromLoop_def mapped_ring_def bindR_eq_Inr split: option.split_asm)
    have "mset (map call_id (calls_of effs)) + mset (map (\<lambda>op. Inr (wr_fn op)) ops) = mset (map (\<lambda>op. Inr (wr_fn op)) (writeOperations c))"
      using process_writes_account [OF p] by (metis mset_append)
    then have "account c' = account c"
      by (simp add: c' account_def made_calls_def pending_calls_def shm_effects_ids [OF e] conn_calls_def conn_logs_def ac_simps)
    moreover have "ops = []" if "writeOperations c = []" using process_writes_account [OF p] that by simp
    ultimately show ?thesis by (auto simp: c' failed_empty_def)
  qed (use run in \<open>simp add: processWriteOperationsFromLoop_def\<close>)
qed

lemma setError_account:
  "account (shm_setError e c) = account c" "failed_empty c \<Longrightarrow> failed_empty (shm_setError e c)"
proof -
  let ?c = "c\<lparr>conn_error := e\<rparr>"
  define c2 where "c2 = conn_logs (map (\<lambda>op. Callback (rd_handleError e op)) (readOperations c) @
    map (\<lambda>op. Callback (wr_handleError e op)) (writeOperations c)) (?c\<lparr>readOperations := [], writeOperations := []\<rparr>)"
  have acc: "account c2 = account c"
    by (simp add: c2_def account_def made_calls_def pending_calls_def conn_calls_def conn_logs_def rd_handleError_def wr_handleError_def comp_def ac_simps)
  have h: "account (shm_handleErrorImpl ?c) = account c2 \<and> readOperations (shm_handleErrorImpl ?c) = [] \<and> writeOperations (shm_handleErrorImpl ?c) = []"
    unfolding shm_handleErrorImpl_def c2_def
    by (auto simp: Let_def account_def made_calls_def pending_calls_def conn_calls_def conn_logs_def multiset.map_comp split: option.splits)
  show "account (shm_setError e c) = account c" "failed_empty c \<Longrightarrow> failed_empty (shm_setError e c)"
    using acc h by (simp_all add: shm_setError_def conn_setError_def failed_empty_def)
qed

lemma failed_empty_simps [simp]:
  "failed_empty (conn_logs es c) = failed_empty c" "failed_empty (c\<lparr>shm_socket := so\<rparr>) = failed_empty c"
  "failed_empty (c\<lparr>shm_state := st\<rparr>) = failed_empty c" "failed_empty (c\<lparr>outboxRb := ob\<rparr>) = failed_empty c"
  "failed_empty (c\<lparr>inboxRb := ib\<rparr>) = failed_empty c" "failed_empty (c\<lparr>inboxReactorToken := it\<rparr>) = failed_empty c"
  "failed_empty (c\<lparr>outboxReactorToken := ot\<rparr>) = failed_empty c" "failed_empty (c\<lparr>peerReactorTrigger := pt\<rparr>) = failed_empty c"
  "failed_empty (c\<lparr>peerInboxReactorToken := pi\<rparr>) = failed_empty c" "failed_empty (c\<lparr>peerOutboxReactorToken := po\<rparr>) = failed_empty c"
  "failed_empty (c\<lparr>nextBufferBeingRead := n\<rparr>) = failed_empty c" "failed_empty (c\<lparr>nextBufferBeingWritten := n\<rparr>) = failed_empty c"
  "failed_empty (c\<lparr>conn_id := x\<rparr>) = failed_empty c"
  by (simp_all add: failed_empty_def)

lemma init_account:
  assumes "shm_initImplFromLoop io c mem = Inr (c', mem')" and "failed_empty c"
  shows "account c' = account c \<and> failed_empty c'"
proof -
  let ?c1 = "conn_logs [Effect EnrollConnection] c" 
  have s: "account (shm_openSocket io ?c1) = account c \<and> failed_empty (shm_openSocket io ?c1)"
    using assms(2) by (simp add: shm_openSocket_def Let_def setError_account)
  show ?thesis using assms(1) s
    by (auto simp: shm_initImplFromLoop_def Let_def dcheck_eq_Inr throw_assert_if_eq_Inr bindR_eq_Inr setError_account split: if_split_asm)
qed

lemma events_account:
  assumes "handleEventsFromLoop events reactor err received c mem = Inr (c', mem')" and "failed_empty c"
  shows "account c' = account c \<and> failed_empty c'"
proof -
  have i: "account c1 = account c \<and> failed_empty c1" if "handleEventInFromLoop received c mem = Inr (c1, mem1)" for c1 mem1
    using that assms(2)
    by (auto simp: handleEventInFromLoop_def Let_def bindR_eq_Inr throw_assert_if_eq_Inr setError_account
        dest!: process_account split: if_split_asm sum.split_asm)
  have o: "account c1 = account c \<and> failed_empty c1" if "handleEventOutFromLoop reactor err c = Inr c1" for c1
    using that assms(2) by (auto simp: handleEventOutFromLoop_def setError_account split: if_split_asm option.split_asm)
  show ?thesis using assms i o
    by (auto simp: handleEventsFromLoop_def bindR_eq_Inr setError_account split: if_split_asm)
qed

lemma conn_task_account:
  assumes "conn_task ev c mem = Inr (c', mem')" and "failed_empty c"
  shows "account c' = account c + asked ev \<and> failed_empty c'"
proof (cases ev)
  case (DoRead op)
  then show ?thesis using assms
    by (auto simp: conn_readFromLoop_def shm_readImplFromLoop_def Let_def failed_empty_def dest!: process_account split: if_split_asm)
next
  case (DoWrite op)
  then show ?thesis using assms
    by (auto simp: conn_writeFromLoop_def shm_writeImplFromLoop_def Let_def failed_empty_def dest!: process_account split: if_split_asm)
next
  case (DoEvents events reactor err received)
  then show ?thesis using assms events_account by auto
next
  case (DoReact t)
  then show ?thesis using assms by (auto simp: react_def dest!: process_account split: if_split_asm)
next
  case (DoSetId i)
  then show ?thesis using assms by (auto simp: conn_setIdFromLoop_def)
next
  case DoClose
  then show ?thesis using assms setError_account [where e = ConnectionClosedError and c = c] by (auto simp: conn_closeFromLoop_def shm_setError_def)
qed

lemma conn_run_account: "conn_run c given \<Longrightarrow> account c = given \<and> failed_empty c"
proof (induction rule: conn_run.induct)
  case (conn_made c i a closed io mem c' mem')
  have c: "account c = {#}" "failed_empty c" "readOperations c = []" "writeOperations c = []"
    using conn_made(1) by (auto simp: account_def made_calls_def pending_calls_def conn_calls_def failed_empty_def ConnectionImpl_socket_def
        ConnectionImpl_addr_def shm_new_def)
  then show ?case using conn_made(2) init_account [of io c mem c' mem']
    by (auto simp: conn_initFromLoop_def failed_empty_def split: if_split_asm)
next
  case (conn_stepped c given ev mem c' mem')
  then show ?case using conn_task_account by blast
qed

section \<open>Properties\<close>

text \<open>
  C19: a connection over shared memory calls each callback at most once, and, once it has failed or
  has been closed, has called every callback that it was given exactly once, including those that
  it is given afterwards. This holds for all behaviour of its peer and of the system.
\<close>

theorem shm_callbacks_once:
  assumes "conn_run c given"
  shows "mset (map call_id (conn_calls c)) \<subseteq># given \<and> (is_error (conn_error c) \<longrightarrow> mset (map call_id (conn_calls c)) = given)"
  using conn_run_account [OF assms] by (auto simp: account_def made_calls_def failed_empty_def pending_calls_def)

theorem shm_callbacks_once_witness:
  "\<exists>c :: shm_conn. conn_error c = ConnectionClosedError \<and> mset (map call_id (conn_calls c)) = {#Inl 3, Inr 4, Inl 5#}"
proof -
  define io where "io = \<lparr>io_create = Success, io_connect = Success, io_block = Success, io_ring = Success, io_segment = 0, io_contents = [],
    io_inbox_token = 0, io_outbox_token = 1\<rparr>"
  obtain r where r: "RingBufferHeader kNumRingbufferRoles kBufferSize [] = Inr r"
    by (simp add: RingBufferHeader_def nextPow2_def smear_def kBufferSize_def isPow2_def Let_def)
  obtain c mem where c: "conn_initFromLoop False (shm_initImplFromLoop io) (ConnectionImpl_socket ''c'') (\<lambda>_. None) = Inr (c, mem)"
    and e: "conn_error c = Success" "shm_state c = SEND_FDS" "readOperations c = []" "writeOperations c = []" "nextBufferBeingRead c = 0"
    by (simp add: conn_initFromLoop_def shm_initImplFromLoop_def shm_openSocket_def ConnectionImpl_socket_def shm_new_def io_def r)
  have run0: "conn_run c {#}" by (rule conn_made [OF _ c, of "''c''"]) simp
  define c1 where "c1 = c\<lparr>nextBufferBeingRead := 1, readOperations := [RingbufferReadOperation_alloc 3]\<rparr>"
  have "conn_task (DoRead (RingbufferReadOperation_alloc 3)) c mem = Inr (c1, mem)"
    using e by (simp add: c1_def conn_readFromLoop_def shm_readImplFromLoop_def processReadOperationsFromLoop_def)
  from conn_stepped [OF run0 this] have run1: "conn_run c1 {#Inl 3#}" by (simp add: RingbufferReadOperation_alloc_def)
  define c2 where "c2 = c1\<lparr>nextBufferBeingWritten := nextBufferBeingWritten c1 + 1, writeOperations := [RingbufferWriteOperation_ptr [1] 1 4]\<rparr>"
  have "conn_task (DoWrite (RingbufferWriteOperation_ptr [1] 1 4)) c1 mem = Inr (c2, mem)"
    using e by (simp add: c2_def c1_def conn_writeFromLoop_def shm_writeImplFromLoop_def processWriteOperationsFromLoop_def)
  from conn_stepped [OF run1 this] have run2: "conn_run c2 {#Inl 3, Inr 4#}" by (simp add: RingbufferWriteOperation_ptr_def add_mset_commute)
  define c3 where "c3 = conn_closeFromLoop id shm_handleErrorImpl c2"
  from conn_stepped [OF run2, of DoClose mem c3 mem] have run3: "conn_run c3 {#Inl 3, Inr 4#}" by (simp add: c3_def)
  have e3: "conn_error c3 = ConnectionClosedError"
    using e by (auto simp: c3_def c2_def c1_def conn_closeFromLoop_def conn_setError_def shm_handleErrorImpl_def Let_def split: option.splits)
  define c4 where "c4 = conn_logs [Callback (ReadCall 5 (conn_error c3) [])] (c3\<lparr>nextBufferBeingRead := nextBufferBeingRead c3 + 1\<rparr>)"
  have "conn_task (DoRead (RingbufferReadOperation_alloc 5)) c3 mem = Inr (c4, mem)"
    using e3 by (simp add: c4_def conn_readFromLoop_def RingbufferReadOperation_alloc_def)
  from conn_stepped [OF run3 this] have "conn_run c4 {#Inl 3, Inr 4, Inl 5#}" by (simp add: RingbufferReadOperation_alloc_def add_mset_commute)
  from shm_callbacks_once [OF this] e3 show ?thesis by (intro exI [of _ c4]) (simp add: c4_def)
qed

end
