(* ===== verification/Stream_Ops.thy ===== *)
theory Stream_Ops
  imports Connection_Boilerplate
begin

text \<open>
  Messages over a stream of bytes (\<^verbatim>\<open>tensorpipe/common/stream_read_write_ops.h\<close>): each is preceded by
  its length, and may be read in pieces of any size. A read operation gives out the memory in
  which the next bytes are to be put, and is then told how many there were.
\<close>

section \<open>Read operations\<close>

text \<open>A \<^verbatim>\<open>size_t\<close> in memory.\<close>

definition bytes_of_size :: "64 word \<Rightarrow> byte list" where
  "bytes_of_size w = map (\<lambda>k. ucast (drop_bit (8 * k) w)) [0..<8]"

fun size_of_bytes :: "byte list \<Rightarrow> 64 word" where
  "size_of_bytes [] = 0"
| "size_of_bytes (b # bs) = or (ucast b) (push_bit 8 (size_of_bytes bs))"

datatype stream_mode = READ_LENGTH | READ_PAYLOAD | COMPLETE

text \<open>
  The memory of \<^verbatim>\<open>readLength_\<close>, and the memory at \<^verbatim>\<open>ptr_\<close>, if there is some: the user's, or one that is
  allocated when the length is known.
\<close>

record stream_read =
  sr_mode :: stream_mode
  sr_ptr :: "byte list option"
  sr_givenLength :: "64 word option"
  sr_lengthMem :: "byte list"
  sr_bytesRead :: "64 word"
  sr_fn :: read_fn

definition sr_readLength :: "stream_read \<Rightarrow> 64 word" where
  "sr_readLength op = size_of_bytes (sr_lengthMem op)"

definition StreamReadOperation :: "read_fn \<Rightarrow> stream_read" where
  "StreamReadOperation fn = \<lparr>sr_mode = READ_LENGTH, sr_ptr = None, sr_givenLength = None, sr_lengthMem = replicate 8 0,
     sr_bytesRead = 0, sr_fn = fn\<rparr>"

definition StreamReadOperation_ptr :: "byte list option \<Rightarrow> 64 word \<Rightarrow> read_fn \<Rightarrow> stream_read" where
  "StreamReadOperation_ptr ptr len fn = \<lparr>sr_mode = READ_LENGTH, sr_ptr = ptr, sr_givenLength = Some len, sr_lengthMem = replicate 8 0,
     sr_bytesRead = 0, sr_fn = fn\<rparr>"

text \<open>The length of the memory that is given out.\<close>

definition allocFromLoop :: "stream_read \<Rightarrow> 64 word result" where
  "allocFromLoop op =
     (case sr_mode op of
        READ_LENGTH \<Rightarrow> dcheck (sr_bytesRead op < 8) (Inr (8 - sr_bytesRead op))
      | READ_PAYLOAD \<Rightarrow> dcheck (sr_bytesRead op < sr_readLength op) (dcheck (sr_ptr op \<noteq> None) (Inr (sr_readLength op - sr_bytesRead op)))
      | COMPLETE \<Rightarrow> Inl AssertFailed)"

text \<open>The bytes that are put there: into the length, or into the payload.\<close>

definition put_at :: "nat \<Rightarrow> byte list \<Rightarrow> byte list \<Rightarrow> byte list" where
  "put_at k bs mem = take k mem @ bs @ drop (k + length bs) mem"

definition stream_store :: "byte list \<Rightarrow> stream_read \<Rightarrow> stream_read" where
  "stream_store bs op =
     (if sr_mode op = READ_LENGTH then op\<lparr>sr_lengthMem := put_at (unat (sr_bytesRead op)) bs (sr_lengthMem op)\<rparr>
      else op\<lparr>sr_ptr := map_option (put_at (unat (sr_bytesRead op)) bs) (sr_ptr op)\<rparr>)"

definition stream_readFromLoop :: "64 word \<Rightarrow> stream_read \<Rightarrow> stream_read result" where
  "stream_readFromLoop nread op0 =
     (let op = op0\<lparr>sr_bytesRead := sr_bytesRead op0 + nread\<rparr> in
      case sr_mode op of
        READ_LENGTH \<Rightarrow>
          dcheck (sr_bytesRead op \<le> 8)
            (if sr_bytesRead op = 8
             then bindR (case sr_givenLength op of
                      Some given \<Rightarrow> dcheck (sr_ptr op \<noteq> None \<or> given = 0) (dcheck (sr_readLength op = given) (Inr op))
                    | None \<Rightarrow> dcheck (sr_ptr op = None) (Inr (op\<lparr>sr_ptr := Some (replicate (unat (sr_readLength op)) 0)\<rparr>)))
                  (\<lambda>op'. Inr (op'\<lparr>sr_mode := (if sr_readLength op' = 0 then COMPLETE else READ_PAYLOAD), sr_bytesRead := 0\<rparr>))
             else Inr op)
      | READ_PAYLOAD \<Rightarrow>
          dcheck (sr_bytesRead op \<le> sr_readLength op)
            (Inr (if sr_bytesRead op = sr_readLength op then op\<lparr>sr_mode := COMPLETE\<rparr> else op))
      | COMPLETE \<Rightarrow> Inl AssertFailed)"

definition completeFromLoop :: "stream_read \<Rightarrow> bool" where
  "completeFromLoop op \<longleftrightarrow> sr_mode op = COMPLETE"

text \<open>
  The callback is given the memory and its length. With an error they mean nothing, since the
  message may have come in part; such a call is recorded without contents.
\<close>

definition read_callbackFromLoop :: "tp_error \<Rightarrow> stream_read \<Rightarrow> rb_call result" where
  "read_callbackFromLoop e op =
     call_read_fn (sr_fn op) e (if is_error e then [] else take (unat (sr_readLength op)) (case sr_ptr op of None \<Rightarrow> [] | Some mem \<Rightarrow> mem))"

section \<open>Write operations\<close>

record stream_write =
  sw_ptr :: "byte list"
  sw_length :: "64 word"
  sw_fn :: nat

definition StreamWriteOperation :: "byte list \<Rightarrow> 64 word \<Rightarrow> nat \<Rightarrow> stream_write" where
  "StreamWriteOperation ptr len fn = \<lparr>sw_ptr = ptr, sw_length = len, sw_fn = fn\<rparr>"

definition getBufs :: "stream_write \<Rightarrow> byte list list" where
  "getBufs op = (let bufs = [bytes_of_size (sw_length op), take (unat (sw_length op)) (sw_ptr op)]
     in take (if sw_length op = 0 then 1 else 2) bufs)"

definition write_callbackFromLoop :: "tp_error \<Rightarrow> stream_write \<Rightarrow> rb_call" where
  "write_callbackFromLoop e op = WriteCall (sw_fn op) e"

section \<open>The length on the wire\<close>

lemma bit_size_of_bytes: "bit (size_of_bytes bs) i \<longleftrightarrow> i < 64 \<and> i div 8 < length bs \<and> bit (bs ! (i div 8)) (i mod 8)"
proof (induction bs arbitrary: i)
  case (Cons b bs)
  show ?case
  proof (cases "i < 8")
    case True
    then show ?thesis by (auto simp: bit_or_iff bit_push_bit_iff bit_unsigned_iff)
  next
    case False
    then have d: "i div 8 = Suc ((i - 8) div 8)" "(i - 8) mod 8 = i mod 8" by (simp_all add: le_div_geq le_mod_geq)
    have b: "\<not> bit b i" using False by (auto simp: bit_word.rep_eq bit_take_bit_iff dest: bit_imp_le_length)
    have "bit (size_of_bytes (b # bs)) i \<longleftrightarrow> i < 64 \<and> bit (size_of_bytes bs) (i - 8)"
      using False b by (auto simp: bit_or_iff bit_push_bit_iff bit_unsigned_iff dest: bit_imp_le_length)
    also have "\<dots> \<longleftrightarrow> i < 64 \<and> i div 8 < length (b # bs) \<and> bit ((b # bs) ! (i div 8)) (i mod 8)"
      using Cons.IH [of "i - 8"] d by auto
    finally show ?thesis .
  qed
qed simp

lemma size_of_bytes_of_size: "size_of_bytes (bytes_of_size w) = w"
proof (rule bit_word_eqI)
  fix i
  assume "i < LENGTH(64)"
  then have i: "i < 64" "i div 8 < 8" by simp_all
  have "bytes_of_size w ! (i div 8) = ucast (drop_bit (8 * (i div 8)) w)" using i by (simp add: bytes_of_size_def)
  then show "bit (size_of_bytes (bytes_of_size w)) i = bit w i"
    using i by (simp add: bit_size_of_bytes bytes_of_size_def bit_unsigned_iff bit_drop_bit_eq)
qed

lemma length_bytes_of_size [simp]: "length (bytes_of_size w) = 8"
  by (simp add: bytes_of_size_def)

end
