(* ===== verification/Uv_Connection.thy ===== *)
theory Uv_Connection
  imports Stream_Ops
begin

text \<open>
  The connection over TCP of \<^verbatim>\<open>tensorpipe/transport/uv/connection_impl.cc\<close>, on top of the handle of
  libuv as \<^verbatim>\<open>tensorpipe/transport/uv/uv.h\<close> wraps it. What the calls of libuv return is an argument
  (negative for an error, which is thrown).
\<close>

section \<open>The handle\<close>

record uv_handle =
  closeCallback :: bool
  allocCallback :: bool
  readCallback :: bool
  h_reading :: bool
  h_closing :: bool

definition uv_new_handle :: uv_handle where
  "uv_new_handle = \<lparr>closeCallback = False, allocCallback = False, readCallback = False, h_reading = False, h_closing = False\<rparr>"

definition throw_uv_if :: "int \<Rightarrow> 'a result \<Rightarrow> 'a result" where
  "throw_uv_if rv k = (if rv < 0 then Inl (SystemFault rv) else k)"

definition armCloseCallbackFromLoop :: "uv_handle \<Rightarrow> uv_handle result" where
  "armCloseCallbackFromLoop h = throw_assert_if (closeCallback h) (Inr (h\<lparr>closeCallback := True\<rparr>))"

definition armAllocCallbackFromLoop :: "uv_handle \<Rightarrow> uv_handle result" where
  "armAllocCallbackFromLoop h = throw_assert_if (allocCallback h) (Inr (h\<lparr>allocCallback := True\<rparr>))"

definition armReadCallbackFromLoop :: "uv_handle \<Rightarrow> uv_handle result" where
  "armReadCallbackFromLoop h = throw_assert_if (readCallback h) (Inr (h\<lparr>readCallback := True\<rparr>))"

definition readStartFromLoop :: "int \<Rightarrow> uv_handle \<Rightarrow> uv_handle result" where
  "readStartFromLoop rv h = throw_assert_if (\<not> allocCallback h) (throw_assert_if (\<not> readCallback h) (throw_uv_if rv (Inr (h\<lparr>h_reading := True\<rparr>))))"

definition readStopFromLoop :: "int \<Rightarrow> uv_handle \<Rightarrow> uv_handle result" where
  "readStopFromLoop rv h = throw_uv_if rv (Inr (h\<lparr>h_reading := False\<rparr>))"

text \<open>Closing a handle also stops reading.\<close>

definition handle_closeFromLoop :: "uv_handle \<Rightarrow> uv_handle result" where
  "handle_closeFromLoop h = dcheck (\<not> h_closing h) (Inr (h\<lparr>h_closing := True, h_reading := False\<rparr>))"

section \<open>State\<close>

datatype uv_effect = UvEnroll | UvUnenroll | UvInit | UvConnect string | UvWrite "byte list list" | UvClose

record uv_conn = "uv_effect conn_core" +
  handle :: uv_handle
  uv_sockaddr :: "string option"
  uv_reads :: "stream_read list"
  uv_writes :: "stream_write list"

type_synonym uv_ret = "(uv_conn \<times> unit) result"

definition uv_new :: "string \<Rightarrow> string option \<Rightarrow> uv_conn" where
  "uv_new i addr = \<lparr>conn_id = i, conn_error = Success, nextBufferBeingRead = 0, nextBufferBeingWritten = 0, conn_log = [],
     handle = uv_new_handle, uv_sockaddr = addr, uv_reads = [], uv_writes = []\<rparr>"

definition UvConnectionImpl_handle :: "string \<Rightarrow> uv_conn" where
  "UvConnectionImpl_handle i = uv_new i None"

definition UvConnectionImpl_addr :: "string \<Rightarrow> string \<Rightarrow> uv_conn" where
  "UvConnectionImpl_addr i a = uv_new i (Some a)"

definition uv_logs :: "uv_effect list \<Rightarrow> uv_conn \<Rightarrow> uv_conn" where
  "uv_logs es c = conn_logs (map Effect es) c"

section \<open>Errors\<close>

definition uv_failed_reads :: "tp_error \<Rightarrow> stream_read list \<Rightarrow> rb_call list result" where
  "uv_failed_reads e ops = foldr (\<lambda>op res. bindR (read_callbackFromLoop e op) (\<lambda>cl. bindR res (\<lambda>cls. Inr (cl # cls)))) ops (Inr [])"

definition uv_handleErrorImpl :: "uv_conn \<Rightarrow> uv_conn result" where
  "uv_handleErrorImpl c =
     bindR (uv_failed_reads (conn_error c) (uv_reads c)) (\<lambda>cls.
       let c1 = (conn_logs (map Callback cls) c)\<lparr>uv_reads := []\<rparr>
       in bindR (handle_closeFromLoop (handle c1)) (\<lambda>h. Inr (uv_logs [UvClose] (c1\<lparr>handle := h\<rparr>))))"

definition uv_setError :: "tp_error \<Rightarrow> uv_conn \<Rightarrow> uv_conn result" where
  "uv_setError = conn_setError Inr uv_handleErrorImpl"

definition uv_error :: tp_error where
  "uv_error = OtherError ''UVError''"

section \<open>Entry points\<close>

definition uv_initImplFromLoop :: "bool \<Rightarrow> int \<Rightarrow> int \<Rightarrow> uv_conn \<Rightarrow> unit \<Rightarrow> uv_ret" where
  "uv_initImplFromLoop context_closed rv_init rv_connect c0 u =
     (let c1 = uv_logs [UvEnroll] c0 in
      bindR (case uv_sockaddr c1 of
               None \<Rightarrow> Inr c1
             | Some a \<Rightarrow> throw_assert_if context_closed (throw_uv_if rv_init (throw_uv_if rv_connect (Inr (uv_logs [UvInit, UvConnect a] c1))))) (\<lambda>c2.
      bindR (armCloseCallbackFromLoop (handle c2)) (\<lambda>h1.
      bindR (armAllocCallbackFromLoop h1) (\<lambda>h2.
      bindR (armReadCallbackFromLoop h2) (\<lambda>h3. Inr (c2\<lparr>handle := h3\<rparr>, u))))))"

text \<open>The callback of the request to connect.\<close>

definition uv_connectCallback :: "int \<Rightarrow> uv_conn \<Rightarrow> uv_conn result" where
  "uv_connectCallback status c = (if status < 0 then uv_setError uv_error c else Inr c)"

definition uv_startReading :: "int \<Rightarrow> stream_read \<Rightarrow> uv_conn \<Rightarrow> unit \<Rightarrow> uv_ret" where
  "uv_startReading rv op c u =
     (let c1 = c\<lparr>uv_reads := uv_reads c @ [op]\<rparr>
      in if length (uv_reads c1) = 1 then bindR (readStartFromLoop rv (handle c1)) (\<lambda>h. Inr (c1\<lparr>handle := h\<rparr>, u)) else Inr (c1, u))"

definition uv_readImplFromLoop :: "int \<Rightarrow> read_fn \<Rightarrow> uv_conn \<Rightarrow> unit \<Rightarrow> uv_ret" where
  "uv_readImplFromLoop rv fn = uv_startReading rv (StreamReadOperation fn)"

definition uv_readImplFromLoop_ptr :: "int \<Rightarrow> byte list option \<Rightarrow> 64 word \<Rightarrow> nat \<Rightarrow> uv_conn \<Rightarrow> unit \<Rightarrow> uv_ret" where
  "uv_readImplFromLoop_ptr rv ptr len fn = uv_startReading rv (StreamReadOperation_ptr ptr len (UserFn fn))"

definition uv_writeImplFromLoop :: "int \<Rightarrow> byte list \<Rightarrow> 64 word \<Rightarrow> nat \<Rightarrow> uv_conn \<Rightarrow> unit \<Rightarrow> uv_ret" where
  "uv_writeImplFromLoop rv ptr len fn c u =
     (let op = StreamWriteOperation ptr len fn;
          c1 = c\<lparr>uv_writes := uv_writes c @ [op]\<rparr>
      in throw_uv_if rv (Inr (uv_logs [UvWrite (getBufs op)] c1, u)))"

section \<open>Callbacks of libuv\<close>

definition allocCallbackFromLoop :: "uv_conn \<Rightarrow> 64 word result" where
  "allocCallbackFromLoop c = (case uv_reads c of [] \<Rightarrow> Inl AssertFailed | op # ops \<Rightarrow> allocFromLoop op)"

definition readCallbackFromLoop :: "int \<Rightarrow> int \<Rightarrow> uv_conn \<Rightarrow> uv_conn result" where
  "readCallbackFromLoop rv nread c =
     (if nread < 0 then uv_setError uv_error c
      else case uv_reads c of
             [] \<Rightarrow> Inl AssertFailed
           | op # ops \<Rightarrow>
               bindR (stream_readFromLoop (of_int nread) op) (\<lambda>op'.
                 if completeFromLoop op'
                 then bindR (read_callbackFromLoop Success op') (\<lambda>cl.
                        let c1 = (conn_logs [Callback cl] c)\<lparr>uv_reads := ops\<rparr>
                        in if ops = [] then bindR (readStopFromLoop rv (handle c1)) (\<lambda>h. Inr (c1\<lparr>handle := h\<rparr>)) else Inr c1)
                 else Inr (c\<lparr>uv_reads := op' # ops\<rparr>)))"

definition writeCallbackFromLoop :: "int \<Rightarrow> uv_conn \<Rightarrow> uv_conn result" where
  "writeCallbackFromLoop status c =
     bindR (if status < 0 then uv_setError uv_error c else Inr c) (\<lambda>c1.
       case uv_writes c1 of
         [] \<Rightarrow> Inl AssertFailed
       | op # ops \<Rightarrow> Inr ((conn_logs [Callback (write_callbackFromLoop (conn_error c1) op)] c1)\<lparr>uv_writes := ops\<rparr>))"

definition closeCallbackFromLoop :: "uv_conn \<Rightarrow> uv_conn result" where
  "closeCallbackFromLoop c = dcheck (uv_writes c = []) (Inr (uv_logs [UvUnenroll] c))"

text \<open>
  What libuv does when data have arrived: it asks for memory, puts the data there, as many as fit,
  and reports how many it has put.
\<close>

definition uv_data :: "int \<Rightarrow> byte list \<Rightarrow> uv_conn \<Rightarrow> (nat \<times> uv_conn) result" where
  "uv_data rv bytes c =
     bindR (allocCallbackFromLoop c) (\<lambda>len.
       let bs = take (unat len) bytes
       in bindR (readCallbackFromLoop rv (int (length bs)) (c\<lparr>uv_reads := stream_store bs (hd (uv_reads c)) # tl (uv_reads c)\<rparr>)) (\<lambda>c'.
            Inr (length bs, c')))"

end
