(* ===== verification/Uv_Delivery.thy ===== *)
theory Uv_Delivery
  imports Uv_Connection
begin

text \<open>
  Two connections over TCP: the bytes of one side arrive at the other in order, in pieces of any
  size and at any time, while reads and writes are asked for.
\<close>

section \<open>Reading one message\<close>

definition uframe :: "byte list \<Rightarrow> byte list" where
  "uframe m = bytes_of_size (of_nat (length m)) @ m"

abbreviation uframes :: "byte list list \<Rightarrow> byte list" where
  "uframes ms \<equiv> concat (map uframe ms)"

text \<open>The operation is one that reads a message, and it has come so far.\<close>

definition fn_accepts :: "read_fn \<Rightarrow> byte list \<Rightarrow> bool" where
  "fn_accepts fn m = (case fn of UserFn n \<Rightarrow> True | NopFn p n \<Rightarrow> parse p m = Inr NopNone)"

definition sr_expects :: "stream_read \<Rightarrow> byte list \<Rightarrow> bool" where
  "sr_expects op m \<longleftrightarrow> length m < 2 ^ 62 \<and> fn_accepts (sr_fn op) m \<and> length (sr_lengthMem op) = 8 \<and>
     (case sr_mode op of
        READ_LENGTH \<Rightarrow> unat (sr_bytesRead op) < 8 \<and>
          take (unat (sr_bytesRead op)) (sr_lengthMem op) = take (unat (sr_bytesRead op)) (bytes_of_size (of_nat (length m))) \<and>
          (case sr_givenLength op of None \<Rightarrow> sr_ptr op = None
           | Some g \<Rightarrow> g = of_nat (length m) \<and> (case sr_ptr op of None \<Rightarrow> m = [] | Some mem \<Rightarrow> length m \<le> length mem))
      | READ_PAYLOAD \<Rightarrow> sr_lengthMem op = bytes_of_size (of_nat (length m)) \<and> unat (sr_bytesRead op) < length m \<and>
          (case sr_ptr op of None \<Rightarrow> False | Some mem \<Rightarrow> length m \<le> length mem \<and>
             take (unat (sr_bytesRead op)) mem = take (unat (sr_bytesRead op)) m)
      | COMPLETE \<Rightarrow> sr_lengthMem op = bytes_of_size (of_nat (length m)) \<and>
          (case sr_ptr op of None \<Rightarrow> m = [] | Some mem \<Rightarrow> take (length m) mem = m))"

definition sr_left :: "stream_read \<Rightarrow> byte list \<Rightarrow> byte list" where
  "sr_left op m = (case sr_mode op of
     READ_LENGTH \<Rightarrow> drop (unat (sr_bytesRead op)) (bytes_of_size (of_nat (length m))) @ m
   | READ_PAYLOAD \<Rightarrow> drop (unat (sr_bytesRead op)) m
   | COMPLETE \<Rightarrow> [])"

lemma put_at_take:
  assumes "take k mem = take k xs" and "drop k xs = bs @ ys" and "k \<le> length mem" and "k \<le> length xs"
  shows "take (k + length bs) (put_at k bs mem) = take (k + length bs) xs"
proof -
  have "xs = take k xs @ bs @ ys" using assms(2) append_take_drop_id [of k xs] by simp
  then have "take (k + length bs) xs = take k xs @ bs" using assms(4)
    by (metis append_assoc append_eq_conv_conj length_append length_take min.absorb2)
  moreover have "take (k + length bs) (put_at k bs mem) = take k mem @ bs" using assms(3) by (simp add: put_at_def)
  ultimately show ?thesis using assms(1) by simp
qed

lemma length_put_at: "k + length bs \<le> length mem \<Longrightarrow> length (put_at k bs mem) = length mem"
  by (simp add: put_at_def)

lemma unat_of_length: "n < 2 ^ 62 \<Longrightarrow> unat (of_nat n :: 64 word) = n"
  by (rule unat_word_of_nat) simp

lemma unat_plus_small: "unat (w :: 64 word) + n < 2 ^ 62 \<Longrightarrow> unat (w + of_nat n) = unat w + n"
  using unat_of_length [of n] unat_of_length [of "unat w + n"] by (metis of_nat_add of_nat_unat ucast_id)

lemma chunk_length:
  assumes ex: "sr_expects op m" and mode: "sr_mode op = READ_LENGTH" and left: "sr_left op m = bs @ rest" and len: "length bs \<le> 8 - unat (sr_bytesRead op)"
  shows "\<exists>op'. stream_readFromLoop (of_nat (length bs)) (stream_store bs op) = Inr op' \<and> sr_expects op' m \<and> sr_left op' m = rest \<and> sr_fn op' = sr_fn op"
proof -
  let ?k = "unat (sr_bytesRead op)" and ?h = "bytes_of_size (of_nat (length m))" and ?mem = "put_at (unat (sr_bytesRead op)) bs (sr_lengthMem op)"
  have E: "?k < 8" "take ?k (sr_lengthMem op) = take ?k ?h" "length m < 2 ^ 62" "length (sr_lengthMem op) = 8" "fn_accepts (sr_fn op) m"
    using ex mode by (simp_all add: sr_expects_def)
  have split: "drop ?k ?h = bs @ drop (length bs) (drop ?k ?h)" "rest = drop (?k + length bs) ?h @ m"
  proof -
    have l: "drop ?k ?h @ m = bs @ rest" using left mode by (simp add: sr_left_def)
    have "length bs \<le> length (drop ?k ?h)" using len by simp
    then have "bs = take (length bs) (drop ?k ?h)" using arg_cong [OF l, of "take (length bs)"] by simp
    then show s: "drop ?k ?h = bs @ drop (length bs) (drop ?k ?h)" by (metis append_take_drop_id)
    show "rest = drop (?k + length bs) ?h @ m" using arg_cong [OF l, of "drop (length bs)"] len by (simp add: add.commute)
  qed
  have n: "unat (sr_bytesRead op + of_nat (length bs)) = ?k + length bs" using E(1) len by (intro unat_plus_small) simp
  have mem: "take (?k + length bs) ?mem = take (?k + length bs) ?h" "length ?mem = 8"
    using put_at_take [OF E(2) split(1)] length_put_at [of ?k bs "sr_lengthMem op"] E(1,4) len by simp_all
  let ?op = "op\<lparr>sr_lengthMem := ?mem, sr_bytesRead := sr_bytesRead op + of_nat (length bs)\<rparr>"
  have store: "stream_store bs op = op\<lparr>sr_lengthMem := ?mem\<rparr>" using mode by (simp add: stream_store_def)
  have eq8: "sr_bytesRead op + of_nat (length bs) = 8 \<longleftrightarrow> ?k + length bs = 8" and le8: "sr_bytesRead op + of_nat (length bs) \<le> 8"
    using n len E(1) by (simp_all add: word_unat_eq_iff word_le_nat_alt)
  show ?thesis
  proof (cases "?k + length bs = 8")
    case False
    then have "?k + length bs < 8" using len E(1) by simp
    then have "sr_expects ?op m" using ex mode mem n by (auto simp: sr_expects_def split: option.splits)
    moreover have "stream_readFromLoop (of_nat (length bs)) (stream_store bs op) = Inr ?op"
      using store mode False eq8 le8 by (simp add: stream_readFromLoop_def Let_def)
    moreover have "sr_left ?op m = rest" using split(2) mode n by (simp add: sr_left_def)
    ultimately show ?thesis by auto
  next
    case True
    then have h: "?mem = ?h" using mem by simp
    then have rl: "size_of_bytes ?mem = of_nat (length m)" by (simp add: size_of_bytes_of_size)
    define ptr where "ptr = (case sr_givenLength op of None \<Rightarrow> Some (replicate (length m) 0) | Some g \<Rightarrow> sr_ptr op)"
    let ?op' = "op\<lparr>sr_lengthMem := ?h, sr_ptr := ptr, sr_mode := if m = [] then COMPLETE else READ_PAYLOAD, sr_bytesRead := 0\<rparr>"
    have zero: "(of_nat (length m) :: 64 word) = 0 \<longleftrightarrow> m = []" using of_nat_word_eq_0 [of "length m", where 'a = 64] E(3) by simp
    have run: "stream_readFromLoop (of_nat (length bs)) (stream_store bs op) = Inr ?op'"
      using store mode True eq8 le8 ex rl zero unat_of_length [OF E(3)]
      by (auto simp: stream_readFromLoop_def Let_def sr_expects_def ptr_def h sr_readLength_def split: option.splits)
    have "sr_expects ?op' m" using ex mode E by (auto simp: sr_expects_def ptr_def split: option.splits)
    moreover have "sr_left ?op' m = rest" using split(2) True by (simp add: sr_left_def)
    ultimately show ?thesis using run by auto
  qed
qed

lemma chunk_payload:
  assumes ex: "sr_expects op m" and mode: "sr_mode op = READ_PAYLOAD" and left: "sr_left op m = bs @ rest"
  shows "\<exists>op'. stream_readFromLoop (of_nat (length bs)) (stream_store bs op) = Inr op' \<and> sr_expects op' m \<and> sr_left op' m = rest \<and> sr_fn op' = sr_fn op"
proof -
  let ?k = "unat (sr_bytesRead op)"
  obtain mem where mem: "sr_ptr op = Some mem" "length m \<le> length mem" "take ?k mem = take ?k m" using ex mode by (auto simp: sr_expects_def split: option.splits)
  have E: "?k < length m" "length m < 2 ^ 62" "sr_lengthMem op = bytes_of_size (of_nat (length m))" using ex mode by (auto simp: sr_expects_def split: option.splits)
  have l: "drop ?k m = bs @ rest" using left mode by (simp add: sr_left_def)
  have len: "?k + length bs + length rest = length m" using arg_cong [OF l, of length] E(1) by simp
  have n: "unat (sr_bytesRead op + of_nat (length bs)) = ?k + length bs" using len E(2) by (intro unat_plus_small) simp
  let ?mem = "put_at ?k bs mem"
  have mem': "take (?k + length bs) ?mem = take (?k + length bs) m" "length m \<le> length ?mem"
    using put_at_take [OF mem(3) l] length_put_at [of ?k bs mem] E(1) len mem(2) by simp_all
  let ?op = "op\<lparr>sr_ptr := Some ?mem, sr_bytesRead := sr_bytesRead op + of_nat (length bs)\<rparr>"
  have store: "stream_store bs op = op\<lparr>sr_ptr := Some ?mem\<rparr>" using mode mem(1) by (simp add: stream_store_def)
  have rl: "sr_readLength ?op = of_nat (length m)" by (simp add: sr_readLength_def E(3) size_of_bytes_of_size)
  have cmp: "sr_bytesRead op + of_nat (length bs) = of_nat (length m) \<longleftrightarrow> ?k + length bs = length m"
    "sr_bytesRead op + of_nat (length bs) \<le> of_nat (length m)"
    using n len unat_of_length [OF E(2)] by (simp_all add: word_unat_eq_iff word_le_nat_alt)
  have rest: "rest = drop (?k + length bs) m" using arg_cong [OF l, of "drop (length bs)"] by (simp add: add.commute)
  let ?op' = "if ?k + length bs = length m then ?op\<lparr>sr_mode := COMPLETE\<rparr> else ?op"
  have run: "stream_readFromLoop (of_nat (length bs)) (stream_store bs op) = Inr ?op'"
    using store mode rl cmp by (simp add: stream_readFromLoop_def Let_def sr_readLength_def)
  have "sr_expects ?op' m" using ex mode mem' n len E(3) by (auto simp: sr_expects_def)
  moreover have "sr_left ?op' m = rest" using rest mode n by (auto simp: sr_left_def)
  ultimately show ?thesis using run by auto
qed

lemma alloc_ok:
  assumes ex: "sr_expects op m" and live: "sr_mode op \<noteq> COMPLETE"
  shows "\<exists>len. allocFromLoop op = Inr len \<and> 0 < unat len \<and>
    unat len = (if sr_mode op = READ_LENGTH then 8 - unat (sr_bytesRead op) else length (sr_left op m))"
proof (cases "sr_mode op")
  case READ_LENGTH
  then have k: "unat (sr_bytesRead op) < 8" using ex by (simp add: sr_expects_def)
  then have "sr_bytesRead op < 8" by (simp add: word_less_nat_alt)
  moreover from this have "unat (8 - sr_bytesRead op) = 8 - unat (sr_bytesRead op)" by (subst unat_sub) (simp_all add: order_less_imp_le)
  ultimately show ?thesis using READ_LENGTH k by (simp add: allocFromLoop_def)
next
  case READ_PAYLOAD
  then have k: "unat (sr_bytesRead op) < length m" "length m < 2 ^ 62" "sr_lengthMem op = bytes_of_size (of_nat (length m))" "sr_ptr op \<noteq> None"
    using ex by (auto simp: sr_expects_def split: option.splits)
  have rl: "sr_readLength op = of_nat (length m)" by (simp add: sr_readLength_def k size_of_bytes_of_size)
  have lt: "sr_bytesRead op < of_nat (length m)" using k unat_of_length [OF k(2)] by (simp add: word_less_nat_alt)
  then have "unat (of_nat (length m) - sr_bytesRead op) = length m - unat (sr_bytesRead op)"
    using unat_of_length [OF k(2)] by (subst unat_sub) (simp_all add: order_less_imp_le)
  then show ?thesis using READ_PAYLOAD k lt rl by (simp add: allocFromLoop_def sr_left_def)
qed (use live in simp)

text \<open>A piece of the stream reaches the operation.\<close>

lemma chunk_read:
  assumes ex: "sr_expects op m" and live: "sr_mode op \<noteq> COMPLETE" and stream: "bytes @ t = sr_left op m @ u" and ne: "bytes \<noteq> []"
  shows "\<exists>len op'. allocFromLoop op = Inr len \<and> take (unat len) bytes \<noteq> [] \<and>
    stream_readFromLoop (of_nat (length (take (unat len) bytes))) (stream_store (take (unat len) bytes) op) = Inr op' \<and>
    sr_expects op' m \<and> sr_left op m = take (unat len) bytes @ sr_left op' m \<and> sr_fn op' = sr_fn op"
proof -
  obtain len where len: "allocFromLoop op = Inr len" "0 < unat len"
    "unat len = (if sr_mode op = READ_LENGTH then 8 - unat (sr_bytesRead op) else length (sr_left op m))" using alloc_ok [OF ex live] by blast
  let ?bs = "take (unat len) bytes"
  have le: "length ?bs \<le> length (sr_left op m)" using len(3) ex by (auto simp: sr_left_def)
  have "?bs = take (length ?bs) (bytes @ t)" by (simp add: min_def)
  also have "\<dots> = take (length ?bs) (sr_left op m)" unfolding stream using le by simp
  finally have split: "sr_left op m = ?bs @ drop (length ?bs) (sr_left op m)" by (metis append_take_drop_id)
  have "\<exists>op'. stream_readFromLoop (of_nat (length ?bs)) (stream_store ?bs op) = Inr op' \<and> sr_expects op' m \<and>
      sr_left op' m = drop (length ?bs) (sr_left op m) \<and> sr_fn op' = sr_fn op"
  proof (cases "sr_mode op")
    case READ_LENGTH
    then have "length ?bs \<le> 8 - unat (sr_bytesRead op)" using len(3) by simp
    then show ?thesis using chunk_length [OF ex READ_LENGTH split] by blast
  next
    case READ_PAYLOAD
    then show ?thesis using chunk_payload [OF ex READ_PAYLOAD split] by blast
  qed (use live in simp)
  then show ?thesis using len(1,2) ne split by (metis gr_implies_not0 take_eq_Nil)
qed

lemma delivered_call:
  assumes ex: "sr_expects op m" and fin: "sr_mode op = COMPLETE"
  shows "read_callbackFromLoop Success op = Inr (ReadCall (read_fn_id (sr_fn op)) Success m)"
proof -
  have m: "length m < 2 ^ 62" and "sr_lengthMem op = bytes_of_size (of_nat (length m))" and acc: "fn_accepts (sr_fn op) m"
    using ex fin by (simp_all add: sr_expects_def)
  then have "unat (sr_readLength op) = length m" by (simp add: sr_readLength_def size_of_bytes_of_size unat_of_length)
  then have bytes: "take (unat (sr_readLength op)) (case sr_ptr op of None \<Rightarrow> [] | Some mem \<Rightarrow> mem) = m"
    using ex fin by (auto simp: sr_expects_def split: option.splits)
  show ?thesis
  proof (cases "sr_fn op")
    case (UserFn n)
    then show ?thesis using bytes by (simp add: read_callbackFromLoop_def)
  next
    case (NopFn p n)
    let ?rd = "NopReader (0, of_nat (length m)) (0, 0)"
    have rd: "reader_ok m ?rd" "reader_view m ?rd = m"
      using m unat_of_length [OF m] by (simp_all add: reader_ok_def reader_view_def NopReader_def area_def)
    have "run_reader p m ?rd = Inr NopNone"
      by (rule run_reader_parse [OF rd(1)]) (use acc NopFn rd(2) in \<open>simp add: fn_accepts_def\<close>)
    then show ?thesis using bytes NopFn by (simp add: read_callbackFromLoop_def)
  qed
qed

end
