(* ===== verification/Uv_System.thy ===== *)
theory Uv_System
  imports Uv_Delivery
begin

text \<open>
  Two connections over TCP in one system. Each side may ask for reads and writes at any time after
  its initialization; libuv hands over the bytes that arrive, as many as it likes at a time, to a
  connection that is reading, and calls the callbacks of write requests in order.
\<close>

section \<open>The system\<close>

text \<open>The bytes that are on their way to each side, and the write requests of each side that are not finished.\<close>

record uv_sys =
  u_conn :: "bool \<Rightarrow> uv_conn"
  u_wire :: "bool \<Rightarrow> byte list"
  u_requests :: "bool \<Rightarrow> nat"

fun sent_bytes :: "uv_effect conn_effect list \<Rightarrow> byte list" where
  "sent_bytes [] = []"
| "sent_bytes (Effect (UvWrite bufs) # es) = concat bufs @ sent_bytes es"
| "sent_bytes (_ # es) = sent_bytes es"

fun sent_requests :: "uv_effect conn_effect list \<Rightarrow> nat" where
  "sent_requests [] = 0"
| "sent_requests (Effect (UvWrite bufs) # es) = Suc (sent_requests es)"
| "sent_requests (_ # es) = sent_requests es"

definition u_update :: "bool \<Rightarrow> uv_conn \<Rightarrow> uv_sys \<Rightarrow> uv_sys" where
  "u_update b c' s =
     (let es = drop (length (conn_log (u_conn s b))) (conn_log c')
      in s\<lparr>u_conn := (u_conn s)(b := c'), u_wire := (u_wire s)(\<not> b := u_wire s (\<not> b) @ sent_bytes es),
           u_requests := (u_requests s)(b := u_requests s b + sent_requests es)\<rparr>)"

datatype uv_event = UInit | UConnected | URead stream_read | UWrite "byte list" "64 word" nat | UData nat | UWritten

fun uv_step :: "uv_event \<Rightarrow> bool \<Rightarrow> uv_sys \<Rightarrow> uv_sys result" where
  "uv_step UInit b s = bindR (conn_initFromLoop False (uv_initImplFromLoop False 0 0) (u_conn s b) ()) (\<lambda>(c, u). Inr (u_update b c s))"
| "uv_step UConnected b s = bindR (uv_connectCallback 0 (u_conn s b)) (\<lambda>c. Inr (u_update b c s))"
| "uv_step (URead op) b s =
     bindR (conn_readFromLoop (uv_startReading 0 op) (read_fn_id (sr_fn op)) (u_conn s b) ()) (\<lambda>(c, u). Inr (u_update b c s))"
| "uv_step (UWrite src len fn) b s =
     bindR (conn_writeFromLoop (uv_writeImplFromLoop 0 src len fn) fn (u_conn s b) ()) (\<lambda>(c, u). Inr (u_update b c s))"
| "uv_step (UData n) b s =
     bindR (uv_data 0 (take n (u_wire s b)) (u_conn s b)) (\<lambda>(k, c). Inr (u_update b c (s\<lparr>u_wire := (u_wire s)(b := drop k (u_wire s b))\<rparr>)))"
| "uv_step UWritten b s =
     bindR (writeCallbackFromLoop 0 (u_conn s b)) (\<lambda>c. Inr (u_update b c (s\<lparr>u_requests := (u_requests s)(b := u_requests s b - 1)\<rparr>)))"

section \<open>Runs\<close>

definition sr_fresh :: "byte list \<Rightarrow> stream_read \<Rightarrow> bool" where
  "sr_fresh m op \<longleftrightarrow> sr_expects op m \<and> sr_mode op = READ_LENGTH \<and> sr_bytesRead op = 0"

fun uv_enabled :: "(bool \<Rightarrow> byte list list) \<Rightarrow> uv_event \<Rightarrow> bool \<Rightarrow> uv_sys \<Rightarrow> (bool \<Rightarrow> nat list) \<Rightarrow> (bool \<Rightarrow> nat list) \<Rightarrow> bool" where
  "uv_enabled ms UInit b s rfs wfs \<longleftrightarrow> \<not> closeCallback (handle (u_conn s b))"
| "uv_enabled ms UConnected b s rfs wfs \<longleftrightarrow> closeCallback (handle (u_conn s b))"
| "uv_enabled ms (URead op) b s rfs wfs \<longleftrightarrow> closeCallback (handle (u_conn s b)) \<and>
     length (rfs b) < length (ms b) \<and> sr_fresh (ms b ! length (rfs b)) op"
| "uv_enabled ms (UWrite src len fn) b s rfs wfs \<longleftrightarrow> closeCallback (handle (u_conn s b)) \<and> length (wfs b) < length (ms (\<not> b)) \<and>
     unat len = length (ms (\<not> b) ! length (wfs b)) \<and> unat len \<le> length src \<and> take (unat len) src = ms (\<not> b) ! length (wfs b)"
| "uv_enabled ms (UData n) b s rfs wfs \<longleftrightarrow> h_reading (handle (u_conn s b)) \<and> 0 < n \<and> u_wire s b \<noteq> []"
| "uv_enabled ms UWritten b s rfs wfs \<longleftrightarrow> 0 < u_requests s b"

fun u_note_read :: "uv_event \<Rightarrow> bool \<Rightarrow> (bool \<Rightarrow> nat list) \<Rightarrow> bool \<Rightarrow> nat list" where
  "u_note_read (URead op) b rfs = rfs(b := rfs b @ [read_fn_id (sr_fn op)])"
| "u_note_read ev b rfs = rfs"

fun u_note_write :: "uv_event \<Rightarrow> bool \<Rightarrow> (bool \<Rightarrow> nat list) \<Rightarrow> bool \<Rightarrow> nat list" where
  "u_note_write (UWrite src len fn) b wfs = wfs(b := wfs b @ [fn])"
| "u_note_write ev b wfs = wfs"

definition uv_start :: "(bool \<Rightarrow> uv_conn) \<Rightarrow> uv_sys" where
  "uv_start cs = \<lparr>u_conn = cs, u_wire = (\<lambda>_. []), u_requests = (\<lambda>_. 0)\<rparr>"

inductive uv_run :: "(bool \<Rightarrow> byte list list) \<Rightarrow> uv_sys \<Rightarrow> (bool \<Rightarrow> nat list) \<Rightarrow> (bool \<Rightarrow> nat list) \<Rightarrow> bool" for ms where
  uv_begin: "(\<And>b. \<exists>i a. cs b = UvConnectionImpl_handle i \<or> cs b = UvConnectionImpl_addr i a) \<Longrightarrow>
    uv_run ms (uv_start cs) (\<lambda>_. []) (\<lambda>_. [])"
| uv_stepped: "uv_run ms s rfs wfs \<Longrightarrow> uv_enabled ms ev b s rfs wfs \<Longrightarrow> uv_step ev b s = Inr s' \<Longrightarrow>
    uv_run ms s' (u_note_read ev b rfs) (u_note_write ev b wfs)"

section \<open>The invariant\<close>

fun ur_ahead :: "stream_read list \<Rightarrow> byte list list \<Rightarrow> byte list" where
  "ur_ahead (op # ops) (m # ms) = sr_left op m @ uframes ms"
| "ur_ahead ops ms = uframes ms"

definition ur_ok :: "stream_read list \<Rightarrow> byte list list \<Rightarrow> bool" where
  "ur_ok ops ms \<longleftrightarrow> length ops \<le> length ms \<and> list_all2 sr_expects ops (take (length ops) ms) \<and>
     (\<forall>op \<in> set ops. sr_mode op \<noteq> COMPLETE) \<and> (\<forall>op \<in> set (tl ops). sr_mode op = READ_LENGTH \<and> sr_bytesRead op = 0)"

lemma ur_ok_Cons: "ur_ok (op # ops) (m # ms) \<longleftrightarrow>
    sr_expects op m \<and> sr_mode op \<noteq> COMPLETE \<and> ur_ok ops ms \<and> (\<forall>op \<in> set ops. sr_mode op = READ_LENGTH \<and> sr_bytesRead op = 0)"
  by (cases ops) (auto simp: ur_ok_def)

lemma ur_ahead_fresh: "length ops \<le> length ms \<Longrightarrow> \<forall>op \<in> set ops. sr_mode op = READ_LENGTH \<and> sr_bytesRead op = 0 \<Longrightarrow> ur_ahead ops ms = uframes ms"
  by (cases "(ops, ms)" rule: ur_ahead.cases) (simp_all add: sr_left_def uframe_def)

fun is_read :: "rb_call \<Rightarrow> bool" where
  "is_read (ReadCall fn e bs) = True" | "is_read (WriteCall fn e) = False"

text \<open>One side: the messages it has received, those it is sending, and the state of its handle.\<close>

definition u_side :: "byte list list \<Rightarrow> nat list \<Rightarrow> nat list \<Rightarrow> uv_conn \<Rightarrow> nat \<Rightarrow> bool" where
  "u_side ms rfs wfs c requests \<longleftrightarrow> conn_error c = Success \<and> \<not> h_closing (handle c) \<and>
     (allocCallback (handle c) \<longleftrightarrow> closeCallback (handle c)) \<and> (readCallback (handle c) \<longleftrightarrow> closeCallback (handle c)) \<and>
     (h_reading (handle c) \<longleftrightarrow> uv_reads c \<noteq> []) \<and> length rfs \<le> length ms \<and> length (uv_reads c) \<le> length rfs \<and>
     (let n = length rfs - length (uv_reads c) in
        ur_ok (uv_reads c) (drop n ms) \<and> map (\<lambda>op. read_fn_id (sr_fn op)) (uv_reads c) = drop n rfs \<and>
        filter is_read (conn_calls c) = map (\<lambda>(fn, m). ReadCall fn Success m) (zip (take n rfs) (take n ms))) \<and>
     requests = length (uv_writes c) \<and> length (uv_writes c) \<le> length wfs \<and>
     map sw_fn (uv_writes c) = drop (length wfs - length (uv_writes c)) wfs \<and>
     filter (\<lambda>cl. \<not> is_read cl) (conn_calls c) = map (\<lambda>fn. WriteCall fn Success) (take (length wfs - length (uv_writes c)) wfs)"

definition u_stream :: "byte list list \<Rightarrow> nat list \<Rightarrow> nat list \<Rightarrow> stream_read list \<Rightarrow> byte list \<Rightarrow> bool" where
  "u_stream ms wfs rfs ops wire \<longleftrightarrow> length wfs \<le> length ms \<and>
     wire @ uframes (drop (length wfs) ms) = ur_ahead ops (drop (length rfs - length ops) ms)"

definition u_inv :: "(bool \<Rightarrow> byte list list) \<Rightarrow> uv_sys \<Rightarrow> (bool \<Rightarrow> nat list) \<Rightarrow> (bool \<Rightarrow> nat list) \<Rightarrow> bool" where
  "u_inv ms s rfs wfs \<longleftrightarrow> (\<forall>b. u_side (ms b) (rfs b) (wfs b) (u_conn s b) (u_requests s b) \<and>
     u_stream (ms b) (wfs (\<not> b)) (rfs b) (uv_reads (u_conn s b)) (u_wire s b))"

end
