(* ===== verification/Uv_Properties.thy ===== *)
theory Uv_Properties
  imports Uv_System
begin

text \<open>No step of two connections over TCP faults, and messages arrive complete and in order.\<close>

section \<open>Steps\<close>

lemma all_bools: "(\<forall>x. P x) \<longleftrightarrow> P b \<and> P (\<not> b)"
  by (cases b) (simp_all add: all_bool_eq conj_commute)

lemma u_update_simps:
  assumes "conn_log c' = conn_log (u_conn s b) @ es"
  shows "u_conn (u_update b c' s) b = c'" "u_conn (u_update b c' s) (\<not> b) = u_conn s (\<not> b)" "u_wire (u_update b c' s) b = u_wire s b"
    "u_wire (u_update b c' s) (\<not> b) = u_wire s (\<not> b) @ sent_bytes es" "u_requests (u_update b c' s) (\<not> b) = u_requests s (\<not> b)"
    "u_requests (u_update b c' s) b = u_requests s b + sent_requests es"
  using assms by (simp_all add: u_update_def Let_def)

lemma u_invD:
  assumes "u_inv ms s rfs wfs"
  shows "u_side (ms b) (rfs b) (wfs b) (u_conn s b) (u_requests s b)" "u_stream (ms b) (wfs (\<not> b)) (rfs b) (uv_reads (u_conn s b)) (u_wire s b)"
  using assms by (simp_all add: u_inv_def)

lemma u_inv_step:
  assumes inv: "u_inv ms s rfs wfs" and log: "conn_log c' = conn_log (u_conn s b) @ es"
    and others: "u_conn s1 = u_conn s" "u_requests s1 (\<not> b) = u_requests s (\<not> b)" "u_wire s1 (\<not> b) = u_wire s (\<not> b)"
      "rfs' (\<not> b) = rfs (\<not> b)" "wfs' (\<not> b) = wfs (\<not> b)"
    and side: "u_side (ms b) (rfs' b) (wfs' b) c' (u_requests s1 b + sent_requests es)"
    and into: "u_stream (ms b) (wfs (\<not> b)) (rfs' b) (uv_reads c') (u_wire s1 b)"
    and out: "u_stream (ms (\<not> b)) (wfs' b) (rfs (\<not> b)) (uv_reads (u_conn s (\<not> b))) (u_wire s (\<not> b) @ sent_bytes es)"
  shows "u_inv ms (u_update b c' s1) rfs' wfs'"
  unfolding u_inv_def all_bools [where b = b] not_not using u_update_simps [of c' s1 b es] log others side into out u_invD [OF inv, of "\<not> b"]
  by simp

text \<open>What libuv still has to do; a step of libuv makes it less.\<close>

definition u_pending :: "uv_sys \<Rightarrow> nat" where
  "u_pending s = (\<Sum>b\<in>UNIV. length (u_wire s b) + u_requests s b)"

fun libuv_event :: "uv_event \<Rightarrow> bool" where
  "libuv_event (UData n) = True" | "libuv_event UWritten = True" | "libuv_event _ = False"

lemma u_pending_split: "u_pending s = (length (u_wire s b) + u_requests s b) + (length (u_wire s (\<not> b)) + u_requests s (\<not> b))"
  by (cases b) (simp_all add: u_pending_def UNIV_bool)

definition u_good where
  "u_good ms ev b s rfs wfs \<longleftrightarrow> (\<exists>s'. uv_step ev b s = Inr s' \<and> u_inv ms s' (u_note_read ev b rfs) (u_note_write ev b wfs) \<and>
     (libuv_event ev \<longrightarrow> u_pending s' < u_pending s))"

lemma uv_logs_simps [simp]:
  "handle (uv_logs es c) = handle c" "uv_reads (uv_logs es c) = uv_reads c" "uv_writes (uv_logs es c) = uv_writes c"
  "uv_sockaddr (uv_logs es c) = uv_sockaddr c" "conn_error (uv_logs es c) = conn_error c" "conn_calls (uv_logs es c) = conn_calls c"
  "conn_log (uv_logs es c) = conn_log c @ map Effect es"
proof -
  have "effect_calls (map Effect es) = []" for es :: "uv_effect list" by (induction es) simp_all
  then show "conn_calls (uv_logs es c) = conn_calls c" by (simp add: uv_logs_def)
qed (simp_all add: uv_logs_def conn_logs_def)

lemma uv_conn_logs_simps [simp]:
  "handle (conn_logs es c) = handle c" "uv_reads (conn_logs es c) = uv_reads c" "uv_writes (conn_logs es c) = uv_writes c"
  "conn_log (conn_logs es (c :: uv_conn)) = conn_log c @ es"
  by (simp_all add: conn_logs_def)

lemma uv_conn_calls_simps [simp]:
  "conn_calls (c\<lparr>uv_reads := rs\<rparr>) = conn_calls c" "conn_calls (c\<lparr>uv_writes := ws\<rparr>) = conn_calls c" "conn_calls (c\<lparr>handle := h\<rparr>) = conn_calls c"
  by (simp_all add: conn_calls_def)

lemma u_step_Init:
  assumes inv: "u_inv ms s rfs wfs" and en: "\<not> closeCallback (handle (u_conn s b))"
  shows "u_good ms UInit b s rfs wfs"
proof -
  let ?c = "u_conn s b"
  note I = u_invD [OF inv, of b]
  have h: "\<not> allocCallback (handle ?c)" "\<not> readCallback (handle ?c)" using I(1) en by (simp_all add: u_side_def)
  define es where "es = map Effect (UvEnroll # (case uv_sockaddr ?c of None \<Rightarrow> [] | Some a \<Rightarrow> [UvInit, UvConnect a]))"
  define c' where "c' = (conn_logs es ?c)\<lparr>handle := (handle ?c)\<lparr>closeCallback := True, allocCallback := True, readCallback := True\<rparr>\<rparr>"
  have calls: "conn_calls c' = conn_calls ?c" by (simp add: c'_def es_def split: option.splits)
  have task: "uv_step UInit b s = Inr (u_update b c' s)"
    using en h by (cases "uv_sockaddr ?c") (simp_all add: conn_initFromLoop_def uv_initImplFromLoop_def armCloseCallbackFromLoop_def
        armAllocCallbackFromLoop_def armReadCallbackFromLoop_def throw_uv_if_def Let_def c'_def es_def uv_logs_def conn_logs_def)
  have none: "sent_bytes es = []" "sent_requests es = 0" by (simp_all add: es_def split: option.splits)
  have "u_inv ms (u_update b c' s) rfs wfs"
    by (rule u_inv_step [OF inv, of _ _ es]) (use I u_invD [OF inv, of "\<not> b"] calls none in \<open>simp_all add: c'_def u_side_def\<close>)
  then show ?thesis using task by (simp add: u_good_def)
qed

lemma u_step_Connected:
  assumes inv: "u_inv ms s rfs wfs"
  shows "u_good ms UConnected b s rfs wfs"
proof -
  have "u_inv ms (u_update b (u_conn s b) s) rfs wfs"
    by (rule u_inv_step [OF inv, of _ _ "[]"]) (use u_invD [OF inv, of b] u_invD [OF inv, of "\<not> b"] in simp_all)
  then show ?thesis by (simp add: u_good_def uv_connectCallback_def)
qed

lemma ur_ok_append:
  assumes "ur_ok ops ms" and "length ops < length ms" and "sr_fresh (ms ! length ops) op"
  shows "ur_ok (ops @ [op]) ms"
proof -
  have "take (length (ops @ [op])) ms = take (length ops) ms @ [ms ! length ops]"
    using assms(2) by (simp add: take_Suc_conv_app_nth)
  then have "list_all2 sr_expects (ops @ [op]) (take (length (ops @ [op])) ms)"
    using assms by (simp add: list_all2_appendI ur_ok_def sr_fresh_def)
  then show ?thesis using assms by (cases ops) (auto simp: ur_ok_def sr_fresh_def Suc_le_eq)
qed

lemma u_step_Read:
  assumes inv: "u_inv ms s rfs wfs" and en: "uv_enabled ms (URead op) b s rfs wfs"
  shows "u_good ms (URead op) b s rfs wfs"
proof -
  let ?c = "u_conn s b" and ?rfs = "rfs(b := rfs b @ [read_fn_id (sr_fn op)])"
  note I = u_invD [OF inv, of b]
  define c' where "c' = ?c\<lparr>nextBufferBeingRead := nextBufferBeingRead ?c + 1, uv_reads := uv_reads ?c @ [op], handle := (handle ?c)\<lparr>h_reading := True\<rparr>\<rparr>"
  have h: "allocCallback (handle ?c)" "readCallback (handle ?c)" "conn_error ?c = Success" "h_reading (handle ?c) \<longleftrightarrow> uv_reads ?c \<noteq> []"
    and le: "length (uv_reads ?c) \<le> length (rfs b)"
    using I(1) en by (auto simp: u_side_def)
  have same: "uv_reads ?c \<noteq> [] \<Longrightarrow> c' = ?c\<lparr>nextBufferBeingRead := nextBufferBeingRead ?c + 1, uv_reads := uv_reads ?c @ [op]\<rparr>"
    using h(4) by (cases ?c; cases "handle ?c") (simp add: c'_def)
  have task: "uv_step (URead op) b s = Inr (u_update b c' s)"
  proof (cases "uv_reads ?c")
    case Nil
    then show ?thesis
      using h by (simp add: conn_readFromLoop_def uv_startReading_def readStartFromLoop_def throw_uv_if_def Let_def c'_def)
  next
    case (Cons op' ops)
    then show ?thesis using h same by (simp add: conn_readFromLoop_def uv_startReading_def Let_def)
  qed
  have calls: "conn_calls c' = conn_calls ?c" by (simp add: c'_def conn_calls_def)
  have ok: "ur_ok (uv_reads ?c @ [op]) (drop (length (rfs b) - length (uv_reads ?c)) (ms b))"
  proof (rule ur_ok_append)
    have lt: "length (rfs b) < length (ms b)" using en by simp
    have "drop (length (rfs b) - length (uv_reads ?c)) (ms b) ! length (uv_reads ?c) = ms b ! length (rfs b)"
      using le less_imp_le [OF lt] by (subst nth_drop) simp_all
    then show "sr_fresh (drop (length (rfs b) - length (uv_reads ?c)) (ms b) ! length (uv_reads ?c)) op" using en by simp
    from lt show "length (uv_reads ?c) < length (drop (length (rfs b) - length (uv_reads ?c)) (ms b))" using le by simp
  qed (use I(1) en le in \<open>simp_all add: u_side_def Let_def\<close>)
  have ahead: "ur_ahead (uv_reads ?c @ [op]) (drop (length (rfs b) - length (uv_reads ?c)) (ms b)) =
      ur_ahead (uv_reads ?c) (drop (length (rfs b) - length (uv_reads ?c)) (ms b))"
  proof (cases "uv_reads ?c")
    case Nil
    then show ?thesis using en by (cases "drop (length (rfs b)) (ms b)") (simp_all add: sr_fresh_def sr_left_def uframe_def)
  next
    case (Cons op' ops)
    then show ?thesis by (cases "drop (length (rfs b) - length (uv_reads ?c)) (ms b)") simp_all
  qed
  have "u_side (ms b) (rfs b @ [read_fn_id (sr_fn op)]) (wfs b) c' (u_requests s b)"
    using I(1) en ok calls le by (simp add: u_side_def Let_def c'_def Suc_diff_le)
  moreover have "u_stream (ms b) (wfs (\<not> b)) (rfs b @ [read_fn_id (sr_fn op)]) (uv_reads c') (u_wire s b)"
    using I(2) ahead le by (simp add: u_stream_def c'_def Suc_diff_le)
  ultimately have "u_inv ms (u_update b c' s) ?rfs wfs"
    by (intro u_inv_step [OF inv, of _ _ "[]"]) (use u_invD [OF inv, of "\<not> b"] in \<open>simp_all add: c'_def\<close>)
  then show ?thesis using task by (simp add: u_good_def)
qed

lemma u_step_Write:
  assumes inv: "u_inv ms s rfs wfs" and en: "uv_enabled ms (UWrite src len fn) b s rfs wfs"
  shows "u_good ms (UWrite src len fn) b s rfs wfs"
proof -
  let ?c = "u_conn s b" and ?wfs = "wfs(b := wfs b @ [fn])" and ?m = "ms (\<not> b) ! length (wfs b)" and ?op = "StreamWriteOperation src len fn"
  note I = u_invD [OF inv, of b] and O = u_invD [OF inv, of "\<not> b"]
  define es :: "uv_effect conn_effect list" where "es = [Effect (UvWrite (getBufs ?op))]"
  define c' where "c' = conn_logs es (?c\<lparr>nextBufferBeingWritten := nextBufferBeingWritten ?c + 1, uv_writes := uv_writes ?c @ [?op]\<rparr>)"
  have task: "uv_step (UWrite src len fn) b s = Inr (u_update b c' s)"
    using I(1) by (simp add: conn_writeFromLoop_def uv_writeImplFromLoop_def throw_uv_if_def Let_def c'_def es_def uv_logs_def u_side_def)
  have calls: "conn_calls c' = conn_calls ?c" by (simp add: c'_def es_def)
  have m: "len = of_nat (length ?m)" using en word_of_unat [of len] by simp
  have bytes: "sent_bytes es = uframe ?m"
    using en m by (auto simp: es_def getBufs_def StreamWriteOperation_def uframe_def Let_def)
  have le: "length (uv_writes ?c) \<le> length (wfs b)" using I(1) by (simp add: u_side_def)
  have "u_side (ms b) (rfs b) (wfs b @ [fn]) c' (u_requests s b + sent_requests es)"
    using I(1) calls le by (simp add: u_side_def c'_def es_def StreamWriteOperation_def)
  moreover have "uframes (drop (length (wfs b)) (ms (\<not> b))) = uframe ?m @ uframes (drop (Suc (length (wfs b))) (ms (\<not> b)))"
    using en by (subst Cons_nth_drop_Suc [symmetric]) simp_all
  then have "u_stream (ms (\<not> b)) (wfs b @ [fn]) (rfs (\<not> b)) (uv_reads (u_conn s (\<not> b))) (u_wire s (\<not> b) @ sent_bytes es)"
    using O(2) en by (simp add: u_stream_def bytes)
  ultimately have "u_inv ms (u_update b c' s) rfs ?wfs"
    by (intro u_inv_step [OF inv, of _ _ es]) (use I(2) in \<open>simp_all add: c'_def\<close>)
  then show ?thesis using task by (simp add: u_good_def)
qed

lemma u_step_Written:
  assumes inv: "u_inv ms s rfs wfs" and en: "0 < u_requests s b"
  shows "u_good ms UWritten b s rfs wfs"
proof -
  let ?c = "u_conn s b" and ?s = "s\<lparr>u_requests := (u_requests s)(b := u_requests s b - 1)\<rparr>"
  note I = u_invD [OF inv, of b]
  obtain op ops where ws: "uv_writes ?c = op # ops" using I(1) en by (cases "uv_writes ?c") (simp_all add: u_side_def)
  let ?n = "length (wfs b) - length (uv_writes ?c)"
  have W: "Suc (length ops) \<le> length (wfs b)" "sw_fn op # map sw_fn ops = drop ?n (wfs b)"
    "filter (\<lambda>cl. \<not> is_read cl) (conn_calls ?c) = map (\<lambda>fn. WriteCall fn Success) (take ?n (wfs b))" "conn_error ?c = Success"
    using I(1) by (simp_all add: u_side_def ws)
  have n: "length (wfs b) - length ops = Suc ?n" "?n < length (wfs b)" using W(1) by (simp_all add: ws)
  have hd: "wfs b ! ?n = sw_fn op" "map sw_fn ops = drop (Suc ?n) (wfs b)"
    using W(2) Cons_nth_drop_Suc [OF n(2)] by (metis list.inject)+
  define es :: "uv_effect conn_effect list" where "es = [Callback (WriteCall (sw_fn op) Success)]"
  define c' where "c' = (conn_logs es ?c)\<lparr>uv_writes := ops\<rparr>"
  have task: "uv_step UWritten b s = Inr (u_update b c' ?s)"
    using ws W(4) by (simp add: writeCallbackFromLoop_def c'_def es_def write_callbackFromLoop_def)
  have "u_side (ms b) (rfs b) (wfs b) c' (u_requests ?s b + sent_requests es)"
    using I(1) hd n W by (simp add: u_side_def c'_def es_def ws take_Suc_conv_app_nth)
  then have "u_inv ms (u_update b c' ?s) rfs wfs"
    by (intro u_inv_step [OF inv, of _ _ es]) (use I(2) u_invD [OF inv, of "\<not> b"] in \<open>simp_all add: c'_def es_def\<close>)
  moreover have "u_pending (u_update b c' ?s) < u_pending s"
    using en u_update_simps [of c' ?s b es] by (simp add: u_pending_split [of _ b] c'_def es_def)
  ultimately show ?thesis using task by (simp add: u_good_def)
qed

lemma u_step_Data:
  assumes inv: "u_inv ms s rfs wfs" and en: "uv_enabled ms (UData n) b s rfs wfs"
  shows "u_good ms (UData n) b s rfs wfs"
proof -
  let ?c = "u_conn s b" and ?bytes = "take n (u_wire s b)"
  note I = u_invD [OF inv, of b]
  obtain op ops where rs: "uv_reads ?c = op # ops" using I(1) en by (cases "uv_reads ?c") (simp_all add: u_side_def)
  define d where "d = length (rfs b) - length (uv_reads ?c)"
  have R: "length (rfs b) \<le> length (ms b)" "length (uv_reads ?c) \<le> length (rfs b)" "ur_ok (op # ops) (drop d (ms b))"
    "map (\<lambda>op. read_fn_id (sr_fn op)) (op # ops) = drop d (rfs b)"
    "filter is_read (conn_calls ?c) = map (\<lambda>(fn, m). ReadCall fn Success m) (zip (take d (rfs b)) (take d (ms b)))"
    using I(1) by (simp_all add: u_side_def Let_def d_def flip: rs)
  have d: "d < length (rfs b)" "d < length (ms b)" using R(1,2) by (simp_all add: d_def rs)
  have hd: "drop d (ms b) = ms b ! d # drop (Suc d) (ms b)" "drop d (rfs b) = rfs b ! d # drop (Suc d) (rfs b)"
    using d by (simp_all add: Cons_nth_drop_Suc)
  let ?m = "ms b ! d"
  have op: "sr_expects op ?m" "sr_mode op \<noteq> COMPLETE" "ur_ok ops (drop (Suc d) (ms b))" "\<forall>op \<in> set ops. sr_mode op = READ_LENGTH \<and> sr_bytesRead op = 0"
    using R(3) unfolding hd by (simp_all add: ur_ok_Cons)
  have fn: "read_fn_id (sr_fn op) = rfs b ! d" "map (\<lambda>op. read_fn_id (sr_fn op)) ops = drop (Suc d) (rfs b)"
    using R(4) unfolding hd by simp_all
  have str: "u_wire s b @ uframes (drop (length (wfs (\<not> b))) (ms b)) = sr_left op ?m @ uframes (drop (Suc d) (ms b))"
  proof -
    have "u_wire s b @ uframes (drop (length (wfs (\<not> b))) (ms b)) = ur_ahead (uv_reads ?c) (drop d (ms b))"
      using I(2) by (simp add: u_stream_def d_def)
    then show ?thesis unfolding rs hd(1) by simp
  qed
  have ne: "?bytes \<noteq> []" using en by simp
  have "?bytes @ (drop n (u_wire s b) @ uframes (drop (length (wfs (\<not> b))) (ms b))) = sr_left op ?m @ uframes (drop (Suc d) (ms b))"
    using str by (metis append_assoc append_take_drop_id)
  note chunk = chunk_read [OF op(1,2) this ne]
  obtain len op' where C: "allocFromLoop op = Inr len" "take (unat len) ?bytes \<noteq> []"
    "stream_readFromLoop (of_nat (length (take (unat len) ?bytes))) (stream_store (take (unat len) ?bytes) op) = Inr op'"
    "sr_expects op' ?m" "sr_left op ?m = take (unat len) ?bytes @ sr_left op' ?m" "sr_fn op' = sr_fn op"
    using chunk by (elim exE conjE) (rule that)
  define k where "k = length (take (unat len) ?bytes)"
  have wire: "u_wire s b = take (unat len) ?bytes @ drop k (u_wire s b)"
  proof -
    have "take (unat len) ?bytes = take k (u_wire s b)" by (simp add: k_def min_def)
    then show ?thesis by simp
  qed
  have left: "drop k (u_wire s b) @ uframes (drop (length (wfs (\<not> b))) (ms b)) = sr_left op' ?m @ uframes (drop (Suc d) (ms b))"
  proof -
    have "take (unat len) ?bytes @ drop k (u_wire s b) @ uframes (drop (length (wfs (\<not> b))) (ms b)) =
        take (unat len) ?bytes @ sr_left op' ?m @ uframes (drop (Suc d) (ms b))"
      using str unfolding C(5) append_assoc [symmetric] wire [symmetric] .
    then show ?thesis unfolding same_append_eq .
  qed
  let ?s = "s\<lparr>u_wire := (u_wire s)(b := drop k (u_wire s b))\<rparr>"
  have less: "length (drop k (u_wire s b)) < length (u_wire s b)" using C(2) en by (simp add: k_def)
  show ?thesis
  proof (cases "sr_mode op' = COMPLETE")
    case False
    define c' where "c' = ?c\<lparr>uv_reads := op' # ops\<rparr>"
    have task: "uv_step (UData n) b s = Inr (u_update b c' ?s)"
      using rs C(1,3) False by (simp add: uv_data_def allocCallbackFromLoop_def readCallbackFromLoop_def completeFromLoop_def c'_def Let_def k_def)
    have "ur_ok (op' # ops) (drop d (ms b))" using op C(4) False unfolding hd by (simp add: ur_ok_Cons)
    then have "u_side (ms b) (rfs b) (wfs b) c' (u_requests s b)"
      using I(1) C(6) R(4) by (simp add: u_side_def Let_def c'_def rs d_def)
    moreover have "u_stream (ms b) (wfs (\<not> b)) (rfs b) (uv_reads c') (drop k (u_wire s b))"
      using I(2) left hd(1) by (simp add: u_stream_def c'_def d_def rs)
    ultimately have "u_inv ms (u_update b c' ?s) rfs wfs"
      by (intro u_inv_step [OF inv, of _ _ "[]"]) (use u_invD [OF inv, of "\<not> b"] in \<open>simp_all add: c'_def\<close>)
    moreover have "u_pending (u_update b c' ?s) < u_pending s"
      using less u_update_simps [of c' ?s b "[]"] by (simp add: u_pending_split [of _ b] c'_def)
    ultimately show ?thesis using task by (simp add: u_good_def)
  next
    case True
    define es :: "uv_effect conn_effect list" where "es = [Callback (ReadCall (rfs b ! d) Success ?m)]"
    define c' where "c' = (conn_logs es ?c)\<lparr>uv_reads := ops, handle := (handle ?c)\<lparr>h_reading := (ops \<noteq> [])\<rparr>\<rparr>"
    have h: "h_reading (handle ?c)" using en by simp
    have same: "?c\<lparr>conn_log := l, uv_reads := ops, handle := (handle ?c)\<lparr>h_reading := True\<rparr>\<rparr> = ?c\<lparr>conn_log := l, uv_reads := ops\<rparr>" for l
      using h by (cases ?c; cases "handle ?c") simp
    have task: "uv_step (UData n) b s = Inr (u_update b c' ?s)"
      using rs C(1,3,6) True delivered_call [OF C(4) True] fn(1) h
      by (simp add: uv_data_def allocCallbackFromLoop_def readCallbackFromLoop_def completeFromLoop_def c'_def es_def Let_def conn_logs_def
          readStopFromLoop_def throw_uv_if_def k_def same)
    have "zip (take (Suc d) (rfs b)) (take (Suc d) (ms b)) = zip (take d (rfs b)) (take d (ms b)) @ [(rfs b ! d, ?m)]"
      using d by (simp add: take_Suc_conv_app_nth)
    moreover have n: "length (rfs b) - length ops = Suc d" using R(2) by (simp add: d_def rs)
    ultimately have "u_side (ms b) (rfs b) (wfs b) c' (u_requests s b + sent_requests es)"
      using I(1) op(3) fn(2) R(5) by (simp add: u_side_def Let_def c'_def es_def rs)
    moreover have "sr_left op' ?m = []" using True by (simp add: sr_left_def)
    then have "u_stream (ms b) (wfs (\<not> b)) (rfs b) (uv_reads c') (drop k (u_wire s b))"
      using I(2) left n op(3,4) ur_ahead_fresh [of ops "drop (Suc d) (ms b)"] by (simp add: u_stream_def c'_def ur_ok_def)
    ultimately have "u_inv ms (u_update b c' ?s) rfs wfs"
      by (intro u_inv_step [OF inv, of _ _ es]) (use u_invD [OF inv, of "\<not> b"] in \<open>simp_all add: c'_def es_def\<close>)
    moreover have "u_pending (u_update b c' ?s) < u_pending s"
      using less u_update_simps [of c' ?s b es] by (simp add: u_pending_split [of _ b] c'_def es_def)
    ultimately show ?thesis using task by (simp add: u_good_def)
  qed
qed

section \<open>Runs\<close>

lemma u_step_enabled: "u_inv ms s rfs wfs \<Longrightarrow> uv_enabled ms ev b s rfs wfs \<Longrightarrow> u_good ms ev b s rfs wfs"
  by (cases ev) (auto intro: u_step_Init u_step_Connected u_step_Read u_step_Write u_step_Data u_step_Written simp del: uv_enabled.simps(3-5))

lemma u_inv_start:
  assumes "\<And>b. \<exists>i a. cs b = UvConnectionImpl_handle i \<or> cs b = UvConnectionImpl_addr i a"
  shows "u_inv ms (uv_start cs) (\<lambda>_. []) (\<lambda>_. [])"
proof -
  have new: "\<exists>i a. cs b = uv_new i a" for b
    using assms [of b] by (auto simp: UvConnectionImpl_handle_def UvConnectionImpl_addr_def)
  have "u_side (ms b) [] [] (cs b) 0 \<and> u_stream (ms b) [] [] (uv_reads (cs b)) []" for b
    using new [of b] by (auto simp: u_side_def u_stream_def uv_new_def uv_new_handle_def ur_ok_def conn_calls_def)
  then show ?thesis by (simp add: u_inv_def uv_start_def)
qed

lemma uv_run_inv: "uv_run ms s rfs wfs \<Longrightarrow> u_inv ms s rfs wfs"
proof (induction rule: uv_run.induct)
  case (uv_begin cs)
  then show ?case by (rule u_inv_start)
next
  case (uv_stepped s rfs wfs ev b s')
  then show ?case using u_step_enabled [OF uv_stepped.IH uv_stepped.hyps(2)] by (simp add: u_good_def)
qed

lemma uv_run_step: "uv_run ms s rfs wfs \<Longrightarrow> uv_enabled ms ev b s rfs wfs \<Longrightarrow>
    \<exists>s'. uv_step ev b s = Inr s' \<and> uv_run ms s' (u_note_read ev b rfs) (u_note_write ev b wfs)"
  using u_step_enabled [OF uv_run_inv, of ms s rfs wfs ev b] uv_stepped [of ms s rfs wfs ev b] by (auto simp: u_good_def)

section \<open>What has been delivered\<close>

lemma uframes_drop_less:
  assumes "i < j" and "i < length ms"
  shows "length (uframes (drop j ms)) < length (uframes (drop i ms))"
proof -
  have "drop i ms = ms ! i # take (j - Suc i) (drop (Suc i) ms) @ drop j ms"
    using assms append_take_drop_id [of "j - Suc i" "drop (Suc i) ms"] by (simp flip: Cons_nth_drop_Suc)
  then show ?thesis by (simp add: uframe_def)
qed

lemma ur_ahead_le: "length (ur_ahead ops ms) \<le> length (uframes ms)"
  by (cases "(ops, ms)" rule: ur_ahead.cases) (auto simp: sr_left_def uframe_def split: stream_mode.splits)

lemma ur_ahead_more:
  assumes "ur_ok ops ms" and "ops \<noteq> []"
  shows "length (uframes (drop 1 ms)) < length (ur_ahead ops ms)"
proof -
  obtain op ops' m ms' where eq: "ops = op # ops'" "ms = m # ms'" using assms by (cases ops; cases ms) (simp_all add: ur_ok_def)
  then have "sr_expects op m" "sr_mode op \<noteq> COMPLETE" using assms(1) by (simp_all add: ur_ok_Cons)
  then have "sr_left op m \<noteq> []" by (auto simp: sr_expects_def sr_left_def split: stream_mode.splits)
  then show ?thesis by (simp add: eq)
qed

text \<open>How many messages one side has received.\<close>

definition received :: "(bool \<Rightarrow> nat list) \<Rightarrow> bool \<Rightarrow> uv_sys \<Rightarrow> nat" where
  "received rfs b s = length (rfs b) - length (uv_reads (u_conn s b))"

lemma received_calls:
  assumes "uv_run ms s rfs wfs"
  shows "filter is_read (conn_calls (u_conn s b)) =
      map (\<lambda>(fn, m). ReadCall fn Success m) (zip (take (received rfs b s) (rfs b)) (take (received rfs b s) (ms b)))"
    and "filter (\<lambda>cl. \<not> is_read cl) (conn_calls (u_conn s b)) = map (\<lambda>fn. WriteCall fn Success) (take (length (wfs b) - u_requests s b) (wfs b))"
    and "length (wfs b) \<le> length (ms (\<not> b))" and "length (rfs b) \<le> length (ms b)"
  using u_invD(1) [OF uv_run_inv [OF assms], of b] u_invD(2) [OF uv_run_inv [OF assms], of "\<not> b"]
  by (simp_all add: u_side_def u_stream_def Let_def received_def)

lemma received_bound:
  assumes "uv_run ms s rfs wfs"
  shows "received rfs b s \<le> length (rfs b)" and "received rfs b s \<le> length (wfs (\<not> b))"
proof -
  note I = u_invD [OF uv_run_inv [OF assms], of b]
  show "received rfs b s \<le> length (wfs (\<not> b))"
  proof (rule ccontr)
    assume "\<not> received rfs b s \<le> length (wfs (\<not> b))"
    then have lt: "length (wfs (\<not> b)) < received rfs b s" by simp
    moreover from this have "length (wfs (\<not> b)) < length (ms b)" using I(1) by (auto simp: u_side_def received_def)
    ultimately have "length (uframes (drop (received rfs b s) (ms b))) < length (uframes (drop (length (wfs (\<not> b))) (ms b)))"
      by (rule uframes_drop_less)
    moreover have "length (uframes (drop (length (wfs (\<not> b))) (ms b))) \<le> length (ur_ahead (uv_reads (u_conn s b)) (drop (received rfs b s) (ms b)))"
    proof -
      have "ur_ahead (uv_reads (u_conn s b)) (drop (received rfs b s) (ms b)) = u_wire s b @ uframes (drop (length (wfs (\<not> b))) (ms b))"
        using I(2) by (simp add: u_stream_def received_def)
      then show ?thesis by simp
    qed
    ultimately show False using ur_ahead_le [of "uv_reads (u_conn s b)" "drop (received rfs b s) (ms b)"] by linarith
  qed
qed (simp add: received_def)

lemma received_all:
  assumes "uv_run ms s rfs wfs" and idle: "h_reading (handle (u_conn s b)) \<Longrightarrow> u_wire s b = []"
  shows "received rfs b s = min (length (rfs b)) (length (wfs (\<not> b)))"
proof (cases "uv_reads (u_conn s b)")
  case Nil
  then show ?thesis using received_bound(2) [OF assms(1), of b] by (simp add: received_def)
next
  case (Cons op ops)
  note I = u_invD [OF uv_run_inv [OF assms(1)], of b]
  let ?n = "received rfs b s"
  have ok: "ur_ok (uv_reads (u_conn s b)) (drop ?n (ms b))" using I(1) by (simp add: u_side_def Let_def received_def)
  have "u_wire s b = []" using I(1) idle Cons by (simp add: u_side_def)
  then have eq: "uframes (drop (length (wfs (\<not> b))) (ms b)) = ur_ahead (uv_reads (u_conn s b)) (drop ?n (ms b))"
    using I(2) by (simp add: u_stream_def received_def)
  have more: "length (uframes (drop (Suc ?n) (ms b))) < length (uframes (drop (length (wfs (\<not> b))) (ms b)))"
    using ur_ahead_more [OF ok] Cons unfolding eq by simp
  have "length (wfs (\<not> b)) \<le> ?n"
  proof (rule ccontr)
    assume "\<not> ?thesis"
    then have "Suc ?n = length (wfs (\<not> b)) \<or> Suc ?n < length (wfs (\<not> b))" by linarith
    then show False using more uframes_drop_less [of "Suc ?n" "length (wfs (\<not> b))" "ms b"] by (cases "Suc ?n < length (ms b)") auto
  qed
  then show ?thesis using received_bound [OF assms(1), of b] by simp
qed

section \<open>What libuv does on its own\<close>

inductive uv_reaction :: "uv_sys \<Rightarrow> uv_sys \<Rightarrow> bool" where
  data_reaction: "h_reading (handle (u_conn s b)) \<Longrightarrow> 0 < n \<Longrightarrow> u_wire s b \<noteq> [] \<Longrightarrow> uv_step (UData n) b s = Inr s' \<Longrightarrow> uv_reaction s s'"
| written_reaction: "0 < u_requests s b \<Longrightarrow> uv_step UWritten b s = Inr s' \<Longrightarrow> uv_reaction s s'"

lemma uv_reaction_run:
  assumes "uv_reaction s s'" and "uv_run ms s rfs wfs"
  shows "uv_run ms s' rfs wfs \<and> u_pending s' < u_pending s"
proof -
  obtain ev b where ev: "libuv_event ev" "uv_enabled ms ev b s rfs wfs" "uv_step ev b s = Inr s'"
    using assms(1) by cases (metis libuv_event.simps(1) uv_enabled.simps(5), metis libuv_event.simps(2) uv_enabled.simps(6))
  then have "u_note_read ev b rfs = rfs" "u_note_write ev b wfs = wfs" by (cases ev; simp)+
  then show ?thesis using u_step_enabled [OF uv_run_inv [OF assms(2)] ev(2)] uv_stepped [OF assms(2) ev(2,3)] ev(1,3) by (auto simp: u_good_def)
qed

lemma uv_reactions_run: "uv_reaction\<^sup>*\<^sup>* s s' \<Longrightarrow> uv_run ms s rfs wfs \<Longrightarrow> uv_run ms s' rfs wfs"
  by (induction rule: rtranclp_induct) (use uv_reaction_run in blast)+

lemma uv_reactions_finite:
  assumes "uv_run ms s rfs wfs"
  shows "\<not> (\<exists>f. f 0 = s \<and> (\<forall>i. uv_reaction (f i) (f (Suc i))))"
proof
  assume "\<exists>f. f 0 = s \<and> (\<forall>i. uv_reaction (f i) (f (Suc i)))"
  then obtain f where f: "f 0 = s" "\<And>i. uv_reaction (f i) (f (Suc i))" by blast
  have run: "uv_run ms (f i) rfs wfs" for i by (induction i) (use f assms uv_reaction_run in \<open>simp, blast\<close>)
  have "u_pending (f (Suc i)) < u_pending (f i)" for i using uv_reaction_run [OF f(2) run] by simp
  moreover have "\<exists>i. \<not> u_pending (f (Suc i)) < u_pending (f i)"
    using wf_no_infinite_down_chainE [OF wf_measure [of u_pending], of f] by auto
  ultimately show False by blast
qed

lemma uv_reactions_reach: "uv_run ms s rfs wfs \<Longrightarrow> \<exists>s'. uv_reaction\<^sup>*\<^sup>* s s' \<and> (\<forall>s''. \<not> uv_reaction s' s'')"
proof (induction "u_pending s" arbitrary: s rule: less_induct)
  case less
  show ?case
  proof (cases "\<exists>s1. uv_reaction s s1")
    case True
    then obtain s1 where "uv_reaction s s1" by blast
    with less show ?thesis using uv_reaction_run [of s s1] by (meson converse_rtranclp_into_rtranclp)
  qed blast
qed

lemma uv_settled:
  assumes run: "uv_run ms s rfs wfs" and stuck: "\<And>s'. \<not> uv_reaction s s'"
  shows "filter is_read (conn_calls (u_conn s b)) = map (\<lambda>(fn, m). ReadCall fn Success m) (zip (take (length (wfs (\<not> b))) (rfs b)) (ms b))"
    and "filter (\<lambda>cl. \<not> is_read cl) (conn_calls (u_conn s b)) = map (\<lambda>fn. WriteCall fn Success) (wfs b)"
proof -
  have "u_wire s b = []" if "h_reading (handle (u_conn s b))"
  proof (rule ccontr)
    assume "u_wire s b \<noteq> []"
    moreover from this have "uv_enabled ms (UData 1) b s rfs wfs" using that by simp
    ultimately show False using uv_run_step [OF run] data_reaction [OF that, of 1] stuck by (metis zero_less_one)
  qed
  then have n: "received rfs b s = min (length (rfs b)) (length (wfs (\<not> b)))" by (rule received_all [OF run])
  have z: "zip (take (min (length xs) k) xs) (take (min (length xs) k) ys) = zip (take k xs) ys" for xs :: "nat list" and k and ys :: "byte list list"
    by (rule nth_equalityI) auto
  show "filter is_read (conn_calls (u_conn s b)) = map (\<lambda>(fn, m). ReadCall fn Success m) (zip (take (length (wfs (\<not> b))) (rfs b)) (ms b))"
    using received_calls(1) [OF run, of b] unfolding n z .
  have "u_requests s b = 0"
    using uv_run_step [OF run, of UWritten b] written_reaction [of s b] stuck by (metis gr0I uv_enabled.simps(6))
  then show "filter (\<lambda>cl. \<not> is_read cl) (conn_calls (u_conn s b)) = map (\<lambda>fn. WriteCall fn Success) (wfs b)"
    using received_calls(2) [OF run, of b] by simp
qed

section \<open>A sample run\<close>

definition uv_sample :: "bool \<Rightarrow> byte list list" where
  "uv_sample b = (if b then [[10, 20, 30]] else [])"

lemma uv_step_other: "uv_step ev b s = Inr s' \<Longrightarrow> u_conn s' (\<not> b) = u_conn s (\<not> b)"
  by (cases ev) (auto simp: u_update_def Let_def bindR_def split: sum.split_asm prod.split_asm)

lemma uv_sample_run:
  "\<exists>s. uv_run uv_sample s (\<lambda>b. if b then [7] else []) (\<lambda>b. if b then [] else [5]) \<and> h_reading (handle (u_conn s True)) \<and> u_wire s True \<noteq> []"
proof -
  let ?cs = "\<lambda>b. if b then UvConnectionImpl_handle ''r'' else UvConnectionImpl_addr ''w'' ''127.0.0.1''"
  define op where "op = StreamReadOperation (UserFn 7)"
  have start: "uv_run uv_sample (uv_start ?cs) (\<lambda>_. []) (\<lambda>_. [])" by (rule uv_begin) auto
  note defs = UvConnectionImpl_handle_def UvConnectionImpl_addr_def uv_new_def uv_new_handle_def uv_start_def conn_initFromLoop_def uv_initImplFromLoop_def
    armCloseCallbackFromLoop_def armAllocCallbackFromLoop_def armReadCallbackFromLoop_def throw_uv_if_def Let_def uv_logs_def conn_logs_def u_update_def
  obtain s1 where s1: "uv_step UInit True (uv_start ?cs) = Inr s1" "uv_run uv_sample s1 (\<lambda>_. []) (\<lambda>_. [])"
    using uv_run_step [OF start, of UInit True] by (auto simp: defs)
  then have h1: "closeCallback (handle (u_conn s1 True))" "\<not> closeCallback (handle (u_conn s1 False))" by (auto simp: defs)
  obtain s2 where s2: "uv_step UInit False s1 = Inr s2" "uv_run uv_sample s2 (\<lambda>_. []) (\<lambda>_. [])"
    using uv_run_step [OF s1(2), of UInit False] h1 by auto
  have h2: "closeCallback (handle (u_conn s2 True))" "closeCallback (handle (u_conn s2 False))" "conn_error (u_conn s2 b) = Success" for b
    using s1(1) s2(1) by (auto simp: defs)
  have fresh: "sr_fresh [10, 20, 30] op"
    by (simp add: sr_fresh_def sr_expects_def op_def StreamReadOperation_def fn_accepts_def)
  obtain s3 where s3: "uv_step (URead op) True s2 = Inr s3" "uv_run uv_sample s3 (\<lambda>b. if b then [7] else []) (\<lambda>_. [])"
    using uv_run_step [OF s2(2), of "URead op" True] h2 fresh
    by (auto simp: uv_sample_def op_def StreamReadOperation_def fun_upd_def cong: if_cong)
  have h3: "closeCallback (handle (u_conn s3 False))" using uv_step_other [OF s3(1)] h2 by simp
  have len: "length (uv_reads (u_conn s3 True)) = 1"
    using received_bound(2) [OF s3(2), of True] u_invD(1) [OF uv_run_inv [OF s3(2)], of True] by (simp add: received_def u_side_def)
  obtain s4 where s4: "uv_step (UWrite [10, 20, 30] 3 5) False s3 = Inr s4" "uv_run uv_sample s4 (\<lambda>b. if b then [7] else []) ((\<lambda>_. [])(False := [5]))"
    using uv_run_step [OF s3(2), of "UWrite [10, 20, 30] 3 5" False] h3 by (auto simp: uv_sample_def)
  have same: "u_conn s4 True = u_conn s3 True" using uv_step_other [OF s4(1)] by simp
  then have "h_reading (handle (u_conn s4 True))" using len u_invD(1) [OF uv_run_inv [OF s3(2)], of True] by (auto simp: u_side_def)
  moreover have "u_wire s4 True \<noteq> []"
    using received_all [OF s4(2), of True] len same by (auto simp: received_def)
  moreover have "(\<lambda>_. [])(False := [5 :: nat]) = (\<lambda>b. if b then [] else [5])" by auto
  ultimately show ?thesis using s4(2) by metis
qed

section \<open>Properties\<close>

text \<open>
  C20: messages arrive. Whatever was asked for on the two sides of a TCP connection, libuv's
  deliveries of bytes and callbacks come to an end, and when they have, each side has received,
  complete and in order, every message that it asked to read and its peer asked to write, and
  every write was reported.
\<close>

theorem uv_all_delivered:
  assumes "uv_run ms s rfs wfs"
  shows "\<not> (\<exists>f. f 0 = s \<and> (\<forall>i. uv_reaction (f i) (f (Suc i)))) \<and>
    (\<forall>s'. uv_reaction\<^sup>*\<^sup>* s s' \<and> (\<forall>s''. \<not> uv_reaction s' s'') \<longrightarrow> (\<forall>b.
      filter is_read (conn_calls (u_conn s' b)) = map (\<lambda>(fn, m). ReadCall fn Success m) (zip (take (length (wfs (\<not> b))) (rfs b)) (ms b)) \<and>
      filter (\<lambda>cl. \<not> is_read cl) (conn_calls (u_conn s' b)) = map (\<lambda>fn. WriteCall fn Success) (wfs b)))"
  using uv_reactions_finite [OF assms] uv_settled [OF uv_reactions_run [OF _ assms]] by blast

theorem uv_all_delivered_witness: "\<exists>s :: uv_sys. filter is_read (conn_calls (u_conn s True)) = [ReadCall 7 Success [10, 20, 30]] \<and>
    filter (\<lambda>cl. \<not> is_read cl) (conn_calls (u_conn s False)) = [WriteCall 5 Success]"
proof -
  obtain s where s: "uv_run uv_sample s (\<lambda>b. if b then [7] else []) (\<lambda>b. if b then [] else [5])" using uv_sample_run by blast
  obtain s' where s': "uv_reaction\<^sup>*\<^sup>* s s'" "\<forall>s''. \<not> uv_reaction s' s''" using uv_reactions_reach [OF s] by blast
  from uv_all_delivered [OF s] s' have "\<forall>b. filter is_read (conn_calls (u_conn s' b)) =
      map (\<lambda>(fn, m). ReadCall fn Success m) (zip (take (length (if \<not> b then [] else [5 :: nat])) (if b then [7] else [])) (uv_sample b)) \<and>
      filter (\<lambda>cl. \<not> is_read cl) (conn_calls (u_conn s' b)) = map (\<lambda>fn. WriteCall fn Success) (if b then [] else [5])" by simp
  from this [THEN spec [of _ True]] this [THEN spec [of _ False]] show ?thesis by (auto simp: uv_sample_def)
qed

text \<open>
  C21: at any time a side has called the callbacks of its first reads, in order, each once and with
  the message that the peer wrote, and those of its first writes.
\<close>

theorem uv_delivers_in_order:
  assumes "uv_run ms s rfs wfs"
  shows "\<exists>n. n \<le> length (rfs b) \<and> n \<le> length (wfs (\<not> b)) \<and>
    filter is_read (conn_calls (u_conn s b)) = map (\<lambda>(fn, m). ReadCall fn Success m) (zip (take n (rfs b)) (take n (ms b)))"
  using received_calls(1) [OF assms] received_bound [OF assms] by blast

theorem uv_delivers_in_order_witness: "\<exists>s n. n \<le> 1 \<and> filter is_read (conn_calls (u_conn (s :: uv_sys) True)) =
    map (\<lambda>(fn, m). ReadCall fn Success m) (zip (take n [7]) (take n [[10, 20, 30]]))"
proof -
  obtain s where "uv_run uv_sample s (\<lambda>b. if b then [7] else []) (\<lambda>b. if b then [] else [5])" using uv_sample_run by blast
  from uv_delivers_in_order [OF this, of True] show ?thesis by (auto simp: uv_sample_def)
qed



end
