(* ===== verification/Uv_Callbacks.thy ===== *)
theory Uv_Callbacks
  imports Uv_System
begin

text \<open>
  The callbacks of one connection over TCP, whatever its peer and libuv do to it. When the
  connection fails or is closed the callbacks of reads are called at once; those of writes are
  called when libuv has finished with the request, which it does, by its documentation, for every
  request before it reports that a handle is closed.
\<close>

section \<open>A connection and its environment\<close>

datatype uvc_event =
    VRead int stream_read
  | VWrite int "byte list" "64 word" nat
  | VConnected int
  | VData int "byte list"
  | VFailed int int
  | VWritten int
  | VClosed
  | VSetId string
  | VClose

fun uvc_task :: "uvc_event \<Rightarrow> uv_conn \<Rightarrow> uv_conn result" where
  "uvc_task (VRead rv op) c = bindR (conn_readFromLoop (uv_startReading rv op) (read_fn_id (sr_fn op)) c ()) (\<lambda>(c', u). Inr c')"
| "uvc_task (VWrite rv src len fn) c = bindR (conn_writeFromLoop (uv_writeImplFromLoop rv src len fn) fn c ()) (\<lambda>(c', u). Inr c')"
| "uvc_task (VConnected status) c = uv_connectCallback status c"
| "uvc_task (VData rv bytes) c = bindR (uv_data rv bytes c) (\<lambda>(k, c'). Inr c')"
| "uvc_task (VFailed rv nread) c = readCallbackFromLoop rv nread c"
| "uvc_task (VWritten status) c = writeCallbackFromLoop status c"
| "uvc_task VClosed c = closeCallbackFromLoop c"
| "uvc_task (VSetId i) c = Inr (conn_setIdFromLoop i c)"
| "uvc_task VClose c = conn_closeFromLoop Inr uv_handleErrorImpl c"

text \<open>What libuv promises, with \<open>r\<close> the number of write requests it has not finished.\<close>

fun uvc_enabled :: "uvc_event \<Rightarrow> uv_conn \<Rightarrow> nat \<Rightarrow> bool" where
  "uvc_enabled (VData rv bytes) c r \<longleftrightarrow> h_reading (handle c)"
| "uvc_enabled (VFailed rv nread) c r \<longleftrightarrow> h_reading (handle c) \<and> nread < 0"
| "uvc_enabled (VWritten status) c r \<longleftrightarrow> 0 < r"
| "uvc_enabled VClosed c r \<longleftrightarrow> h_closing (handle c) \<and> r = 0"
| "uvc_enabled ev c r \<longleftrightarrow> True"

fun uvc_asked :: "uvc_event \<Rightarrow> (nat + nat) multiset" where
  "uvc_asked (VRead rv op) = {#Inl (read_fn_id (sr_fn op))#}"
| "uvc_asked (VWrite rv src len fn) = {#Inr fn#}"
| "uvc_asked ev = {#}"

definition uvc_requests :: "uvc_event \<Rightarrow> uv_conn \<Rightarrow> uv_conn \<Rightarrow> nat \<Rightarrow> nat" where
  "uvc_requests ev c c' r = (case ev of VWritten status \<Rightarrow> r - 1 | _ \<Rightarrow> r) + sent_requests (drop (length (conn_log c)) (conn_log c'))"

inductive uvc_run :: "uv_conn \<Rightarrow> (nat + nat) multiset \<Rightarrow> nat \<Rightarrow> bool" where
  uvc_made: "c = UvConnectionImpl_handle i \<or> c = UvConnectionImpl_addr i a \<Longrightarrow>
    conn_initFromLoop closed (uv_initImplFromLoop closed rv_init rv_connect) c () = Inr (c', u) \<Longrightarrow> uvc_run c' {#} 0"
| uvc_stepped: "uvc_run c given r \<Longrightarrow> uvc_enabled ev c r \<Longrightarrow> uvc_task ev c = Inr c' \<Longrightarrow>
    uvc_run c' (given + uvc_asked ev) (uvc_requests ev c c' r)"

section \<open>Accounting\<close>

definition uvc_account :: "uv_conn \<Rightarrow> (nat + nat) multiset" where
  "uvc_account c = mset (map call_id (conn_calls c)) + mset (map (\<lambda>op. Inl (read_fn_id (sr_fn op))) (uv_reads c)) +
     mset (map (\<lambda>op. Inr (sw_fn op)) (uv_writes c))"

definition uvc_inv :: "uv_conn \<Rightarrow> nat \<Rightarrow> bool" where
  "uvc_inv c r \<longleftrightarrow> (is_error (conn_error c) \<longrightarrow> uv_reads c = []) \<and> (h_closing (handle c) \<longrightarrow> is_error (conn_error c)) \<and> r = length (uv_writes c)"

lemma call_read_fn_id: "call_read_fn fn e bs = Inr cl \<Longrightarrow> call_id cl = Inl (read_fn_id fn)"
  by (cases fn) (auto simp: bindR_eq_Inr throw_assert_if_eq_Inr split: if_split_asm)

lemma failed_reads: "is_error e \<Longrightarrow> uv_failed_reads e ops = Inr (map (\<lambda>op. ReadCall (read_fn_id (sr_fn op)) e []) ops)"
proof (induction ops)
  case (Cons op ops)
  moreover have "read_callbackFromLoop e op = Inr (ReadCall (read_fn_id (sr_fn op)) e [])"
    using Cons.prems by (cases "sr_fn op") (simp_all add: read_callbackFromLoop_def)
  ultimately show ?case by (simp add: uv_failed_reads_def)
qed (simp add: uv_failed_reads_def)

definition uv_failed_conn :: "tp_error \<Rightarrow> uv_conn \<Rightarrow> uv_conn" where
  "uv_failed_conn e c = (conn_logs (map (\<lambda>op. Callback (ReadCall (read_fn_id (sr_fn op)) e [])) (uv_reads c) @ [Effect UvClose]) c)
     \<lparr>conn_error := e, uv_reads := [], handle := (handle c)\<lparr>h_closing := True, h_reading := False\<rparr>\<rparr>"

text \<open>Failing never fails.\<close>

lemma uv_setError_eq:
  assumes "uvc_inv c r"
  shows "uv_setError e c = Inr (if is_error (conn_error c) \<or> \<not> is_error e then c else uv_failed_conn e c)"
  using assms by (auto simp: uv_setError_def conn_setError_def uv_handleErrorImpl_def failed_reads uv_failed_conn_def uvc_inv_def
      handle_closeFromLoop_def dcheck_eq_Inr uv_logs_def conn_logs_def Let_def comp_def)

lemma uv_failed_conn_account:
  "uvc_account (uv_failed_conn e c) = uvc_account c" "is_error e \<Longrightarrow> uvc_inv c r \<Longrightarrow> uvc_inv (uv_failed_conn e c) r"
  "sent_requests (drop (length (conn_log c)) (conn_log (uv_failed_conn e c))) = 0"
proof -
  show "uvc_account (uv_failed_conn e c) = uvc_account c"
    by (simp add: uvc_account_def uv_failed_conn_def conn_calls_def conn_logs_def comp_def ac_simps)
  have "sent_requests (map (\<lambda>op. Callback (g op)) ops @ [Effect UvClose]) = 0" for g :: "stream_read \<Rightarrow> rb_call" and ops by (induction ops) simp_all
  then show "sent_requests (drop (length (conn_log c)) (conn_log (uv_failed_conn e c))) = 0" by (simp add: uv_failed_conn_def conn_logs_def)
qed (simp add: uvc_inv_def uv_failed_conn_def conn_logs_def)

lemma uv_setError_account:
  assumes "uvc_inv c r" and "uv_setError e c = Inr c'"
  shows "uvc_account c' = uvc_account c \<and> uvc_inv c' r \<and> sent_requests (drop (length (conn_log c)) (conn_log c')) = 0 \<and> uv_writes c' = uv_writes c \<and>
    length (conn_log c) \<le> length (conn_log c')"
proof -
  have "uv_writes (uv_failed_conn e c) = uv_writes c" "length (conn_log c) \<le> length (conn_log (uv_failed_conn e c))"
    by (simp_all add: uv_failed_conn_def conn_logs_def)
  then show ?thesis using assms uv_failed_conn_account [where e = e and c = c] by (auto simp: uv_setError_eq split: if_split_asm)
qed

lemma uvc_read_callback:
  assumes "readCallbackFromLoop rv nread c = Inr c'" and "uvc_inv c r"
  shows "uvc_account c' = uvc_account c \<and> uvc_inv c' r \<and> sent_requests (drop (length (conn_log c)) (conn_log c')) = 0"
proof (cases "nread < 0")
  case True
  then show ?thesis using assms uv_setError_account [OF assms(2)] by (simp add: readCallbackFromLoop_def)
next
  case False
  then obtain op ops op' where ops: "uv_reads c = op # ops" and op: "stream_readFromLoop (of_int nread) op = Inr op'"
    using assms(1) by (auto simp: readCallbackFromLoop_def bindR_eq_Inr split: list.split_asm)
  have fn: "sr_fn op' = sr_fn op" using op
    by (auto simp: stream_readFromLoop_def Let_def dcheck_eq_Inr bindR_eq_Inr split: stream_mode.split_asm option.split_asm if_split_asm)
  have e: "\<not> is_error (conn_error c)" using assms(2) ops by (auto simp: uvc_inv_def)
  show ?thesis
  proof (cases "completeFromLoop op'")
    case True
    then obtain cl h where cl: "read_callbackFromLoop Success op' = Inr cl"
      and c': "c' = (conn_logs [Callback cl] c)\<lparr>uv_reads := ops, handle := h\<rparr>" and h: "h_closing h = h_closing (handle c)"
    proof -
      obtain cl where "read_callbackFromLoop Success op' = Inr cl" using assms(1) False ops op True by (auto simp: readCallbackFromLoop_def bindR_eq_Inr)
      moreover have "\<exists>h. c' = (conn_logs [Callback cl] c)\<lparr>uv_reads := ops, handle := h\<rparr> \<and> h_closing h = h_closing (handle c)"
      proof (cases "ops = []")
        case ops': True
        then show ?thesis using assms(1) False ops op True calculation
          by (auto simp: readCallbackFromLoop_def bindR_eq_Inr readStopFromLoop_def throw_uv_if_def conn_logs_def Let_def split: if_split_asm)
      next
        case ops': False
        have "c' = (conn_logs [Callback cl] c)\<lparr>uv_reads := ops, handle := handle c\<rparr>"
          using assms(1) False ops op True calculation ops' by (cases c) (auto simp: readCallbackFromLoop_def conn_logs_def Let_def)
        then show ?thesis by blast
      qed
      ultimately show thesis using that by blast
    qed
    have "call_id cl = Inl (read_fn_id (sr_fn op))" using call_read_fn_id cl fn by (simp add: read_callbackFromLoop_def)
    then show ?thesis using assms(2) ops h e
      by (simp add: c' uvc_account_def uvc_inv_def conn_logs_def conn_calls_def)
  next
    case cont: False
    then have "c' = c\<lparr>uv_reads := op' # ops\<rparr>" using assms(1) False ops op by (simp add: readCallbackFromLoop_def)
    then show ?thesis using assms(2) ops fn e by (simp add: uvc_account_def uvc_inv_def conn_calls_def)
  qed
qed

lemma uvc_data:
  assumes "uv_data rv bytes c = Inr (k, c')" and "uvc_inv c r"
  shows "uvc_account c' = uvc_account c \<and> uvc_inv c' r \<and> sent_requests (drop (length (conn_log c)) (conn_log c')) = 0"
proof -
  obtain len where "allocCallbackFromLoop c = Inr len" using assms(1) by (auto simp: uv_data_def bindR_eq_Inr)
  moreover from this obtain op ops where ops: "uv_reads c = op # ops" by (auto simp: allocCallbackFromLoop_def split: list.split_asm)
  moreover define bs where "bs = take (unat len) bytes"
  ultimately have run: "readCallbackFromLoop rv (int (length bs)) (c\<lparr>uv_reads := stream_store bs op # ops\<rparr>) = Inr c'"
    using assms(1) by (auto simp: uv_data_def bindR_eq_Inr Let_def)
  have "sr_fn (stream_store bs op) = sr_fn op" by (simp add: stream_store_def)
  then have "uvc_account (c\<lparr>uv_reads := stream_store bs op # ops\<rparr>) = uvc_account c" "uvc_inv (c\<lparr>uv_reads := stream_store bs op # ops\<rparr>) r"
    using assms(2) ops by (auto simp: uvc_account_def uvc_inv_def conn_calls_def)
  then show ?thesis using uvc_read_callback [OF run] by simp
qed

lemma uvc_read:
  assumes "conn_readFromLoop (uv_startReading rv op) (read_fn_id (sr_fn op)) c () = Inr (c', u)" and "uvc_inv c r"
  shows "uvc_account c' = add_mset (Inl (read_fn_id (sr_fn op))) (uvc_account c) \<and> uvc_inv c' r \<and> sent_requests (drop (length (conn_log c)) (conn_log c')) = 0"
  using assms by (auto simp: conn_readFromLoop_def uv_startReading_def readStartFromLoop_def throw_uv_if_def throw_assert_if_eq_Inr Let_def
      bindR_eq_Inr uvc_account_def uvc_inv_def conn_calls_def conn_logs_def split: if_split_asm)

lemma uvc_write:
  assumes "conn_writeFromLoop (uv_writeImplFromLoop rv src len fn) fn c () = Inr (c', u)" and "uvc_inv c r"
  shows "uvc_account c' = add_mset (Inr fn) (uvc_account c) \<and> uvc_inv c' (r + sent_requests (drop (length (conn_log c)) (conn_log c')))"
  using assms by (auto simp: conn_writeFromLoop_def uv_writeImplFromLoop_def throw_uv_if_def Let_def StreamWriteOperation_def
      uvc_account_def uvc_inv_def conn_calls_def conn_logs_def uv_logs_def split: if_split_asm)

lemma uvc_written:
  assumes inv: "uvc_inv c r" and "0 < r"
  shows "\<exists>c'. writeCallbackFromLoop status c = Inr c' \<and> uvc_account c' = uvc_account c \<and> uvc_inv c' (r - 1) \<and>
    sent_requests (drop (length (conn_log c)) (conn_log c')) = 0"
proof -
  define c1 where "c1 = (if status < 0 \<and> \<not> is_error (conn_error c) then uv_failed_conn uv_error c else c)"
  have err: "is_error uv_error" by (simp add: uv_error_def)
  have c1: "(if status < 0 then uv_setError uv_error c else Inr c) = Inr c1" using uv_setError_eq [OF inv, of uv_error] err by (simp add: c1_def)
  have a: "uvc_account c1 = uvc_account c" "uvc_inv c1 r" "sent_requests (drop (length (conn_log c)) (conn_log c1)) = 0" "length (conn_log c) \<le> length (conn_log c1)"
    using uv_failed_conn_account [where e = uv_error and c = c] inv err by (auto simp: c1_def) (simp add: uv_failed_conn_def conn_logs_def)
  obtain op ops where ops: "uv_writes c1 = op # ops" using a(2) assms(2) by (cases "uv_writes c1") (simp_all add: uvc_inv_def)
  let ?c = "(conn_logs [Callback (write_callbackFromLoop (conn_error c1) op)] c1)\<lparr>uv_writes := ops\<rparr>"
  have "writeCallbackFromLoop status c = Inr ?c" using c1 ops by (simp add: writeCallbackFromLoop_def)
  moreover have "uvc_account ?c = uvc_account c" unfolding a(1) [symmetric]
    by (simp add: uvc_account_def conn_calls_def conn_logs_def ops write_callbackFromLoop_def)
  moreover have "uvc_inv ?c (r - 1)" using a(2) ops by (simp add: uvc_inv_def conn_logs_def)
  moreover have "sent_requests (es @ [Callback cl]) = sent_requests es" for es and cl by (induction es rule: sent_requests.induct) simp_all
  then have "sent_requests (drop (length (conn_log c)) (conn_log ?c)) = 0" using a(3,4) by (simp add: conn_logs_def)
  ultimately show ?thesis by blast
qed

lemma uvc_step_account:
  assumes en: "uvc_enabled ev c r" and run: "uvc_task ev c = Inr c'" and inv: "uvc_inv c r"
  shows "uvc_account c' = uvc_account c + uvc_asked ev \<and> uvc_inv c' (uvc_requests ev c c' r)"
proof (cases ev)
  case (VRead rv op)
  then show ?thesis using run uvc_read [OF _ inv] by (auto simp: bindR_eq_Inr uvc_requests_def)
next
  case (VWrite rv src len fn)
  then show ?thesis using run uvc_write [OF _ inv] by (auto simp: bindR_eq_Inr uvc_requests_def)
next
  case (VConnected status)
  then show ?thesis using run inv uv_setError_account [OF inv] by (auto simp: uv_connectCallback_def uvc_requests_def split: if_split_asm)
next
  case (VData rv bytes)
  then show ?thesis using run uvc_data [OF _ inv] by (auto simp: bindR_eq_Inr uvc_requests_def)
next
  case (VFailed rv nread)
  then show ?thesis using run uvc_read_callback [OF _ inv] by (simp add: uvc_requests_def)
next
  case (VWritten status)
  then show ?thesis using run en uvc_written [OF inv, of status] by (simp add: uvc_requests_def)
next
  case VClosed
  then show ?thesis using run inv
    by (auto simp: closeCallbackFromLoop_def dcheck_eq_Inr uv_logs_def conn_logs_def uvc_account_def uvc_inv_def conn_calls_def uvc_requests_def)
next
  case (VSetId i)
  then show ?thesis using run inv by (auto simp: conn_setIdFromLoop_def uvc_account_def uvc_inv_def conn_calls_def uvc_requests_def)
next
  case VClose
  then show ?thesis using run uv_setError_account [OF inv] by (simp add: conn_closeFromLoop_def uv_setError_def uvc_requests_def)
qed

lemma uvc_run_account: "uvc_run c given r \<Longrightarrow> uvc_account c = given \<and> uvc_inv c r"
proof (induction rule: uvc_run.induct)
  case (uvc_made c i a closed rv_init rv_connect c' u)
  then show ?case
    by (auto simp: conn_initFromLoop_def uv_initImplFromLoop_def UvConnectionImpl_handle_def UvConnectionImpl_addr_def uv_new_def uv_new_handle_def
        bindR_eq_Inr throw_assert_if_eq_Inr throw_uv_if_def armCloseCallbackFromLoop_def armAllocCallbackFromLoop_def armReadCallbackFromLoop_def
        uv_logs_def conn_logs_def uvc_account_def uvc_inv_def conn_calls_def Let_def split: if_split_asm)
next
  case (uvc_stepped c given r ev c')
  then show ?case using uvc_step_account by blast
qed

section \<open>Properties\<close>

text \<open>
  C23: a connection over TCP calls each callback at most once. Once it has failed or was closed it
  has called those of all reads, the callback of every unfinished write request can be handled,
  and when libuv has finished them, it has called every callback that it was given, and the
  handle's closing leaves no write behind. This holds for all behaviour of the peer and all
  errors of libuv.
\<close>

theorem uv_callbacks_once:
  assumes "uvc_run c given r"
  shows "mset (map call_id (conn_calls c)) \<subseteq># given \<and>
    (is_error (conn_error c) \<longrightarrow> filter_mset isl (mset (map call_id (conn_calls c))) = filter_mset isl given) \<and>
    (0 < r \<longrightarrow> (\<exists>c'. writeCallbackFromLoop status c = Inr c')) \<and>
    (is_error (conn_error c) \<and> r = 0 \<longrightarrow> mset (map call_id (conn_calls c)) = given \<and> (\<exists>c'. closeCallbackFromLoop c = Inr c'))"
proof -
  have a: "uvc_account c = given" and inv: "uvc_inv c r" using uvc_run_account [OF assms] by simp_all
  have w: "0 < r \<Longrightarrow> \<exists>c'. writeCallbackFromLoop status c = Inr c'" using uvc_written [OF inv, of status] by blast
  have "filter_mset isl (mset (map (\<lambda>op. Inr (sw_fn op) :: nat + nat) ops)) = {#}" for ops by (induction ops) simp_all
  then show ?thesis using inv w unfolding a [symmetric]
    by (auto simp: uvc_account_def uvc_inv_def closeCallbackFromLoop_def)
qed

theorem uv_callbacks_once_witness:
  "\<exists>c :: uv_conn. conn_error c = ConnectionClosedError \<and> mset (map call_id (conn_calls c)) = {#Inl 3, Inr 4#}"
proof -
  define h where "h = \<lparr>closeCallback = True, allocCallback = True, readCallback = True, h_reading = False, h_closing = False\<rparr>"
  define c0 where "c0 = (uv_new ''c'' None)\<lparr>conn_log := [Effect UvEnroll], handle := h\<rparr>"
  have "conn_initFromLoop False (uv_initImplFromLoop False 0 0) (UvConnectionImpl_handle ''c'') () = Inr (c0, ())"
    by (simp add: conn_initFromLoop_def uv_initImplFromLoop_def UvConnectionImpl_handle_def c0_def h_def uv_new_def uv_new_handle_def uv_logs_def
        conn_logs_def armCloseCallbackFromLoop_def armAllocCallbackFromLoop_def armReadCallbackFromLoop_def)
  then have run0: "uvc_run c0 {#} 0" by (rule uvc_made [OF disjI1 [OF refl]])
  define op where "op = StreamReadOperation (UserFn 3)"
  define c1 where "c1 = c0\<lparr>nextBufferBeingRead := 1, uv_reads := [op], handle := h\<lparr>h_reading := True\<rparr>\<rparr>"
  have "uvc_task (VRead 0 op) c0 = Inr c1"
    by (simp add: c1_def c0_def h_def uv_new_def conn_readFromLoop_def uv_startReading_def readStartFromLoop_def throw_uv_if_def)
  from uvc_stepped [OF run0 _ this] have run1: "uvc_run c1 {#Inl 3#} 0"
    by (simp add: uvc_requests_def c1_def op_def StreamReadOperation_def)
  define w where "w = StreamWriteOperation [1] 1 4"
  define c2 where "c2 = (uv_logs [UvWrite (getBufs w)] c1)\<lparr>nextBufferBeingWritten := 1, uv_writes := [w]\<rparr>"
  have "uvc_task (VWrite 0 [1] 1 4) c1 = Inr c2"
    by (simp add: c2_def c1_def c0_def h_def uv_new_def conn_writeFromLoop_def uv_writeImplFromLoop_def throw_uv_if_def uv_logs_def conn_logs_def w_def Let_def)
  from uvc_stepped [OF run1 _ this] have run2: "uvc_run c2 {#Inl 3, Inr 4#} 1"
    by (simp add: uvc_requests_def c2_def uv_logs_def conn_logs_def add_mset_commute)
  have inv: "uvc_inv c2 1" using uvc_run_account [OF run2] by simp
  define c3 where "c3 = uv_failed_conn ConnectionClosedError c2"
  have e2: "conn_error c2 = Success" by (simp add: c2_def c1_def c0_def uv_new_def uv_logs_def)
  then have "uvc_task VClose c2 = Inr c3"
    using uv_setError_eq [OF inv, of ConnectionClosedError] by (simp add: c3_def conn_closeFromLoop_def uv_setError_def)
  from uvc_stepped [OF run2 _ this] have run3: "uvc_run c3 {#Inl 3, Inr 4#} 1"
    using uv_failed_conn_account(3) [where e = ConnectionClosedError and c = c2] by (simp add: uvc_requests_def c3_def)
  have e3: "conn_error c3 = ConnectionClosedError" "uv_writes c3 = [w]"
    by (simp_all add: c3_def uv_failed_conn_def c2_def conn_logs_def)
  define c4 where "c4 = (conn_logs [Callback (WriteCall 4 ConnectionClosedError)] c3)\<lparr>uv_writes := []\<rparr>"
  have "uvc_task (VWritten (- 125)) c3 = Inr c4"
    using e3 by (simp add: writeCallbackFromLoop_def uv_setError_def conn_setError_def c4_def write_callbackFromLoop_def w_def StreamWriteOperation_def)
  from uvc_stepped [OF run3 _ this] have "uvc_run c4 {#Inl 3, Inr 4#} 0" by (simp add: uvc_requests_def c4_def conn_logs_def)
  from uv_callbacks_once [OF this] e3 show ?thesis by (intro exI [of _ c4]) (simp add: c4_def)
qed

end
